(* ===== verification/Prelude.thy ===== *)
theory Prelude
  imports Main "HOL-Library.Word"
begin

unbundle bit_operations_syntax

text \<open>
  Shared vocabulary of the development: the C integer types as words, \<open>size_t\<close> arithmetic
  as naturals with the wrap-around written out, raw memory as byte lists, the heap allocator
  as a parameter, and the big- and little-endian readings of byte strings with their laws.
  The collection \<open>wire\<close> holds the facts about byte strings that the codec proofs share;
  \<open>buffer\<close> holds the facts about writes into a block of memory.
\<close>

named_theorems wire "byte-string encodings and their inverses"
named_theorems buffer "reads of a memory block after a write"

section \<open>C integer types\<close>

type_synonym byte = "8 word"
type_synonym u16 = "16 word"
type_synonym u32 = "32 word"
type_synonym u64 = "64 word"

text \<open>
  \<open>size_t\<close> has 64 bits on the target (arm64 iOS). A \<open>size_t\<close> value is a natural number;
  every operation of the code that can leave the range goes through \<open>sz\<close>.
\<close>

definition SIZE_MODULUS :: nat where
  "SIZE_MODULUS = 2 ^ 64"

definition sz :: "nat \<Rightarrow> nat" where
  "sz n = n mod SIZE_MODULUS"

definition INT_MAX :: nat where
  "INT_MAX = 2147483647"

definition w32 :: "nat \<Rightarrow> nat" where
  "w32 n = n mod 4294967296"

lemma w32_id [simp]: "n < 4294967296 \<Longrightarrow> w32 n = n"
  by (simp add: w32_def)

lemma sz_less [simp]: "sz n < SIZE_MODULUS"
  by (simp add: sz_def SIZE_MODULUS_def)

lemma sz_id [simp]: "n < SIZE_MODULUS \<Longrightarrow> sz n = n"
  by (simp add: sz_def)

lemma sz_le: "sz n \<le> n"
  by (simp add: sz_def)

lemma size_modulus_pos [simp]: "0 < SIZE_MODULUS"
  by (simp add: SIZE_MODULUS_def)

text \<open>The test \<open>a + b < a\<close> of the code is exactly the test for wrap-around.\<close>

lemma sz_add_overflow_iff:
  assumes "a < SIZE_MODULUS" and "b < SIZE_MODULUS"
  shows "sz (a + b) < a \<longleftrightarrow> SIZE_MODULUS \<le> a + b"
proof (cases "a + b < SIZE_MODULUS")
  case True
  then show ?thesis by simp
next
  case False
  with assms have "sz (a + b) = a + b - SIZE_MODULUS"
    by (simp add: sz_def mod_if)
  with False assms show ?thesis by arith
qed

section \<open>Memory blocks\<close>

text \<open>\<open>memcpy (buf + off, xs, length xs)\<close> into a block that has room for it.\<close>

definition write_at :: "'a list \<Rightarrow> nat \<Rightarrow> 'a list \<Rightarrow> 'a list" where
  "write_at buf off xs = take off buf @ xs @ drop (off + length xs) buf"

lemma length_write_at [simp, buffer]:
  "off + length xs \<le> length buf \<Longrightarrow> length (write_at buf off xs) = length buf"
  by (simp add: write_at_def)

lemma take_write_at [simp, buffer]:
  "off \<le> length buf \<Longrightarrow> n \<le> off \<Longrightarrow> take n (write_at buf off xs) = take n buf"
  by (simp add: write_at_def min_absorb1)

lemma take_write_at_end [simp, buffer]:
  "off \<le> length buf \<Longrightarrow> take (off + length xs) (write_at buf off xs) = take off buf @ xs"
  by (simp add: write_at_def)

lemma drop_write_at [simp, buffer]:
  assumes "off + length xs \<le> n" and "n \<le> length buf"
  shows "drop n (write_at buf off xs) = drop n buf"
proof -
  obtain k where k: "n = off + length xs + k"
    using assms(1) le_iff_add by blast
  have "drop n (write_at buf off xs) = drop (length xs + k) (xs @ drop (off + length xs) buf)"
    using assms by (simp add: write_at_def k)
  also have "\<dots> = drop n buf" by (simp add: k add_ac)
  finally show ?thesis .
qed

lemma write_at_nil [simp]: "write_at buf off [] = buf"
  by (simp add: write_at_def)

lemma nth_write_at [buffer]:
  assumes "off + length xs \<le> length buf" and "i < length buf"
  shows "write_at buf off xs ! i =
    (if i < off then buf ! i else if i < off + length xs then xs ! (i - off) else buf ! i)"
  using assms by (auto simp: write_at_def nth_append min_absorb1)

lemma write_at_write_at_adjacent [buffer]:
  assumes "off + length xs + length ys \<le> length buf"
  shows "write_at (write_at buf off xs) (off + length xs) ys = write_at buf off (xs @ ys)"
proof (rule nth_equalityI)
  show "length (write_at (write_at buf off xs) (off + length xs) ys)
      = length (write_at buf off (xs @ ys))"
    using assms by simp
next
  fix i assume "i < length (write_at (write_at buf off xs) (off + length xs) ys)"
  with assms have i: "i < length buf" by simp
  with assms show "write_at (write_at buf off xs) (off + length xs) ys ! i
      = write_at buf off (xs @ ys) ! i"
    by (auto simp: nth_write_at nth_append)
qed

section \<open>The heap allocator\<close>

text \<open>
  \<open>malloc\<close> of the C library may fail and leaves fresh memory unspecified. An \<open>allocator\<close> says which
  requests succeed and what the fresh bytes hold; the definitions take it as an argument and the
  theorems hold for every allocator. No object is larger than \<open>PTRDIFF_MAX\<close>, so \<open>malloc\<close> refuses such requests.
\<close>

record allocator =
  can_alloc :: "nat \<Rightarrow> bool"
  junk :: "nat \<Rightarrow> byte"

definition PTRDIFF_MAX :: nat where
  "PTRDIFF_MAX = 9223372036854775807"

text \<open>
  \<open>OPENSSL_malloc\<close> of \<open>crypto/mem.c\<close> asks for the size and a prefix of 8 bytes, a sum that wraps around.
  \<open>mallocs\<close> says whether that succeeds and \<open>usable\<close> how many bytes there are behind the prefix; for
  the sizes up to 8 below \<open>2 ^ 64\<close> these are fewer than were asked for.
\<close>

definition OPENSSL_MALLOC_PREFIX :: nat where
  "OPENSSL_MALLOC_PREFIX = 8"

definition mallocs :: "allocator \<Rightarrow> nat \<Rightarrow> bool" where
  "mallocs al n \<longleftrightarrow> sz (n + OPENSSL_MALLOC_PREFIX) \<le> PTRDIFF_MAX \<and> can_alloc al (sz (n + OPENSSL_MALLOC_PREFIX))"

definition usable :: "nat \<Rightarrow> nat" where
  "usable n = sz (n + OPENSSL_MALLOC_PREFIX) - OPENSSL_MALLOC_PREFIX"

definition OPENSSL_malloc :: "allocator \<Rightarrow> nat \<Rightarrow> byte list option" where
  "OPENSSL_malloc al n = (if mallocs al n then Some (map (junk al) [0..<usable n]) else None)"

text \<open>\<open>OPENSSL_realloc\<close> copies into a new block; a null pointer is the empty block.\<close>

definition OPENSSL_realloc :: "allocator \<Rightarrow> byte list \<Rightarrow> nat \<Rightarrow> byte list option" where
  "OPENSSL_realloc al buf n =
     (case OPENSSL_malloc al n of None \<Rightarrow> None | Some ret \<Rightarrow> Some (write_at ret 0 (take n buf)))"

text \<open>Sizes of blocks that exist leave room for the prefix, also when they are doubled or added.\<close>

definition block_size :: "nat \<Rightarrow> bool" where
  "block_size n \<longleftrightarrow> n + OPENSSL_MALLOC_PREFIX \<le> PTRDIFF_MAX"

lemma usable_id [simp]: "n + 8 < SIZE_MODULUS \<Longrightarrow> usable n = n"
  by (simp add: usable_def OPENSSL_MALLOC_PREFIX_def)

lemma block_size_less: "block_size n \<Longrightarrow> n < SIZE_MODULUS"
  by (simp add: block_size_def OPENSSL_MALLOC_PREFIX_def PTRDIFF_MAX_def SIZE_MODULUS_def)

lemma block_size_double: "block_size n \<Longrightarrow> n * 2 + 8 < SIZE_MODULUS"
  by (simp add: block_size_def OPENSSL_MALLOC_PREFIX_def PTRDIFF_MAX_def SIZE_MODULUS_def)

lemma block_size_add: "block_size m \<Longrightarrow> n \<le> PTRDIFF_MAX \<Longrightarrow> m + n + 8 < SIZE_MODULUS"
  by (simp add: block_size_def OPENSSL_MALLOC_PREFIX_def PTRDIFF_MAX_def SIZE_MODULUS_def)

lemma object_size: "n \<le> PTRDIFF_MAX \<Longrightarrow> n + 8 < SIZE_MODULUS"
  by (simp add: PTRDIFF_MAX_def SIZE_MODULUS_def)

lemma block_size_mono: "block_size n \<Longrightarrow> m \<le> n \<Longrightarrow> block_size m"
  by (simp add: block_size_def)

lemma mallocs_block_size: "mallocs al n \<Longrightarrow> n + 8 < SIZE_MODULUS \<Longrightarrow> block_size n"
  by (simp add: mallocs_def block_size_def OPENSSL_MALLOC_PREFIX_def)

lemma OPENSSL_malloc_length:
  "OPENSSL_malloc al n = Some b \<Longrightarrow> n + 8 < SIZE_MODULUS \<Longrightarrow> length b = n \<and> block_size n"
  by (auto simp: OPENSSL_malloc_def mallocs_block_size split: if_splits)

lemma OPENSSL_realloc_length:
  "OPENSSL_realloc al buf n = Some b \<Longrightarrow> n + 8 < SIZE_MODULUS \<Longrightarrow> length b = n \<and> block_size n"
  by (auto simp: OPENSSL_realloc_def write_at_def split: option.splits dest: OPENSSL_malloc_length)

lemma OPENSSL_realloc_take:
  "OPENSSL_realloc al buf n = Some b \<Longrightarrow> k \<le> n \<Longrightarrow> k \<le> length buf \<Longrightarrow> take k b = take k buf"
  by (auto simp: OPENSSL_realloc_def write_at_def min_absorb1 split: option.splits)

text \<open>The allocator that grants every request for a block that can exist; it serves in examples.\<close>

definition every_block :: allocator where
  "every_block = \<lparr>can_alloc = (\<lambda>_. True), junk = (\<lambda>_. 0)\<rparr>"

lemma every_block_mallocs: "block_size n \<Longrightarrow> mallocs every_block n"
  using block_size_add [of n 0]
  by (simp add: mallocs_def every_block_def block_size_def OPENSSL_MALLOC_PREFIX_def)

lemma every_block_small: "n < 1000 \<Longrightarrow> mallocs every_block n" "n < 1000 \<Longrightarrow> usable n = n"
  using every_block_mallocs [of n]
  by (simp_all add: block_size_def PTRDIFF_MAX_def OPENSSL_MALLOC_PREFIX_def SIZE_MODULUS_def)

section \<open>Big- and little-endian byte strings\<close>

definition be_nat :: "byte list \<Rightarrow> nat" where
  "be_nat bs = foldl (\<lambda>acc b. acc * 256 + unat b) 0 bs"

fun be_bytes :: "nat \<Rightarrow> nat \<Rightarrow> byte list" where
  "be_bytes 0 v = []"
| "be_bytes (Suc n) v = be_bytes n (v div 256) @ [word_of_nat v]"

lemma unat_byte_less [simp]: "unat (b :: byte) < 256"
  using unsigned_less [of b] by simp

lemma unat_u32_less: "unat (w :: u32) < 4294967296"
  using unsigned_less [of w, where 'a = nat] by simp

lemma unat_u64_less: "unat (w :: u64) < 18446744073709551616"
  using unsigned_less [of w, where 'a = nat] by simp

lemma unat_drop_bit_div: "unat (drop_bit k w) = unat w div 2 ^ k"
  unfolding unat_drop_bit_eq by (rule drop_bit_eq_div)

lemma unat_byte_u32 [simp]: "unat (ucast (b :: byte) :: u32) = unat b"
  unfolding unsigned_ucast_eq
  by (simp only: take_bit_nat_eq_self_iff) (rule order.strict_trans [OF unat_byte_less], simp)

lemma unat_byte_u64 [simp]: "unat (ucast (b :: byte) :: u64) = unat b"
  unfolding unsigned_ucast_eq
  by (simp only: take_bit_nat_eq_self_iff) (rule order.strict_trans [OF unat_byte_less], simp)

lemma ucast_byte_inj: "(ucast (a :: byte) :: u32) = ucast b \<longleftrightarrow> a = b"
  by (metis unat_byte_u32 unsigned_word_eqI)

text \<open>Comparing the leading digit of a number in positional notation.\<close>

lemma leading_digit_less: "m < B \<Longrightarrow> h * B + m < c * B \<longleftrightarrow> h < (c :: nat)"
  using div_less_iff_less_mult [of B "h * B + m" c] by simp

text \<open>A statement about every byte is decided by evaluating it on the 256 of them.\<close>

lemma byte_all: "(\<forall>b :: byte. P b) \<longleftrightarrow> list_all (\<lambda>n. P (word_of_nat n)) [0..<256]"
proof
  assume all: "list_all (\<lambda>n. P (word_of_nat n)) [0..<256]"
  show "\<forall>b. P b"
  proof
    fix b :: byte
    have "unat b \<in> set [0..<256]" by simp
    with all have "P (word_of_nat (unat b))" unfolding list_all_iff by (rule bspec)
    then show "P b" by simp
  qed
qed (simp add: list_all_iff)

lemma and_80_all: "\<forall>b :: byte. b AND 0x80 = 0 \<longleftrightarrow> unat b < 128"
  unfolding byte_all by code_simp

lemma and_80_byte: "(b :: byte) AND 0x80 = 0 \<longleftrightarrow> unat b < 128"
  using and_80_all by blast

lemma length_be_bytes [simp]: "length (be_bytes n v) = n"
  by (induction n v rule: be_bytes.induct) simp_all

lemma be_nat_Nil [simp]: "be_nat [] = 0"
  by (simp add: be_nat_def)

lemma be_nat_snoc [simp]: "be_nat (bs @ [b]) = be_nat bs * 256 + unat b"
  by (simp add: be_nat_def)

lemma be_nat_bound: "be_nat bs < 256 ^ length bs"
proof (induction bs rule: rev_induct)
  case Nil
  then show ?case by simp
next
  case (snoc b bs)
  have "be_nat bs * 256 + unat b < (be_nat bs + 1) * 256"
    using unat_byte_less [of b] by simp
  also have "\<dots> \<le> 256 ^ length bs * 256"
    using snoc by (metis Suc_eq_plus1 Suc_leI mult_le_mono1)
  finally show ?case by (simp add: mult.commute)
qed

lemma unat_word_of_nat_byte [simp]: "unat (word_of_nat v :: byte) = v mod 256"
  by (simp add: unat_of_nat)

lemma unat_ucast_byte: "unat (ucast w :: byte) = unat w mod 256"
  by (simp add: unsigned_ucast_eq take_bit_eq_mod)

lemma be_nat_be_bytes [wire]: "be_nat (be_bytes n v) = v mod 256 ^ n"
proof (induction n v rule: be_bytes.induct)
  case (1 v)
  then show ?case by simp
next
  case (2 n v)
  then show ?case by (simp add: mod_mult2_eq mult.commute)
qed

lemma be_bytes_be_nat [wire]: "be_bytes (length bs) (be_nat bs) = bs"
proof (induction bs rule: rev_induct)
  case Nil
  then show ?case by simp
next
  case (snoc b bs)
  have "(be_nat bs * 256 + unat b) div 256 = be_nat bs"
    using unat_byte_less [of b] by simp
  moreover have "(word_of_nat (be_nat bs * 256 + unat b) :: byte) = b"
  proof (rule unsigned_word_eqI)
    show "unat (word_of_nat (be_nat bs * 256 + unat b) :: byte) = unat b"
      using unat_byte_less [of b] by (simp only: unat_word_of_nat_byte) simp
  qed
  ultimately show ?case using snoc by simp
qed

lemma be_nat_Cons: "be_nat (b # bs) = unat b * 256 ^ length bs + be_nat bs"
proof (induction bs rule: rev_induct)
  case Nil
  have "be_nat ([] @ [b]) = unat b" by (simp only: be_nat_snoc be_nat_Nil)
  then show ?case by simp
next
  case (snoc c bs)
  have "be_nat ((b # bs) @ [c]) = be_nat (b # bs) * 256 + unat c"
    by (rule be_nat_snoc)
  with snoc show ?case by (simp add: algebra_simps)
qed

fun le_nat :: "byte list \<Rightarrow> nat" where
  "le_nat [] = 0"
| "le_nat (b # bs) = unat b + 256 * le_nat bs"

fun le_bytes :: "nat \<Rightarrow> nat \<Rightarrow> byte list" where
  "le_bytes 0 v = []"
| "le_bytes (Suc n) v = word_of_nat v # le_bytes n (v div 256)"

lemma length_le_bytes [simp]: "length (le_bytes n v) = n"
  by (induction n v rule: le_bytes.induct) simp_all

lemma le_nat_le_bytes [wire]: "le_nat (le_bytes n v) = v mod 256 ^ n"
proof (induction n v rule: le_bytes.induct)
  case (1 v)
  then show ?case by simp
next
  case (2 n v)
  then show ?case by (simp add: mod_mult2_eq add.commute)
qed

lemma le_nat_bound: "le_nat bs < 256 ^ length bs"
proof (induction bs)
  case Nil
  then show ?case by simp
next
  case (Cons b bs)
  have "unat b + 256 * le_nat bs < 256 * (le_nat bs + 1)"
    using unat_byte_less [of b] by simp
  also have "\<dots> \<le> 256 * 256 ^ length bs"
    using Cons by (metis Suc_eq_plus1 Suc_leI mult_le_mono2)
  finally show ?case by simp
qed

section \<open>Words whose bits do not meet\<close>

lemma not_bit_ge:
  fixes r :: "'w::len word"
  assumes "unat r < 2 ^ k" and "k \<le> n"
  shows "\<not> bit r n"
proof -
  have "unat r < 2 ^ n"
    using assms by (meson le_less_trans less_le_trans not_less one_le_numeral power_increasing)
  then have "\<not> bit (unat r) n" by (simp add: bit_iff_odd)
  then show ?thesis
    by (metis bit_imp_le_length bit_unsigned_iff possible_bit_nat possible_bit_def bit_nat_iff)
qed

lemma or_push_bit_add:
  fixes r x :: "'w::len word"
  assumes "unat r < 2 ^ k"
  shows "r OR push_bit k x = r + push_bit k x"
proof -
  have "r AND push_bit k x = 0"
    by (rule bit_word_eqI) (auto simp: bit_simps dest: not_bit_ge [OF assms])
  then show ?thesis by (simp add: disjunctive_add_eq_or)
qed

lemma sless_zero_iff: "(v :: 'w::len word) <s 0 \<longleftrightarrow> bit v (LENGTH('w) - 1)"
  by (simp add: word_sless_alt bit_last_iff)

lemma and_one_iff: "(x :: 'w::len word) AND 1 \<noteq> 0 \<longleftrightarrow> bit x 0"
  by (simp add: and_one_eq bit_0 even_iff_mod_2_eq_zero)

lemma and_7F_byte: "unat ((b :: byte) AND 0x7F) = unat b mod 128"
proof -
  have "b AND 0x7F = take_bit 7 b" by (simp add: take_bit_eq_mask mask_numeral)
  then show ?thesis by (simp add: unsigned_take_bit_eq take_bit_eq_mod [of _ "unat b"])
qed

lemma push_bit_word_of_nat:
  "push_bit k (word_of_nat n :: 'w::len word) = word_of_nat (n * 2 ^ k)"
  by (simp add: push_bit_eq_mult)

section \<open>Bytewise exclusive or\<close>

lemma xor_eq_0_iff: "(a :: 'w::len word) XOR b = 0 \<longleftrightarrow> a = b"
  by (metis xor.assoc xor.right_neutral xor_self_eq xor.left_neutral)

definition xor_bytes :: "byte list \<Rightarrow> byte list \<Rightarrow> byte list" where
  "xor_bytes xs ys = map2 (\<lambda>x y. x XOR y) xs ys"

lemma length_xor_bytes [simp]: "length (xor_bytes xs ys) = min (length xs) (length ys)"
  by (simp add: xor_bytes_def)

lemma xor_bytes_cancel:
  "length xs \<le> length ys \<Longrightarrow> xor_bytes (xor_bytes xs ys) ys = xs"
  by (rule nth_equalityI) (simp_all add: xor_bytes_def xor.assoc)

lemma xor_bytes_nil [simp]: "xor_bytes [] ys = []" "xor_bytes xs [] = []"
  by (simp_all add: xor_bytes_def)

lemma xor_bytes_Cons [simp]: "xor_bytes (x # xs) (y # ys) = (x XOR y) # xor_bytes xs ys"
  by (simp add: xor_bytes_def)

lemma xor_bytes_append:
  "length xs = length ys \<Longrightarrow> xor_bytes (xs @ xs') (ys @ ys') = xor_bytes xs ys @ xor_bytes xs' ys'"
  by (simp add: xor_bytes_def)

end
