(* ===== verification/Pb_Ostream.thy ===== *)
theory Pb_Ostream
  imports Prelude
begin

text \<open>
  nanopb output streams and the primitive encoders (\<open>nanopb/pb_encode.c\<close>).

  A stream is the record \<open>pb_ostream\<close> (\<open>struct pb_ostream_s\<close>): an optional callback, the
  callback's private state, the size limit, the number of bytes written and the first error
  message. A callback gets its state, the bytes and the count, and returns success and its
  new state; the NULL callback of a sizing stream is \<open>None\<close>. \<open>buf_write\<close> is the callback of
  \<open>pb_ostream_from_buffer\<close>; its state is the memory block and the write position.

  The locale \<open>pb_sink\<close> is the contract a callback keeps with \<open>pb_write\<close>; every encoder is
  reduced to one or two calls of \<open>pb_write\<close> with a fixed byte string, and its effect on a
  stream over any such callback follows from the contract.
\<close>

section \<open>Streams\<close>

record 's pb_ostream =
  os_callback :: "('s \<Rightarrow> byte list \<Rightarrow> nat \<Rightarrow> bool \<times> 's) option"
  os_state :: 's
  max_size :: nat
  bytes_written :: nat
  os_errmsg :: "string option"

definition os_set_error :: "'s pb_ostream \<Rightarrow> string \<Rightarrow> 's pb_ostream" where
  "os_set_error s msg =
     s\<lparr>os_errmsg := (case os_errmsg s of None \<Rightarrow> Some msg | Some m \<Rightarrow> Some m)\<rparr>"

definition buf_write :: "byte list \<times> nat \<Rightarrow> byte list \<Rightarrow> nat \<Rightarrow> bool \<times> (byte list \<times> nat)" where
  "buf_write st buf count =
     (case st of (mem, dest) \<Rightarrow> (True, (write_at mem dest (take count buf), dest + count)))"

definition pb_ostream_from_buffer :: "byte list \<Rightarrow> nat \<Rightarrow> (byte list \<times> nat) pb_ostream" where
  "pb_ostream_from_buffer buf bufsize =
     \<lparr>os_callback = Some buf_write, os_state = (buf, 0), max_size = bufsize,
      bytes_written = 0, os_errmsg = None\<rparr>"

text \<open>\<open>PB_OSTREAM_SIZING\<close>; the unused state pointer is an argument.\<close>

definition pb_ostream_sizing :: "'s \<Rightarrow> 's pb_ostream" where
  "pb_ostream_sizing null =
     \<lparr>os_callback = None, os_state = null, max_size = 0, bytes_written = 0, os_errmsg = None\<rparr>"

definition pb_write :: "'s pb_ostream \<Rightarrow> byte list \<Rightarrow> nat \<Rightarrow> bool \<times> 's pb_ostream" where
  "pb_write s buf count =
     (case os_callback s of
        None \<Rightarrow> (True, s\<lparr>bytes_written := sz (bytes_written s + count)\<rparr>)
      | Some cb \<Rightarrow>
          if max_size s < sz (bytes_written s + count) then
            (False, os_set_error s ''stream full'')
          else
            (case cb (os_state s) buf count of
               (ok, st) \<Rightarrow>
                 if \<not> ok then (False, os_set_error (s\<lparr>os_state := st\<rparr>) ''io error'')
                 else (True, s\<lparr>os_state := st,
                               bytes_written := sz (bytes_written s + count)\<rparr>)))"

section \<open>Primitive encoders\<close>

text \<open>The \<open>while (value)\<close> loop of \<open>pb_encode_varint\<close>: the bytes it stores in \<open>buffer\<close>.\<close>

lemma drop_bit_7_less:
  assumes "v \<noteq> 0"
  shows "unat (drop_bit 7 v) < unat (v :: u64)"
proof -
  from assms have "0 < unat v" by (simp add: unat_gt_0)
  then have "unat v div 128 < unat v" by simp
  then show ?thesis by (simp add: unat_drop_bit_eq drop_bit_eq_div unat_div)
qed

function varint_loop :: "u64 \<Rightarrow> byte list" where
  "varint_loop value =
     (if value = 0 then []
      else ((ucast (value AND 0x7F) :: byte) OR 0x80) # varint_loop (drop_bit 7 value))"
  by pat_completeness auto
termination
  by (relation "measure unat") (simp_all add: drop_bit_7_less)

declare varint_loop.simps [simp del]

definition varint_buffer :: "u64 \<Rightarrow> byte list" where
  "varint_buffer value =
     (let buffer = varint_loop value; i = length buffer
      in buffer[i - 1 := buffer ! (i - 1) AND 0x7F])"

definition pb_encode_varint :: "'s pb_ostream \<Rightarrow> u64 \<Rightarrow> bool \<times> 's pb_ostream" where
  "pb_encode_varint s value =
     (if value \<le> 0x7F then pb_write s [ucast value] 1
      else let buffer = varint_buffer value in pb_write s buffer (length buffer))"

definition zigzag :: "u64 \<Rightarrow> u64" where
  "zigzag value = (if value <s 0 then NOT (push_bit 1 value) else push_bit 1 value)"

definition pb_encode_svarint :: "'s pb_ostream \<Rightarrow> u64 \<Rightarrow> bool \<times> 's pb_ostream" where
  "pb_encode_svarint s value = pb_encode_varint s (zigzag value)"

definition fixed32_bytes :: "u32 \<Rightarrow> byte list" where
  "fixed32_bytes val =
     [ucast (val AND 0xFF), ucast (drop_bit 8 val AND 0xFF),
      ucast (drop_bit 16 val AND 0xFF), ucast (drop_bit 24 val AND 0xFF)]"

definition pb_encode_fixed32 :: "'s pb_ostream \<Rightarrow> u32 \<Rightarrow> bool \<times> 's pb_ostream" where
  "pb_encode_fixed32 s val = pb_write s (fixed32_bytes val) 4"

definition fixed64_bytes :: "u64 \<Rightarrow> byte list" where
  "fixed64_bytes val =
     [ucast (val AND 0xFF), ucast (drop_bit 8 val AND 0xFF),
      ucast (drop_bit 16 val AND 0xFF), ucast (drop_bit 24 val AND 0xFF),
      ucast (drop_bit 32 val AND 0xFF), ucast (drop_bit 40 val AND 0xFF),
      ucast (drop_bit 48 val AND 0xFF), ucast (drop_bit 56 val AND 0xFF)]"

definition pb_encode_fixed64 :: "'s pb_ostream \<Rightarrow> u64 \<Rightarrow> bool \<times> 's pb_ostream" where
  "pb_encode_fixed64 s val = pb_write s (fixed64_bytes val) 8"

text \<open>The enumerators of \<open>pb_wire_type_t\<close>; a decoded wire type may be any value below 8.\<close>

definition PB_WT_VARINT :: u32 where "PB_WT_VARINT = 0"
definition PB_WT_64BIT :: u32 where "PB_WT_64BIT = 1"
definition PB_WT_STRING :: u32 where "PB_WT_STRING = 2"
definition PB_WT_32BIT :: u32 where "PB_WT_32BIT = 5"

lemmas wire_type_defs = PB_WT_VARINT_def PB_WT_64BIT_def PB_WT_STRING_def PB_WT_32BIT_def

definition pb_tag :: "u32 \<Rightarrow> u32 \<Rightarrow> u64" where
  "pb_tag wiretype field_number = push_bit 3 (ucast field_number) OR ucast wiretype"

definition pb_encode_tag :: "'s pb_ostream \<Rightarrow> u32 \<Rightarrow> u32 \<Rightarrow> bool \<times> 's pb_ostream" where
  "pb_encode_tag s wiretype field_number = pb_encode_varint s (pb_tag wiretype field_number)"

definition pb_encode_string :: "'s pb_ostream \<Rightarrow> byte list \<Rightarrow> nat \<Rightarrow> bool \<times> 's pb_ostream" where
  "pb_encode_string s buffer count =
     (case pb_encode_varint s (word_of_nat count) of
        (ok, s') \<Rightarrow> if \<not> ok then (False, s') else pb_write s' buffer count)"

section \<open>What the encoders write\<close>

text \<open>
  The reference encoding: base-128 digits, least significant first, every digit but the last
  with the top bit set.
\<close>

fun varint_spec :: "nat \<Rightarrow> byte list" where
  "varint_spec n =
     (if n < 128 then [word_of_nat n]
      else word_of_nat (n mod 128 + 128) # varint_spec (n div 128))"

declare varint_spec.simps [simp del]

lemma byte_continuation: "\<forall>b :: byte. (b AND 0x7F) OR 0x80 = word_of_nat (unat b mod 128 + 128)"
  unfolding byte_all by code_simp

lemma byte_clear_continuation:
  "\<forall>b :: byte. ((b AND 0x7F) OR 0x80) AND 0x7F = word_of_nat (unat b mod 128)"
  unfolding byte_all by code_simp

lemma ucast_low7: "ucast ((v :: u64) AND 0x7F) = ((ucast v :: byte) AND 0x7F)"
  by (simp add: unsigned_and_eq)

lemma varint_digit:
  "(ucast ((v :: u64) AND 0x7F) :: byte) OR 0x80 = word_of_nat (unat v mod 128 + 128)"
  using byte_continuation [rule_format, of "ucast v"]
  by (simp add: ucast_low7 unat_ucast_byte mod_mod_cancel)

lemma varint_last_digit:
  "((ucast ((v :: u64) AND 0x7F) :: byte) OR 0x80) AND 0x7F = word_of_nat (unat v mod 128)"
  using byte_clear_continuation [rule_format, of "ucast v"]
  by (simp add: ucast_low7 unat_ucast_byte mod_mod_cancel)

lemma unat_drop_bit_7: "unat (drop_bit 7 (v :: u64)) = unat v div 128"
  by (simp add: unat_drop_bit_eq drop_bit_eq_div unat_div)

lemma drop_bit_7_eq_0: "drop_bit 7 (v :: u64) = 0 \<longleftrightarrow> unat v < 128"
  by (metis unat_drop_bit_7 unat_eq_zero div_eq_0_iff zero_neq_numeral)

lemma varint_buffer_spec: "v \<noteq> 0 \<Longrightarrow> varint_buffer v = varint_spec (unat v)"
proof (induction v rule: varint_loop.induct)
  case (1 v)
  show ?case
  proof (cases "drop_bit 7 v = 0")
    case True
    then have "unat v < 128" by (simp only: drop_bit_7_eq_0)
    with True "1.prems" show ?thesis
      by (simp add: varint_buffer_def varint_loop.simps [of v] varint_loop.simps [of 0]
          varint_spec.simps [of "unat v"] varint_last_digit)
  next
    case False
    then have big: "\<not> unat v < 128" by (simp only: drop_bit_7_eq_0) simp
    from False have "varint_loop (drop_bit 7 v) \<noteq> []"
      by (simp add: varint_loop.simps)
    with "1.prems" have "varint_buffer v
        = word_of_nat (unat v mod 128 + 128) # varint_buffer (drop_bit 7 v)"
      by (cases "varint_loop (drop_bit 7 v)")
        (simp_all add: varint_buffer_def varint_loop.simps [of v] varint_digit Let_def)
    with "1.IH" "1.prems" False big show ?thesis
      by (simp add: varint_spec.simps [of "unat v"] unat_drop_bit_7)
  qed
qed

theorem pb_encode_varint_writes:
  "pb_encode_varint s v = pb_write s (varint_spec (unat v)) (length (varint_spec (unat v)))"
proof (cases "v \<le> 0x7F")
  case True
  then have "unat v < 128" by (simp add: word_le_nat_alt)
  with True show ?thesis
    by (simp add: pb_encode_varint_def varint_spec.simps [of "unat v"])
next
  case False
  then have "v \<noteq> 0" by auto
  with False show ?thesis by (simp add: pb_encode_varint_def varint_buffer_spec Let_def)
qed

lemma varint_spec_nonempty [simp]: "varint_spec n \<noteq> []"
  by (subst varint_spec.simps) simp

lemma length_varint_spec: "n < 128 ^ k \<Longrightarrow> 0 < k \<Longrightarrow> length (varint_spec n) \<le> k"
proof (induction k arbitrary: n)
  case 0
  then show ?case by simp
next
  case (Suc k)
  show ?case
  proof (cases "n < 128")
    case True
    then show ?thesis by (simp add: varint_spec.simps [of n])
  next
    case False
    with Suc.prems have "n div 128 < 128 ^ k" and "0 < k"
      by (auto simp: less_mult_imp_div_less mult.commute intro: Suc_lessI gr0I)
    then have "length (varint_spec (n div 128)) \<le> k" by (rule Suc.IH)
    with False show ?thesis by (simp add: varint_spec.simps [of n])
  qed
qed

lemma length_varint_u64: "length (varint_spec (unat (v :: u64))) \<le> 10"
proof (rule length_varint_spec)
  have "unat v < 2 ^ 64" using unsigned_less [of v] by simp
  then show "unat v < 128 ^ 10" by simp
qed simp

section \<open>The contract of an output callback\<close>

definition os_ready ::
  "('s \<Rightarrow> byte list \<Rightarrow> nat \<Rightarrow> bool \<times> 's) \<Rightarrow> ('s \<Rightarrow> nat) \<Rightarrow> 's pb_ostream \<Rightarrow> bool" where
  "os_ready cb room s \<longleftrightarrow>
     os_callback s = Some cb \<and> bytes_written s \<le> max_size s \<and> max_size s < SIZE_MODULUS \<and>
     max_size s - bytes_written s \<le> room (os_state s)"

text \<open>
  \<open>os_appended out s bs r\<close>: the call returned \<open>r\<close>, it succeeded, and relative to \<open>s\<close> it
  appended exactly \<open>bs\<close> and counted them.
\<close>

definition os_appended ::
  "('s \<Rightarrow> byte list) \<Rightarrow> 's pb_ostream \<Rightarrow> byte list \<Rightarrow> bool \<times> 's pb_ostream \<Rightarrow> bool" where
  "os_appended out s bs r \<longleftrightarrow>
     fst r \<and> out (os_state (snd r)) = out (os_state s) @ bs \<and>
     bytes_written (snd r) = bytes_written s + length bs \<and>
     max_size (snd r) = max_size s \<and> os_errmsg (snd r) = os_errmsg s"

locale pb_sink =
  fixes cb :: "'s \<Rightarrow> byte list \<Rightarrow> nat \<Rightarrow> bool \<times> 's"
    and out :: "'s \<Rightarrow> byte list"
    and room :: "'s \<Rightarrow> nat"
  assumes cb_accepts: "n \<le> room st \<Longrightarrow> n \<le> length bs \<Longrightarrow> fst (cb st bs n)"
    and cb_appends: "n \<le> room st \<Longrightarrow> n \<le> length bs \<Longrightarrow> out (snd (cb st bs n)) = out st @ take n bs"
    and cb_room: "n \<le> room st \<Longrightarrow> n \<le> length bs \<Longrightarrow> room (snd (cb st bs n)) = room st - n"
begin

lemma write_fits:
  assumes "os_ready cb room s" and "bytes_written s + length bs \<le> max_size s"
  shows "os_appended out s bs (pb_write s bs (length bs))
    \<and> os_ready cb room (snd (pb_write s bs (length bs)))"
proof -
  from assms have fits: "length bs \<le> room (os_state s)"
    and nowrap: "sz (bytes_written s + length bs) = bytes_written s + length bs"
    and cbs: "os_callback s = Some cb"
    by (auto simp: os_ready_def)
  note acc = cb_accepts [OF fits order_refl] cb_appends [OF fits order_refl]
    cb_room [OF fits order_refl]
  show ?thesis
    using assms acc by (auto simp: pb_write_def os_ready_def os_appended_def nowrap
        split: prod.splits)
qed

lemma write_full:
  assumes "os_ready cb room s" and "max_size s < bytes_written s + length bs"
    and "bytes_written s + length bs < SIZE_MODULUS"
  shows "pb_write s bs (length bs) = (False, os_set_error s ''stream full'')"
  using assms by (simp add: pb_write_def os_ready_def)

lemma varint_fits:
  assumes "os_ready cb room s"
    and "bytes_written s + length (varint_spec (unat v)) \<le> max_size s"
  shows "os_appended out s (varint_spec (unat v)) (pb_encode_varint s v)
    \<and> os_ready cb room (snd (pb_encode_varint s v))"
  using write_fits [OF assms] by (simp add: pb_encode_varint_writes)

lemma string_fits:
  assumes ready: "os_ready cb room s" and n: "n \<le> length bs" "n < SIZE_MODULUS"
    and fits: "bytes_written s + length (varint_spec n) + n \<le> max_size s"
  shows "os_appended out s (varint_spec n @ take n bs) (pb_encode_string s bs n)
    \<and> os_ready cb room (snd (pb_encode_string s bs n))"
proof -
  have v: "unat (word_of_nat n :: u64) = n"
    using n(2) by (simp add: unat_of_nat SIZE_MODULUS_def)
  obtain s1 where s1: "pb_encode_varint s (word_of_nat n) = (True, s1)"
    and a1: "os_appended out s (varint_spec n) (True, s1)" and r1: "os_ready cb room s1"
    using varint_fits [OF ready, of "word_of_nat n"] fits
    by (cases "pb_encode_varint s (word_of_nat n)") (auto simp: v os_appended_def)
  from r1 a1 fits have fits1: "bytes_written s1 + n \<le> max_size s1"
    by (simp add: os_appended_def)
  with r1 have "n \<le> room (os_state s1)" and nowrap: "sz (bytes_written s1 + n) = bytes_written s1 + n"
    by (auto simp: os_ready_def)
  note acc = cb_accepts [OF this(1) n(1)] cb_appends [OF this(1) n(1)] cb_room [OF this(1) n(1)]
  show ?thesis
    using r1 a1 s1 acc fits1 n(1)
    by (auto simp: pb_encode_string_def pb_write_def os_ready_def os_appended_def nowrap min_absorb2
        split: prod.splits)
qed

end

text \<open>
  \<open>buf_write\<close> keeps the contract: what it has put out is the block up to the write position,
  and it has room up to the end of the block.
\<close>

definition buf_out :: "byte list \<times> nat \<Rightarrow> byte list" where
  "buf_out st = take (snd st) (fst st)"

definition buf_room :: "byte list \<times> nat \<Rightarrow> nat" where
  "buf_room st = length (fst st) - snd st"

lemma buf_write_within:
  "n \<le> buf_room st \<Longrightarrow> n \<le> length bs \<Longrightarrow> 0 < n \<Longrightarrow> snd st + length (take n bs) \<le> length (fst st)"
  by (simp add: buf_room_def)

lemma buf_write_zero [simp]: "buf_write st bs 0 = (True, st)"
  by (simp add: buf_write_def split: prod.splits)

interpretation buf_sink: pb_sink buf_write buf_out buf_room
proof
  fix n st bs
  assume fits: "n \<le> buf_room st" and len: "n \<le> length (bs :: byte list)"
  show "fst (buf_write st bs n)" by (simp add: buf_write_def split: prod.splits)
  show "buf_out (snd (buf_write st bs n)) = buf_out st @ take n bs"
  proof (cases "n = 0")
    case False
    then have "snd st + length (take n bs) \<le> length (fst st)"
      using buf_write_within [OF fits len] by simp
    with take_write_at_end [of "snd st" "fst st" "take n bs"] len show ?thesis
      by (simp add: buf_out_def buf_write_def min_absorb2 case_prod_beta)
  qed simp
  show "buf_room (snd (buf_write st bs n)) = buf_room st - n"
  proof (cases "n = 0")
    case False
    then have "snd st + length (take n bs) \<le> length (fst st)"
      using buf_write_within [OF fits len] by simp
    then show ?thesis
      by (simp add: buf_room_def buf_write_def case_prod_beta)
  qed simp
qed

lemma from_buffer_ready:
  "bufsize \<le> length buf \<Longrightarrow> bufsize < SIZE_MODULUS \<Longrightarrow>
    os_ready buf_write buf_room (pb_ostream_from_buffer buf bufsize)"
  by (simp add: os_ready_def pb_ostream_from_buffer_def buf_room_def)

lemma from_buffer_empty [simp]:
  "buf_out (os_state (pb_ostream_from_buffer buf n)) = []"
  "bytes_written (pb_ostream_from_buffer buf n) = 0"
  "max_size (pb_ostream_from_buffer buf n) = n"
  by (simp_all add: pb_ostream_from_buffer_def buf_out_def)

section \<open>Properties of the output side\<close>

text \<open>
  Every \<open>pb_encode_varint\<close> call is one \<open>pb_write\<close> of the canonical base-128 encoding of
  the value, and that encoding never needs more than the ten bytes of the local array
  \<open>buffer[10]\<close>.
\<close>

theorem pb_encode_varint_canonical:
  "pb_encode_varint s v = pb_write s (varint_spec (unat v)) (length (varint_spec (unat v)))
   \<and> length (varint_spec (unat v)) \<le> 10"
  using pb_encode_varint_writes length_varint_u64 by blast

text \<open>
  \<open>pb_write\<close> on a buffer stream stays inside the buffer. Whatever the call returns, the
  block keeps its length, every byte at or beyond the stream's limit and every byte already
  written is unchanged, and the count never passes the limit; a call that does not fit fails
  with "stream full" and writes nothing.
\<close>

theorem pb_write_stays_in_buffer:
  assumes "os_callback s = Some buf_write" and "os_state s = (mem, bytes_written s)"
    and "bytes_written s \<le> max_size s" and "max_size s \<le> length mem"
    and "length mem < SIZE_MODULUS" and "bytes_written s + length bs < SIZE_MODULUS"
  shows "\<exists>mem'. os_state (snd (pb_write s bs (length bs))) = (mem', bytes_written (snd (pb_write s bs (length bs))))
    \<and> length mem' = length mem
    \<and> drop (max_size s) mem' = drop (max_size s) mem
    \<and> take (bytes_written s) mem' = take (bytes_written s) mem
    \<and> bytes_written (snd (pb_write s bs (length bs))) \<le> max_size s
    \<and> (fst (pb_write s bs (length bs)) \<longleftrightarrow> bytes_written s + length bs \<le> max_size s)
    \<and> (\<not> fst (pb_write s bs (length bs)) \<longrightarrow> mem' = mem
         \<and> os_errmsg (snd (pb_write s bs (length bs))) \<noteq> None)"
  using assms
  by (cases "bytes_written s + length bs \<le> max_size s")
    (auto simp: pb_write_def buf_write_def os_set_error_def split: option.splits)

definition demo_ostream :: "(byte list \<times> nat) pb_ostream" where
  "demo_ostream = pb_ostream_from_buffer [9, 9, 9] 2"

theorem pb_write_stays_in_buffer_witness:
  "\<exists>mem'. os_state (snd (pb_write demo_ostream [1] 1)) = (mem', 1)
    \<and> drop 2 mem' = [9] \<and> fst (pb_write demo_ostream [1] 1)"
proof -
  have "os_callback demo_ostream = Some buf_write"
    and "os_state demo_ostream = ([9, 9, 9], bytes_written demo_ostream)"
    and "bytes_written demo_ostream \<le> max_size demo_ostream"
    and "max_size demo_ostream \<le> length ([9, 9, 9] :: byte list)"
    and "length ([9, 9, 9] :: byte list) < SIZE_MODULUS"
    and "bytes_written demo_ostream + length ([1] :: byte list) < SIZE_MODULUS"
    by (simp_all add: demo_ostream_def pb_ostream_from_buffer_def SIZE_MODULUS_def)
  from pb_write_stays_in_buffer [OF this] show ?thesis
    by (auto simp: demo_ostream_def pb_ostream_from_buffer_def pb_write_def buf_write_def
        SIZE_MODULUS_def)
qed

end
