(* ===== verification/Pb_Istream.thy ===== *)
theory Pb_Istream
  imports Pb_Ostream
begin

text \<open>
  nanopb input streams and the primitive decoders (\<open>nanopb/pb_decode.c\<close>).

  A stream is the record \<open>pb_istream\<close> (\<open>struct pb_istream_s\<close>). A callback gets its state and a
  count and returns success, the bytes it delivered and its new state; \<open>callback_is_buf_read\<close>
  stands for the pointer comparison \<open>stream->callback == buf_read\<close> that \<open>pb_read\<close> makes. The
  state of \<open>buf_read\<close> is the memory from the read pointer on.

  A decoder returns \<open>Some\<close> of the decoded value when the C function returns true and \<open>None\<close>
  when it returns false, with the stream as the call leaves it in both cases. The locale
  \<open>pb_source\<close> is the contract of an input callback; the decoders are verified once inside it.
\<close>

section \<open>Streams\<close>

record 's pb_istream =
  is_callback :: "'s \<Rightarrow> nat \<Rightarrow> bool \<times> byte list \<times> 's"
  callback_is_buf_read :: bool
  is_state :: 's
  bytes_left :: nat
  is_errmsg :: "string option"

definition is_set_error :: "'s pb_istream \<Rightarrow> string \<Rightarrow> 's pb_istream" where
  "is_set_error s msg =
     s\<lparr>is_errmsg := (case is_errmsg s of None \<Rightarrow> Some msg | Some m \<Rightarrow> Some m)\<rparr>"

definition buf_read :: "byte list \<Rightarrow> nat \<Rightarrow> bool \<times> byte list \<times> byte list" where
  "buf_read source count = (True, take count source, drop count source)"

definition pb_istream_from_buffer :: "byte list \<Rightarrow> nat \<Rightarrow> byte list pb_istream" where
  "pb_istream_from_buffer buf bufsize =
     \<lparr>is_callback = buf_read, callback_is_buf_read = True, is_state = buf,
      bytes_left = bufsize, is_errmsg = None\<rparr>"

text \<open>\<open>pb_read\<close> below the NULL test: the length check, the callback and the accounting.\<close>

definition pb_read_buf :: "'s pb_istream \<Rightarrow> nat \<Rightarrow> byte list option \<times> 's pb_istream" where
  "pb_read_buf s count =
     (if bytes_left s < count then (None, is_set_error s ''end-of-stream'')
      else case is_callback s (is_state s) count of
             (ok, bs, st) \<Rightarrow>
               if \<not> ok then (None, is_set_error (s\<lparr>is_state := st\<rparr>) ''io error'')
               else (Some bs, s\<lparr>is_state := st, bytes_left := bytes_left s - count\<rparr>))"

text \<open>The loop that skips input in chunks of sixteen bytes.\<close>

fun pb_skip_chunks :: "'s pb_istream \<Rightarrow> nat \<Rightarrow> byte list option \<times> 's pb_istream" where
  "pb_skip_chunks s count =
     (if count > 16 then
        (case pb_read_buf s 16 of
           (None, s') \<Rightarrow> (None, s')
         | (Some _, s') \<Rightarrow> pb_skip_chunks s' (count - 16))
      else pb_read_buf s count)"

declare pb_skip_chunks.simps [simp del]

text \<open>\<open>null\<close> says that the destination pointer is NULL.\<close>

definition pb_read :: "'s pb_istream \<Rightarrow> bool \<Rightarrow> nat \<Rightarrow> byte list option \<times> 's pb_istream" where
  "pb_read s null count =
     (if null \<and> \<not> callback_is_buf_read s then pb_skip_chunks s count else pb_read_buf s count)"

definition pb_readbyte :: "'s pb_istream \<Rightarrow> byte option \<times> 's pb_istream" where
  "pb_readbyte s =
     (if bytes_left s = 0 then (None, is_set_error s ''end-of-stream'')
      else case is_callback s (is_state s) 1 of
             (ok, bs, st) \<Rightarrow>
               if \<not> ok then (None, is_set_error (s\<lparr>is_state := st\<rparr>) ''io error'')
               else (Some (hd bs), s\<lparr>is_state := st, bytes_left := bytes_left s - 1\<rparr>))"

section \<open>Primitive decoders\<close>

text \<open>
  The \<open>do ... while\<close> loop of \<open>pb_decode_varint\<close> and of \<open>pb_decode_varint32\<close>. The two C loops
  differ in the width of \<open>result\<close> and in the bound on \<open>bitpos\<close>, which is that width; the
  width is the type parameter \<open>'w\<close>.
\<close>

function varint_decode_loop ::
  "'s pb_istream \<Rightarrow> nat \<Rightarrow> 'w::len word \<Rightarrow> 'w word option \<times> 's pb_istream" where
  "varint_decode_loop s bitpos result =
     (if bitpos \<ge> LENGTH('w) then (None, is_set_error s ''varint overflow'')
      else case pb_readbyte s of
             (None, s') \<Rightarrow> (None, s')
           | (Some byte, s') \<Rightarrow>
               let result' = result OR push_bit bitpos (ucast (byte AND 0x7F))
               in if byte AND 0x80 \<noteq> 0 then varint_decode_loop s' (bitpos + 7) result'
                  else (Some result', s'))"
  by pat_completeness auto
termination
  by (relation "measure (\<lambda>(s, bitpos, result). size result - bitpos)") (auto simp: word_size)

declare varint_decode_loop.simps [simp del]

definition pb_decode_varint32 :: "'s pb_istream \<Rightarrow> u32 option \<times> 's pb_istream" where
  "pb_decode_varint32 s =
     (case pb_readbyte s of
        (None, s') \<Rightarrow> (None, s')
      | (Some byte, s') \<Rightarrow>
          if byte AND 0x80 = 0 then (Some (ucast byte), s')
          else varint_decode_loop s' 7 (ucast (byte AND 0x7F)))"

definition pb_decode_varint :: "'s pb_istream \<Rightarrow> u64 option \<times> 's pb_istream" where
  "pb_decode_varint s = varint_decode_loop s 0 0"

text \<open>
  \<open>pb_skip_varint\<close> reads until a byte without the continuation bit or an error. Every turn
  takes one of the \<open>bytes_left\<close>.
\<close>

lemma pb_read_byte_decreases:
  "(Some bs, s') = pb_read s False (Suc 0) \<Longrightarrow> bytes_left s' < bytes_left s"
  by (auto simp: pb_read_def pb_read_buf_def split: if_splits prod.splits)

function pb_skip_varint :: "'s pb_istream \<Rightarrow> bool \<times> 's pb_istream" where
  "pb_skip_varint s =
     (case pb_read s False 1 of
        (None, s') \<Rightarrow> (False, s')
      | (Some bs, s') \<Rightarrow> if hd bs AND 0x80 \<noteq> 0 then pb_skip_varint s' else (True, s'))"
  by pat_completeness auto
termination
  by (relation "measure bytes_left") (auto dest: pb_read_byte_decreases)

declare pb_skip_varint.simps [simp del]

definition pb_skip_string :: "'s pb_istream \<Rightarrow> bool \<times> 's pb_istream" where
  "pb_skip_string s =
     (case pb_decode_varint32 s of
        (None, s') \<Rightarrow> (False, s')
      | (Some len, s') \<Rightarrow> (case pb_read s' True (unat len) of (r, s'') \<Rightarrow> (r \<noteq> None, s'')))"

record pb_tag_result =
  tag_ok :: bool
  tag_wire_type :: u32
  tag_number :: u32
  tag_eof :: bool

definition pb_decode_tag :: "'s pb_istream \<Rightarrow> pb_tag_result \<times> 's pb_istream" where
  "pb_decode_tag s =
     (case pb_decode_varint32 s of
        (None, s') \<Rightarrow>
          (\<lparr>tag_ok = False, tag_wire_type = 0, tag_number = 0, tag_eof = (bytes_left s' = 0)\<rparr>, s')
      | (Some temp, s') \<Rightarrow>
          if temp = 0 then
            (\<lparr>tag_ok = False, tag_wire_type = 0, tag_number = 0, tag_eof = True\<rparr>, s')
          else
            (\<lparr>tag_ok = True, tag_wire_type = temp AND 7, tag_number = drop_bit 3 temp,
              tag_eof = False\<rparr>, s'))"

definition pb_skip_field :: "'s pb_istream \<Rightarrow> u32 \<Rightarrow> bool \<times> 's pb_istream" where
  "pb_skip_field s wire_type =
     (if wire_type = PB_WT_VARINT then pb_skip_varint s
      else if wire_type = PB_WT_64BIT then
        (case pb_read s True 8 of (r, s') \<Rightarrow> (r \<noteq> None, s'))
      else if wire_type = PB_WT_STRING then pb_skip_string s
      else if wire_type = PB_WT_32BIT then
        (case pb_read s True 4 of (r, s') \<Rightarrow> (r \<noteq> None, s'))
      else (False, is_set_error s ''invalid wire_type''))"

text \<open>
  The varint case of \<open>read_raw_value\<close>: \<open>size\<close> counts the bytes stored so far, \<open>limit\<close> (\<open>max_size\<close>) is
  the size of the caller's buffer.
\<close>

function raw_varint_loop ::
  "'s pb_istream \<Rightarrow> nat \<Rightarrow> nat \<Rightarrow> byte list \<Rightarrow> byte list option \<times> 's pb_istream" where
  "raw_varint_loop s limit size' buf =
     (if limit < Suc size' then (None, s)
      else case pb_read s False 1 of
             (None, s') \<Rightarrow> (None, s')
           | (Some bs, s') \<Rightarrow>
               if hd bs AND 0x80 \<noteq> 0
               then raw_varint_loop s' limit (Suc size') (buf @ [hd bs])
               else (Some (buf @ [hd bs]), s'))"
  by pat_completeness auto
termination
  by (relation "measure (\<lambda>(s, limit, size', buf). limit - size')") auto

declare raw_varint_loop.simps [simp del]

definition read_raw_value ::
  "'s pb_istream \<Rightarrow> u32 \<Rightarrow> nat \<Rightarrow> byte list option \<times> 's pb_istream" where
  "read_raw_value s wire_type limit =
     (if wire_type = PB_WT_VARINT then raw_varint_loop s limit 0 []
      else if wire_type = PB_WT_64BIT then pb_read s False 8
      else if wire_type = PB_WT_32BIT then pb_read s False 4
      else (None, is_set_error s ''invalid wire_type''))"

definition pb_make_string_substream ::
  "'s pb_istream \<Rightarrow> 's pb_istream option \<times> 's pb_istream" where
  "pb_make_string_substream s =
     (case pb_decode_varint32 s of
        (None, s') \<Rightarrow> (None, s')
      | (Some sz', s') \<Rightarrow>
          if bytes_left s' < unat sz' then (None, is_set_error s' ''parent stream too short'')
          else (Some (s'\<lparr>bytes_left := unat sz'\<rparr>),
                s'\<lparr>bytes_left := bytes_left s' - unat sz'\<rparr>))"

definition pb_close_string_substream ::
  "'s pb_istream \<Rightarrow> 's pb_istream \<Rightarrow> bool \<times> 's pb_istream" where
  "pb_close_string_substream s substream =
     (if bytes_left substream \<noteq> 0 then
        (case pb_read substream True (bytes_left substream) of
           (None, _) \<Rightarrow> (False, s)
         | (Some _, sub') \<Rightarrow> (True, s\<lparr>is_state := is_state sub', is_errmsg := is_errmsg sub'\<rparr>))
      else (True, s\<lparr>is_state := is_state substream, is_errmsg := is_errmsg substream\<rparr>))"

definition unzigzag :: "u64 \<Rightarrow> u64" where
  "unzigzag value = (if value AND 1 \<noteq> 0 then NOT (drop_bit 1 value) else drop_bit 1 value)"

definition pb_decode_svarint :: "'s pb_istream \<Rightarrow> u64 option \<times> 's pb_istream" where
  "pb_decode_svarint s =
     (case pb_decode_varint s of
        (None, s') \<Rightarrow> (None, s')
      | (Some value, s') \<Rightarrow> (Some (unzigzag value), s'))"

definition pb_decode_fixed32 :: "'s pb_istream \<Rightarrow> u32 option \<times> 's pb_istream" where
  "pb_decode_fixed32 s =
     (case pb_read s False 4 of
        (None, s') \<Rightarrow> (None, s')
      | (Some bytes, s') \<Rightarrow>
          (Some (push_bit 0 (ucast (bytes ! 0)) OR push_bit 8 (ucast (bytes ! 1)) OR
                 push_bit 16 (ucast (bytes ! 2)) OR push_bit 24 (ucast (bytes ! 3))), s'))"

definition pb_decode_fixed64 :: "'s pb_istream \<Rightarrow> u64 option \<times> 's pb_istream" where
  "pb_decode_fixed64 s =
     (case pb_read s False 8 of
        (None, s') \<Rightarrow> (None, s')
      | (Some bytes, s') \<Rightarrow>
          (Some (push_bit 0 (ucast (bytes ! 0)) OR push_bit 8 (ucast (bytes ! 1)) OR
                 push_bit 16 (ucast (bytes ! 2)) OR push_bit 24 (ucast (bytes ! 3)) OR
                 push_bit 32 (ucast (bytes ! 4)) OR push_bit 40 (ucast (bytes ! 5)) OR
                 push_bit 48 (ucast (bytes ! 6)) OR push_bit 56 (ucast (bytes ! 7))), s'))"

section \<open>Words the decoders put together\<close>

lemma byte_mask: "(255 :: 'w::len word) = mask 8" by (simp add: mask_numeral)
lemma fixed32_join: "push_bit 0 (ucast (fixed32_bytes v ! 0)) OR push_bit 8 (ucast (fixed32_bytes v ! 1)) OR
      push_bit 16 (ucast (fixed32_bytes v ! 2)) OR push_bit 24 (ucast (fixed32_bytes v ! 3)) = (v::u32)"
proof (rule bit_word_eqI)
  fix n assume "n < LENGTH(32)"
  then consider "n < 8" | "8 \<le> n" "n < 16" | "16 \<le> n" "n < 24" | "24 \<le> n" "n < 32" by fastforce
  then show "bit (push_bit 0 (ucast (fixed32_bytes v ! 0) :: u32) OR push_bit 8 (ucast (fixed32_bytes v ! 1)) OR
      push_bit 16 (ucast (fixed32_bytes v ! 2)) OR push_bit 24 (ucast (fixed32_bytes v ! 3))) n = bit v n"
    by cases (simp_all add: fixed32_bytes_def byte_mask bit_simps less_diff_conv2)
qed
lemma fixed64_join: "push_bit 0 (ucast (fixed64_bytes v ! 0)) OR push_bit 8 (ucast (fixed64_bytes v ! 1)) OR
      push_bit 16 (ucast (fixed64_bytes v ! 2)) OR push_bit 24 (ucast (fixed64_bytes v ! 3)) OR
      push_bit 32 (ucast (fixed64_bytes v ! 4)) OR push_bit 40 (ucast (fixed64_bytes v ! 5)) OR
      push_bit 48 (ucast (fixed64_bytes v ! 6)) OR push_bit 56 (ucast (fixed64_bytes v ! 7)) = (v::u64)" (is "?x = v")
proof (rule bit_word_eqI)
  fix n assume "n < LENGTH(64)"
  then consider "n < 8" | "8 \<le> n" "n < 16" | "16 \<le> n" "n < 24" | "24 \<le> n" "n < 32" 
   | "32 \<le> n" "n < 40"  | "40 \<le> n" "n < 48"  | "48 \<le> n" "n < 56"  | "56 \<le> n" "n < 64" by fastforce
  then show "bit ?x n = bit v n"
    by cases (simp_all add: fixed64_bytes_def byte_mask bit_simps less_diff_conv2)
qed

lemma unzigzag_zigzag: "unzigzag (zigzag v) = v"
proof (rule bit_word_eqI)
  fix n assume n: "n < LENGTH(64)"
  show "bit (unzigzag (zigzag v)) n = bit v n"
    using n by (cases "n = 63")
      (auto simp: unzigzag_def zigzag_def sless_zero_iff and_one_iff bit_simps
        simp del: One_nat_def push_bit_Suc drop_bit_Suc)
qed

lemma zigzag_unzigzag: "zigzag (unzigzag v) = v"
proof (rule bit_word_eqI)
  fix n assume n: "n < LENGTH(64)"
  show "bit (zigzag (unzigzag v)) n = bit v n"
    using n by (cases "n = 0")
      (auto simp: unzigzag_def zigzag_def sless_zero_iff and_one_iff bit_simps
        simp del: One_nat_def push_bit_Suc drop_bit_Suc dest: bit_imp_le_length)
qed

section \<open>The contract of an input callback\<close>

definition is_ready ::
  "('s \<Rightarrow> nat \<Rightarrow> bool \<times> byte list \<times> 's) \<Rightarrow> ('s \<Rightarrow> byte list) \<Rightarrow> 's pb_istream \<Rightarrow> bool" where
  "is_ready cb data s \<longleftrightarrow> is_callback s = cb \<and> bytes_left s \<le> length (data (is_state s))"

text \<open>\<open>is_advanced data s n s'\<close>: the stream has moved on by exactly \<open>n\<close> bytes.\<close>

definition is_advanced ::
  "('s \<Rightarrow> byte list) \<Rightarrow> 's pb_istream \<Rightarrow> nat \<Rightarrow> 's pb_istream \<Rightarrow> bool" where
  "is_advanced data s n s' \<longleftrightarrow>
     bytes_left s' + n = bytes_left s \<and> data (is_state s') = drop n (data (is_state s)) \<and>
     is_callback s' = is_callback s \<and> callback_is_buf_read s' = callback_is_buf_read s \<and>
     is_errmsg s' = is_errmsg s"

lemma is_advanced_trans:
  "is_advanced data s m s1 \<Longrightarrow> is_advanced data s1 n s2 \<Longrightarrow> is_advanced data s (m + n) s2"
  by (auto simp: is_advanced_def add_ac)

lemma is_advanced_ready:
  "is_ready cb data s \<Longrightarrow> is_advanced data s n s' \<Longrightarrow> is_ready cb data s'"
  by (auto simp: is_advanced_def is_ready_def)

lemma byte_top_bit: "\<forall>b :: byte. b AND 0x80 = 0 \<longleftrightarrow> unat b < 128"
  unfolding byte_all by code_simp

lemma byte_digit_last:
  assumes "n < 128"
  shows "(word_of_nat n :: byte) AND 0x80 = 0" "unat ((word_of_nat n :: byte) AND 0x7F) = n"
  using assms byte_top_bit by (simp_all add: and_7F_byte)

lemma byte_digit_more:
  "(word_of_nat (n mod 128 + 128) :: byte) AND 0x80 \<noteq> 0"
  "unat ((word_of_nat (n mod 128 + 128) :: byte) AND 0x7F) = n mod 128"
proof -
  have "n mod 128 < 128" by simp
  then have "(n mod 128 + 128) mod 256 = n mod 128 + 128" by simp
  then show "(word_of_nat (n mod 128 + 128) :: byte) AND 0x80 \<noteq> 0"
    and "unat ((word_of_nat (n mod 128 + 128) :: byte) AND 0x7F) = n mod 128"
    using byte_top_bit [rule_format, of "word_of_nat (n mod 128 + 128)"]
    by (simp_all add: and_7F_byte del: of_nat_add)
qed

lemma ucast_as_nat: "(ucast (b :: byte) :: 'w::len word) = word_of_nat (unat b)"
  by simp

lemma varint_accumulate:
  fixes r :: "'w::len word"
  assumes "unat r < 2 ^ k" and "unat b = d"
  shows "r OR push_bit k (ucast (b :: byte)) = r + word_of_nat (d * 2 ^ k)"
  using or_push_bit_add [OF assms(1), of "word_of_nat d"] assms(2)
  by (simp only: ucast_as_nat push_bit_word_of_nat)
lemma unat_accumulate:
  fixes r :: "'w::len word"
  assumes "unat r < 2 ^ k" and "(d + 1) * 2 ^ k \<le> 2 ^ LENGTH('w)"
  shows "unat (r + word_of_nat (d * 2 ^ k)) = unat r + d * 2 ^ k"
proof -
  have *: "unat r + d * 2 ^ k < 2 ^ LENGTH('w)"
    using assms by (simp add: algebra_simps)
  then have "unat (word_of_nat (d * 2 ^ k) :: 'w word) = d * 2 ^ k"
    by (simp add: unat_of_nat del: of_nat_mult of_nat_power)
  with * show ?thesis by (simp add: unat_word_ariths del: of_nat_mult of_nat_power)
qed

lemma varint32_as_loop: "pb_decode_varint32 s = varint_decode_loop s 0 0"
proof -
  have "(ucast b :: u32) = ucast (b AND 0x7F)" if "b AND 0x80 = 0" for b :: byte
  proof -
    from that have "unat b < 128" using byte_top_bit by simp
    then have "unat (b AND 0x7F) = unat b" by (simp add: and_7F_byte)
    then have "b AND 0x7F = b" by (rule unsigned_word_eqI)
    then show ?thesis by simp
  qed
  then show ?thesis
    by (simp add: pb_decode_varint32_def varint_decode_loop.simps [of s 0] Let_def
        split: prod.split option.split)
qed

locale pb_source =
  fixes cb :: "'s \<Rightarrow> nat \<Rightarrow> bool \<times> byte list \<times> 's"
    and data :: "'s \<Rightarrow> byte list"
  assumes cb_delivers: "n \<le> length (data st) \<Longrightarrow> fst (cb st n) \<and> fst (snd (cb st n)) = take n (data st)"
    and cb_advances: "n \<le> length (data st) \<Longrightarrow> data (snd (snd (cb st n))) = drop n (data st)"
begin

lemma read_buf_ok:
  assumes "is_ready cb data s" and "n \<le> bytes_left s"
  shows "\<exists>s'. pb_read_buf s n = (Some (take n (data (is_state s))), s') \<and> is_advanced data s n s'"
  using assms cb_delivers [of n "is_state s"] cb_advances [of n "is_state s"]
  by (auto simp: pb_read_buf_def is_ready_def is_advanced_def split: prod.splits)

lemma skip_chunks_ok:
  "is_ready cb data s \<Longrightarrow> n \<le> bytes_left s \<Longrightarrow>
    \<exists>bs s'. pb_skip_chunks s n = (Some bs, s') \<and> is_advanced data s n s'"
proof (induction s n rule: pb_skip_chunks.induct)
  case (1 s n)
  show ?case
  proof (cases "n > 16")
    case True
    with 1(3) have "16 \<le> bytes_left s" by simp
    then obtain s1 where s1: "pb_read_buf s 16 = (Some (take 16 (data (is_state s))), s1)"
      and a1: "is_advanced data s 16 s1"
      using read_buf_ok [OF 1(2)] by blast
    have "n - 16 \<le> bytes_left s1" using a1 1(3) by (auto simp: is_advanced_def)
    then obtain bs s' where "pb_skip_chunks s1 (n - 16) = (Some bs, s')"
      and "is_advanced data s1 (n - 16) s'"
      using 1(1) [OF True s1 [symmetric] refl is_advanced_ready [OF 1(2) a1]] by blast
    with True s1 is_advanced_trans [OF a1] show ?thesis
      by (fastforce simp: pb_skip_chunks.simps [of s n])
  next
    case False
    with read_buf_ok [OF 1(2,3)] show ?thesis by (auto simp: pb_skip_chunks.simps [of s n])
  qed
qed

lemma read_ok:
  assumes "is_ready cb data s" and "n \<le> bytes_left s"
  shows "\<exists>bs s'. pb_read s null n = (Some bs, s') \<and> is_advanced data s n s'
    \<and> (\<not> null \<longrightarrow> bs = take n (data (is_state s)))"
  using read_buf_ok [OF assms] skip_chunks_ok [OF assms]
  by (cases "null \<and> \<not> callback_is_buf_read s") (auto simp: pb_read_def)

lemma readbyte_ok:
  assumes "is_ready cb data s" and "0 < bytes_left s" and "data (is_state s) = b # rest"
  shows "\<exists>s'. pb_readbyte s = (Some b, s') \<and> is_advanced data s 1 s'"
  using assms cb_delivers [of 1 "is_state s"] cb_advances [of 1 "is_state s"]
  by (auto simp: pb_readbyte_def is_ready_def is_advanced_def split: prod.splits)

lemma varint_loop_ok:
  fixes r :: "'w::len word"
  assumes "is_ready cb data s" and "length (varint_spec n) \<le> bytes_left s"
    and "data (is_state s) = varint_spec n @ rest"
    and "unat r < 2 ^ k" and "n * 2 ^ k < 2 ^ LENGTH('w)" and "k < LENGTH('w)"
  shows "\<exists>s'. varint_decode_loop s k r = (Some (r + word_of_nat (n * 2 ^ k)), s')
    \<and> is_advanced data s (length (varint_spec n)) s'"
  using assms
proof (induction n arbitrary: s k r rule: varint_spec.induct)
  case (1 n)
  show ?case
  proof (cases "n < 128")
    case True
    then have spec: "varint_spec n = [word_of_nat n]" by (simp add: varint_spec.simps [of n])
    with 1(2-4) obtain s1 where s1: "pb_readbyte s = (Some (word_of_nat n), s1)"
      and a1: "is_advanced data s 1 s1"
      using readbyte_ok [of s "word_of_nat n" rest] by auto
    with True 1(5-7) spec show ?thesis
      by (simp add: varint_decode_loop.simps [of s k r] byte_digit_last Let_def
          varint_accumulate [OF 1(5) byte_digit_last(2) [OF True]])
  next
    case False
    let ?b = "word_of_nat (n mod 128 + 128) :: byte"
    let ?r = "r + word_of_nat (n mod 128 * 2 ^ k) :: 'w word"
    from False have spec: "varint_spec n = ?b # varint_spec (n div 128)"
      by (simp add: varint_spec.simps [of n])
    with 1(2-4) obtain s1 where s1: "pb_readbyte s = (Some ?b, s1)"
      and a1: "is_advanced data s 1 s1"
      using readbyte_ok [of s ?b "varint_spec (n div 128) @ rest"] by auto
    from False have q: "1 \<le> n div 128" by (simp add: div_greater_zero_iff Suc_leI)
    have split: "n * 2 ^ k = n mod 128 * 2 ^ k + (n div 128) * 2 ^ (k + 7)"
    proof -
      have "n * 2 ^ k = (n div 128 * 128 + n mod 128) * 2 ^ k" by simp
      then show ?thesis by (simp only: add_mult_distrib power_add) simp
    qed
    then have hi: "n div 128 * 2 ^ (k + 7) < 2 ^ LENGTH('w)" using 1(6) by simp
    moreover have "2 ^ (k + 7) \<le> n div 128 * 2 ^ (k + 7)" using q by simp
    ultimately have pk: "(2::nat) ^ (k + 7) < 2 ^ LENGTH('w)" by (rule le_less_trans [rotated])
    then have k7: "k + 7 < LENGTH('w)" by simp
    have "n mod 128 + 1 \<le> 128" by (simp add: Suc_leI)
    then have "(n mod 128 + 1) * 2 ^ k \<le> 128 * 2 ^ k" by (rule mult_le_mono1)
    also have "128 * 2 ^ k = (2::nat) ^ (k + 7)" by (simp add: power_add)
    finally have dk: "(n mod 128 + 1) * 2 ^ k \<le> 2 ^ (k + 7)" .
    have ur: "unat ?r = unat r + n mod 128 * 2 ^ k"
      by (rule unat_accumulate [OF 1(5)]) (rule order_trans [OF dk], use pk in simp)
    then have rk: "unat ?r < 2 ^ (k + 7)" using 1(5) dk by (simp add: algebra_simps)
    have "length (varint_spec (n div 128)) \<le> bytes_left s1"
      and "data (is_state s1) = varint_spec (n div 128) @ rest"
      using a1 1(3,4) spec by (auto simp: is_advanced_def)
    then obtain s' where s': "varint_decode_loop s1 (k + 7) ?r
          = (Some (?r + word_of_nat (n div 128 * 2 ^ (k + 7))), s')"
      and a': "is_advanced data s1 (length (varint_spec (n div 128))) s'"
      using 1(1) [OF False is_advanced_ready [OF 1(2) a1] _ _ rk hi k7] by blast
    have "?r + word_of_nat (n div 128 * 2 ^ (k + 7)) = r + word_of_nat (n * 2 ^ k)"
      unfolding split of_nat_add by (simp only: add.assoc)
    with s' s1 1(7) have "varint_decode_loop s k r = (Some (r + word_of_nat (n * 2 ^ k)), s')"
      using byte_digit_more [of n]
      by (simp add: varint_decode_loop.simps [of s k r] Let_def
          varint_accumulate [OF 1(5) byte_digit_more(2)] del: of_nat_add of_nat_mult)
    with is_advanced_trans [OF a1 a'] spec show ?thesis by simp
  qed
qed

lemma varint32_ok:
  assumes "is_ready cb data s" and "length (varint_spec n) \<le> bytes_left s"
    and "data (is_state s) = varint_spec n @ rest" and "n < 2 ^ 32"
  shows "\<exists>s'. pb_decode_varint32 s = (Some (word_of_nat n), s')
    \<and> is_advanced data s (length (varint_spec n)) s'"
  using varint_loop_ok [OF assms(1-3), of "0 :: u32" 0] assms(4)
  by (simp add: varint32_as_loop)

lemma varint_ok:
  assumes "is_ready cb data s" and "length (varint_spec (unat v)) \<le> bytes_left s"
    and "data (is_state s) = varint_spec (unat v) @ rest"
  shows "\<exists>s'. pb_decode_varint s = (Some v, s')
    \<and> is_advanced data s (length (varint_spec (unat v))) s'"
proof -
  have "unat v < 2 ^ 64" using unsigned_less [of v] by simp
  with varint_loop_ok [OF assms, of "0 :: u64" 0] show ?thesis
    by (simp add: pb_decode_varint_def)
qed

lemma skip_varint_ok:
  "is_ready cb data s \<Longrightarrow> length (varint_spec n) \<le> bytes_left s \<Longrightarrow>
    data (is_state s) = varint_spec n @ rest \<Longrightarrow>
    \<exists>s'. pb_skip_varint s = (True, s') \<and> is_advanced data s (length (varint_spec n)) s'"
proof (induction n arbitrary: s rule: varint_spec.induct)
  case (1 n)
  obtain b bs where spec: "varint_spec n = b # bs" by (cases "varint_spec n") auto
  from 1(3) spec obtain s1 where s1: "pb_read s False 1 = (Some [b], s1)"
    and a1: "is_advanced data s 1 s1"
    using read_ok [OF 1(2), of 1 False] 1(4) by (auto simp: spec)
  show ?case
  proof (cases "n < 128")
    case True
    with spec have "b = word_of_nat n" and "bs = []" by (simp_all add: varint_spec.simps [of n])
    with s1 a1 spec True show ?thesis by (simp add: pb_skip_varint.simps [of s] byte_digit_last)
  next
    case False
    with spec have b: "b = word_of_nat (n mod 128 + 128)" and bs: "bs = varint_spec (n div 128)"
      by (simp_all add: varint_spec.simps [of n])
    have "length (varint_spec (n div 128)) \<le> bytes_left s1"
      and "data (is_state s1) = varint_spec (n div 128) @ rest"
      using a1 1(3,4) spec bs by (auto simp: is_advanced_def)
    then obtain s' where "pb_skip_varint s1 = (True, s')"
      and "is_advanced data s1 (length (varint_spec (n div 128))) s'"
      using 1(1) [OF False is_advanced_ready [OF 1(2) a1]] by blast
    with s1 is_advanced_trans [OF a1] spec bs byte_digit_more(1) [of n] b show ?thesis
      by (fastforce simp: pb_skip_varint.simps [of s] simp del: of_nat_add)
  qed
qed

end

text \<open>\<open>buf_read\<close> keeps the contract; its data is the memory from the read pointer on.\<close>

definition buf_data :: "byte list \<Rightarrow> byte list" where
  "buf_data st = st"

interpretation buf_source: pb_source buf_read buf_data
  by unfold_locales (simp_all add: buf_read_def buf_data_def)

lemma istream_from_buffer_ready:
  "n \<le> length bs \<Longrightarrow> is_ready buf_read buf_data (pb_istream_from_buffer bs n)"
  by (simp add: is_ready_def pb_istream_from_buffer_def buf_data_def)

lemma istream_from_buffer_simps [simp]:
  "buf_data (is_state (pb_istream_from_buffer bs n)) = bs"
  "bytes_left (pb_istream_from_buffer bs n) = n"
  by (simp_all add: pb_istream_from_buffer_def buf_data_def)

end
