(* ===== verification/Pb_Wire.thy ===== *)
theory Pb_Wire
  imports Pb_Istream
begin

text \<open>
  The nanopb encoders of \<open>Pb_Ostream\<close> against the decoders of \<open>Pb_Istream\<close>: what each decoder
  makes of the bytes the matching encoder writes (proved once for every callback that keeps
  the contract \<open>pb_source\<close>), that no decoder reads past its stream, and the round trips over
  memory buffers as the properties of the component.
\<close>

section \<open>Decoders on encoded input\<close>

context pb_source
begin

lemma svarint_ok:
  assumes "is_ready cb data s" and "length (varint_spec (unat (zigzag v))) \<le> bytes_left s"
    and "data (is_state s) = varint_spec (unat (zigzag v)) @ rest"
  shows "\<exists>s'. pb_decode_svarint s = (Some v, s')
    \<and> is_advanced data s (length (varint_spec (unat (zigzag v)))) s'"
  using varint_ok [OF assms] by (auto simp: pb_decode_svarint_def unzigzag_zigzag)

lemma fixed32_ok:
  assumes "is_ready cb data s" and "4 \<le> bytes_left s"
    and "data (is_state s) = fixed32_bytes v @ rest"
  shows "\<exists>s'. pb_decode_fixed32 s = (Some v, s') \<and> is_advanced data s 4 s'"
proof -
  have "take 4 (data (is_state s)) = fixed32_bytes v"
    using assms(3) by (simp add: fixed32_bytes_def)
  with read_ok [OF assms(1,2), of False] fixed32_join [of v] show ?thesis
    by (auto simp: pb_decode_fixed32_def)
qed

lemma fixed64_ok:
  assumes "is_ready cb data s" and "8 \<le> bytes_left s"
    and "data (is_state s) = fixed64_bytes v @ rest"
  shows "\<exists>s'. pb_decode_fixed64 s = (Some v, s') \<and> is_advanced data s 8 s'"
proof -
  have "take 8 (data (is_state s)) = fixed64_bytes v"
    using assms(3) by (simp add: fixed64_bytes_def)
  with read_ok [OF assms(1,2), of False] fixed64_join [of v] show ?thesis
    by (auto simp: pb_decode_fixed64_def)
qed

lemma skip_string_ok:
  assumes ready: "is_ready cb data s" and len: "length (varint_spec n) + n \<le> bytes_left s"
    and data: "data (is_state s) = varint_spec n @ bs @ rest" and n: "length bs = n" "n < 2 ^ 32"
  shows "\<exists>s'. pb_skip_string s = (True, s') \<and> is_advanced data s (length (varint_spec n) + n) s'"
proof -
  from len have len0: "length (varint_spec n) \<le> bytes_left s" by simp
  obtain s1 where s1: "pb_decode_varint32 s = (Some (word_of_nat n), s1)"
    and a1: "is_advanced data s (length (varint_spec n)) s1"
    using varint32_ok [OF ready len0 data n(2)] by blast
  have un: "unat (word_of_nat n :: u32) = n" using n(2) by (simp add: unat_of_nat)
  have "n \<le> bytes_left s1" using a1 len by (auto simp: is_advanced_def)
  then obtain bs' s2 where "pb_read s1 True n = (Some bs', s2)" and "is_advanced data s1 n s2"
    using read_ok [OF is_advanced_ready [OF ready a1], of n True] by blast
  with s1 un is_advanced_trans [OF a1] show ?thesis
    by (auto simp: pb_skip_string_def)
qed

lemma substream_ok:
  assumes ready: "is_ready cb data s" and len: "length (varint_spec n) + n \<le> bytes_left s"
    and data: "data (is_state s) = varint_spec n @ bs @ rest" and n: "length bs = n" "n < 2 ^ 32"
  shows "\<exists>sub s'. pb_make_string_substream s = (Some sub, s')
    \<and> is_ready cb data sub \<and> bytes_left sub = n \<and> take n (data (is_state sub)) = bs
    \<and> bytes_left s' = bytes_left s - (length (varint_spec n) + n)
    \<and> (\<exists>s''. pb_close_string_substream s' sub = (True, s'')
         \<and> is_advanced data s (length (varint_spec n) + n) s'')"
proof -
  from len have len0: "length (varint_spec n) \<le> bytes_left s" by simp
  obtain s1 where s1: "pb_decode_varint32 s = (Some (word_of_nat n), s1)"
    and a1: "is_advanced data s (length (varint_spec n)) s1"
    using varint32_ok [OF ready len0 data n(2)] by blast
  have un: "unat (word_of_nat n :: u32) = n" using n(2) by (simp add: unat_of_nat)
  have nb: "n \<le> bytes_left s1" using a1 len by (auto simp: is_advanced_def)
  let ?sub = "s1\<lparr>bytes_left := n\<rparr>" and ?s' = "s1\<lparr>bytes_left := bytes_left s1 - n\<rparr>"
  have mk: "pb_make_string_substream s = (Some ?sub, ?s')"
    using s1 un nb by (simp add: pb_make_string_substream_def)
  have rsub: "is_ready cb data ?sub"
    using is_advanced_ready [OF ready a1] nb by (simp add: is_ready_def)
  have tk: "take n (data (is_state ?sub)) = bs"
    using a1 data n(1) by (simp add: is_advanced_def)
  obtain bs' s2 where "pb_read ?sub True n = (Some bs', s2)" and "is_advanced data ?sub n s2"
    using read_ok [OF rsub, of n True] by auto
  then have "\<exists>s''. pb_close_string_substream ?s' ?sub = (True, s'')
      \<and> is_advanced data s (length (varint_spec n) + n) s''"
    using a1 nb by (cases "n = 0") (auto simp: pb_close_string_substream_def is_advanced_def add_ac)
  with mk rsub tk a1 show ?thesis by (auto simp: is_advanced_def)
qed

end

lemma pb_tag_split:
  assumes "unat fn < 2 ^ 29" and "unat wt < 8"
  shows "unat (pb_tag wt fn) = unat fn * 8 + unat wt"
proof -
  have small: "unat (ucast wt :: u64) < 2 ^ 3"
    using assms(2) unat_u32_less [of wt] by (simp add: unsigned_ucast_eq take_bit_nat_eq_self)
  have fn64: "unat (ucast fn :: u64) = unat fn" and wt64: "unat (ucast wt :: u64) = unat wt"
    using unat_u32_less [of fn] unat_u32_less [of wt]
    by (simp_all add: unsigned_ucast_eq take_bit_nat_eq_self)
  have "pb_tag wt fn = ucast wt + push_bit 3 (ucast fn)"
    using or_push_bit_add [OF small, of "ucast fn"] by (simp add: pb_tag_def or.commute)
  also have "\<dots> = ucast wt + word_of_nat (unat fn * 8)"
    using push_bit_word_of_nat [of 3 "unat fn", where 'w = 64] by simp
  finally have "pb_tag wt fn = ucast wt + word_of_nat (unat fn * 8)" .
  moreover have "unat (word_of_nat (unat fn * 8) :: u64) = unat fn * 8"
    using assms(1) by (simp only: unat_of_nat) simp
  ultimately show ?thesis
    using assms wt64 by (simp add: unat_word_ariths del: of_nat_mult)
qed

lemma tag_fields:
  assumes "unat fn < 2 ^ 29" and "unat wt < 8"
  shows "(word_of_nat (unat fn * 8 + unat wt) :: u32) AND 7 = wt"
    and "drop_bit 3 (word_of_nat (unat fn * 8 + unat wt) :: u32) = fn"
proof -
  let ?t = "word_of_nat (unat fn * 8 + unat wt) :: u32"
  have t: "unat ?t = unat fn * 8 + unat wt" using assms by (simp only: unat_of_nat) simp
  have "?t AND 7 = take_bit 3 ?t" by (simp add: take_bit_eq_mask mask_numeral del: of_nat_add)
  moreover have "unat (take_bit 3 ?t) = unat wt"
    by (simp only: unsigned_take_bit_eq t) (use assms in \<open>simp add: take_bit_eq_mod\<close>)
  ultimately show "?t AND 7 = wt" by (simp only:) (rule unsigned_word_eqI)
  have "unat (drop_bit 3 ?t) = unat fn"
    by (simp only: unat_drop_bit_eq t) (use assms in \<open>simp add: drop_bit_eq_div\<close>)
  then show "drop_bit 3 ?t = fn" by (rule unsigned_word_eqI)
qed

context pb_source
begin

lemma tag_ok:
  assumes ready: "is_ready cb data s" and len: "length (varint_spec (unat fn * 8 + unat wt)) \<le> bytes_left s"
    and data: "data (is_state s) = varint_spec (unat fn * 8 + unat wt) @ rest"
    and small: "unat fn < 2 ^ 29" "unat wt < 8" and nz: "0 < unat fn * 8 + unat wt"
  shows "\<exists>s'. pb_decode_tag s
      = (\<lparr>tag_ok = True, tag_wire_type = wt, tag_number = fn, tag_eof = False\<rparr>, s')
    \<and> is_advanced data s (length (varint_spec (unat fn * 8 + unat wt))) s'"
proof -
  let ?t = "unat fn * 8 + unat wt"
  have lt: "?t < 2 ^ 32" using small by simp
  then have "unat (word_of_nat ?t :: u32) = ?t" by (simp only: unat_of_nat) simp
  with nz have nz': "(word_of_nat ?t :: u32) \<noteq> 0" by (metis unat_0 less_irrefl)
  from varint32_ok [OF ready len data lt] obtain s' where
    "pb_decode_varint32 s = (Some (word_of_nat ?t), s')"
    and "is_advanced data s (length (varint_spec ?t)) s'" by blast
  with nz' tag_fields [OF small] show ?thesis by (simp add: pb_decode_tag_def del: of_nat_add of_nat_mult)
qed

end

section \<open>Reading never leaves the stream\<close>

definition is_within :: "('s \<Rightarrow> byte list) \<Rightarrow> 's pb_istream \<Rightarrow> 's pb_istream \<Rightarrow> bool" where
  "is_within data s s' \<longleftrightarrow> is_callback s' = is_callback s \<and>
     (\<exists>n \<le> bytes_left s. bytes_left s' = bytes_left s - n
        \<and> data (is_state s') = drop n (data (is_state s)))"

lemma is_within_refl [simp]: "is_within data s s"
  by (auto simp: is_within_def)

lemma is_within_error [simp]: "is_within data s (is_set_error s' m) = is_within data s s'"
  by (simp add: is_within_def is_set_error_def)

lemma is_within_trans:
  assumes "is_within data s s1" and "is_within data s1 s2"
  shows "is_within data s s2"
proof -
  from assms obtain m n where "m \<le> bytes_left s" "bytes_left s1 = bytes_left s - m"
    "data (is_state s1) = drop m (data (is_state s))" "n \<le> bytes_left s1"
    "bytes_left s2 = bytes_left s1 - n" "data (is_state s2) = drop n (data (is_state s1))"
    "is_callback s2 = is_callback s"
    by (auto simp: is_within_def)
  then show ?thesis by (auto simp: is_within_def add.commute intro!: exI [of _ "m + n"])
qed

lemma is_within_ready: "is_ready cb data s \<Longrightarrow> is_within data s s' \<Longrightarrow> is_ready cb data s'"
  by (auto simp: is_within_def is_ready_def)

lemma is_advanced_within: "is_advanced data s n s' \<Longrightarrow> is_within data s s'"
  by (auto simp: is_advanced_def is_within_def intro!: exI [of _ n])

context pb_source
begin

lemma read_buf_within:
  assumes "is_ready cb data s"
  shows "is_within data s (snd (pb_read_buf s n))"
proof (cases "n \<le> bytes_left s")
  case True
  from read_buf_ok [OF assms this] show ?thesis by (auto intro: is_advanced_within)
qed (simp add: pb_read_buf_def)

lemma read_within:
  assumes "is_ready cb data s"
  shows "is_within data s (snd (pb_read s null n))"
proof -
  have "is_ready cb data s \<Longrightarrow> is_within data s (snd (pb_skip_chunks s n))" for s n
  proof (induction s n rule: pb_skip_chunks.induct)
    case (1 s n)
    show ?case
    proof (cases "n > 16")
      case True
      note w = read_buf_within [OF "1.prems", of 16]
      show ?thesis
      proof (cases "pb_read_buf s 16")
        case (Pair r s1)
        with w have w1: "is_within data s s1" by simp
        from Pair True "1.IH" [OF True Pair [symmetric] _ is_within_ready [OF "1.prems" w1]]
          is_within_trans [OF w1] w1 show ?thesis
          by (cases r) (auto simp: pb_skip_chunks.simps [of s n])
      qed
    next
      case False
      with read_buf_within [OF "1.prems"] show ?thesis by (simp add: pb_skip_chunks.simps [of s n])
    qed
  qed
  with assms read_buf_within [OF assms] show ?thesis by (simp add: pb_read_def)
qed

lemma readbyte_within:
  assumes "is_ready cb data s"
  shows "is_within data s (snd (pb_readbyte s))"
proof (cases "bytes_left s = 0")
  case False
  with assms obtain b rest where "data (is_state s) = b # rest"
    by (cases "data (is_state s)") (auto simp: is_ready_def)
  with readbyte_ok [OF assms] False show ?thesis by (auto intro: is_advanced_within)
qed (simp add: pb_readbyte_def)

lemma varint_loop_within:
  "is_ready cb data s \<Longrightarrow> is_within data s (snd (varint_decode_loop s k r))"
proof (induction s k r rule: varint_decode_loop.induct)
  case (1 s k r)
  obtain x s1 where rb: "pb_readbyte s = (x, s1)" by (cases "pb_readbyte s")
  with readbyte_within [OF "1.prems"] have w1: "is_within data s s1" by simp
  from "1.IH" [OF _ rb [symmetric] _ refl _ is_within_ready [OF "1.prems" w1]]
    is_within_trans [OF w1] w1 rb show ?case
    by (cases x) (auto simp: varint_decode_loop.simps [of s k r] Let_def)
qed

lemma varint32_within:
  "is_ready cb data s \<Longrightarrow> is_within data s (snd (pb_decode_varint32 s))"
  by (simp add: varint32_as_loop varint_loop_within)

lemma skip_varint_within:
  "is_ready cb data s \<Longrightarrow> is_within data s (snd (pb_skip_varint s))"
proof (induction s rule: pb_skip_varint.induct)
  case (1 s)
  obtain x s1 where rb: "pb_read s False 1 = (x, s1)" by (cases "pb_read s False 1")
  with read_within [OF "1.prems", of False 1] have w1: "is_within data s s1" by simp
  from "1.IH" [OF rb [symmetric] _ _ is_within_ready [OF "1.prems" w1]]
    is_within_trans [OF w1] w1 rb show ?case
    by (cases x) (auto simp: pb_skip_varint.simps [of s])
qed

lemma skip_string_within:
  assumes "is_ready cb data s"
  shows "is_within data s (snd (pb_skip_string s))"
proof -
  obtain x s1 where d: "pb_decode_varint32 s = (x, s1)" by (cases "pb_decode_varint32 s")
  with varint32_within [OF assms] have w1: "is_within data s s1" by simp
  from is_within_trans [OF w1 read_within [OF is_within_ready [OF assms w1]]] w1 d
  show ?thesis by (cases x) (auto simp: pb_skip_string_def case_prod_beta)
qed

lemma skip_field_within:
  "is_ready cb data s \<Longrightarrow> is_within data s (snd (pb_skip_field s wt))"
  using read_within [of s True 8] read_within [of s True 4]
  by (auto simp: pb_skip_field_def skip_varint_within skip_string_within split: prod.splits)

lemma decode_tag_within:
  "is_ready cb data s \<Longrightarrow> is_within data s (snd (pb_decode_tag s))"
  using varint32_within [of s]
  by (auto simp: pb_decode_tag_def split: prod.splits option.splits)

end


section \<open>Properties\<close>

lemma appended_from_buffer:
  assumes "os_appended buf_out (pb_ostream_from_buffer buf n) bs r"
  obtains o' where "r = (True, o')" and "buf_out (os_state o') = bs" and "bytes_written o' = length bs"
  using assms by (cases r) (auto simp: os_appended_def)

lemma write_to_buffer:
  assumes "length bs \<le> n" and "n \<le> length buf" and "n < SIZE_MODULUS"
  shows "os_appended buf_out (pb_ostream_from_buffer buf n) bs
           (pb_write (pb_ostream_from_buffer buf n) bs (length bs))"
  using buf_sink.write_fits [OF from_buffer_ready [OF assms(2,3)], of bs] assms(1) by simp

lemma rest_of_buffer:
  assumes "is_advanced buf_data (pb_istream_from_buffer (bs @ rest) (length bs + k)) (length bs) i"
  shows "bytes_left i = k" and "is_state i = rest"
  using assms by (auto simp: is_advanced_def buf_data_def pb_istream_from_buffer_def)

lemma buffer_with_rest_ready:
  "k \<le> length rest \<Longrightarrow>
    is_ready buf_read buf_data (pb_istream_from_buffer (bs @ rest) (length bs + k))"
  by (rule istream_from_buffer_ready) simp

text \<open>
  C5: a varint written into a buffer and read back is the same 64-bit value; the reader stops
  exactly at the end of the encoding, whatever follows it.
\<close>

theorem pb_varint_roundtrip:
  assumes "10 \<le> n" and "n \<le> length buf" and "n < SIZE_MODULUS" and "k \<le> length rest"
  shows "\<exists>o' i. pb_encode_varint (pb_ostream_from_buffer buf n) v = (True, o')
    \<and> pb_decode_varint (pb_istream_from_buffer (buf_out (os_state o') @ rest) (bytes_written o' + k))
        = (Some v, i)
    \<and> bytes_left i = k \<and> is_state i = rest"
proof -
  let ?bs = "varint_spec (unat v)"
  have "length ?bs \<le> n" using length_varint_u64 [of v] assms(1) by simp
  from write_to_buffer [OF this assms(2,3)] obtain o' where
    o': "pb_encode_varint (pb_ostream_from_buffer buf n) v = (True, o')"
    "buf_out (os_state o') = ?bs" "bytes_written o' = length ?bs"
    by (auto simp: pb_encode_varint_writes elim: appended_from_buffer)
  obtain i where "pb_decode_varint (pb_istream_from_buffer (?bs @ rest) (length ?bs + k)) = (Some v, i)"
    and "is_advanced buf_data (pb_istream_from_buffer (?bs @ rest) (length ?bs + k)) (length ?bs) i"
    using buf_source.varint_ok [OF buffer_with_rest_ready [OF assms(4), of ?bs], of v rest] by auto
  with o' rest_of_buffer show ?thesis by fastforce
qed

theorem pb_varint_roundtrip_witness:
  "\<exists>o' i. pb_encode_varint (pb_ostream_from_buffer (replicate 10 0) 10) 300 = (True, o')
    \<and> pb_decode_varint (pb_istream_from_buffer (buf_out (os_state o') @ [7]) (bytes_written o' + 1))
        = (Some 300, i)
    \<and> bytes_left i = 1 \<and> is_state i = [7]"
  by (rule pb_varint_roundtrip) (simp_all add: SIZE_MODULUS_def)

text \<open>
  A signed value written with \<open>pb_encode_svarint\<close> and read with \<open>pb_decode_svarint\<close> comes
  back unchanged for all 64-bit values, and the zigzag mapping between them is a bijection.
\<close>

theorem pb_svarint_roundtrip:
  assumes "10 \<le> n" and "n \<le> length buf" and "n < SIZE_MODULUS" and "k \<le> length rest"
  shows "(\<exists>o' i. pb_encode_svarint (pb_ostream_from_buffer buf n) v = (True, o')
    \<and> pb_decode_svarint (pb_istream_from_buffer (buf_out (os_state o') @ rest) (bytes_written o' + k))
        = (Some v, i)
    \<and> bytes_left i = k \<and> is_state i = rest)
    \<and> zigzag (unzigzag v) = v"
proof -
  let ?bs = "varint_spec (unat (zigzag v))"
  have "length ?bs \<le> n" using length_varint_u64 [of "zigzag v"] assms(1) by simp
  from write_to_buffer [OF this assms(2,3)] obtain o' where
    o': "pb_encode_svarint (pb_ostream_from_buffer buf n) v = (True, o')"
    "buf_out (os_state o') = ?bs" "bytes_written o' = length ?bs"
    by (auto simp: pb_encode_svarint_def pb_encode_varint_writes elim: appended_from_buffer)
  obtain i where "pb_decode_svarint (pb_istream_from_buffer (?bs @ rest) (length ?bs + k)) = (Some v, i)"
    and "is_advanced buf_data (pb_istream_from_buffer (?bs @ rest) (length ?bs + k)) (length ?bs) i"
    using buf_source.svarint_ok [OF buffer_with_rest_ready [OF assms(4), of ?bs], of v rest] by auto
  with o' rest_of_buffer zigzag_unzigzag show ?thesis by fastforce
qed

theorem pb_svarint_roundtrip_witness:
  "(\<exists>o' i. pb_encode_svarint (pb_ostream_from_buffer (replicate 10 0) 10) (- 5) = (True, o')
    \<and> pb_decode_svarint (pb_istream_from_buffer (buf_out (os_state o') @ []) (bytes_written o' + 0))
        = (Some (- 5), i)
    \<and> bytes_left i = 0 \<and> is_state i = [])
    \<and> zigzag (unzigzag (- 5)) = - 5"
  by (rule pb_svarint_roundtrip) (simp_all add: SIZE_MODULUS_def)

text \<open>
  \<open>pb_encode_fixed32\<close> and \<open>pb_encode_fixed64\<close> write exactly four and eight bytes, and
  \<open>pb_decode_fixed32\<close> and \<open>pb_decode_fixed64\<close> read the same value back.
\<close>

theorem pb_fixed_roundtrip:
  assumes "8 \<le> n" and "n \<le> length buf" and "n < SIZE_MODULUS" and "k \<le> length rest"
  shows "(\<exists>o' i. pb_encode_fixed32 (pb_ostream_from_buffer buf n) v = (True, o')
      \<and> bytes_written o' = 4
      \<and> pb_decode_fixed32 (pb_istream_from_buffer (buf_out (os_state o') @ rest) (4 + k)) = (Some v, i)
      \<and> bytes_left i = k \<and> is_state i = rest)
    \<and> (\<exists>o' i. pb_encode_fixed64 (pb_ostream_from_buffer buf n) w = (True, o')
      \<and> bytes_written o' = 8
      \<and> pb_decode_fixed64 (pb_istream_from_buffer (buf_out (os_state o') @ rest) (8 + k)) = (Some w, i)
      \<and> bytes_left i = k \<and> is_state i = rest)"
proof -
  have l4: "length (fixed32_bytes v) = 4" and l8: "length (fixed64_bytes w) = 8"
    by (simp_all add: fixed32_bytes_def fixed64_bytes_def)
  obtain o1 where o1: "pb_encode_fixed32 (pb_ostream_from_buffer buf n) v = (True, o1)"
    "buf_out (os_state o1) = fixed32_bytes v" "bytes_written o1 = 4"
    using write_to_buffer [of "fixed32_bytes v" n buf] assms
    by (auto simp: pb_encode_fixed32_def l4 elim: appended_from_buffer)
  obtain o2 where o2: "pb_encode_fixed64 (pb_ostream_from_buffer buf n) w = (True, o2)"
    "buf_out (os_state o2) = fixed64_bytes w" "bytes_written o2 = 8"
    using write_to_buffer [of "fixed64_bytes w" n buf] assms
    by (auto simp: pb_encode_fixed64_def l8 elim: appended_from_buffer)
  from buf_source.fixed32_ok [OF buffer_with_rest_ready [OF assms(4), of "fixed32_bytes v"]]
  have d4: "\<exists>i. pb_decode_fixed32 (pb_istream_from_buffer (fixed32_bytes v @ rest) (4 + k)) = (Some v, i)
      \<and> bytes_left i = k \<and> is_state i = rest"
    using rest_of_buffer [of "fixed32_bytes v"] by (fastforce simp: l4)
  from buf_source.fixed64_ok [OF buffer_with_rest_ready [OF assms(4), of "fixed64_bytes w"]]
  have d8: "\<exists>i. pb_decode_fixed64 (pb_istream_from_buffer (fixed64_bytes w @ rest) (8 + k)) = (Some w, i)
      \<and> bytes_left i = k \<and> is_state i = rest"
    using rest_of_buffer [of "fixed64_bytes w"] by (fastforce simp: l8)
  from d4 d8 o1 o2 show ?thesis by fastforce
qed

theorem pb_fixed_roundtrip_witness:
  "(\<exists>o' i. pb_encode_fixed32 (pb_ostream_from_buffer (replicate 8 0) 8) 0xDEADBEEF = (True, o')
      \<and> bytes_written o' = 4
      \<and> pb_decode_fixed32 (pb_istream_from_buffer (buf_out (os_state o') @ []) (4 + 0))
          = (Some 0xDEADBEEF, i)
      \<and> bytes_left i = 0 \<and> is_state i = [])
    \<and> (\<exists>o' i. pb_encode_fixed64 (pb_ostream_from_buffer (replicate 8 0) 8) 1 = (True, o')
      \<and> bytes_written o' = 8
      \<and> pb_decode_fixed64 (pb_istream_from_buffer (buf_out (os_state o') @ []) (8 + 0)) = (Some 1, i)
      \<and> bytes_left i = 0 \<and> is_state i = [])"
  by (rule pb_fixed_roundtrip) (simp_all add: SIZE_MODULUS_def)

text \<open>
  A field tag written with \<open>pb_encode_tag\<close> for a field number below 2^29 and any three-bit
  wire type (not both zero, which is the end marker) is decoded by \<open>pb_decode_tag\<close> to the same
  number and type, without the end-of-message flag.
\<close>

theorem pb_tag_roundtrip:
  assumes "10 \<le> n" and "n \<le> length buf" and "n < SIZE_MODULUS" and "k \<le> length rest"
    and "unat fn < 2 ^ 29" and "unat wt < 8" and "0 < unat fn * 8 + unat wt"
  shows "\<exists>o' i. pb_encode_tag (pb_ostream_from_buffer buf n) wt fn = (True, o')
    \<and> pb_decode_tag (pb_istream_from_buffer (buf_out (os_state o') @ rest) (bytes_written o' + k))
        = (\<lparr>tag_ok = True, tag_wire_type = wt, tag_number = fn, tag_eof = False\<rparr>, i)
    \<and> bytes_left i = k \<and> is_state i = rest"
proof -
  let ?bs = "varint_spec (unat fn * 8 + unat wt)"
  have t: "unat (pb_tag wt fn) = unat fn * 8 + unat wt" using assms(5,6) by (rule pb_tag_split)
  have "length ?bs \<le> n" using length_varint_u64 [of "pb_tag wt fn"] assms(1) by (simp add: t)
  from write_to_buffer [OF this assms(2,3)] obtain o' where
    o': "pb_encode_tag (pb_ostream_from_buffer buf n) wt fn = (True, o')"
    "buf_out (os_state o') = ?bs" "bytes_written o' = length ?bs"
    by (auto simp: pb_encode_tag_def pb_encode_varint_writes t elim: appended_from_buffer)
  from buf_source.tag_ok [OF buffer_with_rest_ready [OF assms(4), of ?bs] _ _ assms(5-7)]
  obtain i where "pb_decode_tag (pb_istream_from_buffer (?bs @ rest) (length ?bs + k))
      = (\<lparr>tag_ok = True, tag_wire_type = wt, tag_number = fn, tag_eof = False\<rparr>, i)"
    and "is_advanced buf_data (pb_istream_from_buffer (?bs @ rest) (length ?bs + k)) (length ?bs) i"
    by auto
  with o' rest_of_buffer show ?thesis by fastforce
qed

theorem pb_tag_roundtrip_witness:
  "\<exists>o' i. pb_encode_tag (pb_ostream_from_buffer (replicate 10 0) 10) PB_WT_STRING 1000 = (True, o')
    \<and> pb_decode_tag (pb_istream_from_buffer (buf_out (os_state o') @ [1]) (bytes_written o' + 1))
        = (\<lparr>tag_ok = True, tag_wire_type = PB_WT_STRING, tag_number = 1000, tag_eof = False\<rparr>, i)
    \<and> bytes_left i = 1 \<and> is_state i = [1]"
  by (rule pb_tag_roundtrip) (simp_all add: SIZE_MODULUS_def PB_WT_STRING_def)

text \<open>
  A length-delimited field written with \<open>pb_encode_string\<close> is read back through
  \<open>pb_make_string_substream\<close>: the substream is limited to exactly the written bytes, the parent
  is charged for them at once, and \<open>pb_close_string_substream\<close> leaves the parent right behind
  the field, even when nothing of the substream was read.
\<close>

theorem pb_string_substream_roundtrip:
  assumes "length bs < 2 ^ 32" and "length (varint_spec (length bs)) + length bs \<le> n"
    and "n \<le> length buf" and "n < SIZE_MODULUS" and "k \<le> length rest"
  shows "\<exists>o' sub i i'. pb_encode_string (pb_ostream_from_buffer buf n) bs (length bs) = (True, o')
    \<and> pb_make_string_substream
        (pb_istream_from_buffer (buf_out (os_state o') @ rest) (bytes_written o' + k)) = (Some sub, i)
    \<and> bytes_left sub = length bs \<and> take (length bs) (is_state sub) = bs \<and> bytes_left i = k
    \<and> pb_close_string_substream i sub = (True, i') \<and> bytes_left i' = k \<and> is_state i' = rest"
proof -
  let ?v = "varint_spec (length bs)" and ?bs = "varint_spec (length bs) @ bs"
  have "length bs < SIZE_MODULUS" using assms(1) by (simp add: SIZE_MODULUS_def)
  with buf_sink.string_fits [OF from_buffer_ready [OF assms(3,4)], of "length bs" bs] assms(2)
  obtain o' where o': "pb_encode_string (pb_ostream_from_buffer buf n) bs (length bs) = (True, o')"
    "buf_out (os_state o') = ?bs" "bytes_written o' = length ?bs"
    by (auto elim: appended_from_buffer)
  let ?i0 = "pb_istream_from_buffer (?bs @ rest) (length ?bs + k)"
  from buf_source.substream_ok [OF buffer_with_rest_ready [OF assms(5), of ?bs],
      of "length bs" bs rest] assms(1)
  obtain sub i i' where sub: "pb_make_string_substream ?i0 = (Some sub, i)"
    "bytes_left sub = length bs" "take (length bs) (buf_data (is_state sub)) = bs" "bytes_left i = k"
    "pb_close_string_substream i sub = (True, i')"
    and adv: "is_advanced buf_data ?i0 (length ?bs) i'"
    by auto
  from rest_of_buffer [OF adv] sub o' show ?thesis
    by (intro exI [of _ o'] exI [of _ sub] exI [of _ i] exI [of _ i']) (simp add: buf_data_def)
qed

theorem pb_string_substream_roundtrip_witness:
  "\<exists>o' sub i i'. pb_encode_string (pb_ostream_from_buffer (replicate 8 0) 8) [65, 66] (length [65, 66 :: byte])
      = (True, o')
    \<and> pb_make_string_substream
        (pb_istream_from_buffer (buf_out (os_state o') @ [9]) (bytes_written o' + 1)) = (Some sub, i)
    \<and> bytes_left sub = length [65, 66 :: byte]
    \<and> take (length [65, 66 :: byte]) (is_state sub) = [65, 66] \<and> bytes_left i = 1
    \<and> pb_close_string_substream i sub = (True, i') \<and> bytes_left i' = 1 \<and> is_state i' = [9]"
  by (rule pb_string_substream_roundtrip) (simp_all add: SIZE_MODULUS_def varint_spec.simps)

text \<open>
  On arbitrary input bytes, \<open>pb_decode_tag\<close> and \<open>pb_skip_field\<close> (for every wire type,
  valid or not) return, never read past the stream's limit, and leave the stream at a suffix
  of the input with the limit reduced by exactly the bytes consumed.
\<close>

theorem pb_decoders_stay_in_stream:
  assumes "n \<le> length bs"
  shows "(\<exists>m \<le> n. bytes_left (snd (pb_decode_tag (pb_istream_from_buffer bs n))) = n - m
           \<and> is_state (snd (pb_decode_tag (pb_istream_from_buffer bs n))) = drop m bs)
       \<and> (\<exists>m \<le> n. bytes_left (snd (pb_skip_field (pb_istream_from_buffer bs n) wt)) = n - m
           \<and> is_state (snd (pb_skip_field (pb_istream_from_buffer bs n) wt)) = drop m bs)"
  using buf_source.decode_tag_within [OF istream_from_buffer_ready [OF assms]]
    buf_source.skip_field_within [OF istream_from_buffer_ready [OF assms], of wt]
  by (simp add: is_within_def buf_data_def pb_istream_from_buffer_def)

theorem pb_decoders_stay_in_stream_witness:
  "(\<exists>m \<le> 3. bytes_left (snd (pb_decode_tag (pb_istream_from_buffer [0x8A, 0x01, 5] 3))) = 3 - m
           \<and> is_state (snd (pb_decode_tag (pb_istream_from_buffer [0x8A, 0x01, 5] 3))) = drop m [0x8A, 0x01, 5])
       \<and> (\<exists>m \<le> 3. bytes_left (snd (pb_skip_field (pb_istream_from_buffer [0x8A, 0x01, 5] 3) 0)) = 3 - m
           \<and> is_state (snd (pb_skip_field (pb_istream_from_buffer [0x8A, 0x01, 5] 3) 0)) = drop m [0x8A, 0x01, 5])"
  by (rule pb_decoders_stay_in_stream) simp

definition stops_at_rest :: "byte list \<Rightarrow> byte list \<Rightarrow> nat \<Rightarrow> u32 \<Rightarrow> bool" where
  "stops_at_rest bs rest k wt \<longleftrightarrow>
     (\<exists>i. pb_skip_field (pb_istream_from_buffer (bs @ rest) (length bs + k)) wt = (True, i)
        \<and> is_advanced buf_data (pb_istream_from_buffer (bs @ rest) (length bs + k)) (length bs) i)"

lemma stops_at_restD:
  assumes "stops_at_rest bs rest k wt"
  shows "\<exists>i. pb_skip_field (pb_istream_from_buffer (bs @ rest) (length bs + k)) wt = (True, i)
    \<and> bytes_left i = k \<and> is_state i = rest"
  using assms rest_of_buffer unfolding stops_at_rest_def by blast

text \<open>
  \<open>pb_skip_field\<close> skips exactly one field value: for each of the four wire types it consumes
  what the matching encoder wrote and stops at the next field.
\<close>

theorem pb_skip_field_exact:
  assumes "k \<le> length rest" and "length bs < 2 ^ 32"
  shows "(\<exists>i. pb_skip_field (pb_istream_from_buffer (varint_spec (unat (v :: u64)) @ rest)
              (length (varint_spec (unat v)) + k)) PB_WT_VARINT = (True, i)
            \<and> bytes_left i = k \<and> is_state i = rest)
       \<and> (\<exists>i. pb_skip_field (pb_istream_from_buffer (fixed64_bytes w @ rest) (8 + k)) PB_WT_64BIT
              = (True, i) \<and> bytes_left i = k \<and> is_state i = rest)
       \<and> (\<exists>i. pb_skip_field (pb_istream_from_buffer ((varint_spec (length bs) @ bs) @ rest)
              (length (varint_spec (length bs) @ bs) + k)) PB_WT_STRING = (True, i)
            \<and> bytes_left i = k \<and> is_state i = rest)
       \<and> (\<exists>i. pb_skip_field (pb_istream_from_buffer (fixed32_bytes x @ rest) (4 + k)) PB_WT_32BIT
              = (True, i) \<and> bytes_left i = k \<and> is_state i = rest)"
proof -
  have len: "length (fixed64_bytes w) = 8" "length (fixed32_bytes x) = 4"
    by (simp_all add: fixed64_bytes_def fixed32_bytes_def)
  from buf_source.skip_varint_ok [OF buffer_with_rest_ready [OF assms(1), of "varint_spec (unat v)"],
      of "unat v" rest]
  have v: "stops_at_rest (varint_spec (unat v)) rest k PB_WT_VARINT"
    by (auto simp: stops_at_rest_def pb_skip_field_def)
  from buf_source.skip_string_ok [OF buffer_with_rest_ready [OF assms(1),
      of "varint_spec (length bs) @ bs"], of "length bs" bs rest] assms(2)
  have s: "stops_at_rest (varint_spec (length bs) @ bs) rest k PB_WT_STRING"
    by (auto simp: stops_at_rest_def pb_skip_field_def wire_type_defs)
  from buf_source.read_ok [OF buffer_with_rest_ready [OF assms(1), of "fixed64_bytes w"], of 8 True]
  have d: "stops_at_rest (fixed64_bytes w) rest k PB_WT_64BIT"
    by (auto simp: stops_at_rest_def pb_skip_field_def wire_type_defs len)
  from buf_source.read_ok [OF buffer_with_rest_ready [OF assms(1), of "fixed32_bytes x"], of 4 True]
  have f: "stops_at_rest (fixed32_bytes x) rest k PB_WT_32BIT"
    by (auto simp: stops_at_rest_def pb_skip_field_def wire_type_defs len)
  from v s d f show ?thesis by (auto dest!: stops_at_restD simp: len)
qed

theorem pb_skip_field_exact_witness:
  "(\<exists>i. pb_skip_field (pb_istream_from_buffer (varint_spec (unat (300 :: u64)) @ [1])
              (length (varint_spec (unat (300 :: u64))) + 1)) PB_WT_VARINT = (True, i)
            \<and> bytes_left i = 1 \<and> is_state i = [1])
       \<and> (\<exists>i. pb_skip_field (pb_istream_from_buffer (fixed64_bytes 5 @ [1]) (8 + 1)) PB_WT_64BIT
              = (True, i) \<and> bytes_left i = 1 \<and> is_state i = [1])
       \<and> (\<exists>i. pb_skip_field (pb_istream_from_buffer ((varint_spec (length [7, 8 :: byte]) @ [7, 8]) @ [1])
              (length (varint_spec (length [7, 8 :: byte]) @ [7, 8 :: byte]) + 1)) PB_WT_STRING = (True, i)
            \<and> bytes_left i = 1 \<and> is_state i = [1])
       \<and> (\<exists>i. pb_skip_field (pb_istream_from_buffer (fixed32_bytes 6 @ [1]) (4 + 1)) PB_WT_32BIT
              = (True, i) \<and> bytes_left i = 1 \<and> is_state i = [1])"
  by (rule pb_skip_field_exact) simp_all

end
