(* ===== verification/Pb_Field.thy ===== *)
theory Pb_Field
  imports Pb_Wire
begin

text \<open>
  The message level of nanopb: memory, field descriptors (\<open>nanopb/pb.h\<close>) and the field iterator
  (\<open>nanopb/pb_common.c\<close>).

  Message structs are bytes in a flat memory; an address is a natural number and \<open>NULL\<close> is 0.
  Integers and pointers are stored little-endian, as on the target. A descriptor table is a list
  that ends with the terminator \<open>PB_LAST_FIELD\<close> (tag 0), as the generated arrays do; the
  tables of submessages hang off their flds, so a table is a finite tree.
\<close>

section \<open>Memory\<close>

type_synonym mem = "nat \<Rightarrow> byte"

definition rd :: "mem \<Rightarrow> nat \<Rightarrow> nat \<Rightarrow> byte list" where
  "rd m a n = map m [a..<a + n]"

definition wr :: "mem \<Rightarrow> nat \<Rightarrow> byte list \<Rightarrow> mem" where
  "wr m a bs = (\<lambda>x. if a \<le> x \<and> x < a + length bs then bs ! (x - a) else m x)"

definition rd_word :: "mem \<Rightarrow> nat \<Rightarrow> 'w::len word" where
  "rd_word m a = word_of_nat (le_nat (rd m a (LENGTH('w) div 8)))"

definition wr_word :: "mem \<Rightarrow> nat \<Rightarrow> 'w::len word \<Rightarrow> mem" where
  "wr_word m a w = wr m a (le_bytes (LENGTH('w) div 8) (unat w))"

text \<open>A stored pointer.\<close>

definition rd_ptr :: "mem \<Rightarrow> nat \<Rightarrow> nat" where
  "rd_ptr m a = unat (rd_word m a :: u64)"

lemma length_rd [simp]: "length (rd m a n) = n"
  by (simp add: rd_def)

lemma wr_outside: "x < a \<or> a + length bs \<le> x \<Longrightarrow> wr m a bs x = m x"
  by (auto simp: wr_def)

lemma rd_wr_same: "rd (wr m a bs) a (length bs) = bs"
  by (rule nth_equalityI) (simp_all add: rd_def wr_def)

lemma rd_wr_disjoint: "b + n \<le> a \<or> a + length bs \<le> b \<Longrightarrow> rd (wr m a bs) b n = rd m b n"
  by (auto simp: rd_def wr_def)

lemma rd_cong: "(\<And>x. a \<le> x \<Longrightarrow> x < a + n \<Longrightarrow> m x = m' x) \<Longrightarrow> rd m a n = rd m' a n"
  by (simp add: rd_def)

section \<open>Field descriptors\<close>

text \<open>
  \<open>struct pb_field_s\<close>. \<open>ptr\<close> is \<open>NULL\<close>, the table of a submessage or the default value.
  \<open>size_offset\<close> is signed.
\<close>

datatype pb_field =
  Pb_Field (tag: u32) (type: byte) (data_offset: u32) (size_offset: u32) (data_size: u32)
    (array_size: u32) (ptr: pb_ptr)
and pb_ptr = Null | Submsg_fields "pb_field list" | Default_value "byte list"

definition PB_LTYPE :: "byte \<Rightarrow> byte" where "PB_LTYPE x = x AND 0x0F"
definition PB_HTYPE :: "byte \<Rightarrow> byte" where "PB_HTYPE x = x AND 0x30"
definition PB_ATYPE :: "byte \<Rightarrow> byte" where "PB_ATYPE x = x AND 0xC0"

abbreviation PB_LTYPE_VARINT :: byte where "PB_LTYPE_VARINT \<equiv> 0x00"
abbreviation PB_LTYPE_UVARINT :: byte where "PB_LTYPE_UVARINT \<equiv> 0x01"
abbreviation PB_LTYPE_SVARINT :: byte where "PB_LTYPE_SVARINT \<equiv> 0x02"
abbreviation PB_LTYPE_FIXED32 :: byte where "PB_LTYPE_FIXED32 \<equiv> 0x03"
abbreviation PB_LTYPE_FIXED64 :: byte where "PB_LTYPE_FIXED64 \<equiv> 0x04"
abbreviation PB_LTYPE_LAST_PACKABLE :: byte where "PB_LTYPE_LAST_PACKABLE \<equiv> 0x04"
abbreviation PB_LTYPE_BYTES :: byte where "PB_LTYPE_BYTES \<equiv> 0x05"
abbreviation PB_LTYPE_STRING :: byte where "PB_LTYPE_STRING \<equiv> 0x06"
abbreviation PB_LTYPE_SUBMESSAGE :: byte where "PB_LTYPE_SUBMESSAGE \<equiv> 0x07"
abbreviation PB_LTYPE_EXTENSION :: byte where "PB_LTYPE_EXTENSION \<equiv> 0x08"
abbreviation PB_LTYPE_FIXED_LENGTH_BYTES :: byte where "PB_LTYPE_FIXED_LENGTH_BYTES \<equiv> 0x09"

abbreviation PB_HTYPE_REQUIRED :: byte where "PB_HTYPE_REQUIRED \<equiv> 0x00"
abbreviation PB_HTYPE_OPTIONAL :: byte where "PB_HTYPE_OPTIONAL \<equiv> 0x10"
abbreviation PB_HTYPE_REPEATED :: byte where "PB_HTYPE_REPEATED \<equiv> 0x20"
abbreviation PB_HTYPE_ONEOF :: byte where "PB_HTYPE_ONEOF \<equiv> 0x30"

abbreviation PB_ATYPE_STATIC :: byte where "PB_ATYPE_STATIC \<equiv> 0x00"
abbreviation PB_ATYPE_POINTER :: byte where "PB_ATYPE_POINTER \<equiv> 0x80"
abbreviation PB_ATYPE_CALLBACK :: byte where "PB_ATYPE_CALLBACK \<equiv> 0x40"

definition PB_SIZE_MAX :: u32 where "PB_SIZE_MAX = - 1"

abbreviation ltype :: "pb_field \<Rightarrow> byte" where "ltype f \<equiv> PB_LTYPE (type f)"
abbreviation htype :: "pb_field \<Rightarrow> byte" where "htype f \<equiv> PB_HTYPE (type f)"
abbreviation atype :: "pb_field \<Rightarrow> byte" where "atype f \<equiv> PB_ATYPE (type f)"

text \<open>A data pointer moved by a signed offset.\<close>

definition shift_addr :: "nat \<Rightarrow> u32 \<Rightarrow> nat" where
  "shift_addr p off = nat (int p + sint off)"

section \<open>The field iterator\<close>

record pb_field_iter =
  start :: "pb_field list"
  pos :: nat
  required_field_index :: nat
  dest_struct :: nat
  pData :: nat
  pSize :: nat

abbreviation pos_field :: "pb_field_iter \<Rightarrow> pb_field" where
  "pos_field iter \<equiv> start iter ! pos iter"

definition pb_field_iter_begin :: "pb_field list \<Rightarrow> nat \<Rightarrow> pb_field_iter \<times> bool" where
  "pb_field_iter_begin flds dest =
     (let p = dest + unat (data_offset (flds ! 0)) in
      (\<lparr>start = flds, pos = 0, required_field_index = 0, dest_struct = dest, pData = p,
        pSize = shift_addr p (size_offset (flds ! 0))\<rparr>,
       tag (flds ! 0) \<noteq> 0))"

definition pb_field_iter_next :: "pb_field_iter \<Rightarrow> pb_field_iter \<times> bool" where
  "pb_field_iter_next iter =
     (let prev_field = pos_field iter in
      if tag prev_field = 0 then (iter, False)
      else
        let iter = iter\<lparr>pos := pos iter + 1\<rparr>; f = pos_field iter in
        if tag f = 0 then (fst (pb_field_iter_begin (start iter) (dest_struct iter)), False)
        else if htype prev_field = PB_HTYPE_ONEOF \<and> htype f = PB_HTYPE_ONEOF \<and> data_offset f = PB_SIZE_MAX
        then (iter, True)
        else
          let prev_size =
                (if atype prev_field = PB_ATYPE_STATIC \<and> htype prev_field = PB_HTYPE_REPEATED
                 then sz (unat (data_size prev_field) * unat (array_size prev_field))
                 else if atype prev_field = PB_ATYPE_POINTER then 8
                 else unat (data_size prev_field));
              iter = (if htype prev_field = PB_HTYPE_REQUIRED
                      then iter\<lparr>required_field_index := required_field_index iter + 1\<rparr> else iter);
              p = pData iter + prev_size + unat (data_offset f)
          in (iter\<lparr>pData := p, pSize := shift_addr p (size_offset f)\<rparr>, True))"

text \<open>
  The \<open>do ... while\<close> loop of \<open>pb_field_iter_find\<close>. \<open>None\<close>: the loop did not end within the given
  number of turns; the table's length is always enough.
\<close>

fun find_loop :: "nat \<Rightarrow> nat \<Rightarrow> (pb_field \<Rightarrow> bool) \<Rightarrow> pb_field_iter \<Rightarrow> (pb_field_iter \<times> bool) option" where
  "find_loop 0 start_pos wanted iter = None"
| "find_loop (Suc k) start_pos wanted iter =
     (if wanted (pos_field iter) then Some (iter, True)
      else let iter' = fst (pb_field_iter_next iter)
           in if pos iter' = start_pos then Some (iter', False) else find_loop k start_pos wanted iter')"

definition pb_field_iter_find :: "pb_field_iter \<Rightarrow> u32 \<Rightarrow> (pb_field_iter \<times> bool) option" where
  "pb_field_iter_find iter t =
     find_loop (length (start iter)) (pos iter) (\<lambda>f. tag f = t \<and> ltype f \<noteq> PB_LTYPE_EXTENSION) iter"

text \<open>
  The loops \<open>do { ... } while (pb_field_iter_next (&iter))\<close>: the iterators their bodies see, from
  \<open>iter\<close> on.
\<close>

fun iter_rest :: "nat \<Rightarrow> pb_field_iter \<Rightarrow> pb_field_iter list" where
  "iter_rest 0 iter = []"
| "iter_rest (Suc k) iter =
     iter # (case pb_field_iter_next iter of (iter', ok) \<Rightarrow> if ok then iter_rest k iter' else [])"

definition iter_walk :: "pb_field list \<Rightarrow> nat \<Rightarrow> pb_field_iter list" where
  "iter_walk flds dest =
     (case pb_field_iter_begin flds dest of (iter, ok) \<Rightarrow>
        if ok then iter_rest (length flds) iter else [])"

section \<open>Tables\<close>

text \<open>The last entry and only it is the terminator.\<close>

definition terminated :: "pb_field list \<Rightarrow> bool" where
  "terminated flds \<longleftrightarrow>
     flds \<noteq> [] \<and> tag (last flds) = 0 \<and> (\<forall>f\<in>set (butlast flds). tag f \<noteq> 0)"

text \<open>An iterator somewhere inside its table.\<close>

definition iter_ok :: "pb_field_iter \<Rightarrow> bool" where
  "iter_ok iter \<longleftrightarrow> terminated (start iter) \<and>
     (pos iter < length (start iter) - 1 \<or> length (start iter) = 1 \<and> pos iter = 0)"

lemma terminated_nth:
  "terminated flds \<Longrightarrow> i < length flds \<Longrightarrow> tag (flds ! i) = 0 \<longleftrightarrow> i = length flds - 1"
  by (auto simp: terminated_def last_conv_nth nth_butlast in_set_conv_nth)
    (metis One_nat_def Suc_pred length_butlast length_greater_0_conv less_antisym nth_butlast nth_mem)

lemma iter_begin_facts [simp]:
  "start (fst (pb_field_iter_begin flds d)) = flds" "pos (fst (pb_field_iter_begin flds d)) = 0"
  "required_field_index (fst (pb_field_iter_begin flds d)) = 0"
  "dest_struct (fst (pb_field_iter_begin flds d)) = d"
  by (simp_all add: pb_field_iter_begin_def Let_def)

lemma iter_next_facts:
  "start (fst (pb_field_iter_next it)) = start it" "dest_struct (fst (pb_field_iter_next it)) = dest_struct it"
  by (simp_all add: pb_field_iter_next_def Let_def)

lemma iter_next_pos:
  assumes "iter_ok it"
  shows "snd (pb_field_iter_next it) \<longleftrightarrow> Suc (pos it) < length (start it) - 1"
    "pos (fst (pb_field_iter_next it)) = (if Suc (pos it) < length (start it) - 1 then Suc (pos it) else 0)"
    "iter_ok (fst (pb_field_iter_next it))"
proof -
  have t: "terminated (start it)" using assms by (simp add: iter_ok_def)
  then have "start it \<noteq> []" by (simp add: terminated_def)
  then have l: "0 < length (start it)" by simp
  have "pos it < length (start it)" using assms by (auto simp: iter_ok_def)
  note z = terminated_nth [OF t this] and z' = terminated_nth [OF t, of "Suc (pos it)"]
  have "snd (pb_field_iter_next it) = (Suc (pos it) < length (start it) - 1)
    \<and> pos (fst (pb_field_iter_next it)) = (if Suc (pos it) < length (start it) - 1 then Suc (pos it) else 0)"
  proof (cases "length (start it) = 1")
    case True
    then have "tag (pos_field it) = 0" "pos it = 0" using z assms by (auto simp: iter_ok_def)
    then show ?thesis using True by (simp add: pb_field_iter_next_def Let_def)
  next
    case False
    then have p: "Suc (pos it) < length (start it)" "tag (pos_field it) \<noteq> 0" using z assms by (auto simp: iter_ok_def)
    have z: "tag (start it ! (pos it + 1)) = 0 \<longleftrightarrow> \<not> Suc (pos it) < length (start it) - 1"
      using z' [OF p(1)] p(1) by auto
    show ?thesis
      using p(2) by (cases "Suc (pos it) < length (start it) - 1")
        (simp_all add: pb_field_iter_next_def Let_def z del: One_nat_def)
  qed
  then show 1: "snd (pb_field_iter_next it) \<longleftrightarrow> Suc (pos it) < length (start it) - 1"
    and 2: "pos (fst (pb_field_iter_next it)) = (if Suc (pos it) < length (start it) - 1 then Suc (pos it) else 0)"
    by simp_all
  show "iter_ok (fst (pb_field_iter_next it))"
    using t l 2 assms by (auto simp: iter_ok_def iter_next_facts)
qed

text \<open>What the walk over a table visits: every field once, in order.\<close>

lemma iter_rest_pos:
  "iter_ok it \<Longrightarrow> 1 < length (start it) \<Longrightarrow> length (start it) \<le> Suc (pos it + k) \<Longrightarrow>
    map pos (iter_rest k it) = [pos it..<length (start it) - 1] \<and> (\<forall>i\<in>set (iter_rest k it). start i = start it \<and> iter_ok i)"
proof (induction k arbitrary: it)
  case 0
  then show ?case by (auto simp: iter_ok_def)
next
  case (Suc k)
  note nx = iter_next_pos [OF Suc.prems(1)]
  obtain it' more' where n: "pb_field_iter_next it = (it', more')" by fastforce
  have p: "pos it < length (start it) - 1" using Suc.prems(1,2) by (auto simp: iter_ok_def)
  show ?case
  proof (cases more')
    case True
    then have "Suc (pos it) < length (start it) - 1" "pos it' = Suc (pos it)" "iter_ok it'" "start it' = start it"
      using nx n iter_next_facts(1) [of it] by auto
    with Suc.IH [of it'] Suc.prems n True p show ?thesis by (auto simp: upt_conv_Cons)
  next
    case False
    then have "\<not> Suc (pos it) < length (start it) - 1" using nx n by simp
    with p have "[pos it..<length (start it) - 1] = [pos it]"
      by (metis Suc_lessI upt_rec less_irrefl_nat)
    then show ?thesis using n False Suc.prems(1) by simp
  qed
qed

lemma iter_walk_pos:
  assumes "terminated flds"
  shows "map pos (iter_walk flds d) = [0..<length flds - 1]"
    and "it \<in> set (iter_walk flds d) \<Longrightarrow> start it = flds \<and> iter_ok it"
proof -
  obtain i0 ok where b: "pb_field_iter_begin flds d = (i0, ok)" by fastforce
  have l: "flds \<noteq> []" using assms by (simp add: terminated_def)
  have it: "start i0 = flds" "pos i0 = 0" using b iter_begin_facts(1,2) [of flds d] by simp_all
  have "tag (flds ! 0) = 0 \<longleftrightarrow> length flds = 1" using terminated_nth [OF assms, of 0] l by (cases flds) auto
  then have ok: "ok \<longleftrightarrow> 1 < length flds" using b l by (cases flds) (auto simp: pb_field_iter_begin_def Let_def)
  have "map pos (iter_walk flds d) = [0..<length flds - 1]
      \<and> (\<forall>it\<in>set (iter_walk flds d). start it = flds \<and> iter_ok it)"
  proof (cases ok)
    case True
    then have "iter_ok i0" "1 < length (start i0)" using it assms ok by (auto simp: iter_ok_def)
    from iter_rest_pos [OF this, of "length flds"] True b it show ?thesis by (simp add: iter_walk_def)
  next
    case False
    then show ?thesis using ok b l by (cases flds) (auto simp: iter_walk_def)
  qed
  then show "map pos (iter_walk flds d) = [0..<length flds - 1]"
    and "it \<in> set (iter_walk flds d) \<Longrightarrow> start it = flds \<and> iter_ok it" by auto
qed

lemma iter_walk_field:
  assumes "terminated flds" and "it \<in> set (iter_walk flds d)"
  shows "pos_field it \<in> set (butlast flds)"
proof -
  have "pos it \<in> set (map pos (iter_walk flds d))" using assms(2) by simp
  then have "pos it < length flds - 1" unfolding iter_walk_pos(1) [OF assms(1)] by simp
  then show ?thesis using iter_walk_pos(2) [OF assms] by (metis length_butlast nth_butlast nth_mem)
qed

section \<open>Finding a field\<close>

text \<open>The iterator at position \<open>i\<close>, and iterators that the walk visits.\<close>

definition iter_at :: "pb_field list \<Rightarrow> nat \<Rightarrow> nat \<Rightarrow> pb_field_iter" where
  "iter_at flds d i = ((\<lambda>it. fst (pb_field_iter_next it)) ^^ i) (fst (pb_field_iter_begin flds d))"

definition on_walk :: "pb_field list \<Rightarrow> nat \<Rightarrow> pb_field_iter \<Rightarrow> bool" where
  "on_walk flds d it \<longleftrightarrow> start it = flds \<and> dest_struct it = d \<and> iter_ok it \<and> it = iter_at flds d (pos it)"

lemma iter_wraps:
  assumes "iter_ok it" and "1 < length (start it)" and "\<not> Suc (pos it) < length (start it) - 1"
  shows "fst (pb_field_iter_next it) = fst (pb_field_iter_begin (start it) (dest_struct it))"
proof -
  have t: "terminated (start it)" and p: "pos it < length (start it) - 1" using assms(1,2) by (auto simp: iter_ok_def)
  then have "tag (pos_field it) \<noteq> 0" "tag (start it ! (pos it + 1)) = 0"
    using terminated_nth [OF t, of "pos it"] terminated_nth [OF t, of "pos it + 1"] assms(2,3) by auto
  then show ?thesis by (simp add: pb_field_iter_next_def Let_def)
qed

lemma on_walk_begin: "terminated flds \<Longrightarrow> on_walk flds d (fst (pb_field_iter_begin flds d))"
  by (cases flds) (auto simp: on_walk_def iter_at_def iter_ok_def terminated_def)

lemma on_walk_next:
  assumes "on_walk flds d it"
  shows "on_walk flds d (fst (pb_field_iter_next it))"
proof -
  have ok: "iter_ok it" and st: "start it = flds" "dest_struct it = d" and at: "it = iter_at flds d (pos it)"
    using assms by (simp_all add: on_walk_def)
  have t: "terminated flds" using ok st by (auto simp: iter_ok_def)
  note nx = iter_next_pos [OF ok]
  consider "Suc (pos it) < length flds - 1" | "1 < length flds" "\<not> Suc (pos it) < length flds - 1" | "length flds = 1"
    using t by (cases flds) (auto simp: terminated_def)
  then show ?thesis
  proof cases
    case 1
    have "fst (pb_field_iter_next it) = iter_at flds d (Suc (pos it))"
      using at by (simp add: iter_at_def)
    with 1 nx st iter_next_facts [of it] show ?thesis by (simp add: on_walk_def)
  next
    case 2
    then show ?thesis using iter_wraps [OF ok] on_walk_begin [OF t] st by simp
  next
    case 3
    then have "tag (pos_field it) = 0" using ok st terminated_nth [OF t, of 0] by (auto simp: iter_ok_def)
    then have "fst (pb_field_iter_next it) = it" by (simp add: pb_field_iter_next_def Let_def)
    then show ?thesis using assms by simp
  qed
qed

lemma find_loop_cycle:
  assumes n: "n = length flds - 1" "0 < n" and p0: "p0 < n"
  shows "on_walk flds d it \<Longrightarrow> pos it = (p0 + j) mod n \<Longrightarrow> j < n \<Longrightarrow> n \<le> j + k \<Longrightarrow>
    (\<forall>i<j. \<not> wanted (flds ! ((p0 + i) mod n))) \<Longrightarrow>
    \<exists>it' b. find_loop k p0 wanted it = Some (it', b) \<and> on_walk flds d it'
      \<and> (if b then wanted (pos_field it') else \<forall>i<n. \<not> wanted (flds ! ((p0 + i) mod n)))"
proof (induction k arbitrary: it j)
  case 0
  then show ?case by simp
next
  case (Suc k)
  have st: "start it = flds" and ok: "iter_ok it" using Suc.prems(1) by (simp_all add: on_walk_def)
  show ?case
  proof (cases "wanted (pos_field it)")
    case True
    then show ?thesis using Suc.prems(1) by auto
  next
    case False
    let ?it = "fst (pb_field_iter_next it)"
    have seen: "\<forall>i<Suc j. \<not> wanted (flds ! ((p0 + i) mod n))"
      using Suc.prems(2,5) False st by (auto simp: less_Suc_eq)
    have "pos it < n" using Suc.prems(2) n by simp
    then have pos': "pos ?it = (p0 + Suc j) mod n"
      using iter_next_pos(2) [OF ok] st n(1) Suc.prems(2) mod_Suc [of "p0 + j" n] by (auto simp del: One_nat_def)
    show ?thesis
    proof (cases "Suc j = n")
      case True
      then have "pos ?it = p0" using pos' p0 by simp
      then show ?thesis using False seen True on_walk_next [OF Suc.prems(1)] by (auto simp: Let_def)
    next
      case neq: False
      then have j: "Suc j < n" using Suc.prems(3) by simp
      have "pos ?it \<noteq> p0"
      proof
        assume "pos ?it = p0"
        then have "(p0 + Suc j) mod n = p0 mod n" using pos' p0 by simp
        then have "Suc j mod n = 0" by (metis mod_add_self2 add.commute add_0 mod_add_cong mod_mod_trivial
              nat_mod_eq_iff diff_add_inverse mod_eq_dvd_iff_nat dvd_imp_mod_0 le_add1)
        then show False using j by simp
      qed
      moreover have "n \<le> Suc j + k" using Suc.prems(4) by simp
      ultimately show ?thesis
        using Suc.IH [OF on_walk_next [OF Suc.prems(1)] pos' j _ seen] False by (simp add: Let_def)
    qed
  qed
qed

lemma find_loop_correct:
  assumes "on_walk flds d it" and "1 < length flds"
  shows "\<exists>it' b. find_loop (length flds) (pos it) wanted it = Some (it', b) \<and> on_walk flds d it'
      \<and> (if b then wanted (pos_field it') else \<forall>f\<in>set (butlast flds). \<not> wanted f)"
proof -
  let ?n = "length flds - 1"
  have st: "start it = flds" and ok: "iter_ok it" using assms(1) by (simp_all add: on_walk_def)
  have p: "pos it < ?n" using ok st assms(2) by (auto simp: iter_ok_def)
  have eq: "(\<forall>i<?n. \<not> wanted (flds ! ((pos it + i) mod ?n))) \<longleftrightarrow> (\<forall>f\<in>set (butlast flds). \<not> wanted f)"
  proof -
    have "\<exists>i<n. j = (q + i) mod n" if "j < n" "q < n" for j q n :: nat
    proof (cases "q \<le> j")
      case True
      then show ?thesis using that by (intro exI [of _ "j - q"]) simp
    next
      case False
      then show ?thesis using that by (intro exI [of _ "n + j - q"]) auto
    qed
    from this [OF _ p] have "\<exists>i<?n. j = (pos it + i) mod ?n" if "j < ?n" for j using that by blast
    moreover have "(pos it + i) mod ?n < ?n" for i using p by simp
    ultimately have "(\<forall>i<?n. \<not> wanted (flds ! ((pos it + i) mod ?n))) \<longleftrightarrow> (\<forall>j<?n. \<not> wanted (flds ! j))" by metis
    also have "\<dots> \<longleftrightarrow> (\<forall>f\<in>set (butlast flds). \<not> wanted f)"
      by (simp add: all_set_conv_all_nth nth_butlast)
    finally show ?thesis .
  qed
  have "0 < ?n" "pos it = (pos it + 0) mod ?n" "?n \<le> 0 + length flds" using p by simp_all
  from find_loop_cycle [OF refl this(1) p assms(1) this(2,1,3), of wanted] show ?thesis
    unfolding eq by simp
qed

text \<open>The walk, position by position.\<close>

lemma iter_at_next: "fst (pb_field_iter_next (iter_at flds d i)) = iter_at flds d (Suc i)"
  by (simp add: iter_at_def)

lemma iter_at_facts: "start (iter_at flds d i) = flds" "dest_struct (iter_at flds d i) = d"
  by (induction i) (simp_all add: iter_at_def iter_next_facts)

lemma iter_rest_at:
  "iter_ok (iter_at flds d i) \<Longrightarrow> pos (iter_at flds d i) = i \<Longrightarrow> 1 < length flds \<Longrightarrow> length flds \<le> Suc (i + k) \<Longrightarrow>
    iter_rest k (iter_at flds d i) = map (iter_at flds d) [i..<length flds - 1]"
proof (induction k arbitrary: i)
  case 0
  then show ?case by (auto simp: iter_ok_def iter_at_facts)
next
  case (Suc k)
  let ?it = "iter_at flds d i"
  note nx = iter_next_pos [OF Suc.prems(1), unfolded iter_at_facts iter_at_next]
  have i: "i < length flds - 1" using Suc.prems(1-3) by (auto simp: iter_ok_def iter_at_facts)
  obtain ok where n: "pb_field_iter_next ?it = (iter_at flds d (Suc i), ok)"
    using iter_at_next [of flds d i] by (metis prod.collapse)
  show ?case
  proof (cases "Suc i < length flds - 1")
    case True
    then have ok "pos (iter_at flds d (Suc i)) = Suc i" using nx n Suc.prems(2) by auto
    then show ?thesis using Suc.IH [of "Suc i"] nx(3) Suc.prems(3,4) n i by (simp add: upt_conv_Cons)
  next
    case False
    then have "\<not> ok" "[i..<length flds - 1] = [i]" using nx(1) n Suc.prems(2) i
      by (auto simp: upt_rec [of i] intro: Suc_lessI)
    then show ?thesis using n by simp
  qed
qed

lemma iter_walk_at:
  assumes "terminated flds"
  shows "iter_walk flds d = map (iter_at flds d) [0..<length flds - 1]"
proof (cases "1 < length flds")
  case True
  have 0: "iter_at flds d 0 = fst (pb_field_iter_begin flds d)" by (simp add: iter_at_def)
  have "iter_ok (iter_at flds d 0)" "pos (iter_at flds d 0) = 0"
    using on_walk_begin [OF assms, of d] 0 by (simp_all add: on_walk_def)
  moreover have "snd (pb_field_iter_begin flds d)"
    using terminated_nth [OF assms, of 0] True by (cases flds) (auto simp: pb_field_iter_begin_def Let_def)
  ultimately show ?thesis
    using iter_rest_at [of flds d 0 "length flds"] True 0 by (simp add: iter_walk_def case_prod_beta)
next
  case False
  then show ?thesis using iter_walk_pos(1) [OF assms, of d] by simp
qed

lemma on_walk_in_walk: "on_walk flds d it \<Longrightarrow> 1 < length flds \<Longrightarrow> it \<in> set (iter_walk flds d)"
  by (auto simp: on_walk_def iter_ok_def iter_walk_at)

lemma find_loop_defined:
  assumes "on_walk flds d it"
  shows "\<exists>it' b. find_loop (length flds) (pos it) wanted it = Some (it', b) \<and> on_walk flds d it'
      \<and> (if b then wanted (pos_field it') else \<forall>f\<in>set (butlast flds). \<not> wanted f)"
proof (cases "1 < length flds")
  case True
  then show ?thesis using find_loop_correct [OF assms] by blast
next
  case False
  have it: "start it = flds" "iter_ok it" using assms by (simp_all add: on_walk_def)
  then have t: "terminated flds" "pos it = 0" "length flds = 1" using False
    by (auto simp: iter_ok_def terminated_def)
  then have "tag (pos_field it) = 0" using terminated_nth [OF t(1), of 0] it(1) by simp
  then have "pb_field_iter_next it = (it, False)" by (simp add: pb_field_iter_next_def Let_def)
  moreover have "butlast flds = []" using t(3) by (cases flds) auto
  ultimately show ?thesis using t assms by (auto simp: Let_def)
qed

lemma ltype_cases:
  fixes lt :: byte
  assumes "lt \<le> 9" and "lt \<noteq> PB_LTYPE_EXTENSION"
  obtains "lt = 0" | "lt = 1" | "lt = 2" | "lt = 3" | "lt = 4" | "lt = 5" | "lt = 6" | "lt = 7" | "lt = 9"
proof -
  have "unat lt \<le> 9" using assms(1) by (simp add: word_le_nat_alt)
  then have "unat lt \<in> set [0..<10]" by simp
  then have "lt \<in> word_of_nat ` set [0..<10]" by (intro image_eqI [of _ _ "unat lt"]) simp_all
  then have "lt \<in> {0, 1, 2, 3, 4, 5, 6, 7, 8, 9}" by (simp add: upt_rec)
  with assms(2) that show ?thesis by blast
qed

lemma htype_cases:
  obtains "htype f = PB_HTYPE_REQUIRED" | "htype f = PB_HTYPE_OPTIONAL" | "htype f = PB_HTYPE_REPEATED"
    | "htype f = PB_HTYPE_ONEOF"
proof -
  have "\<forall>b :: byte. b AND 0x30 = 0 \<or> b AND 0x30 = 0x10 \<or> b AND 0x30 = 0x20 \<or> b AND 0x30 = 0x30"
    unfolding byte_all by code_simp
  then show ?thesis using that by (auto simp: PB_HTYPE_def)
qed

section \<open>The struct behind a table\<close>

text \<open>
  A member of the message struct: its offset, its size and the offset of the \<open>has_\<close>, \<open>_count\<close> or \<open>which_\<close> member that
  belongs to it (its own offset when there is none). \<open>describes\<close> says that a table has been filled in by the macros
  of \<open>pb.h\<close> for the members of a struct: \<open>PB_DATAOFFSET_FIRST\<close>, \<open>PB_DATAOFFSET_OTHER\<close>, \<open>PB_DATAOFFSET_UNION\<close> for
  \<open>data_offset\<close>, \<open>pb_delta\<close> for \<open>size_offset\<close>, and the entries for sizes, where \<open>array_size\<close> counts the entries
  of a static array and the data of a pointer field lies elsewhere. The members of a union have one offset and one \<open>which_\<close>.
\<close>

record struct_member =
  m_offset :: nat
  m_size :: nat
  m_count :: nat

definition in_union :: "pb_field \<Rightarrow> pb_field \<Rightarrow> bool" where
  "in_union f g \<longleftrightarrow> htype f = PB_HTYPE_ONEOF \<and> htype g = PB_HTYPE_ONEOF \<and> data_offset g = PB_SIZE_MAX"

definition describes :: "pb_field list \<Rightarrow> struct_member list \<Rightarrow> bool" where
  "describes flds ms \<longleftrightarrow> length flds = Suc (length ms)
     \<and> list_all (\<lambda>i.
          m_size (ms ! i) = (if atype (flds ! i) = PB_ATYPE_STATIC \<and> htype (flds ! i) = PB_HTYPE_REPEATED
             then unat (data_size (flds ! i)) * unat (array_size (flds ! i))
             else if atype (flds ! i) = PB_ATYPE_POINTER then 8 else unat (data_size (flds ! i)))
        \<and> sint (size_offset (flds ! i)) = int (m_count (ms ! i)) - int (m_offset (ms ! i))) [0..<length ms]
     \<and> (ms \<noteq> [] \<longrightarrow> unat (data_offset (flds ! 0)) = m_offset (ms ! 0))
     \<and> list_all (\<lambda>i.
          if in_union (flds ! i) (flds ! Suc i)
          then m_offset (ms ! Suc i) = m_offset (ms ! i) \<and> m_count (ms ! Suc i) = m_count (ms ! i)
          else m_offset (ms ! i) + m_size (ms ! i) + unat (data_offset (flds ! Suc i)) = m_offset (ms ! Suc i))
        [0..<length ms - 1]"

lemma describesD:
  assumes "describes flds ms"
  shows "length flds = Suc (length ms)"
    and "i < length ms \<Longrightarrow> m_size (ms ! i) = (if atype (flds ! i) = PB_ATYPE_STATIC \<and> htype (flds ! i) = PB_HTYPE_REPEATED
      then unat (data_size (flds ! i)) * unat (array_size (flds ! i))
      else if atype (flds ! i) = PB_ATYPE_POINTER then 8 else unat (data_size (flds ! i)))"
    and "i < length ms \<Longrightarrow> sint (size_offset (flds ! i)) = int (m_count (ms ! i)) - int (m_offset (ms ! i))"
    and "0 < length ms \<Longrightarrow> unat (data_offset (flds ! 0)) = m_offset (ms ! 0)"
    and "Suc i < length ms \<Longrightarrow> if in_union (flds ! i) (flds ! Suc i)
      then m_offset (ms ! Suc i) = m_offset (ms ! i) \<and> m_count (ms ! Suc i) = m_count (ms ! i)
      else m_offset (ms ! i) + m_size (ms ! i) + unat (data_offset (flds ! Suc i)) = m_offset (ms ! Suc i)"
proof -
  note D = assms [unfolded describes_def list_all_iff]
  note sizes = D [THEN conjunct2, THEN conjunct1] and layout = D [THEN conjunct2, THEN conjunct2, THEN conjunct2]
  show "length flds = Suc (length ms)" using D by (rule conjunct1)
  show "0 < length ms \<Longrightarrow> unat (data_offset (flds ! 0)) = m_offset (ms ! 0)"
    using D [THEN conjunct2, THEN conjunct2, THEN conjunct1] by simp
  show "i < length ms \<Longrightarrow> m_size (ms ! i) = (if atype (flds ! i) = PB_ATYPE_STATIC \<and> htype (flds ! i) = PB_HTYPE_REPEATED
      then unat (data_size (flds ! i)) * unat (array_size (flds ! i))
      else if atype (flds ! i) = PB_ATYPE_POINTER then 8 else unat (data_size (flds ! i)))"
    and "i < length ms \<Longrightarrow> sint (size_offset (flds ! i)) = int (m_count (ms ! i)) - int (m_offset (ms ! i))"
    using bspec [OF sizes, of i] by simp_all
  show "Suc i < length ms \<Longrightarrow> if in_union (flds ! i) (flds ! Suc i)
      then m_offset (ms ! Suc i) = m_offset (ms ! i) \<and> m_count (ms ! Suc i) = m_count (ms ! i)
      else m_offset (ms ! i) + m_size (ms ! i) + unat (data_offset (flds ! Suc i)) = m_offset (ms ! Suc i)"
    using bspec [OF layout, of i] by simp
qed

lemma iter_next_pointers:
  assumes "tag (pos_field it) \<noteq> 0" and "tag (start it ! Suc (pos it)) \<noteq> 0"
    and "\<not> in_union (pos_field it) (start it ! Suc (pos it))"
  shows "pData (fst (pb_field_iter_next it)) = pData it +
      (if atype (pos_field it) = PB_ATYPE_STATIC \<and> htype (pos_field it) = PB_HTYPE_REPEATED
       then sz (unat (data_size (pos_field it)) * unat (array_size (pos_field it)))
       else if atype (pos_field it) = PB_ATYPE_POINTER then 8 else unat (data_size (pos_field it)))
      + unat (data_offset (start it ! Suc (pos it)))"
    and "pSize (fst (pb_field_iter_next it)) =
      shift_addr (pData (fst (pb_field_iter_next it))) (size_offset (start it ! Suc (pos it)))"
    and "pos (fst (pb_field_iter_next it)) = Suc (pos it)"
  using assms unfolding in_union_def by (auto simp: pb_field_iter_next_def Let_def)

lemma describes_shift:
  "describes flds ms \<Longrightarrow> i < length ms \<Longrightarrow> shift_addr (d + m_offset (ms ! i)) (size_offset (flds ! i)) = d + m_count (ms ! i)"
  by (simp add: describesD(3) shift_addr_def)

text \<open>The pointers of the iterator are those of the member, for the fields before the terminator.\<close>

lemma iter_at_pointers:
  assumes "terminated flds" and "describes flds ms"
  shows "i < length ms \<Longrightarrow>
    pData (iter_at flds d i) = d + m_offset (ms ! i) \<and> pSize (iter_at flds d i) = d + m_count (ms ! i)
    \<and> pos (iter_at flds d i) = i"
proof (induction i)
  case 0
  then show ?case using describesD(4) [OF assms(2) 0] describes_shift [OF assms(2) 0, of d]
    by (simp add: iter_at_def pb_field_iter_begin_def Let_def)
next
  case (Suc i)
  let ?it = "iter_at flds d i" and ?f = "flds ! i" and ?g = "flds ! Suc i"
  note len = describesD(1) [OF assms(2)]
  have IH: "pData ?it = d + m_offset (ms ! i)" "pSize ?it = d + m_count (ms ! i)" "pos ?it = i"
    using Suc by simp_all
  have tags: "tag ?f \<noteq> 0" "tag ?g \<noteq> 0"
    using terminated_nth [OF assms(1), of i] terminated_nth [OF assms(1), of "Suc i"] Suc.prems len by auto
  have "unat (data_size ?f) * unat (array_size ?f) < SIZE_MODULUS"
    using mult_strict_mono' [OF unat_u32_less [of "data_size ?f"] unat_u32_less [of "array_size ?f"]]
    by (simp add: SIZE_MODULUS_def)
  then have size': "(if atype ?f = PB_ATYPE_STATIC \<and> htype ?f = PB_HTYPE_REPEATED
      then sz (unat (data_size ?f) * unat (array_size ?f))
      else if atype ?f = PB_ATYPE_POINTER then 8 else unat (data_size ?f)) = m_size (ms ! i)"
    using describesD(2) [OF assms(2), of i] Suc.prems by simp
  have next': "iter_at flds d (Suc i) = fst (pb_field_iter_next ?it)" by (simp add: iter_at_next)
  note layout = describesD(5) [OF assms(2) Suc.prems]
  show ?case
  proof (cases "in_union ?f ?g")
    case True
    with layout IH tags show ?thesis
      unfolding next' by (simp add: pb_field_iter_next_def iter_at_facts Let_def in_union_def)
  next
    case False
    then have off: "d + m_offset (ms ! i) + m_size (ms ! i) + unat (data_offset ?g) = d + m_offset (ms ! Suc i)"
      using layout by simp
    have "pData (iter_at flds d (Suc i)) = d + m_offset (ms ! i) + m_size (ms ! i) + unat (data_offset ?g)"
      "pSize (iter_at flds d (Suc i)) = shift_addr (pData (iter_at flds d (Suc i))) (size_offset ?g)"
      "pos (iter_at flds d (Suc i)) = Suc i"
      using iter_next_pointers [of ?it, unfolded iter_at_facts IH, OF tags False] unfolding next' size' by simp_all
    with describes_shift [OF assms(2) Suc.prems, of d] show ?thesis unfolding off by simp
  qed
qed

section \<open>Properties\<close>

text \<open>
  C4: from any field of a non-empty table, \<open>pb_field_iter_find\<close> ends after at most one turn
  around the table. It reports a field exactly if the table has one with that tag (other than an
  extension placeholder). Wherever it stops and however it wrapped around, for a table that describes the members of a
  struct the data pointer of the iterator is the address of the member and the size pointer that of the member's
  \<open>has_\<close>, \<open>_count\<close> or \<open>which_\<close>.
\<close>

theorem pb_field_iter_find_correct:
  assumes "on_walk flds d iter" and "1 < length flds" and "describes flds ms"
  shows "\<exists>iter' found. pb_field_iter_find iter t = Some (iter', found)
    \<and> pData iter' = d + m_offset (ms ! pos iter') \<and> pSize iter' = d + m_count (ms ! pos iter')
    \<and> (found \<longleftrightarrow> (\<exists>f\<in>set (butlast flds). tag f = t \<and> ltype f \<noteq> PB_LTYPE_EXTENSION))
    \<and> (found \<longrightarrow> tag (flds ! pos iter') = t \<and> pos iter' < length flds - 1)"
proof -
  have st: "start iter = flds" "terminated flds" using assms(1) by (auto simp: on_walk_def iter_ok_def)
  let ?w = "\<lambda>f. tag f = t \<and> ltype f \<noteq> PB_LTYPE_EXTENSION"
  obtain it b where f: "pb_field_iter_find iter t = Some (it, b)" "on_walk flds d it"
    "if b then ?w (pos_field it) else \<forall>f\<in>set (butlast flds). \<not> ?w f"
    using find_loop_correct [OF assms(1,2), of ?w] st by (auto simp: pb_field_iter_find_def)
  have it: "start it = flds" "it = iter_at flds d (pos it)" "pos it < length flds - 1"
    using f(2) assms(2) by (auto simp: on_walk_def iter_ok_def)
  then have "flds ! pos it \<in> set (butlast flds)"
    by (metis length_butlast nth_butlast nth_mem)
  then have "b \<longleftrightarrow> (\<exists>f\<in>set (butlast flds). ?w f)" using f(3) it(1) by (auto split: if_split_asm)
  moreover have "b \<longrightarrow> tag (flds ! pos it) = t" using f(3) it(1) by auto
  moreover have "pos it < length ms" using it(3) describesD(1) [OF assms(3)] by simp
  then have "pData it = d + m_offset (ms ! pos it) \<and> pSize it = d + m_count (ms ! pos it)"
    using iter_at_pointers [OF st(2) assms(3), of "pos it" d] it(2) by metis
  ultimately show ?thesis using f(1) it(3) by blast
qed

text \<open>A table with an optional and a repeated field, for the witnesses.\<close>

definition demo_fields :: "pb_field list" where
  "demo_fields =
     [Pb_Field 1 0x11 4 (- 4) 4 0 Null,
      Pb_Field 3 0x20 4 (- 4) 2 3 Null,
      Pb_Field 0 0 0 0 0 0 Null]"

lemma demo_terminated: "terminated demo_fields"
  by (simp add: terminated_def demo_fields_def)

text \<open>\<open>bool has_a; int32_t a; pb_size_t b_count; int16_t b[3]\<close>, behind a pointer-sized gap.\<close>

definition demo_members :: "struct_member list" where
  "demo_members = [\<lparr>m_offset = 4, m_size = 4, m_count = 0\<rparr>, \<lparr>m_offset = 12, m_size = 6, m_count = 8\<rparr>]"

lemma demo_describes: "describes demo_fields demo_members"
  by code_simp

theorem pb_field_iter_find_correct_witness:
  "\<exists>iter' found. pb_field_iter_find (fst (pb_field_iter_begin demo_fields 100)) 3 = Some (iter', found)
    \<and> found \<and> tag (demo_fields ! pos iter') = 3 \<and> pData iter' = 100 + m_offset (demo_members ! pos iter')"
  using pb_field_iter_find_correct [OF on_walk_begin [OF demo_terminated] _ demo_describes, of 100 3]
  by (auto simp: demo_fields_def PB_LTYPE_def)

end
