(* ===== verification/Pb_Encode.thy ===== *)
theory Pb_Encode
  imports Pb_Field
begin

text \<open>
  The message encoder of \<open>nanopb/pb_encode.c\<close>: from a struct in memory and its descriptor table to
  bytes on a stream.

  The encoder only reads the memory. Function pointers that the caller supplies, in callback
  fields and extension types, are the parameters of the record \<open>pb_env\<close>. \<open>None\<close> stands for
  undefined behaviour (a null table is read, a count is read through a \<open>bool\<close>) and for a recursion
  or a list of extensions longer than the given depth; a result is the C function's return value and
  the stream it leaves.
\<close>

section \<open>The code\<close>

type_synonym 's enc_result = "(bool \<times> 's pb_ostream) option"

record 's pb_extension_type =
  xt_encode :: "('s pb_ostream \<Rightarrow> nat \<Rightarrow> bool \<times> 's pb_ostream) option"
  xt_arg :: pb_field

record 's pb_env =
  cb_encode :: "nat \<Rightarrow> 's pb_ostream \<Rightarrow> pb_field \<Rightarrow> nat \<Rightarrow> bool \<times> 's pb_ostream"
  ext_type :: "nat \<Rightarrow> 's pb_extension_type"

text \<open>\<open>if (!call) return false;\<close> and what follows.\<close>

definition and_then :: "'s enc_result \<Rightarrow> ('s pb_ostream \<Rightarrow> 's enc_result) \<Rightarrow> 's enc_result" where
  "and_then r k =
     (case r of None \<Rightarrow> None | Some (ok, s) \<Rightarrow> if ok then k s else Some (False, s))"

definition os_error :: "'s pb_ostream \<Rightarrow> string \<Rightarrow> 's enc_result" where
  "os_error s msg = Some (False, os_set_error s msg)"

definition pb_encode_tag_for_field :: "'s pb_ostream \<Rightarrow> pb_field \<Rightarrow> 's enc_result" where
  "pb_encode_tag_for_field s f =
     (if ltype f = PB_LTYPE_VARINT \<or> ltype f = PB_LTYPE_UVARINT \<or> ltype f = PB_LTYPE_SVARINT
      then Some (pb_encode_tag s PB_WT_VARINT (tag f))
      else if ltype f = PB_LTYPE_FIXED32 then Some (pb_encode_tag s PB_WT_32BIT (tag f))
      else if ltype f = PB_LTYPE_FIXED64 then Some (pb_encode_tag s PB_WT_64BIT (tag f))
      else if ltype f = PB_LTYPE_BYTES \<or> ltype f = PB_LTYPE_STRING \<or> ltype f = PB_LTYPE_SUBMESSAGE
        \<or> ltype f = PB_LTYPE_FIXED_LENGTH_BYTES
      then Some (pb_encode_tag s PB_WT_STRING (tag f))
      else os_error s ''invalid field type'')"

text \<open>The integer a \<open>VARINT\<close>, \<open>UVARINT\<close> or \<open>SVARINT\<close> field holds, by its \<open>data_size\<close>.\<close>

definition rd_signed :: "mem \<Rightarrow> nat \<Rightarrow> u32 \<Rightarrow> u64 option" where
  "rd_signed m src n =
     (if n = 1 then Some (scast (rd_word m src :: byte))
      else if n = 2 then Some (scast (rd_word m src :: u16))
      else if n = 4 then Some (scast (rd_word m src :: u32))
      else if n = 8 then Some (rd_word m src)
      else None)"

definition rd_unsigned :: "mem \<Rightarrow> nat \<Rightarrow> u32 \<Rightarrow> u64 option" where
  "rd_unsigned m src n =
     (if n = 1 then Some (ucast (rd_word m src :: byte))
      else if n = 2 then Some (ucast (rd_word m src :: u16))
      else if n = 4 then Some (ucast (rd_word m src :: u32))
      else if n = 8 then Some (rd_word m src)
      else None)"

definition pb_enc_varint :: "mem \<Rightarrow> 's pb_ostream \<Rightarrow> pb_field \<Rightarrow> nat \<Rightarrow> 's enc_result" where
  "pb_enc_varint m s f src =
     (case rd_signed m src (data_size f) of
        None \<Rightarrow> os_error s ''invalid data_size''
      | Some v \<Rightarrow> Some (pb_encode_varint s v))"

definition pb_enc_uvarint :: "mem \<Rightarrow> 's pb_ostream \<Rightarrow> pb_field \<Rightarrow> nat \<Rightarrow> 's enc_result" where
  "pb_enc_uvarint m s f src =
     (case rd_unsigned m src (data_size f) of
        None \<Rightarrow> os_error s ''invalid data_size''
      | Some v \<Rightarrow> Some (pb_encode_varint s v))"

definition pb_enc_svarint :: "mem \<Rightarrow> 's pb_ostream \<Rightarrow> pb_field \<Rightarrow> nat \<Rightarrow> 's enc_result" where
  "pb_enc_svarint m s f src =
     (case rd_signed m src (data_size f) of
        None \<Rightarrow> os_error s ''invalid data_size''
      | Some v \<Rightarrow> Some (pb_encode_svarint s v))"

definition pb_enc_fixed32 :: "mem \<Rightarrow> 's pb_ostream \<Rightarrow> pb_field \<Rightarrow> nat \<Rightarrow> 's enc_result" where
  "pb_enc_fixed32 m s f src = Some (pb_encode_fixed32 s (rd_word m src))"

definition pb_enc_fixed64 :: "mem \<Rightarrow> 's pb_ostream \<Rightarrow> pb_field \<Rightarrow> nat \<Rightarrow> 's enc_result" where
  "pb_enc_fixed64 m s f src = Some (pb_encode_fixed64 s (rd_word m src))"

text \<open>\<open>offsetof (pb_bytes_array_t, bytes)\<close> is 4.\<close>

definition PB_BYTES_ARRAY_T_ALLOCSIZE :: "nat \<Rightarrow> nat" where
  "PB_BYTES_ARRAY_T_ALLOCSIZE n = sz (n + 4)"

definition pb_enc_bytes :: "mem \<Rightarrow> 's pb_ostream \<Rightarrow> pb_field \<Rightarrow> nat \<Rightarrow> 's enc_result" where
  "pb_enc_bytes m s f src =
     (if src = 0 then Some (pb_encode_string s [] 0)
      else
        let n = unat (rd_word m src :: u32) in
        if atype f = PB_ATYPE_STATIC \<and> unat (data_size f) < PB_BYTES_ARRAY_T_ALLOCSIZE n
        then os_error s ''bytes size exceeded''
        else Some (pb_encode_string s (rd m (src + 4) n) n))"

fun str_len :: "mem \<Rightarrow> nat \<Rightarrow> nat \<Rightarrow> nat" where
  "str_len m p 0 = 0"
| "str_len m p (Suc k) = (if m p = 0 then 0 else Suc (str_len m (p + 1) k))"

definition pb_enc_string :: "mem \<Rightarrow> 's pb_ostream \<Rightarrow> pb_field \<Rightarrow> nat \<Rightarrow> 's enc_result" where
  "pb_enc_string m s f src =
     (let limit = (if atype f = PB_ATYPE_POINTER then SIZE_MODULUS - 1 else unat (data_size f));
          n = (if src = 0 then 0 else str_len m src limit)
      in Some (pb_encode_string s (rd m src n) n))"

text \<open>
  \<open>sub\<close> is \<open>pb_encode\<close>: it takes a table, the address of the struct and the stream. The unused state of
  \<open>PB_OSTREAM_SIZING\<close> is that of the stream.
\<close>

type_synonym 's encoder = "pb_field list \<Rightarrow> nat \<Rightarrow> 's pb_ostream \<Rightarrow> 's enc_result"

definition pb_encode_submessage :: "'s encoder \<Rightarrow> 's pb_ostream \<Rightarrow> pb_field list \<Rightarrow> nat \<Rightarrow> 's enc_result" where
  "pb_encode_submessage sub s flds src =
     (case sub flds src (pb_ostream_sizing (os_state s)) of
        None \<Rightarrow> None
      | Some (ok, substream) \<Rightarrow>
          if \<not> ok then Some (False, s\<lparr>os_errmsg := os_errmsg substream\<rparr>)
          else
            let n = bytes_written substream in
            and_then (Some (pb_encode_varint s (word_of_nat n))) (\<lambda>s.
              if os_callback s = None then Some (pb_write s [] n)
              else if max_size s < sz (bytes_written s + n) then os_error s ''stream full''
              else
                case sub flds src (s\<lparr>max_size := n, bytes_written := 0, os_errmsg := None\<rparr>) of
                  None \<Rightarrow> None
                | Some (status, substream) \<Rightarrow>
                    let s' = s\<lparr>bytes_written := sz (bytes_written s + bytes_written substream),
                               os_state := os_state substream, os_errmsg := os_errmsg substream\<rparr>
                    in if bytes_written substream \<noteq> n then os_error s' ''submsg size changed''
                       else Some (status, s')))"

definition pb_enc_submessage :: "'s encoder \<Rightarrow> 's pb_ostream \<Rightarrow> pb_field \<Rightarrow> nat \<Rightarrow> 's enc_result" where
  "pb_enc_submessage sub s f src =
     (case ptr f of
        Null \<Rightarrow> os_error s ''invalid field descriptor''
      | Submsg_fields flds \<Rightarrow> pb_encode_submessage sub s flds src
      | Default_value _ \<Rightarrow> None)"

definition pb_enc_fixed_length_bytes :: "mem \<Rightarrow> 's pb_ostream \<Rightarrow> pb_field \<Rightarrow> nat \<Rightarrow> 's enc_result" where
  "pb_enc_fixed_length_bytes m s f src =
     Some (pb_encode_string s (rd m src (unat (data_size f))) (unat (data_size f)))"

text \<open>The table \<open>PB_ENCODERS\<close>; there is no function for extensions and beyond its end.\<close>

definition PB_ENCODERS :: "mem \<Rightarrow> 's encoder \<Rightarrow> byte \<Rightarrow> 's pb_ostream \<Rightarrow> pb_field \<Rightarrow> nat \<Rightarrow> 's enc_result" where
  "PB_ENCODERS m sub lt s f src =
     (if lt = PB_LTYPE_VARINT then pb_enc_varint m s f src
      else if lt = PB_LTYPE_UVARINT then pb_enc_uvarint m s f src
      else if lt = PB_LTYPE_SVARINT then pb_enc_svarint m s f src
      else if lt = PB_LTYPE_FIXED32 then pb_enc_fixed32 m s f src
      else if lt = PB_LTYPE_FIXED64 then pb_enc_fixed64 m s f src
      else if lt = PB_LTYPE_BYTES then pb_enc_bytes m s f src
      else if lt = PB_LTYPE_STRING then pb_enc_string m s f src
      else if lt = PB_LTYPE_SUBMESSAGE then pb_enc_submessage sub s f src
      else if lt = PB_LTYPE_FIXED_LENGTH_BYTES then pb_enc_fixed_length_bytes m s f src
      else None)"

text \<open>The loops over the entries of an array, \<open>step\<close> bytes apart.\<close>

fun enc_items :: "('s pb_ostream \<Rightarrow> nat \<Rightarrow> 's enc_result) \<Rightarrow> nat \<Rightarrow> nat \<Rightarrow> nat \<Rightarrow> 's pb_ostream \<Rightarrow> 's enc_result" where
  "enc_items E step 0 p s = Some (True, s)"
| "enc_items E step (Suc k) p s = and_then (E s p) (enc_items E step k (p + step))"

definition packed_size ::
  "('s pb_ostream \<Rightarrow> pb_field \<Rightarrow> nat \<Rightarrow> 's enc_result) \<Rightarrow> 's pb_ostream \<Rightarrow> pb_field \<Rightarrow> nat \<Rightarrow> nat
    \<Rightarrow> (bool \<times> nat) option" where
  "packed_size func s f p count =
     (if ltype f = PB_LTYPE_FIXED32 then Some (True, sz (4 * count))
      else if ltype f = PB_LTYPE_FIXED64 then Some (True, sz (8 * count))
      else
        case enc_items (\<lambda>s p. func s f p) (unat (data_size f)) count p (pb_ostream_sizing (os_state s)) of
          None \<Rightarrow> None
        | Some (ok, sizestream) \<Rightarrow> Some (ok, bytes_written sizestream))"

definition encode_array ::
  "mem \<Rightarrow> 's pb_ostream \<Rightarrow> pb_field \<Rightarrow> nat \<Rightarrow> nat
    \<Rightarrow> ('s pb_ostream \<Rightarrow> pb_field \<Rightarrow> nat \<Rightarrow> 's enc_result) \<Rightarrow> 's enc_result" where
  "encode_array m s f p count func =
     (if count = 0 then Some (True, s)
      else if atype f \<noteq> PB_ATYPE_POINTER \<and> unat (array_size f) < count
      then os_error s ''array max size exceeded''
      else if ltype f \<le> PB_LTYPE_LAST_PACKABLE then
        and_then (Some (pb_encode_tag s PB_WT_STRING (tag f))) (\<lambda>s.
          case packed_size func s f p count of
            None \<Rightarrow> None
          | Some (ok, n) \<Rightarrow>
              if \<not> ok then Some (False, s)
              else and_then (Some (pb_encode_varint s (word_of_nat n))) (\<lambda>s.
                if os_callback s = None then Some (pb_write s [] n)
                else enc_items (\<lambda>s p. func s f p) (unat (data_size f)) count p s))
      else
        enc_items (\<lambda>s p. and_then (pb_encode_tag_for_field s f) (\<lambda>s.
            if atype f = PB_ATYPE_POINTER \<and> (ltype f = PB_LTYPE_STRING \<or> ltype f = PB_LTYPE_BYTES)
            then func s f (rd_ptr m p) else func s f p))
          (unat (data_size f)) count p s)"

text \<open>The depth argument bounds the nesting of submessages.\<close>

fun pb_check_proto3_default_value :: "mem \<Rightarrow> nat \<Rightarrow> pb_field \<Rightarrow> nat \<Rightarrow> bool option" where
  "pb_check_proto3_default_value m 0 f p = None"
| "pb_check_proto3_default_value m (Suc d) f p =
     (if atype f = PB_ATYPE_STATIC \<and> ltype f = PB_LTYPE_BYTES then Some ((rd_word m p :: u32) = 0)
      else if atype f = PB_ATYPE_STATIC \<and> ltype f = PB_LTYPE_STRING then Some (m p = 0)
      else if atype f = PB_ATYPE_STATIC \<and> ltype f = PB_LTYPE_FIXED_LENGTH_BYTES then Some (data_size f = 0)
      else if atype f = PB_ATYPE_STATIC \<and> ltype f = PB_LTYPE_SUBMESSAGE then
        (case ptr f of
           Submsg_fields flds \<Rightarrow>
             foldr (\<lambda>it r. case pb_check_proto3_default_value m d (pos_field it) (pData it) of
                 None \<Rightarrow> None | Some zero \<Rightarrow> if zero then r else Some False)
               (iter_walk flds p) (Some True)
         | _ \<Rightarrow> None)
      else Some (list_all (\<lambda>b. b = 0) (rd m p (unat (data_size f)))))"

text \<open>
  \<open>*(const bool * )pSize\<close> and \<open>*(const pb_size_t * )pSize\<close>: \<open>None\<close> as the address stands for the local
  variable \<open>implicit_has\<close>, a \<open>bool\<close>.
\<close>

definition encode_basic_field ::
  "mem \<Rightarrow> nat \<Rightarrow> 's encoder \<Rightarrow> 's pb_ostream \<Rightarrow> pb_field \<Rightarrow> nat \<Rightarrow> 's enc_result" where
  "encode_basic_field m d sub s f p0 =
     (let func = PB_ENCODERS m sub (ltype f);
          pSize = (if size_offset f \<noteq> 0 then Some (shift_addr p0 (size_offset f)) else None);
          has0 = (if size_offset f = 0 \<and> htype f = PB_HTYPE_OPTIONAL
                  then map_option Not (pb_check_proto3_default_value m d f p0) else Some True);
          p = (if atype f = PB_ATYPE_POINTER then rd_ptr m p0 else p0)
      in case has0 of
        None \<Rightarrow> None
      | Some implicit0 \<Rightarrow>
          let implicit_has = (if atype f = PB_ATYPE_POINTER then p \<noteq> 0 else implicit0);
              value = (\<lambda>s. and_then (pb_encode_tag_for_field s f) (\<lambda>s. func s f p))
          in
          if htype f = PB_HTYPE_REQUIRED then
            if p = 0 then os_error s ''missing required field'' else value s
          else if htype f = PB_HTYPE_OPTIONAL then
            if (case pSize of None \<Rightarrow> implicit_has | Some a \<Rightarrow> m a \<noteq> 0) then value s else Some (True, s)
          else if htype f = PB_HTYPE_REPEATED then
            (case pSize of None \<Rightarrow> None
             | Some a \<Rightarrow> encode_array m s f p (unat (rd_word m a :: u32)) func)
          else if htype f = PB_HTYPE_ONEOF then
            (case pSize of None \<Rightarrow> None
             | Some a \<Rightarrow> if rd_word m a = tag f then value s else Some (True, s))
          else os_error s ''invalid field type'')"

text \<open>A \<open>pb_callback_t\<close> is the function pointer followed by \<open>arg\<close>, whose address the function gets.\<close>

definition encode_callback_field :: "'s pb_env \<Rightarrow> mem \<Rightarrow> 's pb_ostream \<Rightarrow> pb_field \<Rightarrow> nat \<Rightarrow> 's enc_result" where
  "encode_callback_field env m s f p =
     (if rd_ptr m p \<noteq> 0 then
        (case cb_encode env (rd_ptr m p) s f (p + 8) of
           (ok, s') \<Rightarrow> if ok then Some (True, s') else os_error s' ''callback error'')
      else Some (True, s))"

definition encode_field ::
  "'s pb_env \<Rightarrow> mem \<Rightarrow> nat \<Rightarrow> 's encoder \<Rightarrow> 's pb_ostream \<Rightarrow> pb_field \<Rightarrow> nat \<Rightarrow> 's enc_result" where
  "encode_field env m d sub s f p =
     (if atype f = PB_ATYPE_STATIC \<or> atype f = PB_ATYPE_POINTER then encode_basic_field m d sub s f p
      else if atype f = PB_ATYPE_CALLBACK then encode_callback_field env m s f p
      else os_error s ''invalid field type'')"

text \<open>A \<open>pb_extension_t\<close> holds the pointers \<open>type\<close>, \<open>dest\<close> and \<open>next\<close>, then \<open>found\<close>.\<close>

definition default_extension_encoder ::
  "'s pb_env \<Rightarrow> mem \<Rightarrow> nat \<Rightarrow> 's encoder \<Rightarrow> 's pb_ostream \<Rightarrow> nat \<Rightarrow> 's enc_result" where
  "default_extension_encoder env m d sub s e =
     (let f = xt_arg (ext_type env (rd_ptr m e)) in
      if atype f = PB_ATYPE_POINTER then encode_field env m d sub s f (e + 8)
      else encode_field env m d sub s f (rd_ptr m (e + 8)))"

fun extension_loop ::
  "'s pb_env \<Rightarrow> mem \<Rightarrow> nat \<Rightarrow> 's encoder \<Rightarrow> nat \<Rightarrow> nat \<Rightarrow> 's pb_ostream \<Rightarrow> 's enc_result" where
  "extension_loop env m d sub k e s =
     (if e = 0 then Some (True, s)
      else case k of
        0 \<Rightarrow> None
      | Suc k' \<Rightarrow>
          and_then
            (case xt_encode (ext_type env (rd_ptr m e)) of
               Some enc \<Rightarrow> Some (enc s e)
             | None \<Rightarrow> default_extension_encoder env m d sub s e)
            (extension_loop env m d sub k' (rd_ptr m (e + 16))))"

declare extension_loop.simps [simp del]

definition encode_extension_field ::
  "'s pb_env \<Rightarrow> mem \<Rightarrow> nat \<Rightarrow> 's encoder \<Rightarrow> 's pb_ostream \<Rightarrow> pb_field \<Rightarrow> nat \<Rightarrow> 's enc_result" where
  "encode_extension_field env m d sub s f p = extension_loop env m d sub d (rd_ptr m p) s"

fun encode_fields ::
  "'s pb_env \<Rightarrow> mem \<Rightarrow> nat \<Rightarrow> 's encoder \<Rightarrow> pb_field_iter list \<Rightarrow> 's pb_ostream \<Rightarrow> 's enc_result" where
  "encode_fields env m d sub [] s = Some (True, s)"
| "encode_fields env m d sub (it # its) s =
     and_then
       (if ltype (pos_field it) = PB_LTYPE_EXTENSION
        then encode_extension_field env m d sub s (pos_field it) (pData it)
        else encode_field env m d sub s (pos_field it) (pData it))
       (encode_fields env m d sub its)"

fun pb_encode :: "'s pb_env \<Rightarrow> mem \<Rightarrow> nat \<Rightarrow> 's encoder" where
  "pb_encode env m 0 flds src s = None"
| "pb_encode env m (Suc d) flds src s = encode_fields env m (Suc d) (pb_encode env m d) (iter_walk flds src) s"

definition pb_encode_delimited :: "'s pb_env \<Rightarrow> mem \<Rightarrow> nat \<Rightarrow> 's pb_ostream \<Rightarrow> pb_field list \<Rightarrow> nat \<Rightarrow> 's enc_result" where
  "pb_encode_delimited env m d s flds src = pb_encode_submessage (pb_encode env m d) s flds src"

definition pb_get_encoded_size :: "'s pb_env \<Rightarrow> mem \<Rightarrow> nat \<Rightarrow> 's \<Rightarrow> pb_field list \<Rightarrow> nat \<Rightarrow> nat option option" where
  "pb_get_encoded_size env m d null flds src =
     (case pb_encode env m d flds src (pb_ostream_sizing null) of
        None \<Rightarrow> None
      | Some (ok, s) \<Rightarrow> Some (if ok then Some (bytes_written s) else None))"

section \<open>The bytes of a message\<close>

text \<open>
  The reference: the bytes a message puts out and whether the encoder succeeds, without streams and
  without the first pass that computes sizes. When encoding fails, the bytes are those put out
  before.
\<close>

type_synonym emission = "byte list \<times> bool"

definition then_emit :: "emission \<Rightarrow> emission \<Rightarrow> emission" where
  "then_emit r q = (if snd r then (fst r @ fst q, snd q) else r)"

definition delimited :: "byte list \<Rightarrow> byte list" where
  "delimited bs = varint_spec (length bs) @ bs"

definition tag_bytes :: "pb_field \<Rightarrow> u32 \<Rightarrow> byte list" where
  "tag_bytes f wiretype = varint_spec (unat (pb_tag wiretype (tag f)))"

definition field_wiretype :: "pb_field \<Rightarrow> u32" where
  "field_wiretype f =
     (if ltype f \<le> 2 then PB_WT_VARINT else if ltype f = 3 then PB_WT_32BIT
      else if ltype f = 4 then PB_WT_64BIT else PB_WT_STRING)"

definition ref_value :: "mem \<Rightarrow> (pb_field list \<Rightarrow> nat \<Rightarrow> emission) \<Rightarrow> pb_field \<Rightarrow> nat \<Rightarrow> emission" where
  "ref_value m sub f p =
     (let number = (\<lambda>v. case v of None \<Rightarrow> ([], False) | Some w \<Rightarrow> (varint_spec (unat (w :: u64)), True));
          n = unat (rd_word m p :: u32)
      in
      if ltype f = PB_LTYPE_VARINT then number (rd_signed m p (data_size f))
      else if ltype f = PB_LTYPE_UVARINT then number (rd_unsigned m p (data_size f))
      else if ltype f = PB_LTYPE_SVARINT then number (map_option zigzag (rd_signed m p (data_size f)))
      else if ltype f = PB_LTYPE_FIXED32 then (rd m p 4, True)
      else if ltype f = PB_LTYPE_FIXED64 then (rd m p 8, True)
      else if ltype f = PB_LTYPE_BYTES then
        if p = 0 then (delimited [], True)
        else if atype f = PB_ATYPE_STATIC \<and> unat (data_size f) < n + 4 then ([], False)
        else (delimited (rd m (p + 4) n), True)
      else if ltype f = PB_LTYPE_STRING then
        (delimited (if p = 0 then [] else rd m p (str_len m p
           (if atype f = PB_ATYPE_POINTER then SIZE_MODULUS - 1 else unat (data_size f)))), True)
      else if ltype f = PB_LTYPE_SUBMESSAGE then
        (case ptr f of
           Submsg_fields flds \<Rightarrow> (case sub flds p of (bs, ok) \<Rightarrow> if ok then (delimited bs, True) else ([], False))
         | _ \<Rightarrow> ([], False))
      else (delimited (rd m p (unat (data_size f))), True))"

fun ref_items :: "(nat \<Rightarrow> emission) \<Rightarrow> nat \<Rightarrow> nat \<Rightarrow> nat \<Rightarrow> emission" where
  "ref_items g step 0 p = ([], True)"
| "ref_items g step (Suc k) p = then_emit (g p) (ref_items g step k (p + step))"

definition ref_array :: "mem \<Rightarrow> (nat \<Rightarrow> emission) \<Rightarrow> pb_field \<Rightarrow> nat \<Rightarrow> nat \<Rightarrow> emission" where
  "ref_array m value f p count =
     (if count = 0 then ([], True)
      else if atype f \<noteq> PB_ATYPE_POINTER \<and> unat (array_size f) < count then ([], False)
      else if ltype f \<le> PB_LTYPE_LAST_PACKABLE then
        then_emit (tag_bytes f PB_WT_STRING, True)
          (case ref_items value (unat (data_size f)) count p of (bs, ok) \<Rightarrow>
             if ok then (delimited bs, True) else ([], False))
      else ref_items (\<lambda>p. then_emit (tag_bytes f PB_WT_STRING, True)
          (value (if atype f = PB_ATYPE_POINTER \<and> (ltype f = PB_LTYPE_STRING \<or> ltype f = PB_LTYPE_BYTES)
                  then rd_ptr m p else p)))
        (unat (data_size f)) count p)"

definition ref_field ::
  "mem \<Rightarrow> nat \<Rightarrow> (pb_field list \<Rightarrow> nat \<Rightarrow> emission) \<Rightarrow> pb_field \<Rightarrow> nat \<Rightarrow> emission" where
  "ref_field m d sub f p0 =
     (let p = (if atype f = PB_ATYPE_POINTER then rd_ptr m p0 else p0);
          a = shift_addr p0 (size_offset f);
          one = then_emit (tag_bytes f (field_wiretype f), True) (ref_value m sub f p)
      in
      if htype f = PB_HTYPE_REQUIRED then if p = 0 then ([], False) else one
      else if htype f = PB_HTYPE_OPTIONAL then
        if (if size_offset f \<noteq> 0 then m a \<noteq> 0
            else if atype f = PB_ATYPE_POINTER then p \<noteq> 0
            else pb_check_proto3_default_value m d f p0 = Some False)
        then one else ([], True)
      else if htype f = PB_HTYPE_REPEATED then ref_array m (ref_value m sub f) f p (unat (rd_word m a :: u32))
      else if rd_word m a = tag f then one else ([], True))"

fun ref_message :: "mem \<Rightarrow> nat \<Rightarrow> pb_field list \<Rightarrow> nat \<Rightarrow> emission" where
  "ref_message m 0 flds src = ([], False)"
| "ref_message m (Suc d) flds src =
     foldr (\<lambda>it. then_emit (ref_field m (Suc d) (ref_message m d) (pos_field it) (pData it)))
       (iter_walk flds src) ([], True)"

text \<open>
  Tables of static and pointer fields without extensions, nested at most \<open>d\<close> deep: arrays and
  unions have a size field, submessages have a table.
\<close>

definition plain_field :: "(pb_field list \<Rightarrow> bool) \<Rightarrow> pb_field \<Rightarrow> bool" where
  "plain_field sub f \<longleftrightarrow>
     (atype f = PB_ATYPE_STATIC \<or> atype f = PB_ATYPE_POINTER) \<and> ltype f \<le> 9 \<and> ltype f \<noteq> PB_LTYPE_EXTENSION
     \<and> (htype f = PB_HTYPE_REPEATED \<or> htype f = PB_HTYPE_ONEOF \<longrightarrow> size_offset f \<noteq> 0)
     \<and> (ltype f = PB_LTYPE_SUBMESSAGE \<longrightarrow> (case ptr f of Submsg_fields flds \<Rightarrow> sub flds | _ \<Rightarrow> False))"

fun plain_table :: "nat \<Rightarrow> pb_field list \<Rightarrow> bool" where
  "plain_table 0 flds \<longleftrightarrow> False"
| "plain_table (Suc d) flds \<longleftrightarrow> terminated flds \<and> list_all (plain_field (plain_table d)) (butlast flds)"

section \<open>The encoder puts out the reference bytes\<close>

lemma le_bytes_le_nat: "le_bytes (length bs) (le_nat bs) = bs"
proof (induction bs)
  case Nil
  then show ?case by simp
next
  case (Cons b bs)
  have "(unat b + 256 * le_nat bs) div 256 = le_nat bs" by simp
  moreover have "unat (word_of_nat (unat b + 256 * le_nat bs) :: byte) = unat b"
    by (simp only: unat_word_of_nat_byte) simp
  then have "(word_of_nat (unat b + 256 * le_nat bs) :: byte) = b" by (rule unsigned_word_eqI)
  ultimately show ?case using Cons by simp
qed

lemma low_byte: "(ucast (x AND 0xFF) :: byte) = word_of_nat (unat (x :: 'w::len word))"
proof -
  have "(ucast (x AND 0xFF) :: byte) = ucast x"
    by (rule bit_word_eqI) (auto simp: byte_mask bit_simps dest: bit_imp_le_length)
  moreover have "(ucast x :: byte) = word_of_nat (unat x)"
    by (rule unsigned_word_eqI) (simp add: unat_ucast_byte)
  ultimately show ?thesis by (rule trans)
qed

lemma le_bytes_numeral: "le_bytes (numeral k) v = word_of_nat v # le_bytes (pred_numeral k) (v div 256)"
  by (simp only: numeral_eq_Suc [of k] le_bytes.simps)

lemma fixed_bytes_le: "fixed32_bytes v = le_bytes 4 (unat v)" "fixed64_bytes w = le_bytes 8 (unat w)"
  by (simp_all add: fixed32_bytes_def fixed64_bytes_def low_byte unat_drop_bit_div le_bytes_numeral div_mult2_eq [symmetric])

lemma rd_word_bytes4: "fixed32_bytes (rd_word m p) = rd m p 4"
  using le_bytes_le_nat [of "rd m p 4"] le_nat_bound [of "rd m p 4"]
  by (simp add: fixed_bytes_le rd_word_def unat_of_nat)

lemma rd_word_bytes8: "fixed64_bytes (rd_word m p) = rd m p 8"
  using le_bytes_le_nat [of "rd m p 8"] le_nat_bound [of "rd m p 8"]
  by (simp add: fixed_bytes_le rd_word_def unat_of_nat)

lemma str_len_le: "str_len m p k \<le> k"
  by (induction m p k rule: str_len.induct) simp_all

lemma unat_u32_size: "unat (w :: u32) < SIZE_MODULUS"
  using unat_u32_less [of w] by (simp add: SIZE_MODULUS_def)

lemma foldr_all_defined:
  "(\<And>x. x \<in> set xs \<Longrightarrow> g x \<noteq> None) \<Longrightarrow>
    foldr (\<lambda>x r. case g x of None \<Rightarrow> None | Some b \<Rightarrow> if b then r else Some False) xs (Some True) \<noteq> None"
  by (induction xs) (auto split: option.split)

declare pb_check_proto3_default_value.simps(2) [simp del]

lemmas check_unfold = pb_check_proto3_default_value.simps(2) [of m d f p for m d f p]

lemma check_proto3_defined:
  "plain_field (plain_table d) f \<Longrightarrow> pb_check_proto3_default_value m (Suc d) f p \<noteq> None"
proof (induction d arbitrary: f p)
  case 0
  then show ?case by (auto simp: plain_field_def check_unfold split: pb_ptr.split_asm)
next
  case (Suc d)
  show ?case
  proof (cases "atype f = PB_ATYPE_STATIC \<and> ltype f = PB_LTYPE_SUBMESSAGE")
    case True
    then obtain flds where f: "ptr f = Submsg_fields flds" "plain_table (Suc d) flds"
      using Suc.prems by (auto simp: plain_field_def split: pb_ptr.split_asm)
    then have t: "terminated flds" "\<And>g. g \<in> set (butlast flds) \<Longrightarrow> plain_field (plain_table d) g"
      by (simp_all add: list_all_iff)
    have "pos_field it \<in> set (butlast flds)" if "it \<in> set (iter_walk flds p)" for it
      using iter_walk_field [OF t(1) that] .
    then have "pb_check_proto3_default_value m (Suc d) (pos_field it) (pData it) \<noteq> None"
      if "it \<in> set (iter_walk flds p)" for it using Suc.IH t(2) that by blast
    from foldr_all_defined [OF this] show ?thesis using True f by (simp add: check_unfold [of m "Suc d"])
  next
    case False
    then show ?thesis by (auto simp: check_unfold [of m "Suc d"])
  qed
qed

context pb_sink
begin

text \<open>
  An encoding step on a sizing stream counts the bytes; on a stream over the sink it appends them
  when they fit and fails when they do not.
\<close>

definition appended :: "'s pb_ostream \<Rightarrow> byte list \<Rightarrow> 's pb_ostream \<Rightarrow> bool" where
  "appended s bs s' \<longleftrightarrow>
     out (os_state s') = out (os_state s) @ bs \<and> bytes_written s' = bytes_written s + length bs
     \<and> max_size s' = max_size s \<and> os_ready cb room s' \<and> room (os_state s') = room (os_state s) - length bs"

definition emits :: "('s pb_ostream \<Rightarrow> 's enc_result) \<Rightarrow> emission \<Rightarrow> bool" where
  "emits E r \<longleftrightarrow>
     (\<forall>s. os_callback s = None \<longrightarrow>
        (\<exists>s'. E s = Some (snd r, s') \<and> os_callback s' = None
           \<and> (bytes_written s + length (fst r) < SIZE_MODULUS \<longrightarrow>
                bytes_written s' = bytes_written s + length (fst r))))
   \<and> (\<forall>s. os_ready cb room s \<longrightarrow> bytes_written s + length (fst r) < SIZE_MODULUS \<longrightarrow>
        (\<exists>ok s'. E s = Some (ok, s')
           \<and> (bytes_written s + length (fst r) \<le> max_size s \<longrightarrow> ok = snd r \<and> appended s (fst r) s')
           \<and> (max_size s < bytes_written s + length (fst r) \<longrightarrow> \<not> ok)))"

lemma emits_sizing:
  assumes "emits E (bs, ok)" and "os_callback s = None"
  obtains s' where "E s = Some (ok, s')" "os_callback s' = None"
    "bytes_written s + length bs < SIZE_MODULUS \<longrightarrow> bytes_written s' = bytes_written s + length bs"
  using assms unfolding emits_def fst_conv snd_conv by blast

lemma emits_writing:
  assumes "emits E (bs, ok)" and "os_ready cb room s" and "bytes_written s + length bs < SIZE_MODULUS"
  obtains ok' s' where "E s = Some (ok', s')"
    "bytes_written s + length bs \<le> max_size s \<Longrightarrow> ok' = ok \<and> appended s bs s'"
    "max_size s < bytes_written s + length bs \<Longrightarrow> \<not> ok'"
  using assms unfolding emits_def fst_conv snd_conv by blast

lemma emitsI:
  assumes "\<And>s. os_callback s = None \<Longrightarrow>
      \<exists>s'. E s = Some (ok, s') \<and> os_callback s' = None
        \<and> (bytes_written s + length bs < SIZE_MODULUS \<longrightarrow> bytes_written s' = bytes_written s + length bs)"
    and "\<And>s. os_ready cb room s \<Longrightarrow> bytes_written s + length bs < SIZE_MODULUS \<Longrightarrow>
      \<exists>ok' s'. E s = Some (ok', s') \<and> (bytes_written s + length bs \<le> max_size s \<longrightarrow> ok' = ok \<and> appended s bs s')
        \<and> (max_size s < bytes_written s + length bs \<longrightarrow> \<not> ok')"
  shows "emits E (bs, ok)"
  using assms unfolding emits_def fst_conv snd_conv by blast

lemma appended_nil: "os_ready cb room s \<Longrightarrow> appended s [] s"
  by (simp add: appended_def)

lemma appended_trans: "appended s bs s1 \<Longrightarrow> appended s1 cs s2 \<Longrightarrow> appended s (bs @ cs) s2"
  by (simp add: appended_def)

lemma emits_skip: "emits (\<lambda>s. Some (True, s)) ([], True)"
  by (rule emitsI) (auto simp: appended_nil os_ready_def)

lemma os_set_error_facts [simp]:
  "os_callback (os_set_error s msg) = os_callback s" "bytes_written (os_set_error s msg) = bytes_written s"
  "max_size (os_set_error s msg) = max_size s" "os_state (os_set_error s msg) = os_state s"
  by (simp_all add: os_set_error_def)

lemma emits_error: "emits (\<lambda>s. os_error s msg) ([], False)"
  by (rule emitsI) (auto simp: os_error_def appended_def os_ready_def)

lemma emits_write: "emits (\<lambda>s. Some (pb_write s bs (length bs))) (bs, True)"
proof (rule emitsI)
  fix s :: "'s pb_ostream"
  assume "os_callback s = None"
  then show "\<exists>s'. Some (pb_write s bs (length bs)) = Some (True, s') \<and> os_callback s' = None
      \<and> (bytes_written s + length bs < SIZE_MODULUS \<longrightarrow> bytes_written s' = bytes_written s + length bs)"
    by (simp add: pb_write_def)
next
  fix s assume r: "os_ready cb room s" and b: "bytes_written s + length bs < SIZE_MODULUS"
  obtain ok s' where w: "pb_write s bs (length bs) = (ok, s')" by fastforce
  have "room (os_state s') = room (os_state s) - length bs" if "bytes_written s + length bs \<le> max_size s"
    using that r b w cb_room [of "length bs" "os_state s" bs] cb_accepts [of "length bs" "os_state s" bs]
    by (auto simp: pb_write_def os_ready_def split: prod.split_asm)
  then have "(bytes_written s + length bs \<le> max_size s \<longrightarrow> ok \<and> appended s bs s')
      \<and> (max_size s < bytes_written s + length bs \<longrightarrow> \<not> ok)"
    using write_fits [OF r, of bs] write_full [OF r, of bs] b w by (auto simp: os_appended_def appended_def)
  with w show "\<exists>ok' s'. Some (pb_write s bs (length bs)) = Some (ok', s')
      \<and> (bytes_written s + length bs \<le> max_size s \<longrightarrow> ok' = True \<and> appended s bs s')
      \<and> (max_size s < bytes_written s + length bs \<longrightarrow> \<not> ok')" by auto
qed

lemma emits_then:
  assumes "emits E r" and "emits F q"
  shows "emits (\<lambda>s. and_then (E s) F) (then_emit r q)"
proof -
  obtain bs ok where r: "r = (bs, ok)" by fastforce
  obtain cs ok2 where q: "q = (cs, ok2)" by fastforce
  note E = assms(1) [unfolded r] and F = assms(2) [unfolded q]
  show ?thesis
  proof (cases ok)
    case True
    have "emits (\<lambda>s. and_then (E s) F) (bs @ cs, ok2)"
    proof (rule emitsI)
      fix s :: "'s pb_ostream"
      assume s: "os_callback s = None"
      from emits_sizing [OF E s] obtain s1 where s1: "E s = Some (ok, s1)" "os_callback s1 = None"
        "bytes_written s + length bs < SIZE_MODULUS \<longrightarrow> bytes_written s1 = bytes_written s + length bs" .
      from emits_sizing [OF F s1(2)] obtain s2 where "F s1 = Some (ok2, s2)" "os_callback s2 = None"
        "bytes_written s1 + length cs < SIZE_MODULUS \<longrightarrow> bytes_written s2 = bytes_written s1 + length cs" .
      with s1 True show "\<exists>s'. and_then (E s) F = Some (ok2, s') \<and> os_callback s' = None
          \<and> (bytes_written s + length (bs @ cs) < SIZE_MODULUS \<longrightarrow>
               bytes_written s' = bytes_written s + length (bs @ cs))" by (simp add: and_then_def)
    next
      fix s assume s: "os_ready cb room s" "bytes_written s + length (bs @ cs) < SIZE_MODULUS"
      then have "bytes_written s + length bs < SIZE_MODULUS" by simp
      from emits_writing [OF E s(1) this] obtain k s1 where s1: "E s = Some (k, s1)"
        "bytes_written s + length bs \<le> max_size s \<longrightarrow> k \<and> appended s bs s1"
        "max_size s < bytes_written s + length bs \<longrightarrow> \<not> k" using True by metis
      show "\<exists>ok' s'. and_then (E s) F = Some (ok', s')
          \<and> (bytes_written s + length (bs @ cs) \<le> max_size s \<longrightarrow> ok' = ok2 \<and> appended s (bs @ cs) s')
          \<and> (max_size s < bytes_written s + length (bs @ cs) \<longrightarrow> \<not> ok')"
      proof (cases "bytes_written s + length bs \<le> max_size s")
        case fits: True
        then have a: "k" "appended s bs s1" using s1(2) by simp_all
        then have r1: "os_ready cb room s1" "bytes_written s1 + length cs < SIZE_MODULUS"
          "bytes_written s1 + length cs = bytes_written s + length (bs @ cs)" "max_size s1 = max_size s"
          using s(2) by (simp_all add: appended_def)
        from emits_writing [OF F r1(1,2)] obtain k2 s2 where "F s1 = Some (k2, s2)"
          "bytes_written s1 + length cs \<le> max_size s1 \<longrightarrow> k2 = ok2 \<and> appended s1 cs s2"
          "max_size s1 < bytes_written s1 + length cs \<longrightarrow> \<not> k2" by metis
        then show ?thesis using a s1(1) r1(3,4) appended_trans [OF a(2)] by (auto simp: and_then_def)
      next
        case False
        then show ?thesis using s1 by (auto simp: and_then_def)
      qed
    qed
    then show ?thesis using r q True by (simp add: then_emit_def)
  next
    case False
    have "emits (\<lambda>s. and_then (E s) F) (bs, False)"
    proof (rule emitsI)
      fix s :: "'s pb_ostream"
      assume s: "os_callback s = None"
      from emits_sizing [OF E s] obtain s1 where "E s = Some (ok, s1)" "os_callback s1 = None"
        "bytes_written s + length bs < SIZE_MODULUS \<longrightarrow> bytes_written s1 = bytes_written s + length bs" .
      with False show "\<exists>s'. and_then (E s) F = Some (False, s') \<and> os_callback s' = None
          \<and> (bytes_written s + length bs < SIZE_MODULUS \<longrightarrow> bytes_written s' = bytes_written s + length bs)"
        by (simp add: and_then_def)
    next
      fix s assume s: "os_ready cb room s" "bytes_written s + length bs < SIZE_MODULUS"
      from emits_writing [OF E s] obtain k s1 where s1: "E s = Some (k, s1)"
        "bytes_written s + length bs \<le> max_size s \<longrightarrow> \<not> k \<and> appended s bs s1"
        "max_size s < bytes_written s + length bs \<longrightarrow> \<not> k" using False by metis
      then have "\<not> k" by linarith
      with s1 show "\<exists>ok' s'. and_then (E s) F = Some (ok', s')
          \<and> (bytes_written s + length bs \<le> max_size s \<longrightarrow> ok' = False \<and> appended s bs s')
          \<and> (max_size s < bytes_written s + length bs \<longrightarrow> \<not> ok')" by (auto simp: and_then_def)
    qed
    then show ?thesis using r q False by (simp add: then_emit_def)
  qed
qed

lemma emits_varint: "emits (\<lambda>s. Some (pb_encode_varint s v)) (varint_spec (unat v), True)"
  unfolding pb_encode_varint_writes by (rule emits_write)

lemma emits_then_eq: "emits E (bs, True) \<Longrightarrow> emits F (cs, ok) \<Longrightarrow> emits (\<lambda>s. and_then (E s) F) (bs @ cs, ok)"
  using emits_then [of E "(bs, True)" F "(cs, ok)"] by (simp add: then_emit_def)

text \<open>A length prefix and what follows it; the prefix of an impossible length does not matter.\<close>

lemma emits_delimited:
  assumes "n = sz (length bs)" and "emits F (bs, True)"
  shows "emits (\<lambda>s. and_then (Some (pb_encode_varint s (word_of_nat n))) F) (delimited bs, True)"
proof -
  let ?v = "word_of_nat n :: u64"
  have *: "emits (\<lambda>s. and_then (Some (pb_encode_varint s ?v)) F) (varint_spec (unat ?v) @ bs, True)"
    by (rule emits_then_eq [OF emits_varint assms(2)])
  show ?thesis
  proof (cases "length bs < SIZE_MODULUS")
    case True
    then have "unat ?v = length bs" using assms(1) by (simp add: unat_of_nat SIZE_MODULUS_def)
    then show ?thesis using * by (simp add: delimited_def)
  next
    case False
    show ?thesis
    proof (rule emitsI)
      fix s :: "'s pb_ostream" assume "os_callback s = None"
      from emits_sizing [OF * this] show "\<exists>s'. and_then (Some (pb_encode_varint s ?v)) F = Some (True, s')
          \<and> os_callback s' = None \<and> (bytes_written s + length (delimited bs) < SIZE_MODULUS \<longrightarrow>
            bytes_written s' = bytes_written s + length (delimited bs))"
        using False by (metis add.commute add_lessD1 delimited_def length_append)
    qed (use False in \<open>simp add: delimited_def\<close>)
  qed
qed

lemma emits_string:
  assumes "length bs = n" and "n < SIZE_MODULUS"
  shows "emits (\<lambda>s. Some (pb_encode_string s bs n)) (delimited bs, True)"
proof -
  have "Some (pb_encode_string s bs n) =
      and_then (Some (pb_encode_varint s (word_of_nat n))) (\<lambda>s. Some (pb_write s bs (length bs)))" for s :: "'s pb_ostream"
    using assms(1) by (simp add: pb_encode_string_def and_then_def split: prod.split)
  then show ?thesis using emits_delimited [OF _ emits_write, of n bs] assms by simp
qed

lemma emits_tag: "emits (\<lambda>s. Some (pb_encode_tag s wt (tag f))) (tag_bytes f wt, True)"
  unfolding pb_encode_tag_def tag_bytes_def by (rule emits_varint)

lemma emits_tag_for_field:
  assumes "ltype f \<le> 9" and "ltype f \<noteq> PB_LTYPE_EXTENSION"
  shows "emits (\<lambda>s. pb_encode_tag_for_field s f) (tag_bytes f (field_wiretype f), True)"
  by (rule ltype_cases [OF assms]) (simp_all add: pb_encode_tag_for_field_def field_wiretype_def emits_tag word_le_nat_alt)

text \<open>
  A length that a first pass computes, then the contents: the common shape of submessages and of
  packed arrays.
\<close>

lemma emits_two_pass:
  assumes pass1: "\<And>s. \<exists>n. first s = Some (ok, n) \<and> (length bs < SIZE_MODULUS \<longrightarrow> n = length bs)"
    and pass2: "ok \<Longrightarrow> length bs < SIZE_MODULUS \<Longrightarrow> emits (F (length bs)) (bs, True)"
    and sizing: "\<And>n s. os_callback s = None \<Longrightarrow> \<exists>s'. F n s = Some (True, s') \<and> os_callback s' = None"
    and fail: "\<And>s. os_callback (e s) = os_callback s \<and> bytes_written (e s) = bytes_written s
      \<and> max_size (e s) = max_size s \<and> os_state (e s) = os_state s"
  shows "emits (\<lambda>s. case first s of None \<Rightarrow> None | Some (k, n) \<Rightarrow>
      if \<not> k then Some (False, e s) else and_then (Some (pb_encode_varint s (word_of_nat n))) (F n))
    (if ok then (delimited bs, True) else ([], False))" (is "emits ?E _")
proof (cases ok)
  case False
  have "emits ?E ([], False)"
  proof (rule emitsI)
    fix s :: "'s pb_ostream"
    have "?E s = Some (False, e s)" using pass1 [of s] False by auto
    then show "os_callback s = None \<Longrightarrow> \<exists>s'. ?E s = Some (False, s') \<and> os_callback s' = None
        \<and> (bytes_written s + length [] < SIZE_MODULUS \<longrightarrow> bytes_written s' = bytes_written s + length [])"
      and "os_ready cb room s \<Longrightarrow> \<exists>ok' s'. ?E s = Some (ok', s')
        \<and> (bytes_written s + length [] \<le> max_size s \<longrightarrow> ok' = False \<and> appended s [] s')
        \<and> (max_size s < bytes_written s + length [] \<longrightarrow> \<not> ok')"
      using fail [of s] by (auto simp: appended_def os_ready_def)
  qed
  then show ?thesis using False by simp
next
  case True
  show ?thesis
  proof (cases "length bs < SIZE_MODULUS")
    case small: True
    then have "?E = (\<lambda>s. and_then (Some (pb_encode_varint s (word_of_nat (length bs)))) (F (length bs)))"
      using pass1 True by (force simp: fun_eq_iff)
    moreover have "emits \<dots> (delimited bs, True)"
      using emits_delimited [OF _ pass2 [OF True small], of "length bs"] small by simp
    ultimately show ?thesis using True by simp
  next
    case False
    have "emits ?E (delimited bs, True)"
    proof (rule emitsI)
      fix s :: "'s pb_ostream" assume s: "os_callback s = None"
      obtain n where "first s = Some (True, n)" using pass1 [of s] True by auto
      moreover obtain s1 where "pb_encode_varint s (word_of_nat n) = (True, s1)" "os_callback s1 = None"
        using s by (simp add: pb_encode_varint_writes pb_write_def)
      ultimately show "\<exists>s'. ?E s = Some (True, s') \<and> os_callback s' = None
          \<and> (bytes_written s + length (delimited bs) < SIZE_MODULUS \<longrightarrow>
            bytes_written s' = bytes_written s + length (delimited bs))"
        using sizing [of s1 n] False by (auto simp: and_then_def delimited_def)
    qed (use False in \<open>simp add: delimited_def\<close>)
    then show ?thesis using True by simp
  qed
qed

text \<open>The two passes of a submessage agree: "submsg size changed" is never reported.\<close>

definition second_pass :: "('s pb_ostream \<Rightarrow> 's enc_result) \<Rightarrow> nat \<Rightarrow> 's pb_ostream \<Rightarrow> 's enc_result" where
  "second_pass E n s = (if os_callback s = None then Some (pb_write s [] n)
      else if max_size s < sz (bytes_written s + n) then os_error s ''stream full''
      else case E (s\<lparr>max_size := n, bytes_written := 0, os_errmsg := None\<rparr>) of
          None \<Rightarrow> None
        | Some (status, substream) \<Rightarrow>
            let s' = s\<lparr>bytes_written := sz (bytes_written s + bytes_written substream),
                       os_state := os_state substream, os_errmsg := os_errmsg substream\<rparr>
            in if bytes_written substream \<noteq> n then os_error s' ''submsg size changed''
               else Some (status, s'))"

lemma emits_second_pass:
  assumes "emits E (bs, True)" and small: "length bs < SIZE_MODULUS"
  shows "emits (second_pass E (length bs)) (bs, True)"
proof (rule emitsI)
  fix s :: "'s pb_ostream" assume "os_callback s = None"
  then show "\<exists>s'. second_pass E (length bs) s = Some (True, s') \<and> os_callback s' = None \<and>
      (bytes_written s + length bs < SIZE_MODULUS \<longrightarrow> bytes_written s' = bytes_written s + length bs)"
    by (simp add: second_pass_def pb_write_def)
next
  fix s assume s: "os_ready cb room s" "bytes_written s + length bs < SIZE_MODULUS"
  let ?sub = "s\<lparr>max_size := length bs, bytes_written := 0, os_errmsg := None\<rparr>"
  show "\<exists>ok' s'. second_pass E (length bs) s = Some (ok', s')
      \<and> (bytes_written s + length bs \<le> max_size s \<longrightarrow> ok' = True \<and> appended s bs s')
      \<and> (max_size s < bytes_written s + length bs \<longrightarrow> \<not> ok')"
  proof (cases "bytes_written s + length bs \<le> max_size s")
    case fits: True
    then have "os_ready cb room ?sub" using s small by (auto simp: os_ready_def)
    from emits_writing [OF assms(1) this] small obtain t where t: "E ?sub = Some (True, t)" "appended ?sub bs t"
      by auto
    then have "second_pass E (length bs) s = Some (True, s\<lparr>bytes_written := bytes_written s + length bs,
        os_state := os_state t, os_errmsg := os_errmsg t\<rparr>)"
      using fits s by (simp add: second_pass_def os_ready_def appended_def Let_def)
    moreover have "appended s bs (s\<lparr>bytes_written := bytes_written s + length bs,
        os_state := os_state t, os_errmsg := os_errmsg t\<rparr>)"
      using t(2) s fits by (auto simp: appended_def os_ready_def)
    ultimately show ?thesis using fits by auto
  next
    case False
    then show ?thesis using s by (auto simp: second_pass_def os_error_def os_ready_def)
  qed
qed

lemma emits_submessage:
  assumes "emits (sub flds p) (bs, ok)"
  shows "emits (\<lambda>s. pb_encode_submessage sub s flds p) (if ok then (delimited bs, True) else ([], False))"
proof -
  define dry where "dry s = sub flds p (pb_ostream_sizing (os_state s))" for s :: "'s pb_ostream"
  have dry: "\<exists>t. dry s = Some (ok, t) \<and> (length bs < SIZE_MODULUS \<longrightarrow> bytes_written t = length bs)" for s
    using emits_sizing [OF assms, of "pb_ostream_sizing (os_state s)"] by (auto simp: dry_def pb_ostream_sizing_def)
  have "pb_encode_submessage sub s flds p =
      (case map_option (\<lambda>(k, t). (k, bytes_written t)) (dry s) of None \<Rightarrow> None | Some (k, n) \<Rightarrow>
        if \<not> k then Some (False, s\<lparr>os_errmsg := os_errmsg (snd (the (dry s)))\<rparr>)
        else and_then (Some (pb_encode_varint s (word_of_nat n))) (second_pass (sub flds p) n))" for s
    by (simp add: pb_encode_submessage_def dry_def [symmetric] second_pass_def [abs_def] Let_def split: option.split)
  moreover have "emits (\<lambda>s. case map_option (\<lambda>(k, t). (k, bytes_written t)) (dry s) of None \<Rightarrow> None | Some (k, n) \<Rightarrow>
        if \<not> k then Some (False, s\<lparr>os_errmsg := os_errmsg (snd (the (dry s)))\<rparr>)
        else and_then (Some (pb_encode_varint s (word_of_nat n))) (second_pass (sub flds p) n))
      (if ok then (delimited bs, True) else ([], False))"
  proof (rule emits_two_pass)
    fix s show "\<exists>n. map_option (\<lambda>(k, t). (k, bytes_written t)) (dry s) = Some (ok, n)
        \<and> (length bs < SIZE_MODULUS \<longrightarrow> n = length bs)" using dry [of s] by auto
  next
    assume "ok" "length bs < SIZE_MODULUS"
    then show "emits (second_pass (sub flds p) (length bs)) (bs, True)" using emits_second_pass assms by simp
  next
    fix n and s :: "'s pb_ostream" assume "os_callback s = None"
    then show "\<exists>s'. second_pass (sub flds p) n s = Some (True, s') \<and> os_callback s' = None"
      by (simp add: second_pass_def pb_write_def)
  qed simp
  ultimately show ?thesis by presburger
qed

lemma emits_items:
  assumes "\<And>p. emits (\<lambda>s. E s p) (g p)"
  shows "emits (enc_items E step k p) (ref_items g step k p)"
proof (induction k arbitrary: p)
  case 0
  then show ?case using emits_skip by (simp add: fun_eq_iff [of "enc_items E step 0 p"])
next
  case (Suc k)
  then show ?case using emits_then [OF assms Suc.IH] by simp
qed

lemma emits_value:
  assumes "plain_field P f" and "\<And>flds p. P flds \<Longrightarrow> emits (sub flds p) (g flds p)"
  shows "emits (\<lambda>s. PB_ENCODERS m sub (ltype f) s f p) (ref_value m g f p)"
proof -
  have lt: "ltype f \<le> 9" "ltype f \<noteq> PB_LTYPE_EXTENSION" using assms(1) by (simp_all add: plain_field_def)
  show ?thesis
  proof (rule ltype_cases [OF lt])
    assume "ltype f = 5"
    moreover have "emits (\<lambda>s. Some (pb_encode_string s (rd m (p + 4) n) n)) (delimited (rd m (p + 4) n), True)"
      if "n = unat (rd_word m p :: u32)" for n
      using that unat_u32_size by (intro emits_string) simp_all
    moreover have "PB_BYTES_ARRAY_T_ALLOCSIZE (unat w) = unat w + 4" for w :: u32
      using unat_u32_less [of w] by (simp add: PB_BYTES_ARRAY_T_ALLOCSIZE_def SIZE_MODULUS_def)
    ultimately show ?thesis
      using emits_string [of "[]" 0]
      by (cases "atype f = PB_ATYPE_STATIC \<and> unat (data_size f) < unat (rd_word m p :: u32) + 4")
        (auto simp: PB_ENCODERS_def pb_enc_bytes_def ref_value_def Let_def emits_error)
  next
    assume "ltype f = 6"
    define limit where "limit = (if atype f = PB_ATYPE_POINTER then SIZE_MODULUS - 1 else unat (data_size f))"
    have "limit < SIZE_MODULUS" using unat_u32_size [of "data_size f"] by (simp add: limit_def)
    with str_len_le [of m p limit] have "str_len m p limit < SIZE_MODULUS" by (rule le_less_trans)
    then have small: "(if p = 0 then 0 else str_len m p limit) < SIZE_MODULUS" by simp
    let ?n = "if p = 0 then 0 else str_len m p limit"
    from small have "emits (\<lambda>s. Some (pb_encode_string s (rd m p ?n) ?n)) (delimited (rd m p ?n), True)"
      by (intro emits_string) simp_all
    then show ?thesis using \<open>ltype f = 6\<close>
      by (cases "p = 0") (simp_all add: PB_ENCODERS_def pb_enc_string_def ref_value_def Let_def rd_def limit_def [symmetric])
  next
    assume "ltype f = 7"
    then obtain flds where f: "ptr f = Submsg_fields flds" "P flds"
      using assms(1) by (auto simp: plain_field_def split: pb_ptr.split_asm)
    obtain bs ok where g: "g flds p = (bs, ok)" by fastforce
    with assms(2) [OF f(2), of p] have "emits (sub flds p) (bs, ok)" by simp
    from emits_submessage [of sub flds p bs ok, OF this] show ?thesis using \<open>ltype f = 7\<close> f g
      by (simp add: PB_ENCODERS_def pb_enc_submessage_def ref_value_def Let_def)
  next
    assume "ltype f = 9"
    moreover have "emits (\<lambda>s. Some (pb_encode_string s (rd m p n) n)) (delimited (rd m p n), True)"
      if "n = unat (data_size f)" for n
      using that unat_u32_size by (intro emits_string) simp_all
    ultimately show ?thesis
      by (simp add: PB_ENCODERS_def pb_enc_fixed_length_bytes_def ref_value_def Let_def)
  next
    assume "ltype f = 3"
    then show ?thesis using emits_write [of "fixed32_bytes (rd_word m p)"]
      by (simp add: PB_ENCODERS_def pb_enc_fixed32_def pb_encode_fixed32_def ref_value_def rd_word_bytes4)
  next
    assume "ltype f = 4"
    then show ?thesis using emits_write [of "fixed64_bytes (rd_word m p)"]
      by (simp add: PB_ENCODERS_def pb_enc_fixed64_def pb_encode_fixed64_def ref_value_def rd_word_bytes8)
  qed ((cases "rd_signed m p (data_size f)"; cases "rd_unsigned m p (data_size f)";
        simp add: PB_ENCODERS_def pb_enc_varint_def pb_enc_uvarint_def pb_enc_svarint_def pb_encode_svarint_def
          ref_value_def emits_error emits_varint)+)
qed

lemma ref_items_fixed:
  "ref_items (\<lambda>p. (rd m p k, True)) step count p = (concat (map (\<lambda>i. rd m (p + i * step) k) [0..<count]), True)"
proof (induction count arbitrary: p)
  case 0
  then show ?case by simp
next
  case (Suc count)
  have "[0..<Suc count] = 0 # map Suc [0..<count]" by (simp add: upt_conv_Cons map_Suc_upt del: upt_Suc)
  then show ?case using Suc [of "p + step"] by (simp add: then_emit_def comp_def add.assoc del: upt_Suc)
qed

lemma emits_packed:
  assumes "\<And>p. emits (\<lambda>s. func s f p) (value p)"
    and "ltype f = PB_LTYPE_FIXED32 \<Longrightarrow> value = (\<lambda>p. (rd m p 4, True))"
    and "ltype f = PB_LTYPE_FIXED64 \<Longrightarrow> value = (\<lambda>p. (rd m p 8, True))"
    and ref: "ref_items value (unat (data_size f)) count p = (bs, ok)"
  shows "emits (\<lambda>s. case packed_size func s f p count of None \<Rightarrow> None | Some (k, n) \<Rightarrow>
      if \<not> k then Some (False, s) else and_then (Some (pb_encode_varint s (word_of_nat n))) (\<lambda>s.
        if os_callback s = None then Some (pb_write s [] n)
        else enc_items (\<lambda>s p. func s f p) (unat (data_size f)) count p s))
    (if ok then (delimited bs, True) else ([], False))"
proof (rule emits_two_pass)
  have items: "emits (enc_items (\<lambda>s p. func s f p) (unat (data_size f)) count p) (bs, ok)"
    unfolding ref [symmetric] by (rule emits_items) (rule assms(1))
  fix s
  consider (w4) "ltype f = PB_LTYPE_FIXED32" | (w8) "ltype f = PB_LTYPE_FIXED64"
    | (other) "ltype f \<noteq> PB_LTYPE_FIXED32" "ltype f \<noteq> PB_LTYPE_FIXED64" by blast
  then show "\<exists>n. packed_size func s f p count = Some (ok, n) \<and> (length bs < SIZE_MODULUS \<longrightarrow> n = length bs)"
  proof cases
    case w4
    then have "ok" "length bs = 4 * count"
      using ref assms(2) by (auto simp: ref_items_fixed length_concat comp_def sum_list_triv)
    then show ?thesis using w4 by (simp add: packed_size_def)
  next
    case w8
    then have "ok" "length bs = 8 * count"
      using ref assms(3) by (auto simp: ref_items_fixed length_concat comp_def sum_list_triv)
    then show ?thesis using w8 by (simp add: packed_size_def)
  next
    case other
    have z: "os_callback (pb_ostream_sizing (os_state s)) = None" "bytes_written (pb_ostream_sizing (os_state s)) = 0"
      by (simp_all add: pb_ostream_sizing_def)
    from emits_sizing [OF items z(1)] obtain t where
      "enc_items (\<lambda>s p. func s f p) (unat (data_size f)) count p (pb_ostream_sizing (os_state s)) = Some (ok, t)"
      "length bs < SIZE_MODULUS \<longrightarrow> bytes_written t = length bs" unfolding z(2) by auto
    with other show ?thesis by (simp add: packed_size_def)
  qed
next
  have items: "emits (enc_items (\<lambda>s p. func s f p) (unat (data_size f)) count p) (bs, ok)"
    unfolding ref [symmetric] by (rule emits_items) (rule assms(1))
  assume ok "length bs < SIZE_MODULUS"
  show "emits (\<lambda>s. if os_callback s = None then Some (pb_write s [] (length bs))
      else enc_items (\<lambda>s p. func s f p) (unat (data_size f)) count p s) (bs, True)"
  proof (rule emitsI)
    fix s :: "'s pb_ostream" assume "os_callback s = None"
    then show "\<exists>s'. (if os_callback s = None then Some (pb_write s [] (length bs))
        else enc_items (\<lambda>s p. func s f p) (unat (data_size f)) count p s) = Some (True, s') \<and> os_callback s' = None
        \<and> (bytes_written s + length bs < SIZE_MODULUS \<longrightarrow> bytes_written s' = bytes_written s + length bs)"
      by (simp add: pb_write_def)
  next
    fix s assume s: "os_ready cb room s" "bytes_written s + length bs < SIZE_MODULUS"
    then have "os_callback s \<noteq> None" by (simp add: os_ready_def)
    moreover from emits_writing [OF items s] obtain k s' where
      "enc_items (\<lambda>s p. func s f p) (unat (data_size f)) count p s = Some (k, s')"
      "bytes_written s + length bs \<le> max_size s \<longrightarrow> k = ok \<and> appended s bs s'"
      "max_size s < bytes_written s + length bs \<longrightarrow> \<not> k" by metis
    ultimately show "\<exists>ok' s'. (if os_callback s = None then Some (pb_write s [] (length bs))
        else enc_items (\<lambda>s p. func s f p) (unat (data_size f)) count p s) = Some (ok', s')
        \<and> (bytes_written s + length bs \<le> max_size s \<longrightarrow> ok' = True \<and> appended s bs s')
        \<and> (max_size s < bytes_written s + length bs \<longrightarrow> \<not> ok')"
      using \<open>ok\<close> by auto
  qed
qed (simp_all add: pb_write_def)

lemma emits_array:
  assumes lt: "ltype f \<le> 9" "ltype f \<noteq> PB_LTYPE_EXTENSION"
    and func: "\<And>p. emits (\<lambda>s. func s f p) (value p)"
    and fixed: "ltype f = PB_LTYPE_FIXED32 \<Longrightarrow> value = (\<lambda>p. (rd m p 4, True))"
      "ltype f = PB_LTYPE_FIXED64 \<Longrightarrow> value = (\<lambda>p. (rd m p 8, True))"
  shows "emits (\<lambda>s. encode_array m s f p count func) (ref_array m value f p count)"
proof -
  define large where "large \<longleftrightarrow> atype f \<noteq> PB_ATYPE_POINTER \<and> unat (array_size f) < count"
  define deref where "deref \<longleftrightarrow> atype f = PB_ATYPE_POINTER \<and> (ltype f = PB_LTYPE_STRING \<or> ltype f = PB_LTYPE_BYTES)"
  note unfold = encode_array_def ref_array_def large_def [symmetric] deref_def [symmetric]
  consider (zero) "count = 0" | (big) "count \<noteq> 0" large
    | (packed) "count \<noteq> 0" "\<not> large" "ltype f \<le> PB_LTYPE_LAST_PACKABLE"
    | (plain) "count \<noteq> 0" "\<not> large" "\<not> ltype f \<le> PB_LTYPE_LAST_PACKABLE"
    by blast
  then show ?thesis
  proof cases
    case zero
    then show ?thesis using emits_skip by (simp add: unfold)
  next
    case big
    then show ?thesis using emits_error by (simp add: unfold)
  next
    case packed
    obtain bs ok where ref: "ref_items value (unat (data_size f)) count p = (bs, ok)" by fastforce
    from emits_then [OF emits_tag [of PB_WT_STRING f] emits_packed [of func f "value", OF func fixed ref]]
    show ?thesis using packed ref by (simp add: unfold)
  next
    case plain
    have "field_wiretype f = PB_WT_STRING"
      using plain(3) by (auto simp: field_wiretype_def word_le_nat_alt)
    then have "emits (\<lambda>s. and_then (pb_encode_tag_for_field s f) (\<lambda>s. func s f q))
        (then_emit (tag_bytes f PB_WT_STRING, True) (value q))" for q
      using emits_then [OF emits_tag_for_field [OF lt] func [of q]] by simp
    then have "emits (\<lambda>s. and_then (pb_encode_tag_for_field s f) (\<lambda>s. if deref then func s f (rd_ptr m q) else func s f q))
        (then_emit (tag_bytes f PB_WT_STRING, True) (value (if deref then rd_ptr m q else q)))" for q
      by (cases deref) simp_all
    then have "emits (enc_items (\<lambda>s p. and_then (pb_encode_tag_for_field s f) (\<lambda>s.
            if deref then func s f (rd_ptr m p) else func s f p)) (unat (data_size f)) count p)
        (ref_items (\<lambda>p. then_emit (tag_bytes f PB_WT_STRING, True)
          (value (if deref then rd_ptr m p else p))) (unat (data_size f)) count p)"
      by (rule emits_items)
    then show ?thesis using plain by (simp add: unfold)
  qed
qed

lemma emits_field:
  assumes plain: "plain_field (plain_table d) f"
    and sub: "\<And>flds p. plain_table d flds \<Longrightarrow> emits (sub flds p) (g flds p)"
  shows "emits (\<lambda>s. encode_field env m (Suc d) sub s f p) (ref_field m (Suc d) g f p)"
proof -
  define q where "q = (if atype f = PB_ATYPE_POINTER then rd_ptr m p else p)"
  have lt: "ltype f \<le> 9" "ltype f \<noteq> PB_LTYPE_EXTENSION" and at: "atype f = PB_ATYPE_STATIC \<or> atype f = PB_ATYPE_POINTER"
    and sz: "htype f = PB_HTYPE_REPEATED \<or> htype f = PB_HTYPE_ONEOF \<Longrightarrow> size_offset f \<noteq> 0"
    using plain by (auto simp: plain_field_def)
  have val: "emits (\<lambda>s. PB_ENCODERS m sub (ltype f) s f p) (ref_value m g f p)" for p
    by (rule emits_value [OF plain sub])
  have one: "emits (\<lambda>s. and_then (pb_encode_tag_for_field s f) (\<lambda>s. PB_ENCODERS m sub (ltype f) s f q))
      (then_emit (tag_bytes f (field_wiretype f), True) (ref_value m g f q))"
    by (rule emits_then [OF emits_tag_for_field [OF lt] val])
  obtain b where chk: "pb_check_proto3_default_value m (Suc d) f p = Some b"
    using check_proto3_defined [OF plain] by blast
  have start: "encode_field env m (Suc d) sub s f p = encode_basic_field m (Suc d) sub s f p" for s
    using at by (auto simp: encode_field_def)
  show ?thesis
  proof (rule htype_cases [of f])
    assume h: "htype f = PB_HTYPE_REQUIRED"
    then show ?thesis using one emits_error
      by (cases "q = 0") (simp_all add: start encode_basic_field_def ref_field_def Let_def q_def [symmetric])
  next
    assume h: "htype f = PB_HTYPE_OPTIONAL"
    define has where "has = (if size_offset f \<noteq> 0 then m (shift_addr p (size_offset f)) \<noteq> 0
        else if atype f = PB_ATYPE_POINTER then q \<noteq> 0 else b = False)"
    have "encode_field env m (Suc d) sub s f p =
        (if has then and_then (pb_encode_tag_for_field s f) (\<lambda>s. PB_ENCODERS m sub (ltype f) s f q) else Some (True, s))" for s
      using h chk by (simp add: start encode_basic_field_def Let_def q_def [symmetric] has_def)
    moreover have "ref_field m (Suc d) g f p =
        (if has then then_emit (tag_bytes f (field_wiretype f), True) (ref_value m g f q) else ([], True))"
      using h chk by (simp add: ref_field_def Let_def q_def [symmetric] has_def)
    ultimately show ?thesis using one emits_skip by (cases has) simp_all
  next
    assume h: "htype f = PB_HTYPE_REPEATED"
    have "emits (\<lambda>s. encode_array m s f q n (PB_ENCODERS m sub (ltype f))) (ref_array m (ref_value m g f) f q n)" for n
      by (rule emits_array [of f "PB_ENCODERS m sub (ltype f)" "ref_value m g f", OF lt val]) (simp_all add: ref_value_def fun_eq_iff)
    then show ?thesis using h sz
      by (simp add: start encode_basic_field_def ref_field_def Let_def q_def [symmetric])
  next
    assume h: "htype f = PB_HTYPE_ONEOF"
    then show ?thesis using one emits_skip sz
      by (cases "rd_word m (shift_addr p (size_offset f)) = tag f")
        (simp_all add: start encode_basic_field_def ref_field_def Let_def q_def [symmetric])
  qed
qed

lemma emits_message:
  "plain_table d flds \<Longrightarrow> emits (pb_encode env m d flds src) (ref_message m d flds src)"
proof (induction d arbitrary: flds src)
  case 0
  then show ?case by simp
next
  case (Suc d)
  then have t: "terminated flds" and pf: "\<And>f. f \<in> set (butlast flds) \<Longrightarrow> plain_field (plain_table d) f"
    by (simp_all add: list_all_iff)
  have "emits (encode_fields env m (Suc d) (pb_encode env m d) its)
      (foldr (\<lambda>it. then_emit (ref_field m (Suc d) (ref_message m d) (pos_field it) (pData it))) its ([], True))"
    if "set its \<subseteq> set (iter_walk flds src)" for its
    using that
  proof (induction its)
    case Nil
    then show ?case using emits_skip by (simp add: fun_eq_iff [of "encode_fields _ _ _ _ []"])
  next
    case (Cons it its)
    then have p: "plain_field (plain_table d) (pos_field it)" using pf iter_walk_field [OF t, of it src] by simp
    then have "ltype (pos_field it) \<noteq> PB_LTYPE_EXTENSION" by (simp add: plain_field_def)
    moreover have "emits (\<lambda>s. encode_field env m (Suc d) (pb_encode env m d) s (pos_field it) (pData it))
        (ref_field m (Suc d) (ref_message m d) (pos_field it) (pData it))"
      by (rule emits_field [OF p Suc.IH])
    ultimately show ?case using emits_then Cons by simp
  qed
  from this [of "iter_walk flds src"] show ?case by simp
qed

end

section \<open>Properties\<close>

text \<open>
  C2: for every table of static and pointer fields and every struct in memory, the encoder puts
  out exactly the bytes of the reference. \<open>pb_get_encoded_size\<close> returns their number, and
  \<open>pb_encode\<close> into a buffer succeeds if and only if the message can be encoded and the buffer has
  that many bytes; then the buffer starts with them. So the two passes over submessages and
  packed arrays always agree, at every depth of nesting.
\<close>

theorem pb_encode_exact:
  assumes "plain_table d flds" and "ref_message m d flds src = (bs, ok)" and "length bs < SIZE_MODULUS"
    and "n \<le> length buf" and "length buf < SIZE_MODULUS"
  shows "pb_get_encoded_size env m d null flds src = Some (if ok then Some (length bs) else None)
    \<and> (\<exists>status s'. pb_encode env m d flds src (pb_ostream_from_buffer buf n) = Some (status, s')
         \<and> (status \<longleftrightarrow> ok \<and> length bs \<le> n)
         \<and> (status \<longrightarrow> bytes_written s' = length bs \<and> take (length bs) (fst (os_state s')) = bs))"
proof
  have e: "buf_sink.emits (pb_encode env m d flds src) (bs, ok)" for env
    using buf_sink.emits_message [OF assms(1), of env m src] assms(2) by simp
  have z: "os_callback (pb_ostream_sizing null) = None" "bytes_written (pb_ostream_sizing null) = 0"
    by (simp_all add: pb_ostream_sizing_def)
  from buf_sink.emits_sizing [OF e z(1)] obtain t where
    "pb_encode env m d flds src (pb_ostream_sizing null) = Some (ok, t)" "bytes_written t = length bs"
    unfolding z(2) using assms(3) by auto
  then show "pb_get_encoded_size env m d null flds src = Some (if ok then Some (length bs) else None)"
    by (simp add: pb_get_encoded_size_def)
  let ?s = "pb_ostream_from_buffer buf n"
  have ready: "os_ready buf_write buf_room ?s" using assms(4,5) by (intro from_buffer_ready) simp_all
  have b: "bytes_written ?s + length bs < SIZE_MODULUS" using assms(3) by simp
  from buf_sink.emits_writing [OF e ready b] obtain k s' where
    k: "pb_encode env m d flds src ?s = Some (k, s')"
      "length bs \<le> n \<longrightarrow> k = ok \<and> buf_sink.appended ?s bs s'" "n < length bs \<longrightarrow> \<not> k"
    by (metis add_0 from_buffer_empty(2,3))
  have "bytes_written s' = length bs \<and> take (length bs) (fst (os_state s')) = bs" if "k"
  proof -
    from that k(2,3) have "buf_sink.appended ?s bs s'" by force
    then have "take (snd (os_state s')) (fst (os_state s')) = bs" "bytes_written s' = length bs"
      by (simp_all add: buf_sink.appended_def buf_out_def [of "os_state s'"])
    then have "length bs \<le> snd (os_state s')" by (metis length_take min.cobounded2)
    then have "take (length bs) (fst (os_state s')) = take (length bs) bs"
      using \<open>take (snd (os_state s')) (fst (os_state s')) = bs\<close> by (metis min.absorb1 take_take)
    then show ?thesis using \<open>bytes_written s' = length bs\<close> by simp
  qed
  moreover have "k \<longleftrightarrow> ok \<and> length bs \<le> n" using k by (cases "length bs \<le> n") auto
  ultimately show "\<exists>status s'. pb_encode env m d flds src ?s = Some (status, s')
         \<and> (status \<longleftrightarrow> ok \<and> length bs \<le> n)
         \<and> (status \<longrightarrow> bytes_written s' = length bs \<and> take (length bs) (fst (os_state s')) = bs)"
    using k(1) by blast
qed

text \<open>A struct for \<open>demo_fields\<close> at address 100: a present field with value 150 and an array \<open>[1, 3]\<close>.\<close>

definition demo_mem :: mem where
  "demo_mem = (\<lambda>_. 0)(100 := 1, 104 := 150, 108 := 2, 112 := 1, 114 := 3)"

lemma demo_plain: "plain_table 1 demo_fields"
  by (simp add: plain_field_def demo_fields_def terminated_def PB_ATYPE_def PB_LTYPE_def PB_HTYPE_def)

lemma varint_spec_eval:
  "n < 128 \<Longrightarrow> varint_spec n = [word_of_nat n]"
  "128 \<le> n \<Longrightarrow> varint_spec n = word_of_nat (n mod 128 + 128) # varint_spec (n div 128)"
  by (simp_all add: varint_spec.simps [of n])

lemmas type_defs = PB_HTYPE_def PB_ATYPE_def PB_LTYPE_def

lemma demo_rd:
  "demo_mem 100 = 1" "rd demo_mem 104 4 = [150, 0, 0, 0]" "rd demo_mem 108 4 = [2, 0, 0, 0]"
  "rd demo_mem 112 2 = [1, 0]" "rd demo_mem 114 2 = [3, 0]"
  by (simp_all add: rd_def demo_mem_def)

lemma demo_numbers:
  "rd_unsigned demo_mem 104 4 = Some 150" "(rd_word demo_mem 108 :: u32) = 2"
  "rd_signed demo_mem 112 2 = Some 1" "rd_signed demo_mem 114 2 = Some 3"
  by (simp_all add: rd_unsigned_def rd_signed_def rd_word_def demo_rd)

lemma ref_items_2: "ref_items g step 2 p = then_emit (g p) (then_emit (g (p + step)) ([], True))"
  by (simp add: numeral_2_eq_2)

lemmas demo_eval = ref_field_def ref_value_def ref_array_def demo_fields_def type_defs Let_def shift_addr_def
  ref_items_2 demo_rd(1) demo_numbers then_emit_def tag_bytes_def field_wiretype_def pb_tag_def wire_type_defs
  varint_spec_eval delimited_def word_le_nat_alt

lemma demo_walk: "iter_walk demo_fields a =
   [\<lparr>start = demo_fields, pos = 0, required_field_index = 0, dest_struct = a, pData = a + 4, pSize = a\<rparr>,
    \<lparr>start = demo_fields, pos = 1, required_field_index = 0, dest_struct = a, pData = a + 12, pSize = a + 8\<rparr>]"
  by (simp add: iter_walk_def demo_fields_def pb_field_iter_begin_def pb_field_iter_next_def
      numeral_3_eq_3 Let_def type_defs shift_addr_def)

lemma demo_message: "ref_message demo_mem 1 demo_fields 100 = ([8, 150, 1, 26, 2, 1, 3], True)"
proof -
  have "ref_field demo_mem (Suc 0) g (demo_fields ! 0) 104 = ([8, 150, 1], True)" for g
    by (simp add: demo_eval)
  moreover have "ref_field demo_mem (Suc 0) g (demo_fields ! Suc 0) 112 = ([26, 2, 1, 3], True)" for g
    by (simp add: demo_eval)
  ultimately show ?thesis by (simp add: demo_walk then_emit_def)
qed

theorem pb_encode_exact_witness:
  "\<forall>(env :: (byte list \<times> nat) pb_env) null. pb_get_encoded_size env demo_mem 1 null demo_fields 100 = Some (Some 7)"
  using pb_encode_exact [OF demo_plain demo_message, of 0 "[]"] by (simp add: SIZE_MODULUS_def del: pb_encode.simps)

end
