(* ===== verification/Pb_Decode.thy ===== *)
theory Pb_Decode
  imports Pb_Encode
begin

text \<open>
  The message decoder of \<open>nanopb/pb_decode.c\<close>: from bytes on a stream into a struct in memory, as
  its descriptor table says. nanopb is built without \<open>PB_ENABLE_MALLOC\<close>, so pointer fields are
  refused.

  A step takes the stream and the memory and returns the C function's return value, the stream and
  the memory. \<open>None\<close> stands for undefined behaviour (a null table or function pointer is used, an
  array is read beyond its end, a shift is too wide) and for more turns or a deeper nesting than
  the bounds allow; the theorems show that neither happens for static tables.
\<close>

section \<open>Values\<close>

type_synonym 's dec_result = "(bool \<times> 's pb_istream \<times> mem) option"

definition is_error :: "'s pb_istream \<Rightarrow> mem \<Rightarrow> string \<Rightarrow> 's dec_result" where
  "is_error s m msg = Some (False, is_set_error s msg, m)"

text \<open>\<open>pb_read\<close> into memory. A callback that fails may have stored some of the bytes.\<close>

definition pb_read_into :: "'s pb_istream \<Rightarrow> mem \<Rightarrow> nat \<Rightarrow> nat \<Rightarrow> bool \<times> 's pb_istream \<times> mem" where
  "pb_read_into s m dest count =
     (if bytes_left s < count then (False, is_set_error s ''end-of-stream'', m)
      else case is_callback s (is_state s) count of (ok, bs, st) \<Rightarrow>
        let m' = wr m dest (take count bs) in
        if \<not> ok then (False, is_set_error (s\<lparr>is_state := st\<rparr>) ''io error'', m')
        else (True, s\<lparr>is_state := st, bytes_left := bytes_left s - count\<rparr>, m'))"

text \<open>
  An integer is cast to the size of the field and stored; the second component is the stored value
  (\<open>clamped\<close>), read back at 64 bits.
\<close>

definition store_signed :: "mem \<Rightarrow> nat \<Rightarrow> u32 \<Rightarrow> u64 \<Rightarrow> (mem \<times> u64) option" where
  "store_signed m dest n v =
     (if n = 8 then Some (wr_word m dest v, v)
      else if n = 4 then Some (wr_word m dest (ucast v :: u32), scast (ucast v :: u32))
      else if n = 2 then Some (wr_word m dest (ucast v :: u16), scast (ucast v :: u16))
      else if n = 1 then Some (wr_word m dest (ucast v :: byte), scast (ucast v :: byte))
      else None)"

definition store_unsigned :: "mem \<Rightarrow> nat \<Rightarrow> u32 \<Rightarrow> u64 \<Rightarrow> (mem \<times> u64) option" where
  "store_unsigned m dest n v =
     (if n = 8 then Some (wr_word m dest v, v)
      else if n = 4 then Some (wr_word m dest (ucast v :: u32), ucast (ucast v :: u32))
      else if n = 2 then Some (wr_word m dest (ucast v :: u16), ucast (ucast v :: u16))
      else if n = 1 then Some (wr_word m dest (ucast v :: byte), ucast (ucast v :: byte))
      else None)"

definition store_checked :: "(mem \<times> u64) option \<Rightarrow> 's pb_istream \<Rightarrow> mem \<Rightarrow> u64 \<Rightarrow> 's dec_result" where
  "store_checked r s m v =
     (case r of
        None \<Rightarrow> is_error s m ''invalid data_size''
      | Some (m', clamped) \<Rightarrow>
          if clamped \<noteq> v then is_error s m' ''integer too large'' else Some (True, s, m'))"

definition pb_dec_varint :: "'s pb_istream \<Rightarrow> pb_field \<Rightarrow> nat \<Rightarrow> mem \<Rightarrow> 's dec_result" where
  "pb_dec_varint s f dest m =
     (case pb_decode_varint s of
        (None, s') \<Rightarrow> Some (False, s', m)
      | (Some v, s') \<Rightarrow>
          let svalue = (if data_size f = 8 then v else scast (ucast v :: u32))
          in store_checked (store_signed m dest (data_size f) svalue) s' m svalue)"

definition pb_dec_uvarint :: "'s pb_istream \<Rightarrow> pb_field \<Rightarrow> nat \<Rightarrow> mem \<Rightarrow> 's dec_result" where
  "pb_dec_uvarint s f dest m =
     (case pb_decode_varint s of
        (None, s') \<Rightarrow> Some (False, s', m)
      | (Some v, s') \<Rightarrow> store_checked (store_unsigned m dest (data_size f) v) s' m v)"

definition pb_dec_svarint :: "'s pb_istream \<Rightarrow> pb_field \<Rightarrow> nat \<Rightarrow> mem \<Rightarrow> 's dec_result" where
  "pb_dec_svarint s f dest m =
     (case pb_decode_svarint s of
        (None, s') \<Rightarrow> Some (False, s', m)
      | (Some v, s') \<Rightarrow> store_checked (store_signed m dest (data_size f) v) s' m v)"

definition pb_dec_fixed32 :: "'s pb_istream \<Rightarrow> pb_field \<Rightarrow> nat \<Rightarrow> mem \<Rightarrow> 's dec_result" where
  "pb_dec_fixed32 s f dest m =
     (case pb_decode_fixed32 s of
        (None, s') \<Rightarrow> Some (False, s', m)
      | (Some v, s') \<Rightarrow> Some (True, s', wr_word m dest v))"

definition pb_dec_fixed64 :: "'s pb_istream \<Rightarrow> pb_field \<Rightarrow> nat \<Rightarrow> mem \<Rightarrow> 's dec_result" where
  "pb_dec_fixed64 s f dest m =
     (case pb_decode_fixed64 s of
        (None, s') \<Rightarrow> Some (False, s', m)
      | (Some v, s') \<Rightarrow> Some (True, s', wr_word m dest v))"

definition pb_dec_bytes :: "'s pb_istream \<Rightarrow> pb_field \<Rightarrow> nat \<Rightarrow> mem \<Rightarrow> 's dec_result" where
  "pb_dec_bytes s f dest m =
     (case pb_decode_varint32 s of
        (None, s') \<Rightarrow> Some (False, s', m)
      | (Some n, s') \<Rightarrow>
          if PB_SIZE_MAX < n then is_error s' m ''bytes overflow''
          else
            let alloc_size = PB_BYTES_ARRAY_T_ALLOCSIZE (unat n) in
            if alloc_size < unat n then is_error s' m ''size too large''
            else if atype f = PB_ATYPE_POINTER then is_error s' m ''no malloc support''
            else if unat (data_size f) < alloc_size then is_error s' m ''bytes overflow''
            else Some (pb_read_into s' (wr_word m dest n) (dest + 4) (unat n)))"

definition pb_dec_string :: "'s pb_istream \<Rightarrow> pb_field \<Rightarrow> nat \<Rightarrow> mem \<Rightarrow> 's dec_result" where
  "pb_dec_string s f dest m =
     (case pb_decode_varint32 s of
        (None, s') \<Rightarrow> Some (False, s', m)
      | (Some n, s') \<Rightarrow>
          let alloc_size = n + 1 in
          if alloc_size < n then is_error s' m ''size too large''
          else if atype f = PB_ATYPE_POINTER then is_error s' m ''no malloc support''
          else if data_size f < alloc_size then is_error s' m ''string overflow''
          else (case pb_read_into s' m dest (unat n) of
                  (status, s'', m') \<Rightarrow> Some (status, s'', wr m' (dest + unat n) [0])))"

definition pb_dec_fixed_length_bytes :: "'s pb_istream \<Rightarrow> pb_field \<Rightarrow> nat \<Rightarrow> mem \<Rightarrow> 's dec_result" where
  "pb_dec_fixed_length_bytes s f dest m =
     (case pb_decode_varint32 s of
        (None, s') \<Rightarrow> Some (False, s', m)
      | (Some n, s') \<Rightarrow>
          if PB_SIZE_MAX < n then is_error s' m ''bytes overflow''
          else if n = 0 then Some (True, s', wr m dest (replicate (unat (data_size f)) 0))
          else if n \<noteq> data_size f then is_error s' m ''incorrect fixed length bytes size''
          else Some (pb_read_into s' m dest (unat (data_size f))))"

text \<open>
  \<open>sub init\<close> is \<open>pb_decode\<close> if \<open>init\<close> holds and \<open>pb_decode_noinit\<close> otherwise; it takes the table, the address
  of the struct, the stream and the memory.
\<close>

type_synonym 's decoder = "bool \<Rightarrow> pb_field list \<Rightarrow> nat \<Rightarrow> 's pb_istream \<Rightarrow> mem \<Rightarrow> 's dec_result"

text \<open>Closing a substream, and the status of what was read from it.\<close>

definition close_with :: "'s pb_istream \<Rightarrow> 's dec_result \<Rightarrow> 's dec_result" where
  "close_with s r =
     (case r of None \<Rightarrow> None
      | Some (status, substream, m) \<Rightarrow>
          (case pb_close_string_substream s substream of
             (ok, s') \<Rightarrow> Some (ok \<and> status, s', m)))"

definition pb_dec_submessage :: "'s decoder \<Rightarrow> 's pb_istream \<Rightarrow> pb_field \<Rightarrow> nat \<Rightarrow> mem \<Rightarrow> 's dec_result" where
  "pb_dec_submessage sub s f dest m =
     (case pb_make_string_substream s of
        (None, s') \<Rightarrow> Some (False, s', m)
      | (Some substream, s') \<Rightarrow>
          (case ptr f of
             Null \<Rightarrow> is_error s' m ''invalid field descriptor''
           | Submsg_fields flds \<Rightarrow>
               close_with s' (sub (htype f = PB_HTYPE_REPEATED) flds dest substream m)
           | Default_value _ \<Rightarrow> None))"

definition PB_DECODERS :: "'s decoder \<Rightarrow> byte \<Rightarrow> 's pb_istream \<Rightarrow> pb_field \<Rightarrow> nat \<Rightarrow> mem \<Rightarrow> 's dec_result" where
  "PB_DECODERS sub lt s f dest m =
     (if lt = PB_LTYPE_VARINT then pb_dec_varint s f dest m
      else if lt = PB_LTYPE_UVARINT then pb_dec_uvarint s f dest m
      else if lt = PB_LTYPE_SVARINT then pb_dec_svarint s f dest m
      else if lt = PB_LTYPE_FIXED32 then pb_dec_fixed32 s f dest m
      else if lt = PB_LTYPE_FIXED64 then pb_dec_fixed64 s f dest m
      else if lt = PB_LTYPE_BYTES then pb_dec_bytes s f dest m
      else if lt = PB_LTYPE_STRING then pb_dec_string s f dest m
      else if lt = PB_LTYPE_SUBMESSAGE then pb_dec_submessage sub s f dest m
      else if lt = PB_LTYPE_FIXED_LENGTH_BYTES then pb_dec_fixed_length_bytes s f dest m
      else None)"

section \<open>Defaults\<close>

text \<open>
  User functions and extension types. The buffer of a single scalar value is a stream of its own, so
  a decoding callback comes for both kinds of stream.
\<close>

record 's pb_extension_decoder =
  xd_decode :: "('s pb_istream \<Rightarrow> nat \<Rightarrow> u32 \<Rightarrow> u32 \<Rightarrow> mem \<Rightarrow> bool \<times> 's pb_istream \<times> mem) option"
  xd_arg :: pb_field

record 's pb_dec_env =
  cb_decode :: "nat \<Rightarrow> 's pb_istream \<Rightarrow> pb_field \<Rightarrow> nat \<Rightarrow> mem \<Rightarrow> bool \<times> 's pb_istream \<times> mem"
  cb_decode_buf :: "nat \<Rightarrow> byte list pb_istream \<Rightarrow> pb_field \<Rightarrow> nat \<Rightarrow> mem \<Rightarrow> bool \<times> byte list pb_istream \<times> mem"
  ext_decoder :: "nat \<Rightarrow> 's pb_extension_decoder"

definition iter_from_extension :: "'s pb_dec_env \<Rightarrow> mem \<Rightarrow> nat \<Rightarrow> pb_field_iter" where
  "iter_from_extension env m e =
     (let f = xd_arg (ext_decoder env (rd_ptr m e));
          iter = fst (pb_field_iter_begin [f] (rd_ptr m (e + 8)))
      in iter\<lparr>pData := (if atype f = PB_ATYPE_POINTER then e + 8 else rd_ptr m (e + 8)), pSize := e + 24\<rparr>)"

text \<open>
  \<open>pb_field_set_to_default\<close>, with \<open>pb_message_set_to_defaults\<close> of submessages and the function on the
  extensions in a list as arguments.
\<close>

definition field_set_to_default ::
  "(pb_field list \<Rightarrow> nat \<Rightarrow> mem \<Rightarrow> mem option) \<Rightarrow> (nat \<Rightarrow> mem \<Rightarrow> mem option) \<Rightarrow> pb_field_iter \<Rightarrow> mem \<Rightarrow> mem option" where
  "field_set_to_default msg exts iter m =
     (let f = pos_field iter; n = unat (data_size f) in
      if ltype f = PB_LTYPE_EXTENSION then exts (rd_ptr m (pData iter)) m
      else if atype f = PB_ATYPE_STATIC then
        if htype f = PB_HTYPE_REPEATED \<or> htype f = PB_HTYPE_ONEOF then Some (wr_word m (pSize iter) (0 :: u32))
        else
          let m = (if htype f = PB_HTYPE_OPTIONAL \<and> pSize iter \<noteq> pData iter
                   then wr m (pSize iter) [0] else m) in
          if ltype f = PB_LTYPE_SUBMESSAGE then
            (case ptr f of Submsg_fields flds \<Rightarrow> msg flds (pData iter) m | _ \<Rightarrow> None)
          else
            (case ptr f of
               Null \<Rightarrow> Some (wr m (pData iter) (replicate n 0))
             | Default_value bs \<Rightarrow> if length bs < n then None else Some (wr m (pData iter) (take n bs))
             | Submsg_fields _ \<Rightarrow> None)
      else if atype f = PB_ATYPE_POINTER then
        let m = wr_word m (pData iter) (0 :: u64) in
        Some (if htype f = PB_HTYPE_REPEATED \<or> htype f = PB_HTYPE_ONEOF
              then wr_word m (pSize iter) (0 :: u32) else m)
      else Some m)"

fun set_iters :: "(pb_field_iter \<Rightarrow> mem \<Rightarrow> mem option) \<Rightarrow> pb_field_iter list \<Rightarrow> mem \<Rightarrow> mem option" where
  "set_iters g [] m = Some m"
| "set_iters g (it # its) m = (case g it m of None \<Rightarrow> None | Some m' \<Rightarrow> set_iters g its m')"

fun set_extensions ::
  "'s pb_dec_env \<Rightarrow> (pb_field_iter \<Rightarrow> mem \<Rightarrow> mem option) \<Rightarrow> nat \<Rightarrow> nat \<Rightarrow> mem \<Rightarrow> mem option" where
  "set_extensions env g k e m =
     (if e = 0 then Some m
      else case k of
        0 \<Rightarrow> None
      | Suc k' \<Rightarrow>
          (let m = wr m (e + 24) [0] in
           case g (iter_from_extension env m e) m of
             None \<Rightarrow> None
           | Some m' \<Rightarrow> set_extensions env g k' (rd_ptr m' (e + 16)) m'))"

declare set_extensions.simps [simp del]

fun pb_message_set_to_defaults :: "'s pb_dec_env \<Rightarrow> nat \<Rightarrow> pb_field list \<Rightarrow> nat \<Rightarrow> mem \<Rightarrow> mem option"
  and pb_field_set_to_default :: "'s pb_dec_env \<Rightarrow> nat \<Rightarrow> pb_field_iter \<Rightarrow> mem \<Rightarrow> mem option" where
  "pb_message_set_to_defaults env 0 flds dest m = None"
| "pb_message_set_to_defaults env (Suc d) flds dest m =
     set_iters (pb_field_set_to_default env d) (iter_walk flds dest) m"
| "pb_field_set_to_default env 0 iter m =
     field_set_to_default (\<lambda>_ _ _. None) (\<lambda>e m. if e = 0 then Some m else None) iter m"
| "pb_field_set_to_default env (Suc d) iter m =
     field_set_to_default (pb_message_set_to_defaults env (Suc d))
       (set_extensions env (pb_field_set_to_default env d) (Suc d)) iter m"

section \<open>Fields\<close>

text \<open>\<open>data_size * ( *size)\<close> is a product of two 32-bit numbers.\<close>

definition item_addr :: "pb_field_iter \<Rightarrow> u32 \<Rightarrow> nat" where
  "item_addr iter n = pData iter + unat (data_size (pos_field iter) * n)"

text \<open>The loop over a packed array; every turn takes at least one byte of the substream.\<close>

fun packed_loop ::
  "('s pb_istream \<Rightarrow> pb_field \<Rightarrow> nat \<Rightarrow> mem \<Rightarrow> 's dec_result) \<Rightarrow> pb_field_iter \<Rightarrow> nat \<Rightarrow> 's pb_istream \<Rightarrow> mem \<Rightarrow> 's dec_result" where
  "packed_loop func iter k substream m =
     (let count = rd_word m (pSize iter) :: u32 in
      if 0 < bytes_left substream \<and> count < array_size (pos_field iter) then
        (case k of
           0 \<Rightarrow> None
         | Suc k' \<Rightarrow>
             (case func substream (pos_field iter) (item_addr iter count) m of
                None \<Rightarrow> None
              | Some (ok, sub', m') \<Rightarrow>
                  if \<not> ok then Some (False, sub', m')
                  else packed_loop func iter k' sub'
                         (wr_word m' (pSize iter) ((rd_word m' (pSize iter) :: u32) + 1))))
      else Some (True, substream, m))"

declare packed_loop.simps [simp del]

definition decode_static_field ::
  "'s pb_dec_env \<Rightarrow> nat \<Rightarrow> 's decoder \<Rightarrow> 's pb_istream \<Rightarrow> u32 \<Rightarrow> pb_field_iter \<Rightarrow> mem \<Rightarrow> 's dec_result" where
  "decode_static_field env d sub s wire_type iter m =
     (let f = pos_field iter; func = PB_DECODERS sub (ltype f); count = rd_word m (pSize iter) :: u32 in
      if htype f = PB_HTYPE_REQUIRED then func s f (pData iter) m
      else if htype f = PB_HTYPE_OPTIONAL then
        func s f (pData iter) (if pSize iter \<noteq> pData iter then wr m (pSize iter) [1] else m)
      else if htype f = PB_HTYPE_REPEATED then
        if wire_type = PB_WT_STRING \<and> ltype f \<le> PB_LTYPE_LAST_PACKABLE then
          (case pb_make_string_substream s of
             (None, s') \<Rightarrow> Some (False, s', m)
           | (Some substream, s') \<Rightarrow>
               (case packed_loop func iter (bytes_left substream) substream m of
                  None \<Rightarrow> None
                | Some (status, sub', m') \<Rightarrow>
                    if bytes_left sub' \<noteq> 0 then is_error s' m' ''array overflow''
                    else close_with s' (Some (status, sub', m'))))
        else if array_size f \<le> count then is_error s m ''array overflow''
        else func s f (item_addr iter count) (wr_word m (pSize iter) (count + 1))
      else if htype f = PB_HTYPE_ONEOF then
        let m = wr_word m (pSize iter) (tag f) in
        if ltype f = PB_LTYPE_SUBMESSAGE then
          let m = wr m (pData iter) (replicate (unat (data_size f)) 0) in
          (case ptr f of
             Submsg_fields flds \<Rightarrow>
               (case pb_message_set_to_defaults env d flds (pData iter) m of
                  None \<Rightarrow> None
                | Some m' \<Rightarrow> func s f (pData iter) m')
           | _ \<Rightarrow> None)
        else func s f (pData iter) m
      else is_error s m ''invalid field type'')"

definition decode_pointer_field :: "'s pb_istream \<Rightarrow> u32 \<Rightarrow> pb_field_iter \<Rightarrow> mem \<Rightarrow> 's dec_result" where
  "decode_pointer_field s wire_type iter m = is_error s m ''no malloc support''"

fun callback_loop ::
  "('s pb_istream \<Rightarrow> mem \<Rightarrow> bool \<times> 's pb_istream \<times> mem) \<Rightarrow> nat \<Rightarrow> 's pb_istream \<Rightarrow> mem \<Rightarrow> 's dec_result" where
  "callback_loop cb 0 substream m = None"
| "callback_loop cb (Suc k) substream m =
     (case cb substream m of (ok, sub', m') \<Rightarrow>
        if \<not> ok then Some (False, sub', m')
        else if 0 < bytes_left sub' then callback_loop cb k sub' m'
        else Some (True, sub', m'))"

definition decode_callback_field ::
  "'s pb_dec_env \<Rightarrow> 's pb_istream \<Rightarrow> u32 \<Rightarrow> pb_field_iter \<Rightarrow> mem \<Rightarrow> 's dec_result" where
  "decode_callback_field env s wire_type iter m =
     (let fn = rd_ptr m (pData iter); f = pos_field iter; arg = pData iter + 8 in
      if fn = 0 then (case pb_skip_field s wire_type of (ok, s') \<Rightarrow> Some (ok, s', m))
      else if wire_type = PB_WT_STRING then
        (case pb_make_string_substream s of
           (None, s') \<Rightarrow> Some (False, s', m)
         | (Some substream, s') \<Rightarrow>
             (case callback_loop (\<lambda>sub m. cb_decode env fn sub f arg m) (Suc (bytes_left substream)) substream m of
                None \<Rightarrow> None
              | Some (ok, sub', m') \<Rightarrow>
                  if \<not> ok then is_error s' m' ''callback failed'' else close_with s' (Some (True, sub', m'))))
      else
        (case read_raw_value s wire_type 10 of
           (None, s') \<Rightarrow> Some (False, s', m)
         | (Some buffer, s') \<Rightarrow>
             (case cb_decode_buf env fn (pb_istream_from_buffer buffer (length buffer)) f arg m of
                (ok, _, m') \<Rightarrow> Some (ok, s', m'))))"

definition decode_field ::
  "'s pb_dec_env \<Rightarrow> nat \<Rightarrow> 's decoder \<Rightarrow> 's pb_istream \<Rightarrow> u32 \<Rightarrow> pb_field_iter \<Rightarrow> mem \<Rightarrow> 's dec_result" where
  "decode_field env d sub s wire_type iter m =
     (if atype (pos_field iter) = PB_ATYPE_STATIC then decode_static_field env d sub s wire_type iter m
      else if atype (pos_field iter) = PB_ATYPE_POINTER then decode_pointer_field s wire_type iter m
      else if atype (pos_field iter) = PB_ATYPE_CALLBACK then decode_callback_field env s wire_type iter m
      else is_error s m ''invalid field type'')"

definition default_extension_decoder ::
  "'s pb_dec_env \<Rightarrow> nat \<Rightarrow> 's decoder \<Rightarrow> 's pb_istream \<Rightarrow> nat \<Rightarrow> u32 \<Rightarrow> u32 \<Rightarrow> mem \<Rightarrow> 's dec_result" where
  "default_extension_decoder env d sub s e t wire_type m =
     (if tag (xd_arg (ext_decoder env (rd_ptr m e))) \<noteq> t then Some (True, s, m)
      else decode_field env d sub s wire_type (iter_from_extension env m e) (wr m (e + 24) [1]))"

fun decode_extension_loop ::
  "'s pb_dec_env \<Rightarrow> nat \<Rightarrow> 's decoder \<Rightarrow> u32 \<Rightarrow> u32 \<Rightarrow> nat \<Rightarrow> nat \<Rightarrow> nat \<Rightarrow> 's pb_istream \<Rightarrow> mem \<Rightarrow> 's dec_result" where
  "decode_extension_loop env d sub t wire_type start_left k e s m =
     (if e = 0 \<or> start_left \<noteq> bytes_left s then Some (True, s, m)
      else case k of
        0 \<Rightarrow> None
      | Suc k' \<Rightarrow>
          (case (case xd_decode (ext_decoder env (rd_ptr m e)) of
                   Some dec \<Rightarrow> Some (dec s e t wire_type m)
                 | None \<Rightarrow> default_extension_decoder env d sub s e t wire_type m) of
             None \<Rightarrow> None
           | Some (status, s', m') \<Rightarrow>
               if \<not> status then Some (False, s', m')
               else decode_extension_loop env d sub t wire_type start_left k' (rd_ptr m' (e + 16)) s' m'))"

declare decode_extension_loop.simps [simp del]

definition decode_extension ::
  "'s pb_dec_env \<Rightarrow> nat \<Rightarrow> 's decoder \<Rightarrow> 's pb_istream \<Rightarrow> u32 \<Rightarrow> u32 \<Rightarrow> pb_field_iter \<Rightarrow> mem \<Rightarrow> 's dec_result" where
  "decode_extension env d sub s t wire_type iter m =
     decode_extension_loop env d sub t wire_type (bytes_left s) d (rd_ptr m (pData iter)) s m"

definition find_extension_field :: "pb_field_iter \<Rightarrow> (pb_field_iter \<times> bool) option" where
  "find_extension_field iter =
     find_loop (length (start iter)) (pos iter) (\<lambda>f. ltype f = PB_LTYPE_EXTENSION) iter"

section \<open>Messages\<close>

definition PB_MAX_REQUIRED_FIELDS :: nat where "PB_MAX_REQUIRED_FIELDS = 64"

text \<open>
  The local variables of the loop of \<open>pb_decode_noinit\<close>: \<open>iter\<close>, the two words of \<open>fields_seen\<close> and
  \<open>extension_range_start\<close>.
\<close>

record dec_locals =
  dl_iter :: pb_field_iter
  fields_seen :: "u32 list"
  extension_range_start :: u32

definition mark_seen :: "dec_locals \<Rightarrow> dec_locals" where
  "mark_seen l =
     (let i = required_field_index (dl_iter l) in
      if htype (pos_field (dl_iter l)) = PB_HTYPE_REQUIRED \<and> i < PB_MAX_REQUIRED_FIELDS
      then l\<lparr>fields_seen := (fields_seen l)[i div 32 := fields_seen l ! (i div 32) OR push_bit (i mod 32) 1]\<rparr>
      else l)"

text \<open>A tag that no field has: extensions, then skipping.\<close>

definition decode_unknown ::
  "'s pb_dec_env \<Rightarrow> nat \<Rightarrow> 's decoder \<Rightarrow> u32 \<Rightarrow> u32 \<Rightarrow> dec_locals \<Rightarrow> 's pb_istream \<Rightarrow> mem
    \<Rightarrow> (bool \<times> 's pb_istream \<times> mem \<times> dec_locals) option" where
  "decode_unknown env d sub t wire_type l s m =
     (let skip = (\<lambda>l s m. case pb_skip_field s wire_type of (ok, s') \<Rightarrow> Some (ok, s', m, l)) in
      if t < extension_range_start l then skip l s m
      else case find_extension_field (dl_iter l) of
        None \<Rightarrow> None
      | Some (iter, found) \<Rightarrow>
          let l = l\<lparr>dl_iter := iter, extension_range_start := (if found then tag (pos_field iter) else - 1)\<rparr> in
          if t < extension_range_start l then skip l s m
          else case decode_extension env d sub s t wire_type iter m of
            None \<Rightarrow> None
          | Some (ok, s', m') \<Rightarrow>
              if \<not> ok then Some (False, s', m', l)
              else if bytes_left s \<noteq> bytes_left s' then Some (True, s', m', l)
              else skip l s' m')"

text \<open>One turn of the loop; the last component says whether the loop goes on.\<close>

definition decode_turn ::
  "'s pb_dec_env \<Rightarrow> nat \<Rightarrow> 's decoder \<Rightarrow> dec_locals \<Rightarrow> 's pb_istream \<Rightarrow> mem
    \<Rightarrow> (bool \<times> 's pb_istream \<times> mem \<times> dec_locals \<times> bool) option" where
  "decode_turn env d sub l s m =
     (case pb_decode_tag s of (r, s) \<Rightarrow>
        if \<not> tag_ok r then Some (tag_eof r, s, m, l, False)
        else case pb_field_iter_find (dl_iter l) (tag_number r) of
          None \<Rightarrow> None
        | Some (iter, found) \<Rightarrow>
            let l = l\<lparr>dl_iter := iter\<rparr> in
            if \<not> found then
              (case decode_unknown env d sub (tag_number r) (tag_wire_type r) l s m of
                 None \<Rightarrow> None
               | Some (ok, s', m', l') \<Rightarrow> Some (ok, s', m', l', ok))
            else
              (case decode_field env d sub s (tag_wire_type r) iter m of
                 None \<Rightarrow> None
               | Some (ok, s', m') \<Rightarrow> Some (ok, s', m', mark_seen l, ok)))"

fun decode_loop ::
  "'s pb_dec_env \<Rightarrow> nat \<Rightarrow> 's decoder \<Rightarrow> nat \<Rightarrow> dec_locals \<Rightarrow> 's pb_istream \<Rightarrow> mem
    \<Rightarrow> (bool \<times> 's pb_istream \<times> mem \<times> dec_locals) option" where
  "decode_loop env d sub k l s m =
     (if bytes_left s = 0 then Some (True, s, m, l)
      else case k of
        0 \<Rightarrow> None
      | Suc k' \<Rightarrow>
          (case decode_turn env d sub l s m of
             None \<Rightarrow> None
           | Some (ok, s', m', l', goes_on) \<Rightarrow>
               if goes_on then decode_loop env d sub k' l' s' m' else Some (ok, s', m', l')))"

declare decode_loop.simps [simp del]

text \<open>
  The check at the end: count the required fields from where the iterator stands, then compare the
  words of \<open>fields_seen\<close>. In C a shift of a 32-bit operand is defined for distances below 32 only, and an array may be
  read within its bounds only; \<open>None\<close> stands for undefined behaviour.
\<close>

definition req_field_count :: "pb_field_iter \<Rightarrow> nat" where
  "req_field_count iter =
     (let final = last (iter_rest (length (start iter)) iter);
          iter' = fst (pb_field_iter_next final)
      in if htype (pos_field final) = PB_HTYPE_REQUIRED \<and> tag (pos_field iter') \<noteq> 0
         then required_field_index final + 1 else required_field_index final)"

definition c_shr32 :: "u32 \<Rightarrow> nat \<Rightarrow> u32 option" where
  "c_shr32 w n = (if n < 32 then Some (drop_bit n w) else None)"

definition array_read :: "'a list \<Rightarrow> nat \<Rightarrow> 'a option" where
  "array_read xs i = (if i < length xs then Some (xs ! i) else None)"

text \<open>The loop over the whole words from index \<open>i\<close>, with \<open>n\<close> turns to go; \<open>Some False\<close> is the error return.\<close>

fun check_words :: "u32 list \<Rightarrow> nat \<Rightarrow> nat \<Rightarrow> bool option" where
  "check_words seen i 0 = Some True"
| "check_words seen i (Suc n) =
     (case array_read seen i of
        None \<Rightarrow> None
      | Some w \<Rightarrow> if w \<noteq> - 1 then Some False else check_words seen (Suc i) n)"

definition check_required :: "nat \<Rightarrow> u32 list \<Rightarrow> bool option" where
  "check_required count seen =
     (if count = 0 then Some True
      else case check_words seen 0 (count div 32) of
        None \<Rightarrow> None
      | Some False \<Rightarrow> Some False
      | Some True \<Rightarrow>
          (case (array_read seen (count div 32), c_shr32 (- 1) (32 - count mod 32)) of
             (Some w, Some bits) \<Rightarrow> Some (w = bits)
           | _ \<Rightarrow> None))"

definition decode_message ::
  "'s pb_dec_env \<Rightarrow> nat \<Rightarrow> 's decoder \<Rightarrow> pb_field list \<Rightarrow> nat \<Rightarrow> 's pb_istream \<Rightarrow> mem \<Rightarrow> 's dec_result" where
  "decode_message env d sub flds dest s m =
     (case decode_loop env d sub (bytes_left s)
             \<lparr>dl_iter = fst (pb_field_iter_begin flds dest), fields_seen = [0, 0], extension_range_start = 0\<rparr> s m of
        None \<Rightarrow> None
      | Some (ok, s', m', l) \<Rightarrow>
          if \<not> ok then Some (False, s', m')
          else case check_required (req_field_count (dl_iter l)) (fields_seen l) of
            None \<Rightarrow> None
          | Some present \<Rightarrow> if present then Some (True, s', m') else is_error s' m' ''missing required field'')"

text \<open>\<open>pb_decode_noinit\<close> and \<open>pb_decode\<close>; the depth bounds the nesting of submessages.\<close>

fun pb_decode_at :: "'s pb_dec_env \<Rightarrow> nat \<Rightarrow> 's decoder" where
  "pb_decode_at env 0 init flds dest s m = None"
| "pb_decode_at env (Suc d) init flds dest s m =
     (case (if init then pb_message_set_to_defaults env (Suc d) flds dest m else Some m) of
        None \<Rightarrow> None
      | Some m' \<Rightarrow> decode_message env (Suc d) (pb_decode_at env d) flds dest s m')"

definition pb_decode_noinit :: "'s pb_dec_env \<Rightarrow> nat \<Rightarrow> 's pb_istream \<Rightarrow> pb_field list \<Rightarrow> nat \<Rightarrow> mem \<Rightarrow> 's dec_result" where
  "pb_decode_noinit env d s flds dest m = pb_decode_at env d False flds dest s m"

definition pb_decode :: "'s pb_dec_env \<Rightarrow> nat \<Rightarrow> 's pb_istream \<Rightarrow> pb_field list \<Rightarrow> nat \<Rightarrow> mem \<Rightarrow> 's dec_result" where
  "pb_decode env d s flds dest m = pb_decode_at env d True flds dest s m"

definition pb_decode_delimited :: "'s pb_dec_env \<Rightarrow> nat \<Rightarrow> 's pb_istream \<Rightarrow> pb_field list \<Rightarrow> nat \<Rightarrow> mem \<Rightarrow> 's dec_result" where
  "pb_decode_delimited env d s flds dest m =
     (case pb_make_string_substream s of
        (None, s') \<Rightarrow> Some (False, s', m)
      | (Some substream, s') \<Rightarrow> close_with s' (pb_decode env d substream flds dest m))"

section \<open>Required fields\<close>

definition required_count :: "pb_field list \<Rightarrow> nat" where
  "required_count flds = length (filter (\<lambda>f. htype f = PB_HTYPE_REQUIRED) (butlast flds))"

definition PB_LAST_FIELD :: pb_field where
  "PB_LAST_FIELD = Pb_Field 0 0 0 0 0 0 Null"

lemma mark_seen_facts [simp]:
  "dl_iter (mark_seen l) = dl_iter l" "length (fields_seen (mark_seen l)) = length (fields_seen l)"
  by (simp_all add: mark_seen_def Let_def)

lemma iter_find_defined:
  assumes "on_walk flds d it"
  obtains it' b where "pb_field_iter_find it t = Some (it', b)" "on_walk flds d it'"
    "b \<Longrightarrow> tag (pos_field it') = t" "\<not> b \<Longrightarrow> f \<in> set (butlast flds) \<Longrightarrow> \<not> (tag f = t \<and> ltype f \<noteq> PB_LTYPE_EXTENSION)"
proof -
  have "start it = flds" using assms by (simp add: on_walk_def)
  with find_loop_defined [OF assms, of "\<lambda>f. tag f = t \<and> ltype f \<noteq> PB_LTYPE_EXTENSION"] that show ?thesis
    unfolding pb_field_iter_find_def by (fastforce split: if_split_asm)
qed


definition req_rank :: "pb_field list \<Rightarrow> nat \<Rightarrow> nat" where
  "req_rank flds i = length (filter (\<lambda>f. htype f = PB_HTYPE_REQUIRED) (take i flds))"

lemma req_rank_Suc:
  "i < length flds \<Longrightarrow> req_rank flds (Suc i) = req_rank flds i + (if htype (flds ! i) = PB_HTYPE_REQUIRED then 1 else 0)"
  by (simp add: req_rank_def take_Suc_conv_app_nth)

lemma req_rank_mono: "i \<le> j \<Longrightarrow> req_rank flds i \<le> req_rank flds j"
  unfolding req_rank_def by (metis filter_append le_add1 length_append le_add_diff_inverse take_add)

lemma required_count_rank: "required_count flds = req_rank flds (length flds - 1)"
  by (simp add: required_count_def req_rank_def butlast_conv_take)

lemma iter_at_pos:
  assumes "terminated flds" and "i < length flds - 1"
  shows "pos (iter_at flds d i) = i" "iter_ok (iter_at flds d i)"
proof -
  have "map (\<lambda>i. pos (iter_at flds d i)) [0..<length flds - 1] = [0..<length flds - 1]"
    using iter_walk_pos(1) [OF assms(1), of d] by (simp add: iter_walk_at [OF assms(1)] comp_def)
  from arg_cong [OF this, of "\<lambda>xs. xs ! i"] assms(2) show "pos (iter_at flds d i) = i" by simp
  show "iter_ok (iter_at flds d i)" 
    using iter_walk_pos(2) [OF assms(1), of "iter_at flds d i" d] assms(2) by (simp add: iter_walk_at [OF assms(1)])
qed

lemma required_index_at:
  assumes "terminated flds"
  shows "i < length flds - 1 \<Longrightarrow> required_field_index (iter_at flds d i) = req_rank flds i"
proof (induction i)
  case 0
  then show ?case by (simp add: iter_at_def req_rank_def)
next
  case (Suc i)
  let ?it = "iter_at flds d i"
  have p: "pos ?it = i" "start ?it = flds" using Suc.prems assms by (simp_all add: iter_at_pos iter_at_facts)
  have "tag (flds ! i) \<noteq> 0" "tag (flds ! Suc i) \<noteq> 0"
    using Suc.prems terminated_nth [OF assms, of i] terminated_nth [OF assms, of "Suc i"] by auto
  then have "required_field_index (fst (pb_field_iter_next ?it)) =
      required_field_index ?it + (if htype (flds ! i) = PB_HTYPE_REQUIRED then 1 else 0)"
    by (auto simp: pb_field_iter_next_def Let_def p)
  then show ?case using Suc by (simp add: iter_at_next req_rank_Suc)
qed

lemma req_field_count_correct:
  assumes "on_walk flds d it"
  shows "req_field_count it = required_count flds"
proof -
  have it: "start it = flds" "iter_ok it" "it = iter_at flds d (pos it)" and t: "terminated flds"
    using assms by (auto simp: on_walk_def iter_ok_def)
  show ?thesis
  proof (cases "1 < length flds")
    case True
    let ?n = "length flds - 2"
    have p: "pos it < length flds - 1" using it True by (auto simp: iter_ok_def)
    have "iter_rest (length flds) it = map (iter_at flds d) [pos it..<length flds - 1]"
      using iter_rest_at [of flds d "pos it" "length flds"] it True by simp
    then have final: "last (iter_rest (length flds) it) = iter_at flds d ?n"
      using p by (simp add: last_map last_upt numeral_2_eq_2)
    have n: "?n < length flds - 1" "Suc ?n = length flds - 1" using True by auto
    have f: "pos_field (iter_at flds d ?n) = flds ! ?n" using n t by (simp add: iter_at_pos iter_at_facts)
    have "fst (pb_field_iter_next (iter_at flds d ?n)) = fst (pb_field_iter_begin flds d)"
      using iter_wraps [OF iter_at_pos(2) [OF t n(1), of d]] True n by (simp add: iter_at_facts iter_at_pos [OF t n(1)])
    moreover have "tag (flds ! 0) \<noteq> 0" using terminated_nth [OF t, of 0] True by (cases flds) auto
    ultimately show ?thesis using req_rank_Suc [of ?n flds] n required_index_at [OF t n(1)]
      by (simp add: req_field_count_def it(1) Let_def final f required_count_rank)
  next
    case False
    then have l: "length flds = 1" "pos it = 0" using t it by (auto simp: iter_ok_def terminated_def)
    then have z: "tag (flds ! 0) = 0" using terminated_nth [OF t, of 0] by simp
    have "pb_field_iter_next it = (it, False)" using z l it(1) by (simp add: pb_field_iter_next_def Let_def)
    moreover have "required_field_index it = 0" using it(3) l(2) by (metis funpow_0 iter_at_def iter_begin_facts(3))
    ultimately show ?thesis using z l it(1)
      by (simp add: req_field_count_def Let_def required_count_rank req_rank_def)
  qed
qed

lemma check_required_defined:
  assumes "length seen = 2" and "n < 64" and "n \<noteq> 32"
  shows "check_required n seen \<noteq> None"
proof -
  obtain u v where "seen = [u, v]" using assms(1) by (auto simp: numeral_2_eq_2 length_Suc_conv)
  moreover have "n div 32 = 0 \<or> n div 32 = 1" "n mod 32 = 0 \<longrightarrow> n = 0" using assms(2,3) by auto
  ultimately show ?thesis by (auto simp: check_required_def array_read_def c_shr32_def)
qed

text \<open>The positions in the table of the fields that the loop decodes, one for each turn that finds a field.\<close>

fun loop_decoded ::
  "'s pb_dec_env \<Rightarrow> nat \<Rightarrow> 's decoder \<Rightarrow> nat \<Rightarrow> dec_locals \<Rightarrow> 's pb_istream \<Rightarrow> mem \<Rightarrow> nat list" where
  "loop_decoded env d sub 0 l s m = []"
| "loop_decoded env d sub (Suc k) l s m =
     (if bytes_left s = 0 \<or> \<not> tag_ok (fst (pb_decode_tag s)) then []
      else (case pb_field_iter_find (dl_iter l) (tag_number (fst (pb_decode_tag s))) of
              Some (it, found) \<Rightarrow> if found then [pos it] else []
            | None \<Rightarrow> [])
         @ (case decode_turn env d sub l s m of
              Some (ok, s', m', l', goes_on) \<Rightarrow> if goes_on then loop_decoded env d sub k l' s' m' else []
            | None \<Rightarrow> []))"

definition seen_bit :: "u32 list \<Rightarrow> nat \<Rightarrow> bool" where
  "seen_bit seen i = bit (seen ! (i div 32)) (i mod 32)"

abbreviation required_at :: "pb_field list \<Rightarrow> nat \<Rightarrow> bool" where
  "required_at flds p \<equiv> p < length flds - 1 \<and> htype (flds ! p) = PB_HTYPE_REQUIRED"

definition marks :: "pb_field list \<Rightarrow> u32 list \<Rightarrow> nat set \<Rightarrow> bool" where
  "marks flds seen P \<longleftrightarrow> length seen = 2
     \<and> (\<forall>i<64. seen_bit seen i \<longleftrightarrow> (\<exists>p\<in>P. required_at flds p \<and> req_rank flds p = i))"

lemma seen_bit_set:
  assumes "length seen = 2" "i < 64" "j < 64"
  shows "seen_bit (seen[i div 32 := seen ! (i div 32) OR 2 ^ (i mod 32)]) j \<longleftrightarrow> seen_bit seen j \<or> j = i"
proof -
  have eq: "i = j \<longleftrightarrow> i div 32 = j div 32 \<and> i mod 32 = j mod 32" by (metis div_mult_mod_eq)
  have "i div 32 < length seen" using assms(1,2) by auto
  moreover have "bit (2 ^ (i mod 32) :: u32) (j mod 32) \<longleftrightarrow> i mod 32 = j mod 32"
    by (auto simp: bit_exp_iff)
  ultimately show ?thesis using eq by (auto simp: seen_bit_def nth_list_update bit_or_iff)
qed

lemma mark_seen_marks:
  assumes "marks flds (fields_seen l) P" and "on_walk flds d (dl_iter l)" and len: "1 < length flds"
  shows "marks flds (fields_seen (mark_seen l)) (insert (pos (dl_iter l)) P)"
proof -
  let ?it = "dl_iter l" and ?p = "pos (dl_iter l)"
  have it: "start ?it = flds" "?it = iter_at flds d ?p" "?p < length flds - 1" and t: "terminated flds"
    using assms(2) len by (auto simp: on_walk_def iter_ok_def)
  have r: "required_field_index ?it = req_rank flds ?p" using required_index_at [OF t it(3)] it(2) by metis
  show ?thesis
  proof (cases "htype (flds ! ?p) = PB_HTYPE_REQUIRED \<and> req_rank flds ?p < 64")
    case True
    then show ?thesis using assms(1) it(1,3)
      by (auto simp: mark_seen_def Let_def r PB_MAX_REQUIRED_FIELDS_def marks_def seen_bit_set)
  next
    case False
    then show ?thesis using assms(1) it(1) by (auto simp: mark_seen_def Let_def r PB_MAX_REQUIRED_FIELDS_def marks_def)
  qed
qed

lemma decode_unknown_locals:
  assumes "decode_unknown env d sub t wt l s m = Some (ok, s', m', l')" and "on_walk flds a (dl_iter l)"
  shows "on_walk flds a (dl_iter l')" "fields_seen l' = fields_seen l"
proof -
  have "start (dl_iter l) = flds" using assms(2) by (simp add: on_walk_def)
  with find_loop_defined [OF assms(2), of "\<lambda>f. ltype f = PB_LTYPE_EXTENSION"] obtain it b where
    f: "find_extension_field (dl_iter l) = Some (it, b)" "on_walk flds a it"
    unfolding find_extension_field_def by fastforce
  then show "on_walk flds a (dl_iter l')" "fields_seen l' = fields_seen l"
    using assms by (auto simp: decode_unknown_def Let_def split: if_split_asm prod.split_asm option.split_asm)
qed

lemma decode_loop_marks:
  "decode_loop env d sub k l s m = Some (True, s', m', l') \<Longrightarrow> on_walk flds a (dl_iter l) \<Longrightarrow>
    (1 < length flds \<longrightarrow> marks flds (fields_seen l) P) \<Longrightarrow>
    on_walk flds a (dl_iter l') \<and> (1 < length flds \<longrightarrow> marks flds (fields_seen l') (P \<union> set (loop_decoded env d sub k l s m)))"
proof (induction k arbitrary: l s m P)
  case 0
  then show ?case by (simp add: decode_loop.simps split: if_split_asm)
next
  case (Suc k)
  show ?case
  proof (cases "bytes_left s = 0")
    case True
    then show ?thesis using Suc.prems by (simp add: decode_loop.simps)
  next
    case False
    obtain ok s1 m1 l1 goes where turn: "decode_turn env d sub l s m = Some (ok, s1, m1, l1, goes)"
      using Suc.prems(1) False by (auto simp: decode_loop.simps [of _ _ _ "Suc k"] split: option.split_asm)
    obtain r s2 where r: "pb_decode_tag s = (r, s2)" by fastforce
    show ?thesis
    proof (cases "tag_ok r")
      case True
      obtain it b where f: "pb_field_iter_find (dl_iter l) (tag_number r) = Some (it, b)" "on_walk flds a it"
        using iter_find_defined [OF Suc.prems(2)] by metis
      let ?P = "P \<union> set (if b then [pos it] else [])"
      have w: "on_walk flds a (dl_iter l1)" and mk: "1 < length flds \<longrightarrow> marks flds (fields_seen l1) ?P" and g: "goes = ok"
        using turn True r f decode_unknown_locals [of env d sub "tag_number r" "tag_wire_type r" "l\<lparr>dl_iter := it\<rparr>" s2 m]
          mark_seen_marks [of flds "l\<lparr>dl_iter := it\<rparr>" P a] Suc.prems(3)
        by (auto simp: decode_turn_def Let_def split: if_split_asm option.split_asm)
      have ok using Suc.prems(1) False turn g by (auto simp: decode_loop.simps [of _ _ _ "Suc k"])
      then have "decode_loop env d sub k l1 s1 m1 = Some (True, s', m', l')"
        using Suc.prems(1) False turn g by (auto simp: decode_loop.simps [of _ _ _ "Suc k"])
      from Suc.IH [OF this w mk] show ?thesis using False True r f turn g \<open>ok\<close> by (simp add: Un_assoc)
    next
      case False
      then show ?thesis using Suc.prems turn r \<open>bytes_left s \<noteq> 0\<close>
        by (auto simp: decode_loop.simps [of _ _ _ "Suc k"] decode_turn_def)
    qed
  qed
qed


lemma rank_less: "required_at flds p \<Longrightarrow> p < q \<Longrightarrow> req_rank flds p < req_rank flds q"
  using req_rank_Suc [of p flds] req_rank_mono [of "Suc p" q flds] by auto

lemma rank_onto:
  "k \<le> length flds - 1 \<Longrightarrow> i < req_rank flds k \<Longrightarrow> \<exists>p<k. required_at flds p \<and> req_rank flds p = i"
proof (induction k)
  case 0
  then show ?case by (simp add: req_rank_def)
next
  case (Suc k)
  show ?case
  proof (cases "i < req_rank flds k")
    case True
    with Suc obtain p where "p < k" "required_at flds p" "req_rank flds p = i" by auto
    then show ?thesis by (intro exI [of _ p]) auto
  next
    case False
    with Suc.prems req_rank_Suc [of k flds] have "required_at flds k \<and> req_rank flds k = i"
      by (auto split: if_split_asm)
    then show ?thesis by blast
  qed
qed

text \<open>The outcome of the check for any number of required fields, in terms of the bits that are set.\<close>

definition required_result :: "nat \<Rightarrow> bool \<Rightarrow> bool option" where
  "required_result n all_seen = (if all_seen then if n = 32 \<or> 64 \<le> n then None else Some True else Some False)"

lemma u32_bit_less: "bit (w :: u32) i \<Longrightarrow> i < 32"
  using bit_imp_le_length by fastforce

lemma u32_ones: "(w :: u32) = - 1 \<longleftrightarrow> (\<forall>i<32. bit w i)"
  by (auto simp: bit_eq_iff dest: u32_bit_less)

lemma u32_low_ones:
  assumes "\<And>i. bit w i \<Longrightarrow> i < k" and "k \<le> 32"
  shows "(w :: u32) = drop_bit (32 - k) (- 1) \<longleftrightarrow> (\<forall>i<k. bit w i)"
  using assms by (auto simp: bit_eq_iff bit_mask_iff)

lemma seen_bits_split:
  assumes "32 \<le> n" and "n \<le> 64"
  shows "(\<forall>i<n. seen_bit [u, v] i) \<longleftrightarrow> (\<forall>i<32. bit u i) \<and> (\<forall>i<n - 32. bit v i)"
proof (intro iffI conjI allI impI)
  fix i :: nat assume *: "\<forall>i<n. seen_bit [u, v] i"
  { assume "i < 32" then show "bit u i" using * assms by (auto simp: seen_bit_def dest: spec [of _ i]) }
  { assume "i < n - 32" then show "bit v i" using * assms by (auto simp: seen_bit_def dest: spec [of _ "32 + i"]) }
next
  fix i :: nat assume *: "(\<forall>i<32. bit u i) \<and> (\<forall>i<n - 32. bit v i)" and i: "i < n"
  have "i div 32 = (if i < 32 then 0 else 1)" "i mod 32 = (if i < 32 then i else i - 32)"
    using i assms by (auto simp: div_if mod_if)
  then show "seen_bit [u, v] i" using * i by (auto simp: seen_bit_def)
qed

lemma check_required_bits:
  assumes len: "length seen = 2" and bound: "\<And>i. i < 64 \<Longrightarrow> seen_bit seen i \<Longrightarrow> i < n"
  shows "check_required n seen = required_result n (\<forall>i<min n 64. seen_bit seen i)"
proof -
  obtain u v where uv: "seen = [u, v]" using len by (auto simp: numeral_2_eq_2 length_Suc_conv)
  have lo: "seen_bit seen i = bit u i" "seen_bit seen (32 + i) = bit v i" if "i < 32" for i
    using that by (simp_all add: seen_bit_def uv)
  consider "n < 32" | "32 \<le> n" "n < 64" | "64 \<le> n" by linarith
  then show ?thesis
  proof cases
    case 1
    have "bit u i \<Longrightarrow> i < n" for i using bound [of i] lo(1) [of i] u32_bit_less [of u i] by simp
    from u32_low_ones [OF this] 1 lo(1) show ?thesis
      by (auto simp: check_required_def uv required_result_def array_read_def c_shr32_def)
  next
    case 2
    then have d: "n div 32 = Suc 0" "n mod 32 = n - 32" by (simp_all add: mod_if div_if)
    have "bit v i \<Longrightarrow> i < n - 32" for i using bound [of "32 + i"] lo(2) [of i] u32_bit_less [of v i] by auto
    from u32_low_ones [OF this] 2 have v: "v = drop_bit (64 - n) (- 1) \<longleftrightarrow> (\<forall>i<n - 32. bit v i)" by simp
    show ?thesis
      using 2 v seen_bits_split [of n u v]
      by (auto simp: check_required_def uv d required_result_def array_read_def c_shr32_def u32_ones)
  next
    case 3
    then have "Suc (Suc 0) \<le> n div 32" using div_le_mono [of 64 n 32] by simp
    then obtain k where d: "n div 32 = Suc (Suc k)" by (metis Suc_le_D Suc_le_mono)
    show ?thesis
      using 3 seen_bits_split [of 64 u v]
      by (cases k) (auto simp: check_required_def uv d required_result_def array_read_def u32_ones)
  qed
qed

lemma check_required_marks:
  assumes mk: "marks flds seen P"
  shows "check_required (required_count flds) seen =
    required_result (required_count flds) (\<forall>p. required_at flds p \<longrightarrow> req_rank flds p < 64 \<longrightarrow> p \<in> P)"
proof -
  let ?n = "required_count flds"
  have rank: "req_rank flds p < ?n" if "required_at flds p" for p
    using rank_less [OF that, of "length flds - 1"] that by (simp add: required_count_rank)
  have inj: "p = q" if "required_at flds p" "required_at flds q" "req_rank flds p = req_rank flds q" for p q
    using rank_less [of p flds q] rank_less [of q flds p] that by (metis linorder_neq_iff)
  have bit: "seen_bit seen i \<longleftrightarrow> (\<exists>p\<in>P. required_at flds p \<and> req_rank flds p = i)" if "i < 64" for i
    using mk that by (simp add: marks_def)
  have "(\<forall>i<min ?n 64. seen_bit seen i) \<longleftrightarrow> (\<forall>p. required_at flds p \<longrightarrow> req_rank flds p < 64 \<longrightarrow> p \<in> P)"
  proof (intro iffI allI impI)
    fix p assume "\<forall>i<min ?n 64. seen_bit seen i" "required_at flds p" "req_rank flds p < 64"
    then show "p \<in> P" using bit [of "req_rank flds p"] rank [of p] inj by fastforce
  next
    fix i assume *: "\<forall>p. required_at flds p \<longrightarrow> req_rank flds p < 64 \<longrightarrow> p \<in> P" "i < min ?n 64"
    then obtain p where "required_at flds p" "req_rank flds p = i"
      using rank_onto [of "length flds - 1" flds i] by (auto simp: required_count_rank)
    then show "seen_bit seen i" using * bit [of i] by auto
  qed
  moreover have "seen_bit seen i \<Longrightarrow> i < 64 \<Longrightarrow> i < ?n" for i using bit rank by blast
  ultimately show ?thesis using check_required_bits [of seen ?n] mk by (simp add: marks_def)
qed

section \<open>Properties\<close>

text \<open>
  C3: once the loop over the input has ended well, \<open>pb_decode_noinit\<close> reports a missing field if one of the first 64
  required fields of the table has not been decoded, in whatever order and however often the iterator wrapped
  around. If they all have, it succeeds, except for a table with exactly 32 required fields, where the check shifts
  a 32-bit word by 32, and one with 64 or more, where it reads behind the two words of \<open>fields_seen\<close>: both are
  undefined in C, the result \<open>None\<close>.
\<close>
theorem pb_decode_checks_required:
  assumes "terminated flds"
    and loop: "decode_loop env (Suc d) (pb_decode_at env d) (bytes_left s) l s m = Some (True, s', m', l')"
    and l: "l = \<lparr>dl_iter = fst (pb_field_iter_begin flds dest), fields_seen = [0, 0], extension_range_start = 0\<rparr>"
  shows "pb_decode_noinit env (Suc d) s flds dest m =
    (if \<forall>p<length flds - 1. htype (flds ! p) = PB_HTYPE_REQUIRED \<longrightarrow> req_rank flds p < 64 \<longrightarrow>
          p \<in> set (loop_decoded env (Suc d) (pb_decode_at env d) (bytes_left s) l s m)
     then if required_count flds = 32 \<or> 64 \<le> required_count flds then None else Some (True, s', m')
     else is_error s' m' ''missing required field'')"
proof -
  have "on_walk flds dest (dl_iter l)" "marks flds (fields_seen l) {}"
    using assms(1) by (auto simp: l on_walk_begin marks_def seen_bit_def nth_Cons')
  with decode_loop_marks [OF loop, of flds dest "{}"]
  have l': "on_walk flds dest (dl_iter l')"
    "1 < length flds \<Longrightarrow> marks flds (fields_seen l') (set (loop_decoded env (Suc d) (pb_decode_at env d) (bytes_left s) l s m))"
    by auto
  show ?thesis
  proof (cases "1 < length flds")
    case True
    from check_required_marks [OF l'(2)] True loop l'(1) show ?thesis
      by (auto simp: pb_decode_noinit_def decode_message_def l [symmetric] req_field_count_correct required_result_def)
  next
    case False
    with loop l'(1) show ?thesis
      by (auto simp: pb_decode_noinit_def decode_message_def l [symmetric] req_field_count_correct
          required_count_rank req_rank_def check_required_def)
  qed
qed

definition required_fields :: "pb_field list" where
  "required_fields = [Pb_Field 7 (PB_HTYPE_REQUIRED OR PB_LTYPE_UVARINT) 0 0 4 0 Null, PB_LAST_FIELD]"

theorem pb_decode_checks_required_witness:
  "\<forall>(env :: byte list pb_dec_env) m. pb_decode_noinit env 1 (pb_istream_from_buffer [] 0) required_fields 100 m =
    Some (False, is_set_error (pb_istream_from_buffer [] 0) ''missing required field'', m)"
proof (intro allI)
  fix env :: "byte list pb_dec_env" and m
  let ?s = "pb_istream_from_buffer [] 0"
  have f: "terminated required_fields" "required_count required_fields = 1"
    "length required_fields = 2" "htype (required_fields ! 0) = PB_HTYPE_REQUIRED"
    by (simp_all add: terminated_def required_fields_def PB_LAST_FIELD_def required_count_def PB_HTYPE_def)
  have left: "bytes_left ?s = 0" by (simp add: pb_istream_from_buffer_def)
  have "\<exists>p. p < 1 \<and> htype (required_fields ! p) = PB_HTYPE_REQUIRED" using f by (intro exI [of _ 0]) simp
  then show "pb_decode_noinit env 1 ?s required_fields 100 m = Some (False, is_set_error ?s ''missing required field'', m)"
    using pb_decode_checks_required [OF f(1) _ refl, of env 0 ?s 100 m ?s m] f
    by (auto simp: left decode_loop.simps [of _ _ _ 0] is_error_def req_rank_def)
qed

end
