(* ===== verification/Pb_Decode_Static.thy ===== *)
theory Pb_Decode_Static
  imports Pb_Decode
begin

text \<open>
  Safety of the message decoder of \<open>nanopb/pb_decode.c\<close> for static tables: those whose fields are all
  stored in the struct itself. Every stream callback and every input is allowed for.
\<close>

section \<open>Streams only get shorter\<close>

text \<open>These facts hold for every callback, whatever it returns.\<close>

lemma left_error [simp]: "bytes_left (is_set_error s msg) = bytes_left s"
  by (simp add: is_set_error_def)

lemma readbyte_left:
  "pb_readbyte s = (r, s') \<Longrightarrow> bytes_left s' \<le> bytes_left s \<and> (r \<noteq> None \<longrightarrow> bytes_left s' < bytes_left s)"
  by (auto simp: pb_readbyte_def split: if_split_asm prod.split_asm)

lemma read_buf_left:
  "pb_read_buf s n = (r, s') \<Longrightarrow> bytes_left s' \<le> bytes_left s \<and> (r \<noteq> None \<longrightarrow> bytes_left s' + n = bytes_left s)"
  by (auto simp: pb_read_buf_def split: if_split_asm prod.split_asm)

lemma skip_chunks_left: "pb_skip_chunks s n = (r, s') \<Longrightarrow> bytes_left s' \<le> bytes_left s"
proof (induction s n rule: pb_skip_chunks.induct)
  case (1 s n)
  show ?case
  proof (cases "n > 16")
    case True
    obtain x s1 where b: "pb_read_buf s 16 = (x, s1)" by fastforce
    then show ?thesis using 1 True read_buf_left [OF b]
      by (cases x) (fastforce simp: pb_skip_chunks.simps [of s n])+
  next
    case False
    then show ?thesis using 1(2) read_buf_left by (fastforce simp: pb_skip_chunks.simps [of s n])
  qed
qed

lemma read_left:
  "pb_read s null n = (r, s') \<Longrightarrow> bytes_left s' \<le> bytes_left s \<and> (\<not> null \<and> r \<noteq> None \<longrightarrow> bytes_left s' + n = bytes_left s)"
  by (auto simp: pb_read_def dest: skip_chunks_left read_buf_left split: if_split_asm)

lemma varint_loop_left:
  fixes r :: "'w::len word"
  shows "varint_decode_loop s k r = (x, s') \<Longrightarrow> bytes_left s' \<le> bytes_left s \<and> (x \<noteq> None \<longrightarrow> bytes_left s' < bytes_left s)"
proof (induction s k r rule: varint_decode_loop.induct)
  case (1 s k r)
  obtain y s1 where b: "pb_readbyte s = (y, s1)" by fastforce
  show ?case
  proof (cases "k \<ge> LENGTH('w) \<or> y = None")
    case True
    then show ?thesis using 1(2) b readbyte_left [OF b] by (auto simp: varint_decode_loop.simps [of s k r] split: if_split_asm)
  next
    case False
    then obtain c where y: "y = Some c" by auto
    let ?r = "r OR push_bit k (ucast (c AND 0x7F))"
    show ?thesis
    proof (cases "c AND 0x80 \<noteq> 0")
      case True
      with 1(2) b y False have "varint_decode_loop s1 (k + 7) ?r = (x, s')"
        by (auto simp: varint_decode_loop.simps [of s k r] Let_def)
      from 1(1) [OF _ b [symmetric] y refl True this] readbyte_left [OF b] y False show ?thesis by force
    next
      case False
      with 1(2) b y \<open>\<not> (k \<ge> LENGTH('w) \<or> y = None)\<close> have "s' = s1"
        by (auto simp: varint_decode_loop.simps [of s k r] Let_def)
      then show ?thesis using readbyte_left [OF b] y by auto
    qed
  qed
qed

lemma varint32_left:
  "pb_decode_varint32 s = (x, s') \<Longrightarrow> bytes_left s' \<le> bytes_left s \<and> (x \<noteq> None \<longrightarrow> bytes_left s' < bytes_left s)"
  unfolding varint32_as_loop by (rule varint_loop_left)

lemma varint_left:
  "pb_decode_varint s = (x, s') \<Longrightarrow> bytes_left s' \<le> bytes_left s \<and> (x \<noteq> None \<longrightarrow> bytes_left s' < bytes_left s)"
  unfolding pb_decode_varint_def by (rule varint_loop_left)

lemma svarint_left:
  "pb_decode_svarint s = (x, s') \<Longrightarrow> bytes_left s' \<le> bytes_left s \<and> (x \<noteq> None \<longrightarrow> bytes_left s' < bytes_left s)"
  by (auto simp: pb_decode_svarint_def dest: varint_left split: prod.split_asm option.split_asm)

lemma fixed_left:
  "pb_decode_fixed32 s = (x, s') \<Longrightarrow> bytes_left s' \<le> bytes_left s \<and> (x \<noteq> None \<longrightarrow> bytes_left s' < bytes_left s)"
  "pb_decode_fixed64 s = (y, s') \<Longrightarrow> bytes_left s' \<le> bytes_left s \<and> (y \<noteq> None \<longrightarrow> bytes_left s' < bytes_left s)"
  by (auto simp: pb_decode_fixed32_def pb_decode_fixed64_def dest!: read_left split: prod.split_asm option.split_asm)

lemma skip_varint_left: "pb_skip_varint s = (r, s') \<Longrightarrow> bytes_left s' \<le> bytes_left s"
proof (induction s rule: pb_skip_varint.induct)
  case (1 s)
  obtain x s1 where b: "pb_read s False 1 = (x, s1)" by fastforce
  then show ?case using 1 read_left [OF b]
    by (cases x) (fastforce simp: pb_skip_varint.simps [of s] split: if_split_asm)+
qed

lemma skip_field_left: "pb_skip_field s wt = (r, s') \<Longrightarrow> bytes_left s' \<le> bytes_left s"
  by (auto simp: pb_skip_field_def pb_skip_string_def dest!: skip_varint_left read_left varint32_left
      split: if_split_asm prod.split_asm option.split_asm)

lemma tag_left:
  "pb_decode_tag s = (r, s') \<Longrightarrow> bytes_left s' \<le> bytes_left s \<and> (tag_ok r \<longrightarrow> bytes_left s' < bytes_left s)"
  by (auto simp: pb_decode_tag_def dest!: varint32_left split: prod.split_asm option.split_asm if_split_asm)

lemma substream_left:
  "pb_make_string_substream s = (sub, s') \<Longrightarrow> bytes_left s' \<le> bytes_left s"
  by (auto simp: pb_make_string_substream_def dest!: varint32_left split: prod.split_asm option.split_asm if_split_asm)

lemma close_left: "pb_close_string_substream s sub = (ok, s') \<Longrightarrow> bytes_left s' = bytes_left s"
  by (auto simp: pb_close_string_substream_def split: prod.split_asm option.split_asm if_split_asm)

section \<open>Writes stay in the struct\<close>

definition keeps_outside :: "nat \<Rightarrow> nat \<Rightarrow> mem \<Rightarrow> mem \<Rightarrow> bool" where
  "keeps_outside a n m m' \<longleftrightarrow> (\<forall>x. x < a \<or> a + n \<le> x \<longrightarrow> m' x = m x)"

lemma keeps_refl [simp]: "keeps_outside a n m m"
  by (simp add: keeps_outside_def)

lemma keeps_trans: "keeps_outside a n m m1 \<Longrightarrow> keeps_outside a n m1 m2 \<Longrightarrow> keeps_outside a n m m2"
  by (simp add: keeps_outside_def)

lemma keeps_mono: "keeps_outside b k m m' \<Longrightarrow> a \<le> b \<Longrightarrow> b + k \<le> a + n \<Longrightarrow> keeps_outside a n m m'"
  by (auto simp: keeps_outside_def)

lemma keeps_wr: "a \<le> p \<Longrightarrow> p + length bs \<le> a + n \<Longrightarrow> keeps_outside a n m (wr m p bs)"
  by (auto simp: keeps_outside_def wr_def)

lemma keeps_wr_word: "a \<le> p \<Longrightarrow> p + LENGTH('w) div 8 \<le> a + n \<Longrightarrow> keeps_outside a n m (wr_word m p (w :: 'w::len word))"
  by (simp add: wr_word_def keeps_wr)

lemma keeps_wr_after: "keeps_outside a n m m1 \<Longrightarrow> a \<le> p \<Longrightarrow> p + length bs \<le> a + n \<Longrightarrow> keeps_outside a n m (wr m1 p bs)"
  by (erule keeps_trans) (rule keeps_wr)

text \<open>What every decoding step does: it returns, takes bytes off the stream and writes only into a region.\<close>

definition stays :: "nat \<Rightarrow> nat \<Rightarrow> 's pb_istream \<Rightarrow> mem \<Rightarrow> 's dec_result \<Rightarrow> bool" where
  "stays a n s m r \<longleftrightarrow>
     (\<exists>ok s' m'. r = Some (ok, s', m') \<and> bytes_left s' \<le> bytes_left s \<and> keeps_outside a n m m')"

definition advances :: "'s pb_istream \<Rightarrow> 's dec_result \<Rightarrow> bool" where
  "advances s r \<longleftrightarrow> (\<forall>s' m'. r = Some (True, s', m') \<longrightarrow> bytes_left s' < bytes_left s)"

lemma staysI: "bytes_left s' \<le> bytes_left s \<Longrightarrow> keeps_outside a n m m' \<Longrightarrow> stays a n s m (Some (ok, s', m'))"
  by (auto simp: stays_def)

lemma stays_error: "bytes_left s' \<le> bytes_left s \<Longrightarrow> keeps_outside a n m m' \<Longrightarrow> stays a n s m (is_error s' m' msg)"
  by (auto simp: stays_def is_error_def)

lemma read_into_stays:
  assumes "pb_read_into s m p k = (ok, s', m')" and "a \<le> p" and "p + k \<le> a + n"
  shows "bytes_left s' \<le> bytes_left s" "keeps_outside a n m m'"
proof -
  have len: "p + length (take k bs) \<le> a + n" for bs :: "byte list" using assms(3) by simp
  show "bytes_left s' \<le> bytes_left s" "keeps_outside a n m m'"
    using assms(1,2) keeps_wr [OF assms(2) len]
    by (auto simp: pb_read_into_def Let_def split: if_split_asm prod.split_asm)
qed

lemma store_stays:
  assumes "store_signed m p k v = Some (m', c) \<or> store_unsigned m p k v = Some (m', c)"
  shows "keeps_outside p (unat k) m m'"
  using assms by (auto simp: store_signed_def store_unsigned_def intro!: keeps_wr_word split: if_split_asm)

lemma store_checked_stays:
  assumes "\<And>m' c. r = Some (m', c) \<Longrightarrow> keeps_outside p n m m'" and "bytes_left s' \<le> bytes_left s"
  shows "stays p n s m (store_checked r s' m v)"
  using assms by (auto simp: store_checked_def intro!: stays_error staysI split: option.split)

lemma store_checked_advances: "bytes_left s' < bytes_left s \<Longrightarrow> advances s (store_checked r s' m v)"
  by (auto simp: advances_def store_checked_def is_error_def split: option.split_asm if_split_asm)

section \<open>Static tables\<close>

text \<open>
  A static field of a struct of \<open>size'\<close> bytes at \<open>a\<close>: its data and its size field lie in the struct, and
  its data is as large as its type needs.
\<close>

definition static_field :: "(nat \<Rightarrow> pb_field list \<Rightarrow> bool) \<Rightarrow> nat \<Rightarrow> nat \<Rightarrow> pb_field_iter \<Rightarrow> bool" where
  "static_field sub a size' it \<longleftrightarrow>
     (let f = pos_field it; n = unat (data_size f) in
      atype f = PB_ATYPE_STATIC \<and> ltype f \<le> 9 \<and> ltype f \<noteq> PB_LTYPE_EXTENSION
      \<and> a \<le> pData it \<and> pData it + n * (if htype f = PB_HTYPE_REPEATED then unat (array_size f) else 1) \<le> a + size'
      \<and> (htype f = PB_HTYPE_OPTIONAL \<and> pSize it \<noteq> pData it \<longrightarrow> a \<le> pSize it \<and> pSize it + 1 \<le> a + size')
      \<and> (htype f = PB_HTYPE_REPEATED \<or> htype f = PB_HTYPE_ONEOF \<longrightarrow> a \<le> pSize it \<and> pSize it + 4 \<le> a + size')
      \<and> (ltype f = PB_LTYPE_FIXED32 \<longrightarrow> 4 \<le> n) \<and> (ltype f = PB_LTYPE_FIXED64 \<longrightarrow> 8 \<le> n)
      \<and> (case ptr f of
           Null \<Rightarrow> ltype f \<noteq> PB_LTYPE_SUBMESSAGE
         | Submsg_fields flds \<Rightarrow> ltype f = PB_LTYPE_SUBMESSAGE \<and> sub n flds
         | Default_value bs \<Rightarrow> ltype f \<noteq> PB_LTYPE_SUBMESSAGE \<and> n \<le> length bs))"

text \<open>
  A table of static fields for a struct of \<open>size'\<close> bytes, with fewer than 64 required fields and not 32 of
  them, whose submessages satisfy \<open>sub\<close>; and such tables nested at most \<open>d\<close> deep.
\<close>

definition static_over :: "(nat \<Rightarrow> pb_field list \<Rightarrow> bool) \<Rightarrow> nat \<Rightarrow> pb_field list \<Rightarrow> bool" where
  "static_over sub size' flds \<longleftrightarrow>
     terminated flds \<and> last flds = PB_LAST_FIELD
     \<and> required_count flds < 64 \<and> required_count flds \<noteq> 32
     \<and> (\<forall>a. \<forall>it\<in>set (iter_walk flds a). static_field sub a size' it)"

fun static_table :: "nat \<Rightarrow> nat \<Rightarrow> pb_field list \<Rightarrow> bool" where
  "static_table 0 size' flds \<longleftrightarrow> False"
| "static_table (Suc d) size' flds \<longleftrightarrow> static_over (static_table d) size' flds"

lemma advances_error [simp]: "advances s (is_error s' m' msg)" "advances s (Some (False, s', m'))"
  by (simp_all add: advances_def is_error_def)

lemma advancesI: "bytes_left s' < bytes_left s \<Longrightarrow> advances s (Some (ok, s', m'))"
  by (simp add: advances_def)

lemma store_checked_stored:
  assumes "bytes_left s' \<le> bytes_left s" and "n = unat k"
  shows "stays p n s m (store_checked (store_signed m p k v) s' m v)"
    "stays p n s m (store_checked (store_unsigned m p k v) s' m v)"
  using assms(1) unfolding assms(2) by (blast intro: store_checked_stays store_stays)+

lemma pb_dec_integer_stays:
  "stays p (unat (data_size f)) s m (pb_dec_varint s f p m)" "advances s (pb_dec_varint s f p m)"
  "stays p (unat (data_size f)) s m (pb_dec_uvarint s f p m)" "advances s (pb_dec_uvarint s f p m)"
  "stays p (unat (data_size f)) s m (pb_dec_svarint s f p m)" "advances s (pb_dec_svarint s f p m)"
  by (auto simp: pb_dec_varint_def pb_dec_uvarint_def pb_dec_svarint_def Let_def dest!: varint_left svarint_left
      intro!: staysI store_checked_stored store_checked_advances split: prod.split option.split)

lemma pb_dec_fixed_stays:
  "4 \<le> n \<Longrightarrow> stays p n s m (pb_dec_fixed32 s f p m)" "advances s (pb_dec_fixed32 s f p m)"
  "8 \<le> n \<Longrightarrow> stays p n s m (pb_dec_fixed64 s f p m)" "advances s (pb_dec_fixed64 s f p m)"
  by (auto simp: pb_dec_fixed32_def pb_dec_fixed64_def dest!: fixed_left
      intro!: staysI advancesI keeps_wr_word split: prod.split option.split)

lemma pb_dec_bytes_stays: "stays p (unat (data_size f)) s m (pb_dec_bytes s f p m)"
proof -
  have alloc: "PB_BYTES_ARRAY_T_ALLOCSIZE (unat w) = unat w + 4" for w :: u32
    using unat_u32_less [of w] by (simp add: PB_BYTES_ARRAY_T_ALLOCSIZE_def SIZE_MODULUS_def)
  have "stays p (unat (data_size f)) s m (Some (pb_read_into s' (wr_word m p n) (p + 4) (unat n)))"
    if "unat n + 4 \<le> unat (data_size f)" "bytes_left s' \<le> bytes_left s" for s' and n :: u32
  proof (cases "pb_read_into s' (wr_word m p n) (p + 4) (unat n)")
    case (fields ok s'' m')
    from read_into_stays [OF this, of p "unat (data_size f)"] that
    have "bytes_left s'' \<le> bytes_left s" "keeps_outside p (unat (data_size f)) (wr_word m p n) m'" by auto
    moreover have "keeps_outside p (unat (data_size f)) m (wr_word m p n)" using that by (intro keeps_wr_word) auto
    ultimately show ?thesis using fields by (auto intro: staysI keeps_trans)
  qed
  then show ?thesis
    by (auto simp: pb_dec_bytes_def alloc Let_def dest!: varint32_left intro!: staysI stays_error
        split: prod.split option.split)
qed

lemma pb_dec_string_stays: "stays p (unat (data_size f)) s m (pb_dec_string s f p m)"
proof -
  have "stays p (unat (data_size f)) s m (Some (ok, s'', wr m' (p + unat n) [0]))"
    if read: "pb_read_into s' m p (unat n) = (ok, s'', m')"
      and n1: "\<not> n + 1 < n" "\<not> data_size f < n + 1" and left: "bytes_left s' < bytes_left s"
    for s' s'' :: "'a pb_istream" and n :: u32 and ok m'
  proof -
    have "unat (n + 1) = Suc (unat n)" using n1(1) unatSuc [of n]
      by (cases "1 + n = 0") (auto simp: add.commute word_neq_0_conv [symmetric])
    then have n: "unat n < unat (data_size f)" using n1(2) by (simp add: word_less_nat_alt)
    from read_into_stays [OF read, of p "unat (data_size f)"] n left
    have "bytes_left s'' \<le> bytes_left s" "keeps_outside p (unat (data_size f)) m m'" by auto
    then show ?thesis using n by (auto intro!: staysI keeps_wr_after)
  qed
  note read = this
  show ?thesis
    by (auto simp: pb_dec_string_def Let_def dest!: varint32_left intro!: stays_error read split: prod.split option.split)
      (auto intro: staysI)
qed

lemma pb_dec_fixed_length_bytes_stays: "stays p (unat (data_size f)) s m (pb_dec_fixed_length_bytes s f p m)"
proof -
  have "stays p (unat (data_size f)) s m (Some (pb_read_into s' m p (unat (data_size f))))"
    if "bytes_left s' \<le> bytes_left s" for s'
  proof (cases "pb_read_into s' m p (unat (data_size f))")
    case (fields ok s'' m')
    from read_into_stays [OF this, of p "unat (data_size f)"] that show ?thesis
      unfolding fields by (intro staysI) auto
  qed
  then show ?thesis
    by (auto simp: pb_dec_fixed_length_bytes_def Let_def dest!: varint32_left intro!: staysI stays_error keeps_wr
        split: prod.split option.split)
qed

lemma close_with_stays:
  assumes "stays p n sub m r" and "bytes_left s' \<le> bytes_left s"
  shows "stays p n s m (close_with s' r)"
  using assms by (auto simp: close_with_def stays_def dest!: close_left split: prod.split)

lemma pb_dec_submessage_stays:
  assumes "ptr f = Submsg_fields flds" and "\<And>b s m. stays p n s m (sub b flds p s m)"
  shows "stays p n s m (pb_dec_submessage sub s f p m)"
  using assms(2) close_with_stays
  by (fastforce simp: pb_dec_submessage_def assms(1) dest: substream_left intro: staysI split: prod.split option.split)

lemma value_stays:
  assumes lt: "ltype f \<le> 9" "ltype f \<noteq> PB_LTYPE_EXTENSION"
    and fixed: "ltype f = PB_LTYPE_FIXED32 \<longrightarrow> 4 \<le> unat (data_size f)"
      "ltype f = PB_LTYPE_FIXED64 \<longrightarrow> 8 \<le> unat (data_size f)"
    and sub: "ltype f = PB_LTYPE_SUBMESSAGE \<Longrightarrow> \<exists>flds. ptr f = Submsg_fields flds
      \<and> (\<forall>b s m. stays p (unat (data_size f)) s m (sub b flds p s m))"
  shows "stays p (unat (data_size f)) s m (PB_DECODERS sub (ltype f) s f p m)"
  using lt
proof (cases rule: ltype_cases)
  case 8
  then show ?thesis using sub pb_dec_submessage_stays by (fastforce simp: PB_DECODERS_def)
qed (use fixed in \<open>simp_all add: PB_DECODERS_def pb_dec_integer_stays pb_dec_fixed_stays pb_dec_bytes_stays
    pb_dec_string_stays pb_dec_fixed_length_bytes_stays\<close>)

lemma value_advances:
  assumes "ltype f \<le> PB_LTYPE_LAST_PACKABLE"
  shows "advances s (PB_DECODERS sub (ltype f) s f p m)"
proof -
  have "ltype f \<le> 9" "ltype f \<noteq> PB_LTYPE_EXTENSION" using assms by (simp_all add: word_le_nat_alt) (auto)
  then show ?thesis
    using assms by (cases rule: ltype_cases) (simp_all add: PB_DECODERS_def pb_dec_integer_stays pb_dec_fixed_stays)
qed

text \<open>The loop over a packed array ends within its bound, and writes items of the array only.\<close>

lemma item_addr_bound:
  fixes it defines "f \<equiv> pos_field it"
  assumes "c < array_size f"
  shows "pData it \<le> item_addr it c" "item_addr it c + unat (data_size f) \<le> pData it + unat (data_size f) * unat (array_size f)"
proof -
  have "unat (data_size f * c) \<le> unat (data_size f) * unat c" by (simp add: unat_word_ariths)
  moreover have "unat (data_size f) * Suc (unat c) \<le> unat (data_size f) * unat (array_size f)"
    using assms(2) by (intro mult_le_mono2) (simp add: word_less_nat_alt)
  ultimately show "pData it \<le> item_addr it c" "item_addr it c + unat (data_size f) \<le> pData it + unat (data_size f) * unat (array_size f)"
    by (simp_all add: item_addr_def f_def)
qed

lemma stays_mono: "stays p k s m r \<Longrightarrow> a \<le> p \<Longrightarrow> p + k \<le> a + n \<Longrightarrow> stays a n s m r"
  by (auto simp: stays_def intro: keeps_mono)

lemma stays_after:
  "keeps_outside a n m m1 \<Longrightarrow> bytes_left s1 \<le> bytes_left s \<Longrightarrow> stays a n s1 m1 r \<Longrightarrow> stays a n s m r"
  by (fastforce simp: stays_def intro: keeps_trans)

lemma stays_Some: "stays a n s m (Some (ok, s', m')) \<Longrightarrow> bytes_left s' \<le> bytes_left s \<and> keeps_outside a n m m'"
  by (simp add: stays_def)

lemma packed_loop_stays:
  fixes it defines "f \<equiv> pos_field it"
  assumes func: "\<And>s p m. stays p (unat (data_size f)) s m (func s f p m)" "\<And>s p m. advances s (func s f p m)"
    and data: "a \<le> pData it" "pData it + unat (data_size f) * unat (array_size f) \<le> a + n"
    and size: "a \<le> pSize it" "pSize it + 4 \<le> a + n"
  shows "bytes_left s \<le> k \<Longrightarrow> stays a n s m (packed_loop func it k s m)"
proof (induction k arbitrary: s m)
  case 0
  then show ?case by (simp add: packed_loop.simps Let_def staysI)
next
  case (Suc k)
  let ?c = "rd_word m (pSize it) :: u32"
  show ?case
  proof (cases "0 < bytes_left s \<and> ?c < array_size f")
    case True
    have st: "stays a n s m (func s f (item_addr it ?c) m)"
      using item_addr_bound [of ?c it] True data unfolding f_def [symmetric]
      by (intro stays_mono [OF func(1)]) auto
    then obtain ok s' m' where r: "func s f (item_addr it ?c) m = Some (ok, s', m')" by (auto simp: stays_def)
    let ?m = "wr_word m' (pSize it) ((rd_word m' (pSize it) :: u32) + 1)"
    have k: "bytes_left s' \<le> bytes_left s" "keeps_outside a n m m'" using st by (auto simp: r stays_def)
    show ?thesis
    proof (cases ok)
      case True
      have "bytes_left s' \<le> k" using func(2) [of s "item_addr it ?c" m] r True Suc.prems by (auto simp: advances_def)
      then have "stays a n s' ?m (packed_loop func it k s' ?m)" by (rule Suc.IH)
      moreover have "keeps_outside a n m ?m" using k(2) size by (auto intro: keeps_trans [OF _ keeps_wr_word])
      ultimately show ?thesis using k(1) True r \<open>0 < bytes_left s \<and> ?c < array_size f\<close>
        by (simp add: packed_loop.simps [of _ _ "Suc k"] f_def) (blast intro: stays_after)
    next
      case False
      then show ?thesis using k r \<open>0 < bytes_left s \<and> ?c < array_size f\<close>
        by (simp add: packed_loop.simps [of _ _ "Suc k"] f_def staysI)
    qed
  next
    case False
    then show ?thesis by (auto simp: packed_loop.simps [of _ _ "Suc k"] Let_def f_def intro: staysI)
  qed
qed

section \<open>Defaults stay in the struct\<close>

definition sets :: "nat \<Rightarrow> nat \<Rightarrow> mem \<Rightarrow> mem option \<Rightarrow> bool" where
  "sets a n m r \<longleftrightarrow> (\<exists>m'. r = Some m' \<and> keeps_outside a n m m')"

lemma sets_after: "keeps_outside a n m m1 \<Longrightarrow> sets a n m1 r \<Longrightarrow> sets a n m r"
  by (fastforce simp: sets_def intro: keeps_trans)

lemma sets_mono: "sets p k m r \<Longrightarrow> a \<le> p \<Longrightarrow> p + k \<le> a + n \<Longrightarrow> sets a n m r"
  by (auto simp: sets_def intro: keeps_mono)

lemma set_iters_sets: "(\<And>it m. it \<in> set its \<Longrightarrow> sets a n m (g it m)) \<Longrightarrow> sets a n m (set_iters g its m)"
proof (induction its arbitrary: m)
  case Nil
  then show ?case by (simp add: sets_def)
next
  case (Cons it its)
  from Cons.prems obtain m1 where "g it m = Some m1" "keeps_outside a n m m1" by (fastforce simp: sets_def)
  with Cons show ?case by (auto intro: sets_after)
qed

lemma field_default_sets:
  assumes it: "static_field sub a n it" and msg: "\<And>p k flds m. sub k flds \<Longrightarrow> sets p k m (msg flds p m)"
  shows "sets a n m (field_set_to_default msg exts it m)"
proof -
  define f where "f = pos_field it"
  define single where "single \<longleftrightarrow> \<not> (htype f = PB_HTYPE_REPEATED \<or> htype f = PB_HTYPE_ONEOF)"
  define m1 where "m1 = (if htype f = PB_HTYPE_OPTIONAL \<and> pSize it \<noteq> pData it then wr m (pSize it) [0] else m)"
  note st = it [unfolded static_field_def Let_def f_def [symmetric]]
  show ?thesis
  proof (cases single)
    case True
    have m1: "keeps_outside a n m m1" using st by (auto simp: m1_def intro!: keeps_wr)
    have data: "a \<le> pData it" "pData it + unat (data_size f) \<le> a + n" using st True by (auto simp: single_def)
    have "sets a n m1 (field_set_to_default msg exts it m)"
    proof (cases "ptr f")
      case Null
      then show ?thesis using st True data
        by (simp add: field_set_to_default_def Let_def f_def [symmetric] single_def m1_def [symmetric] sets_def keeps_wr)
    next
      case (Submsg_fields flds)
      have "sets a n m1 (msg flds (pData it) m1)"
        using st Submsg_fields by (intro sets_mono [OF msg data]) auto
      with Submsg_fields st True show ?thesis
        by (simp add: field_set_to_default_def Let_def f_def [symmetric] single_def m1_def [symmetric])
    next
      case (Default_value bs)
      then show ?thesis using st True data
        by (auto simp: field_set_to_default_def Let_def f_def [symmetric] single_def m1_def [symmetric] sets_def keeps_wr)
    qed
    then show ?thesis using m1 by (rule sets_after [rotated])
  next
    case False
    then have "field_set_to_default msg exts it m = Some (wr_word m (pSize it) (0 :: u32))"
      using st by (auto simp: field_set_to_default_def Let_def f_def [symmetric] single_def)
    then show ?thesis using st False by (auto simp: sets_def single_def intro!: keeps_wr_word)
  qed
qed

lemma defaults_sets:
  "static_table d n flds \<Longrightarrow> d \<le> e \<Longrightarrow> sets a n m (pb_message_set_to_defaults env e flds a m)"
proof (induction d arbitrary: n flds a m e)
  case (Suc d)
  from Suc.prems(2) obtain e' where e: "e = Suc e'" "d \<le> e'" by (cases e) auto
  have it: "static_field (static_table d) a n it" if "it \<in> set (iter_walk flds a)" for it
    using Suc.prems(1) that by (simp add: static_over_def)
  have "sets a n m (pb_field_set_to_default env e' it m)" if "it \<in> set (iter_walk flds a)" for it m
  proof (cases e')
    case 0
    show ?thesis unfolding 0 pb_field_set_to_default.simps
      using e(2) 0 by (intro field_default_sets [OF it [OF that]]) simp
  next
    case (Suc k)
    show ?thesis unfolding Suc pb_field_set_to_default.simps
      using e(2) Suc by (intro field_default_sets [OF it [OF that]] Suc.IH) auto
  qed
  then show ?case by (auto simp: e intro: set_iters_sets)
qed simp

section \<open>Static messages\<close>

lemma static_walk:
  assumes "static_over T n flds" and "on_walk flds a it" and "1 < length flds"
  shows "static_field T a n it"
  using on_walk_in_walk [OF assms(2,3)] assms(1) by (simp add: static_over_def)

lemma table_no_extension:
  assumes "static_over T n flds" and "f \<in> set (butlast flds)"
  shows "ltype f \<noteq> PB_LTYPE_EXTENSION"
proof -
  have t: "terminated flds" using assms(1) by (simp add: static_over_def)
  from assms(2) obtain i where i: "i < length flds - 1" "f = flds ! i" by (auto simp: in_set_conv_nth nth_butlast)
  then have "i \<in> set (map pos (iter_walk flds 0))" by (simp add: iter_walk_pos(1) [OF t])
  then obtain it where it: "it \<in> set (iter_walk flds 0)" "pos it = i" by auto
  then show ?thesis using assms(1) iter_walk_pos(2) [OF t it(1)] i(2)
    by (auto simp: static_over_def static_field_def Let_def)
qed

lemma tag_number_small: "pb_decode_tag s = (r, s') \<Longrightarrow> tag_ok r \<Longrightarrow> tag_number r < - 1"
proof -
  have "drop_bit 3 w < - 1" for w :: u32
    using unat_u32_less [of w] by (simp add: word_less_nat_alt unat_drop_bit_eq drop_bit_eq_div unsigned_minus_1_eq_mask mask_eq_exp_minus_1 unat_div)
  then show "pb_decode_tag s = (r, s') \<Longrightarrow> tag_ok r \<Longrightarrow> tag_number r < - 1"
    by (auto simp: pb_decode_tag_def split: prod.split_asm option.split_asm if_split_asm)
qed

text \<open>What the locals of the loop keep.\<close>

definition locals_ok :: "pb_field list \<Rightarrow> nat \<Rightarrow> dec_locals \<Rightarrow> bool" where
  "locals_ok flds a l \<longleftrightarrow> on_walk flds a (dl_iter l) \<and> length (fields_seen l) = 2"

lemma no_extension_found:
  assumes t: "static_over T n flds" and w: "on_walk flds a it"
  shows "\<exists>it'. find_extension_field it = Some (it', False) \<and> on_walk flds a it'"
proof -
  have "start it = flds" using w by (simp add: on_walk_def)
  with find_loop_defined [OF w, of "\<lambda>f. ltype f = PB_LTYPE_EXTENSION"] obtain it' b where
    f: "find_extension_field it = Some (it', b)" "on_walk flds a it'" "b \<longrightarrow> ltype (pos_field it') = PB_LTYPE_EXTENSION"
    unfolding find_extension_field_def by (metis (full_types))
  have "pos_field it' = last flds \<or> pos_field it' \<in> set (butlast flds)"
    using f(2) by (auto simp: on_walk_def iter_ok_def terminated_def last_conv_nth nth_butlast in_set_conv_nth)
  then have "\<not> b" using f(3) table_no_extension [OF t] t by (auto simp: static_over_def PB_LAST_FIELD_def PB_LTYPE_def)
  with f show ?thesis by auto
qed

lemma decode_unknown_stays:
  assumes t: "static_over T n flds" and l: "locals_ok flds a l" and small: "t < - 1"
  shows "\<exists>ok s' l'. decode_unknown env e sub t wt l s m = Some (ok, s', m, l') \<and> bytes_left s' \<le> bytes_left s \<and> locals_ok flds a l'"
proof -
  obtain ok s' where sk: "pb_skip_field s wt = (ok, s')" by fastforce
  obtain it where "find_extension_field (dl_iter l) = Some (it, False)" "on_walk flds a it"
    using no_extension_found [OF t] l by (auto simp: locals_ok_def)
  then show ?thesis using sk skip_field_left [OF sk] small l
    by (cases "t < extension_range_start l") (simp_all add: decode_unknown_def Let_def locals_ok_def)
qed

text \<open>
  What a message needs of the decoding of its submessages: the tables that satisfy \<open>T\<close> for a struct of
  some size are decoded into that struct only, and their defaults are set there only.
\<close>

locale submessage_decoder =
  fixes T :: "nat \<Rightarrow> pb_field list \<Rightarrow> bool" and env :: "'s pb_dec_env" and d :: nat and sub :: "'s decoder"
  assumes sub_stays: "T k flds \<Longrightarrow> stays p k s m (sub init flds p s m)"
    and sub_defaults: "T k flds \<Longrightarrow> sets p k m (pb_message_set_to_defaults env d flds p m)"
begin

lemma static_value_stays:
  assumes "static_field T a n it" and "pos_field it = f"
  shows "stays p (unat (data_size f)) s m (PB_DECODERS sub (ltype f) s f p m)"
  using assms sub_stays by (intro value_stays) (auto simp: static_field_def Let_def split: pb_ptr.splits)

lemma static_data_stays:
  assumes "static_field T a n it" and "pos_field it = f" and "htype f \<noteq> PB_HTYPE_REPEATED"
  shows "stays a n s m (PB_DECODERS sub (ltype f) s f (pData it) m)"
  using assms(1,3) by (intro stays_mono [OF static_value_stays [OF assms(1,2)]]) (auto simp: static_field_def Let_def assms(2))

lemma repeated_stays:
  assumes it: "static_field T a n it" and rep: "htype (pos_field it) = PB_HTYPE_REPEATED"
  shows "stays a n s m (decode_static_field env d sub s wt it m)"
proof -
  define f where "f = pos_field it"
  let ?c = "rd_word m (pSize it) :: u32" and ?func = "PB_DECODERS sub (ltype f)"
  note st = it [unfolded static_field_def Let_def f_def [symmetric]] and val = static_value_stays [OF it f_def [symmetric]]
  have size: "a \<le> pSize it" "pSize it + 4 \<le> a + n"
    and arr: "a \<le> pData it" "pData it + unat (data_size f) * unat (array_size f) \<le> a + n" using st rep by (auto simp: f_def)
  have packed: "stays a n substream m (packed_loop ?func it (bytes_left substream) substream m)"
    if "ltype f \<le> PB_LTYPE_LAST_PACKABLE" for substream
    using val value_advances [OF that] arr size unfolding f_def by (intro packed_loop_stays) auto
  have one: "stays a n s m (?func s f (item_addr it ?c) (wr_word m (pSize it) (?c + 1)))" if "?c < array_size f"
  proof (rule stays_after [OF _ order_refl])
    show "keeps_outside a n m (wr_word m (pSize it) (?c + 1))" using size by (intro keeps_wr_word) auto
    show "stays a n s (wr_word m (pSize it) (?c + 1)) (?func s f (item_addr it ?c) (wr_word m (pSize it) (?c + 1)))"
      using item_addr_bound [of ?c it] that arr unfolding f_def [symmetric] by (intro stays_mono [OF val]) auto
  qed
  note eval = decode_static_field_def Let_def f_def [symmetric] rep [folded f_def]
  show ?thesis
  proof (cases "wt = PB_WT_STRING \<and> ltype f \<le> PB_LTYPE_LAST_PACKABLE")
    case True
    obtain x s' where x: "pb_make_string_substream s = (x, s')" by fastforce
    note left = substream_left [OF this]
    show ?thesis
    proof (cases x)
      case None
      then show ?thesis using True x left by (simp add: eval staysI)
    next
      case (Some substream)
      obtain ok sub' m' where l: "packed_loop ?func it (bytes_left substream) substream m = Some (ok, sub', m')"
        using packed [of substream] True by (auto simp: stays_def)
      have "stays a n s m (is_error s' m' ''array overflow'')" "stays a n s m (close_with s' (Some (ok, sub', m')))"
        using packed [of substream] True left unfolding l by (auto intro: close_with_stays intro!: stays_error simp: stays_Some)
      then show ?thesis using True x Some l by (simp add: eval)
    qed
  next
    case False
    then show ?thesis using one by (auto simp: eval intro!: stays_error)
  qed
qed

lemma oneof_stays:
  assumes it: "static_field T a n it" and one: "htype (pos_field it) = PB_HTYPE_ONEOF"
  shows "stays a n s m (decode_static_field env d sub s wt it m)"
proof -
  define f where "f = pos_field it"
  let ?m = "wr_word m (pSize it) (tag f)"
  note st = it [unfolded static_field_def Let_def f_def [symmetric]]
  have m: "keeps_outside a n m ?m" using st one by (intro keeps_wr_word) (auto simp: f_def)
  have data: "stays a n s m (PB_DECODERS sub (ltype f) s f (pData it) m)" for s m
    using static_data_stays [OF it] one by (simp add: f_def)
  note eval = decode_static_field_def Let_def f_def [symmetric] one [folded f_def]
  show ?thesis
  proof (cases "ltype f = PB_LTYPE_SUBMESSAGE")
    case True
    let ?z = "wr ?m (pData it) (replicate (unat (data_size f)) 0)"
    obtain flds where flds: "ptr f = Submsg_fields flds" "T (unat (data_size f)) flds" using st True by (auto split: pb_ptr.splits)
    have arr: "a \<le> pData it" "pData it + unat (data_size f) \<le> a + n" using st one by (auto simp: f_def)
    have "sets a n ?z (pb_message_set_to_defaults env d flds (pData it) ?z)"
      by (rule sets_mono [OF sub_defaults [OF flds(2)] arr])
    then obtain m' where m': "pb_message_set_to_defaults env d flds (pData it) ?z = Some m'" "keeps_outside a n ?z m'"
      by (auto simp: sets_def)
    have "keeps_outside a n ?m ?z" using arr by (intro keeps_wr) auto
    with m m'(2) have "keeps_outside a n m m'" by (blast intro: keeps_trans)
    from stays_after [OF this order_refl data] True flds m' show ?thesis by (simp add: eval)
  next
    case False
    then show ?thesis using stays_after [OF m order_refl data] by (simp add: eval)
  qed
qed

lemma decode_static_field_stays:
  assumes it: "static_field T a n it"
  shows "stays a n s m (decode_static_field env d sub s wt it m)"
proof -
  define f where "f = pos_field it"
  note data = static_data_stays [OF it f_def [symmetric]]
  consider "htype f = PB_HTYPE_REQUIRED" | "htype f = PB_HTYPE_OPTIONAL" | "htype f = PB_HTYPE_REPEATED"
    | "htype f = PB_HTYPE_ONEOF" by (rule htype_cases)
  then show ?thesis
  proof cases
    case 1
    then show ?thesis using data by (simp add: decode_static_field_def Let_def f_def [symmetric])
  next
    case 2
    then have "keeps_outside a n m (if pSize it \<noteq> pData it then wr m (pSize it) [1] else m)"
      using it by (auto simp: static_field_def Let_def f_def intro!: keeps_wr)
    from stays_after [OF this order_refl data] 2 show ?thesis
      by (simp add: decode_static_field_def Let_def f_def [symmetric])
  next
    case 3
    then show ?thesis using repeated_stays [OF it] by (simp add: f_def)
  next
    case 4
    then show ?thesis using oneof_stays [OF it] by (simp add: f_def)
  qed
qed

lemma decode_field_stays:
  assumes t: "static_over T n flds" and w: "on_walk flds a it"
  shows "stays a n s m (decode_field env d sub s wt it m)"
proof (cases "1 < length flds")
  case True
  note st = static_walk [OF t w True]
  then have "atype (pos_field it) = PB_ATYPE_STATIC" by (simp add: static_field_def Let_def)
  then show ?thesis
    using decode_static_field_stays [OF st] by (simp add: decode_field_def)
next
  case False
  then have f: "pos_field it = PB_LAST_FIELD"
    using w t by (auto simp: static_over_def on_walk_def iter_ok_def terminated_def last_conv_nth)
  have "stays a 0 s m (decode_field env d sub s wt it m)"
    unfolding decode_field_def decode_static_field_def f PB_DECODERS_def
    by (auto simp: PB_LAST_FIELD_def PB_ATYPE_def PB_HTYPE_def PB_LTYPE_def Let_def pb_dec_varint_def store_signed_def
        store_checked_def dest!: varint_left intro!: staysI stays_error split: prod.split option.split)
  then show ?thesis by (rule stays_mono) auto
qed

lemma decode_turn_stays:
  assumes t: "static_over T n flds" and l: "locals_ok flds a l"
  shows "\<exists>ok s' m' l' more. decode_turn env d sub l s m = Some (ok, s', m', l', more)
    \<and> bytes_left s' \<le> bytes_left s \<and> (more \<longrightarrow> bytes_left s' < bytes_left s) \<and> keeps_outside a n m m' \<and> locals_ok flds a l'"
proof -
  obtain r s1 where r: "pb_decode_tag s = (r, s1)" by fastforce
  note left = tag_left [OF r]
  show ?thesis
  proof (cases "tag_ok r")
    case True
    have w: "on_walk flds a (dl_iter l)" "start (dl_iter l) = flds" using l by (simp_all add: locals_ok_def on_walk_def)
    obtain it b where f: "pb_field_iter_find (dl_iter l) (tag_number r) = Some (it, b)" "on_walk flds a it"
      using iter_find_defined [OF w(1)] by metis
    then have l1: "locals_ok flds a (l\<lparr>dl_iter := it\<rparr>)" using l by (simp add: locals_ok_def)
    show ?thesis
    proof (cases b)
      case True
      have "stays a n s1 m (decode_field env d sub s1 (tag_wire_type r) it m)"
        by (rule decode_field_stays [OF t f(2)])
      then obtain ok s2 m2 where "decode_field env d sub s1 (tag_wire_type r) it m = Some (ok, s2, m2)"
        "bytes_left s2 \<le> bytes_left s1" "keeps_outside a n m m2" by (auto simp: stays_def)
      then show ?thesis using f r left \<open>tag_ok r\<close> l1 True
        by (auto simp: decode_turn_def Let_def locals_ok_def)
    next
      case False
      obtain ok s2 l2 where "decode_unknown env d sub (tag_number r) (tag_wire_type r) (l\<lparr>dl_iter := it\<rparr>) s1 m = Some (ok, s2, m, l2)"
        "bytes_left s2 \<le> bytes_left s1" "locals_ok flds a l2"
        using decode_unknown_stays [OF t l1 tag_number_small [OF r True]] by blast
      then show ?thesis using f r left \<open>tag_ok r\<close> False by (auto simp: decode_turn_def)
    qed
  next
    case False
    then show ?thesis using r left l by (auto simp: decode_turn_def)
  qed
qed

lemma decode_loop_stays:
  assumes t: "static_over T n flds"
  shows "locals_ok flds a l \<Longrightarrow> bytes_left s \<le> k \<Longrightarrow> \<exists>ok s' m' l'. decode_loop env d sub k l s m = Some (ok, s', m', l')
    \<and> bytes_left s' \<le> bytes_left s \<and> keeps_outside a n m m' \<and> locals_ok flds a l'"
proof (induction k arbitrary: l s m)
  case 0
  then show ?case by (auto simp: decode_loop.simps)
next
  case (Suc k)
  show ?case
  proof (cases "bytes_left s = 0")
    case True
    then show ?thesis using Suc.prems by (auto simp: decode_loop.simps)
  next
    case False
    obtain ok s1 m1 l1 more where turn: "decode_turn env d sub l s m = Some (ok, s1, m1, l1, more)"
      "bytes_left s1 \<le> bytes_left s" "more \<longrightarrow> bytes_left s1 < bytes_left s" "keeps_outside a n m m1" "locals_ok flds a l1"
      using decode_turn_stays [OF t Suc.prems(1)] by blast
    show ?thesis
    proof (cases more)
      case True
      with turn Suc.prems(2) have "bytes_left s1 \<le> k" by simp
      from Suc.IH [OF turn(5) this, of m1] obtain ok' s' m' l' where
        "decode_loop env d sub k l1 s1 m1 = Some (ok', s', m', l')" "bytes_left s' \<le> bytes_left s1"
        "keeps_outside a n m1 m'" "locals_ok flds a l'" by blast
      with turn True False show ?thesis by (auto simp: decode_loop.simps [of _ _ _ "Suc k"] intro: keeps_trans)
    next
      case False
      then show ?thesis using turn \<open>bytes_left s \<noteq> 0\<close> by (simp add: decode_loop.simps [of _ _ _ "Suc k"])
    qed
  qed
qed

lemma decode_message_stays:
  assumes t: "static_over T n flds"
  shows "stays a n s m (decode_message env d sub flds a s m)"
proof -
  let ?l = "\<lparr>dl_iter = fst (pb_field_iter_begin flds a), fields_seen = [0, 0], extension_range_start = 0\<rparr>"
  have "locals_ok flds a ?l" using t by (simp add: static_over_def locals_ok_def on_walk_begin)
  from decode_loop_stays [OF t this order_refl] obtain ok s' m' l' where
    loop: "decode_loop env d sub (bytes_left s) ?l s m = Some (ok, s', m', l')"
      "bytes_left s' \<le> bytes_left s" "keeps_outside a n m m'" "locals_ok flds a l'" by blast
  have "check_required (req_field_count (dl_iter l')) (fields_seen l') \<noteq> None"
    using loop(4) t check_required_defined req_field_count_correct by (auto simp: static_over_def locals_ok_def)
  then show ?thesis using loop by (auto simp: decode_message_def intro!: staysI stays_error)
qed

end

text \<open>\<open>pb_decode\<close> and \<open>pb_decode_noinit\<close> are such decoders, for tables of every nesting.\<close>

lemma decode_at_stays: "static_table d n flds \<Longrightarrow> stays a n s m (pb_decode_at env d init flds a s m)"
proof (induction d arbitrary: n flds a s m init)
  case (Suc d)
  have sub: "submessage_decoder (static_table d) env (Suc d) (pb_decode_at env d)"
    by unfold_locales (simp_all add: Suc.IH defaults_sets del: pb_message_set_to_defaults.simps)
  have "\<exists>m1. (if init then pb_message_set_to_defaults env (Suc d) flds a m else Some m) = Some m1 \<and> keeps_outside a n m m1"
    using defaults_sets [OF Suc.prems order_refl] by (auto simp: sets_def)
  then obtain m1 where m1: "(if init then pb_message_set_to_defaults env (Suc d) flds a m else Some m) = Some m1"
    "keeps_outside a n m m1" by blast
  have "stays a n s m1 (decode_message env (Suc d) (pb_decode_at env d) flds a s m1)"
    using Suc.prems by (intro submessage_decoder.decode_message_stays [OF sub]) simp
  then show ?case using m1 by (auto intro: stays_after)
qed simp

interpretation pb_decode: submessage_decoder "static_table d" env "Suc d" "pb_decode_at env d" for d env
  by unfold_locales (simp_all add: decode_at_stays defaults_sets del: pb_message_set_to_defaults.simps)

section \<open>Properties\<close>

text \<open>
  C1: decoding into a struct described by a static table (every field stored in the struct, with
  room for its declared size) always returns, whatever the stream delivers and however its
  callback behaves, and it writes only into the struct.
\<close>
theorem pb_decode_safe:
  assumes "static_table d n flds"
  shows "\<exists>ok s' m'. pb_decode env d s flds dest m = Some (ok, s', m')
    \<and> bytes_left s' \<le> bytes_left s \<and> (\<forall>x. x < dest \<or> dest + n \<le> x \<longrightarrow> m' x = m x)"
  using pb_decode.sub_stays [OF assms, of dest s m env True] by (simp add: pb_decode_def stays_def keeps_outside_def)

lemma demo_static: "static_table 1 18 demo_fields"
  by (auto simp: static_over_def demo_walk static_field_def demo_terminated Let_def)
    (simp_all add: demo_fields_def PB_LAST_FIELD_def required_count_def PB_ATYPE_def PB_HTYPE_def PB_LTYPE_def)

theorem pb_decode_safe_witness:
  "\<forall>(env :: byte list pb_dec_env) bs m. \<exists>ok s' m'.
    pb_decode env 1 (pb_istream_from_buffer bs (length bs)) demo_fields 100 m = Some (ok, s', m')
    \<and> bytes_left s' \<le> length bs \<and> m' 99 = m 99 \<and> m' 118 = m 118"
proof (intro allI)
  fix env :: "byte list pb_dec_env" and bs m
  show "\<exists>ok s' m'. pb_decode env 1 (pb_istream_from_buffer bs (length bs)) demo_fields 100 m = Some (ok, s', m')
    \<and> bytes_left s' \<le> length bs \<and> m' 99 = m 99 \<and> m' 118 = m 118"
    using pb_decode_safe [OF demo_static, of env "pb_istream_from_buffer bs (length bs)" 100 m]
    by (auto simp: pb_istream_from_buffer_def)
qed

end
