(* ===== verification/Buf.thy ===== *)
theory Buf
  imports Prelude
begin

text \<open>
  Growable buffers and bounded C strings (\<open>crypto/buf/buf.c\<close>), and the constant-time
  comparison of \<open>crypto/mem.c\<close>.

  \<open>buf_mem\<close> is \<open>struct buf_mem_st\<close>: the block (its length is the capacity \<open>max\<close>) and the number
  of bytes in use; the NULL block of a fresh buffer is the empty list. A C string argument is
  the memory from the pointer on, as a byte list that holds a terminating zero.
\<close>

section \<open>Buffers\<close>

record buf_mem =
  bm_data :: "byte list"
  bm_length :: nat
  bm_max :: nat


definition BUF_MEM_reserve :: "allocator \<Rightarrow> buf_mem \<Rightarrow> nat \<Rightarrow> bool \<times> buf_mem" where
  "BUF_MEM_reserve al buf cap =
     (if cap \<le> bm_max buf then (True, buf)
      else let n = sz (cap + 3) in
        if n < cap then (False, buf)
        else let n = n div 3; alloc_size = sz (n * 4) in
          if alloc_size div 4 \<noteq> n then (False, buf)
          else (case OPENSSL_realloc al (bm_data buf) alloc_size of
                  None \<Rightarrow> (False, buf)
                | Some new_buf \<Rightarrow> (True, buf\<lparr>bm_data := new_buf, bm_max := alloc_size\<rparr>)))"

definition BUF_MEM_grow :: "allocator \<Rightarrow> buf_mem \<Rightarrow> nat \<Rightarrow> nat \<times> buf_mem" where
  "BUF_MEM_grow al buf len =
     (case BUF_MEM_reserve al buf len of
        (ok, buf') \<Rightarrow>
          if \<not> ok then (0, buf')
          else
            let data' = (if bm_length buf' < len
                  then write_at (bm_data buf') (bm_length buf') (replicate (len - bm_length buf') 0)
                  else bm_data buf')
            in (len, buf'\<lparr>bm_data := data', bm_length := len\<rparr>))"

definition BUF_MEM_grow_clean :: "allocator \<Rightarrow> buf_mem \<Rightarrow> nat \<Rightarrow> nat \<times> buf_mem" where
  "BUF_MEM_grow_clean al buf len = BUF_MEM_grow al buf len"

section \<open>Strings\<close>

definition c_strlen :: "byte list \<Rightarrow> nat" where
  "c_strlen str = length (takeWhile (\<lambda>c. c \<noteq> 0) str)"

text \<open>The loop \<open>for (i = 0; i < max_len; i++) if (str[i] == 0) break;\<close>.\<close>

fun BUF_strnlen :: "byte list \<Rightarrow> nat \<Rightarrow> nat" where
  "BUF_strnlen str 0 = 0"
| "BUF_strnlen [] (Suc max_len) = 0"
| "BUF_strnlen (c # str) (Suc max_len) = (if c = 0 then 0 else Suc (BUF_strnlen str max_len))"

definition BUF_strndup :: "allocator \<Rightarrow> byte list \<Rightarrow> nat \<Rightarrow> byte list option" where
  "BUF_strndup al str size0 =
     (let n = BUF_strnlen str size0; alloc_size = sz (n + 1) in
      if alloc_size < n then None
      else case OPENSSL_malloc al alloc_size of
             None \<Rightarrow> None
           | Some ret \<Rightarrow> Some ((write_at ret 0 (take n str))[n := 0]))"

definition BUF_strdup :: "allocator \<Rightarrow> byte list \<Rightarrow> byte list option" where
  "BUF_strdup al str = BUF_strndup al str (c_strlen str)"

text \<open>The copy loop of \<open>BUF_strlcpy\<close>: the bytes copied, the rest of \<open>src\<close> and of \<open>dst_size\<close>.\<close>

fun strlcpy_loop :: "byte list \<Rightarrow> nat \<Rightarrow> byte list \<times> byte list \<times> nat" where
  "strlcpy_loop [] dst_size = ([], [], dst_size)"
| "strlcpy_loop (c # src) dst_size =
     (if 1 < dst_size \<and> c \<noteq> 0
      then (case strlcpy_loop src (dst_size - 1) of (copied, rest, n) \<Rightarrow> (c # copied, rest, n))
      else ([], c # src, dst_size))"

definition BUF_strlcpy :: "byte list \<Rightarrow> byte list \<Rightarrow> nat \<Rightarrow> nat \<times> byte list" where
  "BUF_strlcpy dst src dst_size =
     (case strlcpy_loop src dst_size of
        (copied, rest, n) \<Rightarrow>
          (length copied + c_strlen rest,
           write_at dst 0 (copied @ (if n \<noteq> 0 then [0] else []))))"

text \<open>The scan loop of \<open>BUF_strlcat\<close>: how far \<open>dst\<close> and \<open>dst_size\<close> move.\<close>

fun strlcat_loop :: "byte list \<Rightarrow> nat \<Rightarrow> nat" where
  "strlcat_loop [] dst_size = 0"
| "strlcat_loop (c # dst) dst_size =
     (if 0 < dst_size \<and> c \<noteq> 0 then Suc (strlcat_loop dst (dst_size - 1)) else 0)"

definition BUF_strlcat :: "byte list \<Rightarrow> byte list \<Rightarrow> nat \<Rightarrow> nat \<times> byte list" where
  "BUF_strlcat dst src dst_size =
     (let l = strlcat_loop dst dst_size in
      case BUF_strlcpy (drop l dst) src (dst_size - l) of
        (n, dst') \<Rightarrow> (l + n, take l dst @ dst'))"

definition BUF_memdup :: "allocator \<Rightarrow> byte list \<Rightarrow> nat \<Rightarrow> byte list option" where
  "BUF_memdup al data n =
     (if n = 0 then None
      else case OPENSSL_malloc al n of
             None \<Rightarrow> None
           | Some ret \<Rightarrow> Some (write_at ret 0 (take n data)))"

text \<open>\<open>CRYPTO_memcmp\<close>: the loop accumulates the differences with \<open>|=\<close>.\<close>

definition CRYPTO_memcmp :: "byte list \<Rightarrow> byte list \<Rightarrow> nat \<Rightarrow> byte" where
  "CRYPTO_memcmp a b len = foldl (\<lambda>x i. x OR (a ! i XOR b ! i)) 0 [0..<len]"

definition OPENSSL_hash32 :: "byte list \<Rightarrow> u32" where
  "OPENSSL_hash32 bs = foldl (\<lambda>h b. (h XOR ucast b) * 16777619) 2166136261 bs"

section \<open>Capacity arithmetic\<close>

definition buf_mem_ok :: "buf_mem \<Rightarrow> bool" where
  "buf_mem_ok b \<longleftrightarrow> length (bm_data b) = bm_max b \<and> bm_length b \<le> bm_max b \<and> block_size (bm_max b)"

text \<open>The contents a client sees.\<close>

definition bm_contents :: "buf_mem \<Rightarrow> byte list" where
  "bm_contents b = take (bm_length b) (bm_data b)"


text \<open>
  For the size of an object the capacity that \<open>BUF_MEM_reserve\<close> computes does not overflow, covers the request
  and leaves room for the prefix of the allocator.
\<close>

lemma reserve_size_covers:
  assumes "cap \<le> PTRDIFF_MAX"
  shows "sz (cap + 3) = cap + 3" and "sz ((cap + 3) div 3 * 4) = (cap + 3) div 3 * 4"
    and "cap < (cap + 3) div 3 * 4" and "(cap + 3) div 3 * 4 + 8 < SIZE_MODULUS"
proof -
  let ?n = "(cap + 3) div 3"
  have "3 * ?n \<le> cap + 3" by simp
  then show *: "?n * 4 + 8 < SIZE_MODULUS" and "sz (?n * 4) = ?n * 4"
    using assms by (simp_all add: PTRDIFF_MAX_def SIZE_MODULUS_def sz_def)
  show "sz (cap + 3) = cap + 3" using assms by (simp add: PTRDIFF_MAX_def SIZE_MODULUS_def)
  show "cap < ?n * 4" by linarith
qed

lemma BUF_MEM_reserve_ok:
  assumes ok: "buf_mem_ok b" and cap: "cap \<le> PTRDIFF_MAX" and r: "BUF_MEM_reserve al b cap = (res, b')"
  shows "buf_mem_ok b' \<and> bm_contents b' = bm_contents b \<and> bm_length b' = bm_length b
    \<and> (res \<longrightarrow> cap \<le> bm_max b') \<and> (\<not> res \<longrightarrow> b' = b)"
proof (cases "cap \<le> bm_max b")
  case True
  with r ok show ?thesis by (simp add: BUF_MEM_reserve_def)
next
  case False
  let ?m = "(cap + 3) div 3 * 4"
  note S = reserve_size_covers [OF cap]
  show ?thesis
  proof (cases "OPENSSL_realloc al (bm_data b) ?m")
    case None
    with r False S have "\<not> res \<and> b' = b" by (simp add: BUF_MEM_reserve_def Let_def)
    with ok show ?thesis by simp
  next
    case (Some d)
    with r False S have b': "res" "b' = b\<lparr>bm_data := d, bm_max := ?m\<rparr>"
      by (simp_all add: BUF_MEM_reserve_def Let_def)
    have len: "length d = ?m" "block_size ?m" using OPENSSL_realloc_length [OF Some S(4)] by auto
    have "take (bm_length b) d = take (bm_length b) (bm_data b)"
      using S(3) False ok by (intro OPENSSL_realloc_take [OF Some]) (auto simp: buf_mem_ok_def)
    then show ?thesis using b' S(3) len ok False by (auto simp: buf_mem_ok_def bm_contents_def)
  qed
qed

lemma strlcpy_loop_spec:
  assumes "strlcpy_loop src n = (copied, rest, m)"
  shows "src = copied @ rest \<and> length copied + m = n
    \<and> copied = take (n - 1) (takeWhile (\<lambda>c. c \<noteq> 0) src)
    \<and> length copied + c_strlen rest = c_strlen src"
  using assms
proof (induction src n arbitrary: copied rest m rule: strlcpy_loop.induct)
  case (1 n)
  then show ?case by (auto simp: c_strlen_def)
next
  case (2 c src n)
  show ?case
  proof (cases "1 < n \<and> c \<noteq> 0")
    case True
    obtain cp r k where rec: "strlcpy_loop src (n - 1) = (cp, r, k)"
      by (cases "strlcpy_loop src (n - 1)") auto
    from True obtain k' where n: "n = Suc (Suc k')"
      by (metis One_nat_def less_imp_Suc_add add_Suc plus_nat.add_0)
    note IH = "2.IH" [OF True rec]
    have res: "copied = c # cp" "rest = r" "m = k"
      using "2.prems" True rec by simp_all
    from IH have 1: "src = cp @ r" by blast
    from IH have 2: "length cp + k = n - 1" by blast
    from IH have 3: "cp = take (n - 1 - 1) (takeWhile (\<lambda>c. c \<noteq> 0) src)" by blast
    from IH have 4: "length cp + c_strlen r = c_strlen src" by blast
    have "copied = take (n - 1) (takeWhile (\<lambda>c. c \<noteq> 0) (c # src))"
      using True 3 unfolding res n by (simp )
    moreover have "c # src = copied @ rest" unfolding res using 1 by (simp only: append_Cons)
    moreover have "length copied + m = n" unfolding res using 2 n by simp
    moreover have "length copied + c_strlen rest = c_strlen (c # src)"
      unfolding res using 4 True by (simp add: c_strlen_def)
    ultimately show ?thesis by (intro conjI)
  next
    case False
    with "2.prems" show ?thesis by (auto simp: c_strlen_def)
  qed
qed

lemma strlcat_loop_spec: "strlcat_loop dst n = min n (c_strlen dst)"
  by (induction dst n rule: strlcat_loop.induct) (auto simp: c_strlen_def min_def)

lemma BUF_strnlen_spec: "BUF_strnlen str n = min n (c_strlen str)"
  by (induction str n rule: BUF_strnlen.induct) (auto simp: c_strlen_def min_def)

lemma c_strlen_le: "c_strlen s \<le> length s"
  by (simp add: c_strlen_def length_takeWhile_le)

lemma CRYPTO_memcmp_acc:
  "foldl (\<lambda>x i. x OR (a ! i XOR b ! i)) (c :: byte) is = 0
    \<longleftrightarrow> c = 0 \<and> (\<forall>i\<in>set is. a ! i = b ! i)"
  by (induction "is" arbitrary: c) (auto simp: or_eq_0_iff xor_eq_0_iff)

lemma CRYPTO_memcmp_zero_iff:
  assumes "length a = n" and "length b = n"
  shows "CRYPTO_memcmp a b n = 0 \<longleftrightarrow> a = b"
  using assms by (auto simp: CRYPTO_memcmp_def CRYPTO_memcmp_acc intro: nth_equalityI)

lemma BUF_memdup_copies:
  "BUF_memdup al data (length data) = Some d \<Longrightarrow> length data \<le> PTRDIFF_MAX \<Longrightarrow> d = data"
  by (auto simp: BUF_memdup_def write_at_def dest: OPENSSL_malloc_length [OF _ object_size]
      split: if_splits option.splits)

lemma BUF_strndup_copies:
  assumes "BUF_strndup al str n = Some d" and "length str < PTRDIFF_MAX"
  shows "d = take n (takeWhile (\<lambda>c. c \<noteq> 0) str) @ [0]"
proof -
  let ?k = "BUF_strnlen str n"
  have k: "?k = min n (c_strlen str)" by (rule BUF_strnlen_spec)
  with assms(2) have obj: "?k + 1 \<le> PTRDIFF_MAX" and len: "?k \<le> length str"
    using c_strlen_le [of str] by auto
  with assms(1) object_size [OF obj] obtain r where r: "OPENSSL_malloc al (?k + 1) = Some r"
    and d: "d = (write_at r 0 (take ?k str))[?k := 0]"
    by (auto simp: BUF_strndup_def Let_def split: option.splits)
  have "length r = ?k + 1" using OPENSSL_malloc_length [OF r object_size [OF obj]] by simp
  then have "length (drop ?k r) = 1" by simp
  then obtain z where z: "drop ?k r = [z]" by (cases "drop ?k r") auto
  have "write_at r 0 (take ?k str) = take ?k str @ [z]"
    using z len by (simp add: write_at_def min_absorb2)
  then have "d = take ?k str @ [0]" using d len by (simp add: list_update_append min_absorb2)
  moreover have "take ?k str = take n (takeWhile (\<lambda>c. c \<noteq> 0) str)"
    unfolding k c_strlen_def by (subst takeWhile_eq_take) simp
  ultimately show ?thesis by simp
qed

text \<open>What \<open>BUF_strlcpy\<close> returns and leaves in the destination, in one equation.\<close>

lemma BUF_strlcpy_eq:
  assumes "0 < n"
  shows "BUF_strlcpy dst src n =
    (c_strlen src, write_at dst 0 (take (n - 1) (takeWhile (\<lambda>c. c \<noteq> 0) src) @ [0]))"
proof -
  obtain cp r m where l: "strlcpy_loop src n = (cp, r, m)" by (cases "strlcpy_loop src n") auto
  note S = strlcpy_loop_spec [OF l]
  from S have cp: "cp = take (n - 1) (takeWhile (\<lambda>c. c \<noteq> 0) src)" by blast
  then have "length cp \<le> n - 1" by simp
  with S assms have "m \<noteq> 0" by linarith
  moreover from S have "length cp + c_strlen r = c_strlen src" by blast
  ultimately show ?thesis unfolding BUF_strlcpy_def cp [symmetric] by (simp add: l)
qed

lemma takeWhile_terminated:
  "\<forall>c\<in>set xs. c \<noteq> 0 \<Longrightarrow> takeWhile (\<lambda>c. c \<noteq> 0) (xs @ (0 :: byte) # ys) = xs"
  by (induction xs) auto

lemma strlcpy_dst:
  fixes dst :: "byte list"
  assumes "0 < n" and "n \<le> length dst" and "\<forall>c\<in>set s. c \<noteq> 0"
  shows "takeWhile (\<lambda>c. c \<noteq> 0) (write_at dst 0 (take (n - 1) s @ [0])) = take (n - 1) s"
    and "drop n (write_at dst 0 (take (n - 1) s @ [0])) = drop n dst"
proof -
  have "\<forall>c\<in>set (take (n - 1) s). c \<noteq> 0" using assms(3) by (meson in_set_takeD)
  then show "takeWhile (\<lambda>c. c \<noteq> 0) (write_at dst 0 (take (n - 1) s @ [0])) = take (n - 1) s"
    by (simp add: write_at_def takeWhile_terminated)
  show "drop n (write_at dst 0 (take (n - 1) s @ [0])) = drop n dst"
    using assms(1,2) by (intro drop_write_at) auto
qed

lemma str_nonzero: "\<forall>c\<in>set (takeWhile (\<lambda>c. c \<noteq> (0 :: byte)) s). c \<noteq> 0"
  by (auto dest: set_takeWhileD)

section \<open>Properties\<close>

text \<open>
  C14: \<open>BUF_MEM_grow\<close> keeps the buffer well formed for every allocator and every request for at most
  \<open>PTRDIFF_MAX\<close> bytes (for larger ones the allocator's prefix may wrap around). When it returns the requested (non-zero) length, the contents are the old contents cut
  or zero-extended to exactly that length, so no uninitialised byte becomes visible; otherwise
  it returns 0 and leaves the buffer as it was.
\<close>

theorem BUF_MEM_grow_zero_extends:
  assumes ok: "buf_mem_ok b" and len: "0 < len" "len \<le> PTRDIFF_MAX"
    and r: "BUF_MEM_grow al b len = (res, b')"
  shows "buf_mem_ok b' \<and>
    (if res = len
     then bm_contents b' = take len (bm_contents b) @ replicate (len - bm_length b) 0
     else res = 0 \<and> b' = b)"
proof -
  obtain ok1 b1 where r1: "BUF_MEM_reserve al b len = (ok1, b1)" by fastforce
  note R = BUF_MEM_reserve_ok [OF ok len(2) r1]
  show ?thesis
  proof (cases ok1)
    case False
    with R r r1 len ok show ?thesis by (auto simp: BUF_MEM_grow_def)
  next
    case True
    let ?d = "if bm_length b1 < len
      then write_at (bm_data b1) (bm_length b1) (replicate (len - bm_length b1) 0) else bm_data b1"
    from True r r1 have b': "res = len" "b' = b1\<lparr>bm_data := ?d, bm_length := len\<rparr>"
      by (auto simp: BUF_MEM_grow_def Let_def)
    from R True have room: "len \<le> length (bm_data b1)" "bm_length b1 = bm_length b"
      "bm_contents b1 = bm_contents b" "buf_mem_ok b1" by (auto simp: buf_mem_ok_def)
    have "take len ?d = take len (bm_contents b1) @ replicate (len - bm_length b1) 0"
    proof (cases "bm_length b1 < len")
      case True
      with room(1) take_write_at_end [of "bm_length b1" "bm_data b1" "replicate (len - bm_length b1) 0"]
      show ?thesis by (simp add: bm_contents_def min_absorb2)
    qed (simp add: bm_contents_def min_absorb1)
    with b' room R show ?thesis by (auto simp: buf_mem_ok_def bm_contents_def)
  qed
qed

definition demo_allocator :: allocator where
  "demo_allocator = \<lparr>can_alloc = (\<lambda>n. n < 1000), junk = (\<lambda>i. 0xAA)\<rparr>"

theorem BUF_MEM_grow_zero_extends_witness:
  "bm_contents (snd (BUF_MEM_grow demo_allocator \<lparr>bm_data = [7, 7], bm_length = 1, bm_max = 2\<rparr> 3))
    = [7, 0, 0]"
proof -
  let ?b = "\<lparr>bm_data = [7, 7], bm_length = 1, bm_max = 2\<rparr>"
  have "buf_mem_ok ?b" "0 < (3 :: nat)" "3 \<le> PTRDIFF_MAX"
    by (simp_all add: buf_mem_ok_def block_size_def OPENSSL_MALLOC_PREFIX_def PTRDIFF_MAX_def)
  moreover have "BUF_MEM_grow demo_allocator ?b 3 = (3, snd (BUF_MEM_grow demo_allocator ?b 3))"
    by (simp add: BUF_MEM_grow_def BUF_MEM_reserve_def OPENSSL_realloc_def OPENSSL_malloc_def mallocs_def
        demo_allocator_def sz_def SIZE_MODULUS_def PTRDIFF_MAX_def OPENSSL_MALLOC_PREFIX_def)
  ultimately have "bm_contents (snd (BUF_MEM_grow demo_allocator ?b 3))
      = take 3 (bm_contents ?b) @ replicate (3 - bm_length ?b) 0"
    using BUF_MEM_grow_zero_extends [of ?b 3 demo_allocator 3] by simp
  also have "\<dots> = [7, 0, 0]" by code_simp
  finally show ?thesis .
qed



text \<open>
  \<open>BUF_strlcpy\<close> and \<open>BUF_strlcat\<close> into a destination of \<open>dst_size > 0\<close> bytes write a
  zero-terminated string that is the source (respectively the old string followed by the source) cut to
  \<open>dst_size - 1\<close> bytes, leave every byte at or beyond \<open>dst_size\<close> unchanged, and return the length
  the whole result would have had, so that a return value of at least \<open>dst_size\<close> is exactly truncation.
\<close>

theorem BUF_strl_truncates:
  fixes dst src :: "byte list"
  assumes "0 < n" and "n \<le> length dst"
  defines "str s \<equiv> takeWhile (\<lambda>c. c \<noteq> 0) s"
  shows "fst (BUF_strlcpy dst src n) = length (str src)
    \<and> str (snd (BUF_strlcpy dst src n)) = take (n - 1) (str src)
    \<and> drop n (snd (BUF_strlcpy dst src n)) = drop n dst
    \<and> (length (str dst) < n \<longrightarrow>
        fst (BUF_strlcat dst src n) = length (str dst @ str src)
      \<and> str (snd (BUF_strlcat dst src n)) = take (n - 1) (str dst @ str src)
      \<and> drop n (snd (BUF_strlcat dst src n)) = drop n dst)"
proof -
  have cpy: "BUF_strlcpy d src k = (length (str src), write_at d 0 (take (k - 1) (str src) @ [0]))"
    if "0 < k" for d k
    using that by (simp add: BUF_strlcpy_eq c_strlen_def str_def)
  note nz = str_nonzero [of src, folded str_def] str_nonzero [of dst, folded str_def]
  note dst1 = strlcpy_dst [OF assms(1,2) nz(1), folded str_def]
  have cat: "fst (BUF_strlcat dst src n) = length (str dst @ str src)
      \<and> str (snd (BUF_strlcat dst src n)) = take (n - 1) (str dst @ str src)
      \<and> drop n (snd (BUF_strlcat dst src n)) = drop n dst"
    if l: "length (str dst) < n"
  proof -
    let ?l = "length (str dst)"
    have dst: "take ?l dst = str dst" by (simp add: str_def takeWhile_eq_take [symmetric])
    let ?d = "write_at (drop ?l dst) 0 (take (n - ?l - 1) (str src) @ [0])"
    have r: "BUF_strlcat dst src n = (?l + length (str src), str dst @ ?d)"
      using l cpy [of "n - ?l" "drop ?l dst"]
      by (simp add: BUF_strlcat_def strlcat_loop_spec c_strlen_def dst Let_def flip: str_def)
    note d = strlcpy_dst [of "n - ?l" "drop ?l dst" "str src", folded str_def]
    have "str (str dst @ ?d) = str dst @ str ?d"
      using nz(2) by (simp add: str_def takeWhile_append2)
    moreover have "str ?d = take (n - ?l - 1) (str src)"
      using l assms(2) nz(1) by (intro d(1)) auto
    moreover have "drop n (str dst @ ?d) = drop (n - ?l) ?d" using l by simp
    moreover have "drop (n - ?l) ?d = drop (n - ?l) (drop ?l dst)"
      using l assms(2) nz(1) by (intro d(2)) auto
    ultimately show ?thesis using r l by simp
  qed
  show ?thesis using cat dst1 cpy [OF assms(1), of dst] by simp
qed

theorem BUF_strl_truncates_witness:
  "snd (BUF_strlcpy [9, 9, 9, 9] [1, 2, 3, 4, 0] 3) ! 2 = 0
    \<and> takeWhile (\<lambda>c. c \<noteq> 0) (snd (BUF_strlcat [5, 0, 9, 9] [1, 2, 3, 4, 0] 3)) = [5, 1]"
proof -
  have "0 < (3 :: nat)" "3 \<le> length ([9, 9, 9, 9] :: byte list)"
    and "3 \<le> length ([5, 0, 9, 9] :: byte list)" by simp_all
  with BUF_strl_truncates [of 3 "[5, 0, 9, 9]" "[1, 2, 3, 4, 0]"]
    BUF_strl_truncates [of 3 "[9, 9, 9, 9]" "[1, 2, 3, 4, 0]"]
  show ?thesis by (simp add: BUF_strlcpy_def write_at_def)
qed

end
