(* ===== verification/Cbs.thy ===== *)
theory Cbs
  imports Buf
begin

text \<open>
  The byte-string reader \<open>CBS\<close> (\<open>crypto/bytestring/cbs.c\<close>).

  A \<open>CBS\<close> is a view \<open>(data, len)\<close> of constant memory that the functions only ever shorten from
  the front (or, in \<open>CBS_get_last_u8\<close>, from the back): it is the list of the \<open>len\<close> bytes it
  covers, so a byte that a function reads is a byte of the view. A function that returns 0 or 1
  gives an option with its out-parameters and the reader after the call, which a failing call
  may have moved (\<open>cbs_get_length_prefixed\<close>, \<open>cbs_get_asn1\<close>).

  \<open>der_element\<close> and \<open>der_uint\<close> are the reference encodings of X.690 that the parser is held
  against.
\<close>

section \<open>Plain reads\<close>

type_synonym cbs = "byte list"

definition cbs_get :: "cbs \<Rightarrow> nat \<Rightarrow> byte list option \<times> cbs" where
  "cbs_get cbs n = (if length cbs < n then (None, cbs) else (Some (take n cbs), drop n cbs))"

definition CBS_skip :: "cbs \<Rightarrow> nat \<Rightarrow> bool \<times> cbs" where
  "CBS_skip cbs len = (case cbs_get cbs len of (r, cbs') \<Rightarrow> (r \<noteq> None, cbs'))"

definition CBS_stow :: "allocator \<Rightarrow> cbs \<Rightarrow> bool \<times> byte list option \<times> nat" where
  "CBS_stow al cbs =
     (if length cbs = 0 then (True, None, 0)
      else case BUF_memdup al cbs (length cbs) of
             None \<Rightarrow> (False, None, 0)
           | Some p \<Rightarrow> (True, Some p, length cbs))"

definition CBS_strdup :: "allocator \<Rightarrow> cbs \<Rightarrow> bool \<times> byte list option" where
  "CBS_strdup al cbs = (let p = BUF_strndup al cbs (length cbs) in (p \<noteq> None, p))"

definition CBS_contains_zero_byte :: "cbs \<Rightarrow> bool" where
  "CBS_contains_zero_byte cbs \<longleftrightarrow> List.member cbs 0"

definition CBS_mem_equal :: "cbs \<Rightarrow> byte list \<Rightarrow> nat \<Rightarrow> bool" where
  "CBS_mem_equal cbs data len =
     (if len \<noteq> length cbs then False else CRYPTO_memcmp cbs data len = 0)"

definition cbs_get_u :: "cbs \<Rightarrow> nat \<Rightarrow> u32 option \<times> cbs" where
  "cbs_get_u cbs len =
     (case cbs_get cbs len of
        (None, cbs') \<Rightarrow> (None, cbs')
      | (Some data, cbs') \<Rightarrow>
          (Some (foldl (\<lambda>result b. push_bit 8 result OR ucast b) 0 data), cbs'))"

definition CBS_get_u8 :: "cbs \<Rightarrow> byte option \<times> cbs" where
  "CBS_get_u8 cbs =
     (case cbs_get cbs 1 of (None, cbs') \<Rightarrow> (None, cbs') | (Some v, cbs') \<Rightarrow> (Some (v ! 0), cbs'))"

definition CBS_get_u16 :: "cbs \<Rightarrow> u16 option \<times> cbs" where
  "CBS_get_u16 cbs = (case cbs_get_u cbs 2 of (v, cbs') \<Rightarrow> (map_option ucast v, cbs'))"

definition CBS_get_u24 :: "cbs \<Rightarrow> u32 option \<times> cbs" where
  "CBS_get_u24 cbs = cbs_get_u cbs 3"

definition CBS_get_u32 :: "cbs \<Rightarrow> u32 option \<times> cbs" where
  "CBS_get_u32 cbs = cbs_get_u cbs 4"

definition CBS_get_last_u8 :: "cbs \<Rightarrow> byte option \<times> cbs" where
  "CBS_get_last_u8 cbs =
     (if length cbs = 0 then (None, cbs)
      else (Some (cbs ! (length cbs - 1)), take (length cbs - 1) cbs))"

definition CBS_get_bytes :: "cbs \<Rightarrow> nat \<Rightarrow> cbs option \<times> cbs" where
  "CBS_get_bytes cbs len = cbs_get cbs len"

definition CBS_copy_bytes :: "cbs \<Rightarrow> byte list \<Rightarrow> nat \<Rightarrow> bool \<times> byte list \<times> cbs" where
  "CBS_copy_bytes cbs out len =
     (case cbs_get cbs len of
        (None, cbs') \<Rightarrow> (False, out, cbs')
      | (Some v, cbs') \<Rightarrow> (True, write_at out 0 v, cbs'))"

definition cbs_get_length_prefixed :: "cbs \<Rightarrow> nat \<Rightarrow> cbs option \<times> cbs" where
  "cbs_get_length_prefixed cbs len_len =
     (case cbs_get_u cbs len_len of
        (None, cbs') \<Rightarrow> (None, cbs')
      | (Some len, cbs') \<Rightarrow> CBS_get_bytes cbs' (unat len))"

definition CBS_get_u8_length_prefixed :: "cbs \<Rightarrow> cbs option \<times> cbs" where
  "CBS_get_u8_length_prefixed cbs = cbs_get_length_prefixed cbs 1"

definition CBS_get_u16_length_prefixed :: "cbs \<Rightarrow> cbs option \<times> cbs" where
  "CBS_get_u16_length_prefixed cbs = cbs_get_length_prefixed cbs 2"

definition CBS_get_u24_length_prefixed :: "cbs \<Rightarrow> cbs option \<times> cbs" where
  "CBS_get_u24_length_prefixed cbs = cbs_get_length_prefixed cbs 3"

section \<open>ASN.1 elements\<close>

definition CBS_ASN1_BOOLEAN :: u32 where "CBS_ASN1_BOOLEAN = 0x1"
definition CBS_ASN1_INTEGER :: u32 where "CBS_ASN1_INTEGER = 0x2"
definition CBS_ASN1_BITSTRING :: u32 where "CBS_ASN1_BITSTRING = 0x3"
definition CBS_ASN1_OCTETSTRING :: u32 where "CBS_ASN1_OCTETSTRING = 0x4"
definition CBS_ASN1_CONSTRUCTED :: u32 where "CBS_ASN1_CONSTRUCTED = 0x20"

text \<open>
  The out-parameters of a successful call: the element with its header, the tag, and the length
  of the header.
\<close>

type_synonym asn1_element = "cbs \<times> u32 \<times> nat"

definition cbs_get_any_asn1_element :: "cbs \<Rightarrow> bool \<Rightarrow> asn1_element option \<times> cbs" where
  "cbs_get_any_asn1_element cbs ber_ok =
     (case CBS_get_u8 cbs of
        (None, _) \<Rightarrow> (None, cbs)
      | (Some tag, header) \<Rightarrow>
     (case CBS_get_u8 header of
        (None, _) \<Rightarrow> (None, cbs)
      | (Some length_byte, header) \<Rightarrow>
          let finish = (\<lambda>len header_len. case CBS_get_bytes cbs len of
                (None, cbs') \<Rightarrow> (None, cbs')
              | (Some out, cbs') \<Rightarrow> (Some (out, ucast tag, header_len), cbs')) in
          if tag AND 0x1f = 0x1f then (None, cbs)
          else if length_byte AND 0x80 = 0 then finish (unat length_byte + 2) 2
          else
            let num_bytes = unat (length_byte AND 0x7f) in
            if ber_ok \<and> ucast tag AND CBS_ASN1_CONSTRUCTED \<noteq> 0 \<and> num_bytes = 0 then finish 2 2
            else if num_bytes = 0 \<or> 4 < num_bytes then (None, cbs)
            else (case cbs_get_u header num_bytes of
                (None, _) \<Rightarrow> (None, cbs)
              | (Some len32, _) \<Rightarrow>
                  if len32 < 128 then (None, cbs)
                  else if drop_bit ((num_bytes - 1) * 8) len32 = 0 then (None, cbs)
                  else
                    let len = unat len32 in
                    if sz (len + 2 + num_bytes) < len then (None, cbs)
                    else finish (sz (len + (2 + num_bytes))) (2 + num_bytes))))"

definition CBS_get_any_asn1_element :: "cbs \<Rightarrow> asn1_element option \<times> cbs" where
  "CBS_get_any_asn1_element cbs = cbs_get_any_asn1_element cbs False"

definition CBS_get_any_ber_asn1_element :: "cbs \<Rightarrow> asn1_element option \<times> cbs" where
  "CBS_get_any_ber_asn1_element cbs = cbs_get_any_asn1_element cbs True"

definition CBS_get_any_asn1 :: "cbs \<Rightarrow> (cbs \<times> u32) option \<times> cbs" where
  "CBS_get_any_asn1 cbs =
     (case CBS_get_any_asn1_element cbs of
        (None, cbs') \<Rightarrow> (None, cbs')
      | (Some (out, tag, header_len), cbs') \<Rightarrow>
          (case CBS_skip out header_len of
             (ok, out') \<Rightarrow> if \<not> ok then (None, cbs') else (Some (out', tag), cbs')))"

definition cbs_get_asn1 :: "cbs \<Rightarrow> u32 \<Rightarrow> bool \<Rightarrow> cbs option \<times> cbs" where
  "cbs_get_asn1 cbs tag_value skip_header =
     (case CBS_get_any_asn1_element cbs of
        (None, cbs') \<Rightarrow> (None, cbs')
      | (Some (out, tag, header_len), cbs') \<Rightarrow>
          if tag \<noteq> tag_value then (None, cbs')
          else if skip_header then
            (case CBS_skip out header_len of
               (ok, out') \<Rightarrow> if \<not> ok then (None, cbs') else (Some out', cbs'))
          else (Some out, cbs'))"

definition CBS_get_asn1 :: "cbs \<Rightarrow> u32 \<Rightarrow> cbs option \<times> cbs" where
  "CBS_get_asn1 cbs tag_value = cbs_get_asn1 cbs tag_value True"

definition CBS_get_asn1_element :: "cbs \<Rightarrow> u32 \<Rightarrow> cbs option \<times> cbs" where
  "CBS_get_asn1_element cbs tag_value = cbs_get_asn1 cbs tag_value False"

definition CBS_peek_asn1_tag :: "cbs \<Rightarrow> u32 \<Rightarrow> bool" where
  "CBS_peek_asn1_tag cbs tag_value \<longleftrightarrow> \<not> length cbs < 1 \<and> ucast (cbs ! 0) = tag_value"

text \<open>The accumulation loop of \<open>CBS_get_asn1_uint64\<close>; \<open>None\<close> is the overflow exit.\<close>

fun uint64_loop :: "u64 \<Rightarrow> byte list \<Rightarrow> u64 option" where
  "uint64_loop out [] = Some out"
| "uint64_loop out (b # data) =
     (if drop_bit 56 out \<noteq> 0 then None else uint64_loop (push_bit 8 out OR ucast b) data)"

definition CBS_get_asn1_uint64 :: "cbs \<Rightarrow> u64 option \<times> cbs" where
  "CBS_get_asn1_uint64 cbs =
     (case CBS_get_asn1 cbs CBS_ASN1_INTEGER of
        (None, cbs') \<Rightarrow> (None, cbs')
      | (Some data, cbs') \<Rightarrow>
          if length data = 0 then (None, cbs')
          else if data ! 0 AND 0x80 \<noteq> 0 then (None, cbs')
          else if data ! 0 = 0 \<and> 1 < length data \<and> data ! 1 AND 0x80 = 0 then (None, cbs')
          else (uint64_loop 0 data, cbs'))"

text \<open>Optional elements: the inner option is \<open>present\<close> with the contents.\<close>

definition CBS_get_optional_asn1 :: "cbs \<Rightarrow> u32 \<Rightarrow> cbs option option \<times> cbs" where
  "CBS_get_optional_asn1 cbs tag =
     (if CBS_peek_asn1_tag cbs tag then
        (case CBS_get_asn1 cbs tag of
           (None, cbs') \<Rightarrow> (None, cbs')
         | (Some out, cbs') \<Rightarrow> (Some (Some out), cbs'))
      else (Some None, cbs))"

definition CBS_get_optional_asn1_octet_string ::
  "cbs \<Rightarrow> u32 \<Rightarrow> (cbs \<times> bool) option \<times> cbs" where
  "CBS_get_optional_asn1_octet_string cbs tag =
     (case CBS_get_optional_asn1 cbs tag of
        (None, cbs') \<Rightarrow> (None, cbs')
      | (Some (Some child), cbs') \<Rightarrow>
          (case CBS_get_asn1 child CBS_ASN1_OCTETSTRING of
             (None, _) \<Rightarrow> (None, cbs')
           | (Some out, child') \<Rightarrow>
               if length child' \<noteq> 0 then (None, cbs') else (Some (out, True), cbs'))
      | (Some None, cbs') \<Rightarrow> (Some ([], False), cbs'))"

definition CBS_get_optional_asn1_uint64 :: "cbs \<Rightarrow> u32 \<Rightarrow> u64 \<Rightarrow> u64 option \<times> cbs" where
  "CBS_get_optional_asn1_uint64 cbs tag default_value =
     (case CBS_get_optional_asn1 cbs tag of
        (None, cbs') \<Rightarrow> (None, cbs')
      | (Some (Some child), cbs') \<Rightarrow>
          (case CBS_get_asn1_uint64 child of
             (None, _) \<Rightarrow> (None, cbs')
           | (Some out, child') \<Rightarrow>
               if length child' \<noteq> 0 then (None, cbs') else (Some out, cbs'))
      | (Some None, cbs') \<Rightarrow> (Some default_value, cbs'))"

definition CBS_get_optional_asn1_bool :: "cbs \<Rightarrow> u32 \<Rightarrow> int \<Rightarrow> int option \<times> cbs" where
  "CBS_get_optional_asn1_bool cbs tag default_value =
     (case CBS_get_optional_asn1 cbs tag of
        (None, cbs') \<Rightarrow> (None, cbs')
      | (Some (Some child), cbs') \<Rightarrow>
          (case CBS_get_asn1 child CBS_ASN1_BOOLEAN of
             (None, _) \<Rightarrow> (None, cbs')
           | (Some child2, child') \<Rightarrow>
               if length child2 \<noteq> 1 \<or> length child' \<noteq> 0 then (None, cbs')
               else if child2 ! 0 = 0 then (Some 0, cbs')
               else if child2 ! 0 = 0xff then (Some 1, cbs')
               else (None, cbs'))
      | (Some None, cbs') \<Rightarrow> (Some default_value, cbs'))"

definition CBS_is_valid_asn1_bitstring :: "cbs \<Rightarrow> bool" where
  "CBS_is_valid_asn1_bitstring cbs =
     (case CBS_get_u8 cbs of
        (None, _) \<Rightarrow> False
      | (Some num_unused_bits, in') \<Rightarrow>
          if 7 < num_unused_bits then False
          else if num_unused_bits = 0 then True
          else (case CBS_get_last_u8 in' of
                  (None, _) \<Rightarrow> False
                | (Some last_byte, _) \<Rightarrow>
                    \<not> (ucast last_byte AND (push_bit (unat num_unused_bits) 1 - 1 :: u32) \<noteq> 0)))"

definition CBS_asn1_bitstring_has_bit :: "cbs \<Rightarrow> u32 \<Rightarrow> bool" where
  "CBS_asn1_bitstring_has_bit cbs i =
     (if \<not> CBS_is_valid_asn1_bitstring cbs then False
      else
        let byte_num = drop_bit 3 i + 1; bit_num = 7 - (i AND 7) in
        unat byte_num < length cbs \<and>
        ucast (cbs ! unat byte_num) AND (push_bit (unat bit_num) 1 :: u32) \<noteq> 0)"

section \<open>Reference encodings\<close>

fun octets :: "nat \<Rightarrow> nat" where
  "octets n = (if n < 256 then 1 else Suc (octets (n div 256)))"

declare octets.simps [simp del]

definition der_length :: "nat \<Rightarrow> byte list" where
  "der_length n =
     (if n < 128 then [word_of_nat n]
      else word_of_nat (128 + octets n) # be_bytes (octets n) n)"

definition der_element :: "byte \<Rightarrow> byte list \<Rightarrow> byte list" where
  "der_element tag contents = tag # der_length (length contents) @ contents"

fun uint_octets :: "nat \<Rightarrow> nat" where
  "uint_octets n = (if n < 128 then 1 else Suc (uint_octets (n div 256)))"

declare uint_octets.simps [simp del]

text \<open>The shortest two's complement encoding of a natural number.\<close>

definition der_uint :: "nat \<Rightarrow> byte list" where
  "der_uint n = be_bytes (uint_octets n) n"

section \<open>Reads as operations on byte strings\<close>

lemma cbs_get_append [simp]: "cbs_get (xs @ ys) (length xs) = (Some xs, ys)"
  by (simp add: cbs_get_def)

lemma cbs_get_Some_iff:
  "cbs_get cbs n = (Some xs, rest) \<longleftrightarrow> cbs = xs @ rest \<and> length xs = n"
  by (auto simp: cbs_get_def)

lemma cbs_get_None: "cbs_get cbs n = (None, rest) \<Longrightarrow> rest = cbs"
  by (simp add: cbs_get_def split: if_splits)

lemma CBS_get_u8_simps [simp]:
  "CBS_get_u8 [] = (None, [])" "CBS_get_u8 (b # bs) = (Some b, bs)"
  by (simp_all add: CBS_get_u8_def cbs_get_def)

lemma get_u_fold:
  assumes "be_nat acc * 256 ^ length data + be_nat data < 2 ^ 32" and "r = word_of_nat (be_nat acc)"
  shows "foldl (\<lambda>r b. push_bit 8 r OR ucast b) (r :: u32) data = word_of_nat (be_nat (acc @ data))"
  using assms
proof (induction data arbitrary: acc r)
  case Nil
  then show ?case by simp
next
  case (Cons b data)
  have step: "push_bit 8 r OR ucast b = word_of_nat (be_nat (acc @ [b]))"
  proof -
    have "push_bit 8 r OR ucast b = ucast b OR push_bit 8 r" by (rule or.commute)
    also have "\<dots> = ucast b + push_bit 8 r"
      by (rule or_push_bit_add) simp
    also have "\<dots> = word_of_nat (unat b) + word_of_nat (be_nat acc * 2 ^ 8)"
      by (simp add: Cons.prems push_bit_word_of_nat)
    also have "\<dots> = word_of_nat (be_nat (acc @ [b]))" by simp
    finally show ?thesis .
  qed
  have "be_nat (acc @ [b]) * 256 ^ length data + be_nat data
      = be_nat acc * 256 ^ length (b # data) + be_nat (b # data)"
    by (simp add: be_nat_Cons algebra_simps)
  then show ?case using Cons.IH [of "acc @ [b]"] Cons.prems step by simp
qed

lemma cbs_get_u_eq:
  assumes "n \<le> 4"
  shows "cbs_get_u cbs n =
    (if length cbs < n then (None, cbs) else (Some (word_of_nat (be_nat (take n cbs))), drop n cbs))"
proof (cases "length cbs < n")
  case False
  have "be_nat (take n cbs) < 256 ^ n" using be_nat_bound [of "take n cbs"] False by simp
  also have "(256 :: nat) ^ n \<le> 256 ^ 4" using assms by (intro power_increasing) auto
  finally have "be_nat (take n cbs) < 2 ^ 32" by simp
  with False get_u_fold [of "[]" "take n cbs" 0] show ?thesis by (simp add: cbs_get_u_def cbs_get_def)
qed (simp add: cbs_get_u_def cbs_get_def)

lemma unat_get_u:
  assumes "length bs \<le> 4"
  shows "unat (word_of_nat (be_nat bs) :: u32) = be_nat bs"
proof -
  have "be_nat bs < 256 ^ length bs" by (rule be_nat_bound)
  also have "(256 :: nat) ^ length bs \<le> 256 ^ 4" using assms by (intro power_increasing) auto
  finally show ?thesis by (simp add: unat_of_nat)
qed

section \<open>Minimal lengths\<close>

lemma octets_pos: "0 < octets n"
  by (subst octets.simps) simp

lemma octets_unique:
  assumes "n < 256 ^ k" and "256 ^ (k - 1) \<le> n" and "0 < k"
  shows "octets n = k"
  using assms
proof (induction k arbitrary: n)
  case 0
  then show ?case by simp
next
  case (Suc k)
  show ?case
  proof (cases "k = 0")
    case True
    with Suc.prems show ?thesis by (simp add: octets.simps [of n])
  next
    case False
    then obtain j where j: "k = Suc j" by (cases k) auto
    have "n div 256 < 256 ^ k" using Suc.prems(1) by (simp add: less_mult_imp_div_less mult.commute)
    moreover have "256 ^ (k - 1) \<le> n div 256"
      using Suc.prems(2) by (simp add: j less_eq_div_iff_mult_less_eq mult.commute)
    ultimately have "octets (n div 256) = k" using False by (intro Suc.IH) auto
    moreover have "\<not> n < 256"
    proof -
      have "(256 :: nat) \<le> 256 ^ k" unfolding j by simp
      with Suc.prems(2) show ?thesis by simp
    qed
    ultimately show ?thesis by (simp add: octets.simps [of n])
  qed
qed

lemma octets_upper: "n < 256 ^ octets n"
proof (induction n rule: octets.induct)
  case (1 n)
  show ?case
  proof (cases "n < 256")
    case False
    with 1 have "n div 256 < 256 ^ octets (n div 256)" by simp
    then have "n < 256 * 256 ^ octets (n div 256)"
      by (simp add: div_less_iff_less_mult mult.commute)
    with False show ?thesis by (simp add: octets.simps [of n])
  qed (simp add: octets.simps [of n])
qed

lemma octets_lower: "0 < n \<Longrightarrow> 256 ^ (octets n - 1) \<le> n"
proof (induction n rule: octets.induct)
  case (1 n)
  show ?case
  proof (cases "n < 256")
    case False
    with 1 have "256 ^ (octets (n div 256) - 1) \<le> n div 256" by simp
    then have "256 * 256 ^ (octets (n div 256) - 1) \<le> n"
      by (simp add: less_eq_div_iff_mult_less_eq mult.commute)
    moreover have "256 * 256 ^ (octets (n div 256) - 1) = (256 :: nat) ^ octets (n div 256)"
      using octets_pos [of "n div 256"] by (metis Suc_diff_1 power_Suc)
    ultimately show ?thesis using False by (simp add: octets.simps [of n])
  qed (use 1 in \<open>simp add: octets.simps [of n]\<close>)
qed

lemma octets_le:
  assumes "n < 256 ^ k" "0 < k"
  shows "octets n \<le> k"
proof (cases "n = 0")
  case True
  with assms show ?thesis by (simp add: octets.simps)
next
  case False
  then have "256 ^ (octets n - 1) < (256 :: nat) ^ k"
    using octets_lower [of n] assms(1) by (meson le_less_trans neq0_conv)
  then have "octets n - 1 < k" by (simp add: power_strict_increasing_iff)
  then show ?thesis by linarith
qed

section \<open>The element parser\<close>

lemma short_form_iff: "\<forall>b :: byte. b AND 0x80 = 0 \<longleftrightarrow> unat b < 128"
  by (simp add: and_80_byte)

lemma long_form_low: "\<forall>b :: byte. b AND 0x80 \<noteq> 0 \<longrightarrow> b = word_of_nat (128 + unat (b AND 0x7f))"
  unfolding byte_all by code_simp

lemma long_form_count:
  "k \<le> 4 \<Longrightarrow> unat ((word_of_nat (128 + k) :: byte) AND 0x7f) = k
    \<and> (word_of_nat (128 + k) :: byte) AND 0x80 \<noteq> 0"
proof -
  assume "k \<le> 4"
  moreover have "list_all (\<lambda>k. unat ((word_of_nat (128 + k) :: byte) AND 0x7f) = k
      \<and> (word_of_nat (128 + k) :: byte) AND 0x80 \<noteq> 0) [0..<5]" by code_simp
  ultimately show ?thesis by (auto simp: list_all_iff)
qed

text \<open>The two minimality checks of the long form say that the count of length octets is minimal.\<close>

lemma long_form_minimal:
  assumes "length ls = k" and "0 < k" "k \<le> 4" and "128 \<le> be_nat ls"
  shows "drop_bit ((k - 1) * 8) (word_of_nat (be_nat ls) :: u32) \<noteq> 0 \<longleftrightarrow> octets (be_nat ls) = k"
proof -
  let ?w = "word_of_nat (be_nat ls) :: u32"
  have u: "unat ?w = be_nat ls" using assms by (intro unat_get_u) simp
  have "unat (drop_bit ((k - 1) * 8) ?w) = be_nat ls div 2 ^ ((k - 1) * 8)"
    unfolding unat_drop_bit_div u ..
  also have "(2 :: nat) ^ ((k - 1) * 8) = 256 ^ (k - 1)"
    by (subst mult.commute) (simp add: power_mult)
  finally have "drop_bit ((k - 1) * 8) ?w \<noteq> 0 \<longleftrightarrow> 256 ^ (k - 1) \<le> be_nat ls"
    by (metis div_eq_0_iff div_greater_zero_iff gr_zeroI unat_eq_zero not_less power_not_zero zero_neq_numeral)
  also have "\<dots> \<longleftrightarrow> octets (be_nat ls) = k"
    using octets_unique [of "be_nat ls" k] octets_lower [of "be_nat ls"] be_nat_bound [of ls] assms
    by auto
  finally show ?thesis .
qed

lemma der_length_long:
  assumes "length ls = octets (be_nat ls)" and "128 \<le> be_nat ls"
  shows "der_length (be_nat ls) = word_of_nat (128 + length ls) # ls"
  using assms be_bytes_be_nat [of ls] by (simp add: der_length_def)

text \<open>
  The DER parser in one equation: it accepts exactly the strings that start with a tag octet of
  the low-tag-number form, the canonical encoding of a length below \<open>2 ^ 32\<close>, and that many octets.
\<close>

lemma get_any_asn1_element_complete:
  assumes tag: "tag AND 0x1f \<noteq> 0x1f" and len: "length contents < 2 ^ 32"
  shows "cbs_get_any_asn1_element (der_element tag contents @ rest) ber_ok
    = (Some (der_element tag contents, ucast tag, 1 + length (der_length (length contents))), rest)"
proof (cases "length contents < 128")
  case True
  let ?b = "word_of_nat (length contents) :: byte"
  have b: "unat ?b = length contents" using True by (simp add: unat_of_nat)
  then have "?b AND 0x80 = 0" using True short_form_iff [rule_format, of ?b] by simp
  moreover have "cbs_get (der_element tag contents @ rest) (length contents + 2)
      = (Some (der_element tag contents), rest)"
    using True by (auto simp: cbs_get_Some_iff der_element_def der_length_def)
  ultimately show ?thesis using tag True b
    by (simp add: cbs_get_any_asn1_element_def der_element_def der_length_def CBS_get_bytes_def Let_def)
next
  case False
  let ?n = "length contents" and ?k = "octets (length contents)"
  let ?b = "word_of_nat (128 + ?k) :: byte" and ?ls = "be_bytes ?k ?n"
  have k: "?k \<le> 4" "0 < ?k" using len octets_le [of ?n 4] octets_pos by auto
  have be: "be_nat ?ls = ?n" using octets_upper [of ?n] by (simp add: be_nat_be_bytes)
  have u: "unat (word_of_nat ?n :: u32) = ?n" using len by (simp add: unat_of_nat)
  have get: "cbs_get_u (?ls @ contents @ rest) ?k = (Some (word_of_nat ?n), contents @ rest)"
    using k be by (simp add: cbs_get_u_eq)
  have min: "drop_bit ((?k - 1) * 8) (word_of_nat ?n :: u32) \<noteq> 0"
    using long_form_minimal [of ?ls ?k] k be False by simp
  have big: "\<not> (word_of_nat ?n :: u32) < 128" using False u by (simp add: word_less_nat_alt)
  have no_wrap: "?n + (2 + ?k) < SIZE_MODULUS" using len k by (simp add: SIZE_MODULUS_def)
  have elem: "der_element tag contents = tag # ?b # ?ls @ contents"
    using False by (simp add: der_element_def der_length_def)
  have fin: "cbs_get (tag # ?b # ?ls @ contents @ rest) (?n + (2 + ?k))
      = (Some (tag # ?b # ?ls @ contents), rest)"
    by (simp add: cbs_get_Some_iff)
  show ?thesis
    using tag k long_form_count [OF k(1)] get min big no_wrap fin False
    by (simp add: cbs_get_any_asn1_element_def elem CBS_get_bytes_def u der_length_def Let_def
        del: of_nat_add)
qed

lemma get_any_asn1_element_sound:
  assumes "CBS_get_any_asn1_element cbs = (Some (out, tag, header_len), rest)"
  shows "\<exists>t contents. tag = ucast t \<and> t AND 0x1f \<noteq> 0x1f \<and> length contents < 2 ^ 32
    \<and> out = der_element t contents \<and> header_len = 1 + length (der_length (length contents))
    \<and> cbs = out @ rest"
proof -
  obtain t b hd where cbs: "cbs = t # b # hd"
    using assms by (cases cbs; cases "tl cbs")
      (auto simp: CBS_get_any_asn1_element_def cbs_get_any_asn1_element_def)
  show ?thesis
  proof (cases "b AND 0x80 = 0")
    case True
    then have small: "unat b < 128" using short_form_iff by blast
    with assms True obtain contents where "out = t # b # contents" "length contents = unat b"
      "hd = contents @ rest" "tag = ucast t" "t AND 0x1f \<noteq> 0x1f" "header_len = 2"
      by (auto simp: cbs CBS_get_any_asn1_element_def cbs_get_any_asn1_element_def CBS_get_bytes_def
          cbs_get_def Let_def split: if_splits)
    with small show ?thesis
      by (intro exI [of _ t] exI [of _ contents]) (auto simp: cbs der_element_def der_length_def)
  next
    case False
    let ?k = "unat (b AND 0x7f)"
    have b: "b = word_of_nat (128 + ?k)" using False long_form_low by blast
    from assms False have k: "0 < ?k" "?k \<le> 4" and len: "?k \<le> length hd"
      by (auto simp: cbs CBS_get_any_asn1_element_def cbs_get_any_asn1_element_def cbs_get_u_eq
          Let_def split: if_splits)
    define ls where "ls = take ?k hd"
    have ls: "length ls = ?k" using len by (simp add: ls_def)
    have u: "unat (word_of_nat (be_nat ls) :: u32) = be_nat ls" using ls k by (intro unat_get_u) simp
    have lt: "be_nat ls < 2 ^ 32"
      using u unsigned_less [of "word_of_nat (be_nat ls) :: u32", where 'a = nat] by simp
    have no_wrap: "be_nat ls + (2 + ?k) < SIZE_MODULUS" using lt k by (simp add: SIZE_MODULUS_def)
    from assms False k len ls no_wrap have acc: "128 \<le> be_nat ls"
      "drop_bit ((?k - 1) * 8) (word_of_nat (be_nat ls) :: u32) \<noteq> 0"
      "tag = ucast t" "t AND 0x1f \<noteq> 0x1f" "header_len = 2 + ?k"
      and get: "cbs_get cbs (be_nat ls + (2 + ?k)) = (Some out, rest)"
      by (auto simp: cbs CBS_get_any_asn1_element_def cbs_get_any_asn1_element_def cbs_get_u_eq
          CBS_get_bytes_def u word_less_nat_alt Let_def simp flip: ls_def
          split: if_splits option.splits prod.splits)
    have "octets (be_nat ls) = ?k" using long_form_minimal [OF ls k acc(1)] acc(2) by simp
    then have dl: "der_length (be_nat ls) = b # ls"
      using der_length_long [of ls] ls acc(1) b by simp
    have hd: "hd = ls @ drop ?k hd" by (simp add: ls_def)
    from get have "cbs = out @ rest" "length out = be_nat ls + (2 + ?k)" by (simp_all add: cbs_get_Some_iff)
    then have out: "out @ rest = t # b # ls @ drop ?k hd" using hd cbs by simp
    define contents where "contents = drop (2 + ?k) out"
    have "take (2 + ?k) out = take (2 + ?k) (out @ rest)" using \<open>length out = _\<close> by simp
    also have "\<dots> = t # b # ls" unfolding out using ls by simp
    finally have c: "out = t # b # ls @ contents"
      using append_take_drop_id [of "2 + ?k" out] by (simp add: contents_def)
    have "length contents = be_nat ls" using \<open>length out = _\<close> by (simp add: contents_def)
    then show ?thesis using acc c dl lt \<open>cbs = out @ rest\<close> ls
      by (intro exI [of _ t] exI [of _ contents]) (auto simp: der_element_def)
  qed
qed

lemma CBS_get_any_asn1_iff:
  "CBS_get_any_asn1 cbs = (Some (contents, tag), rest) \<longleftrightarrow>
    (\<exists>t. tag = ucast t \<and> t AND 0x1f \<noteq> 0x1f \<and> length contents < 2 ^ 32
      \<and> cbs = der_element t contents @ rest)"
proof
  assume "CBS_get_any_asn1 cbs = (Some (contents, tag), rest)"
  then obtain out hl where e: "CBS_get_any_asn1_element cbs = (Some (out, tag, hl), rest)"
    and s: "CBS_skip out hl = (True, contents)"
    by (auto simp: CBS_get_any_asn1_def split: prod.splits option.splits if_splits)
  from get_any_asn1_element_sound [OF e] s
  show "\<exists>t. tag = ucast t \<and> t AND 0x1f \<noteq> 0x1f \<and> length contents < 2 ^ 32
      \<and> cbs = der_element t contents @ rest"
    by (auto simp: CBS_skip_def cbs_get_def der_element_def split: if_splits)
next
  assume "\<exists>t. tag = ucast t \<and> t AND 0x1f \<noteq> 0x1f \<and> length contents < 2 ^ 32
      \<and> cbs = der_element t contents @ rest"
  then obtain t where t: "tag = ucast t" "t AND 0x1f \<noteq> 0x1f" "length contents < 2 ^ 32"
    and cbs: "cbs = der_element t contents @ rest" by blast
  have "CBS_skip (der_element t contents) (1 + length (der_length (length contents))) = (True, contents)"
    by (simp add: CBS_skip_def cbs_get_def der_element_def)
  with get_any_asn1_element_complete [OF t(2,3), of rest False] t(1)
  show "CBS_get_any_asn1 cbs = (Some (contents, tag), rest)"
    by (simp add: CBS_get_any_asn1_def CBS_get_any_asn1_element_def cbs)
qed

lemma CBS_get_asn1_via_any:
  "CBS_get_asn1 cbs tag =
    (case CBS_get_any_asn1 cbs of
       (None, cbs') \<Rightarrow> (None, cbs')
     | (Some (contents, t), cbs') \<Rightarrow> if t = tag then (Some contents, cbs') else (None, cbs'))"
proof (cases "CBS_get_any_asn1_element cbs")
  case (Pair r cbs')
  show ?thesis
  proof (cases r)
    case (Some e)
    obtain out t hl where e: "e = (out, t, hl)" by (cases e)
    from get_any_asn1_element_sound [of cbs out t hl cbs'] Pair Some e
    have "hl \<le> length out" by (auto simp: der_element_def)
    then have "fst (CBS_skip out hl)" by (simp add: CBS_skip_def cbs_get_def)
    then show ?thesis using Pair Some e
      by (auto simp: CBS_get_asn1_def cbs_get_asn1_def CBS_get_any_asn1_def split: prod.splits)
  qed (simp add: Pair CBS_get_asn1_def cbs_get_asn1_def CBS_get_any_asn1_def)
qed

lemma CBS_get_asn1_iff:
  "CBS_get_asn1 cbs tag = (Some contents, rest) \<longleftrightarrow>
    (\<exists>t. tag = ucast t \<and> t AND 0x1f \<noteq> 0x1f \<and> length contents < 2 ^ 32
      \<and> cbs = der_element t contents @ rest)"
  unfolding CBS_get_any_asn1_iff [symmetric]
  by (auto simp: CBS_get_asn1_via_any split: prod.splits option.splits if_splits)

section \<open>INTEGER values\<close>

lemma uint64_step:
  assumes "drop_bit 56 (r :: u64) = 0"
  shows "unat (push_bit 8 r OR ucast (b :: byte)) = unat r * 256 + unat b"
proof -
  have "unat (drop_bit 56 r) = 0" using assms by simp
  then have small: "unat r < 2 ^ 56" by (simp only: unat_drop_bit_div) (simp add: div_eq_0_iff)
  have "push_bit 8 r OR ucast b = ucast b + push_bit 8 r"
    by (subst or.commute) (rule or_push_bit_add, simp)
  also have "\<dots> = word_of_nat (unat b + unat r * 256)" by (simp add: push_bit_eq_mult)
  finally have "push_bit 8 r OR ucast b = word_of_nat (unat b + unat r * 256)" .
  moreover have "unat b + unat r * 256 < 2 ^ 64"
    using leading_digit_less [OF unat_byte_less [of b], of "unat r" "2 ^ 56"] small by simp
  ultimately show ?thesis by (simp add: unat_of_nat del: of_nat_add)
qed

lemma uint64_loop_iff:
  "uint64_loop r data = Some v \<longleftrightarrow>
    unat r * 256 ^ length data + be_nat data < 2 ^ 64
      \<and> unat v = unat r * 256 ^ length data + be_nat data"
proof (induction data arbitrary: r)
  case Nil
  show ?case using unsigned_less [of r, where 'a = nat] by (auto simp: word_unat_eq_iff)
next
  case (Cons b data)
  let ?val = "unat r * 256 ^ length (b # data) + be_nat (b # data)"
  show ?case
  proof (cases "drop_bit 56 r = 0")
    case True
    have "unat (push_bit 8 r OR ucast b) * 256 ^ length data + be_nat data = ?val"
      using uint64_step [OF True] by (simp add: be_nat_Cons algebra_simps)
    with True Cons.IH [of "push_bit 8 r OR ucast b"] show ?thesis by simp
  next
    case False
    then have "unat (drop_bit 56 r) \<noteq> 0" by (metis unat_eq_zero)
    then have "2 ^ 56 \<le> unat r"
      by (simp only: unat_drop_bit_div) (simp add: div_eq_0_iff)
    then have "2 ^ 56 * 256 * 1 \<le> unat r * 256 * 256 ^ length data"
      by (intro mult_le_mono) auto
    then have "\<not> ?val < 2 ^ 64" by simp
    with False show ?thesis by simp
  qed
qed

lemma uint_octets_iff:
  "0 < k \<Longrightarrow> uint_octets n = k \<longleftrightarrow>
    n < 128 * 256 ^ (k - 1) \<and> (k = 1 \<or> 128 * 256 ^ (k - 2) \<le> n)"
proof (induction k arbitrary: n)
  case (Suc k)
  show ?case
  proof (cases "n < 128")
    case True
    then have "n < 128 * 256 ^ j" for j by (rule less_le_trans) simp
    then have "\<not> 128 * 256 ^ j \<le> n" for j by (simp only: not_le)
    with True show ?thesis by (auto simp: uint_octets.simps [of n])
  next
    case False
    have unfold: "uint_octets n = Suc (uint_octets (n div 256))"
      using False by (simp add: uint_octets.simps [of n])
    show ?thesis
    proof (cases k)
      case 0
      have "uint_octets (n div 256) \<noteq> 0" by (subst uint_octets.simps) simp
      with 0 False unfold show ?thesis by simp
    next
      case (Suc j)
      have "n div 256 < 128 * 256 ^ j \<longleftrightarrow> n < 128 * 256 ^ Suc j"
        by (simp add: div_less_iff_less_mult mult.commute mult.left_commute)
      moreover have "j = 0 \<or> 128 * 256 ^ (j - 1) \<le> n div 256 \<longleftrightarrow> 128 * 256 ^ j \<le> n"
        using False by (cases j)
          (auto simp: less_eq_div_iff_mult_less_eq mult.commute mult.left_commute)
      ultimately show ?thesis using unfold Suc.IH [of "n div 256"] by (auto simp: Suc)
    qed
  qed
qed simp

lemma uint_octets_pos: "0 < uint_octets n"
  by (subst uint_octets.simps) simp

lemma uint_octets_upper: "n < 256 ^ uint_octets n"
proof -
  have "n < 128 * 256 ^ (uint_octets n - 1)"
    using uint_octets_iff [OF uint_octets_pos, of n n] by simp
  also have "\<dots> \<le> 256 * 256 ^ (uint_octets n - 1)" by simp
  also have "\<dots> = 256 ^ uint_octets n" using uint_octets_pos [of n] by (metis Suc_diff_1 power_Suc)
  finally show ?thesis .
qed

lemma uint_octets_u64: "n < 2 ^ 64 \<Longrightarrow> uint_octets n \<le> 9"
proof (rule ccontr)
  assume n: "n < 2 ^ 64" and "\<not> uint_octets n \<le> 9"
  then have "128 * 256 ^ (uint_octets n - 2) \<le> n" and "8 \<le> uint_octets n - 2"
    using uint_octets_iff [OF uint_octets_pos, of n n] by auto
  moreover from this(2) have "(256 :: nat) ^ 8 \<le> 256 ^ (uint_octets n - 2)"
    by (intro power_increasing) auto
  ultimately show False using n by simp
qed

text \<open>The sign test and the leading-zero test together say that the encoding is the shortest.\<close>

lemma uint_checks_iff:
  assumes "data \<noteq> []"
  shows "data ! 0 AND 0x80 = 0 \<and> \<not> (data ! 0 = 0 \<and> 1 < length data \<and> data ! 1 AND 0x80 = 0)
    \<longleftrightarrow> uint_octets (be_nat data) = length data"
proof -
  obtain h tl where d: "data = h # tl" using assms by (cases data) auto
  have be: "be_nat data = unat h * 256 ^ length tl + be_nat tl" by (simp add: d be_nat_Cons)
  have sign: "h AND 0x80 = 0 \<longleftrightarrow> be_nat data < 128 * 256 ^ length tl"
    unfolding be short_form_iff [rule_format] leading_digit_less [OF be_nat_bound] ..
  show ?thesis
  proof (cases tl)
    case Nil
    with sign show ?thesis by (simp add: d uint_octets_iff)
  next
    case (Cons g tl')
    have tl: "be_nat tl = unat g * 256 ^ length tl' + be_nat tl'" by (simp add: Cons be_nat_Cons)
    have "be_nat tl < 128 * 256 ^ length tl' \<longleftrightarrow> unat g < 128"
      unfolding tl by (rule leading_digit_less [OF be_nat_bound])
    moreover have "128 * 256 ^ length tl' \<le> be_nat data" if "h \<noteq> 0"
    proof -
      have "1 * (256 * 256 ^ length tl') \<le> unat h * 256 ^ length tl"
        using that by (intro mult_le_mono) (auto simp: Cons Suc_le_eq unat_gt_0)
      then show ?thesis by (simp add: be)
    qed
    ultimately have "\<not> (h = 0 \<and> unat g < 128) \<longleftrightarrow> 128 * 256 ^ length tl' \<le> be_nat data"
      using be by (cases "h = 0") auto
    with sign show ?thesis by (simp add: d Cons uint_octets_iff short_form_iff [rule_format])
  qed
qed

lemma CBS_get_asn1_uint64_iff:
  "CBS_get_asn1_uint64 cbs = (Some v, rest) \<longleftrightarrow> cbs = der_element 2 (der_uint (unat v)) @ rest"
proof
  assume "CBS_get_asn1_uint64 cbs = (Some v, rest)"
  then obtain data where get: "CBS_get_asn1 cbs CBS_ASN1_INTEGER = (Some data, rest)"
    and ne: "data \<noteq> []"
    and chk: "data ! 0 AND 0x80 = 0 \<and> \<not> (data ! 0 = 0 \<and> 1 < length data \<and> data ! 1 AND 0x80 = 0)"
    and loop: "uint64_loop 0 data = Some v"
    by (auto simp: CBS_get_asn1_uint64_def split: prod.splits option.splits if_splits)
  have "der_uint (unat v) = data"
    using loop chk uint_checks_iff [OF ne] be_bytes_be_nat [of data]
    by (simp add: uint64_loop_iff der_uint_def)
  moreover from get obtain t :: byte where "ucast t = CBS_ASN1_INTEGER" "cbs = der_element t data @ rest"
    unfolding CBS_get_asn1_iff by metis
  moreover from this(1) have "t = 2"
    using ucast_byte_inj [of t 2] by (simp add: CBS_ASN1_INTEGER_def)
  ultimately show "cbs = der_element 2 (der_uint (unat v)) @ rest" by simp
next
  assume cbs: "cbs = der_element 2 (der_uint (unat v)) @ rest"
  let ?d = "der_uint (unat v)"
  have small: "unat v < 2 ^ 64" using unsigned_less [of v, where 'a = nat] by simp
  have len: "length ?d = uint_octets (unat v)" by (simp add: der_uint_def)
  have be: "be_nat ?d = unat v"
    using uint_octets_upper [of "unat v"] by (simp add: der_uint_def be_nat_be_bytes)
  have ne: "?d \<noteq> []" using len uint_octets_pos [of "unat v"] by auto
  have "CBS_get_asn1 cbs CBS_ASN1_INTEGER = (Some ?d, rest)"
    unfolding CBS_get_asn1_iff cbs using len uint_octets_u64 [OF small]
    by (intro exI [of _ 2]) (simp add: CBS_ASN1_INTEGER_def)
  then show "CBS_get_asn1_uint64 cbs = (Some v, rest)"
    using uint_checks_iff [OF ne] len be ne small uint64_loop_iff [of 0 ?d v]
    by (auto simp: CBS_get_asn1_uint64_def uint_octets_pos)
qed

section \<open>BIT STRING contents\<close>

definition byte_bits :: "byte \<Rightarrow> bool list" where
  "byte_bits b = map (\<lambda>j. bit b (7 - j)) [0..<8]"

text \<open>
  The bits a BIT STRING value denotes: the octets after the first, most significant bit first,
  without the unused bits that the first octet counts.
\<close>

definition bitstring_bits :: "cbs \<Rightarrow> bool list" where
  "bitstring_bits cbs =
     take (8 * (length cbs - 1) - unat (cbs ! 0)) (concat (map byte_bits (tl cbs)))"

lemma length_byte_bits [simp]: "length (byte_bits b) = 8"
  by (simp add: byte_bits_def)

lemma length_concat_byte_bits [simp]: "length (concat (map byte_bits bs)) = 8 * length bs"
  by (induction bs) auto

lemma nth_concat_byte_bits:
  "i < 8 * length bs \<Longrightarrow> concat (map byte_bits bs) ! i = bit (bs ! (i div 8)) (7 - i mod 8)"
proof (induction bs arbitrary: i)
  case (Cons b bs)
  show ?case
  proof (cases "i < 8")
    case True
    then show ?thesis by (simp add: nth_append byte_bits_def)
  next
    case False
    then obtain j where j: "i = 8 + j" using le_Suc_ex not_less by blast
    have "(8 + j) div 8 = Suc (j div 8)" by simp
    with j Cons.IH [of j] Cons.prems show ?thesis by (simp add: nth_append)
  qed
qed simp

lemma unused_mask_iff:
  assumes "u < 8"
  shows "ucast (b :: byte) AND (2 ^ u - 1 :: u32) = 0 \<longleftrightarrow> (\<forall>j<u. \<not> bit b j)"
proof -
  have "ucast b AND (2 ^ u - 1 :: u32) = 0 \<longleftrightarrow> (\<forall>j<32. \<not> (bit b j \<and> j < u))"
    unfolding mask_eq_exp_minus_1 [symmetric] by (auto simp: bit_eq_iff [where 'a = "32 word"] bit_simps)
  also have "\<dots> \<longleftrightarrow> (\<forall>j<u. \<not> bit b j)"
  proof -
    have "j < 32" if "j < u" for j using that assms by simp
    then show ?thesis by blast
  qed
  finally show ?thesis .
qed

lemma single_bit_iff:
  assumes "k < 8"
  shows "ucast (b :: byte) AND (2 ^ k :: u32) \<noteq> 0 \<longleftrightarrow> bit b k"
proof -
  have "ucast b AND (2 ^ k :: u32) \<noteq> 0 \<longleftrightarrow> (\<exists>j<32. bit b j \<and> j = k)"
    by (auto simp: bit_eq_iff [where 'a = "32 word"] bit_simps)
  with assms show ?thesis by auto
qed

lemma valid_bitstring_iff:
  "CBS_is_valid_asn1_bitstring (n # bs) \<longleftrightarrow>
    unat n < 8 \<and> (n = 0 \<or> bs \<noteq> [] \<and> (\<forall>j<unat n. \<not> bit (bs ! (length bs - 1)) j))"
  by (auto simp: CBS_is_valid_asn1_bitstring_def CBS_get_last_u8_def unused_mask_iff
      word_less_nat_alt unat_eq_zero)

lemma bitstring_unused_clear:
  assumes valid: "CBS_is_valid_asn1_bitstring (n # bs)" and i: "i < 8 * length bs"
    and unused: "8 * length bs - unat n \<le> i"
  shows "\<not> bit (bs ! (i div 8)) (7 - i mod 8)"
proof -
  have n: "unat n < 8" "n \<noteq> 0" using valid i unused by (auto simp: valid_bitstring_iff)
  with i unused have last: "i div 8 = length bs - 1" by linarith
  moreover have "i = 8 * (i div 8) + i mod 8" by simp
  with last n i unused have "7 - i mod 8 < unat n" by linarith
  ultimately show ?thesis using valid n by (simp add: valid_bitstring_iff)
qed

lemma has_bit_iff:
  "CBS_asn1_bitstring_has_bit cbs i \<longleftrightarrow>
    CBS_is_valid_asn1_bitstring cbs \<and> unat i < length (bitstring_bits cbs) \<and> bitstring_bits cbs ! unat i"
proof (cases cbs)
  case Nil
  then show ?thesis
    by (simp add: CBS_asn1_bitstring_has_bit_def CBS_is_valid_asn1_bitstring_def)
next
  case (Cons n bs)
  have "unat (drop_bit 3 i + 1) = unat i div 8 + 1"
  proof -
    have "unat i div 8 + 1 < 2 ^ 32" using unat_u32_less [of i] by simp
    then show ?thesis using unat_drop_bit_div [of 3 i] by (simp add: unat_word_ariths)
  qed
  moreover have "unat (7 - (i AND 7)) = 7 - unat i mod 8"
  proof -
    have low: "i AND 7 = take_bit 3 i" by (simp add: take_bit_eq_mask mask_numeral)
    have "unat (take_bit 3 i) = unat i mod 8" by (simp add: unsigned_take_bit_eq take_bit_eq_mod [of _ "unat i"])
    then show ?thesis unfolding low by (subst unat_sub) (auto simp: word_le_nat_alt)
  qed
  ultimately have has: "CBS_asn1_bitstring_has_bit cbs i \<longleftrightarrow> CBS_is_valid_asn1_bitstring cbs
      \<and> unat i < 8 * length bs \<and> bit (bs ! (unat i div 8)) (7 - unat i mod 8)"
    using single_bit_iff [of "7 - unat i mod 8" "bs ! (unat i div 8)"]
    by (auto simp: CBS_asn1_bitstring_has_bit_def Cons Let_def)
  moreover have "unat i < 8 * length bs - unat n" if "CBS_is_valid_asn1_bitstring cbs"
    "unat i < 8 * length bs" "bit (bs ! (unat i div 8)) (7 - unat i mod 8)"
    using that bitstring_unused_clear [of n bs "unat i"] not_le by (auto simp: Cons)
  ultimately show ?thesis
    by (auto simp: Cons bitstring_bits_def nth_concat_byte_bits)
qed

lemma length_prefixed_iff:
  assumes "0 < k" and "k < 4"
  shows "cbs_get_length_prefixed cbs k = (Some out, rest) \<longleftrightarrow>
    length out < 256 ^ k \<and> cbs = be_bytes k (length out) @ out @ rest"
proof
  assume "cbs_get_length_prefixed cbs k = (Some out, rest)"
  then have k: "k \<le> length cbs" and get: "cbs_get (drop k cbs) (be_nat (take k cbs)) = (Some out, rest)"
    using assms by (auto simp: cbs_get_length_prefixed_def cbs_get_u_eq CBS_get_bytes_def unat_get_u
        split: if_splits)
  then have out: "drop k cbs = out @ rest" "length out = be_nat (take k cbs)"
    by (simp_all add: cbs_get_Some_iff)
  moreover have "be_bytes k (be_nat (take k cbs)) = take k cbs"
    using be_bytes_be_nat [of "take k cbs"] k by simp
  moreover have "be_nat (take k cbs) < 256 ^ k" using be_nat_bound [of "take k cbs"] k by simp
  ultimately show "length out < 256 ^ k \<and> cbs = be_bytes k (length out) @ out @ rest"
    by (metis append_take_drop_id)
next
  assume "length out < 256 ^ k \<and> cbs = be_bytes k (length out) @ out @ rest"
  then show "cbs_get_length_prefixed cbs k = (Some out, rest)"
    using assms unat_get_u [of "be_bytes k (length out)"]
    by (simp add: cbs_get_length_prefixed_def cbs_get_u_eq CBS_get_bytes_def be_nat_be_bytes)
qed

section \<open>Properties\<close>

text \<open>
  C9: the DER parser accepts exactly the canonical encodings. \<open>CBS_get_any_asn1\<close> returns
  contents, tag and rest if and only if the input is the canonical DER element (single tag
  octet, minimal length octets) with those contents followed by that rest; in particular no
  other encoding of the same element is accepted.
\<close>

theorem CBS_get_any_asn1_accepts_der:
  "CBS_get_any_asn1 cbs = (Some (contents, tag), rest) \<longleftrightarrow>
    (\<exists>t. tag = ucast t \<and> t AND 0x1f \<noteq> 0x1f \<and> length contents < 2 ^ 32
      \<and> cbs = der_element t contents @ rest)"
  by (rule CBS_get_any_asn1_iff)

text \<open>
  \<open>CBS_get_asn1_uint64\<close> returns \<open>v\<close> if and only if the input starts with the one DER
  INTEGER that denotes \<open>v\<close>: negative, over-long and padded integers are all rejected and
  no representable value is.
\<close>

theorem CBS_get_asn1_uint64_canonical:
  "CBS_get_asn1_uint64 cbs = (Some v, rest) \<longleftrightarrow> cbs = der_element 2 (der_uint (unat v)) @ rest"
  by (rule CBS_get_asn1_uint64_iff)

text \<open>
  \<open>CBS_asn1_bitstring_has_bit\<close> answers for the bits the value denotes: a bit index beyond the
  string, or among the unused bits, is not set, and an ill-formed value has no bits.
\<close>

theorem CBS_asn1_bitstring_has_bit_denotes:
  "CBS_asn1_bitstring_has_bit cbs i \<longleftrightarrow>
    CBS_is_valid_asn1_bitstring cbs \<and> unat i < length (bitstring_bits cbs) \<and> bitstring_bits cbs ! unat i"
  by (rule has_bit_iff)

text \<open>
  The optional-integer reader. It consumes nothing and yields the default when the next tag
  differs, and otherwise succeeds exactly on an explicitly tagged canonical INTEGER with nothing
  after it inside the tag.
\<close>

theorem CBS_get_optional_asn1_uint64_cases:
  fixes t :: byte
  shows "CBS_get_optional_asn1_uint64 cbs (ucast t) dflt = (Some v, rest) \<longleftrightarrow>
    (if cbs \<noteq> [] \<and> hd cbs = t
     then t AND 0x1f \<noteq> 0x1f \<and> cbs = der_element t (der_element 2 (der_uint (unat v))) @ rest
     else v = dflt \<and> rest = cbs)"
proof (cases "cbs \<noteq> [] \<and> hd cbs = t")
  case True
  then have peek: "CBS_peek_asn1_tag cbs (ucast t)"
    by (cases cbs) (auto simp: CBS_peek_asn1_tag_def)
  have small: "length (der_element 2 (der_uint (unat v))) < 2 ^ 32"
  proof -
    have "uint_octets (unat v) \<le> 9"
      using uint_octets_u64 unsigned_less [of v, where 'a = nat] by simp
    then show ?thesis by (simp add: der_element_def der_length_def der_uint_def)
  qed
  have "CBS_get_optional_asn1_uint64 cbs (ucast t) dflt = (Some v, rest) \<longleftrightarrow>
      (\<exists>child. CBS_get_asn1 cbs (ucast t) = (Some child, rest) \<and> CBS_get_asn1_uint64 child = (Some v, []))"
    using peek by (auto simp: CBS_get_optional_asn1_uint64_def CBS_get_optional_asn1_def
        split: prod.splits option.splits if_splits)
  also have "\<dots> \<longleftrightarrow> t AND 0x1f \<noteq> 0x1f \<and> cbs = der_element t (der_element 2 (der_uint (unat v))) @ rest"
    using small by (auto simp: CBS_get_asn1_iff CBS_get_asn1_uint64_iff ucast_byte_inj)
  finally show ?thesis using True by simp
next
  case False
  then have "\<not> CBS_peek_asn1_tag cbs (ucast t)"
    by (cases cbs) (auto simp: CBS_peek_asn1_tag_def ucast_byte_inj)
  with False show ?thesis
    by (auto simp: CBS_get_optional_asn1_uint64_def CBS_get_optional_asn1_def)
qed

end
