(* ===== verification/Cbb.thy ===== *)
theory Cbb
  imports Cbs
begin

text \<open>
  The byte-string builder \<open>CBB\<close> (\<open>crypto/bytestring/cbb.c\<close>).

  All \<open>CBB\<close> objects of one builder share the heap object \<open>struct cbb_buffer_st\<close>, the record
  \<open>cbb_buffer\<close>. The objects form a chain through their \<open>child\<close> pointers: the state \<open>cbb\<close> holds the
  buffer and the chain, and an object is named by its depth in it (0 is the top-level object, a
  depth beyond the chain is an object whose \<open>base\<close> has been reset to NULL by a flush). A child
  carries the offset of its length prefix, the width of the prefix and whether it is an ASN.1
  element. A pointer into the buffer is its index. The allocator is a parameter.

  \<open>close_frame\<close> is the specification of a flush: it replaces the placeholder of the innermost open
  child by the encoding of the length of what follows.
\<close>

section \<open>State\<close>

record cbb_buffer =
  cb_buf :: "byte list"
  cb_len :: nat
  cb_cap :: nat
  cb_can_resize :: bool
  cb_error :: bool

record cbb_child =
  cc_offset :: nat
  pending_len_len :: nat
  pending_is_asn1 :: bool

record cbb =
  cb_base :: cbb_buffer
  cb_children :: "cbb_child list"

definition cbb_init :: "byte list \<Rightarrow> nat \<Rightarrow> cbb" where
  "cbb_init buf cap =
     \<lparr>cb_base = \<lparr>cb_buf = buf, cb_len = 0, cb_cap = cap, cb_can_resize = True, cb_error = False\<rparr>,
      cb_children = []\<rparr>"

text \<open>
  \<open>sizeof_base\<close> is the size of the buffer header, whose allocation may fail as well.
\<close>

definition CBB_init :: "allocator \<Rightarrow> nat \<Rightarrow> nat \<Rightarrow> cbb option" where
  "CBB_init al sizeof_base initial_capacity =
     (case OPENSSL_malloc al initial_capacity of
        None \<Rightarrow> if 0 < initial_capacity then None
                 else if mallocs al sizeof_base then Some (cbb_init [] initial_capacity) else None
      | Some buf \<Rightarrow> if mallocs al sizeof_base then Some (cbb_init buf initial_capacity) else None)"

definition CBB_init_fixed :: "allocator \<Rightarrow> nat \<Rightarrow> byte list \<Rightarrow> nat \<Rightarrow> cbb option" where
  "CBB_init_fixed al sizeof_base buf len =
     (if mallocs al sizeof_base
      then Some (cbb_init buf len
             \<lparr>cb_base := (cb_base (cbb_init buf len))\<lparr>cb_can_resize := False\<rparr>\<rparr>)
      else None)"

definition set_base :: "cbb \<Rightarrow> cbb_buffer \<Rightarrow> cbb" where
  "set_base s b = s\<lparr>cb_base := b\<rparr>"

definition cbb_fail :: "cbb \<Rightarrow> cbb" where
  "cbb_fail s = set_base s ((cb_base s)\<lparr>cb_error := True\<rparr>)"

section \<open>The buffer\<close>

definition cbb_buffer_reserve :: "allocator \<Rightarrow> cbb_buffer \<Rightarrow> nat \<Rightarrow> bool \<times> cbb_buffer" where
  "cbb_buffer_reserve al b len =
     (let newlen = sz (cb_len b + len); err = (False, b\<lparr>cb_error := True\<rparr>) in
      if newlen < cb_len b then err
      else if cb_cap b < newlen then
        let newcap = sz (cb_cap b * 2) in
        if \<not> cb_can_resize b then err
        else
          let newcap = (if newcap < cb_cap b \<or> newcap < newlen then newlen else newcap) in
          (case OPENSSL_realloc al (cb_buf b) newcap of
             None \<Rightarrow> err
           | Some newbuf \<Rightarrow> (True, b\<lparr>cb_buf := newbuf, cb_cap := newcap\<rparr>))
      else (True, b))"

definition cbb_buffer_add :: "allocator \<Rightarrow> cbb_buffer \<Rightarrow> nat \<Rightarrow> bool \<times> cbb_buffer" where
  "cbb_buffer_add al b len =
     (case cbb_buffer_reserve al b len of
        (ok, b') \<Rightarrow> if \<not> ok then (False, b') else (True, b'\<lparr>cb_len := cb_len b' + len\<rparr>))"

text \<open>
  The descending loops of \<open>cbb_buffer_add_u\<close> and \<open>CBB_flush\<close>: store \<open>n\<close> bytes of \<open>v\<close> at \<open>off\<close>,
  last one first, and return what is left of \<open>v\<close>.
\<close>

fun put_be :: "byte list \<Rightarrow> nat \<Rightarrow> nat \<Rightarrow> nat \<Rightarrow> byte list \<times> nat" where
  "put_be buf off 0 v = (buf, v)"
| "put_be buf off (Suc i) v = put_be (buf[off + i := word_of_nat v]) off i (v div 256)"

definition cbb_buffer_add_u :: "allocator \<Rightarrow> cbb_buffer \<Rightarrow> u32 \<Rightarrow> nat \<Rightarrow> bool \<times> cbb_buffer" where
  "cbb_buffer_add_u al b v len_len =
     (if len_len = 0 then (True, b)
      else case cbb_buffer_add al b len_len of
             (ok, b') \<Rightarrow>
               if \<not> ok then (False, b')
               else (case put_be (cb_buf b') (cb_len b) len_len (unat v) of
                       (buf', v') \<Rightarrow>
                         if v' \<noteq> 0 then (False, b'\<lparr>cb_buf := buf', cb_error := True\<rparr>)
                         else (True, b'\<lparr>cb_buf := buf'\<rparr>)))"

section \<open>Flushing\<close>

text \<open>The width and first octet of an ASN.1 length, and the value left for the loop.\<close>

definition asn1_len_form :: "nat \<Rightarrow> nat \<times> byte \<times> nat" where
  "asn1_len_form len =
     (if 0xffffff < len then (5, 0x80 OR 4, len)
      else if 0xffff < len then (4, 0x80 OR 3, len)
      else if 0xff < len then (3, 0x80 OR 2, len)
      else if 0x7f < len then (2, 0x80 OR 1, len)
      else (1, word_of_nat len, 0))"

text \<open>The part of \<open>CBB_flush\<close> that writes the pending prefix of \<open>child\<close>.\<close>

definition flush_prefix :: "allocator \<Rightarrow> cbb_buffer \<Rightarrow> cbb_child \<Rightarrow> nat \<Rightarrow> bool \<times> cbb_buffer" where
  "flush_prefix al b child child_start =
     (let len = cb_len b - child_start;
          loop = (\<lambda>b off n v. case put_be (cb_buf b) off n v of
             (buf', v') \<Rightarrow> (v' = 0, b\<lparr>cb_buf := buf'\<rparr>)) in
      if pending_is_asn1 child then
        if 0xfffffffe < len then (False, b)
        else (case asn1_len_form len of
          (len_len, initial_length_byte, v) \<Rightarrow>
            (case (if len_len \<noteq> 1 then cbb_buffer_add al b (len_len - 1) else (True, b)) of
              (ok, b') \<Rightarrow>
                if \<not> ok then (False, b')
                else
                  let moved = (if len_len \<noteq> 1
                        then write_at (cb_buf b') (child_start + (len_len - 1))
                               (take len (drop child_start (cb_buf b')))
                        else cb_buf b')
                  in loop (b'\<lparr>cb_buf := moved[cc_offset child := initial_length_byte]\<rparr>)
                       (cc_offset child + 1) (len_len - 1) v))
      else loop b (cc_offset child) (pending_len_len child) len)"

function CBB_flush :: "allocator \<Rightarrow> nat \<Rightarrow> cbb \<Rightarrow> bool \<times> cbb" where
  "CBB_flush al d s =
     (if length (cb_children s) < d \<or> cb_error (cb_base s) then (False, s)
      else if d = length (cb_children s) \<or> pending_len_len (cb_children s ! d) = 0 then (True, s)
      else
        let child = cb_children s ! d;
            child_start = sz (cc_offset child + pending_len_len child) in
        (case CBB_flush al (Suc d) s of
           (ok, s') \<Rightarrow>
             if \<not> ok \<or> child_start < cc_offset child \<or> cb_len (cb_base s') < child_start
             then (False, cbb_fail s')
             else (case flush_prefix al (cb_base s') child child_start of
                     (ok', b') \<Rightarrow>
                       if \<not> ok' then (False, cbb_fail (set_base s' b'))
                       else (True, (set_base s' b')\<lparr>cb_children := take d (cb_children s')\<rparr>))))"
  by pat_completeness auto
termination
  by (relation "measure (\<lambda>(al, d, s). length (cb_children s) - d)") auto

declare CBB_flush.simps [simp del]

section \<open>Operations\<close>

text \<open>
  \<open>outs_given\<close>: neither \<open>out_data\<close> nor \<open>out_len\<close> is NULL. The result is the block and the length
  that are handed over.
\<close>

definition CBB_finish :: "allocator \<Rightarrow> nat \<Rightarrow> cbb \<Rightarrow> bool \<Rightarrow> (byte list \<times> nat) option" where
  "CBB_finish al d s outs_given =
     (if d \<noteq> 0 then None
      else case CBB_flush al d s of
        (ok, s') \<Rightarrow>
          if \<not> ok then None
          else if cb_can_resize (cb_base s') \<and> \<not> outs_given then None
          else Some (cb_buf (cb_base s'), cb_len (cb_base s')))"

definition CBB_data :: "cbb \<Rightarrow> nat \<Rightarrow> nat" where
  "CBB_data s d =
     (if d = 0 then 0
      else cc_offset (cb_children s ! (d - 1)) + pending_len_len (cb_children s ! (d - 1)))"

definition CBB_len :: "cbb \<Rightarrow> nat \<Rightarrow> nat" where
  "CBB_len s d = cb_len (cb_base s) - CBB_data s d"

definition add_child :: "cbb \<Rightarrow> nat \<Rightarrow> nat \<Rightarrow> nat \<Rightarrow> bool \<Rightarrow> cbb" where
  "add_child s d off len_len is_asn1 =
     s\<lparr>cb_children := take d (cb_children s) @
        [\<lparr>cc_offset = off, pending_len_len = len_len, pending_is_asn1 = is_asn1\<rparr>]\<rparr>"

text \<open>An operation that first flushes its object.\<close>

definition with_flush ::
  "allocator \<Rightarrow> nat \<Rightarrow> cbb \<Rightarrow> (cbb \<Rightarrow> bool \<times> cbb) \<Rightarrow> bool \<times> cbb" where
  "with_flush al d s op =
     (case CBB_flush al d s of (ok, s') \<Rightarrow> if \<not> ok then (False, s') else op s')"

definition cbb_add_length_prefixed :: "allocator \<Rightarrow> nat \<Rightarrow> cbb \<Rightarrow> nat \<Rightarrow> bool \<times> cbb" where
  "cbb_add_length_prefixed al d s len_len =
     with_flush al d s (\<lambda>s.
       let off = cb_len (cb_base s) in
       case cbb_buffer_add al (cb_base s) len_len of
         (ok, b) \<Rightarrow>
           if \<not> ok then (False, set_base s b)
           else (True, add_child
                  (set_base s (b\<lparr>cb_buf := write_at (cb_buf b) off (replicate len_len 0)\<rparr>))
                  d off len_len False))"

definition CBB_add_u8_length_prefixed :: "allocator \<Rightarrow> nat \<Rightarrow> cbb \<Rightarrow> bool \<times> cbb" where
  "CBB_add_u8_length_prefixed al d s = cbb_add_length_prefixed al d s 1"

definition CBB_add_u16_length_prefixed :: "allocator \<Rightarrow> nat \<Rightarrow> cbb \<Rightarrow> bool \<times> cbb" where
  "CBB_add_u16_length_prefixed al d s = cbb_add_length_prefixed al d s 2"

definition CBB_add_u24_length_prefixed :: "allocator \<Rightarrow> nat \<Rightarrow> cbb \<Rightarrow> bool \<times> cbb" where
  "CBB_add_u24_length_prefixed al d s = cbb_add_length_prefixed al d s 3"

definition cbb_add_u :: "allocator \<Rightarrow> nat \<Rightarrow> cbb \<Rightarrow> u32 \<Rightarrow> nat \<Rightarrow> bool \<times> cbb" where
  "cbb_add_u al d s v len_len =
     with_flush al d s (\<lambda>s. case cbb_buffer_add_u al (cb_base s) v len_len of
       (ok, b) \<Rightarrow> (ok, set_base s b))"

definition CBB_add_u8 :: "allocator \<Rightarrow> nat \<Rightarrow> cbb \<Rightarrow> byte \<Rightarrow> bool \<times> cbb" where
  "CBB_add_u8 al d s v = cbb_add_u al d s (ucast v) 1"

definition CBB_add_u16 :: "allocator \<Rightarrow> nat \<Rightarrow> cbb \<Rightarrow> u16 \<Rightarrow> bool \<times> cbb" where
  "CBB_add_u16 al d s v = cbb_add_u al d s (ucast v) 2"

definition CBB_add_u24 :: "allocator \<Rightarrow> nat \<Rightarrow> cbb \<Rightarrow> u32 \<Rightarrow> bool \<times> cbb" where
  "CBB_add_u24 al d s v = cbb_add_u al d s v 3"

definition CBB_add_u32 :: "allocator \<Rightarrow> nat \<Rightarrow> cbb \<Rightarrow> u32 \<Rightarrow> bool \<times> cbb" where
  "CBB_add_u32 al d s v = cbb_add_u al d s v 4"

text \<open>
  With an unsupported tag \<open>CBB_add_asn1\<close> writes through \<open>cbb->base\<close> before any check, so it must not be called
  on an object that a flush has detached; the statements are about objects on the chain.
\<close>

definition CBB_add_asn1 :: "allocator \<Rightarrow> nat \<Rightarrow> cbb \<Rightarrow> u32 \<Rightarrow> bool \<times> cbb" where
  "CBB_add_asn1 al d s tag =
     (if 0xff < tag \<or> tag AND 0x1f = 0x1f then (False, cbb_fail s)
      else with_flush al d s (\<lambda>s.
        case CBB_add_u8 al d s (ucast tag) of
          (ok, s) \<Rightarrow>
            if \<not> ok then (False, s)
            else
              let off = cb_len (cb_base s) in
              case CBB_add_u8 al d s 0 of
                (ok, s) \<Rightarrow> if \<not> ok then (False, s) else (True, add_child s d off 1 True)))"

definition CBB_add_bytes :: "allocator \<Rightarrow> nat \<Rightarrow> cbb \<Rightarrow> byte list \<Rightarrow> nat \<Rightarrow> bool \<times> cbb" where
  "CBB_add_bytes al d s data len =
     with_flush al d s (\<lambda>s.
       case cbb_buffer_add al (cb_base s) len of
         (ok, b) \<Rightarrow>
           if \<not> ok then (False, set_base s b)
           else (True, set_base s
                  (b\<lparr>cb_buf := write_at (cb_buf b) (cb_len (cb_base s)) (take len data)\<rparr>)))"

definition CBB_add_space :: "allocator \<Rightarrow> nat \<Rightarrow> cbb \<Rightarrow> nat \<Rightarrow> bool \<times> cbb" where
  "CBB_add_space al d s len =
     with_flush al d s (\<lambda>s. case cbb_buffer_add al (cb_base s) len of (ok, b) \<Rightarrow> (ok, set_base s b))"

definition CBB_reserve :: "allocator \<Rightarrow> nat \<Rightarrow> cbb \<Rightarrow> nat \<Rightarrow> bool \<times> cbb" where
  "CBB_reserve al d s len =
     with_flush al d s (\<lambda>s. case cbb_buffer_reserve al (cb_base s) len of
       (ok, b) \<Rightarrow> (ok, set_base s b))"

definition CBB_did_write :: "nat \<Rightarrow> cbb \<Rightarrow> nat \<Rightarrow> bool \<times> cbb" where
  "CBB_did_write d s len =
     (let newlen = sz (cb_len (cb_base s) + len) in
      if d < length (cb_children s) \<or> newlen < cb_len (cb_base s) \<or> cb_cap (cb_base s) < newlen
      then (False, s)
      else (True, set_base s ((cb_base s)\<lparr>cb_len := newlen\<rparr>)))"

text \<open>
  After \<open>CBB_discard_child\<close> the chain ends at the object. In C the objects below the discarded child keep
  their \<open>base\<close> pointers; as they hang on no chain any more they have no name here, and no statement is about calls on them.
\<close>

definition CBB_discard_child :: "nat \<Rightarrow> cbb \<Rightarrow> cbb" where
  "CBB_discard_child d s =
     (if length (cb_children s) \<le> d then s
      else s\<lparr>cb_base := (cb_base s)\<lparr>cb_len := cc_offset (cb_children s ! d)\<rparr>,
             cb_children := take d (cb_children s)\<rparr>)"

text \<open>
  The byte loop of \<open>CBB_add_asn1_uint64\<close> over \<open>i = 8 - n, \<dots>, 7\<close>; \<open>Inl\<close> is the early return,
  \<open>Inr\<close> the value of \<open>started\<close> when the loop ends. The call \<open>CBB_add_u8 (&child, _)\<close> is a parameter.
\<close>

fun asn1_uint64_loop ::
  "('s \<Rightarrow> byte \<Rightarrow> bool \<times> 's) \<Rightarrow> u64 \<Rightarrow> nat \<Rightarrow> bool \<Rightarrow> 's \<Rightarrow> 's + bool \<times> 's" where
  "asn1_uint64_loop add_u8 v 0 started s = Inr (started, s)"
| "asn1_uint64_loop add_u8 v (Suc n) started s =
     (let byte = ucast (drop_bit (8 * n) v AND 0xff) :: byte in
      if \<not> started \<and> byte = 0 then asn1_uint64_loop add_u8 v n started s
      else
        (case (if \<not> started \<and> byte AND 0x80 \<noteq> 0 then add_u8 s 0 else (True, s)) of
           (ok, s) \<Rightarrow>
             if \<not> ok then Inl s
             else (case add_u8 s byte of
                     (ok, s) \<Rightarrow> if \<not> ok then Inl s else asn1_uint64_loop add_u8 v n True s)))"

definition CBB_add_asn1_uint64 :: "allocator \<Rightarrow> nat \<Rightarrow> cbb \<Rightarrow> u64 \<Rightarrow> bool \<times> cbb" where
  "CBB_add_asn1_uint64 al d s v =
     (case CBB_add_asn1 al d s CBS_ASN1_INTEGER of
        (ok, s) \<Rightarrow>
          if \<not> ok then (False, s)
          else
            (case asn1_uint64_loop (CBB_add_u8 al (Suc d)) v 8 False s of
               Inl s \<Rightarrow> (False, s)
             | Inr (started, s) \<Rightarrow>
                 (case (if \<not> started then CBB_add_u8 al (Suc d) s 0 else (True, s)) of
                    (ok, s) \<Rightarrow> if \<not> ok then (False, s) else CBB_flush al d s)))"

section \<open>Invariant and abstraction\<close>

definition buffer_ok :: "cbb_buffer \<Rightarrow> bool" where
  "buffer_ok b \<longleftrightarrow> length (cb_buf b) = cb_cap b \<and> cb_len b \<le> cb_cap b \<and> block_size (cb_cap b)"

definition buffer_bytes :: "cbb_buffer \<Rightarrow> byte list" where
  "buffer_bytes b = take (cb_len b) (cb_buf b)"

text \<open>The open children lie in order, each prefix inside the bytes written so far.\<close>

fun frames_ok :: "nat \<Rightarrow> nat \<Rightarrow> cbb_child list \<Rightarrow> bool" where
  "frames_ok lo len [] \<longleftrightarrow> lo \<le> len"
| "frames_ok lo len (f # fs) \<longleftrightarrow>
     lo \<le> cc_offset f \<and> 0 < pending_len_len f \<and> (pending_is_asn1 f \<longrightarrow> pending_len_len f = 1)
     \<and> frames_ok (cc_offset f + pending_len_len f) len fs"

definition cbb_ok :: "cbb \<Rightarrow> bool" where
  "cbb_ok s \<longleftrightarrow> buffer_ok (cb_base s) \<and> frames_ok 0 (cb_len (cb_base s)) (cb_children s)"

definition cbb_bytes :: "cbb \<Rightarrow> byte list" where
  "cbb_bytes s = buffer_bytes (cb_base s)"

text \<open>Specification of the flush of one child, and of all children from the innermost outwards.\<close>

definition close_frame :: "cbb_child \<Rightarrow> byte list \<Rightarrow> byte list option" where
  "close_frame f bs =
     (let c = drop (cc_offset f + pending_len_len f) bs in
      if pending_is_asn1 f then
        if length c \<le> 0xfffffffe then Some (take (cc_offset f) bs @ der_length (length c) @ c) else None
      else
        if length c < 256 ^ pending_len_len f
        then Some (take (cc_offset f) bs @ be_bytes (pending_len_len f) (length c) @ c) else None)"

fun close_frames :: "cbb_child list \<Rightarrow> byte list \<Rightarrow> byte list option" where
  "close_frames [] bs = Some bs"
| "close_frames (f # fs) bs = Option.bind (close_frames fs bs) (close_frame f)"

section \<open>The buffer operations\<close>

lemma length_buffer_bytes: "buffer_ok b \<Longrightarrow> length (buffer_bytes b) = cb_len b"
  by (simp add: buffer_ok_def buffer_bytes_def)

lemma buffer_ok_sizes:
  "buffer_ok b \<Longrightarrow> cb_cap b < SIZE_MODULUS" "buffer_ok b \<Longrightarrow> cb_len b < SIZE_MODULUS"
  by (auto simp: buffer_ok_def dest: block_size_less)

text \<open>The capacity that \<open>cbb_buffer_reserve\<close> asks for covers the request and leaves room for the allocator's prefix.\<close>

lemma newcap_fits:
  assumes "buffer_ok b" and "len \<le> PTRDIFF_MAX"
  defines "nc \<equiv> (if sz (cb_cap b * 2) < cb_cap b \<or> sz (cb_cap b * 2) < cb_len b + len then cb_len b + len else sz (cb_cap b * 2))"
  shows "cb_len b + len \<le> nc" and "nc + 8 < SIZE_MODULUS" and "sz (cb_len b + len) = cb_len b + len"
proof -
  have blk: "block_size (cb_cap b)" "block_size (cb_len b)"
    using assms(1) block_size_mono by (auto simp: buffer_ok_def)
  note d = block_size_double [OF blk(1)] and a = block_size_add [OF blk(2) assms(2)]
  then have "sz (cb_cap b * 2) = cb_cap b * 2" by simp
  with d a show "cb_len b + len \<le> nc" "nc + 8 < SIZE_MODULUS" by (auto simp: nc_def not_less)
  from a show "sz (cb_len b + len) = cb_len b + len" by simp
qed

lemma buffer_reserve_ok:
  assumes ok: "buffer_ok b" and len: "len \<le> PTRDIFF_MAX"
    and r: "cbb_buffer_reserve al b len = (res, b')"
  shows "if res then buffer_ok b' \<and> buffer_bytes b' = buffer_bytes b \<and> cb_len b' = cb_len b
      \<and> cb_len b + len \<le> cb_cap b' \<and> cb_error b' = cb_error b \<and> cb_can_resize b' = cb_can_resize b
      \<and> (\<not> cb_can_resize b \<longrightarrow> b' = b)
    else b' = b\<lparr>cb_error := True\<rparr>"
proof (cases "cb_cap b < cb_len b + len \<and> cb_can_resize b")
  case True
  let ?nc = "if sz (cb_cap b * 2) < cb_cap b \<or> sz (cb_cap b * 2) < cb_len b + len
    then cb_len b + len else sz (cb_cap b * 2)"
  note nc = newcap_fits [OF ok len]
  show ?thesis
  proof (cases "OPENSSL_realloc al (cb_buf b) ?nc")
    case None
    with True nc(3) r show ?thesis by (auto simp: cbb_buffer_reserve_def Let_def)
  next
    case (Some nb)
    have "length nb = ?nc" "block_size ?nc" using OPENSSL_realloc_length [OF Some nc(2)] by auto
    moreover have "take (cb_len b) nb = take (cb_len b) (cb_buf b)"
      using nc(1) ok by (intro OPENSSL_realloc_take [OF Some]) (auto simp: buffer_ok_def)
    moreover have "res" "b' = b\<lparr>cb_buf := nb, cb_cap := ?nc\<rparr>"
      using True nc(3) r Some by (auto simp: cbb_buffer_reserve_def Let_def split: if_splits)
    ultimately show ?thesis using nc(1) ok True by (simp add: buffer_ok_def buffer_bytes_def)
  qed
next
  case no: False
  with newcap_fits(3) [OF ok len] ok r show ?thesis
    by (auto simp: cbb_buffer_reserve_def Let_def buffer_ok_def split: if_splits)
qed

text \<open>
  After a successful \<open>cbb_buffer_add\<close>, storing the announced bytes at the old end appends them.
\<close>

lemma buffer_add_ok:
  assumes ok: "buffer_ok b" and len: "len \<le> PTRDIFF_MAX"
    and r: "cbb_buffer_add al b len = (True, b')"
  shows "buffer_ok b'" and "cb_len b' = cb_len b + len"
    and "take (cb_len b) (cb_buf b') = buffer_bytes b" and "cb_error b' = cb_error b"
    and "cb_can_resize b' = cb_can_resize b"
proof -
  obtain b1 where r1: "cbb_buffer_reserve al b len = (True, b1)"
    and b': "b' = b1\<lparr>cb_len := cb_len b1 + len\<rparr>"
    using r by (auto simp: cbb_buffer_add_def split: prod.splits if_splits)
  from buffer_reserve_ok [OF ok len r1] b'
  show "buffer_ok b'" "cb_len b' = cb_len b + len"
    "take (cb_len b) (cb_buf b') = buffer_bytes b" "cb_error b' = cb_error b"
    "cb_can_resize b' = cb_can_resize b"
    by (auto simp: buffer_ok_def buffer_bytes_def)
qed

lemma buffer_add_fail:
  assumes "buffer_ok b" and "len \<le> PTRDIFF_MAX" and "cbb_buffer_add al b len = (False, b')"
  shows "b' = b\<lparr>cb_error := True\<rparr>"
  using assms buffer_reserve_ok [OF assms(1,2), of al]
  by (auto simp: cbb_buffer_add_def split: prod.splits if_splits)

lemma write_appends:
  assumes "buffer_ok b'" and "cb_len b' = n + length xs" and "take n (cb_buf b') = bs"
  shows "buffer_bytes (b'\<lparr>cb_buf := write_at (cb_buf b') n xs\<rparr>) = bs @ xs"
    and "buffer_ok (b'\<lparr>cb_buf := write_at (cb_buf b') n xs\<rparr>)"
  using assms by (auto simp: buffer_ok_def buffer_bytes_def)

lemma write_at_snoc:
  assumes "off + length xs < length buf"
  shows "write_at (buf[off + length xs := x]) off xs = write_at buf off (xs @ [x])"
  using assms by (intro nth_equalityI) (auto simp: nth_write_at nth_append nth_list_update)

lemma put_be_eq:
  "off + n \<le> length buf \<Longrightarrow> put_be buf off n v = (write_at buf off (be_bytes n v), v div 256 ^ n)"
proof (induction buf off n v rule: put_be.induct)
  case (1 buf off v)
  then show ?case by simp
next
  case (2 buf off i v)
  then show ?case
    using write_at_snoc [of off "be_bytes i (v div 256)" buf "word_of_nat v"]
    by (simp add: div_mult2_eq)
qed

definition buffer_appends :: "cbb_buffer \<Rightarrow> byte list \<Rightarrow> cbb_buffer \<Rightarrow> bool" where
  "buffer_appends b bs b' \<longleftrightarrow>
     buffer_ok b' \<and> buffer_bytes b' = buffer_bytes b @ bs \<and> cb_error b' = cb_error b
     \<and> cb_can_resize b' = cb_can_resize b"

lemma buffer_add_write:
  assumes ok: "buffer_ok b" and len: "length xs \<le> PTRDIFF_MAX"
    and r: "cbb_buffer_add al b (length xs) = (True, b')"
  shows "buffer_appends b xs (b'\<lparr>cb_buf := write_at (cb_buf b') (cb_len b) xs\<rparr>)"
  using write_appends [OF buffer_add_ok(1,2,3) [OF ok len r]] buffer_add_ok(4,5) [OF ok len r]
  by (simp add: buffer_appends_def)

lemma buffer_add_u_ok:
  assumes ok: "buffer_ok b" and k: "0 < k" "k \<le> 4" and r: "cbb_buffer_add_u al b v k = (True, b')"
  shows "buffer_appends b (be_bytes k (unat v)) b' \<and> unat v < 256 ^ k"
proof -
  have len: "length (be_bytes k (unat v)) \<le> PTRDIFF_MAX" using k by (simp add: PTRDIFF_MAX_def)
  obtain b1 where r1: "cbb_buffer_add al b k = (True, b1)"
    using r k by (auto simp: cbb_buffer_add_u_def split: prod.splits if_splits)
  have k': "length (be_bytes k (unat v)) = k" by simp
  note add = buffer_add_ok [OF ok, of k al b1]
  have "cb_len b + k \<le> length (cb_buf b1)"
    using add(1,2) r1 k by (auto simp: buffer_ok_def PTRDIFF_MAX_def)
  then have "unat v div 256 ^ k = 0" and b': "b' = b1\<lparr>cb_buf := write_at (cb_buf b1) (cb_len b) (be_bytes k (unat v))\<rparr>"
    using r r1 k by (auto simp: cbb_buffer_add_u_def put_be_eq split: if_splits)
  moreover have "buffer_appends b (be_bytes k (unat v)) b'"
    unfolding b' by (rule buffer_add_write [OF ok len, of al, unfolded k', OF r1])
  ultimately show ?thesis by (simp add: div_eq_0_iff)
qed

lemma buffer_add_u_fail:
  assumes ok: "buffer_ok b" and k: "0 < k" "k \<le> 4" and r: "cbb_buffer_add_u al b v k = (False, b')"
  shows "cb_error b'"
  using assms buffer_add_fail [of b k al]
  by (fastforce simp: cbb_buffer_add_u_def PTRDIFF_MAX_def split: prod.splits if_splits)

section \<open>A flush closes the children\<close>

lemma write_at_backwards:
  assumes "off + length xs + length ys \<le> length buf"
  shows "write_at (write_at buf (off + length xs) ys) off xs = write_at buf off (xs @ ys)"
  using assms by (intro nth_equalityI) (auto simp: nth_write_at nth_append)

lemma write_at_same:
  assumes "off + n \<le> length buf"
  shows "write_at buf off (take n (drop off buf)) = buf"
proof -
  have "drop off buf = take n (drop off buf) @ drop (off + n) buf"
    using append_take_drop_id [of n "drop off buf"] by (simp add: add.commute)
  then show ?thesis using assms append_take_drop_id [of off buf] by (simp add: write_at_def)
qed

lemma list_update_as_write: "i < length buf \<Longrightarrow> buf[i := x] = write_at buf i [x]"
  by (intro nth_equalityI) (auto simp: nth_write_at nth_list_update)

lemma asn1_len_form_ok:
  assumes "asn1_len_form len = (len_len, b0, v)" and "len \<le> 0xfffffffe"
  shows "0 < len_len" and "len_len \<le> 5" and "v div 256 ^ (len_len - 1) = 0"
    and "der_length len = b0 # be_bytes (len_len - 1) v"
proof -
  consider "len_len = 1" "len < 128" "b0 = word_of_nat len" "v = 0"
    | k where "len_len = Suc k" "0 < k" "k \<le> 4" "octets len = k" "b0 = word_of_nat (128 + k)" "v = len"
        "128 \<le> len"
  proof -
    have oct: "octets len = k" if "len < 256 ^ k" "256 ^ (k - 1) \<le> len" "0 < k" for k
      using octets_unique that by blast
    show thesis
    proof (cases "len < 128")
      case True
      with assms(1) show ?thesis by (intro that(1)) (auto simp: asn1_len_form_def)
    next
      case False
      let ?k = "len_len - 1"
      have "len_len = Suc ?k \<and> 0 < ?k \<and> ?k \<le> 4 \<and> octets len = ?k \<and> b0 = word_of_nat (128 + ?k) \<and> v = len"
        using assms False oct [of 1] oct [of 2] oct [of 3] oct [of 4]
        by (auto simp: asn1_len_form_def split: if_splits)
      with False show ?thesis by (intro that(2) [of ?k]) auto
    qed
  qed
  note cases = this
  show "0 < len_len" "len_len \<le> 5" by (rule cases; simp)+
  show "v div 256 ^ (len_len - 1) = 0" "der_length len = b0 # be_bytes (len_len - 1) v"
  proof -
    have "len < 256 ^ octets len" by (rule octets_upper)
    then show "v div 256 ^ (len_len - 1) = 0" by (rule_tac cases) simp_all
    show "der_length len = b0 # be_bytes (len_len - 1) v" by (rule cases) (simp_all add: der_length_def)
  qed
qed

definition same_flags :: "cbb_buffer \<Rightarrow> cbb_buffer \<Rightarrow> bool" where
  "same_flags b b' \<longleftrightarrow> cb_error b' = cb_error b \<and> cb_can_resize b' = cb_can_resize b"

lemma flush_prefix_plain:
  assumes ok: "buffer_ok b" and f: "\<not> pending_is_asn1 f"
    and within: "cc_offset f + pending_len_len f \<le> cb_len b"
  shows "case flush_prefix al b f (cc_offset f + pending_len_len f) of
    (res, b') \<Rightarrow> if res then close_frame f (buffer_bytes b) = Some (buffer_bytes b') \<and> buffer_ok b' \<and> same_flags b b'
      else close_frame f (buffer_bytes b) = None"
proof -
  let ?k = "pending_len_len f" and ?off = "cc_offset f"
  let ?c = "drop (?off + ?k) (buffer_bytes b)" and ?p = "be_bytes ?k (cb_len b - (?off + ?k))"
  have room: "?off + ?k \<le> length (cb_buf b)" using ok within by (simp add: buffer_ok_def)
  have c: "length ?c = cb_len b - (?off + ?k)" using ok by (simp add: length_buffer_bytes)
  have "take (cb_len b) (write_at (cb_buf b) ?off ?p) = take ?off (buffer_bytes b) @ ?p @ ?c"
    using room within ok by (simp add: write_at_def buffer_bytes_def buffer_ok_def drop_take min_absorb1)
  then show ?thesis
    using f room ok c
    by (auto simp: flush_prefix_def put_be_eq close_frame_def Let_def buffer_ok_def buffer_bytes_def
        same_flags_def div_eq_0_iff)
qed

lemma flush_prefix_asn1:
  assumes ok: "buffer_ok b" and f: "pending_is_asn1 f" "pending_len_len f = 1"
    and within: "cc_offset f + 1 \<le> cb_len b"
    and r: "flush_prefix al b f (cc_offset f + 1) = (True, b')"
  shows "close_frame f (buffer_bytes b) = Some (buffer_bytes b') \<and> buffer_ok b' \<and> same_flags b b'"
proof -
  let ?off = "cc_offset f" and ?len = "cb_len b - (cc_offset f + 1)"
  define c where "c = drop (?off + 1) (buffer_bytes b)"
  have c: "length c = ?len" using ok by (simp add: c_def length_buffer_bytes)
  from r f have small: "?len \<le> 0xfffffffe" by (auto simp: flush_prefix_def Let_def split: if_splits)
  obtain ll b0 v where form: "asn1_len_form ?len = (ll, b0, v)" by (metis prod_cases3)
  note F = asn1_len_form_ok [OF form small]
  let ?e = "ll - 1" and ?dl = "b0 # be_bytes (ll - 1) v"
  have e: "?e \<le> PTRDIFF_MAX" using F(2) by (simp add: PTRDIFF_MAX_def)
  obtain b1 where add: "(if ll \<noteq> 1 then cbb_buffer_add al b ?e else (True, b)) = (True, b1)"
    using r f small form by (auto simp: flush_prefix_def Let_def split: if_splits prod.splits)
  have b1: "buffer_ok b1" "cb_len b1 = cb_len b + ?e" "take (cb_len b) (cb_buf b1) = buffer_bytes b"
    "same_flags b b1"
    using add ok buffer_add_ok [OF ok e, of al b1] F(1)
    by (auto simp: same_flags_def buffer_bytes_def split: if_splits)
  have buf1: "take ?len (drop (?off + 1) (cb_buf b1)) = c"
    using b1(3) within by (simp add: c_def drop_take flip: b1(3))
  have room: "?off + (1 + ?e) + ?len = cb_len b1" "cb_len b1 \<le> length (cb_buf b1)"
    using b1(1,2) within by (auto simp: buffer_ok_def)
  have moved: "(if ll \<noteq> 1 then write_at (cb_buf b1) (?off + 1 + ?e) c else cb_buf b1)
      = write_at (cb_buf b1) (?off + (1 + ?e)) c"
    using room F(1) write_at_same [of "?off + 1" ?len "cb_buf b1"] unfolding buf1
    by (cases "ll = 1") (auto simp: add.assoc)
  let ?m = "write_at (cb_buf b1) (?off + (1 + ?e)) c"
  have lm: "length ?m = length (cb_buf b1)" using room c by simp
  have "put_be (?m[?off := b0]) (?off + 1) ?e v = (write_at (?m[?off := b0]) (?off + 1) (be_bytes ?e v), 0)"
    using room lm F(3) by (subst put_be_eq) auto
  moreover have "write_at (?m[?off := b0]) (?off + 1) (be_bytes ?e v) = write_at ?m ?off ?dl"
    using room lm write_at_write_at_adjacent [of ?off "[b0]" "be_bytes ?e v" ?m]
    by (simp add: list_update_as_write)
  moreover have "write_at ?m ?off ?dl = write_at (cb_buf b1) ?off (?dl @ c)"
    using room c write_at_backwards [of ?off ?dl c "cb_buf b1"] by simp
  ultimately have b': "b' = b1\<lparr>cb_buf := write_at (cb_buf b1) ?off (?dl @ c)\<rparr>"
    using r f small form add buf1 moved
    by (auto simp: flush_prefix_def Let_def split: if_splits prod.splits)
  have "take ?off (cb_buf b1) = take ?off (buffer_bytes b)"
    using within by (simp flip: b1(3))
  then have "buffer_bytes b' = take ?off (buffer_bytes b) @ ?dl @ c"
    using room c b' take_write_at_end [of ?off "cb_buf b1" "?dl @ c"]
    by (simp add: buffer_bytes_def add.assoc)
  moreover have "close_frame f (buffer_bytes b) = (if length c \<le> 0xfffffffe
      then Some (take ?off (buffer_bytes b) @ der_length (length c) @ c) else None)"
    using f by (simp add: close_frame_def c_def Let_def)
  ultimately have "close_frame f (buffer_bytes b) = Some (buffer_bytes b')"
    using small c F(4) by simp
  moreover have "buffer_ok b'" using b' b1(1) room c by (simp add: buffer_ok_def)
  ultimately show ?thesis using b' b1(4) by (simp add: same_flags_def)
qed

lemma flush_prefix_sound:
  assumes ok: "buffer_ok b" and f: "pending_is_asn1 f \<longrightarrow> pending_len_len f = 1"
    and within: "cc_offset f + pending_len_len f \<le> cb_len b"
    and r: "flush_prefix al b f (cc_offset f + pending_len_len f) = (True, b')"
  shows "close_frame f (buffer_bytes b) = Some (buffer_bytes b') \<and> buffer_ok b' \<and> same_flags b b'"
proof (cases "pending_is_asn1 f")
  case True
  with assms show ?thesis using flush_prefix_asn1 [OF ok True, of al b'] by simp
next
  case False
  with r show ?thesis using flush_prefix_plain [OF ok False within, of al] by auto
qed

lemma frames_ok_take: "frames_ok lo len (fs @ f # gs) \<Longrightarrow> cc_offset f \<le> len' \<Longrightarrow> frames_ok lo len' fs"
  by (induction fs arbitrary: lo) auto

lemma frames_ok_within: "frames_ok lo len fs \<Longrightarrow> lo \<le> len"
  by (induction fs arbitrary: lo) fastforce+

lemma frames_ok_off: "frames_ok lo len (fs @ f # gs) \<Longrightarrow> cc_offset f \<le> len"
proof (induction fs arbitrary: lo)
  case Nil
  then have "cc_offset f + pending_len_len f \<le> len" by (auto dest: frames_ok_within)
  then show ?case by simp
qed auto

lemma frames_ok_last:
  "frames_ok lo len (fs @ [f]) \<Longrightarrow> cc_offset f + pending_len_len f \<le> len \<and> 0 < pending_len_len f
    \<and> (pending_is_asn1 f \<longrightarrow> pending_len_len f = 1)"
  by (induction fs arbitrary: lo) auto

lemma frames_ok_nth_pos: "frames_ok lo len fs \<Longrightarrow> i < length fs \<Longrightarrow> 0 < pending_len_len (fs ! i)"
  by (induction fs arbitrary: lo i) (auto simp: nth_Cons split: nat.splits)

lemma frames_ok_nth_asn1:
  "frames_ok lo len fs \<Longrightarrow> i < length fs \<Longrightarrow> pending_is_asn1 (fs ! i) \<Longrightarrow> pending_len_len (fs ! i) = 1"
  by (induction fs arbitrary: lo i) (auto simp: nth_Cons split: nat.splits)

lemma frames_ok_extend: "frames_ok lo len fs \<Longrightarrow> len \<le> len' \<Longrightarrow> frames_ok lo len' fs"
  by (induction fs arbitrary: lo) auto

lemma close_frame_length:
  "close_frame f bs = Some bs' \<Longrightarrow> cc_offset f \<le> length bs \<Longrightarrow> cc_offset f \<le> length bs'"
  by (auto simp: close_frame_def Let_def split: if_splits)

definition cbb_rest :: "cbb \<Rightarrow> cbb \<Rightarrow> bool" where
  "cbb_rest s s' \<longleftrightarrow> same_flags (cb_base s) (cb_base s')"

lemma flush_after_error [simp]: "cb_error (cb_base s) \<Longrightarrow> CBB_flush al d s = (False, s)"
  by (simp add: CBB_flush.simps [of al d s])

lemma flush_no_children [simp]:
  "\<not> cb_error (cb_base s) \<Longrightarrow> CBB_flush al (length (cb_children s)) s = (True, s)"
  by (simp add: CBB_flush.simps)

text \<open>A flush that returns 1 has closed every child below the object, and kept the invariant.\<close>

lemma CBB_flush_sound:
  "cbb_ok s \<Longrightarrow> CBB_flush al d s = (True, s') \<Longrightarrow>
    cbb_ok s' \<and> cb_children s' = take d (cb_children s) \<and> cbb_rest s s' \<and> \<not> cb_error (cb_base s)
    \<and> d \<le> length (cb_children s) \<and> close_frames (drop d (cb_children s)) (cbb_bytes s) = Some (cbb_bytes s')"
proof (induction al d s arbitrary: s' rule: CBB_flush.induct)
  case (1 al d s)
  let ?fs = "cb_children s"
  from "1.prems"(2) have live: "d \<le> length ?fs" "\<not> cb_error (cb_base s)"
    by (auto simp: CBB_flush.simps [of al d s] split: if_splits)
  show ?case
  proof (cases "d = length ?fs")
    case True
    with "1.prems" live flush_no_children [of s al] show ?thesis
      by (simp add: cbb_rest_def same_flags_def)
  next
    case False
    with live have d: "d < length ?fs" by simp
    let ?f = "?fs ! d"
    have pos: "0 < pending_len_len ?f" using "1.prems"(1) d by (auto simp: cbb_ok_def dest: frames_ok_nth_pos)
    then have cond: "\<not> (length ?fs < d \<or> cb_error (cb_base s))" "\<not> (d = length ?fs \<or> pending_len_len ?f = 0)"
      using live d by auto
    obtain s1 where s1: "CBB_flush al (Suc d) s = (True, s1)"
      using "1.prems"(2) cond by (auto simp: CBB_flush.simps [of al d s] Let_def split: prod.splits if_splits)
    note IH = "1.IH" [OF cond refl refl "1.prems"(1) s1]
    have fs1: "cb_children s1 = take d ?fs @ [?f]" using IH d by (simp add: take_Suc_conv_app_nth)
    from IH have fok: "frames_ok 0 (cb_len (cb_base s1)) (take d ?fs @ [?f])" and bok: "buffer_ok (cb_base s1)"
      by (auto simp: cbb_ok_def fs1)
    note last = frames_ok_last [OF fok]
    then have nowrap: "sz (cc_offset ?f + pending_len_len ?f) = cc_offset ?f + pending_len_len ?f"
      using buffer_ok_sizes(2) [OF bok] by simp
    obtain b' where fp: "flush_prefix al (cb_base s1) ?f (cc_offset ?f + pending_len_len ?f) = (True, b')"
      and s': "s' = (set_base s1 b')\<lparr>cb_children := take d (cb_children s1)\<rparr>"
      using "1.prems"(2) cond s1 last nowrap
      by (auto simp: CBB_flush.simps [of al d s] Let_def split: prod.splits if_splits)
    have P: "close_frame ?f (cbb_bytes s1) = Some (buffer_bytes b')" "buffer_ok b'" "same_flags (cb_base s1) b'"
      using flush_prefix_sound [OF bok _ _ fp] last by (auto simp: cbb_bytes_def)
    have "cc_offset ?f \<le> cb_len b'"
      using close_frame_length [OF P(1)] last bok P(2) by (auto simp: cbb_bytes_def length_buffer_bytes)
    then have "frames_ok 0 (cb_len b') (take d ?fs)" using fok frames_ok_take by blast
    moreover have "close_frames (drop d ?fs) (cbb_bytes s) = Some (buffer_bytes b')"
      using IH P(1) d by (simp add: Cons_nth_drop_Suc [symmetric])
    ultimately show ?thesis
      using s' P IH live d by (auto simp: cbb_ok_def set_base_def fs1 cbb_bytes_def cbb_rest_def same_flags_def)
  qed
qed

lemma CBB_flush_fail:
  assumes "CBB_flush al d s = (False, s')" and "d \<le> length (cb_children s)"
  shows "cb_error (cb_base s')"
  using assms
  by (auto simp: CBB_flush.simps [of al d s] Let_def cbb_fail_def set_base_def
      split: if_splits prod.splits)

section \<open>What the operations append\<close>

text \<open>The bytes of the builder once everything below depth \<open>d\<close> is closed.\<close>

definition closed_at :: "nat \<Rightarrow> cbb \<Rightarrow> byte list option" where
  "closed_at d s = close_frames (drop d (cb_children s)) (cbb_bytes s)"

definition cbb_appended :: "nat \<Rightarrow> cbb \<Rightarrow> byte list \<Rightarrow> cbb \<Rightarrow> bool" where
  "cbb_appended d s xs s' \<longleftrightarrow>
     cbb_ok s' \<and> d \<le> length (cb_children s) \<and> cb_children s' = take d (cb_children s)
     \<and> cbb_rest s s' \<and> \<not> cb_error (cb_base s)
     \<and> map_option (\<lambda>bs. bs @ xs) (closed_at d s) = Some (cbb_bytes s')"

lemma with_flush_TrueE:
  assumes "with_flush al d s op = (True, s')"
  obtains s1 where "CBB_flush al d s = (True, s1)" and "op s1 = (True, s')"
  using assms by (auto simp: with_flush_def split: prod.splits if_splits)

lemma flush_appended: "cbb_ok s \<Longrightarrow> CBB_flush al d s = (True, s') \<Longrightarrow> cbb_appended d s [] s'"
  using CBB_flush_sound [of s al d s'] by (simp add: cbb_appended_def closed_at_def option.map_id0 id_def)

text \<open>A flush followed by an append to the buffer.\<close>

lemma flush_then_append:
  assumes ok: "cbb_ok s" and fl: "CBB_flush al d s = (True, s1)"
    and app: "buffer_appends (cb_base s1) xs b"
  shows "cbb_appended d s xs (set_base s1 b)"
proof -
  note F = CBB_flush_sound [OF ok fl]
  have "cb_len (cb_base s1) \<le> cb_len b"
    using app F length_buffer_bytes [of b] length_buffer_bytes [of "cb_base s1"]
    by (auto simp: buffer_appends_def cbb_ok_def)
  then have "cbb_ok (set_base s1 b)"
    using F app by (auto simp: cbb_ok_def set_base_def buffer_appends_def intro: frames_ok_extend)
  with F app show ?thesis
    by (auto simp: cbb_appended_def closed_at_def set_base_def cbb_bytes_def buffer_appends_def
        cbb_rest_def same_flags_def)
qed

lemma CBB_add_bytes_sound:
  assumes ok: "cbb_ok s" and len: "length data \<le> PTRDIFF_MAX"
    and r: "CBB_add_bytes al d s data (length data) = (True, s')"
  shows "cbb_appended d s data s'"
proof -
  from r obtain s1 b where fl: "CBB_flush al d s = (True, s1)"
    and add: "cbb_buffer_add al (cb_base s1) (length data) = (True, b)"
    and s': "s' = set_base s1 (b\<lparr>cb_buf := write_at (cb_buf b) (cb_len (cb_base s1)) data\<rparr>)"
    unfolding CBB_add_bytes_def by (elim with_flush_TrueE) (auto split: prod.splits if_splits)
  have "buffer_ok (cb_base s1)" using CBB_flush_sound [OF ok fl] by (simp add: cbb_ok_def)
  from buffer_add_write [OF this len add] show ?thesis
    unfolding s' by (rule flush_then_append [OF ok fl])
qed

lemma cbb_add_u_sound:
  assumes ok: "cbb_ok s" and k: "0 < k" "k \<le> 4" and r: "cbb_add_u al d s v k = (True, s')"
  shows "cbb_appended d s (be_bytes k (unat v)) s' \<and> unat v < 256 ^ k"
proof -
  from r obtain s1 b where fl: "CBB_flush al d s = (True, s1)"
    and add: "cbb_buffer_add_u al (cb_base s1) v k = (True, b)" and s': "s' = set_base s1 b"
    unfolding cbb_add_u_def by (elim with_flush_TrueE) (auto split: prod.splits)
  have "buffer_ok (cb_base s1)" using CBB_flush_sound [OF ok fl] by (simp add: cbb_ok_def)
  from buffer_add_u_ok [OF this k add] show ?thesis
    unfolding s' using flush_then_append [OF ok fl] by blast
qed

lemma CBB_add_u8_sound:
  assumes "cbb_ok s" and "CBB_add_u8 al d s b = (True, s')"
  shows "cbb_appended d s [b] s'"
  using cbb_add_u_sound [of s 1 al d "ucast b" s'] assms by (simp add: CBB_add_u8_def)

text \<open>Successive appends at one depth, and an append below a fresh child.\<close>

lemma cbb_appended_append:
  assumes "cbb_appended d s xs s1" and "cbb_appended d s1 ys s2"
  shows "cbb_appended d s (xs @ ys) s2"
  using assms
  by (auto simp: cbb_appended_def closed_at_def cbb_rest_def same_flags_def simp flip: append_assoc)

lemma frames_ok_snoc:
  "frames_ok lo off fs \<Longrightarrow> off \<le> cc_offset f \<Longrightarrow> cc_offset f + pending_len_len f \<le> len \<Longrightarrow>
    0 < pending_len_len f \<Longrightarrow> (pending_is_asn1 f \<longrightarrow> pending_len_len f = 1) \<Longrightarrow> frames_ok lo len (fs @ [f])"
  by (induction fs arbitrary: lo) auto

text \<open>A fresh child over a placeholder that was just appended.\<close>

lemma add_child_ok:
  assumes "cbb_ok s1" and "cb_children s1 = take d fs" and "d \<le> length fs"
    and "frames_ok 0 off (take d fs)" and "off + k = cb_len (cb_base s1)" and "0 < k" and "is_asn1 \<longrightarrow> k = 1"
  shows "cbb_ok (add_child s1 d off k is_asn1)"
  using assms frames_ok_snoc [of 0 off "take d fs"
      "\<lparr>cc_offset = off, pending_len_len = k, pending_is_asn1 = is_asn1\<rparr>" "cb_len (cb_base s1)"]
  by (simp add: cbb_ok_def add_child_def)

lemma length_cbb_bytes: "cbb_ok s \<Longrightarrow> length (cbb_bytes s) = cb_len (cb_base s)"
  by (simp add: cbb_ok_def cbb_bytes_def length_buffer_bytes)

text \<open>
  \<open>child_opened d s xs s' is_asn1 k\<close>: at depth \<open>d\<close> the bytes \<open>xs\<close> were appended, a placeholder of
  \<open>k\<close> bytes follows them, and a child over it is open.
\<close>

definition child_opened :: "nat \<Rightarrow> cbb \<Rightarrow> byte list \<Rightarrow> cbb \<Rightarrow> bool \<Rightarrow> nat \<Rightarrow> bool" where
  "child_opened d s xs s' is_asn1 k \<longleftrightarrow>
     (\<exists>s1. cbb_appended d s (xs @ replicate k 0) s1 \<and> cbb_ok s'
        \<and> s' = add_child s1 d (length (cbb_bytes s1) - k) k is_asn1)"

lemma length_prefixed_sound:
  assumes ok: "cbb_ok s" and k: "0 < k" "k \<le> 4" and r: "cbb_add_length_prefixed al d s k = (True, s')"
  shows "child_opened d s [] s' False k"
proof -
  from r obtain s1 b where fl: "CBB_flush al d s = (True, s1)"
    and add: "cbb_buffer_add al (cb_base s1) k = (True, b)"
    and s': "s' = add_child (set_base s1 (b\<lparr>cb_buf := write_at (cb_buf b) (cb_len (cb_base s1))
        (replicate k 0)\<rparr>)) d (cb_len (cb_base s1)) k False"
    unfolding cbb_add_length_prefixed_def Let_def
    by (elim with_flush_TrueE) (auto split: prod.splits if_splits)
  let ?b = "b\<lparr>cb_buf := write_at (cb_buf b) (cb_len (cb_base s1)) (replicate k 0)\<rparr>"
  have bok: "buffer_ok (cb_base s1)" using CBB_flush_sound [OF ok fl] by (simp add: cbb_ok_def)
  have app: "buffer_appends (cb_base s1) (replicate k 0) ?b"
    using buffer_add_write [OF bok, of "replicate k 0" al b] add k by (simp add: PTRDIFF_MAX_def)
  note A = flush_then_append [OF ok fl app]
  have len: "length (cbb_bytes (set_base s1 ?b)) - k = cb_len (cb_base s1)"
    using app bok by (simp add: cbb_bytes_def set_base_def buffer_appends_def length_buffer_bytes)
  have "cbb_ok s'"
    unfolding s'
  proof (rule add_child_ok [where fs = "cb_children s"])
    show "frames_ok 0 (cb_len (cb_base s1)) (take d (cb_children s))"
      using CBB_flush_sound [OF ok fl] by (auto simp: cbb_ok_def)
    show "cb_len (cb_base s1) + k = cb_len (cb_base (set_base s1 ?b))"
      using len length_cbb_bytes [of "set_base s1 ?b"] A app bok
      by (simp add: cbb_appended_def cbb_bytes_def set_base_def buffer_appends_def length_buffer_bytes)
  qed (use A k in \<open>auto simp: cbb_appended_def\<close>)
  then show ?thesis using A len s' by (auto simp: child_opened_def)
qed

lemma CBB_add_asn1_sound:
  assumes ok: "cbb_ok s" and r: "CBB_add_asn1 al d s tag = (True, s')"
  shows "child_opened d s [ucast tag] s' True 1 \<and> tag \<le> 0xff \<and> tag AND 0x1f \<noteq> 0x1f"
proof -
  have tag: "\<not> (0xff < tag \<or> tag AND 0x1f = 0x1f)" using r by (auto simp: CBB_add_asn1_def)
  from r obtain s0 s1 s2 where fl: "CBB_flush al d s = (True, s0)"
    and r1: "CBB_add_u8 al d s0 (ucast tag) = (True, s1)" and r2: "CBB_add_u8 al d s1 0 = (True, s2)"
    and s': "s' = add_child s2 d (cb_len (cb_base s1)) 1 True"
    unfolding CBB_add_asn1_def if_not_P [OF tag] Let_def
    by (elim with_flush_TrueE) (auto split: prod.splits if_splits)
  note A0 = flush_appended [OF ok fl]
  then have ok0: "cbb_ok s0" by (simp add: cbb_appended_def)
  note A1 = CBB_add_u8_sound [OF ok0 r1]
  then have ok1: "cbb_ok s1" by (simp add: cbb_appended_def)
  note A2 = CBB_add_u8_sound [OF ok1 r2]
  have A: "cbb_appended d s ([ucast tag] @ replicate 1 0) s2"
    using cbb_appended_append [OF A0 cbb_appended_append [OF A1 A2]] by simp
  have fs: "cb_children s1 = take d (cb_children s)" "cb_children s2 = take d (cb_children s)"
    using A0 A1 A2 by (auto simp: cbb_appended_def min_def)
  have ok2: "cbb_ok s2" using A2 by (simp add: cbb_appended_def)
  have bytes: "cbb_bytes s2 = cbb_bytes s1 @ [0]" using A2 fs by (auto simp: cbb_appended_def closed_at_def)
  then have len: "length (cbb_bytes s2) - 1 = cb_len (cb_base s1)" "cb_len (cb_base s1) + 1 = cb_len (cb_base s2)"
    using length_cbb_bytes [OF ok1] length_cbb_bytes [OF ok2] by simp_all
  have "cbb_ok s'"
    unfolding s' using ok1 fs len A0
    by (intro add_child_ok [where fs = "cb_children s", OF ok2]) (auto simp: cbb_ok_def cbb_appended_def)
  with A len s' tag show ?thesis by (auto simp: child_opened_def not_less)
qed

text \<open>What closing a child leaves: the appended bytes, the encoded length, the contents.\<close>

definition length_prefix :: "bool \<Rightarrow> nat \<Rightarrow> nat \<Rightarrow> byte list option" where
  "length_prefix is_asn1 k n =
     (if is_asn1 then (if n \<le> 0xfffffffe then Some (der_length n) else None)
      else (if n < 256 ^ k then Some (be_bytes k n) else None))"

lemma child_closed:
  assumes op: "child_opened d s xs s1 is_asn1 k" and app: "cbb_appended (Suc d) s1 ys s2"
    and bs: "closed_at d s = Some bs"
  shows "closed_at d s2 = map_option (\<lambda>p. bs @ xs @ p @ ys) (length_prefix is_asn1 k (length ys))"
    and "take d (cb_children s2) = take d (cb_children s)" and "d \<le> length (cb_children s)"
    and "d \<le> length (cb_children s2)"
proof -
  obtain s0 where a0: "cbb_appended d s (xs @ replicate k 0) s0"
    and s1: "s1 = add_child s0 d (length (cbb_bytes s0) - k) k is_asn1"
    using op by (auto simp: child_opened_def)
  have bytes0: "cbb_bytes s0 = bs @ xs @ replicate k 0" and d: "d \<le> length (cb_children s)"
    and fs0: "cb_children s0 = take d (cb_children s)"
    using a0 bs by (auto simp: cbb_appended_def)
  let ?f = "\<lparr>cc_offset = length (bs @ xs), pending_len_len = k, pending_is_asn1 = is_asn1\<rparr>"
  have fs1: "cb_children s1 = take d (cb_children s) @ [?f]" and bytes1: "cbb_bytes s1 = bs @ xs @ replicate k 0"
    using fs0 bytes0 by (auto simp: s1 add_child_def cbb_bytes_def)
  have fs2: "cb_children s2 = take d (cb_children s) @ [?f]" and bytes2: "cbb_bytes s2 = bs @ xs @ replicate k 0 @ ys"
    using app d by (auto simp: cbb_appended_def fs1 closed_at_def bytes1)
  show "closed_at d s2 = map_option (\<lambda>p. bs @ xs @ p @ ys) (length_prefix is_asn1 k (length ys))"
    using d by (simp add: closed_at_def fs2 bytes2 close_frame_def length_prefix_def Let_def)
  show "take d (cb_children s2) = take d (cb_children s)" "d \<le> length (cb_children s)"
    "d \<le> length (cb_children s2)" using d by (simp_all add: fs2)
qed

section \<open>The interface of a byte sink\<close>

lemma be_bytes_head: "be_bytes (Suc n) v = word_of_nat (v div 256 ^ n) # be_bytes n v"
  by (induction n arbitrary: v) (simp_all add: div_mult2_eq)

lemma uint64_byte:
  "(ucast (drop_bit (8 * n) (v :: u64) AND 0xff) :: byte) = word_of_nat (unat v div 256 ^ n)"
proof -
  let ?x = "drop_bit (8 * n) v"
  have "?x AND 0xff = take_bit 8 ?x" by (simp add: take_bit_eq_mask mask_numeral)
  then have "(ucast (?x AND 0xff) :: byte) = ucast ?x"
    by (simp only:) (rule bit_word_eqI, simp add: bit_simps)
  also have "\<dots> = word_of_nat (unat ?x)" by simp
  also have "unat ?x = unat v div 256 ^ n"
    unfolding unat_drop_bit_div by (simp add: power_mult)
  finally show ?thesis .
qed

lemma be_bytes_mod: "be_bytes n (v mod 256 ^ n) = be_bytes n v"
  using be_bytes_be_nat [of "be_bytes n v"] by (simp add: be_nat_be_bytes)

text \<open>The bytes written for a leading non-zero byte are the shortest encoding.\<close>

lemma der_uint_padded:
  assumes "hi \<noteq> (0 :: byte)"
  shows "der_uint (be_nat (hi # ys)) = (if hi AND 0x80 \<noteq> 0 then [0] else []) @ hi # ys"
proof -
  let ?d = "(if hi AND 0x80 \<noteq> 0 then [0] else []) @ hi # ys"
  have "uint_octets (be_nat ?d) = length ?d"
    using assms by (subst uint_checks_iff [symmetric]) auto
  moreover have "be_nat ?d = be_nat (hi # ys)" by (simp add: be_nat_Cons)
  ultimately show ?thesis using be_bytes_be_nat [of ?d] by (simp add: der_uint_def)
qed

text \<open>
  A sink takes bytes one at a time; a call that returns 1 has appended the byte. The loop of
  \<open>CBB_add_asn1_uint64\<close> only uses this much of the builder.
\<close>

locale byte_sink =
  fixes put :: "'s \<Rightarrow> byte \<Rightarrow> bool \<times> 's"
    and out :: "'s \<Rightarrow> byte list option"
    and good :: "'s \<Rightarrow> bool"
  assumes put_good: "good s \<Longrightarrow> put s b = (True, s') \<Longrightarrow> good s'"
    and put_out: "good s \<Longrightarrow> put s b = (True, s') \<Longrightarrow> out s' = map_option (\<lambda>bs. bs @ [b]) (out s)"
begin

lemma uint64_loop_started:
  "good s \<Longrightarrow> asn1_uint64_loop put v n True s = Inr (st, s') \<Longrightarrow>
    st \<and> good s' \<and> out s' = map_option (\<lambda>bs. bs @ be_bytes n (unat v)) (out s)"
proof (induction n arbitrary: s)
  case 0
  then show ?case by (simp add: option.map_ident)
next
  case (Suc n)
  let ?b = "ucast (drop_bit (8 * n) v AND 0xff) :: byte"
  obtain s1 where s1: "put s ?b = (True, s1)" and rest: "asn1_uint64_loop put v n True s1 = Inr (st, s')"
    using Suc.prems(2) by (auto simp: Let_def split: prod.splits if_splits)
  have "be_bytes (Suc n) (unat v) = ?b # be_bytes n (unat v)"
    unfolding uint64_byte by (rule be_bytes_head)
  then show ?case
    using Suc.IH [OF put_good [OF Suc.prems(1) s1] rest] put_out [OF Suc.prems(1) s1]
    by (simp add: option.map_comp comp_def)
qed

lemma uint64_loop_leading:
  "good s \<Longrightarrow> asn1_uint64_loop put v n False s = Inr (st, s') \<Longrightarrow>
    good s' \<and> (st \<longleftrightarrow> unat v mod 256 ^ n \<noteq> 0)
    \<and> out s' = map_option (\<lambda>bs. bs @ (if st then der_uint (unat v mod 256 ^ n) else [])) (out s)"
proof (induction n arbitrary: s)
  case 0
  then show ?case by (simp add: option.map_ident)
next
  case (Suc n)
  let ?b = "ucast (drop_bit (8 * n) v AND 0xff) :: byte"
  have be: "be_bytes (Suc n) (unat v) = ?b # be_bytes n (unat v)"
    unfolding uint64_byte by (rule be_bytes_head)
  have val: "be_nat (?b # be_bytes n (unat v)) = unat v mod 256 ^ Suc n"
    unfolding be [symmetric] by (rule be_nat_be_bytes)
  show ?case
  proof (cases "?b = 0")
    case True
    then have "unat v mod 256 ^ Suc n = unat v mod 256 ^ n"
      using val by (simp add: be_nat_Cons be_nat_be_bytes)
    with Suc.IH [OF Suc.prems(1)] Suc.prems(2) True show ?thesis by (simp add: Let_def)
  next
    case False
    let ?pad = "if ?b AND 0x80 \<noteq> 0 then [0] else []"
    from Suc.prems(2) False obtain s1 s2
      where s1: "(if ?b AND 0x80 \<noteq> 0 then put s 0 else (True, s)) = (True, s1)"
        and s2: "put s1 ?b = (True, s2)" and rest: "asn1_uint64_loop put v n True s2 = Inr (st, s')"
      by (auto simp: Let_def split: prod.splits if_splits)
    have g1: "good s1" "out s1 = map_option (\<lambda>bs. bs @ ?pad) (out s)"
      using s1 Suc.prems(1) put_good put_out by (auto simp: option.map_ident split: if_splits)
    note g2 = put_good [OF g1(1) s2] put_out [OF g1(1) s2]
    have "0 < unat ?b * 256 ^ n" using False by (simp add: unat_gt_0)
    then have "unat v mod 256 ^ Suc n \<noteq> 0" using val unfolding be_nat_Cons length_be_bytes by linarith
    moreover have "der_uint (unat v mod 256 ^ Suc n) = ?pad @ ?b # be_bytes n (unat v)"
      using der_uint_padded [OF False, of "be_bytes n (unat v)"] val by simp
    ultimately show ?thesis
      using uint64_loop_started [OF g2(1) rest] g2(2) g1(2)
      by (simp add: option.map_comp comp_def)
  qed
qed

lemma uint64_whole:
  assumes "good s" and "asn1_uint64_loop put v 8 False s = Inr (st, s1)"
    and "(if \<not> st then put s1 0 else (True, s1)) = (True, s')"
  shows "good s' \<and> out s' = map_option (\<lambda>bs. bs @ der_uint (unat v)) (out s)"
proof -
  have v: "unat v mod 256 ^ 8 = unat v" using unat_u64_less [of v] by simp
  note L = uint64_loop_leading [OF assms(1,2), unfolded v]
  show ?thesis
  proof (cases st)
    case True
    with L assms(3) show ?thesis by simp
  next
    case False
    have "der_uint 0 = [0]" by (simp add: der_uint_def uint_octets.simps [of 0])
    with L False have v0: "der_uint (unat v) = [0]" by simp
    from False assms(3) have s': "put s1 0 = (True, s')" by simp
    from L False put_good [OF _ s'] put_out [OF _ s'] show ?thesis
      unfolding v0 by (simp add: option.map_ident)
  qed
qed

end

text \<open>\<open>CBB_add_u8\<close> on a child of a builder keeps the contract of a sink.\<close>

definition open_at :: "cbb \<Rightarrow> cbb \<Rightarrow> bool" where
  "open_at s0 s \<longleftrightarrow> cbb_ok s \<and> cb_children s = cb_children s0 \<and> cbb_rest s0 s"

interpretation cbb_sink: byte_sink "CBB_add_u8 al (length (cb_children s0))"
  "\<lambda>s. Some (cbb_bytes s)" "open_at s0" for al s0
proof
  fix s b s'
  assume g: "open_at s0 s" and r: "CBB_add_u8 al (length (cb_children s0)) s b = (True, s')"
  from g have "cbb_ok s" by (simp add: open_at_def)
  from CBB_add_u8_sound [OF this r] g
  show "open_at s0 s'" and "Some (cbb_bytes s') = map_option (\<lambda>bs. bs @ [b]) (Some (cbb_bytes s))"
    by (auto simp: open_at_def cbb_appended_def closed_at_def cbb_rest_def same_flags_def)
qed

lemma child_opened_D:
  assumes "child_opened d s xs s1 is_asn1 k"
  shows "cbb_ok s1" and "length (cb_children s1) = Suc d" and "d \<le> length (cb_children s)"
    and "\<not> cb_error (cb_base s1)" and "\<exists>bs. closed_at d s = Some bs"
    and "take d (cb_children s1) = take d (cb_children s)"
  using assms by (auto simp: child_opened_def cbb_appended_def add_child_def cbb_rest_def same_flags_def)

lemma closed_at_top: "length (cb_children s) = d \<Longrightarrow> closed_at d s = Some (cbb_bytes s)"
  by (simp add: closed_at_def)

lemma CBB_add_asn1_uint64_sound:
  assumes ok: "cbb_ok s" and r: "CBB_add_asn1_uint64 al d s v = (True, s')"
  shows "cbb_appended d s (der_element 2 (der_uint (unat v))) s'"
proof -
  from r obtain s1 st s2 s3 where r1: "CBB_add_asn1 al d s CBS_ASN1_INTEGER = (True, s1)"
    and loop: "asn1_uint64_loop (CBB_add_u8 al (Suc d)) v 8 False s1 = Inr (st, s2)"
    and last: "(if \<not> st then CBB_add_u8 al (Suc d) s2 0 else (True, s2)) = (True, s3)"
    and fl: "CBB_flush al d s3 = (True, s')"
    by (auto simp: CBB_add_asn1_uint64_def split: prod.splits sum.splits if_splits)
  have op: "child_opened d s [2] s1 True 1"
    using CBB_add_asn1_sound [OF ok r1] by (simp add: CBS_ASN1_INTEGER_def)
  note D = child_opened_D [OF op]
  obtain bs where bs: "closed_at d s = Some bs" using D(5) by blast
  have "open_at s1 s1" using D(1) by (simp add: open_at_def cbb_rest_def same_flags_def)
  from cbb_sink.uint64_whole [OF this loop [folded D(2)] last [folded D(2)]]
  have s3: "cbb_ok s3" "cbb_appended (Suc d) s1 (der_uint (unat v)) s3"
    using D(2,4) by (auto simp: open_at_def cbb_appended_def closed_at_def)
  note C = child_closed [OF op s3(2) bs]
  have "uint_octets (unat v) \<le> 9" using uint_octets_u64 [of "unat v"] unat_u64_less [of v] by simp
  then have "closed_at d s3 = Some (bs @ der_element 2 (der_uint (unat v)))"
    using C(1) by (simp add: length_prefix_def der_element_def der_uint_def)
  then show ?thesis
    using flush_appended [OF s3(1) fl] C(2,3) bs op s3(2)
    by (auto simp: cbb_appended_def child_opened_def cbb_rest_def same_flags_def add_child_def)
qed

text \<open>The same for an element with arbitrary contents.\<close>

lemma CBB_element_sound:
  assumes ok: "cbb_ok s" and r1: "CBB_add_asn1 al d s tag = (True, s1)"
    and app: "cbb_appended (Suc d) s1 contents s2" and fl: "CBB_flush al d s2 = (True, s')"
  shows "cbb_appended d s (der_element (ucast tag) contents) s' \<and> length contents \<le> 0xfffffffe"
proof -
  have op: "child_opened d s [ucast tag] s1 True 1" using CBB_add_asn1_sound [OF ok r1] by simp
  obtain bs where bs: "closed_at d s = Some bs" using child_opened_D(5) [OF op] by blast
  note C = child_closed [OF op app bs]
  have ok2: "cbb_ok s2" using app by (simp add: cbb_appended_def)
  note F = flush_appended [OF ok2 fl]
  then have small: "length contents \<le> 0xfffffffe"
    using C(1) by (auto simp: cbb_appended_def length_prefix_def split: if_splits)
  then have "closed_at d s2 = Some (bs @ der_element (ucast tag) contents)"
    using C(1) by (simp add: length_prefix_def der_element_def)
  then show ?thesis
    using F C(2,3) bs op app small
    by (auto simp: cbb_appended_def child_opened_def cbb_rest_def same_flags_def add_child_def)
qed

lemma CBB_prefixed_sound:
  assumes ok: "cbb_ok s" and k: "0 < k" "k \<le> 4" and r1: "cbb_add_length_prefixed al d s k = (True, s1)"
    and app: "cbb_appended (Suc d) s1 contents s2" and fl: "CBB_flush al d s2 = (True, s')"
  shows "cbb_appended d s (be_bytes k (length contents) @ contents) s' \<and> length contents < 256 ^ k"
proof -
  have op: "child_opened d s [] s1 False k" using length_prefixed_sound [OF ok k r1] by simp
  obtain bs where bs: "closed_at d s = Some bs" using child_opened_D(5) [OF op] by blast
  note C = child_closed [OF op app bs]
  have ok2: "cbb_ok s2" using app by (simp add: cbb_appended_def)
  note F = flush_appended [OF ok2 fl]
  then have small: "length contents < 256 ^ k"
    using C(1) by (auto simp: cbb_appended_def length_prefix_def split: if_splits)
  then have "closed_at d s2 = Some (bs @ be_bytes k (length contents) @ contents)"
    using C(1) by (simp add: length_prefix_def)
  then show ?thesis
    using F C(2,3) bs op app small
    by (auto simp: cbb_appended_def child_opened_def cbb_rest_def same_flags_def add_child_def)
qed

section \<open>The builder as a state machine\<close>

text \<open>
  One call on one object of the builder; \<open>d\<close> names a live object. The uncounted writes of a
  client into reserved space are the \<open>write\<close> step.
\<close>

inductive cbb_step :: "allocator \<Rightarrow> cbb \<Rightarrow> cbb \<Rightarrow> bool" for al where
  flush: "d \<le> length (cb_children s) \<Longrightarrow> CBB_flush al d s = (r, s') \<Longrightarrow> cbb_step al s s'"
| add_bytes: "d \<le> length (cb_children s) \<Longrightarrow> length data \<le> PTRDIFF_MAX \<Longrightarrow>
    CBB_add_bytes al d s data (length data) = (r, s') \<Longrightarrow> cbb_step al s s'"
| add_u: "d \<le> length (cb_children s) \<Longrightarrow> 0 < k \<Longrightarrow> k \<le> 4 \<Longrightarrow> cbb_add_u al d s v k = (r, s') \<Longrightarrow>
    cbb_step al s s'"
| add_space: "d \<le> length (cb_children s) \<Longrightarrow> n \<le> PTRDIFF_MAX \<Longrightarrow> CBB_add_space al d s n = (r, s') \<Longrightarrow>
    cbb_step al s s'"
| reserve: "d \<le> length (cb_children s) \<Longrightarrow> n \<le> PTRDIFF_MAX \<Longrightarrow> CBB_reserve al d s n = (r, s') \<Longrightarrow>
    cbb_step al s s'"
| client_write: "length mem = length (cb_buf (cb_base s)) \<Longrightarrow> s' = set_base s ((cb_base s)\<lparr>cb_buf := mem\<rparr>) \<Longrightarrow>
    cbb_step al s s'"
| did_write: "d \<le> length (cb_children s) \<Longrightarrow> n \<le> PTRDIFF_MAX \<Longrightarrow> CBB_did_write d s n = (r, s') \<Longrightarrow>
    cbb_step al s s'"
| discard: "s' = CBB_discard_child d s \<Longrightarrow> cbb_step al s s'"
| add_prefixed: "d \<le> length (cb_children s) \<Longrightarrow> 0 < k \<Longrightarrow> k \<le> 3 \<Longrightarrow>
    cbb_add_length_prefixed al d s k = (r, s') \<Longrightarrow> cbb_step al s s'"
| add_asn1: "d \<le> length (cb_children s) \<Longrightarrow> CBB_add_asn1 al d s tag = (r, s') \<Longrightarrow> cbb_step al s s'"

text \<open>Failing operations keep the block and its length in order as well.\<close>

lemma length_put_be: "length (fst (put_be buf off n v)) = length buf"
  by (induction buf off n v rule: put_be.induct) simp_all

lemma put_be_snd: "snd (put_be buf off n v) = v div 256 ^ n"
  by (induction buf off n v rule: put_be.induct) (simp_all add: div_mult2_eq)

lemma buffer_ok_error [simp]: "buffer_ok (b\<lparr>cb_error := e\<rparr>) = buffer_ok b"
  by (simp add: buffer_ok_def)

lemma buffer_add_kept:
  assumes "buffer_ok b" and "len \<le> PTRDIFF_MAX" and "cbb_buffer_add al b len = (res, b')"
  shows "buffer_ok b'" and "cb_len b \<le> cb_len b'"
  using assms buffer_add_ok(1,2) [OF assms(1,2), of al b'] buffer_add_fail [OF assms(1,2), of al b']
  by (cases res; simp)+

lemma buffer_add_u_kept:
  assumes ok: "buffer_ok b" and k: "0 < k" "k \<le> 4" and r: "cbb_buffer_add_u al b v k = (res, b')"
  shows "buffer_ok b' \<and> cb_len b \<le> cb_len b'"
proof -
  obtain ok1 b1 where b1: "cbb_buffer_add al b k = (ok1, b1)" by fastforce
  have "k \<le> PTRDIFF_MAX" using k by (simp add: PTRDIFF_MAX_def)
  note K = buffer_add_kept [OF ok this b1]
  have "buffer_ok (b1\<lparr>cb_buf := fst (put_be (cb_buf b1) (cb_len b) k (unat v))\<rparr>)"
    using K(1) by (simp add: buffer_ok_def length_put_be)
  with K r k b1 show ?thesis
    by (auto simp: cbb_buffer_add_u_def buffer_ok_def split: prod.splits if_splits)
qed

lemma flush_prefix_fail:
  assumes ok: "buffer_ok b" and f: "pending_is_asn1 f \<longrightarrow> pending_len_len f = 1"
    and r: "flush_prefix al b f cs = (False, b')"
  shows "buffer_ok b' \<and> cb_len b \<le> cb_len b'"
proof (cases "pending_is_asn1 f \<and> cb_len b - cs \<le> 0xfffffffe")
  case False
  then show ?thesis using r ok length_put_be [of "cb_buf b" "cc_offset f" "pending_len_len f" "cb_len b - cs"]
    by (auto simp: flush_prefix_def Let_def buffer_ok_def split: if_splits prod.splits)
next
  case True
  obtain ll b0 v where form: "asn1_len_form (cb_len b - cs) = (ll, b0, v)" by (metis prod_cases3)
  have F: "ll \<le> 5" "v div 256 ^ (ll - 1) = 0" using asn1_len_form_ok [OF form] True by auto
  have "b' = snd (cbb_buffer_add al b (ll - 1))"
    using r True form F(2) put_be_snd [where n = "ll - 1" and v = v]
    by (auto simp: flush_prefix_def Let_def case_prod_beta split: if_splits)
  moreover have "ll - 1 \<le> PTRDIFF_MAX" using F(1) by (simp add: PTRDIFF_MAX_def)
  ultimately show ?thesis using buffer_add_kept [OF ok, of "ll - 1" al] by (metis prod.collapse)
qed

lemma set_base_ok:
  "cbb_ok s \<Longrightarrow> buffer_ok b \<Longrightarrow> cb_len (cb_base s) \<le> cb_len b \<Longrightarrow> cbb_ok (set_base s b)"
  by (auto simp: set_base_def cbb_ok_def intro: frames_ok_extend)

lemma cbb_fail_ok: "cbb_ok s \<Longrightarrow> cbb_ok (cbb_fail s)"
  by (simp add: cbb_fail_def set_base_def cbb_ok_def)

lemma CBB_flush_fail_ok: "cbb_ok s \<Longrightarrow> CBB_flush al d s = (False, s') \<Longrightarrow> cbb_ok s'"
proof (induction al d s arbitrary: s' rule: CBB_flush.induct)
  case (1 al d s)
  let ?fs = "cb_children s" and ?f = "cb_children s ! d"
  show ?case
  proof (cases "length ?fs < d \<or> cb_error (cb_base s) \<or> d = length ?fs \<or> pending_len_len ?f = 0")
    case True
    with "1.prems" show ?thesis by (auto simp: CBB_flush.simps [of al d s] split: if_splits)
  next
    case False
    then have c: "\<not> (length ?fs < d \<or> cb_error (cb_base s))" "\<not> (d = length ?fs \<or> pending_len_len ?f = 0)" by auto
    obtain ok s1 where s1: "CBB_flush al (Suc d) s = (ok, s1)" by fastforce
    have ok1: "cbb_ok s1"
      using "1.IH" [OF c refl refl "1.prems"(1), of s1] CBB_flush_sound [OF "1.prems"(1), of al "Suc d" s1] s1
      by (cases ok) auto
    have "pending_is_asn1 ?f \<longrightarrow> pending_len_len ?f = 1"
      using "1.prems"(1) c frames_ok_nth_asn1 [of 0 "cb_len (cb_base s)" ?fs d] by (auto simp: cbb_ok_def)
    then have "cbb_ok (set_base s1 b')" if "flush_prefix al (cb_base s1) ?f cs = (False, b')" for b' cs
      using set_base_ok [OF ok1, of b'] flush_prefix_fail [OF _ _ that] ok1 by (simp add: cbb_ok_def)
    with "1.prems"(2) c s1 ok1 show ?thesis
      by (auto simp: CBB_flush.simps [of al d s] Let_def intro!: cbb_fail_ok split: prod.splits if_splits)
  qed
qed

lemma with_flush_ok:
  assumes "cbb_ok s" and "with_flush al d s op = (r, s')"
    and "\<And>s1. cbb_ok s1 \<Longrightarrow> cb_children s1 = take d (cb_children s) \<Longrightarrow> op s1 = (r, s') \<Longrightarrow> cbb_ok s'"
  shows "cbb_ok s'"
proof (cases "CBB_flush al d s")
  case (Pair ok s1)
  then show ?thesis
    using assms CBB_flush_sound [OF assms(1), of al d s1] CBB_flush_fail_ok [OF assms(1), of al d s1]
    by (cases ok) (auto simp: with_flush_def)
qed

lemma flush_ok: "cbb_ok s \<Longrightarrow> CBB_flush al d s = (r, s') \<Longrightarrow> cbb_ok s'"
  using CBB_flush_sound [of s al d s'] CBB_flush_fail_ok [of s al d s'] by (cases r) auto

lemma cbb_add_u_ok:
  assumes "cbb_ok s" and "0 < k" "k \<le> 4" and r: "cbb_add_u al d s v k = (r, s')"
  shows "cbb_ok s'"
proof (rule with_flush_ok [OF assms(1) r [unfolded cbb_add_u_def]])
  fix s1 assume ok: "cbb_ok s1" and op: "(case cbb_buffer_add_u al (cb_base s1) v k of (ok, b) \<Rightarrow> (ok, set_base s1 b)) = (r, s')"
  then show "cbb_ok s'" using buffer_add_u_kept [of "cb_base s1" k al v] assms(2,3)
    by (auto simp: cbb_ok_def [of s1] intro!: set_base_ok split: prod.splits)
qed

lemma buffer_add_step:
  assumes ok: "cbb_ok s1" and len: "len \<le> PTRDIFF_MAX" and r: "cbb_buffer_add al (cb_base s1) len = (res, b)"
    and mem: "length mem = length (cb_buf b)"
  shows "cbb_ok (set_base s1 (b\<lparr>cb_buf := mem\<rparr>))"
  using buffer_add_kept [OF _ len r] ok mem
  by (intro set_base_ok [OF ok]) (auto simp: buffer_ok_def cbb_ok_def)

lemma cbb_add_asn1_ok:
  assumes ok: "cbb_ok s" and r: "CBB_add_asn1 al d s tag = (r, s')"
  shows "cbb_ok s'"
proof (cases r)
  case True
  from CBB_add_asn1_sound [OF ok, of al d tag s'] r True show ?thesis by (auto simp: child_opened_def)
next
  case False
  show ?thesis
  proof (cases "0xff < tag \<or> tag AND 0x1f = 0x1f")
    case True
    with r ok show ?thesis by (auto simp: CBB_add_asn1_def intro: cbb_fail_ok)
  next
    case tag: False
    show ?thesis
    proof (rule with_flush_ok [OF ok r [unfolded CBB_add_asn1_def if_not_P [OF tag]]])
      fix s1
      assume ok1: "cbb_ok s1"
        and op: "(case CBB_add_u8 al d s1 (ucast tag) of (ok, s) \<Rightarrow> if \<not> ok then (False, s)
          else let off = cb_len (cb_base s) in case CBB_add_u8 al d s 0 of
            (ok, s) \<Rightarrow> if \<not> ok then (False, s) else (True, add_child s d off 1 True)) = (r, s')"
      obtain ok2 s2 where s2: "CBB_add_u8 al d s1 (ucast tag) = (ok2, s2)" by fastforce
      obtain ok3 s3 where s3: "CBB_add_u8 al d s2 0 = (ok3, s3)" by fastforce
      have "cbb_ok s2" using cbb_add_u_ok [OF ok1, of 1 al d _ ok2 s2] s2 by (simp add: CBB_add_u8_def)
      moreover from this have "cbb_ok s3" using cbb_add_u_ok [of s2 1 al d _ ok3 s3] s3 by (simp add: CBB_add_u8_def)
      ultimately show "cbb_ok s'" using op s2 s3 False by (auto split: if_splits)
    qed
  qed
qed

lemma add_bytes_ok:
  assumes "cbb_ok s" and len: "length data \<le> PTRDIFF_MAX" and r: "CBB_add_bytes al d s data (length data) = (r, s')"
  shows "cbb_ok s'"
proof (rule with_flush_ok [OF assms(1) r [unfolded CBB_add_bytes_def]])
  fix s1
  assume ok: "cbb_ok s1"
    and op: "(case cbb_buffer_add al (cb_base s1) (length data) of (ok, b) \<Rightarrow>
      if \<not> ok then (False, set_base s1 b)
      else (True, set_base s1 (b\<lparr>cb_buf := write_at (cb_buf b) (cb_len (cb_base s1)) (take (length data) data)\<rparr>)))
      = (r, s')"
  obtain res b where b: "cbb_buffer_add al (cb_base s1) (length data) = (res, b)" by fastforce
  have bok: "buffer_ok (cb_base s1)" using ok by (simp add: cbb_ok_def)
  have "length (write_at (cb_buf b) (cb_len (cb_base s1)) data) = length (cb_buf b)" if res
    using buffer_add_ok(1,2) [OF bok len, of al b] b that by (simp add: buffer_ok_def)
  then show "cbb_ok s'" using buffer_add_step [OF ok len b] buffer_add_step [OF ok len b refl] op b by (cases res) auto
qed

lemma add_space_ok:
  assumes "cbb_ok s" and "n \<le> PTRDIFF_MAX" and r: "CBB_add_space al d s n = (r, s')"
  shows "cbb_ok s'"
proof (rule with_flush_ok [OF assms(1) r [unfolded CBB_add_space_def]])
  fix s1 assume "cbb_ok s1" and "(case cbb_buffer_add al (cb_base s1) n of (ok, b) \<Rightarrow> (ok, set_base s1 b)) = (r, s')"
  with buffer_add_step [OF _ assms(2) _ refl] show "cbb_ok s'" by (auto split: prod.splits)
qed

lemma reserve_ok:
  assumes "cbb_ok s" and len: "n \<le> PTRDIFF_MAX" and r: "CBB_reserve al d s n = (r, s')"
  shows "cbb_ok s'"
proof (rule with_flush_ok [OF assms(1) r [unfolded CBB_reserve_def]])
  fix s1 assume ok: "cbb_ok s1"
    and op: "(case cbb_buffer_reserve al (cb_base s1) n of (ok, b) \<Rightarrow> (ok, set_base s1 b)) = (r, s')"
  then have bok: "buffer_ok (cb_base s1)" by (simp add: cbb_ok_def)
  obtain b where b: "cbb_buffer_reserve al (cb_base s1) n = (r, b)" "s' = set_base s1 b"
    using op by (auto split: prod.splits)
  from buffer_reserve_ok [OF bok len b(1)] bok show "cbb_ok s'"
    unfolding b(2) by (intro set_base_ok [OF ok]) (auto split: if_splits)
qed

lemma discard_ok:
  assumes ok: "cbb_ok s"
  shows "cbb_ok (CBB_discard_child d s)"
proof (cases "d < length (cb_children s)")
  case True
  let ?off = "cc_offset (cb_children s ! d)"
  have fok: "frames_ok 0 (cb_len (cb_base s)) (take d (cb_children s) @ cb_children s ! d # drop (Suc d) (cb_children s))"
    using ok True by (simp add: cbb_ok_def id_take_nth_drop [symmetric])
  have "?off \<le> cb_len (cb_base s)" using fok frames_ok_off by blast
  moreover have "frames_ok 0 ?off (take d (cb_children s))" using fok frames_ok_take by blast
  ultimately show ?thesis using ok True by (auto simp: cbb_ok_def CBB_discard_child_def buffer_ok_def)
qed (use ok in \<open>simp add: CBB_discard_child_def\<close>)

lemma add_prefixed_ok:
  assumes ok: "cbb_ok s" and k: "0 < k" "k \<le> 3" and r: "cbb_add_length_prefixed al d s k = (r, s')"
  shows "cbb_ok s'"
proof (cases r)
  case True
  from length_prefixed_sound [OF ok k(1), of al d s'] k r True show ?thesis by (auto simp: child_opened_def)
next
  case False
  have kk: "k \<le> PTRDIFF_MAX" using k by (simp add: PTRDIFF_MAX_def)
  show ?thesis
  proof (rule with_flush_ok [OF ok r [unfolded cbb_add_length_prefixed_def]])
    fix s1 assume "cbb_ok s1" and "(let off = cb_len (cb_base s1) in
      case cbb_buffer_add al (cb_base s1) k of (ok, b) \<Rightarrow> if \<not> ok then (False, set_base s1 b)
        else (True, add_child (set_base s1 (b\<lparr>cb_buf := write_at (cb_buf b) off (replicate k 0)\<rparr>)) d off k False))
      = (r, s')"
    with False buffer_add_step [OF _ kk _ refl] show "cbb_ok s'"
      by (auto simp: Let_def split: prod.splits if_splits)
  qed
qed

lemma did_write_ok: "cbb_ok s \<Longrightarrow> CBB_did_write d s n = (r, s') \<Longrightarrow> cbb_ok s'"
  by (auto simp: CBB_did_write_def Let_def cbb_ok_def set_base_def buffer_ok_def
      intro: frames_ok_extend split: if_splits)

lemma client_write_ok:
  "cbb_ok s \<Longrightarrow> length mem = length (cb_buf (cb_base s)) \<Longrightarrow> cbb_ok (set_base s ((cb_base s)\<lparr>cb_buf := mem\<rparr>))"
  by (auto simp: cbb_ok_def set_base_def buffer_ok_def)

lemmas cbb_ok_rules = flush_ok add_bytes_ok cbb_add_u_ok add_space_ok reserve_ok
  client_write_ok did_write_ok discard_ok add_prefixed_ok cbb_add_asn1_ok

lemma cbb_step_ok: "cbb_step al s s' \<Longrightarrow> cbb_ok s \<Longrightarrow> cbb_ok s'"
  by (induction rule: cbb_step.induct) (blast intro: cbb_ok_rules)+

lemma CBB_init_fresh:
  assumes "CBB_init al sizeof_base n = Some s" and "n \<le> PTRDIFF_MAX"
  shows "cbb_ok s" and "cb_children s = []" and "\<not> cb_error (cb_base s)" and "cbb_bytes s = []"
proof -
  have "block_size 0" by (simp add: block_size_def OPENSSL_MALLOC_PREFIX_def PTRDIFF_MAX_def)
  with assms OPENSSL_malloc_length [of al n, OF _ object_size [OF assms(2)]]
  show "cbb_ok s" "cb_children s = []" "\<not> cb_error (cb_base s)" "cbb_bytes s = []"
    by (auto simp: CBB_init_def cbb_init_def cbb_ok_def buffer_ok_def cbb_bytes_def buffer_bytes_def
        split: option.split_asm if_split_asm)
qed

lemma CBB_init_fixed_fresh:
  assumes "CBB_init_fixed al sizeof_base buf (length buf) = Some s" and "block_size (length buf)"
  shows "cbb_ok s"
  using assms by (auto simp: CBB_init_fixed_def cbb_init_def cbb_ok_def buffer_ok_def split: if_splits)

inductive cbb_reach :: "allocator \<Rightarrow> cbb \<Rightarrow> bool" for al where
  init: "CBB_init al sizeof_base n = Some s \<Longrightarrow> n \<le> PTRDIFF_MAX \<Longrightarrow> cbb_reach al s"
| init_fixed: "CBB_init_fixed al sizeof_base buf (length buf) = Some s \<Longrightarrow> block_size (length buf) \<Longrightarrow> cbb_reach al s"
| call: "cbb_reach al s \<Longrightarrow> cbb_step al s s' \<Longrightarrow> cbb_reach al s'"

lemma cbb_reach_ok: "cbb_reach al s \<Longrightarrow> cbb_ok s"
  by (induction rule: cbb_reach.induct) (blast intro: CBB_init_fresh(1) CBB_init_fixed_fresh cbb_step_ok)+

lemma cbb_appended_bytes:
  "cbb_appended d s xs s' \<Longrightarrow>
    \<exists>bs. close_frames (drop d (cb_children s)) (cbb_bytes s) = Some bs \<and> cbb_bytes s' = bs @ xs"
  by (auto simp: cbb_appended_def closed_at_def)

lemma ucast_ucast_byte [simp]: "(ucast (ucast (b :: byte) :: u32) :: byte) = b"
  by (rule bit_word_eqI) (simp add: bit_simps)

lemma pair_True: "fst r \<Longrightarrow> r = (True, snd r)"
  by (cases r) simp

section \<open>Properties\<close>

text \<open>
  C6: \<open>CBB_flush\<close> implements the closing of all children below an object. If it returns 1, the
  bytes of the builder are those of the specification (every placeholder replaced by the encoded
  length of what follows it, innermost first), the children are gone and the invariant holds. If
  it returns 0 the error flag is set, and then every later flush, and so every later operation and
  \<open>CBB_finish\<close>, fails: no partial output is ever handed out.
\<close>

theorem CBB_flush_closes_children:
  assumes "cbb_ok s" and "d \<le> length (cb_children s)"
  shows "case CBB_flush al d s of (ok, s') \<Rightarrow>
    if ok then cbb_ok s' \<and> cb_children s' = take d (cb_children s)
      \<and> close_frames (drop d (cb_children s)) (cbb_bytes s) = Some (cbb_bytes s')
    else CBB_flush al' d' s' = (False, s') \<and> CBB_finish al' d' s' outs = None"
proof (cases "CBB_flush al d s")
  case (Pair ok s')
  then show ?thesis
    using CBB_flush_sound [OF assms(1), of al d s'] CBB_flush_fail [of al d s s'] assms(2)
    by (cases ok) (auto simp: CBB_finish_def)
qed

definition demo_cbb :: cbb where
  "demo_cbb = \<lparr>cb_base = \<lparr>cb_buf = [0x30, 0, 5, 6, 9, 9], cb_len = 4, cb_cap = 6,
      cb_can_resize = False, cb_error = False\<rparr>,
    cb_children = [\<lparr>cc_offset = 1, pending_len_len = 1, pending_is_asn1 = True\<rparr>]\<rparr>"

lemma demo_cbb_ok: "cbb_ok demo_cbb"
  by (simp add: demo_cbb_def cbb_ok_def buffer_ok_def block_size_def OPENSSL_MALLOC_PREFIX_def PTRDIFF_MAX_def)

theorem CBB_flush_closes_children_witness:
  "cbb_bytes (snd (CBB_flush demo_allocator 0 demo_cbb)) = [0x30, 2, 5, 6]"
proof -
  have "fst (CBB_flush demo_allocator 0 demo_cbb)"
    by (simp add: demo_cbb_def CBB_flush.simps flush_prefix_def asn1_len_form_def sz_def SIZE_MODULUS_def)
  moreover have "close_frames (drop 0 (cb_children demo_cbb)) (cbb_bytes demo_cbb) = Some [0x30, 2, 5, 6]"
    by (simp add: demo_cbb_def cbb_bytes_def buffer_bytes_def close_frame_def der_length_def)
  ultimately show ?thesis
    using CBB_flush_closes_children [OF demo_cbb_ok, where d = 0 and al = demo_allocator
        and al' = demo_allocator and d' = 0 and outs = True]
    by (auto split: prod.splits)
qed

text \<open>
  C8: the invariant of the builder. In every state that calls on live objects can reach from \<open>CBB_init\<close> or
  \<open>CBB_init_fixed\<close>, with any allocator, failed calls and calls after them included, the block has exactly the
  recorded capacity, the length is within it, and the open children are nested in order inside the bytes
  written. The lengths passed to \<open>CBB_init\<close>, \<open>CBB_add_bytes\<close>, \<open>CBB_add_space\<close> and \<open>CBB_reserve\<close> are those of
  objects, at most \<open>PTRDIFF_MAX\<close>.
\<close>

theorem cbb_reachable_ok:
  assumes "cbb_reach al s"
  shows "length (cb_buf (cb_base s)) = cb_cap (cb_base s) \<and> cb_len (cb_base s) \<le> cb_cap (cb_base s)
    \<and> frames_ok 0 (cb_len (cb_base s)) (cb_children s)"
  using cbb_reach_ok [OF assms] by (simp add: cbb_ok_def buffer_ok_def)

theorem cbb_reachable_ok_witness:
  "\<exists>s. CBB_init_fixed demo_allocator 48 [1, 2] 2 = Some s
    \<and> cb_len (cb_base (snd (CBB_add_space demo_allocator 0 s 3))) \<le> cb_cap (cb_base (snd (CBB_add_space demo_allocator 0 s 3)))"
proof -
  have "mallocs demo_allocator 48" "block_size (length [1 :: byte, 2])"
    by (simp_all add: mallocs_def demo_allocator_def block_size_def PTRDIFF_MAX_def OPENSSL_MALLOC_PREFIX_def
        sz_def SIZE_MODULUS_def)
  then obtain s where s0: "CBB_init_fixed demo_allocator 48 [1, 2] (length [1 :: byte, 2]) = Some s"
    and "block_size (length [1 :: byte, 2])" by (simp add: CBB_init_fixed_def)
  note s = s0 cbb_reach.init_fixed [OF this]
  obtain r s' where s': "CBB_add_space demo_allocator 0 s 3 = (r, s')" by fastforce
  have "cbb_step demo_allocator s s'" by (rule cbb_step.add_space [OF _ _ s']) (simp_all add: PTRDIFF_MAX_def)
  with s(2) have "cbb_reach demo_allocator s'" by (rule cbb_reach.call)
  from cbb_reachable_ok [OF this] s(1) s' show ?thesis by (auto simp: numeral_2_eq_2)
qed

text \<open>
  C7: what the builder writes as an ASN.1 element, the reader accepts. If \<open>CBB_add_asn1\<close>,
  \<open>CBB_add_bytes\<close> into the child and \<open>CBB_flush\<close> succeed, the builder has appended exactly the DER
  element to what it held. On the new bytes \<open>CBS_get_asn1\<close> for the same tag returns the contents without
  the header and leaves whatever follows, and for every other tag it fails; \<open>CBS_get_any_asn1\<close> returns the tag as well.
\<close>

theorem CBB_CBS_asn1_roundtrip:
  assumes "cbb_ok s" and "CBB_add_asn1 al d s (ucast tag) = (True, s1)"
    and "CBB_add_bytes al (Suc d) s1 data (length data) = (True, s2)" and "length data \<le> PTRDIFF_MAX"
    and "CBB_flush al d s2 = (True, s3)"
  shows "\<exists>bs. close_frames (drop d (cb_children s)) (cbb_bytes s) = Some bs
    \<and> cbb_bytes s3 = bs @ der_element tag data
    \<and> (\<forall>tag'. fst (CBS_get_asn1 (drop (length bs) (cbb_bytes s3) @ rest) tag') = (if tag' = ucast tag then Some data else None))
    \<and> snd (CBS_get_asn1 (drop (length bs) (cbb_bytes s3) @ rest) (ucast tag)) = rest
    \<and> CBS_get_any_asn1 (drop (length bs) (cbb_bytes s3) @ rest) = (Some (data, ucast tag), rest)"
proof -
  note op = CBB_add_asn1_sound [OF assms(1,2)]
  then have "child_opened d s [tag] s1 True 1" by (simp only: ucast_ucast_byte)
  from child_opened_D(1) [OF this] have "cbb_appended (Suc d) s1 data s2"
    by (rule CBB_add_bytes_sound [OF _ assms(4,3)])
  note E = CBB_element_sound [OF assms(1,2) this assms(5)]
  then obtain bs where bs: "close_frames (drop d (cb_children s)) (cbb_bytes s) = Some bs"
    and out: "cbb_bytes s3 = bs @ der_element tag data"
    unfolding ucast_ucast_byte by (blast dest: cbb_appended_bytes)
  have "tag AND 0x1f \<noteq> 0x1f"
  proof
    assume "tag AND 0x1f = 0x1f"
    then have "ucast (tag AND 0x1f) = (0x1f :: u32)" by simp
    with op show False by (simp add: unsigned_and_eq)
  qed
  then have "CBS_get_any_asn1 (der_element tag data @ rest) = (Some (data, ucast tag), rest)"
    using E by (subst CBS_get_any_asn1_iff) auto
  moreover have "fst (CBS_get_asn1 (der_element tag data @ rest) tag') = (if tag' = ucast tag then Some data else None)
      \<and> (tag' = ucast tag \<longrightarrow> snd (CBS_get_asn1 (der_element tag data @ rest) tag') = rest)" for tag'
    using calculation by (simp add: CBS_get_asn1_via_any)
  ultimately show ?thesis using bs out by auto
qed

definition empty_cbb :: cbb where
  "empty_cbb = cbb_init [0, 0, 0, 0, 0, 0, 0, 0] 8"

lemma empty_cbb_ok: "cbb_ok empty_cbb"
  by (simp add: empty_cbb_def cbb_init_def cbb_ok_def buffer_ok_def block_size_def OPENSSL_MALLOC_PREFIX_def PTRDIFF_MAX_def)

text \<open>Rules that evaluate calls on a concrete builder.\<close>

lemma flush_leaf:
  "d = length (cb_children s) \<Longrightarrow> \<not> cb_error (cb_base s) \<Longrightarrow> CBB_flush al d s = (True, s)"
  by simp

lemma flush_one_child:
  "cb_children s = fs @ [f] \<Longrightarrow> d = length fs \<Longrightarrow> \<not> cb_error (cb_base s) \<Longrightarrow> pending_len_len f \<noteq> 0 \<Longrightarrow>
    cc_offset f + pending_len_len f \<le> cb_len (cb_base s) \<Longrightarrow> cb_len (cb_base s) < SIZE_MODULUS \<Longrightarrow>
    fst (CBB_flush al d s) = fst (flush_prefix al (cb_base s) f (cc_offset f + pending_len_len f))"
  using flush_leaf [of "Suc (length fs)" s al]
  by (simp add: CBB_flush.simps [of al "length fs" s] nth_append split: prod.splits)

lemma small_size: "n < 1000 \<Longrightarrow> n < SIZE_MODULUS"
  by (simp add: SIZE_MODULUS_def)

lemma replicate_two: "replicate 2 x = [x, x]"
  by (simp add: numeral_2_eq_2)

lemma put_be_two: "put_be buf off 2 v = put_be (buf[off + 1 := word_of_nat v]) off 1 (v div 256)"
  by (simp add: numeral_2_eq_2)

lemma uint64_loop_zero: "asn1_uint64_loop put 0 n False s = Inr (False, s)"
  by (induction n) simp_all

lemmas cbb_eval = CBB_add_asn1_def CBB_add_bytes_def CBB_add_u8_def cbb_add_u_def with_flush_def
  cbb_buffer_add_u_def cbb_buffer_add_def cbb_buffer_reserve_def add_child_def set_base_def
  flush_leaf flush_one_child flush_prefix_def asn1_len_form_def small_size cbb_init_def write_at_def
  put_be_two empty_cbb_def

theorem CBB_CBS_asn1_roundtrip_witness:
  "\<exists>s3 bs. cbb_bytes s3 = bs @ der_element 4 [7, 8]
    \<and> CBS_get_asn1 (drop (length bs) (cbb_bytes s3) @ [1]) 4 = (Some [7, 8], [1])"
proof -
  let ?r1 = "CBB_add_asn1 demo_allocator 0 empty_cbb (ucast (4 :: byte))"
  let ?r2 = "CBB_add_bytes demo_allocator (Suc 0) (snd ?r1) [7, 8] (length [7, 8 :: byte])"
  let ?r3 = "CBB_flush demo_allocator 0 (snd ?r2)"
  have "fst ?r1 \<and> fst ?r2 \<and> fst ?r3"
    by (simp add: cbb_eval)
  then have "?r1 = (True, snd ?r1)" "?r2 = (True, snd ?r2)" "?r3 = (True, snd ?r3)"
    by (blast intro: pair_True)+
  from CBB_CBS_asn1_roundtrip [OF empty_cbb_ok this(1,2) _ this(3), of "[1]"]
  obtain bs where "cbb_bytes (snd ?r3) = bs @ der_element 4 [7, 8]"
    "fst (CBS_get_asn1 (drop (length bs) (cbb_bytes (snd ?r3)) @ [1]) 4) = Some [7, 8]"
    "snd (CBS_get_asn1 (drop (length bs) (cbb_bytes (snd ?r3)) @ [1]) 4) = [1]"
    by (auto simp: PTRDIFF_MAX_def)
  then show ?thesis by (metis prod.collapse)
qed

text \<open>
  Integers survive the trip. If \<open>CBB_add_asn1_uint64\<close> succeeds it has appended the shortest
  DER INTEGER for the value, and \<open>CBS_get_asn1_uint64\<close> reads the same value back.
\<close>

theorem CBB_CBS_uint64_roundtrip:
  assumes "cbb_ok s" and "CBB_add_asn1_uint64 al d s v = (True, s')"
  shows "\<exists>bs. close_frames (drop d (cb_children s)) (cbb_bytes s) = Some bs
    \<and> cbb_bytes s' = bs @ der_element 2 (der_uint (unat v))
    \<and> CBS_get_asn1_uint64 (drop (length bs) (cbb_bytes s') @ rest) = (Some v, rest)"
  using cbb_appended_bytes [OF CBB_add_asn1_uint64_sound [OF assms]] CBS_get_asn1_uint64_iff
  by auto

theorem CBB_CBS_uint64_roundtrip_witness:
  "\<exists>s' (bs :: byte list). CBB_add_asn1_uint64 demo_allocator 0 empty_cbb 0 = (True, s')
    \<and> CBS_get_asn1_uint64 (drop (length bs) (cbb_bytes s') @ [1]) = (Some 0, [1])"
proof -
  let ?r = "CBB_add_asn1_uint64 demo_allocator 0 empty_cbb 0"
  have "fst ?r"
    by (simp add: CBB_add_asn1_uint64_def CBS_ASN1_INTEGER_def uint64_loop_zero cbb_eval)
  then have r: "?r = (True, snd ?r)" by (rule pair_True)
  from CBB_CBS_uint64_roundtrip [OF empty_cbb_ok r, of "[1]"] r show ?thesis by blast
qed

text \<open>
  Length-prefixed vectors. If \<open>cbb_add_length_prefixed\<close> with a prefix of 1, 2 or 3 bytes,
  \<open>CBB_add_bytes\<close> into the child and \<open>CBB_flush\<close> succeed, \<open>cbs_get_length_prefixed\<close> on the
  appended bytes returns the contents; contents too long for the prefix make the flush fail.
\<close>

theorem CBB_CBS_length_prefixed_roundtrip:
  assumes "cbb_ok s" and k: "0 < k" "k < 4" and "cbb_add_length_prefixed al d s k = (True, s1)"
    and "CBB_add_bytes al (Suc d) s1 data (length data) = (True, s2)" and "length data \<le> PTRDIFF_MAX"
  shows "(256 ^ k \<le> length data \<longrightarrow> \<not> fst (CBB_flush al d s2))
    \<and> (\<forall>s3. CBB_flush al d s2 = (True, s3) \<longrightarrow>
        (\<exists>bs. close_frames (drop d (cb_children s)) (cbb_bytes s) = Some bs
          \<and> cbs_get_length_prefixed (drop (length bs) (cbb_bytes s3) @ rest) k = (Some data, rest)))"
proof -
  have k4: "k \<le> 4" using k by simp
  have "child_opened d s [] s1 False k" using length_prefixed_sound [OF assms(1) k(1) k4 assms(4)] .
  from child_opened_D(1) [OF this] have app: "cbb_appended (Suc d) s1 data s2"
    by (rule CBB_add_bytes_sound [OF _ assms(6,5)])
  note E = CBB_prefixed_sound [OF assms(1) k(1) k4 assms(4) app]
  have "\<not> fst (CBB_flush al d s2)" if "256 ^ k \<le> length data"
    using E that by (metis not_less prod.collapse)
  moreover have "\<exists>bs. close_frames (drop d (cb_children s)) (cbb_bytes s) = Some bs
      \<and> cbs_get_length_prefixed (drop (length bs) (cbb_bytes s3) @ rest) k = (Some data, rest)"
    if "CBB_flush al d s2 = (True, s3)" for s3
    using E [OF that] cbb_appended_bytes [of d s "be_bytes k (length data) @ data" s3]
      length_prefixed_iff [OF k] by auto
  ultimately show ?thesis by blast
qed

theorem CBB_CBS_length_prefixed_roundtrip_witness:
  "\<exists>s3 (bs :: byte list). CBB_flush demo_allocator 0
      (snd (CBB_add_bytes demo_allocator (Suc 0)
        (snd (cbb_add_length_prefixed demo_allocator 0 empty_cbb 2)) [7, 8] (length [7, 8 :: byte]))) = (True, s3)
    \<and> cbs_get_length_prefixed (drop (length bs) (cbb_bytes s3) @ [1]) 2 = (Some [7, 8], [1])"
proof -
  let ?r1 = "cbb_add_length_prefixed demo_allocator 0 empty_cbb 2"
  let ?r2 = "CBB_add_bytes demo_allocator (Suc 0) (snd ?r1) [7, 8] (length [7, 8 :: byte])"
  let ?r3 = "CBB_flush demo_allocator 0 (snd ?r2)"
  have "fst ?r1 \<and> fst ?r2 \<and> fst ?r3"
    by (simp add: cbb_add_length_prefixed_def replicate_two cbb_eval)
  then have r: "?r1 = (True, snd ?r1)" "?r2 = (True, snd ?r2)" and r3: "?r3 = (True, snd ?r3)"
    by (blast intro: pair_True)+
  have "length ([7, 8] :: byte list) \<le> PTRDIFF_MAX" by (simp add: PTRDIFF_MAX_def)
  from CBB_CBS_length_prefixed_roundtrip [OF empty_cbb_ok _ _ r this, where rest = "[1]"] r3
  obtain bs :: "byte list" where "cbs_get_length_prefixed (drop (length bs) (cbb_bytes (snd ?r3)) @ [1]) 2 = (Some [7, 8], [1])"
    by auto
  with r3 show ?thesis by blast
qed

end
