(* ===== verification/Ber.thy ===== *)
theory Ber
  imports Cbb
begin

text \<open>
  Conversion of BER to DER (\<open>crypto/bytestring/ber.c\<close>), a client of the reader of theory
  \<open>Cbs\<close> and of the builder of theory \<open>Cbb\<close>.

  \<open>cbs_find_ber\<close> gives an option (the return code) with the value of \<open>*ber_found\<close>. The loop and
  the recursion of \<open>cbs_convert_ber\<close> are one recursive function; since the recursive call on an
  indefinite-length element says how much of the input the loop goes on with, it counts its
  calls with fuel, and \<open>convert_fuel\<close> shows that one more than the length of the input is
  always enough, so that the fuel is never the reason for a result.
\<close>

section \<open>Definitions\<close>

definition kMaxDepth :: nat where "kMaxDepth = 2048"

definition is_string_type :: "u32 \<Rightarrow> bool" where
  "is_string_type tag \<longleftrightarrow>
     (if tag AND 0xc0 \<noteq> 0 then False
      else List.member [0x3, 0x4, 0xc, 0x12, 0x13, 0x14, 0x15, 0x16, 0x19, 0x1a, 0x1b, 0x1c, 0x1e]
             (tag AND 0x1f))"

text \<open>The test for an indefinite-length header on what \<open>CBS_get_any_ber_asn1_element\<close> returns.\<close>

definition is_indefinite :: "cbs \<Rightarrow> nat \<Rightarrow> bool" where
  "is_indefinite contents header_len \<longleftrightarrow>
     length contents = header_len \<and> 0 < header_len \<and> contents ! (header_len - 1) = 0x80"

definition is_eoc :: "nat \<Rightarrow> cbs \<Rightarrow> bool" where
  "is_eoc header_len contents \<longleftrightarrow> header_len = 2 \<and> length contents = 2 \<and> contents = [0, 0]"

text \<open>The BER reader differs from the DER reader on indefinite-length headers only.\<close>

lemma indefinite_byte: "\<forall>b :: byte. b AND 0x80 \<noteq> 0 \<and> unat (b AND 0x7f) = 0 \<longleftrightarrow> b = 0x80"
  unfolding byte_all by code_simp

lemma ber_element_cases:
  assumes "CBS_get_any_ber_asn1_element cbs = (Some (out, tag, header_len), rest)"
  obtains (indefinite) t where "cbs = t # 0x80 # rest" "out = [t, 0x80]" "tag = ucast t" "header_len = 2"
      "t AND 0x1f \<noteq> 0x1f" "ucast t AND CBS_ASN1_CONSTRUCTED \<noteq> 0"
    | (definite) "CBS_get_any_asn1_element cbs = (Some (out, tag, header_len), rest)"
proof -
  obtain t b hd where cbs: "cbs = t # b # hd"
    using assms by (cases cbs; cases "tl cbs")
      (auto simp: CBS_get_any_ber_asn1_element_def cbs_get_any_asn1_element_def)
  show thesis
  proof (cases "b = 0x80 \<and> ucast t AND CBS_ASN1_CONSTRUCTED \<noteq> 0 \<and> t AND 0x1f \<noteq> 0x1f")
    case True
    then have "b AND 0x80 \<noteq> 0 \<and> unat (b AND 0x7f) = 0" using indefinite_byte by metis
    with assms True show ?thesis
      by (intro indefinite [of t])
        (auto simp: cbs CBS_get_any_ber_asn1_element_def cbs_get_any_asn1_element_def
          CBS_get_bytes_def cbs_get_def Let_def numeral_2_eq_2)
  next
    case False
    have "cbs_get_any_asn1_element cbs True = cbs_get_any_asn1_element cbs False"
      using False indefinite_byte [rule_format, of b]
      by (auto simp: cbs cbs_get_any_asn1_element_def Let_def)
    with assms show ?thesis
      by (intro definite) (simp add: CBS_get_any_ber_asn1_element_def CBS_get_any_asn1_element_def)
  qed
qed

text \<open>Every successful read takes at least the two header octets.\<close>

lemma ber_element_progress:
  assumes "CBS_get_any_ber_asn1_element cbs = (Some (out, tag, header_len), rest)"
  shows "cbs = out @ rest" and "2 \<le> header_len" and "header_len \<le> length out"
proof -
  have "cbs = out @ rest \<and> 2 \<le> header_len \<and> header_len \<le> length out"
    using assms
  proof (cases rule: ber_element_cases)
    case definite
    from get_any_asn1_element_sound [OF this] show ?thesis
      by (auto simp: der_element_def der_length_def)
  qed auto
  then show "cbs = out @ rest" "2 \<le> header_len" "header_len \<le> length out" by simp_all
qed

lemma ber_element_shorter:
  assumes "CBS_get_any_ber_asn1_element cbs = (Some (out, tag, header_len), rest)"
  shows "length rest < length cbs" and "CBS_skip out header_len = (ok, contents) \<Longrightarrow> length contents < length cbs"
  using ber_element_progress [OF assms] by (auto simp: CBS_skip_def cbs_get_def split: if_splits)

function cbs_find_ber :: "cbs \<Rightarrow> nat \<Rightarrow> bool \<Rightarrow> bool option" where
  "cbs_find_ber in0 depth ber_found =
     (if kMaxDepth < depth then None
      else if in0 = [] then Some ber_found
      else (case CBS_get_any_ber_asn1_element in0 of
          (None, _) \<Rightarrow> None
        | (Some (contents, tag, header_len), rest) \<Rightarrow>
            if is_indefinite contents header_len then Some True
            else if tag AND CBS_ASN1_CONSTRUCTED \<noteq> 0 then
              if is_string_type tag then Some True
              else (case CBS_skip contents header_len of
                  (ok, contents') \<Rightarrow>
                    if \<not> ok then None
                    else (case cbs_find_ber contents' (Suc depth) False of
                            None \<Rightarrow> None
                          | Some found \<Rightarrow> cbs_find_ber rest depth found))
            else cbs_find_ber rest depth ber_found))"
  by pat_completeness auto
termination
  by (relation "measure (\<lambda>(cbs, _, _). length cbs)")
    (auto dest: ber_element_shorter(1) [OF sym] ber_element_shorter(2) [OF sym sym])

declare cbs_find_ber.simps [simp del]

text \<open>The tag to write for an element, and the \<open>string_tag\<close> for its children.\<close>

definition child_tags :: "u32 \<Rightarrow> u32 \<Rightarrow> u32 \<times> u32" where
  "child_tags string_tag tag =
     (let strip = (tag AND CBS_ASN1_CONSTRUCTED \<noteq> 0 \<and> is_string_type tag);
          out_tag = (if strip then tag AND NOT CBS_ASN1_CONSTRUCTED else tag)
      in (out_tag, if string_tag = 0 \<and> strip then out_tag else string_tag))"

text \<open>A fragment of a string goes to \<open>out\<close> itself, any other element to a new child of it.\<close>

definition open_child :: "allocator \<Rightarrow> nat \<Rightarrow> cbb \<Rightarrow> u32 \<Rightarrow> u32 \<Rightarrow> bool \<times> cbb" where
  "open_child al od s string_tag out_tag =
     (if string_tag \<noteq> 0 then (True, s) else CBB_add_asn1 al od s out_tag)"

text \<open>
  \<open>od\<close> and \<open>s\<close> are the builder object \<open>out\<close>; the result is the return code, the rest of the input
  and the builder.
\<close>

fun cbs_convert_ber ::
  "allocator \<Rightarrow> nat \<Rightarrow> cbs \<Rightarrow> nat \<Rightarrow> cbb \<Rightarrow> u32 \<Rightarrow> bool \<Rightarrow> nat \<Rightarrow> (bool \<times> cbs \<times> cbb) option" where
  "cbs_convert_ber al 0 in0 od s string_tag looking_for_eoc depth = None"
| "cbs_convert_ber al (Suc n) in0 od s string_tag looking_for_eoc depth =
     (if kMaxDepth < depth then Some (False, in0, s)
      else if in0 = [] then Some (\<not> looking_for_eoc, in0, s)
      else (case CBS_get_any_ber_asn1_element in0 of
          (None, rest) \<Rightarrow> Some (False, rest, s)
        | (Some (contents, tag, header_len), rest) \<Rightarrow>
            if is_eoc header_len contents then Some (looking_for_eoc, rest, s)
            else if string_tag \<noteq> 0 \<and> tag AND NOT CBS_ASN1_CONSTRUCTED \<noteq> string_tag
            then Some (False, rest, s)
            else (case child_tags string_tag tag of (out_tag, child_string_tag) \<Rightarrow>
              let cd = (if string_tag \<noteq> 0 then od else Suc od) in
              (case open_child al od s string_tag out_tag of (ok, s1) \<Rightarrow>
                if \<not> ok then Some (False, rest, s1)
                else (case
                    (if is_indefinite contents header_len
                     then cbs_convert_ber al n rest cd s1 child_string_tag True (Suc depth)
                     else (case CBS_skip contents header_len of (ok, body) \<Rightarrow>
                       if \<not> ok then Some (False, rest, s1)
                       else if tag AND CBS_ASN1_CONSTRUCTED \<noteq> 0
                       then map_option (\<lambda>(ok, _, s2). (ok, rest, s2))
                         (cbs_convert_ber al n body cd s1 child_string_tag False (Suc depth))
                       else (case CBB_add_bytes al cd s1 body (length body) of
                           (ok, s2) \<Rightarrow> Some (ok, rest, s2)))) of
                    None \<Rightarrow> None
                  | Some (ok, rest', s2) \<Rightarrow>
                      if \<not> ok then Some (False, rest', s2)
                      else (case CBB_flush al od s2 of (ok, s3) \<Rightarrow>
                        if \<not> ok then Some (False, rest', s3)
                        else cbs_convert_ber al n rest' od s3 string_tag looking_for_eoc depth))))))"

declare cbs_convert_ber.simps [simp del]

text \<open>
  The outcome of \<open>CBS_asn1_ber_to_der\<close>: an error, "nothing to convert" (\<open>*out\<close> is NULL), or the
  converted block with its length.
\<close>

datatype ber_result = BerError | NoConversion | Converted "byte list" nat

definition CBS_asn1_ber_to_der :: "allocator \<Rightarrow> nat \<Rightarrow> cbs \<Rightarrow> ber_result" where
  "CBS_asn1_ber_to_der al sizeof_base in0 =
     (case cbs_find_ber in0 0 False of
        None \<Rightarrow> BerError
      | Some False \<Rightarrow> NoConversion
      | Some True \<Rightarrow>
          (case CBB_init al sizeof_base (length in0) of
             None \<Rightarrow> BerError
           | Some s \<Rightarrow>
               (case cbs_convert_ber al (Suc (length in0)) in0 0 s 0 False 0 of
                  None \<Rightarrow> BerError
                | Some (ok, _, s') \<Rightarrow>
                    if \<not> ok then BerError
                    else (case CBB_finish al 0 s' True of
                            None \<Rightarrow> BerError
                          | Some (out, out_len) \<Rightarrow> Converted out out_len))))"

text \<open>The chunk loop of \<open>CBS_get_asn1_implicit_string\<close>.\<close>

lemma CBS_get_asn1_shorter: "CBS_get_asn1 cbs tag = (Some c, rest) \<Longrightarrow> length rest < length cbs"
  by (auto simp: CBS_get_asn1_iff der_element_def)

function implicit_string_loop :: "allocator \<Rightarrow> u32 \<Rightarrow> cbs \<Rightarrow> cbb \<Rightarrow> bool \<times> cbb" where
  "implicit_string_loop al inner_tag child s =
     (if child = [] then (True, s)
      else (case CBS_get_asn1 child inner_tag of
          (None, _) \<Rightarrow> (False, s)
        | (Some chunk, child') \<Rightarrow>
            (case CBB_add_bytes al 0 s chunk (length chunk) of
               (ok, s') \<Rightarrow> if \<not> ok then (False, s') else implicit_string_loop al inner_tag child' s')))"
  by pat_completeness auto
termination
  by (relation "measure (\<lambda>(_, _, cbs, _). length cbs)") (auto dest: CBS_get_asn1_shorter [OF sym])

declare implicit_string_loop.simps [simp del]

text \<open>
  The out-parameters are the string and whether \<open>*out_storage\<close> holds an allocated block; the
  second component is the reader after the call.
\<close>

definition CBS_get_asn1_implicit_string ::
  "allocator \<Rightarrow> nat \<Rightarrow> cbs \<Rightarrow> u32 \<Rightarrow> u32 \<Rightarrow> (cbs \<times> bool) option \<times> cbs" where
  "CBS_get_asn1_implicit_string al sizeof_base in0 outer_tag inner_tag =
     (if CBS_peek_asn1_tag in0 outer_tag then
        (case CBS_get_asn1 in0 outer_tag of (r, rest) \<Rightarrow> (map_option (\<lambda>out. (out, False)) r, rest))
      else (case CBB_init al sizeof_base (length in0) of
          None \<Rightarrow> (None, in0)
        | Some s \<Rightarrow>
            (case CBS_get_asn1 in0 (outer_tag OR CBS_ASN1_CONSTRUCTED) of
               (None, rest) \<Rightarrow> (None, rest)
             | (Some child, rest) \<Rightarrow>
                 (case implicit_string_loop al inner_tag child s of
                    (ok, s') \<Rightarrow>
                      if \<not> ok then (None, rest)
                      else (case CBB_finish al 0 s' True of
                              None \<Rightarrow> (None, rest)
                            | Some (data, len) \<Rightarrow> (Some (take len data, True), rest))))))"

section \<open>The fuel is enough\<close>

text \<open>
  With more fuel than input the conversion has a result, and it never gives back more input
  than it got.
\<close>

lemma ber_element_none: "CBS_get_any_ber_asn1_element cbs = (None, rest) \<Longrightarrow> rest = cbs"
  by (auto simp: CBS_get_any_ber_asn1_element_def cbs_get_any_asn1_element_def CBS_get_bytes_def Let_def
      dest: cbs_get_None split: prod.splits option.splits if_splits)

text \<open>
  What one round of the loop does once the element is read and accepted: open the child, convert
  or copy the contents, close the child and go on.
\<close>

lemma convert_round:
  assumes "\<not> kMaxDepth < depth"
    and "CBS_get_any_ber_asn1_element in0 = (Some (contents, tag, header_len), rest)"
    and "\<not> is_eoc header_len contents" and "\<not> (string_tag \<noteq> 0 \<and> tag AND NOT CBS_ASN1_CONSTRUCTED \<noteq> string_tag)"
    and "child_tags string_tag tag = (out_tag, cst)" and "cd = (if string_tag \<noteq> 0 then od else Suc od)"
    and "open_child al od s string_tag out_tag = (ok1, s1)"
  shows "cbs_convert_ber al (Suc n) in0 od s string_tag eoc depth =
    (if \<not> ok1 then Some (False, rest, s1)
     else
       case (if is_indefinite contents header_len
             then cbs_convert_ber al n rest cd s1 cst True (Suc depth)
             else if tag AND CBS_ASN1_CONSTRUCTED \<noteq> 0
             then map_option (\<lambda>(ok, _, s). (ok, rest, s))
               (cbs_convert_ber al n (drop header_len contents) cd s1 cst False (Suc depth))
             else (case CBB_add_bytes al cd s1 (drop header_len contents) (length (drop header_len contents))
                   of (ok, s2) \<Rightarrow> Some (ok, rest, s2))) of
         None \<Rightarrow> None
       | Some (ok, rest', s2) \<Rightarrow>
           if \<not> ok then Some (False, rest', s2)
           else (case CBB_flush al od s2 of
               (ok, s3) \<Rightarrow> if \<not> ok then Some (False, rest', s3)
                 else cbs_convert_ber al n rest' od s3 string_tag eoc depth))"
proof -
  have ne: "in0 \<noteq> []" using ber_element_progress [OF assms(2)] by auto
  have skip: "CBS_skip contents header_len = (True, drop header_len contents)"
    using ber_element_progress [OF assms(2)] by (simp add: CBS_skip_def cbs_get_def)
  show ?thesis
    using ne
    by (simp only: cbs_convert_ber.simps assms skip if_False if_True not_True_eq_False not_False_eq_True
        prod.case option.case Let_def refl)
qed

lemma convert_fuel:
  "length in0 < n \<Longrightarrow>
    \<exists>ok rest s'. cbs_convert_ber al n in0 od s string_tag eoc depth = Some (ok, rest, s')
      \<and> length rest \<le> length in0"
proof (induction n arbitrary: in0 od s string_tag eoc depth)
  case 0
  then show ?case by simp
next
  case (Suc n)
  obtain res rest where get: "CBS_get_any_ber_asn1_element in0 = (res, rest)" by fastforce
  show ?case
  proof (cases "kMaxDepth < depth \<or> in0 = [] \<or> res = None")
    case True
    with get ber_element_none [of in0 rest] show ?thesis by (auto simp: cbs_convert_ber.simps)
  next
    case False
    then obtain contents tag hl where res: "res = Some (contents, tag, hl)" by auto
    note el = get [unfolded res]
    have short: "length rest < length in0" using ber_element_shorter(1) [OF el] .
    show ?thesis
    proof (cases "is_eoc hl contents \<or> string_tag \<noteq> 0 \<and> tag AND NOT CBS_ASN1_CONSTRUCTED \<noteq> string_tag")
      case True
      with False el short show ?thesis by (auto simp: cbs_convert_ber.simps)
    next
      case no: False
      obtain out_tag cst where tags: "child_tags string_tag tag = (out_tag, cst)" by fastforce
      obtain ok1 s1 where op: "open_child al od s string_tag out_tag = (ok1, s1)" by fastforce
      let ?cd = "if string_tag \<noteq> 0 then od else Suc od" and ?body = "drop hl contents"
      have lens: "length rest < n" "length ?body < n"
        using Suc.prems short ber_element_progress [OF el] by auto
      let ?mid = "if is_indefinite contents hl
             then cbs_convert_ber al n rest ?cd s1 cst True (Suc depth)
             else if tag AND CBS_ASN1_CONSTRUCTED \<noteq> 0
             then map_option (\<lambda>(ok, _, s). (ok, rest, s)) (cbs_convert_ber al n ?body ?cd s1 cst False (Suc depth))
             else (case CBB_add_bytes al ?cd s1 ?body (length ?body) of (ok, s2) \<Rightarrow> Some (ok, rest, s2))"
      have "\<exists>ok rest' s2. ?mid = Some (ok, rest', s2) \<and> length rest' \<le> length rest"
        using Suc.IH [OF lens(1), of ?cd s1 cst True "Suc depth"]
          Suc.IH [OF lens(2), of ?cd s1 cst False "Suc depth"]
        by (auto split: prod.splits)
      then obtain ok2 rest' s2 where mid: "?mid = Some (ok2, rest', s2)" and le: "length rest' \<le> length rest"
        by blast
      obtain ok3 s3 where fl: "CBB_flush al od s2 = (ok3, s3)" by fastforce
      have "length rest' < n" using le lens by simp
      from Suc.IH [OF this, of od s3 string_tag eoc depth] le short
      show ?thesis
        using convert_round [OF _ el _ _ tags refl op, of depth n eoc] False no mid fl by auto
    qed
  qed
qed

section \<open>What the conversion writes\<close>

text \<open>
  Sequences of DER elements: canonical headers, no constructed strings, and constructed contents
  that are such sequences again.
\<close>

inductive der_ok :: "byte list \<Rightarrow> bool" where
  nil: "der_ok []"
| elem: "t AND 0x1f \<noteq> 0x1f \<Longrightarrow> length c < 2 ^ 32 \<Longrightarrow>
    (ucast t AND CBS_ASN1_CONSTRUCTED \<noteq> 0 \<Longrightarrow> \<not> is_string_type (ucast t) \<and> der_ok c) \<Longrightarrow>
    der_ok rest \<Longrightarrow> der_ok (der_element t c @ rest)"

lemma der_ok_append: "der_ok xs \<Longrightarrow> der_ok ys \<Longrightarrow> der_ok (xs @ ys)"
  by (induction xs rule: der_ok.induct) (auto intro: der_ok.elem)

lemma der_ok_single:
  "t AND 0x1f \<noteq> 0x1f \<Longrightarrow> length c < 2 ^ 32 \<Longrightarrow>
    (ucast t AND CBS_ASN1_CONSTRUCTED \<noteq> 0 \<Longrightarrow> \<not> is_string_type (ucast t) \<and> der_ok c) \<Longrightarrow> der_ok (der_element t c)"
  using der_ok.elem [OF _ _ _ der_ok.nil] by simp

lemma cbb_appended_trans:
  assumes "cbb_appended d s xs s1" and "length (cb_children s) = d" and "cbb_appended d s1 ys s2"
  shows "cbb_appended d s (xs @ ys) s2 \<and> length (cb_children s1) = d"
  using cbb_appended_append [OF assms(1,3)] assms by (auto simp: cbb_appended_def)

lemma indefinite_is_constructed:
  assumes el: "CBS_get_any_ber_asn1_element in0 = (Some (contents, tag, hl), rest)"
    and "is_indefinite contents hl"
  shows "tag AND CBS_ASN1_CONSTRUCTED \<noteq> 0"
  using el
proof (cases rule: ber_element_cases)
  case definite
  from get_any_asn1_element_sound [OF this] obtain t c where c: "contents = der_element t c"
    "hl = 1 + length (der_length (length c))" by blast
  with assms(2) have "c = []" by (auto simp: is_indefinite_def der_element_def)
  with c assms(2) show ?thesis by (simp add: is_indefinite_def der_element_def der_length_def)
qed auto

text \<open>One element of the output, from the parts of a successful round.\<close>

definition convert_post :: "nat \<Rightarrow> cbb \<Rightarrow> u32 \<Rightarrow> cbb \<Rightarrow> bool" where
  "convert_post od s string_tag s' \<longleftrightarrow>
     (\<exists>ys. cbb_appended od s ys s' \<and> (string_tag = 0 \<longrightarrow> der_ok ys))"

lemma tag_byte:
  assumes "(tag :: u32) \<le> 0xff"
  shows "ucast (ucast tag :: byte) = tag"
proof (rule unsigned_word_eqI)
  have "unat tag < 256" using assms by (simp add: word_le_nat_alt)
  then show "unat (ucast (ucast tag :: byte) :: u32) = unat tag"
    by (simp add: unat_ucast_byte)
qed

lemma round_element:
  assumes ok: "cbb_ok s" and top: "length (cb_children s) = od" and st: "string_tag = 0"
    and tags: "child_tags string_tag tag = (out_tag, cst)"
    and op: "CBB_add_asn1 al od s out_tag = (True, s1)"
    and app: "cbb_appended (Suc od) s1 ys s2"
    and child: "tag AND CBS_ASN1_CONSTRUCTED \<noteq> 0 \<longrightarrow> cst = 0 \<longrightarrow> der_ok ys"
    and fl: "CBB_flush al od s2 = (True, s3)"
  shows "convert_post od s string_tag s3"
proof -
  note E = CBB_element_sound [OF ok op app fl]
  have tag: "out_tag \<le> 0xff" "out_tag AND 0x1f \<noteq> 0x1f" using CBB_add_asn1_sound [OF ok op] by auto
  let ?t = "ucast out_tag :: byte"
  have tb: "ucast ?t = out_tag" using tag(1) by (rule tag_byte)
  have low: "?t AND 0x1f \<noteq> 0x1f"
  proof
    assume "?t AND 0x1f = 0x1f"
    then have "(ucast (?t AND 0x1f) :: u32) = 0x1f" by simp
    then show False using tb tag(2) by (simp add: unsigned_and_eq)
  qed
  have "der_ok (der_element ?t ys)"
  proof (rule der_ok_single [OF low])
    show "length ys < 2 ^ 32" using E by simp
    assume c: "ucast ?t AND CBS_ASN1_CONSTRUCTED \<noteq> 0"
    then have "\<not> (tag AND CBS_ASN1_CONSTRUCTED \<noteq> 0 \<and> is_string_type tag)" and "out_tag = tag" "cst = string_tag"
      using tags tb st by (auto simp: child_tags_def Let_def CBS_ASN1_CONSTRUCTED_def and.assoc split: if_splits)
    with c tb child st show "\<not> is_string_type (ucast ?t) \<and> der_ok ys" by simp
  qed
  with E st show ?thesis by (auto simp: convert_post_def)
qed

lemma convert_post_trans:
  assumes "convert_post od s st s1" and "length (cb_children s) = od" and "convert_post od s1 st s2"
  shows "convert_post od s st s2"
  using assms cbb_appended_trans [OF _ assms(2)] der_ok_append unfolding convert_post_def by metis

lemma convert_post_D:
  assumes "convert_post od s st s'" and "length (cb_children s) = od"
  shows "cbb_ok s'" and "length (cb_children s') = od" and "\<not> cb_error (cb_base s')"
  using assms by (auto simp: convert_post_def cbb_appended_def cbb_rest_def same_flags_def)

lemma convert_post_refl:
  "cbb_ok s \<Longrightarrow> length (cb_children s) = od \<Longrightarrow> \<not> cb_error (cb_base s) \<Longrightarrow> convert_post od s st s"
  unfolding convert_post_def
  by (intro exI [of _ "[]"]) (auto simp: cbb_appended_def cbb_rest_def same_flags_def closed_at_def der_ok.nil)

lemma convert_sound:
  "cbs_convert_ber al n in0 od s string_tag eoc depth = Some (True, rest0, s') \<Longrightarrow> length in0 < n \<Longrightarrow>
    length in0 \<le> PTRDIFF_MAX \<Longrightarrow> cbb_ok s \<Longrightarrow> length (cb_children s) = od \<Longrightarrow> \<not> cb_error (cb_base s) \<Longrightarrow>
    convert_post od s string_tag s'"
proof (induction n arbitrary: in0 od s string_tag eoc depth rest0 s')
  case 0
  then show ?case by simp
next
  case (Suc n)
  note state = Suc.prems(4-6)
  obtain res rest where get: "CBS_get_any_ber_asn1_element in0 = (res, rest)" by fastforce
  have lim: "\<not> kMaxDepth < depth" using Suc.prems(1) by (auto simp: cbs_convert_ber.simps)
  show ?case
  proof (cases "in0 = [] \<or> res = None")
    case True
    then have "s' = s"
      using lim get Suc.prems(1) by (cases "in0 = []") (auto simp: cbs_convert_ber.simps)
    with state convert_post_refl show ?thesis by simp
  next
    case False
    then obtain contents tag hl where res: "res = Some (contents, tag, hl)" by auto
    note el = get [unfolded res]
    show ?thesis
    proof (cases "is_eoc hl contents \<or> string_tag \<noteq> 0 \<and> tag AND NOT CBS_ASN1_CONSTRUCTED \<noteq> string_tag")
      case True
      then have "s' = s"
        using False lim el Suc.prems(1) by (cases "is_eoc hl contents") (auto simp: cbs_convert_ber.simps)
      with state convert_post_refl show ?thesis by simp
    next
      case no: False
      obtain out_tag cst where tags: "child_tags string_tag tag = (out_tag, cst)" by fastforce
      obtain ok1 s1 where op: "open_child al od s string_tag out_tag = (ok1, s1)" by fastforce
      let ?cd = "if string_tag \<noteq> 0 then od else Suc od" and ?body = "drop hl contents"
      have lens: "length rest < n" "length ?body < n" "length rest \<le> PTRDIFF_MAX" "length ?body \<le> PTRDIFF_MAX"
        using Suc.prems(2,3) ber_element_shorter(1) [OF el] ber_element_progress [OF el] by auto
      let ?mid = "if is_indefinite contents hl
             then cbs_convert_ber al n rest ?cd s1 cst True (Suc depth)
             else if tag AND CBS_ASN1_CONSTRUCTED \<noteq> 0
             then map_option (\<lambda>(ok, _, s). (ok, rest, s)) (cbs_convert_ber al n ?body ?cd s1 cst False (Suc depth))
             else (case CBB_add_bytes al ?cd s1 ?body (length ?body) of (ok, s2) \<Rightarrow> Some (ok, rest, s2))"
      have lim': "\<not> is_eoc hl contents" "\<not> (string_tag \<noteq> 0 \<and> tag AND NOT CBS_ASN1_CONSTRUCTED \<noteq> string_tag)"
        using no by auto
      obtain rest' s2 s3 where ok1: "ok1" and mid: "?mid = Some (True, rest', s2)"
        and fl: "CBB_flush al od s2 = (True, s3)"
        and go: "cbs_convert_ber al n rest' od s3 string_tag eoc depth = Some (True, rest0, s')"
        using Suc.prems(1) unfolding convert_round [OF lim el lim' tags refl op]
        by (cases "?mid") (auto split: if_split_asm prod.split_asm)
      have rest': "length rest' \<le> length rest"
        using mid convert_fuel [OF lens(1), of al ?cd s1 cst True "Suc depth"]
        by (auto split: if_split_asm prod.split_asm)
      have child: "convert_post ?cd s1 cst s2
          \<or> tag AND CBS_ASN1_CONSTRUCTED = 0 \<and> cbb_appended ?cd s1 ?body s2"
        if "cbb_ok s1" "length (cb_children s1) = ?cd" "\<not> cb_error (cb_base s1)"
      proof (cases "is_indefinite contents hl \<or> tag AND CBS_ASN1_CONSTRUCTED \<noteq> 0")
        case True
        then show ?thesis
          using mid Suc.IH [OF _ lens(1,3) that] Suc.IH [OF _ lens(2,4) that]
          by (auto split: if_split_asm)
      next
        case prim: False
        with mid have "CBB_add_bytes al ?cd s1 ?body (length ?body) = (True, s2)" "tag AND CBS_ASN1_CONSTRUCTED = 0"
          by (auto split: prod.split_asm)
        then show ?thesis using CBB_add_bytes_sound [OF that(1) lens(4)] by simp
      qed
      have round: "convert_post od s string_tag s3"
      proof (cases "string_tag = 0")
        case True
        then have add: "CBB_add_asn1 al od s out_tag = (True, s1)" using op ok1 by (simp add: open_child_def)
        have opened: "child_opened od s [ucast out_tag] s1 True 1" using CBB_add_asn1_sound [OF state(1) add] by simp
        note D = child_opened_D [OF opened]
        from child D True obtain ys where app: "cbb_appended (Suc od) s1 ys s2"
          and ys: "tag AND CBS_ASN1_CONSTRUCTED \<noteq> 0 \<longrightarrow> cst = 0 \<longrightarrow> der_ok ys"
          by (auto simp: convert_post_def)
        show ?thesis by (rule round_element [OF state(1,2) True tags add app ys fl])
      next
        case string: False
        have s1: "s1 = s" using op string by (simp add: open_child_def)
        from child state string s1 obtain ys where ys: "cbb_appended od s ys s2"
          by (auto simp: convert_post_def)
        then have "cbb_ok s2" by (simp add: cbb_appended_def)
        from cbb_appended_trans [OF ys state(2) flush_appended [OF this fl]] string
        show ?thesis by (auto simp: convert_post_def)
      qed
      note R = convert_post_D [OF round state(2)]
      have "length rest' < n" "length rest' \<le> PTRDIFF_MAX" using rest' lens by auto
      from Suc.IH [OF go this R] show ?thesis by (rule convert_post_trans [OF round state(2)])
    qed
  qed
qed

section \<open>The scan\<close>

text \<open>On a sequence of DER elements the scan never reports BER.\<close>

lemma find_ber_der:
  "der_ok xs \<Longrightarrow> cbs_find_ber xs depth False \<noteq> Some True"
proof (induction arbitrary: depth rule: der_ok.induct)
  case nil
  then show ?case by (simp add: cbs_find_ber.simps)
next
  case (elem t c rest)
  let ?xs = "der_element t c @ rest"
  have get: "CBS_get_any_ber_asn1_element ?xs
      = (Some (der_element t c, ucast t, 1 + length (der_length (length c))), rest)"
    unfolding CBS_get_any_ber_asn1_element_def by (rule get_any_asn1_element_complete [OF elem.hyps(1,2)])
  have def: "\<not> is_indefinite (der_element t c) (1 + length (der_length (length c)))"
    by (auto simp: is_indefinite_def der_element_def der_length_def)
  have skip: "CBS_skip (der_element t c) (1 + length (der_length (length c))) = (True, c)"
    by (simp add: CBS_skip_def cbs_get_def der_element_def)
  have ne: "?xs \<noteq> []" by (simp add: der_element_def)
  show ?case
  proof (cases "ucast t AND CBS_ASN1_CONSTRUCTED = 0")
    case True
    then show ?thesis using elem.IH(2) [of depth] ne def by (simp add: cbs_find_ber.simps [of ?xs] get)
  next
    case False
    then have "\<not> is_string_type (ucast t)" and c: "cbs_find_ber c (Suc depth) False \<noteq> Some True"
      using elem.IH(1) by auto
    then show ?thesis
      using False elem.IH(2) [of depth] ne def skip
      by (cases "cbs_find_ber c (Suc depth) False")
        (auto simp: cbs_find_ber.simps [of ?xs] get)
  qed
qed

lemma CBB_finish_bytes:
  assumes "CBB_finish al 0 s True = Some (out, len)" and "cb_children s = []"
  shows "take len out = cbb_bytes s"
  using assms flush_no_children [of s al]
  by (cases "cb_error (cb_base s)") (auto simp: CBB_finish_def cbb_bytes_def buffer_bytes_def)

lemma ber_to_der_ok:
  assumes "CBS_asn1_ber_to_der al sizeof_base in0 = Converted out out_len" and "length in0 \<le> PTRDIFF_MAX"
  shows "der_ok (take out_len out)"
proof -
  obtain s s' rest where init: "CBB_init al sizeof_base (length in0) = Some s"
    and conv: "cbs_convert_ber al (Suc (length in0)) in0 0 s 0 False 0 = Some (True, rest, s')"
    and fin: "CBB_finish al 0 s' True = Some (out, out_len)"
    using assms(1)
    by (auto simp: CBS_asn1_ber_to_der_def split: option.split_asm bool.split_asm prod.split_asm if_split_asm)
  note s = CBB_init_fresh [OF init assms(2)]
  from convert_sound [OF conv lessI assms(2) s(1)] s
  have post: "convert_post 0 s 0 s'" by simp
  then obtain ys where ys: "cbb_appended 0 s ys s'" "der_ok ys" by (auto simp: convert_post_def)
  have "take out_len out = cbb_bytes s'"
    using convert_post_D [OF post] s by (intro CBB_finish_bytes [OF fin]) simp
  also have "\<dots> = ys" using ys(1) s by (simp add: cbb_appended_def closed_at_def)
  finally show ?thesis using ys(2) by simp
qed

lemma implicit_loop_sound:
  "implicit_string_loop al (ucast t) child s = (True, s') \<Longrightarrow> cbb_ok s \<Longrightarrow> cb_children s = [] \<Longrightarrow>
    \<exists>chunks. child = concat (map (der_element t) chunks) \<and> cbb_bytes s' = cbb_bytes s @ concat chunks
      \<and> cb_children s' = []"
proof (induction al "ucast t :: u32" child s rule: implicit_string_loop.induct)
  case (1 al child s)
  show ?case
  proof (cases "child = []")
    case True
    with "1.prems" show ?thesis by (intro exI [of _ "[]"]) (simp add: implicit_string_loop.simps)
  next
    case False
    with "1.prems"(1) obtain chunk child' s1 where get: "CBS_get_asn1 child (ucast t) = (Some chunk, child')"
      and add: "CBB_add_bytes al 0 s chunk (length chunk) = (True, s1)"
      and go: "implicit_string_loop al (ucast t) child' s1 = (True, s')"
      by (auto simp: implicit_string_loop.simps [of al _ child s] split: prod.split_asm option.split_asm if_split_asm)
    have child: "child = der_element t chunk @ child'" and len: "length chunk \<le> PTRDIFF_MAX"
      using get by (auto simp: CBS_get_asn1_iff ucast_byte_inj PTRDIFF_MAX_def)
    have s1: "cbb_ok s1" "cb_children s1 = []" "cbb_bytes s1 = cbb_bytes s @ chunk"
      using CBB_add_bytes_sound [OF "1.prems"(2) len add] "1.prems"(3)
      by (auto simp: cbb_appended_def closed_at_def)
    from "1.hyps" [OF False get [symmetric] refl add [symmetric] _ go s1(1,2)]
    obtain chunks where "child' = concat (map (der_element t) chunks)"
      "cbb_bytes s' = cbb_bytes s1 @ concat chunks" "cb_children s' = []" by auto
    then show ?thesis using child s1(3) by (intro exI [of _ "chunk # chunks"]) simp
  qed
qed

lemmas find_ber_eval = cbs_find_ber.simps kMaxDepth_def CBS_get_any_ber_asn1_element_def
  cbs_get_any_asn1_element_def CBS_get_bytes_def cbs_get_def CBS_skip_def is_indefinite_def
  is_string_type_def CBS_ASN1_CONSTRUCTED_def



section \<open>The depth limit\<close>





section \<open>Properties\<close>

text \<open>
  The output of a conversion is DER. Whenever \<open>CBS_asn1_ber_to_der\<close> hands out a converted
  block, its bytes are a sequence of canonical DER elements without constructed strings at any
  level, for every input and allocator; a second pass over the output finds nothing to convert.
\<close>

theorem CBS_asn1_ber_to_der_output_is_der:
  assumes "CBS_asn1_ber_to_der al sizeof_base in0 = Converted out out_len" and "length in0 \<le> PTRDIFF_MAX"
  shows "der_ok (take out_len out)
    \<and> (\<forall>out' len'. CBS_asn1_ber_to_der al' sizeof_base' (take out_len out) \<noteq> Converted out' len')"
proof
  show d: "der_ok (take out_len out)" using assms by (rule ber_to_der_ok)
  show "\<forall>out' len'. CBS_asn1_ber_to_der al' sizeof_base' (take out_len out) \<noteq> Converted out' len'"
    using find_ber_der [OF d, of 0]
    by (auto simp: CBS_asn1_ber_to_der_def split: option.splits bool.splits)
qed

lemma demo_mallocs: "n < 900 \<Longrightarrow> mallocs demo_allocator n \<and> usable n = n"
  by (simp add: mallocs_def usable_def demo_allocator_def sz_def SIZE_MODULUS_def PTRDIFF_MAX_def OPENSSL_MALLOC_PREFIX_def)

definition ber_sample :: "byte list" where
  "ber_sample = [0x30, 0x80, 0, 0]"

lemma flush_only_child:
  "cb_children s = [f] \<Longrightarrow> \<not> cb_error (cb_base s) \<Longrightarrow> pending_len_len f \<noteq> 0 \<Longrightarrow>
    cc_offset f + pending_len_len f \<le> cb_len (cb_base s) \<Longrightarrow> cb_len (cb_base s) < SIZE_MODULUS \<Longrightarrow>
    CBB_flush al 0 s =
      (case flush_prefix al (cb_base s) f (cc_offset f + pending_len_len f) of
         (ok, b) \<Rightarrow> if \<not> ok then (False, cbb_fail (set_base s b))
           else (True, (set_base s b)\<lparr>cb_children := []\<rparr>))"
  using flush_leaf [of "Suc 0" s al] by (simp add: CBB_flush.simps [of al 0 s] split: prod.splits)

lemma ber_sample_converts:
  "\<exists>out. CBS_asn1_ber_to_der demo_allocator 40 ber_sample = Converted out 2 \<and> take 2 out = [0x30, 0]"
  by (simp add: ber_sample_def CBS_asn1_ber_to_der_def find_ber_eval CBB_init_def
      OPENSSL_malloc_def demo_mallocs cbs_convert_ber.simps is_eoc_def child_tags_def open_child_def CBB_finish_def
      flush_only_child cbb_eval)

theorem CBS_asn1_ber_to_der_output_is_der_witness:
  "\<exists>out. CBS_asn1_ber_to_der demo_allocator 40 ber_sample = Converted out 2 \<and> der_ok (take 2 out)"
proof -
  obtain out where out: "CBS_asn1_ber_to_der demo_allocator 40 ber_sample = Converted out 2"
    using ber_sample_converts by blast
  have "length ber_sample \<le> PTRDIFF_MAX" by (simp add: ber_sample_def PTRDIFF_MAX_def)
  from CBS_asn1_ber_to_der_output_is_der [OF out this] out show ?thesis by blast
qed





text \<open>
  An implicitly tagged string is the concatenation of its chunks. When the tag is the
  constructed form and \<open>CBS_get_asn1_implicit_string\<close> succeeds, the input is one DER element with the
  constructed outer tag whose contents are DER elements with the inner tag and nothing else, and
  the result is their contents put together.
\<close>

theorem CBS_get_asn1_implicit_string_concat:
  assumes "\<not> CBS_peek_asn1_tag in0 outer_tag" and "length in0 \<le> PTRDIFF_MAX"
    and "CBS_get_asn1_implicit_string al sizeof_base in0 outer_tag (ucast inner) = (Some (out, stored), rest)"
  shows "stored \<and> (\<exists>chunks t. outer_tag OR CBS_ASN1_CONSTRUCTED = ucast (t :: byte)
    \<and> in0 = der_element t (concat (map (der_element inner) chunks)) @ rest \<and> out = concat chunks)"
proof -
  from assms(1,3) obtain s child s' data len where init: "CBB_init al sizeof_base (length in0) = Some s"
    and get: "CBS_get_asn1 in0 (outer_tag OR CBS_ASN1_CONSTRUCTED) = (Some child, rest)"
    and loop: "implicit_string_loop al (ucast inner) child s = (True, s')"
    and fin: "CBB_finish al 0 s' True = Some (data, len)" and out: "out = take len data" "stored"
    by (auto simp: CBS_get_asn1_implicit_string_def
        split: option.split_asm prod.split_asm if_split_asm)
  note s = CBB_init_fresh [OF init assms(2)]
  from implicit_loop_sound [OF loop s(1,2)] obtain chunks
    where "child = concat (map (der_element inner) chunks)" "cbb_bytes s' = concat chunks" "cb_children s' = []"
    using s(4) by auto
  with CBB_finish_bytes [OF fin] out get show ?thesis by (auto simp: CBS_get_asn1_iff)
qed

theorem CBS_get_asn1_implicit_string_concat_witness:
  "\<exists>chunks t. (0x80 :: u32) OR CBS_ASN1_CONSTRUCTED = ucast (t :: byte)
    \<and> [0xa0, 3, 4, 1, 9] = der_element t (concat (map (der_element 4) chunks)) @ [] \<and> [9] = concat chunks"
proof -
  let ?in = "[0xa0, 3, 4, 1, 9] :: byte list"
  have "\<not> CBS_peek_asn1_tag ?in 0x80" and "length ?in \<le> PTRDIFF_MAX"
    by (simp_all add: CBS_peek_asn1_tag_def PTRDIFF_MAX_def)
  moreover have "CBS_get_asn1_implicit_string demo_allocator 40 ?in 0x80 (ucast (4 :: byte)) = (Some ([9], True), [])"
    by (simp add: CBS_get_asn1_implicit_string_def CBS_peek_asn1_tag_def CBB_init_def
        OPENSSL_malloc_def demo_mallocs CBS_get_asn1_def cbs_get_asn1_def CBS_get_any_asn1_element_def find_ber_eval
        implicit_string_loop.simps CBB_finish_def cbb_eval)
  ultimately show ?thesis using CBS_get_asn1_implicit_string_concat by blast
qed

end
