(* ===== verification/Base64.thy ===== *)
theory Base64
  imports Prelude
begin

text \<open>
  Base64 (\<open>crypto/base64/base64.c\<close>) with the constant-time helpers of \<open>crypto/internal.h\<close> it
  uses.

  A function that writes through \<open>out\<close> returns the bytes it stores from \<open>out\<close> on, including the
  terminating zero it leaves behind them, and separately the value of \<open>*out_len\<close>. The record
  \<open>evp_encode_ctx\<close> is \<open>struct evp_encode_ctx_st\<close>; its \<open>data\<close> array has 48 bytes. Characters are
  their ASCII codes.
\<close>

section \<open>Constant-time helpers\<close>

definition constant_time_msb_w :: "u64 \<Rightarrow> u64" where
  "constant_time_msb_w a = 0 - drop_bit 63 a"

definition constant_time_lt_w :: "u64 \<Rightarrow> u64 \<Rightarrow> u64" where
  "constant_time_lt_w a b = constant_time_msb_w (a XOR ((a XOR b) OR ((a - b) XOR a)))"

definition constant_time_is_zero_w :: "u64 \<Rightarrow> u64" where
  "constant_time_is_zero_w a = constant_time_msb_w (NOT a AND (a - 1))"

definition constant_time_eq_w :: "u64 \<Rightarrow> u64 \<Rightarrow> u64" where
  "constant_time_eq_w a b = constant_time_is_zero_w (a XOR b)"

definition constant_time_eq_8 :: "u64 \<Rightarrow> u64 \<Rightarrow> byte" where
  "constant_time_eq_8 a b = ucast (constant_time_eq_w a b)"

definition constant_time_select_w :: "u64 \<Rightarrow> u64 \<Rightarrow> u64 \<Rightarrow> u64" where
  "constant_time_select_w m a b = (m AND a) OR (NOT m AND b)"

definition constant_time_select_8 :: "byte \<Rightarrow> byte \<Rightarrow> byte \<Rightarrow> byte" where
  "constant_time_select_8 m a b = ucast (constant_time_select_w (ucast m) (ucast a) (ucast b))"

definition constant_time_lt_args_8 :: "byte \<Rightarrow> byte \<Rightarrow> byte" where
  "constant_time_lt_args_8 a b = ucast (constant_time_msb_w (ucast a - ucast b))"

definition constant_time_in_range_8 :: "byte \<Rightarrow> byte \<Rightarrow> byte \<Rightarrow> byte" where
  "constant_time_in_range_8 a lo hi = constant_time_lt_args_8 (a - lo) (hi - lo + 1)"

section \<open>Encoding\<close>

definition conv_bin2ascii :: "byte \<Rightarrow> byte" where
  "conv_bin2ascii a0 =
     (let a = a0 AND 0x3f;
          ret = constant_time_select_8 (constant_time_eq_8 (ucast a) 62) 43 47;
          ret = constant_time_select_8 (constant_time_lt_args_8 a 62) (a - 52 + 48) ret;
          ret = constant_time_select_8 (constant_time_lt_args_8 a 52) (a - 26 + 97) ret
      in constant_time_select_8 (constant_time_lt_args_8 a 26) (a + 65) ret)"

definition EVP_EncodedLength :: "nat \<Rightarrow> nat option" where
  "EVP_EncodedLength len0 =
     (if sz (len0 + 2) < len0 then None
      else let len = sz (len0 + 2) div 3 in
        if sz (len * 4) div 4 \<noteq> len then None
        else let len = sz (len * 4) in
          if sz (len + 1) < len then None else Some (sz (len + 1)))"

text \<open>The loop of \<open>EVP_EncodeBlock\<close>.\<close>

fun encode_block :: "byte list \<Rightarrow> byte list" where
  "encode_block [] = []"
| "encode_block (a # b # c # src) =
     (let l = push_bit 16 (ucast a) OR push_bit 8 (ucast b) OR ucast c :: u32 in
      [conv_bin2ascii (ucast (drop_bit 18 l)), conv_bin2ascii (ucast (drop_bit 12 l)),
       conv_bin2ascii (ucast (drop_bit 6 l)), conv_bin2ascii (ucast l)] @ encode_block src)"
| "encode_block [a, b] =
     (let l = push_bit 16 (ucast a) OR push_bit 8 (ucast b) :: u32 in
      [conv_bin2ascii (ucast (drop_bit 18 l)), conv_bin2ascii (ucast (drop_bit 12 l)),
       conv_bin2ascii (ucast (drop_bit 6 l)), 61])"
| "encode_block [a] =
     (let l = push_bit 16 (ucast a) :: u32 in
      [conv_bin2ascii (ucast (drop_bit 18 l)), conv_bin2ascii (ucast (drop_bit 12 l)), 61, 61])"

definition EVP_EncodeBlock :: "byte list \<Rightarrow> byte list \<times> nat" where
  "EVP_EncodeBlock src = (encode_block src @ [0], length (encode_block src))"

record evp_encode_ctx =
  data_used :: nat
  ctx_data :: "byte list"
  eof_seen :: bool
  error_encountered :: bool

definition EVP_EncodeInit :: evp_encode_ctx where
  "EVP_EncodeInit =
     \<lparr>data_used = 0, ctx_data = replicate 48 0, eof_seen = False, error_encountered = False\<rparr>"

text \<open>
  The loop over full lines: the bytes stored, \<open>total\<close> and the rest of the input; \<open>None\<close> in place of
  the total is the early return on overflow.
\<close>

function encode_lines :: "byte list \<Rightarrow> nat \<Rightarrow> byte list \<times> nat option \<times> byte list" where
  "encode_lines in0 tot =
     (if length in0 < 48 then ([], Some tot, in0)
      else
        let line = encode_block (take 48 in0) @ [10]; rest = drop 48 in0;
            tot' = sz (tot + length line) in
        if tot' < tot then (line, None, rest)
        else (case encode_lines rest tot' of (out, t, r) \<Rightarrow> (line @ out, t, r)))"
  by pat_completeness auto
termination
  by (relation "measure (\<lambda>(xs, _). length xs)") auto

declare encode_lines.simps [simp del]

definition terminate :: "byte list \<Rightarrow> byte list" where
  "terminate out = (if out = [] then [] else out @ [0])"

definition EVP_EncodeUpdate ::
  "evp_encode_ctx \<Rightarrow> byte list \<Rightarrow> byte list \<times> nat \<times> evp_encode_ctx" where
  "EVP_EncodeUpdate ctx in0 =
     (if length in0 = 0 then ([], 0, ctx)
      else if length in0 < 48 - data_used ctx then
        ([], 0, ctx\<lparr>ctx_data := write_at (ctx_data ctx) (data_used ctx) in0,
                    data_used := data_used ctx + length in0\<rparr>)
      else
        let todo = 48 - data_used ctx;
            full = write_at (ctx_data ctx) (data_used ctx) (take todo in0);
            pre = (if data_used ctx \<noteq> 0 then encode_block full @ [10] else []);
            ctx1 = (if data_used ctx \<noteq> 0 then ctx\<lparr>ctx_data := full, data_used := 0\<rparr> else ctx);
            in1 = (if data_used ctx \<noteq> 0 then drop todo in0 else in0) in
        (case encode_lines in1 (length pre) of
           (out, None, _) \<Rightarrow> (terminate (pre @ out), 0, ctx1)
         | (out, Some tot, rest) \<Rightarrow>
             (terminate (pre @ out), if INT_MAX < tot then 0 else tot,
              ctx1\<lparr>ctx_data := (if rest \<noteq> [] then write_at (ctx_data ctx1) 0 rest else ctx_data ctx1),
                   data_used := length rest\<rparr>)))"

definition EVP_EncodeFinal :: "evp_encode_ctx \<Rightarrow> byte list \<times> nat \<times> evp_encode_ctx" where
  "EVP_EncodeFinal ctx =
     (if data_used ctx = 0 then ([], 0, ctx)
      else
        let out = encode_block (take (data_used ctx) (ctx_data ctx)) @ [10]
        in (out @ [0], length out, ctx\<lparr>data_used := 0\<rparr>))"

section \<open>Decoding\<close>

definition EVP_DecodedLength :: "nat \<Rightarrow> nat option" where
  "EVP_DecodedLength len = (if len mod 4 \<noteq> 0 then None else Some (len div 4 * 3))"

definition base64_ascii_to_bin :: "byte \<Rightarrow> byte" where
  "base64_ascii_to_bin a =
     (let is_upper = constant_time_in_range_8 a 65 90;
          is_lower = constant_time_in_range_8 a 97 122;
          is_digit = constant_time_in_range_8 a 48 57;
          is_plus = constant_time_eq_8 (ucast a) 43;
          is_slash = constant_time_eq_8 (ucast a) 47;
          is_equals = constant_time_eq_8 (ucast a) 61;
          ret = constant_time_select_8 is_upper (a - 65) 0xff;
          ret = constant_time_select_8 is_lower (a - 97 + 26) ret;
          ret = constant_time_select_8 is_digit (a - 48 + 52) ret;
          ret = constant_time_select_8 is_plus 62 ret;
          ret = constant_time_select_8 is_slash 63 ret
      in constant_time_select_8 is_equals 0 ret)"

definition padding_pattern :: "byte \<Rightarrow> byte \<Rightarrow> byte \<Rightarrow> byte \<Rightarrow> nat" where
  "padding_pattern i0 i1 i2 i3 =
     (if i0 = 61 then 8 else 0) + (if i1 = 61 then 4 else 0) + (if i2 = 61 then 2 else 0)
     + (if i3 = 61 then 1 else 0)"

definition base64_decode_quad :: "byte \<Rightarrow> byte \<Rightarrow> byte \<Rightarrow> byte \<Rightarrow> byte list option" where
  "base64_decode_quad i0 i1 i2 i3 =
     (let a = base64_ascii_to_bin i0; b = base64_ascii_to_bin i1;
          c = base64_ascii_to_bin i2; d = base64_ascii_to_bin i3 in
      if a = 0xff \<or> b = 0xff \<or> c = 0xff \<or> d = 0xff then None
      else
        let v = push_bit 18 (ucast a) OR push_bit 12 (ucast b) OR push_bit 6 (ucast c) OR ucast d :: u32;
            p = padding_pattern i0 i1 i2 i3 in
        if p = 0 then Some [ucast (drop_bit 16 v), ucast (drop_bit 8 v), ucast v]
        else if p = 1 then Some [ucast (drop_bit 16 v), ucast (drop_bit 8 v)]
        else if p = 3 then Some [ucast (drop_bit 16 v)]
        else None)"

definition EVP_DecodeInit :: evp_encode_ctx where
  "EVP_DecodeInit = EVP_EncodeInit"

definition is_space :: "byte \<Rightarrow> bool" where
  "is_space c \<longleftrightarrow> c = 32 \<or> c = 9 \<or> c = 13 \<or> c = 10"

text \<open>
  One round of the character loop of \<open>EVP_DecodeUpdate\<close>: whether it goes on, the bytes stored, and
  the context.
\<close>

definition decode_char :: "evp_encode_ctx \<Rightarrow> byte \<Rightarrow> bool \<times> byte list \<times> evp_encode_ctx" where
  "decode_char ctx c =
     (if is_space c then (True, [], ctx)
      else if eof_seen ctx then (False, [], ctx\<lparr>error_encountered := True\<rparr>)
      else
        let ctx1 = ctx\<lparr>ctx_data := (ctx_data ctx)[data_used ctx := c],
                       data_used := data_used ctx + 1\<rparr> in
        if data_used ctx1 = 4 then
          (case base64_decode_quad (ctx_data ctx1 ! 0) (ctx_data ctx1 ! 1)
                  (ctx_data ctx1 ! 2) (ctx_data ctx1 ! 3) of
             None \<Rightarrow> (False, [], ctx1\<lparr>error_encountered := True\<rparr>)
           | Some bytes \<Rightarrow>
               (True, bytes, ctx1\<lparr>data_used := 0,
                  eof_seen := (if length bytes < 3 then True else eof_seen ctx1)\<rparr>))
        else (True, [], ctx1))"

fun decode_loop :: "evp_encode_ctx \<Rightarrow> byte list \<Rightarrow> bool \<times> byte list \<times> evp_encode_ctx" where
  "decode_loop ctx [] = (True, [], ctx)"
| "decode_loop ctx (c # in0) =
     (case decode_char ctx c of
        (ok, bytes, ctx1) \<Rightarrow>
          if \<not> ok then (False, bytes, ctx1)
          else (case decode_loop ctx1 in0 of (ok2, out, ctx2) \<Rightarrow> (ok2, bytes @ out, ctx2)))"

definition EVP_DecodeUpdate ::
  "evp_encode_ctx \<Rightarrow> byte list \<Rightarrow> int \<times> byte list \<times> nat \<times> evp_encode_ctx" where
  "EVP_DecodeUpdate ctx in0 =
     (if error_encountered ctx then (- 1, [], 0, ctx)
      else (case decode_loop ctx in0 of
          (ok, out, ctx1) \<Rightarrow>
            if \<not> ok then (- 1, out, 0, ctx1)
            else if INT_MAX < length out then (- 1, out, 0, ctx1\<lparr>error_encountered := True\<rparr>)
            else (if eof_seen ctx1 then 0 else 1, out, length out, ctx1)))"

definition EVP_DecodeFinal :: "evp_encode_ctx \<Rightarrow> int" where
  "EVP_DecodeFinal ctx = (if error_encountered ctx \<or> data_used ctx \<noteq> 0 then - 1 else 1)"

text \<open>The quad loop of \<open>EVP_DecodeBase64\<close>.\<close>

fun decode_quads :: "byte list \<Rightarrow> byte list option" where
  "decode_quads (i0 # i1 # i2 # i3 # in0) =
     (case base64_decode_quad i0 i1 i2 i3 of
        None \<Rightarrow> None
      | Some bytes \<Rightarrow>
          if length bytes \<noteq> 3 \<and> in0 \<noteq> [] then None
          else map_option (\<lambda>out. bytes @ out) (decode_quads in0))"
| "decode_quads in0 = Some []"

definition EVP_DecodeBase64 :: "nat \<Rightarrow> byte list \<Rightarrow> byte list option" where
  "EVP_DecodeBase64 max_out in0 =
     (if length in0 mod 4 \<noteq> 0 then None
      else case EVP_DecodedLength (length in0) of
             None \<Rightarrow> None
           | Some max_len \<Rightarrow> if max_out < max_len then None else decode_quads in0)"

text \<open>The padding loop at the end of \<open>EVP_DecodeBlock\<close>.\<close>

lemma pad_measure: "0 < n mod 3 \<Longrightarrow> Suc (Suc (2 * n)) mod 3 < 2 * n mod (3 :: nat)"
  by presburger

function pad_to_3 :: "byte list \<Rightarrow> byte list" where
  "pad_to_3 dst = (if length dst mod 3 \<noteq> 0 then pad_to_3 (dst @ [0]) else dst)"
  by pat_completeness auto
termination
  by (relation "measure (\<lambda>dst. 2 * length dst mod 3)") (simp_all add: pad_measure)

declare pad_to_3.simps [simp del]

definition trim_end :: "byte list \<Rightarrow> byte list" where
  "trim_end src = rev (dropWhile is_space (rev src))"

definition EVP_DecodeBlock :: "byte list \<Rightarrow> byte list option" where
  "EVP_DecodeBlock src0 =
     (let src = trim_end (dropWhile (\<lambda>c. c = 32 \<or> c = 9) src0) in
      case EVP_DecodedLength (length src) of
        None \<Rightarrow> None
      | Some dst_len \<Rightarrow>
          if INT_MAX < dst_len then None
          else map_option pad_to_3 (EVP_DecodeBase64 dst_len src))"

section \<open>What the constant-time helpers compute\<close>

lemma msb_w_eq: "constant_time_msb_w a = (if bit a 63 then - 1 else 0)"
proof -
  have "drop_bit 63 a = (if bit a 63 then 1 else 0)"
  proof (rule bit_word_eqI)
    fix n assume "n < LENGTH(64)"
    show "bit (drop_bit 63 a) n \<longleftrightarrow> bit (if bit a 63 then 1 else 0 :: u64) n"
      using bit_imp_le_length [of a "63 + n"] by (cases n) (auto simp: bit_simps)
  qed
  then show ?thesis by (simp add: constant_time_msb_w_def)
qed

lemma bit_63_iff: "bit (a :: u64) 63 \<longleftrightarrow> 2 ^ 63 \<le> unat a"
proof -
  have "bit a 63 \<longleftrightarrow> odd (unat a div 2 ^ 63)" by (metis bit_iff_odd bit_unsigned_iff possible_bit_nat possible_bit_def bit_nat_iff)
  moreover have "unat a div 2 ^ 63 < 2" using unat_u64_less [of a] by (simp add: div_less_iff_less_mult)
  ultimately show ?thesis by (auto simp: less_2_cases_iff div_eq_0_iff not_less odd_iff_mod_2_eq_one)
qed

lemma lt_w_eq: "constant_time_lt_w a b = (if a < b then - 1 else 0)"
proof -
  have "bit (a XOR ((a XOR b) OR ((a - b) XOR a))) 63 \<longleftrightarrow>
      (if bit a 63 = bit b 63 then bit (a - b) 63 else bit b 63)"
    by (auto simp: bit_simps)
  moreover have "bit a 63 = bit b 63 \<Longrightarrow> bit (a - b) 63 \<longleftrightarrow> a < b"
    using unat_u64_less [of a] unat_u64_less [of b]
    by (auto simp: bit_63_iff word_less_nat_alt word_le_nat_alt unat_sub_if')
  moreover have "bit a 63 \<noteq> bit b 63 \<Longrightarrow> bit b 63 \<longleftrightarrow> a < b"
    by (auto simp: bit_63_iff word_less_nat_alt)
  ultimately show ?thesis by (auto simp: constant_time_lt_w_def msb_w_eq)
qed

lemma is_zero_w_eq: "constant_time_is_zero_w a = (if a = 0 then - 1 else 0)"
proof -
  have "bit (NOT a AND (a - 1)) 63 \<longleftrightarrow> \<not> bit a 63 \<and> bit (a - 1) 63" by (simp add: bit_simps)
  also have "\<dots> \<longleftrightarrow> a = 0"
  proof (cases "a = 0")
    case False
    then have "unat (a - 1) = unat a - 1" by (simp add: unat_minus_one)
    with False show ?thesis by (auto simp: bit_63_iff)
  qed simp
  finally have "bit (NOT a AND (a - 1)) 63 \<longleftrightarrow> a = 0" .
  then show ?thesis by (simp add: constant_time_is_zero_w_def msb_w_eq)
qed

lemma ucast_all_ones [simp]: "(ucast (- 1 :: u64) :: byte) = - 1"
  by (rule bit_word_eqI) (simp add: bit_simps)

lemma eq_8_eq: "constant_time_eq_8 (ucast (a :: byte)) (ucast (b :: byte)) = (if a = b then - 1 else 0)"
proof -
  have "(ucast a XOR ucast b :: u64) = 0 \<longleftrightarrow> a = b"
    unfolding xor_eq_0_iff by (metis unat_byte_u64 unsigned_word_eqI)
  then show ?thesis by (simp add: constant_time_eq_8_def constant_time_eq_w_def is_zero_w_eq)
qed

lemma select_8_eq:
  "constant_time_select_8 (- 1) a b = a" "constant_time_select_8 0 a b = b"
  by (rule bit_word_eqI,
      auto simp: constant_time_select_8_def constant_time_select_w_def bit_simps)+

lemma lt_args_8_eq: "constant_time_lt_args_8 a b = (if a < b then - 1 else 0)"
proof -
  have "bit (ucast a - ucast b :: u64) 63 \<longleftrightarrow> unat a < unat b"
    using unat_byte_less [of a] unat_byte_less [of b]
    by (auto simp: bit_63_iff unat_sub_if' simp del: unat_byte_less)
  then show ?thesis by (simp add: constant_time_lt_args_8_def msb_w_eq word_less_nat_alt)
qed

lemmas consttime = eq_8_eq select_8_eq lt_args_8_eq constant_time_in_range_8_def

text \<open>The alphabet of RFC 4648: the character of a sextet, and the sextet of a character.\<close>

definition alphabet :: "byte \<Rightarrow> byte" where
  "alphabet a =
     (if a < 26 then a + 65 else if a < 52 then a - 26 + 97 else if a < 62 then a - 52 + 48
      else if a = 62 then 43 else 47)"

definition alphabet_index :: "byte \<Rightarrow> byte" where
  "alphabet_index a =
     (if a = 61 then 0 else if a = 47 then 63 else if a = 43 then 62
      else if a - 48 < 10 then a - 48 + 52 else if a - 97 < 26 then a - 97 + 26
      else if a - 65 < 26 then a - 65 else 0xff)"

lemma conv_bin2ascii_alphabet: "conv_bin2ascii a = alphabet (a AND 0x3f)"
  using eq_8_eq [of _ 62] by (simp add: conv_bin2ascii_def consttime alphabet_def Let_def)

lemma ascii_to_bin_alphabet: "base64_ascii_to_bin a = alphabet_index a"
  using eq_8_eq [of a 43] eq_8_eq [of a 47] eq_8_eq [of a 61]
  by (simp add: base64_ascii_to_bin_def consttime alphabet_index_def Let_def)

lemma alphabet_roundtrip_64:
  "list_all (\<lambda>n. let a = word_of_nat n; c = alphabet a in
     alphabet_index c = a \<and> c \<noteq> 61 \<and> \<not> is_space c \<and> a \<noteq> 0xff) [0..<64]"
  by code_simp

lemma alphabet_roundtrip:
  "alphabet_index (alphabet (a AND 0x3f)) = a AND 0x3f
    \<and> alphabet (a AND 0x3f) \<noteq> 61 \<and> \<not> is_space (alphabet (a AND 0x3f)) \<and> a AND 0x3f \<noteq> 0xff"
proof -
  have "a AND 0x3f = take_bit 6 a" by (simp add: take_bit_eq_mask mask_numeral)
  then have "unat (a AND 0x3f) = unat a mod 64"
    by (simp add: unsigned_take_bit_eq take_bit_eq_mod [of _ "unat a"])
  then have "unat (a AND 0x3f) \<in> set [0..<64]" by simp
  with alphabet_roundtrip_64 [unfolded list_all_iff Let_def]
  have "(\<lambda>b. alphabet_index (alphabet b) = b \<and> alphabet b \<noteq> 61 \<and> \<not> is_space (alphabet b) \<and> b \<noteq> 0xff)
      (word_of_nat (unat (a AND 0x3f)))" by blast
  then show ?thesis by simp
qed

lemma sextet_roundtrip:
  "base64_ascii_to_bin (conv_bin2ascii a) = a AND 0x3f" "conv_bin2ascii a \<noteq> 61"
  "\<not> is_space (conv_bin2ascii a)" "a AND 0x3f \<noteq> (0xff :: byte)"
  using alphabet_roundtrip unfolding conv_bin2ascii_alphabet ascii_to_bin_alphabet by blast+

section \<open>Quads\<close>

lemma low6: "(ucast (x :: u32) :: byte) AND 0x3f = ucast (take_bit 6 x)"
  by (rule bit_word_eqI) (auto simp: bit_simps take_bit_eq_mask mask_numeral)

lemma sextets_join:
  "push_bit 18 (take_bit 6 (drop_bit 18 l)) OR push_bit 12 (take_bit 6 (drop_bit 12 l))
    OR push_bit 6 (take_bit 6 (drop_bit 6 l)) OR take_bit 6 l = take_bit 24 (l :: u32)" (is "?l = ?r")
proof (rule bit_word_eqI)
  fix n
  show "bit ?l n \<longleftrightarrow> bit ?r n"
    by (cases "n < 6"; cases "n < 12"; cases "n < 18") (auto simp: bit_simps)
qed

text \<open>The four characters of a 24-bit group decode to its three bytes.\<close>

definition triple :: "byte \<Rightarrow> byte \<Rightarrow> byte \<Rightarrow> u32" where
  "triple a b c = push_bit 16 (ucast a) OR push_bit 8 (ucast b) OR ucast c"

lemma triple_bytes:
  "ucast (drop_bit 16 (triple a b c)) = a" "ucast (drop_bit 8 (triple a b c)) = b" "ucast (triple a b c) = c"
  by (rule bit_word_eqI, auto simp: triple_def bit_simps dest: bit_imp_le_length)+

lemma triple_24: "take_bit 24 (triple a b c) = triple a b c"
  by (rule bit_word_eqI) (auto simp: triple_def bit_simps dest: bit_imp_le_length)

lemma ucast_low6 [simp]: "ucast (ucast (take_bit 6 (x :: u32)) :: byte) = take_bit 6 x"
  by (rule bit_word_eqI) (auto simp: bit_simps)

lemma sextets_triple:
  "push_bit 18 (ucast (ucast (drop_bit 18 (triple a b c)) AND 0x3f :: byte))
    OR push_bit 12 (ucast (ucast (drop_bit 12 (triple a b c)) AND 0x3f :: byte))
    OR push_bit 6 (ucast (ucast (drop_bit 6 (triple a b c)) AND 0x3f :: byte))
    OR ucast (ucast (triple a b c) AND 0x3f :: byte) = triple a b c"
  unfolding low6 ucast_low6 sextets_join by (rule triple_24)

lemma pad_value: "base64_ascii_to_bin 61 = 0"
  by (simp add: ascii_to_bin_alphabet alphabet_index_def)

lemma pad_sextet: "ucast (drop_bit 6 (triple a 0 0)) AND 0x3f = (0 :: byte)"
  unfolding low6 by (rule bit_word_eqI) (auto simp: triple_def bit_simps)

lemma decode_quad_3:
  "base64_decode_quad (conv_bin2ascii (ucast (drop_bit 18 (triple a b c))))
    (conv_bin2ascii (ucast (drop_bit 12 (triple a b c)))) (conv_bin2ascii (ucast (drop_bit 6 (triple a b c))))
    (conv_bin2ascii (ucast (triple a b c))) = Some [a, b, c]"
  using sextets_triple [of a b c]
  by (simp add: base64_decode_quad_def padding_pattern_def sextet_roundtrip triple_bytes Let_def)

lemma decode_quad_2:
  "base64_decode_quad (conv_bin2ascii (ucast (drop_bit 18 (triple a b 0))))
    (conv_bin2ascii (ucast (drop_bit 12 (triple a b 0)))) (conv_bin2ascii (ucast (drop_bit 6 (triple a b 0))))
    61 = Some [a, b]"
  using sextets_triple [of a b 0]
  by (simp add: base64_decode_quad_def padding_pattern_def sextet_roundtrip triple_bytes Let_def
      pad_value)

lemma decode_quad_1:
  "base64_decode_quad (conv_bin2ascii (ucast (drop_bit 18 (triple a 0 0))))
    (conv_bin2ascii (ucast (drop_bit 12 (triple a 0 0)))) 61 61 = Some [a]"
  using sextets_triple [of a 0 0]
  by (simp add: base64_decode_quad_def padding_pattern_def sextet_roundtrip triple_bytes Let_def
      pad_value pad_sextet)

section \<open>Whole blocks\<close>

lemma encode_block_triple:
  "encode_block (a # b # c # src) =
     [conv_bin2ascii (ucast (drop_bit 18 (triple a b c))), conv_bin2ascii (ucast (drop_bit 12 (triple a b c))),
      conv_bin2ascii (ucast (drop_bit 6 (triple a b c))), conv_bin2ascii (ucast (triple a b c))] @ encode_block src"
  "encode_block [a, b] =
     [conv_bin2ascii (ucast (drop_bit 18 (triple a b 0))), conv_bin2ascii (ucast (drop_bit 12 (triple a b 0))),
      conv_bin2ascii (ucast (drop_bit 6 (triple a b 0))), 61]"
  "encode_block [a] =
     [conv_bin2ascii (ucast (drop_bit 18 (triple a 0 0))), conv_bin2ascii (ucast (drop_bit 12 (triple a 0 0))), 61, 61]"
  by (simp_all add: triple_def Let_def)

lemma div3_step: "(5 + n) div 3 = Suc (Suc (Suc n) div 3)"
  by presburger

lemma length_encode_block: "length (encode_block src) = (length src + 2) div 3 * 4"
  by (induction src rule: encode_block.induct)
    (simp_all add: encode_block_triple div3_step del: encode_block.simps(2-4))

lemma encode_block_nonempty: "src \<noteq> [] \<Longrightarrow> encode_block src \<noteq> []"
  by (cases src rule: encode_block.cases) (simp_all add: encode_block_triple del: encode_block.simps(2-4))

lemma decode_encode: "decode_quads (encode_block src) = Some src"
proof (induction src rule: encode_block.induct)
  case (2 a b c src)
  then show ?case by (simp add: encode_block_triple decode_quad_3 del: encode_block.simps(2-4))
next
  case (3 a b)
  then show ?case by (simp add: encode_block_triple decode_quad_2 del: encode_block.simps(2-4))
next
  case (4 a)
  then show ?case by (simp add: encode_block_triple decode_quad_1 del: encode_block.simps(2-4))
qed simp

section \<open>Streams\<close>

text \<open>
  The text a stream of updates writes: a line for every full 48 bytes, and what is left over for the
  next update.
\<close>

function full_lines :: "byte list \<Rightarrow> byte list" where
  "full_lines xs =
     (if length xs < 48 then [] else encode_block (take 48 xs) @ [10] @ full_lines (drop 48 xs))"
  by pat_completeness auto
termination
  by (relation "measure length") auto

function leftover :: "byte list \<Rightarrow> byte list" where
  "leftover xs = (if length xs < 48 then xs else leftover (drop 48 xs))"
  by pat_completeness auto
termination
  by (relation "measure length") auto

declare full_lines.simps [simp del] leftover.simps [simp del]

definition wrapped :: "byte list \<Rightarrow> byte list" where
  "wrapped xs =
     full_lines xs @ (if leftover xs = [] then [] else encode_block (leftover xs) @ [10])"

lemma short_lines: "length xs < 48 \<Longrightarrow> full_lines xs = [] \<and> leftover xs = xs"
  by (simp add: full_lines.simps leftover.simps)

lemma leftover_short: "length (leftover xs) < 48"
  by (induction xs rule: leftover.induct) (subst leftover.simps, simp)

lemma line_first:
  "length ys = 48 \<Longrightarrow> full_lines (ys @ zs) = encode_block ys @ [10] @ full_lines zs
    \<and> leftover (ys @ zs) = leftover zs"
  by (simp add: full_lines.simps [of "ys @ zs"] leftover.simps [of "ys @ zs"])

lemma lines_append:
  "full_lines (xs @ ys) = full_lines xs @ full_lines (leftover xs @ ys)
    \<and> leftover (xs @ ys) = leftover (leftover xs @ ys)"
proof (induction xs rule: full_lines.induct)
  case (1 xs)
  show ?case
  proof (cases "length xs < 48")
    case True
    then show ?thesis by (simp add: short_lines)
  next
    case False
    then have split: "xs = take 48 xs @ drop 48 xs" "length (take 48 xs) = 48" by auto
    note L = line_first [OF split(2), of "drop 48 xs"] line_first [OF split(2), of "drop 48 xs @ ys"]
    with 1 False show ?thesis by (simp only: append_assoc [symmetric] append_take_drop_id) simp
  qed
qed

lemma length_full_lines: "length (full_lines xs) = length xs div 48 * 65"
proof (induction xs rule: full_lines.induct)
  case (1 xs)
  show ?case
  proof (cases "length xs < 48")
    case True
    then show ?thesis by (simp add: short_lines)
  next
    case False
    then have "length xs div 48 = Suc ((length xs - 48) div 48)" by (simp add: le_div_geq)
    with 1 False show ?thesis by (simp add: full_lines.simps [of xs] length_encode_block)
  qed
qed

lemma encode_lines_eq:
  "n + length (full_lines xs) < SIZE_MODULUS \<Longrightarrow>
    encode_lines xs n = (full_lines xs, Some (n + length (full_lines xs)), leftover xs)"
proof (induction xs n rule: encode_lines.induct)
  case (1 xs n)
  show ?case
  proof (cases "length xs < 48")
    case True
    then show ?thesis by (simp add: encode_lines.simps [of xs] short_lines)
  next
    case False
    then have fl: "full_lines xs = encode_block (take 48 xs) @ [10] @ full_lines (drop 48 xs)"
      and lo: "leftover xs = leftover (drop 48 xs)"
      by (simp_all add: full_lines.simps [of xs] leftover.simps [of xs])
    let ?line = "encode_block (take 48 xs) @ [10]"
    have s: "sz (n + length ?line) = n + length ?line"
      using "1.prems" fl by simp
    have "encode_lines (drop 48 xs) (n + length ?line)
        = (full_lines (drop 48 xs), Some (n + length ?line + length (full_lines (drop 48 xs))), leftover (drop 48 xs))"
      using "1.IH" [OF False refl refl refl] "1.prems" s fl by simp
    then show ?thesis using False s by (simp add: encode_lines.simps [of xs] fl lo Let_def)
  qed
qed

definition ctx_ok :: "evp_encode_ctx \<Rightarrow> bool" where
  "ctx_ok ctx \<longleftrightarrow> length (ctx_data ctx) = 48 \<and> data_used ctx < 48"

definition pending :: "evp_encode_ctx \<Rightarrow> byte list" where
  "pending ctx = take (data_used ctx) (ctx_data ctx)"

lemma length_pending: "ctx_ok ctx \<Longrightarrow> length (pending ctx) = data_used ctx"
  by (simp add: ctx_ok_def pending_def)

lemma EVP_EncodeUpdate_eq:
  assumes ok: "ctx_ok ctx" and small: "length in0 \<le> 1500000000"
  shows "\<exists>ctx'. EVP_EncodeUpdate ctx in0
      = (terminate (full_lines (pending ctx @ in0)), length (full_lines (pending ctx @ in0)), ctx')
    \<and> ctx_ok ctx' \<and> pending ctx' = leftover (pending ctx @ in0)"
proof (cases "length in0 < 48 - data_used ctx")
  case True
  then have "length (pending ctx @ in0) < 48" using length_pending [OF ok] by simp
  note S = short_lines [OF this]
  have "take (data_used ctx + length in0) (write_at (ctx_data ctx) (data_used ctx) in0) = pending ctx @ in0"
    using ok by (simp add: ctx_ok_def pending_def)
  with True ok S show ?thesis
    by (auto simp: EVP_EncodeUpdate_def terminate_def ctx_ok_def pending_def)
next
  case False
  let ?u = "data_used ctx"
  let ?todo = "48 - ?u"
  let ?full = "write_at (ctx_data ctx) ?u (take ?todo in0)"
  let ?pre = "if ?u \<noteq> 0 then encode_block ?full @ [10] else []"
  let ?ctx1 = "if ?u \<noteq> 0 then ctx\<lparr>ctx_data := ?full, data_used := 0\<rparr> else ctx"
  let ?in1 = "if ?u \<noteq> 0 then drop ?todo in0 else in0"
  have u: "?u < 48" "length (ctx_data ctx) = 48" using ok by (auto simp: ctx_ok_def)
  have ne: "in0 \<noteq> []" using u False by auto
  have len_full: "length ?full = 48" using u False by simp
  have full: "?full = pending ctx @ take ?todo in0"
    using take_write_at_end [of ?u "ctx_data ctx" "take ?todo in0"] u False len_full
    by (simp add: pending_def)
  have both: "full_lines (pending ctx @ in0) = ?pre @ full_lines ?in1
      \<and> leftover (pending ctx @ in0) = leftover ?in1"
  proof (cases "?u = 0")
    case False
    have "pending ctx @ in0 = ?full @ drop ?todo in0" unfolding full by simp
    with line_first [OF len_full, of "drop ?todo in0"] False show ?thesis by simp
  qed (simp add: pending_def)
  note all = conjunct1 [OF both] conjunct2 [OF both]
  have bound: "length (full_lines (pending ctx @ in0)) \<le> INT_MAX"
    using small u length_pending [OF ok] by (simp add: length_full_lines INT_MAX_def)
  then have nowrap: "length ?pre + length (full_lines ?in1) < SIZE_MODULUS"
    unfolding all(1) by (simp add: INT_MAX_def SIZE_MODULUS_def)
  have r: "EVP_EncodeUpdate ctx in0 =
    (terminate (?pre @ full_lines ?in1), length (?pre @ full_lines ?in1),
     ?ctx1\<lparr>ctx_data := (if leftover ?in1 \<noteq> [] then write_at (ctx_data ?ctx1) 0 (leftover ?in1) else ctx_data ?ctx1),
          data_used := length (leftover ?in1)\<rparr>)"
    using False ne bound u unfolding all(1)
    by (simp only: EVP_EncodeUpdate_def Let_def encode_lines_eq [OF nowrap]) simp
  have data1: "length (ctx_data ?ctx1) = 48" using u len_full by simp
  have "length (write_at (ctx_data ?ctx1) 0 (leftover ?in1)) = 48"
    "take (length (leftover ?in1)) (write_at (ctx_data ?ctx1) 0 (leftover ?in1)) = leftover ?in1"
    using data1 leftover_short [of ?in1] take_write_at_end [of 0 "ctx_data ?ctx1" "leftover ?in1"] by auto
  with r all data1 leftover_short [of ?in1] show ?thesis
    by (auto simp: ctx_ok_def pending_def)
qed

text \<open>
  A client that encodes a stream: it keeps the \<open>*out_len\<close> bytes of every update and of the
  final call.
\<close>

fun encode_stream :: "evp_encode_ctx \<Rightarrow> byte list list \<Rightarrow> byte list" where
  "encode_stream ctx [] = (case EVP_EncodeFinal ctx of (out, n, _) \<Rightarrow> take n out)"
| "encode_stream ctx (c # cs) =
     (case EVP_EncodeUpdate ctx c of (out, n, ctx') \<Rightarrow> take n out @ encode_stream ctx' cs)"

lemma take_terminate: "take (length xs) (terminate xs) = xs"
  by (simp add: terminate_def)

lemma encode_stream_wrapped:
  "ctx_ok ctx \<Longrightarrow> \<forall>c\<in>set cs. length c \<le> 1500000000 \<Longrightarrow>
    encode_stream ctx cs = wrapped (pending ctx @ concat cs)"
proof (induction cs arbitrary: ctx)
  case Nil
  have "length (pending ctx) < 48" using length_pending [OF Nil(1)] Nil(1) by (simp add: ctx_ok_def)
  moreover have "pending ctx = [] \<longleftrightarrow> data_used ctx = 0"
    using length_pending [OF Nil(1)] by auto
  ultimately show ?case
    by (auto simp: EVP_EncodeFinal_def wrapped_def short_lines Let_def simp flip: pending_def)
next
  case (Cons c cs)
  from EVP_EncodeUpdate_eq [OF Cons.prems(1), of c] Cons.prems(2) obtain ctx'
    where u: "EVP_EncodeUpdate ctx c
        = (terminate (full_lines (pending ctx @ c)), length (full_lines (pending ctx @ c)), ctx')"
      and ok: "ctx_ok ctx'" and p: "pending ctx' = leftover (pending ctx @ c)" by auto
  have "encode_stream ctx' cs = wrapped (leftover (pending ctx @ c) @ concat cs)"
    using Cons.IH [OF ok] Cons.prems(2) p by simp
  then show ?case
    using lines_append [of "pending ctx @ c" "concat cs"]
    by (simp add: u take_terminate wrapped_def)
qed

section \<open>Decoding a stream\<close>

definition dec_ready :: "evp_encode_ctx \<Rightarrow> bool" where
  "dec_ready ctx \<longleftrightarrow> length (ctx_data ctx) = 48 \<and> data_used ctx = 0 \<and> \<not> eof_seen ctx \<and> \<not> error_encountered ctx"

lemma decode_loop_append:
  "decode_loop ctx (xs @ ys) =
    (case decode_loop ctx xs of (ok, out, ctx1) \<Rightarrow>
       if \<not> ok then (False, out, ctx1)
       else (case decode_loop ctx1 ys of (ok2, out2, ctx2) \<Rightarrow> (ok2, out @ out2, ctx2)))"
  by (induction xs arbitrary: ctx) (auto split: prod.splits if_split_asm)

lemma decode_loop_quad:
  assumes r: "dec_ready ctx" and ns: "\<not> is_space c0" "\<not> is_space c1" "\<not> is_space c2" "\<not> is_space c3"
    and q: "base64_decode_quad c0 c1 c2 c3 = Some bytes"
  shows "\<exists>ctx'. decode_loop ctx (c0 # c1 # c2 # c3 # zs)
      = (case decode_loop ctx' zs of (ok, out, ctx2) \<Rightarrow> (ok, bytes @ out, ctx2))
    \<and> length (ctx_data ctx') = 48 \<and> data_used ctx' = 0 \<and> \<not> error_encountered ctx'
    \<and> (eof_seen ctx' \<longleftrightarrow> length bytes < 3)"
proof -
  obtain x0 x1 x2 x3 xs where d: "ctx_data ctx = x0 # x1 # x2 # x3 # xs" and "length xs = 44"
    using r by (auto simp: dec_ready_def numeral_eq_Suc length_Suc_conv)
  let ?c = "ctx\<lparr>ctx_data := c0 # c1 # c2 # c3 # xs, data_used := 0, eof_seen := (length bytes < 3)\<rparr>"
  have "decode_loop ctx (c0 # c1 # c2 # c3 # zs)
      = (case decode_loop ?c zs of (ok, out, ctx2) \<Rightarrow> (ok, bytes @ out, ctx2))"
    using r ns q d by (simp add: dec_ready_def decode_char_def Let_def case_prod_beta)
  then show ?thesis using r \<open>length xs = 44\<close> by (intro exI [of _ ?c]) (simp add: dec_ready_def)
qed

lemma decode_loop_space: "is_space c \<Longrightarrow> decode_loop ctx (c # zs) = decode_loop ctx zs"
  by (simp add: decode_char_def split: prod.splits)

text \<open>A block of complete triples leaves the decoder ready; the last block may end the data.\<close>

lemma decode_loop_block:
  "dec_ready ctx \<Longrightarrow>
    \<exists>ctx'. decode_loop ctx (encode_block xs) = (True, xs, ctx')
      \<and> data_used ctx' = 0 \<and> \<not> error_encountered ctx' \<and> (length xs mod 3 = 0 \<longrightarrow> dec_ready ctx')"
proof (induction xs arbitrary: ctx rule: encode_block.induct)
  case 1
  then show ?case by (auto simp: dec_ready_def)
next
  case (2 a b c src)
  from decode_loop_quad [OF "2.prems" sextet_roundtrip(3) sextet_roundtrip(3) sextet_roundtrip(3)
      sextet_roundtrip(3) decode_quad_3 [of a b c], of "encode_block src"]
  obtain ctx1 where c1: "decode_loop ctx (encode_block (a # b # c # src))
        = (case decode_loop ctx1 (encode_block src) of (ok, out, ctx2) \<Rightarrow> (ok, [a, b, c] @ out, ctx2))"
    and "dec_ready ctx1"
    by (auto simp: encode_block_triple dec_ready_def simp del: encode_block.simps(2-4) decode_loop.simps)
  from "2.IH" [OF refl this(2)] c1 show ?case
    by (auto simp del: encode_block.simps(2-4))
next
  case (3 a b)
  have "\<not> is_space 61" by (simp add: is_space_def)
  from decode_loop_quad [OF "3.prems" sextet_roundtrip(3) sextet_roundtrip(3) sextet_roundtrip(3)
      this decode_quad_2 [of a b], of "[]"]
  show ?case by (auto simp: encode_block_triple simp del: encode_block.simps(2-4) decode_loop.simps(2))
next
  case (4 a)
  have sp: "\<not> is_space 61" by (simp add: is_space_def)
  from decode_loop_quad [OF "4.prems" sextet_roundtrip(3) sextet_roundtrip(3) sp sp decode_quad_1 [of a], of "[]"]
  show ?case by (auto simp: encode_block_triple simp del: encode_block.simps(2-4) decode_loop.simps(2))
qed

lemma newline_is_space: "is_space 10"
  by (simp add: is_space_def)

lemma decode_loop_line:
  assumes "dec_ready ctx" and "length xs mod 3 = 0"
  shows "\<exists>ctx'. dec_ready ctx' \<and> decode_loop ctx (encode_block xs @ [10] @ zs)
    = (case decode_loop ctx' zs of (ok, out, ctx2) \<Rightarrow> (ok, xs @ out, ctx2))"
proof -
  from decode_loop_block [OF assms(1), of xs] assms(2) obtain ctx'
    where "decode_loop ctx (encode_block xs) = (True, xs, ctx')" "dec_ready ctx'" by blast
  then show ?thesis
    by (intro exI [of _ ctx']) (simp add: decode_loop_append decode_loop_space newline_is_space del: decode_loop.simps(2))
qed

lemma decode_loop_wrapped:
  "dec_ready ctx \<Longrightarrow>
    \<exists>ctx'. decode_loop ctx (wrapped xs) = (True, xs, ctx') \<and> data_used ctx' = 0 \<and> \<not> error_encountered ctx'"
proof (induction xs arbitrary: ctx rule: full_lines.induct)
  case (1 xs)
  show ?case
  proof (cases "length xs < 48")
    case True
    show ?thesis
    proof (cases "xs = []")
      case empty: True
      with 1 show ?thesis by (auto simp: wrapped_def short_lines dec_ready_def)
    next
      case False
      with True have w: "wrapped xs = encode_block xs @ [10]" by (simp add: wrapped_def short_lines)
      from decode_loop_block [OF "1.prems", of xs] show ?thesis
        by (auto simp: w decode_loop_append decode_loop_space newline_is_space simp del: decode_loop.simps(2))
    qed
  next
    case False
    then have w: "wrapped xs = encode_block (take 48 xs) @ [10] @ wrapped (drop 48 xs)"
      by (simp add: wrapped_def full_lines.simps [of xs] leftover.simps [of xs])
    from decode_loop_line [OF "1.prems", of "take 48 xs" "wrapped (drop 48 xs)"] False
    obtain ctx1 where r1: "dec_ready ctx1" and e: "decode_loop ctx (wrapped xs)
        = (case decode_loop ctx1 (wrapped (drop 48 xs)) of (ok, out, ctx2) \<Rightarrow> (ok, take 48 xs @ out, ctx2))"
      unfolding w by auto
    from "1.IH" [OF False r1] e show ?thesis by auto
  qed
qed

text \<open>
  A client that decodes a stream: \<open>None\<close> once an update returns -1, otherwise the \<open>*out_len\<close> bytes of
  every update and the result of the final call.
\<close>

fun decode_stream :: "evp_encode_ctx \<Rightarrow> byte list list \<Rightarrow> (byte list \<times> int) option" where
  "decode_stream ctx [] = Some ([], EVP_DecodeFinal ctx)"
| "decode_stream ctx (c # cs) =
     (case EVP_DecodeUpdate ctx c of
        (code, out, n, ctx') \<Rightarrow>
          if code = - 1 then None
          else map_option (\<lambda>(rest, final). (take n out @ rest, final)) (decode_stream ctx' cs))"

lemma decode_char_no_error:
  "decode_char ctx c = (True, out, ctx') \<Longrightarrow> error_encountered ctx' = error_encountered ctx"
  by (auto simp: decode_char_def Let_def split: if_split_asm option.split_asm)

lemma decode_loop_no_error:
  "decode_loop ctx xs = (True, out, ctx') \<Longrightarrow> \<not> error_encountered ctx \<Longrightarrow> \<not> error_encountered ctx'"
proof (induction xs arbitrary: ctx out)
  case (Cons c xs)
  then obtain b c1 o2 where "decode_char ctx c = (True, b, c1)" "decode_loop c1 xs = (True, o2, ctx')"
    by (auto split: prod.split_asm if_split_asm)
  with Cons.IH [of c1 o2] Cons.prems(2) decode_char_no_error show ?case by blast
qed simp

lemma decode_stream_loop:
  assumes "decode_loop ctx (concat cs) = (True, out, ctx')" and "\<not> error_encountered ctx"
    and "length out \<le> INT_MAX"
  shows "decode_stream ctx cs = Some (out, EVP_DecodeFinal ctx')"
  using assms
proof (induction cs arbitrary: ctx out)
  case Nil
  then show ?case by simp
next
  case (Cons c cs)
  obtain o1 c1 o2 where l: "decode_loop ctx c = (True, o1, c1)" "decode_loop c1 (concat cs) = (True, o2, ctx')"
    and out: "out = o1 @ o2"
    using Cons.prems(1) by (auto simp: decode_loop_append split: prod.split_asm if_split_asm)
  have noerr: "\<not> error_encountered c1" using decode_loop_no_error [OF l(1) Cons.prems(2)] .
  from Cons.IH [OF l(2) noerr] Cons.prems(3) out
  have "decode_stream c1 cs = Some (o2, EVP_DecodeFinal ctx')" by simp
  then show ?case using l(1) Cons.prems(2,3) out by (simp add: EVP_DecodeUpdate_def)
qed

section \<open>Properties\<close>

text \<open>
  The branch-free helpers compute what their names say, for all 64-bit operands: less-than,
  equality and zero tests give the all-ones or the all-zeros mask, and a select on such a mask picks
  its first or second operand.
\<close>

theorem constant_time_helpers_correct:
  "constant_time_lt_w a b = (if a < b then - 1 else 0)
   \<and> constant_time_eq_w a b = (if a = b then - 1 else 0)
   \<and> constant_time_is_zero_w a = (if a = 0 then - 1 else 0)
   \<and> constant_time_select_w (if c then - 1 else 0) a b = (if c then a else b)"
  by (simp add: lt_w_eq constant_time_eq_w_def is_zero_w_eq xor_eq_0_iff constant_time_select_w_def)

lemma EVP_EncodedLength_eq:
  assumes "n < SIZE_MODULUS"
  shows "EVP_EncodedLength n =
    (if (n + 2) div 3 * 4 + 1 < SIZE_MODULUS then Some ((n + 2) div 3 * 4 + 1) else None)"
proof (cases "n + 2 < SIZE_MODULUS")
  case False
  then have "SIZE_MODULUS \<le> (n + 2) div 3 * 4" by (simp add: SIZE_MODULUS_def)
  moreover have "sz (n + 2) < n"
    using False assms sz_add_overflow_iff [of n 2] by (simp add: SIZE_MODULUS_def)
  ultimately show ?thesis by (simp add: EVP_EncodedLength_def)
next
  case True
  let ?l = "(n + 2) div 3"
  have s: "sz (n + 2) = n + 2" using True by simp
  have l: "?l < SIZE_MODULUS" using True by simp
  show ?thesis
  proof (cases "?l * 4 < SIZE_MODULUS")
    case True
    then have "?l * 4 + 1 < SIZE_MODULUS" by (simp add: SIZE_MODULUS_def)
    with True s show ?thesis by (simp add: EVP_EncodedLength_def Let_def)
  next
    case False
    have "sz (?l * 4) div 4 < ?l"
    proof -
      have "sz (?l * 4) < SIZE_MODULUS" by simp
      then have "sz (?l * 4) < ?l * 4" using False by linarith
      then show ?thesis by (simp add: div_less_iff_less_mult)
    qed
    with False s show ?thesis by (simp add: EVP_EncodedLength_def Let_def)
  qed
qed

text \<open>
  One-shot encoding. For every input whose encoding fits the address space,
  \<open>EVP_EncodedLength\<close> is exactly the space \<open>EVP_EncodeBlock\<close> uses, terminating zero included, and
  \<open>EVP_DecodeBase64\<close> of the encoded characters gives the input back.
\<close>

theorem base64_block_roundtrip:
  assumes "(length src + 2) div 3 * 4 + 1 < SIZE_MODULUS" and "(length src + 2) div 3 * 3 \<le> max_out"
  shows "EVP_EncodedLength (length src) = Some (length (fst (EVP_EncodeBlock src)))
    \<and> EVP_DecodeBase64 max_out (take (snd (EVP_EncodeBlock src)) (fst (EVP_EncodeBlock src))) = Some src"
proof
  have "length src < SIZE_MODULUS" using assms(1) by (simp add: SIZE_MODULUS_def)
  with assms(1) show "EVP_EncodedLength (length src) = Some (length (fst (EVP_EncodeBlock src)))"
    by (simp add: EVP_EncodedLength_eq EVP_EncodeBlock_def length_encode_block)
  show "EVP_DecodeBase64 max_out (take (snd (EVP_EncodeBlock src)) (fst (EVP_EncodeBlock src))) = Some src"
    using assms(2)
    by (simp add: EVP_DecodeBase64_def EVP_DecodedLength_def EVP_EncodeBlock_def length_encode_block decode_encode)
qed

theorem base64_block_roundtrip_witness:
  "EVP_DecodeBase64 6 (take (snd (EVP_EncodeBlock [1, 2, 3, 4])) (fst (EVP_EncodeBlock [1, 2, 3, 4]))) = Some [1, 2, 3, 4]"
  using base64_block_roundtrip [of "[1, 2, 3, 4]" 6] by (simp add: SIZE_MODULUS_def)

text \<open>
  C12: streams survive the trip. However the input is cut into updates for the encoder, the text
  is the same, the input wrapped at 64 characters; and however the text is cut into updates for
  the decoder, it gives the input back and \<open>EVP_DecodeFinal\<close> accepts.
\<close>

theorem base64_stream_roundtrip:
  assumes "\<forall>c\<in>set chunks. length c \<le> 1500000000" and "length (concat chunks) \<le> INT_MAX"
    and "concat pieces = encode_stream EVP_EncodeInit chunks"
  shows "encode_stream EVP_EncodeInit chunks = wrapped (concat chunks)
    \<and> decode_stream EVP_DecodeInit pieces = Some (concat chunks, 1)"
proof
  have ok: "ctx_ok EVP_EncodeInit" "pending EVP_EncodeInit = []"
    by (simp_all add: ctx_ok_def pending_def EVP_EncodeInit_def)
  show enc: "encode_stream EVP_EncodeInit chunks = wrapped (concat chunks)"
    using encode_stream_wrapped [OF ok(1) assms(1)] ok(2) by simp
  have "dec_ready EVP_DecodeInit" by (simp add: dec_ready_def EVP_DecodeInit_def EVP_EncodeInit_def)
  from decode_loop_wrapped [OF this, of "concat chunks"] obtain ctx'
    where l: "decode_loop EVP_DecodeInit (concat pieces) = (True, concat chunks, ctx')"
      and fin: "data_used ctx' = 0" "\<not> error_encountered ctx'"
    using enc assms(3) by auto
  have "\<not> error_encountered EVP_DecodeInit" by (simp add: EVP_DecodeInit_def EVP_EncodeInit_def)
  from decode_stream_loop [OF l this assms(2)] fin
  show "decode_stream EVP_DecodeInit pieces = Some (concat chunks, 1)" by (simp add: EVP_DecodeFinal_def)
qed

theorem base64_stream_roundtrip_witness:
  "decode_stream EVP_DecodeInit [encode_stream EVP_EncodeInit [[1, 2], [3, 4]]] = Some ([1, 2, 3, 4], 1)"
proof -
  let ?cs = "[[1, 2], [3, 4]] :: byte list list"
  have "\<forall>c\<in>set ?cs. length c \<le> 1500000000" "length (concat ?cs) \<le> INT_MAX"
    and pieces: "concat [encode_stream EVP_EncodeInit ?cs] = encode_stream EVP_EncodeInit ?cs"
    by (simp_all add: INT_MAX_def del: encode_stream.simps)
  from conjunct2 [OF base64_stream_roundtrip [OF this]] show ?thesis by (simp only: concat.simps append.simps)
qed

end
