(* ===== verification/Utf8.thy ===== *)
theory Utf8
  imports Prelude
begin

text \<open>
  The UTF-8 reader and writer of the ASN.1 code (\<open>crypto/asn1/a_utf8.c\<close>).

  \<open>UTF8_getc\<close> gets the bytes of the string (as many as \<open>len\<close> says) and returns its negative or zero
  code as \<open>Inl\<close>, or \<open>Inr\<close> with the number of bytes read and the value. \<open>UTF8_putc\<close> returns its
  code and the bytes it stores. \<open>unsigned long\<close> has 64 bits.
\<close>

section \<open>The code\<close>

definition fld :: "byte \<Rightarrow> byte \<Rightarrow> u64" where
  "fld b m = ucast (b AND m)"

definition UTF8_getc :: "byte list \<Rightarrow> int + nat \<times> u64" where
  "UTF8_getc p =
     (let len = length p in
      if len = 0 then Inl 0
      else if p ! 0 AND 0x80 = 0 then Inr (1, fld (p ! 0) 0x7f)
      else if p ! 0 AND 0xe0 = 0xc0 then
        if len < 2 then Inl (- 1)
        else if p ! 1 AND 0xc0 \<noteq> 0x80 then Inl (- 3)
        else
          let v = push_bit 6 (fld (p ! 0) 0x1f) OR fld (p ! 1) 0x3f
          in if v < 0x80 then Inl (- 4) else Inr (2, v)
      else if p ! 0 AND 0xf0 = 0xe0 then
        if len < 3 then Inl (- 1)
        else if p ! 1 AND 0xc0 \<noteq> 0x80 \<or> p ! 2 AND 0xc0 \<noteq> 0x80 then Inl (- 3)
        else
          let v = push_bit 12 (fld (p ! 0) 0xf) OR push_bit 6 (fld (p ! 1) 0x3f) OR fld (p ! 2) 0x3f
          in if v < 0x800 then Inl (- 4) else Inr (3, v)
      else if p ! 0 AND 0xf8 = 0xf0 then
        if len < 4 then Inl (- 1)
        else if p ! 1 AND 0xc0 \<noteq> 0x80 \<or> p ! 2 AND 0xc0 \<noteq> 0x80 \<or> p ! 3 AND 0xc0 \<noteq> 0x80
        then Inl (- 3)
        else
          let v = push_bit 18 (fld (p ! 0) 0x7) OR push_bit 12 (fld (p ! 1) 0x3f)
              OR push_bit 6 (fld (p ! 2) 0x3f) OR fld (p ! 3) 0x3f
          in if v < 0x10000 then Inl (- 4) else Inr (4, v)
      else if p ! 0 AND 0xfc = 0xf8 then
        if len < 5 then Inl (- 1)
        else if p ! 1 AND 0xc0 \<noteq> 0x80 \<or> p ! 2 AND 0xc0 \<noteq> 0x80 \<or> p ! 3 AND 0xc0 \<noteq> 0x80
          \<or> p ! 4 AND 0xc0 \<noteq> 0x80
        then Inl (- 3)
        else
          let v = push_bit 24 (fld (p ! 0) 0x3) OR push_bit 18 (fld (p ! 1) 0x3f)
              OR push_bit 12 (fld (p ! 2) 0x3f) OR push_bit 6 (fld (p ! 3) 0x3f) OR fld (p ! 4) 0x3f
          in if v < 0x200000 then Inl (- 4) else Inr (5, v)
      else if p ! 0 AND 0xfe = 0xfc then
        if len < 6 then Inl (- 1)
        else if p ! 1 AND 0xc0 \<noteq> 0x80 \<or> p ! 2 AND 0xc0 \<noteq> 0x80 \<or> p ! 3 AND 0xc0 \<noteq> 0x80
          \<or> p ! 4 AND 0xc0 \<noteq> 0x80 \<or> p ! 5 AND 0xc0 \<noteq> 0x80
        then Inl (- 3)
        else
          let v = push_bit 30 (fld (p ! 0) 0x1) OR push_bit 24 (fld (p ! 1) 0x3f)
              OR push_bit 18 (fld (p ! 2) 0x3f) OR push_bit 12 (fld (p ! 3) 0x3f)
              OR push_bit 6 (fld (p ! 4) 0x3f) OR fld (p ! 5) 0x3f
          in if v < 0x4000000 then Inl (- 4) else Inr (6, v)
      else Inl (- 2))"

text \<open>\<open>((value >> k) & m) | t\<close>, cut to a byte.\<close>

definition put :: "u64 \<Rightarrow> nat \<Rightarrow> u64 \<Rightarrow> u64 \<Rightarrow> byte" where
  "put v k m t = ucast ((drop_bit k v AND m) OR t)"

definition UTF8_putc :: "bool \<Rightarrow> int \<Rightarrow> u64 \<Rightarrow> int \<times> byte list" where
  "UTF8_putc str_given len0 v =
     (let len = (if \<not> str_given then 6 else len0); out = (\<lambda>bs. if str_given then bs else []) in
      if str_given \<and> len0 \<le> 0 then (- 1, [])
      else if v < 0x80 then (1, out [ucast v])
      else if v < 0x800 then
        if len < 2 then (- 1, [])
        else (2, out [put v 6 0x1f 0xc0, put v 0 0x3f 0x80])
      else if v < 0x10000 then
        if len < 3 then (- 1, [])
        else (3, out [put v 12 0xf 0xe0, put v 6 0x3f 0x80, put v 0 0x3f 0x80])
      else if v < 0x200000 then
        if len < 4 then (- 1, [])
        else (4, out [put v 18 0x7 0xf0, put v 12 0x3f 0x80, put v 6 0x3f 0x80, put v 0 0x3f 0x80])
      else if v < 0x4000000 then
        if len < 5 then (- 1, [])
        else (5, out [put v 24 0x3 0xf8, put v 18 0x3f 0x80, put v 12 0x3f 0x80, put v 6 0x3f 0x80,
                      put v 0 0x3f 0x80])
      else if len < 6 then (- 1, [])
      else (6, out [put v 30 0x1 0xfc, put v 24 0x3f 0x80, put v 18 0x3f 0x80, put v 12 0x3f 0x80,
                    put v 6 0x3f 0x80, put v 0 0x3f 0x80]))"

section \<open>Continuation bytes and lead bytes\<close>

lemma cont_cases: "list_all (\<lambda>n. let c = word_of_nat n :: byte; b = c OR 0x80 in
    b AND 0xc0 = 0x80 \<and> b AND 0x3f = c) [0..<64]"
  by code_simp

lemma lead_cases:
  "list_all (\<lambda>n. let c = word_of_nat n :: byte; b = c OR 0xc0 in
    b AND 0x80 \<noteq> 0 \<and> b AND 0xe0 = 0xc0 \<and> b AND 0x1f = c) [0..<32]"
  "list_all (\<lambda>n. let c = word_of_nat n :: byte; b = c OR 0xe0 in
    b AND 0x80 \<noteq> 0 \<and> b AND 0xe0 \<noteq> 0xc0 \<and> b AND 0xf0 = 0xe0 \<and> b AND 0xf = c) [0..<16]"
  "list_all (\<lambda>n. let c = word_of_nat n :: byte; b = c OR 0xf0 in
    b AND 0x80 \<noteq> 0 \<and> b AND 0xe0 \<noteq> 0xc0 \<and> b AND 0xf0 \<noteq> 0xe0 \<and> b AND 0xf8 = 0xf0 \<and> b AND 0x7 = c) [0..<8]"
  "list_all (\<lambda>n. let c = word_of_nat n :: byte; b = c OR 0xf8 in
    b AND 0x80 \<noteq> 0 \<and> b AND 0xe0 \<noteq> 0xc0 \<and> b AND 0xf0 \<noteq> 0xe0 \<and> b AND 0xf8 \<noteq> 0xf0
    \<and> b AND 0xfc = 0xf8 \<and> b AND 0x3 = c) [0..<4]"
  "list_all (\<lambda>n. let c = word_of_nat n :: byte; b = c OR 0xfc in
    b AND 0x80 \<noteq> 0 \<and> b AND 0xe0 \<noteq> 0xc0 \<and> b AND 0xf0 \<noteq> 0xe0 \<and> b AND 0xf8 \<noteq> 0xf0
    \<and> b AND 0xfc \<noteq> 0xf8 \<and> b AND 0xfe = 0xfc \<and> b AND 0x1 = c) [0..<2]"
  by code_simp+

text \<open>A field of \<open>n\<close> bits, as the writer stores it.\<close>

lemma mask_word: "(w :: 'w::len word) AND mask n = take_bit n w"
  by (simp add: take_bit_eq_mask)

lemma list_all_upt: "list_all P [0..<n] \<Longrightarrow> k < n \<Longrightarrow> P k"
  by (simp add: list_all_iff)

lemma put_word:
  assumes "m = mask n"
  shows "put v s m t = word_of_nat (unat (take_bit n (drop_bit s v))) OR ucast t"
    and "unat (take_bit n (drop_bit s v)) < 2 ^ n"
proof -
  let ?f = "take_bit n (drop_bit s v)"
  have "put v s m t = ucast (?f OR t)" by (simp add: put_def assms mask_word)
  also have "\<dots> = ucast ?f OR ucast t" by (simp only: unsigned_or_eq)
  finally show "put v s m t = word_of_nat (unat ?f) OR ucast t" by simp
  show "unat ?f < 2 ^ n" unfolding unsigned_take_bit_eq by (rule take_bit_nat_less_exp)
qed

lemma fld_word:
  assumes "b AND m = word_of_nat (unat (take_bit n x))" and "n \<le> 8"
  shows "fld b m = take_bit n (x :: u64)"
proof -
  have "ucast (ucast (take_bit n x) :: byte) = take_bit n x"
    using assms(2) by (intro bit_word_eqI) (auto simp: bit_simps)
  then show ?thesis using assms(1) by (simp add: fld_def)
qed

section \<open>Values as sequences of fields\<close>

definition join :: "u64 \<Rightarrow> u64 \<Rightarrow> u64" where
  "join a f = push_bit 6 a OR f"

lemma join_2: "push_bit 12 a OR push_bit 6 b OR c = join (join a b) c"
  by (simp add: join_def push_bit_or or.assoc push_bit_push_bit)

lemma join_3: "push_bit 18 a OR push_bit 12 b OR push_bit 6 c OR d = join (join (join a b) c) d"
  by (simp add: join_def push_bit_or or.assoc push_bit_push_bit)

lemma join_4: "push_bit 24 a OR push_bit 18 b OR push_bit 12 c OR push_bit 6 d OR e
    = join (join (join (join a b) c) d) e"
  by (simp add: join_def push_bit_or or.assoc push_bit_push_bit)

lemma join_5: "push_bit 30 a OR push_bit 24 b OR push_bit 18 c OR push_bit 12 d OR push_bit 6 e OR f
    = join (join (join (join (join a b) c) d) e) f"
  by (simp add: join_def push_bit_or or.assoc push_bit_push_bit)

lemmas joins = join_2 join_3 join_4 join_5 join_def [symmetric]

lemma join_split: "join (drop_bit 6 x) (take_bit 6 x) = x"
proof (rule bit_word_eqI)
  fix n show "bit (join (drop_bit 6 x) (take_bit 6 x)) n \<longleftrightarrow> bit x n"
    by (cases "n < 6") (auto simp: join_def bit_simps dest: bit_imp_le_length)
qed

lemma join_splits: "join (drop_bit (6 + s) x) (take_bit 6 (drop_bit s x)) = drop_bit s x"
  using join_split [of "drop_bit s x"] by (simp add: drop_bit_drop_bit)

lemma take_bit_small: "unat (v :: u64) < 2 ^ n \<Longrightarrow> take_bit n v = v"
  by (rule unsigned_word_eqI [where 'a = nat]) (simp add: unsigned_take_bit_eq take_bit_nat_eq_self)

lemma top_field:
  assumes "unat (v :: u64) < 2 ^ (s + n)"
  shows "take_bit n (drop_bit s v) = drop_bit s v"
proof -
  have "take_bit n (drop_bit s v) = drop_bit s (take_bit (s + n) v)"
    by (simp add: take_bit_drop_bit add.commute)
  with take_bit_small [OF assms] show ?thesis by simp
qed

lemma join_low: "take_bit 6 f = f \<Longrightarrow> take_bit 6 (join a f) = f"
  by (rule bit_word_eqI) (auto simp: join_def bit_simps bit_eq_iff)

lemma join_high:
  assumes "take_bit 6 f = f" and "take_bit 58 a = a"
  shows "drop_bit 6 (join a f) = a"
proof (rule bit_word_eqI)
  fix n
  have "\<not> bit f (6 + n)" using assms(1) by (metis bit_take_bit_iff not_add_less1)
  moreover have "bit a n \<Longrightarrow> n < 58" using assms(2) by (metis bit_take_bit_iff)
  ultimately show "bit (drop_bit 6 (join a f)) n \<longleftrightarrow> bit a n"
    by (auto simp: join_def bit_simps)
qed

lemma join_bound:
  assumes "take_bit 6 f = f" and "take_bit n a = a"
  shows "take_bit (n + 6) (join a f) = join a f"
proof (rule bit_word_eqI)
  fix k
  have "bit f k \<Longrightarrow> k < 6" using assms(1) by (metis bit_take_bit_iff)
  moreover have "bit a (k - 6) \<Longrightarrow> k - 6 < n" using assms(2) by (metis bit_take_bit_iff)
  ultimately show "bit (take_bit (n + 6) (join a f)) k \<longleftrightarrow> bit (join a f) k"
    by (auto simp: join_def bit_simps)
qed

section \<open>Reading back what the writer stores\<close>

lemma masks:
  "(0x3f :: u64) = mask 6" "(0x1f :: u64) = mask 5" "(0xf :: u64) = mask 4" "(0x7 :: u64) = mask 3"
  "(0x3 :: u64) = mask 2" "(0x1 :: u64) = mask 1"
  by (simp_all add: mask_numeral)

lemma put_cont:
  "put v s 0x3f 0x80 AND 0xc0 = 0x80
    \<and> fld (put v s 0x3f 0x80) 0x3f = take_bit 6 (drop_bit s v)"
proof -
  let ?k = "unat (take_bit 6 (drop_bit s v))"
  have "?k < 2 ^ 6" and p: "put v s 0x3f 0x80 = word_of_nat ?k OR 0x80"
    using put_word [OF masks(1)] by simp_all
  then have "?k < 64" by simp
  note c = list_all_upt [OF cont_cases this, unfolded Let_def, folded p]
  have "(6 :: nat) \<le> 8" by simp
  then show ?thesis using c fld_word [of _ _ 6] by blast
qed

lemma put_lead_2:
  "put v s 0x1f 0xc0 AND 0x80 \<noteq> 0 \<and> put v s 0x1f 0xc0 AND 0xe0 = 0xc0
    \<and> fld (put v s 0x1f 0xc0) 0x1f = take_bit 5 (drop_bit s v)"
proof -
  let ?k = "unat (take_bit 5 (drop_bit s v))"
  have "?k < 2 ^ 5" and p: "put v s 0x1f 0xc0 = word_of_nat ?k OR 0xc0"
    using put_word [OF masks(2)] by simp_all
  then have "?k < 32" by simp
  note c = list_all_upt [OF lead_cases(1) this, unfolded Let_def, folded p]
  have "(5 :: nat) \<le> 8" by simp
  then show ?thesis using c fld_word [of _ _ 5] by blast
qed

lemma put_lead_3:
  "put v s 0xf 0xe0 AND 0x80 \<noteq> 0 \<and> put v s 0xf 0xe0 AND 0xe0 \<noteq> 0xc0 \<and> put v s 0xf 0xe0 AND 0xf0 = 0xe0
    \<and> fld (put v s 0xf 0xe0) 0xf = take_bit 4 (drop_bit s v)"
proof -
  let ?k = "unat (take_bit 4 (drop_bit s v))"
  have "?k < 2 ^ 4" and p: "put v s 0xf 0xe0 = word_of_nat ?k OR 0xe0"
    using put_word [OF masks(3)] by simp_all
  then have "?k < 16" by simp
  note c = list_all_upt [OF lead_cases(2) this, unfolded Let_def, folded p]
  have "(4 :: nat) \<le> 8" by simp
  then show ?thesis using c fld_word [of _ _ 4] by blast
qed

lemma put_lead_4:
  "put v s 0x7 0xf0 AND 0x80 \<noteq> 0 \<and> put v s 0x7 0xf0 AND 0xe0 \<noteq> 0xc0 \<and> put v s 0x7 0xf0 AND 0xf0 \<noteq> 0xe0 \<and> put v s 0x7 0xf0 AND 0xf8 = 0xf0
    \<and> fld (put v s 0x7 0xf0) 0x7 = take_bit 3 (drop_bit s v)"
proof -
  let ?k = "unat (take_bit 3 (drop_bit s v))"
  have "?k < 2 ^ 3" and p: "put v s 0x7 0xf0 = word_of_nat ?k OR 0xf0"
    using put_word [OF masks(4)] by simp_all
  then have "?k < 8" by simp
  note c = list_all_upt [OF lead_cases(3) this, unfolded Let_def, folded p]
  have "(3 :: nat) \<le> 8" by simp
  then show ?thesis using c fld_word [of _ _ 3] by blast
qed

lemma put_lead_5:
  "put v s 0x3 0xf8 AND 0x80 \<noteq> 0 \<and> put v s 0x3 0xf8 AND 0xe0 \<noteq> 0xc0 \<and> put v s 0x3 0xf8 AND 0xf0 \<noteq> 0xe0 \<and> put v s 0x3 0xf8 AND 0xf8 \<noteq> 0xf0 \<and> put v s 0x3 0xf8 AND 0xfc = 0xf8
    \<and> fld (put v s 0x3 0xf8) 0x3 = take_bit 2 (drop_bit s v)"
proof -
  let ?k = "unat (take_bit 2 (drop_bit s v))"
  have "?k < 2 ^ 2" and p: "put v s 0x3 0xf8 = word_of_nat ?k OR 0xf8"
    using put_word [OF masks(5)] by simp_all
  then have "?k < 4" by simp
  note c = list_all_upt [OF lead_cases(4) this, unfolded Let_def, folded p]
  have "(2 :: nat) \<le> 8" by simp
  then show ?thesis using c fld_word [of _ _ 2] by blast
qed

lemma put_lead_6:
  "put v s 0x1 0xfc AND 0x80 \<noteq> 0 \<and> put v s 0x1 0xfc AND 0xe0 \<noteq> 0xc0 \<and> put v s 0x1 0xfc AND 0xf0 \<noteq> 0xe0 \<and> put v s 0x1 0xfc AND 0xf8 \<noteq> 0xf0 \<and> put v s 0x1 0xfc AND 0xfc \<noteq> 0xf8 \<and> put v s 0x1 0xfc AND 0xfe = 0xfc
    \<and> fld (put v s 0x1 0xfc) 0x1 = take_bit 1 (drop_bit s v)"
proof -
  let ?k = "unat (take_bit 1 (drop_bit s v))"
  have "?k < 2 ^ 1" and p: "put v s 0x1 0xfc = word_of_nat ?k OR 0xfc"
    using put_word [OF masks(6)] by simp_all
  then have "?k < 2" by simp
  note c = list_all_upt [OF lead_cases(5) this, unfolded Let_def, folded p]
  have "(1 :: nat) \<le> 8" by simp
  then show ?thesis using c fld_word [of _ _ 1] by blast
qed

lemmas put_facts = put_cont put_lead_2 put_lead_3 put_lead_4 put_lead_5 put_lead_6

lemma value_2: "unat v < 2 ^ 11 \<Longrightarrow> join (take_bit 5 (drop_bit 6 v)) (take_bit 6 v) = v"
  using top_field [of v 6 5] join_split by simp

lemma value_3: "unat v < 2 ^ 16 \<Longrightarrow>
    join (join (take_bit 4 (drop_bit 12 v)) (take_bit 6 (drop_bit 6 v))) (take_bit 6 v) = v"
  using top_field [of v 12 4] join_splits [of 6 v] join_split by simp

lemma value_4: "unat v < 2 ^ 21 \<Longrightarrow>
    join (join (join (take_bit 3 (drop_bit 18 v)) (take_bit 6 (drop_bit 12 v))) (take_bit 6 (drop_bit 6 v)))
      (take_bit 6 v) = v"
  using top_field [of v 18 3] join_splits [of 6 v] join_splits [of 12 v] join_split by simp

lemma value_5: "unat v < 2 ^ 26 \<Longrightarrow>
    join (join (join (join (take_bit 2 (drop_bit 24 v)) (take_bit 6 (drop_bit 18 v))) (take_bit 6 (drop_bit 12 v)))
      (take_bit 6 (drop_bit 6 v))) (take_bit 6 v) = v"
  using top_field [of v 24 2] join_splits [of 6 v] join_splits [of 12 v] join_splits [of 18 v] join_split
  by simp

lemma value_6: "unat v < 2 ^ 31 \<Longrightarrow>
    join (join (join (join (join (take_bit 1 (drop_bit 30 v)) (take_bit 6 (drop_bit 24 v)))
      (take_bit 6 (drop_bit 18 v))) (take_bit 6 (drop_bit 12 v))) (take_bit 6 (drop_bit 6 v))) (take_bit 6 v) = v"
  using top_field [of v 30 1] join_splits [of 6 v] join_splits [of 12 v] join_splits [of 18 v]
    join_splits [of 24 v] join_split
  by simp

lemma low7: "v < 0x80 \<Longrightarrow> fld (ucast (v :: u64)) 0x7f = v \<and> (ucast v :: byte) AND 0x80 = 0"
proof -
  assume "v < 0x80"
  then have v: "unat v < 128" by (simp add: word_less_nat_alt)
  then have b: "unat (ucast v :: byte) = unat v" by (simp add: unat_ucast_byte)
  have "unat ((ucast v :: byte) AND 0x7f) = unat v" using v b by (simp add: and_7F_byte)
  then have "fld (ucast v) 0x7f = v"
    by (intro unsigned_word_eqI [where 'a = nat]) (simp add: fld_def)
  moreover have "(ucast v :: byte) AND 0x80 = 0"
    using v b and_80_byte [of "ucast v"] by simp
  ultimately show ?thesis by simp
qed

text \<open>How many bytes a value takes.\<close>

definition utf8_size :: "u64 \<Rightarrow> nat" where
  "utf8_size v =
     (if v < 0x80 then 1 else if v < 0x800 then 2 else if v < 0x10000 then 3
      else if v < 0x200000 then 4 else if v < 0x4000000 then 5 else 6)"

lemma getc_putc_2: "v < 0x800 \<Longrightarrow> \<not> v < 0x80 \<Longrightarrow>
    UTF8_getc (put v 6 0x1f 0xc0 # put v 0 0x3f 0x80 # rest) = Inr (2, v)"
  using value_2 [of v] by (simp add: UTF8_getc_def put_facts joins word_less_nat_alt Let_def)

lemma getc_putc_3: "v < 0x10000 \<Longrightarrow> \<not> v < 0x800 \<Longrightarrow>
    UTF8_getc (put v 12 0xf 0xe0 # put v 6 0x3f 0x80 # put v 0 0x3f 0x80 # rest) = Inr (3, v)"
  using value_3 [of v] unfolding join_2 [symmetric]
  by (simp add: UTF8_getc_def put_facts word_less_nat_alt Let_def)

lemma getc_putc_4: "v < 0x200000 \<Longrightarrow> \<not> v < 0x10000 \<Longrightarrow>
    UTF8_getc (put v 18 0x7 0xf0 # put v 12 0x3f 0x80 # put v 6 0x3f 0x80 # put v 0 0x3f 0x80 # rest) = Inr (4, v)"
  using value_4 [of v] unfolding join_3 [symmetric]
  by (simp add: UTF8_getc_def put_facts word_less_nat_alt Let_def)

lemma getc_putc_5: "v < 0x4000000 \<Longrightarrow> \<not> v < 0x200000 \<Longrightarrow>
    UTF8_getc (put v 24 0x3 0xf8 # put v 18 0x3f 0x80 # put v 12 0x3f 0x80 # put v 6 0x3f 0x80
      # put v 0 0x3f 0x80 # rest) = Inr (5, v)"
  using value_5 [of v] unfolding join_4 [symmetric]
  by (simp add: UTF8_getc_def put_facts word_less_nat_alt Let_def)

lemma getc_putc_6: "v < 0x80000000 \<Longrightarrow> \<not> v < 0x4000000 \<Longrightarrow>
    UTF8_getc (put v 30 0x1 0xfc # put v 24 0x3f 0x80 # put v 18 0x3f 0x80 # put v 12 0x3f 0x80
      # put v 6 0x3f 0x80 # put v 0 0x3f 0x80 # rest) = Inr (6, v)"
  using value_6 [of v] unfolding join_5 [symmetric]
  by (simp add: UTF8_getc_def put_facts word_less_nat_alt Let_def)

section \<open>Writing back what the reader accepts\<close>

lemma byte_from_parts:
  assumes "m OR m' = (- 1 :: byte)" and "b AND m' = t"
  shows "(b AND m) OR t = b"
  using assms by (metis and.right_neutral bit.conj_disj_distrib)

lemma put_back:
  assumes "take_bit n (drop_bit s v) = fld b m" and "b AND m' = ucast t" and "m OR m' = - 1" and "mu = mask n"
  shows "put v s mu t = b"
proof -
  have "put v s mu t = ucast (fld b m OR t)" by (simp add: put_def assms(4) mask_word assms(1))
  also have "\<dots> = (b AND m) OR ucast t"
    unfolding unsigned_or_eq fld_def by (rule bit_word_eqI) (auto simp: bit_simps)
  also have "\<dots> = b" using assms(2,3) by (rule_tac byte_from_parts) auto
  finally show ?thesis .
qed

lemma take_bit_mono_self: "take_bit k (a :: u64) = a \<Longrightarrow> k \<le> n \<Longrightarrow> take_bit n a = a"
proof -
  assume a: "take_bit k a = a" and le: "k \<le> n"
  from le have "take_bit n (take_bit k a) = take_bit k a" by (simp add: min_absorb2)
  then show ?thesis unfolding a .
qed

lemma join_fields:
  assumes "take_bit 6 f = f" and "take_bit k a = a" and "k \<le> 52"
  shows "take_bit 6 (join a f) = f" "drop_bit 6 (join a f) = a" "take_bit (k + 6) (join a f) = join a f"
proof -
  have "k \<le> 58" using assms(3) by simp
  with assms(2) have "take_bit 58 a = a" by (rule take_bit_mono_self)
  with assms(1) show "drop_bit 6 (join a f) = a" by (rule join_high)
qed (rule join_low [OF assms(1)], rule join_bound [OF assms(1,2)])

lemma fld_mask_bound: "m = mask n \<Longrightarrow> take_bit n (fld b m) = fld b m"
  unfolding fld_def by (simp only: mask_word) (rule bit_word_eqI, auto simp: bit_simps)

lemma fld_bound:
  "take_bit 6 (fld b 0x3f) = fld b 0x3f" "take_bit 5 (fld b 0x1f) = fld b 0x1f"
  "take_bit 4 (fld b 0xf) = fld b 0xf" "take_bit 3 (fld b 0x7) = fld b 0x7"
  "take_bit 2 (fld b 0x3) = fld b 0x3" "take_bit 1 (fld b 0x1) = fld b 0x1"
  by (rule fld_mask_bound, simp add: mask_numeral)+

lemma take_bit_less: "take_bit n (v :: u64) = v \<Longrightarrow> unat v < 2 ^ n"
  using take_bit_nat_less_exp [of n "unat v"] by (metis unsigned_take_bit_eq)

lemmas conts = fld_bound(1)

lemma back_2:
  assumes "p0 AND 0xe0 = 0xc0" "p1 AND 0xc0 = 0x80"
  defines "v \<equiv> push_bit 6 (fld p0 0x1f) OR fld p1 0x3f"
  shows "unat v < 2 ^ 11" "[put v 6 0x1f 0xc0, put v 0 0x3f 0x80] = [p0, p1]"
proof -
  define x0 where "x0 = fld p0 0x1f"
  define x1 where "x1 = join x0 (fld p1 0x3f)"
  have b0: "take_bit 5 x0 = x0" unfolding x0_def by (rule fld_bound)
  note j1 = join_fields [OF conts [of p1] b0, folded x1_def, simplified]
  note b1 = j1(3)
  have v: "v = x1" unfolding v_def x1_def x0_def by (simp only: join_def)
  show "unat v < 2 ^ 11" unfolding v using b1 by (rule take_bit_less)
  have d0: "drop_bit 0 v = x1" by (simp add: v)
  have d1: "drop_bit 6 v = x0"
    using drop_bit_drop_bit [of 6 0 v] d0 j1(2) by simp
  have "put v 6 0x1f 0xc0 = p0"
    by (rule put_back [where n = 5 and m = "0x1f" and m' = "0xe0"])
      (use assms(1) masks d1 b0 in \<open>simp_all add: x0_def\<close>)
  moreover have "put v 0 0x3f 0x80 = p1"
    by (rule put_back [where n = 6 and m = "0x3f" and m' = "0xc0"]) (use assms(2) masks d0 j1(1) in simp_all)
  ultimately show "[put v 6 0x1f 0xc0, put v 0 0x3f 0x80] = [p0, p1]" by simp
qed

lemma back_3:
  assumes "p0 AND 0xf0 = 0xe0" "p1 AND 0xc0 = 0x80" "p2 AND 0xc0 = 0x80"
  defines "v \<equiv> push_bit 12 (fld p0 0xf) OR push_bit 6 (fld p1 0x3f) OR fld p2 0x3f"
  shows "unat v < 2 ^ 16" "[put v 12 0xf 0xe0, put v 6 0x3f 0x80, put v 0 0x3f 0x80] = [p0, p1, p2]"
proof -
  define x0 where "x0 = fld p0 0xf"
  define x1 where "x1 = join x0 (fld p1 0x3f)"
  define x2 where "x2 = join x1 (fld p2 0x3f)"
  have b0: "take_bit 4 x0 = x0" unfolding x0_def by (rule fld_bound)
  note j1 = join_fields [OF conts [of p1] b0, folded x1_def, simplified]
  note b1 = j1(3)
  note j2 = join_fields [OF conts [of p2] b1, folded x2_def, simplified]
  note b2 = j2(3)
  have v: "v = x2" unfolding v_def x2_def x1_def x0_def by (simp only: join_2)
  show "unat v < 2 ^ 16" unfolding v using b2 by (rule take_bit_less)
  have d0: "drop_bit 0 v = x2" by (simp add: v)
  have d1: "drop_bit 6 v = x1"
    using drop_bit_drop_bit [of 6 0 v] d0 j2(2) by simp
  have d2: "drop_bit 12 v = x0"
    using drop_bit_drop_bit [of 6 6 v] d1 j1(2) by simp
  have "put v 12 0xf 0xe0 = p0"
    by (rule put_back [where n = 4 and m = "0xf" and m' = "0xf0"])
      (use assms(1) masks d2 b0 in \<open>simp_all add: x0_def\<close>)
  moreover have "put v 6 0x3f 0x80 = p1"
    by (rule put_back [where n = 6 and m = "0x3f" and m' = "0xc0"]) (use assms(2) masks d1 j1(1) in simp_all)
  moreover have "put v 0 0x3f 0x80 = p2"
    by (rule put_back [where n = 6 and m = "0x3f" and m' = "0xc0"]) (use assms(3) masks d0 j2(1) in simp_all)
  ultimately show "[put v 12 0xf 0xe0, put v 6 0x3f 0x80, put v 0 0x3f 0x80] = [p0, p1, p2]" by simp
qed

lemma back_4:
  assumes "p0 AND 0xf8 = 0xf0" "p1 AND 0xc0 = 0x80" "p2 AND 0xc0 = 0x80" "p3 AND 0xc0 = 0x80"
  defines "v \<equiv> push_bit 18 (fld p0 0x7) OR push_bit 12 (fld p1 0x3f) OR push_bit 6 (fld p2 0x3f) OR fld p3 0x3f"
  shows "unat v < 2 ^ 21" "[put v 18 0x7 0xf0, put v 12 0x3f 0x80, put v 6 0x3f 0x80, put v 0 0x3f 0x80] = [p0, p1, p2, p3]"
proof -
  define x0 where "x0 = fld p0 0x7"
  define x1 where "x1 = join x0 (fld p1 0x3f)"
  define x2 where "x2 = join x1 (fld p2 0x3f)"
  define x3 where "x3 = join x2 (fld p3 0x3f)"
  have b0: "take_bit 3 x0 = x0" unfolding x0_def by (rule fld_bound)
  note j1 = join_fields [OF conts [of p1] b0, folded x1_def, simplified]
  note b1 = j1(3)
  note j2 = join_fields [OF conts [of p2] b1, folded x2_def, simplified]
  note b2 = j2(3)
  note j3 = join_fields [OF conts [of p3] b2, folded x3_def, simplified]
  note b3 = j3(3)
  have v: "v = x3" unfolding v_def x3_def x2_def x1_def x0_def by (simp only: join_3)
  show "unat v < 2 ^ 21" unfolding v using b3 by (rule take_bit_less)
  have d0: "drop_bit 0 v = x3" by (simp add: v)
  have d1: "drop_bit 6 v = x2"
    using drop_bit_drop_bit [of 6 0 v] d0 j3(2) by simp
  have d2: "drop_bit 12 v = x1"
    using drop_bit_drop_bit [of 6 6 v] d1 j2(2) by simp
  have d3: "drop_bit 18 v = x0"
    using drop_bit_drop_bit [of 6 12 v] d2 j1(2) by simp
  have "put v 18 0x7 0xf0 = p0"
    by (rule put_back [where n = 3 and m = "0x7" and m' = "0xf8"])
      (use assms(1) masks d3 b0 in \<open>simp_all add: x0_def\<close>)
  moreover have "put v 12 0x3f 0x80 = p1"
    by (rule put_back [where n = 6 and m = "0x3f" and m' = "0xc0"]) (use assms(2) masks d2 j1(1) in simp_all)
  moreover have "put v 6 0x3f 0x80 = p2"
    by (rule put_back [where n = 6 and m = "0x3f" and m' = "0xc0"]) (use assms(3) masks d1 j2(1) in simp_all)
  moreover have "put v 0 0x3f 0x80 = p3"
    by (rule put_back [where n = 6 and m = "0x3f" and m' = "0xc0"]) (use assms(4) masks d0 j3(1) in simp_all)
  ultimately show "[put v 18 0x7 0xf0, put v 12 0x3f 0x80, put v 6 0x3f 0x80, put v 0 0x3f 0x80] = [p0, p1, p2, p3]" by simp
qed

lemma back_5:
  assumes "p0 AND 0xfc = 0xf8" "p1 AND 0xc0 = 0x80" "p2 AND 0xc0 = 0x80" "p3 AND 0xc0 = 0x80" "p4 AND 0xc0 = 0x80"
  defines "v \<equiv> push_bit 24 (fld p0 0x3) OR push_bit 18 (fld p1 0x3f) OR push_bit 12 (fld p2 0x3f) OR push_bit 6 (fld p3 0x3f) OR fld p4 0x3f"
  shows "unat v < 2 ^ 26" "[put v 24 0x3 0xf8, put v 18 0x3f 0x80, put v 12 0x3f 0x80, put v 6 0x3f 0x80, put v 0 0x3f 0x80] = [p0, p1, p2, p3, p4]"
proof -
  define x0 where "x0 = fld p0 0x3"
  define x1 where "x1 = join x0 (fld p1 0x3f)"
  define x2 where "x2 = join x1 (fld p2 0x3f)"
  define x3 where "x3 = join x2 (fld p3 0x3f)"
  define x4 where "x4 = join x3 (fld p4 0x3f)"
  have b0: "take_bit 2 x0 = x0" unfolding x0_def by (rule fld_bound)
  note j1 = join_fields [OF conts [of p1] b0, folded x1_def, simplified]
  note b1 = j1(3)
  note j2 = join_fields [OF conts [of p2] b1, folded x2_def, simplified]
  note b2 = j2(3)
  note j3 = join_fields [OF conts [of p3] b2, folded x3_def, simplified]
  note b3 = j3(3)
  note j4 = join_fields [OF conts [of p4] b3, folded x4_def, simplified]
  note b4 = j4(3)
  have v: "v = x4" unfolding v_def x4_def x3_def x2_def x1_def x0_def by (simp only: join_4)
  show "unat v < 2 ^ 26" unfolding v using b4 by (rule take_bit_less)
  have d0: "drop_bit 0 v = x4" by (simp add: v)
  have d1: "drop_bit 6 v = x3"
    using drop_bit_drop_bit [of 6 0 v] d0 j4(2) by simp
  have d2: "drop_bit 12 v = x2"
    using drop_bit_drop_bit [of 6 6 v] d1 j3(2) by simp
  have d3: "drop_bit 18 v = x1"
    using drop_bit_drop_bit [of 6 12 v] d2 j2(2) by simp
  have d4: "drop_bit 24 v = x0"
    using drop_bit_drop_bit [of 6 18 v] d3 j1(2) by simp
  have "put v 24 0x3 0xf8 = p0"
    by (rule put_back [where n = 2 and m = "0x3" and m' = "0xfc"])
      (use assms(1) masks d4 b0 in \<open>simp_all add: x0_def\<close>)
  moreover have "put v 18 0x3f 0x80 = p1"
    by (rule put_back [where n = 6 and m = "0x3f" and m' = "0xc0"]) (use assms(2) masks d3 j1(1) in simp_all)
  moreover have "put v 12 0x3f 0x80 = p2"
    by (rule put_back [where n = 6 and m = "0x3f" and m' = "0xc0"]) (use assms(3) masks d2 j2(1) in simp_all)
  moreover have "put v 6 0x3f 0x80 = p3"
    by (rule put_back [where n = 6 and m = "0x3f" and m' = "0xc0"]) (use assms(4) masks d1 j3(1) in simp_all)
  moreover have "put v 0 0x3f 0x80 = p4"
    by (rule put_back [where n = 6 and m = "0x3f" and m' = "0xc0"]) (use assms(5) masks d0 j4(1) in simp_all)
  ultimately show "[put v 24 0x3 0xf8, put v 18 0x3f 0x80, put v 12 0x3f 0x80, put v 6 0x3f 0x80, put v 0 0x3f 0x80] = [p0, p1, p2, p3, p4]" by simp
qed

lemma back_6:
  assumes "p0 AND 0xfe = 0xfc" "p1 AND 0xc0 = 0x80" "p2 AND 0xc0 = 0x80" "p3 AND 0xc0 = 0x80" "p4 AND 0xc0 = 0x80" "p5 AND 0xc0 = 0x80"
  defines "v \<equiv> push_bit 30 (fld p0 0x1) OR push_bit 24 (fld p1 0x3f) OR push_bit 18 (fld p2 0x3f) OR push_bit 12 (fld p3 0x3f) OR push_bit 6 (fld p4 0x3f) OR fld p5 0x3f"
  shows "unat v < 2 ^ 31" "[put v 30 0x1 0xfc, put v 24 0x3f 0x80, put v 18 0x3f 0x80, put v 12 0x3f 0x80, put v 6 0x3f 0x80, put v 0 0x3f 0x80] = [p0, p1, p2, p3, p4, p5]"
proof -
  define x0 where "x0 = fld p0 0x1"
  define x1 where "x1 = join x0 (fld p1 0x3f)"
  define x2 where "x2 = join x1 (fld p2 0x3f)"
  define x3 where "x3 = join x2 (fld p3 0x3f)"
  define x4 where "x4 = join x3 (fld p4 0x3f)"
  define x5 where "x5 = join x4 (fld p5 0x3f)"
  have b0: "take_bit 1 x0 = x0" unfolding x0_def by (rule fld_bound)
  note j1 = join_fields [OF conts [of p1] b0, folded x1_def, simplified]
  note b1 = j1(3)
  note j2 = join_fields [OF conts [of p2] b1, folded x2_def, simplified]
  note b2 = j2(3)
  note j3 = join_fields [OF conts [of p3] b2, folded x3_def, simplified]
  note b3 = j3(3)
  note j4 = join_fields [OF conts [of p4] b3, folded x4_def, simplified]
  note b4 = j4(3)
  note j5 = join_fields [OF conts [of p5] b4, folded x5_def, simplified]
  note b5 = j5(3)
  have v: "v = x5" unfolding v_def x5_def x4_def x3_def x2_def x1_def x0_def by (simp only: join_5)
  show "unat v < 2 ^ 31" unfolding v using b5 by (rule take_bit_less)
  have d0: "drop_bit 0 v = x5" by (simp add: v)
  have d1: "drop_bit 6 v = x4"
    using drop_bit_drop_bit [of 6 0 v] d0 j5(2) by simp
  have d2: "drop_bit 12 v = x3"
    using drop_bit_drop_bit [of 6 6 v] d1 j4(2) by simp
  have d3: "drop_bit 18 v = x2"
    using drop_bit_drop_bit [of 6 12 v] d2 j3(2) by simp
  have d4: "drop_bit 24 v = x1"
    using drop_bit_drop_bit [of 6 18 v] d3 j2(2) by simp
  have d5: "drop_bit 30 v = x0"
    using drop_bit_drop_bit [of 6 24 v] d4 j1(2) by simp
  have "put v 30 0x1 0xfc = p0"
    by (rule put_back [where n = 1 and m = "0x1" and m' = "0xfe"])
      (use assms(1) masks d5 b0 in \<open>simp_all add: x0_def\<close>)
  moreover have "put v 24 0x3f 0x80 = p1"
    by (rule put_back [where n = 6 and m = "0x3f" and m' = "0xc0"]) (use assms(2) masks d4 j1(1) in simp_all)
  moreover have "put v 18 0x3f 0x80 = p2"
    by (rule put_back [where n = 6 and m = "0x3f" and m' = "0xc0"]) (use assms(3) masks d3 j2(1) in simp_all)
  moreover have "put v 12 0x3f 0x80 = p3"
    by (rule put_back [where n = 6 and m = "0x3f" and m' = "0xc0"]) (use assms(4) masks d2 j3(1) in simp_all)
  moreover have "put v 6 0x3f 0x80 = p4"
    by (rule put_back [where n = 6 and m = "0x3f" and m' = "0xc0"]) (use assms(5) masks d1 j4(1) in simp_all)
  moreover have "put v 0 0x3f 0x80 = p5"
    by (rule put_back [where n = 6 and m = "0x3f" and m' = "0xc0"]) (use assms(6) masks d0 j5(1) in simp_all)
  ultimately show "[put v 30 0x1 0xfc, put v 24 0x3f 0x80, put v 18 0x3f 0x80, put v 12 0x3f 0x80, put v 6 0x3f 0x80, put v 0 0x3f 0x80] = [p0, p1, p2, p3, p4, p5]" by simp
qed

lemma take_explicit:
  fixes p :: "byte list"
  shows
  "1 \<le> length p \<Longrightarrow> take 1 p = [p ! 0]"
  "2 \<le> length p \<Longrightarrow> take 2 p = [p ! 0, p ! 1]"
  "3 \<le> length p \<Longrightarrow> take 3 p = [p ! 0, p ! 1, p ! 2]"
  "4 \<le> length p \<Longrightarrow> take 4 p = [p ! 0, p ! 1, p ! 2, p ! 3]"
  "5 \<le> length p \<Longrightarrow> take 5 p = [p ! 0, p ! 1, p ! 2, p ! 3, p ! 4]"
  "6 \<le> length p \<Longrightarrow> take 6 p = [p ! 0, p ! 1, p ! 2, p ! 3, p ! 4, p ! 5]"
proof -
  have "take 1 p = [p ! 0]" if "1 \<le> length p" for p :: "byte list"
    using that by (cases p) auto
  then show "1 \<le> length p \<Longrightarrow> take 1 p = [p ! 0]"
    "2 \<le> length p \<Longrightarrow> take 2 p = [p ! 0, p ! 1]"
    "3 \<le> length p \<Longrightarrow> take 3 p = [p ! 0, p ! 1, p ! 2]"
    "4 \<le> length p \<Longrightarrow> take 4 p = [p ! 0, p ! 1, p ! 2, p ! 3]"
    "5 \<le> length p \<Longrightarrow> take 5 p = [p ! 0, p ! 1, p ! 2, p ! 3, p ! 4]"
    "6 \<le> length p \<Longrightarrow> take 6 p = [p ! 0, p ! 1, p ! 2, p ! 3, p ! 4, p ! 5]"
    by (simp_all add: numeral_eq_Suc take_Suc_conv_app_nth)
qed

lemma back_1:
  assumes "b AND 0x80 = 0"
  shows "fld b 0x7f < 0x80" "ucast (fld b 0x7f) = b"
proof -
  have u: "unat (fld b 0x7f) = unat b"
    using assms by (simp add: fld_def and_7F_byte and_80_byte)
  then show "fld b 0x7f < 0x80" using assms by (simp add: word_less_nat_alt and_80_byte)
  show "ucast (fld b 0x7f) = b"
    by (rule unsigned_word_eqI [where 'a = nat]) (simp add: unat_ucast_byte u)
qed

lemma getc_writes:
  assumes "UTF8_getc p = Inr (n, v)"
  shows "n \<le> length p \<and> unat v < 2 ^ 31 \<and> UTF8_putc True (int n) v = (int n, take n p)"
proof -
  let ?c = "\<lambda>i. p ! i AND 0xc0 = 0x80"
  have ne: "1 \<le> length p" using assms by (cases p) (auto simp: UTF8_getc_def)
  consider "n = 1" "p ! 0 AND 0x80 = 0" "v = fld (p ! 0) 0x7f"
    | "n = 2" "2 \<le> length p" "p ! 0 AND 0xe0 = 0xc0" "?c 1" "\<not> v < 0x80"
      "v = push_bit 6 (fld (p ! 0) 0x1f) OR fld (p ! 1) 0x3f"
    | "n = 3" "3 \<le> length p" "p ! 0 AND 0xf0 = 0xe0" "?c 1" "?c 2" "\<not> v < 0x800"
      "v = push_bit 12 (fld (p ! 0) 0xf) OR push_bit 6 (fld (p ! 1) 0x3f) OR fld (p ! 2) 0x3f"
    | "n = 4" "4 \<le> length p" "p ! 0 AND 0xf8 = 0xf0" "?c 1" "?c 2" "?c 3" "\<not> v < 0x10000"
      "v = push_bit 18 (fld (p ! 0) 0x7) OR push_bit 12 (fld (p ! 1) 0x3f)
              OR push_bit 6 (fld (p ! 2) 0x3f) OR fld (p ! 3) 0x3f"
    | "n = 5" "5 \<le> length p" "p ! 0 AND 0xfc = 0xf8" "?c 1" "?c 2" "?c 3" "?c 4" "\<not> v < 0x200000"
      "v = push_bit 24 (fld (p ! 0) 0x3) OR push_bit 18 (fld (p ! 1) 0x3f)
              OR push_bit 12 (fld (p ! 2) 0x3f) OR push_bit 6 (fld (p ! 3) 0x3f) OR fld (p ! 4) 0x3f"
    | "n = 6" "6 \<le> length p" "p ! 0 AND 0xfe = 0xfc" "?c 1" "?c 2" "?c 3" "?c 4" "?c 5" "\<not> v < 0x4000000"
      "v = push_bit 30 (fld (p ! 0) 0x1) OR push_bit 24 (fld (p ! 1) 0x3f)
              OR push_bit 18 (fld (p ! 2) 0x3f) OR push_bit 12 (fld (p ! 3) 0x3f)
              OR push_bit 6 (fld (p ! 4) 0x3f) OR fld (p ! 5) 0x3f"
    using assms unfolding UTF8_getc_def Let_def by (auto split: if_split_asm)
  then show ?thesis
  proof cases
    case 1
    then show ?thesis using back_1 [of "p ! 0"] ne take_explicit(1) [of p]
      by (simp add: UTF8_putc_def word_less_nat_alt)
  next
    case 2
    note b = back_2 [OF 2(3,4), folded 2(6)]
    then show ?thesis using 2(1,2,5) take_explicit(2) [OF 2(2)]
      by (simp add: UTF8_putc_def word_less_nat_alt)
  next
    case 3
    note b = back_3 [OF 3(3-5), folded 3(7)]
    then show ?thesis using 3(1,2,6) take_explicit(3) [OF 3(2)]
      by (simp add: UTF8_putc_def word_less_nat_alt)
  next
    case 4
    note b = back_4 [OF 4(3-6), folded 4(8)]
    then show ?thesis using 4(1,2,7) take_explicit(4) [OF 4(2)]
      by (simp add: UTF8_putc_def word_less_nat_alt)
  next
    case 5
    note b = back_5 [OF 5(3-7), folded 5(9)]
    then show ?thesis using 5(1,2,8) take_explicit(5) [OF 5(2)]
      by (simp add: UTF8_putc_def word_less_nat_alt)
  next
    case 6
    note b = back_6 [OF 6(3-8), folded 6(10)]
    then show ?thesis using 6(1,2,9) take_explicit(6) [OF 6(2)]
      by (simp add: UTF8_putc_def word_less_nat_alt)
  qed
qed

section \<open>Properties\<close>

text \<open>
  What the writer stores, the reader reads. For every value below \<open>2 ^ 31\<close> and every buffer
  length, \<open>UTF8_putc\<close> either refuses because the buffer is too short, storing nothing, or stores
  exactly \<open>utf8_size\<close> bytes, from which \<open>UTF8_getc\<close> returns the value whatever follows.
\<close>

theorem UTF8_putc_getc:
  assumes "v < 0x80000000"
  shows "if len < int (utf8_size v) then UTF8_putc True len v = (- 1, [])
    else (\<exists>bs. UTF8_putc True len v = (int (utf8_size v), bs) \<and> length bs = utf8_size v
      \<and> UTF8_getc (bs @ rest) = Inr (utf8_size v, v))"
proof -
  have 1: "UTF8_getc (ucast v # rest) = Inr (1, v)" if "v < 0x80"
    using low7 [OF that] by (simp add: UTF8_getc_def)
  show ?thesis
    using 1 getc_putc_2 [of v rest] getc_putc_3 [of v rest] getc_putc_4 [of v rest]
      getc_putc_5 [of v rest] getc_putc_6 [OF assms, of rest]
    by (auto simp: UTF8_putc_def utf8_size_def Let_def)
qed

theorem UTF8_putc_getc_witness:
  "\<exists>bs. UTF8_putc True 3 0x20ac = (3, bs) \<and> UTF8_getc (bs @ [7]) = Inr (3, 0x20ac)"
proof -
  have "utf8_size 0x20ac = 3" by (simp add: utf8_size_def)
  with UTF8_putc_getc [of "0x20ac" 3 "[7]"] show ?thesis by auto
qed

text \<open>
  C13: the reader accepts only what the writer stores. If \<open>UTF8_getc\<close> accepts \<open>n\<close> bytes as the
  value \<open>v\<close>, then \<open>v\<close> is below \<open>2 ^ 31\<close>, the bytes lie inside the string, and \<open>UTF8_putc\<close> of \<open>v\<close> stores
  exactly these bytes; over-long encodings are never accepted.
\<close>

theorem UTF8_getc_putc:
  assumes "UTF8_getc p = Inr (n, v)"
  shows "n \<le> length p \<and> unat v < 2 ^ 31 \<and> UTF8_putc True (int n) v = (int n, take n p)"
  using assms by (rule getc_writes)

theorem UTF8_getc_putc_witness:
  "UTF8_putc True (int 2) 0xe9 = (int 2, take 2 [0xc3, 0xa9, 1])"
proof -
  have "UTF8_getc [0xc3, 0xa9, 1] = Inr (2, 0xe9)"
    by (simp add: UTF8_getc_def fld_def)
  from UTF8_getc_putc [OF this] show ?thesis by blast
qed

end
