(* ===== verification/Lhash.thy ===== *)
theory Lhash
  imports Buf
begin

text \<open>
  The chained hash table \<open>crypto/lhash/lhash.c\<close>: a table of \<open>num_buckets\<close> chains that
  doubles and halves with the number of items, and never resizes while \<open>lh_doall\<close> walks it.
  A chain is a list of items, so the \<open>LHASH_ITEM **\<close> of the code, which points into a bucket or at
  the \<open>next\<close> field of an item, is a bucket number with a position in its chain. The hash and
  comparison functions are the client's; the locale \<open>hash_cmp\<close> is what the code asks of them.
  A callback of \<open>lh_doall\<close> acts on a state of its own and leaves the table alone.
\<close>

section \<open>The code\<close>

record 'd lhash_item =
  item_data :: 'd
  item_hash :: u32

record 'd lhash =
  num_items :: nat
  buckets :: "'d lhash_item list list"
  num_buckets :: nat
  callback_depth :: u32
  lh_comp :: "'d \<Rightarrow> 'd \<Rightarrow> int"
  lh_hash :: "'d \<Rightarrow> u32"

definition kMinNumBuckets :: nat where "kMinNumBuckets = 16"
definition kMaxAverageChainLength :: nat where "kMaxAverageChainLength = 2"
definition kMinAverageChainLength :: nat where "kMinAverageChainLength = 1"

text \<open>\<open>sizeof(_LHASH)\<close> is 48, \<open>sizeof(LHASH_ITEM)\<close> is 24 and a pointer has 8 bytes.\<close>

definition lh_new :: "allocator \<Rightarrow> ('d \<Rightarrow> u32) \<Rightarrow> ('d \<Rightarrow> 'd \<Rightarrow> int) \<Rightarrow> 'd lhash option" where
  "lh_new al hash cmp =
     (if \<not> mallocs al 48 then None
      else if \<not> mallocs al (8 * kMinNumBuckets) then None
      else Some \<lparr>num_items = 0, buckets = replicate kMinNumBuckets [],
                 num_buckets = kMinNumBuckets, callback_depth = 0,
                 lh_comp = cmp, lh_hash = hash\<rparr>)"

definition lh_num_items :: "'d lhash \<Rightarrow> nat" where
  "lh_num_items lh = num_items lh"

text \<open>The loop over a chain: how far it goes before it meets an equal item or the end.\<close>

fun chain_pos :: "('d \<Rightarrow> 'd \<Rightarrow> int) \<Rightarrow> 'd lhash_item list \<Rightarrow> 'd \<Rightarrow> nat" where
  "chain_pos cmp [] data = 0"
| "chain_pos cmp (cur # chain) data =
     (if cmp (item_data cur) data = 0 then 0 else Suc (chain_pos cmp chain data))"

definition get_next_ptr_and_hash :: "'d lhash \<Rightarrow> 'd \<Rightarrow> u32 \<times> nat \<times> nat" where
  "get_next_ptr_and_hash lh data =
     (let h = lh_hash lh data; b = unat h mod num_buckets lh
      in (h, b, chain_pos (lh_comp lh) (buckets lh ! b) data))"

definition lh_retrieve :: "'d lhash \<Rightarrow> 'd \<Rightarrow> 'd option" where
  "lh_retrieve lh data =
     (case get_next_ptr_and_hash lh data of (h, b, p) \<Rightarrow>
        if p = length (buckets lh ! b) then None
        else Some (item_data (buckets lh ! b ! p)))"

text \<open>One round of the inner loop of \<open>lh_rebucket\<close>.\<close>

definition move_item :: "nat \<Rightarrow> 'd lhash_item list list \<Rightarrow> 'd lhash_item \<Rightarrow> 'd lhash_item list list" where
  "move_item n new_buckets cur =
     (let new_bucket = unat (item_hash cur) mod n
      in new_buckets[new_bucket := cur # new_buckets ! new_bucket])"

definition lh_rebucket :: "allocator \<Rightarrow> 'd lhash \<Rightarrow> nat \<Rightarrow> 'd lhash" where
  "lh_rebucket al lh new_num_buckets =
     (let alloc_size = sz (8 * new_num_buckets) in
      if alloc_size div 8 \<noteq> new_num_buckets then lh
      else if \<not> mallocs al alloc_size then lh
      else lh\<lparr>num_buckets := new_num_buckets,
              buckets := foldl (move_item new_num_buckets) (replicate (usable alloc_size div 8) [])
                           (concat (buckets lh))\<rparr>)"

definition lh_maybe_resize :: "allocator \<Rightarrow> 'd lhash \<Rightarrow> 'd lhash" where
  "lh_maybe_resize al lh =
     (if 0 < callback_depth lh then lh
      else
        let avg_chain_length = num_items lh div num_buckets lh in
        if kMaxAverageChainLength < avg_chain_length then
          let new_num_buckets = sz (num_buckets lh * 2) in
          if num_buckets lh < new_num_buckets then lh_rebucket al lh new_num_buckets else lh
        else if avg_chain_length < kMinAverageChainLength \<and> kMinNumBuckets < num_buckets lh then
          let new_num_buckets = num_buckets lh div 2 in
          lh_rebucket al lh (if new_num_buckets < kMinNumBuckets then kMinNumBuckets else new_num_buckets)
        else lh)"

text \<open>The result of \<open>lh_insert\<close>: its return value, \<open>*old_data\<close> and the table.\<close>

definition lh_insert :: "allocator \<Rightarrow> 'd lhash \<Rightarrow> 'd \<Rightarrow> bool \<times> 'd option \<times> 'd lhash" where
  "lh_insert al lh data =
     (case get_next_ptr_and_hash lh data of (h, b, p) \<Rightarrow>
        let chain = buckets lh ! b in
        if p \<noteq> length chain then
          (True, Some (item_data (chain ! p)),
           lh\<lparr>buckets := (buckets lh)[b := chain[p := (chain ! p)\<lparr>item_data := data\<rparr>]]\<rparr>)
        else if \<not> mallocs al 24 then (False, None, lh)
        else
          (True, None,
           lh_maybe_resize al
             (lh\<lparr>buckets := (buckets lh)[b := chain @ [\<lparr>item_data = data, item_hash = h\<rparr>]],
                 num_items := sz (num_items lh + 1)\<rparr>)))"

definition lh_delete :: "allocator \<Rightarrow> 'd lhash \<Rightarrow> 'd \<Rightarrow> 'd option \<times> 'd lhash" where
  "lh_delete al lh data =
     (case get_next_ptr_and_hash lh data of (h, b, p) \<Rightarrow>
        let chain = buckets lh ! b in
        if p = length chain then (None, lh)
        else
          (Some (item_data (chain ! p)),
           lh_maybe_resize al
             (lh\<lparr>buckets := (buckets lh)[b := take p chain @ drop (Suc p) chain],
                 num_items := sz (num_items lh + (SIZE_MODULUS - 1))\<rparr>)))"

text \<open>\<open>callback_depth\<close> saturates at \<open>UINT_MAX\<close>, the word \<open>- 1\<close>.\<close>

definition lh_doall_internal ::
  "allocator \<Rightarrow> 'd lhash option \<Rightarrow> ('d \<Rightarrow> 's \<Rightarrow> 's) \<Rightarrow> 's \<Rightarrow> 'd lhash option \<times> 's" where
  "lh_doall_internal al lh_opt func s =
     (case lh_opt of None \<Rightarrow> (None, s)
      | Some lh \<Rightarrow>
          let lh1 = (if callback_depth lh < - 1
                     then lh\<lparr>callback_depth := callback_depth lh + 1\<rparr> else lh);
              s' = foldl (\<lambda>s cur. func (item_data cur) s) s (concat (buckets lh1));
              lh2 = (if callback_depth lh1 < - 1
                     then lh1\<lparr>callback_depth := callback_depth lh1 - 1\<rparr> else lh1)
          in (Some (lh_maybe_resize al lh2), s'))"

definition lh_doall :: "allocator \<Rightarrow> 'd lhash option \<Rightarrow> ('d \<Rightarrow> 's \<Rightarrow> 's) \<Rightarrow> 's \<Rightarrow> 'd lhash option \<times> 's" where
  "lh_doall al lh func s = lh_doall_internal al lh func s"

definition lh_doall_arg ::
  "allocator \<Rightarrow> 'd lhash option \<Rightarrow> ('d \<Rightarrow> 'a \<Rightarrow> 's \<Rightarrow> 's) \<Rightarrow> 'a \<Rightarrow> 's \<Rightarrow> 'd lhash option \<times> 's" where
  "lh_doall_arg al lh func arg s = lh_doall_internal al lh (\<lambda>d. func d arg) s"

definition lh_strhash :: "byte list option \<Rightarrow> u32" where
  "lh_strhash c = (case c of None \<Rightarrow> 0 | Some str \<Rightarrow> OPENSSL_hash32 (take (c_strlen str) str))"

section \<open>The invariant\<close>

definition unequal :: "('d \<Rightarrow> 'd \<Rightarrow> int) \<Rightarrow> 'd lhash_item \<Rightarrow> 'd lhash_item \<Rightarrow> bool" where
  "unequal cmp x y \<longleftrightarrow> cmp (item_data x) (item_data y) \<noteq> 0"

definition bucket_ok :: "'d lhash \<Rightarrow> nat \<Rightarrow> 'd lhash_item list \<Rightarrow> bool" where
  "bucket_ok lh b chain \<longleftrightarrow>
     (\<forall>it \<in> set chain. item_hash it = lh_hash lh (item_data it)
        \<and> unat (lh_hash lh (item_data it)) mod num_buckets lh = b)
     \<and> sorted_wrt (unequal (lh_comp lh)) chain"

definition lh_ok :: "'d lhash \<Rightarrow> bool" where
  "lh_ok lh \<longleftrightarrow>
     length (buckets lh) = num_buckets lh \<and> kMinNumBuckets \<le> num_buckets lh
     \<and> block_size (8 * num_buckets lh)
     \<and> num_items lh = sz (length (concat (buckets lh)))
     \<and> (\<forall>b < num_buckets lh. bucket_ok lh b (buckets lh ! b))"

text \<open>A well-formed table whose functions are \<open>hash\<close> and \<open>cmp\<close>.\<close>

definition lh_valid :: "('d \<Rightarrow> u32) \<Rightarrow> ('d \<Rightarrow> 'd \<Rightarrow> int) \<Rightarrow> 'd lhash \<Rightarrow> bool" where
  "lh_valid hash cmp lh \<longleftrightarrow> lh_ok lh \<and> lh_hash lh = hash \<and> lh_comp lh = cmp"

text \<open>What the table holds.\<close>

definition lh_set :: "'d lhash \<Rightarrow> 'd set" where
  "lh_set lh = item_data ` set (concat (buckets lh))"

lemma lh_okD:
  assumes "lh_ok lh"
  shows "length (buckets lh) = num_buckets lh" "0 < num_buckets lh" "block_size (8 * num_buckets lh)"
    "kMinNumBuckets \<le> num_buckets lh"
    "num_items lh = sz (length (concat (buckets lh)))"
    "b < num_buckets lh \<Longrightarrow> bucket_ok lh b (buckets lh ! b)"
  using assms by (auto simp: lh_ok_def kMinNumBuckets_def)

section \<open>Chains and bucket arrays\<close>

lemma chain_pos_le: "chain_pos cmp chain d \<le> length chain"
  by (induction chain) auto

lemma chain_pos_before:
  "i < chain_pos cmp chain d \<Longrightarrow> cmp (item_data (chain ! i)) d \<noteq> 0"
  by (induction chain arbitrary: i) (auto simp: less_Suc_eq_0_disj split: if_splits)

lemma chain_pos_hit:
  "chain_pos cmp chain d < length chain \<Longrightarrow> cmp (item_data (chain ! chain_pos cmp chain d)) d = 0"
  by (induction chain) auto

lemma chain_pos_miss:
  assumes "chain_pos cmp chain d = length chain" and "it \<in> set chain"
  shows "cmp (item_data it) d \<noteq> 0"
  using assms by (metis chain_pos_before in_set_conv_nth)

lemma chain_pos_split:
  assumes "chain_pos cmp chain d \<noteq> length chain"
  obtains pre it post where "chain = pre @ it # post" "length pre = chain_pos cmp chain d"
    "cmp (item_data it) d = 0"
proof -
  have lt: "chain_pos cmp chain d < length chain"
    using assms chain_pos_le [of cmp chain d] by simp
  show thesis
    by (rule that [of "take (chain_pos cmp chain d) chain" "chain ! chain_pos cmp chain d"
          "drop (Suc (chain_pos cmp chain d)) chain"])
      (use lt chain_pos_hit [OF lt] in \<open>simp_all add: id_take_nth_drop [symmetric]\<close>)
qed

lemma length_concat_update:
  "b < length bs \<Longrightarrow> length (concat (bs[b := c])) + length (bs ! b) = length (concat bs) + length c"
  by (induction bs arbitrary: b) (auto simp: less_Suc_eq_0_disj)

lemma sorted_wrt_concat:
  assumes "\<And>i. i < length bs \<Longrightarrow> sorted_wrt R (bs ! i)"
    and "\<And>i j x y. i < j \<Longrightarrow> j < length bs \<Longrightarrow> x \<in> set (bs ! i) \<Longrightarrow> y \<in> set (bs ! j) \<Longrightarrow> R x y"
  shows "sorted_wrt R (concat bs)"
  using assms
proof (induction bs)
  case Nil
  then show ?case by simp
next
  case (Cons c bs)
  have "sorted_wrt R c" using Cons.prems(1) [of 0] by simp
  moreover have "sorted_wrt R (concat bs)"
  proof (rule Cons.IH)
    show "\<And>i. i < length bs \<Longrightarrow> sorted_wrt R (bs ! i)" using Cons.prems(1) [of "Suc _"] by simp
    show "\<And>i j x y. i < j \<Longrightarrow> j < length bs \<Longrightarrow> x \<in> set (bs ! i) \<Longrightarrow> y \<in> set (bs ! j) \<Longrightarrow> R x y"
      using Cons.prems(2) [of "Suc _" "Suc _"] by simp
  qed
  moreover have "R x y" if "x \<in> set c" "y \<in> set (concat bs)" for x y
    using that Cons.prems(2) [of 0 "Suc _" x y] by (auto simp: in_set_conv_nth [of _ bs])
  ultimately show ?case by (simp add: sorted_wrt_append)
qed

subsection \<open>Redistribution\<close>

lemma length_move_items [simp]: "length (foldl (move_item n) nb its) = length nb"
  by (induction its arbitrary: nb) (auto simp: move_item_def Let_def)

lemma nth_move_items:
  assumes "length nb = n" and "j < n"
  shows "foldl (move_item n) nb its ! j
    = rev (filter (\<lambda>it. unat (item_hash it) mod n = j) its) @ nb ! j"
  using assms
  by (induction its arbitrary: nb) (auto simp: move_item_def Let_def nth_list_update)

lemma length_concat_move_items:
  assumes "length nb = n" and "0 < n"
  shows "length (concat (foldl (move_item n) nb its)) = length its + length (concat nb)"
  using assms
proof (induction its arbitrary: nb)
  case Nil
  then show ?case by simp
next
  case (Cons it its)
  have "length (concat (move_item n nb it)) = Suc (length (concat nb))"
    using length_concat_update [of "unat (item_hash it) mod n" nb
        "it # nb ! (unat (item_hash it) mod n)"] Cons.prems
    by (simp add: move_item_def Let_def)
  moreover have "length (move_item n nb it) = n" using Cons.prems by (simp add: move_item_def Let_def)
  ultimately show ?case using Cons.IH [of "move_item n nb it"] Cons.prems by simp
qed

lemma set_concat_move_items:
  assumes "0 < n"
  shows "set (concat (foldl (move_item n) (replicate n []) its)) = set its"
proof -
  let ?nb = "foldl (move_item n) (replicate n []) its"
  have nth: "?nb ! j = rev (filter (\<lambda>it. unat (item_hash it) mod n = j) its)" if "j < n" for j
    using nth_move_items [of "replicate n []" n j its] that by simp
  have "x \<in> set (concat ?nb) \<longleftrightarrow> (\<exists>j < n. x \<in> set (?nb ! j))" for x
    by (auto simp: in_set_conv_nth [of _ ?nb] Bex_def)
  also have "\<dots> x \<longleftrightarrow> x \<in> set its" for x
    using assms by (auto simp: nth intro: exI [of _ "unat (item_hash x) mod n"])
  finally show ?thesis by blast
qed

section \<open>The reference\<close>

text \<open>
  What a client may assume: a list of pairwise unequal elements, searched from the front. The
  operations of the table and of the list give the same answers, one by one.
\<close>

datatype 'd lh_op = Retrieve 'd | Insert 'd | Delete 'd | NumItems

datatype 'd lh_out = OutData "'d option" | OutInsert bool "'d option" | OutNum nat

fun lh_step :: "allocator \<Rightarrow> 'd lh_op \<Rightarrow> 'd lhash \<Rightarrow> 'd lh_out \<times> 'd lhash" where
  "lh_step al (Retrieve d) lh = (OutData (lh_retrieve lh d), lh)"
| "lh_step al (Insert d) lh = (case lh_insert al lh d of (ok, old, lh') \<Rightarrow> (OutInsert ok old, lh'))"
| "lh_step al (Delete d) lh = (case lh_delete al lh d of (old, lh') \<Rightarrow> (OutData old, lh'))"
| "lh_step al NumItems lh = (OutNum (lh_num_items lh), lh)"

fun lh_run :: "(allocator \<times> 'd lh_op) list \<Rightarrow> 'd lhash \<Rightarrow> 'd lh_out list" where
  "lh_run [] lh = []"
| "lh_run ((al, opn) # ops) lh = (case lh_step al opn lh of (out, lh') \<Rightarrow> out # lh_run ops lh')"

fun lh_after :: "(allocator \<times> 'd lh_op) list \<Rightarrow> 'd lhash \<Rightarrow> 'd lhash" where
  "lh_after [] lh = lh"
| "lh_after ((al, opn) # ops) lh = lh_after ops (snd (lh_step al opn lh))"

text \<open>An allocator that serves every request for a block that can exist.\<close>

definition grants_blocks :: "allocator \<Rightarrow> bool" where
  "grants_blocks al \<longleftrightarrow> (\<forall>n. block_size n \<longrightarrow> mallocs al n)"

fun ref_step :: "('d \<Rightarrow> 'd \<Rightarrow> int) \<Rightarrow> allocator \<Rightarrow> 'd lh_op \<Rightarrow> 'd list \<Rightarrow> 'd lh_out \<times> 'd list" where
  "ref_step cmp al (Retrieve d) xs = (OutData (find (\<lambda>x. cmp x d = 0) xs), xs)"
| "ref_step cmp al (Insert d) xs =
     (case find (\<lambda>x. cmp x d = 0) xs of
        Some old \<Rightarrow> (OutInsert True (Some old), d # filter (\<lambda>x. cmp x d \<noteq> 0) xs)
      | None \<Rightarrow> if mallocs al 24 then (OutInsert True None, d # xs) else (OutInsert False None, xs))"
| "ref_step cmp al (Delete d) xs =
     (OutData (find (\<lambda>x. cmp x d = 0) xs), filter (\<lambda>x. cmp x d \<noteq> 0) xs)"
| "ref_step cmp al NumItems xs = (OutNum (sz (length xs)), xs)"

fun ref_run :: "('d \<Rightarrow> 'd \<Rightarrow> int) \<Rightarrow> (allocator \<times> 'd lh_op) list \<Rightarrow> 'd list \<Rightarrow> 'd lh_out list" where
  "ref_run cmp [] xs = []"
| "ref_run cmp ((al, opn) # ops) xs = (case ref_step cmp al opn xs of (out, xs') \<Rightarrow> out # ref_run cmp ops xs')"

section \<open>The contract of the client's functions\<close>

text \<open>
  The comparison function decides an equivalence and equal elements have equal hashes. Under
  this contract the table is a finite set of pairwise unequal elements.
\<close>

locale hash_cmp =
  fixes hash :: "'d \<Rightarrow> u32"
    and cmp :: "'d \<Rightarrow> 'd \<Rightarrow> int"
  assumes cmp_refl: "cmp x x = 0"
    and cmp_sym: "cmp x y = 0 \<Longrightarrow> cmp y x = 0"
    and cmp_trans: "cmp x y = 0 \<Longrightarrow> cmp y z = 0 \<Longrightarrow> cmp x z = 0"
    and hash_eq: "cmp x y = 0 \<Longrightarrow> hash x = hash y"
begin

lemma cmp_commute: "cmp x y = 0 \<longleftrightarrow> cmp y x = 0"
  using cmp_sym by blast

lemma unequal_sym: "unequal cmp x y \<longleftrightarrow> unequal cmp y x"
  using cmp_sym by (auto simp: unequal_def)

abbreviation valid :: "'d lhash \<Rightarrow> bool" where
  "valid lh \<equiv> lh_valid hash cmp lh"

lemma validD:
  assumes "valid lh"
  shows "lh_ok lh" "lh_hash lh = hash" "lh_comp lh = cmp"
  using assms by (auto simp: lh_valid_def)

lemma bucket_less: "valid lh \<Longrightarrow> unat (h :: u32) mod num_buckets lh < length (buckets lh)"
  using lh_okD(1,2) [OF validD(1)] by simp

lemma valid_bucket:
  assumes "valid lh" and "b < num_buckets lh" and "it \<in> set (buckets lh ! b)"
  shows "item_hash it = hash (item_data it)" "unat (hash (item_data it)) mod num_buckets lh = b"
  using lh_okD(6) [OF validD(1), OF assms(1,2)] assms(3) validD(2) [OF assms(1)]
  by (auto simp: bucket_ok_def)

text \<open>An element lies in the bucket of its hash.\<close>

lemma mem_lh_set:
  assumes "valid lh"
  shows "x \<in> lh_set lh \<longleftrightarrow> x \<in> item_data ` set (buckets lh ! (unat (hash x) mod num_buckets lh))"
proof -
  have len: "length (buckets lh) = num_buckets lh"
    using assms by (simp add: lh_okD validD)
  show ?thesis
  proof
    assume "x \<in> lh_set lh"
    then obtain b it where "b < num_buckets lh" "it \<in> set (buckets lh ! b)" "x = item_data it"
      by (auto simp: lh_set_def in_set_conv_nth [of _ "buckets lh"] len)
    with valid_bucket(2) [OF assms]
    show "x \<in> item_data ` set (buckets lh ! (unat (hash x) mod num_buckets lh))" by auto
  next
    assume "x \<in> item_data ` set (buckets lh ! (unat (hash x) mod num_buckets lh))"
    then show "x \<in> lh_set lh"
      using nth_mem [OF bucket_less [OF assms, of "hash x"]] by (auto simp: lh_set_def)
  qed
qed

lemma valid_all_unequal:
  assumes "valid lh"
  shows "sorted_wrt (unequal cmp) (concat (buckets lh))"
proof (rule sorted_wrt_concat)
  have len: "length (buckets lh) = num_buckets lh"
    using assms by (simp add: lh_okD validD)
  show "sorted_wrt (unequal cmp) (buckets lh ! i)" if "i < length (buckets lh)" for i
    using lh_okD(6) [OF validD(1), OF assms, of i] that len validD(3) [OF assms]
    by (simp add: bucket_ok_def)
  show "unequal cmp x y" if "i < j" "j < length (buckets lh)" "x \<in> set (buckets lh ! i)"
    "y \<in> set (buckets lh ! j)" for i j x y
  proof -
    have "hash (item_data x) \<noteq> hash (item_data y)"
      using valid_bucket(2) [OF assms, of i x] valid_bucket(2) [OF assms, of j y] that len by auto
    then show ?thesis using hash_eq by (auto simp: unequal_def)
  qed
qed

lemma distinct_data: "sorted_wrt (unequal cmp) its \<Longrightarrow> distinct (map item_data its)"
  by (induction its) (auto simp: unequal_def cmp_refl)

lemma unequal_unique:
  assumes "sorted_wrt (unequal cmp) its" and "x \<in> set its" and "y \<in> set its"
    and "cmp (item_data x) (item_data y) = 0"
  shows "x = y"
  using assms by (induction its) (auto simp: unequal_def cmp_commute)

lemma lh_set_unique:
  assumes "valid lh" and "x \<in> lh_set lh" and "y \<in> lh_set lh" and "cmp x y = 0"
  shows "x = y"
  using unequal_unique [OF valid_all_unequal [OF assms(1)]] assms(2-) by (auto simp: lh_set_def)

lemma card_lh_set:
  assumes "valid lh"
  shows "lh_num_items lh = sz (card (lh_set lh))"
proof -
  have "card (lh_set lh) = length (concat (buckets lh))"
    using distinct_card [OF distinct_data [OF valid_all_unequal [OF assms]]]
    by (simp add: lh_set_def)
  then show ?thesis using lh_okD(5) [OF validD(1), OF assms] by (simp add: lh_num_items_def)
qed

subsection \<open>Lookup\<close>

lemma lh_retrieve_iff:
  assumes "valid lh"
  shows "lh_retrieve lh d = Some x \<longleftrightarrow> x \<in> lh_set lh \<and> cmp x d = 0"
proof -
  let ?b = "unat (hash d) mod num_buckets lh"
  let ?c = "buckets lh ! ?b"
  let ?p = "chain_pos cmp ?c d"
  have r: "lh_retrieve lh d = (if ?p = length ?c then None else Some (item_data (?c ! ?p)))"
    using validD [OF assms] by (simp add: lh_retrieve_def get_next_ptr_and_hash_def Let_def)
  have same: "x \<in> lh_set lh \<longleftrightarrow> x \<in> item_data ` set ?c" if "cmp x d = 0" for x
    using mem_lh_set [OF assms, of x] hash_eq [OF that] by simp
  show ?thesis
  proof (cases "?p = length ?c")
    case True
    then show ?thesis using r same chain_pos_miss [OF True] by auto
  next
    case False
    then obtain pre it post where sp: "?c = pre @ it # post" "length pre = ?p" "cmp (item_data it) d = 0"
      by (rule chain_pos_split)
    have it: "lh_retrieve lh d = Some (item_data it)" using r False sp(1,2) by (metis nth_append_length)
    have "item_data it \<in> lh_set lh" using same [OF sp(3)] sp(1) by simp
    moreover have "cmp (item_data it) x = 0" if "cmp x d = 0"
      using cmp_trans [OF sp(3) cmp_sym [OF that]] .
    ultimately have "x \<in> lh_set lh \<and> cmp x d = 0 \<longleftrightarrow> item_data it = x"
      using sp(3) lh_set_unique [OF assms, of "item_data it" x] by blast
    then show ?thesis using it by simp
  qed
qed

lemma lh_retrieve_None_iff:
  assumes "valid lh"
  shows "lh_retrieve lh d = None \<longleftrightarrow> (\<forall>x \<in> lh_set lh. cmp x d \<noteq> 0)"
  using lh_retrieve_iff [OF assms, of d] by (metis not_None_eq)

subsection \<open>Updates\<close>

lemma valid_set_bucket:
  assumes "valid lh" and "b < num_buckets lh" and "bucket_ok lh b c"
    and "k = sz (length (concat ((buckets lh)[b := c])))"
  shows "valid (lh\<lparr>buckets := (buckets lh)[b := c], num_items := k\<rparr>)"
  using assms by (auto simp: lh_valid_def lh_ok_def bucket_ok_def nth_list_update)

text \<open>Replacing one chain changes membership for the elements of that bucket only.\<close>

lemma mem_set_bucket:
  assumes "valid lh" and "b < num_buckets lh"
    and "valid (lh\<lparr>buckets := (buckets lh)[b := c], num_items := k\<rparr>)"
  shows "x \<in> lh_set (lh\<lparr>buckets := (buckets lh)[b := c], num_items := k\<rparr>) \<longleftrightarrow>
    (if unat (hash x) mod num_buckets lh = b then x \<in> item_data ` set c else x \<in> lh_set lh)"
  using mem_lh_set [OF assms(3), of x] mem_lh_set [OF assms(1), of x] assms(2)
    lh_okD(1) [OF validD(1) [OF assms(1)]]
  by auto

lemma valid_rebucket:
  assumes "valid lh" and "kMinNumBuckets \<le> n" and "8 * n + 8 < SIZE_MODULUS"
  shows "valid (lh_rebucket al lh n)" "lh_set (lh_rebucket al lh n) = lh_set lh"
proof -
  let ?nb = "foldl (move_item n) (replicate n []) (concat (buckets lh))"
  let ?lh = "lh\<lparr>num_buckets := n, buckets := ?nb\<rparr>"
  have n: "0 < n" using assms(2) by (simp add: kMinNumBuckets_def)
  have set: "set (concat ?nb) = set (concat (buckets lh))" by (rule set_concat_move_items [OF n])
  have "bucket_ok ?lh b (?nb ! b)" if b: "b < n" for b
  proof -
    have nth: "?nb ! b = rev (filter (\<lambda>it. unat (item_hash it) mod n = b) (concat (buckets lh)))"
      using nth_move_items [of "replicate n []" n b] b by simp
    have "sorted_wrt (unequal cmp) (?nb ! b)"
      unfolding nth sorted_wrt_rev using valid_all_unequal [OF assms(1)] unequal_sym
      by (simp add: sorted_wrt_filter)
    moreover have "item_hash it = hash (item_data it)" if "it \<in> set (concat (buckets lh))" for it
      using that valid_bucket(1) [OF assms(1)] lh_okD(1) [OF validD(1), OF assms(1)]
      by (auto simp: in_set_conv_nth [of _ "buckets lh"])
    ultimately show ?thesis using validD [OF assms(1)] by (force simp: bucket_ok_def nth)
  qed
  moreover have "length (concat ?nb) = length (concat (buckets lh))"
    using length_concat_move_items [of "replicate n []" n "concat (buckets lh)"] n by simp
  ultimately have v: "valid ?lh" if "block_size (8 * n)" using assms n that by (simp add: lh_valid_def lh_ok_def)
  have "lh_rebucket al lh n = (if mallocs al (8 * n) then ?lh else lh)"
    using assms(3) by (simp add: lh_rebucket_def)
  then show "valid (lh_rebucket al lh n)" "lh_set (lh_rebucket al lh n) = lh_set lh"
    using assms(1) set v mallocs_block_size [OF _ assms(3), of al] by (auto simp: lh_set_def)
qed

lemma valid_maybe_resize:
  assumes "valid lh"
  shows "valid (lh_maybe_resize al lh)" "lh_set (lh_maybe_resize al lh) = lh_set lh"
proof -
  have n: "kMinNumBuckets \<le> num_buckets lh" "8 * (num_buckets lh * 2) + 8 < SIZE_MODULUS"
    using assms block_size_double [OF lh_okD(3) [OF validD(1) [OF assms]]] by (simp_all add: lh_okD validD)
  then have "sz (num_buckets lh * 2) = num_buckets lh * 2" "8 * num_buckets lh + 8 < SIZE_MODULUS"
    "8 * (num_buckets lh div 2) + 8 < SIZE_MODULUS" "8 * kMinNumBuckets + 8 < SIZE_MODULUS"
    by (simp_all add: kMinNumBuckets_def)
  show "valid (lh_maybe_resize al lh)" "lh_set (lh_maybe_resize al lh) = lh_set lh"
    using assms n valid_rebucket [OF assms, of _ al]
    by (auto simp: lh_maybe_resize_def Let_def)
qed

text \<open>The chain an element belongs to.\<close>

abbreviation bkt :: "'d lhash \<Rightarrow> 'd \<Rightarrow> nat" where
  "bkt lh d \<equiv> unat (hash d) mod num_buckets lh"

abbreviation chain :: "'d lhash \<Rightarrow> 'd \<Rightarrow> 'd lhash_item list" where
  "chain lh d \<equiv> buckets lh ! bkt lh d"

lemma chain_facts:
  assumes "valid lh"
  shows "get_next_ptr_and_hash lh d = (hash d, bkt lh d, chain_pos cmp (chain lh d) d)"
    "bkt lh d < num_buckets lh" "bkt lh d < length (buckets lh)" "bucket_ok lh (bkt lh d) (chain lh d)"
  using validD [OF assms] lh_okD [OF validD(1) [OF assms]]
  by (simp_all add: get_next_ptr_and_hash_def Let_def)

lemma same_chain:
  assumes "valid lh" and "cmp x d = 0"
  shows "bkt lh x = bkt lh d"
  using hash_eq [OF assms(2)] by simp

lemma lh_retrieve_chain:
  assumes "valid lh"
  shows "lh_retrieve lh d = (let c = chain lh d; p = chain_pos cmp c d in
    if p = length c then None else Some (item_data (c ! p)))"
  by (simp add: lh_retrieve_def chain_facts [OF assms] Let_def)

text \<open>A chain in which the element is present, cut at that item.\<close>

lemma chain_present:
  assumes "valid lh" and "chain_pos cmp (chain lh d) d \<noteq> length (chain lh d)"
  obtains pre it post where "chain lh d = pre @ it # post" "length pre = chain_pos cmp (chain lh d) d"
    "cmp (item_data it) d = 0" "\<And>y. y \<in> set pre \<union> set post \<Longrightarrow> cmp (item_data y) d \<noteq> 0"
proof -
  obtain pre it post where sp: "chain lh d = pre @ it # post"
    "length pre = chain_pos cmp (chain lh d) d" "cmp (item_data it) d = 0"
    using chain_pos_split [OF assms(2)] by metis
  have "cmp (item_data y) (item_data it) \<noteq> 0" if "y \<in> set pre \<union> set post" for y
    using that chain_facts(4) [OF assms(1), of d] sp(1) cmp_commute validD(3) [OF assms(1)]
    by (auto simp: bucket_ok_def sorted_wrt_append unequal_def)
  then show thesis using that [OF sp] cmp_trans [OF _ cmp_sym [OF sp(3)]] by blast
qed

lemma insert_fresh:
  assumes "valid lh" and "chain_pos cmp (chain lh d) d = length (chain lh d)"
    and "lh' = lh\<lparr>buckets := (buckets lh)[bkt lh d := chain lh d @ [\<lparr>item_data = d, item_hash = hash d\<rparr>]],
                  num_items := sz (num_items lh + 1)\<rparr>"
  shows "valid lh'" "lh_set lh' = insert d {x \<in> lh_set lh. cmp x d \<noteq> 0}"
proof -
  let ?c = "chain lh d @ [\<lparr>item_data = d, item_hash = hash d\<rparr>]"
  have miss: "cmp (item_data it) d \<noteq> 0" if "it \<in> set (chain lh d)" for it
    using chain_pos_miss [OF assms(2) that] .
  have "bucket_ok lh (bkt lh d) ?c"
    using chain_facts(4) [OF assms(1), of d] miss validD [OF assms(1)]
    by (auto simp: bucket_ok_def sorted_wrt_append unequal_def)
  moreover have "sz (num_items lh + 1) = sz (length (concat ((buckets lh)[bkt lh d := ?c])))"
    using length_concat_update [OF chain_facts(3) [OF assms(1)], of d ?c]
      lh_okD(5) [OF validD(1), OF assms(1)]
    by (simp add: sz_def mod_Suc_eq)
  ultimately show v: "valid lh'"
    unfolding assms(3) by (rule valid_set_bucket [OF assms(1) chain_facts(2) [OF assms(1)]])
  have "x \<in> lh_set lh' \<longleftrightarrow> x = d \<or> x \<in> lh_set lh \<and> cmp x d \<noteq> 0" for x
    using mem_set_bucket [OF assms(1) chain_facts(2) [OF assms(1)] v [unfolded assms(3)], of x]
      mem_lh_set [OF assms(1), of x] same_chain [OF assms(1), of x d] miss assms(3)
    by auto
  then show "lh_set lh' = insert d {x \<in> lh_set lh. cmp x d \<noteq> 0}" by blast
qed

lemma insert_replace:
  assumes "valid lh" and "chain_pos cmp (chain lh d) d = p" and "p \<noteq> length (chain lh d)"
    and "lh' = lh\<lparr>buckets := (buckets lh)[bkt lh d :=
                    (chain lh d)[p := (chain lh d ! p)\<lparr>item_data := d\<rparr>]]\<rparr>"
  shows "valid lh'" "lh_set lh' = insert d {x \<in> lh_set lh. cmp x d \<noteq> 0}"
proof -
  obtain pre it post where sp: "chain lh d = pre @ it # post" "length pre = p"
    "cmp (item_data it) d = 0" "\<And>y. y \<in> set pre \<union> set post \<Longrightarrow> cmp (item_data y) d \<noteq> 0"
    using chain_present [OF assms(1), of d] assms(2,3) by metis
  let ?c = "pre @ it\<lparr>item_data := d\<rparr> # post"
  let ?lh = "lh\<lparr>buckets := (buckets lh)[bkt lh d := ?c], num_items := num_items lh\<rparr>"
  have lh': "lh' = ?lh" using sp(1,2) assms(4) by (auto simp: list_update_append)
  have "bucket_ok lh (bkt lh d) ?c"
    using chain_facts(4) [OF assms(1), of d] sp(1,4) hash_eq [OF sp(3)] cmp_commute validD [OF assms(1)]
    by (auto simp: bucket_ok_def sorted_wrt_append unequal_def)
  moreover have "num_items lh = sz (length (concat ((buckets lh)[bkt lh d := ?c])))"
    using length_concat_update [OF chain_facts(3) [OF assms(1)], of d ?c]
      lh_okD(5) [OF validD(1), OF assms(1)] sp(1)
    by simp
  ultimately have v: "valid ?lh"
    by (rule valid_set_bucket [OF assms(1) chain_facts(2) [OF assms(1)]])
  then show "valid lh'" unfolding lh' .
  have "x \<in> lh_set ?lh \<longleftrightarrow> x = d \<or> x \<in> lh_set lh \<and> cmp x d \<noteq> 0" for x
    using mem_set_bucket [OF assms(1) chain_facts(2) [OF assms(1)] v, of x]
      mem_lh_set [OF assms(1), of x] same_chain [OF assms(1), of x d] sp
    by auto
  then show "lh_set lh' = insert d {x \<in> lh_set lh. cmp x d \<noteq> 0}" unfolding lh' by blast
qed

lemma valid_insert:
  assumes "valid lh" and "lh_insert al lh d = (ok, old, lh')"
  shows "valid lh' \<and> old = lh_retrieve lh d \<and> ok = (old \<noteq> None \<or> mallocs al 24)
    \<and> lh_set lh' = (if ok then insert d {x \<in> lh_set lh. cmp x d \<noteq> 0} else lh_set lh)"
proof (cases "chain_pos cmp (chain lh d) d = length (chain lh d)")
  case True
  with assms insert_fresh [OF assms(1) True refl] valid_maybe_resize show ?thesis
    by (auto simp: lh_insert_def chain_facts [OF assms(1)] lh_retrieve_chain [OF assms(1)] Let_def
        split: if_split_asm)
next
  case False
  with assms insert_replace [OF assms(1) refl False refl] show ?thesis
    by (auto simp: lh_insert_def chain_facts [OF assms(1)] lh_retrieve_chain [OF assms(1)] Let_def)
qed

lemma delete_present:
  assumes "valid lh" and "chain_pos cmp (chain lh d) d = p" and "p \<noteq> length (chain lh d)"
    and "lh' = lh\<lparr>buckets := (buckets lh)[bkt lh d := take p (chain lh d) @ drop (Suc p) (chain lh d)],
                  num_items := sz (num_items lh + (SIZE_MODULUS - 1))\<rparr>"
  shows "valid lh'" "lh_set lh' = {x \<in> lh_set lh. cmp x d \<noteq> 0}"
proof -
  obtain pre it post where sp: "chain lh d = pre @ it # post" "length pre = p"
    "cmp (item_data it) d = 0" "\<And>y. y \<in> set pre \<union> set post \<Longrightarrow> cmp (item_data y) d \<noteq> 0"
    using chain_present [OF assms(1), of d] assms(2,3) by metis
  let ?n = "length (concat ((buckets lh)[bkt lh d := pre @ post]))"
  have cut: "take p (chain lh d) @ drop (Suc p) (chain lh d) = pre @ post"
    using sp(1,2) by auto
  have "bucket_ok lh (bkt lh d) (pre @ post)"
    using chain_facts(4) [OF assms(1), of d] sp(1) by (auto simp: bucket_ok_def sorted_wrt_append)
  moreover have "num_items lh = sz (Suc ?n)"
    using length_concat_update [OF chain_facts(3) [OF assms(1)], of d "pre @ post"]
      lh_okD(5) [OF validD(1), OF assms(1)] sp(1)
    by simp
  then have "sz (num_items lh + (SIZE_MODULUS - 1)) = sz ?n"
    by (simp add: sz_def mod_add_left_eq del: add_Suc) (simp add: SIZE_MODULUS_def)
  ultimately have v: "valid lh'" unfolding assms(4) cut
    using valid_set_bucket [OF assms(1) chain_facts(2) [OF assms(1)]] by simp
  then show "valid lh'" .
  have "x \<in> lh_set lh' \<longleftrightarrow> x \<in> lh_set lh \<and> cmp x d \<noteq> 0" for x
    using mem_set_bucket [OF assms(1) chain_facts(2) [OF assms(1)] v [unfolded assms(4)], of x]
      mem_lh_set [OF assms(1), of x] same_chain [OF assms(1), of x d] sp cut assms(4)
    by auto
  then show "lh_set lh' = {x \<in> lh_set lh. cmp x d \<noteq> 0}" by blast
qed

lemma valid_delete:
  assumes "valid lh" and "lh_delete al lh d = (old, lh')"
  shows "valid lh' \<and> old = lh_retrieve lh d \<and> lh_set lh' = {x \<in> lh_set lh. cmp x d \<noteq> 0}"
proof (cases "chain_pos cmp (chain lh d) d = length (chain lh d)")
  case True
  then have "lh_retrieve lh d = None" by (simp add: lh_retrieve_chain [OF assms(1)] Let_def)
  with True assms lh_retrieve_None_iff [OF assms(1), of d] show ?thesis
    by (auto simp: lh_delete_def chain_facts [OF assms(1)] Let_def)
next
  case False
  with assms delete_present [OF assms(1) refl False refl] valid_maybe_resize show ?thesis
    by (auto simp: lh_delete_def chain_facts [OF assms(1)] lh_retrieve_chain [OF assms(1)] Let_def)
qed

lemma valid_new:
  assumes "lh_new al hash cmp = Some lh"
  shows "valid lh" "lh_set lh = {}"
proof -
  have "concat (replicate n []) = ([] :: 'd lhash_item list)" for n by (induction n) auto
  then show "valid lh" "lh_set lh = {}"
    using assms by (auto simp: lh_new_def lh_valid_def lh_ok_def bucket_ok_def lh_set_def
        kMinNumBuckets_def block_size_def PTRDIFF_MAX_def OPENSSL_MALLOC_PREFIX_def sz_def split: if_split_asm)
qed

lemma valid_callback_depth:
  "valid (lh\<lparr>callback_depth := k\<rparr>) \<longleftrightarrow> valid lh"
  by (simp add: lh_valid_def lh_ok_def bucket_ok_def)

lemma valid_doall:
  assumes "valid lh" and "lh_doall_internal al (Some lh) func s = (Some lh', s')"
  shows "valid lh' \<and> lh_set lh' = lh_set lh
    \<and> (\<exists>xs. distinct xs \<and> set xs = lh_set lh \<and> s' = foldl (\<lambda>s x. func x s) s xs)"
proof -
  let ?xs = "map item_data (concat (buckets lh))"
  have "lh_set (lh\<lparr>callback_depth := k\<rparr>) = lh_set lh" for k by (simp add: lh_set_def)
  then have "valid lh'" "lh_set lh' = lh_set lh"
    using assms valid_maybe_resize [of "lh\<lparr>callback_depth := _\<rparr>"] valid_maybe_resize [of lh]
    by (auto simp: lh_doall_internal_def Let_def valid_callback_depth split: if_split_asm)
  moreover have "s' = foldl (\<lambda>s x. func x s) s ?xs"
    using assms by (auto simp: lh_doall_internal_def Let_def foldl_map split: if_split_asm)
  moreover have "distinct ?xs" "set ?xs = lh_set lh"
    using distinct_data [OF valid_all_unequal [OF assms(1)]] by (simp_all add: lh_set_def)
  ultimately show ?thesis by blast
qed

subsection \<open>Simulation\<close>

definition simulates :: "'d lhash \<Rightarrow> 'd list \<Rightarrow> bool" where
  "simulates lh xs \<longleftrightarrow> valid lh \<and> lh_set lh = set xs \<and> sorted_wrt (\<lambda>x y. cmp x y \<noteq> 0) xs"

lemma ref_distinct: "sorted_wrt (\<lambda>x y. cmp x y \<noteq> 0) xs \<Longrightarrow> distinct xs"
  by (induction xs) (auto simp: cmp_refl)

lemma simulates_find:
  assumes "simulates lh xs"
  shows "lh_retrieve lh d = find (\<lambda>x. cmp x d = 0) xs"
proof (cases "find (\<lambda>x. cmp x d = 0) xs")
  case None
  then have "lh_retrieve lh d = None"
    using assms lh_retrieve_None_iff [of lh d] by (simp add: simulates_def find_None_iff)
  with None show ?thesis by simp
next
  case (Some x)
  then have "x \<in> set xs" "cmp x d = 0" by (auto simp: find_Some_iff)
  then show ?thesis using Some assms lh_retrieve_iff [of lh d x] by (simp add: simulates_def)
qed

lemma simulates_delete:
  assumes "simulates lh xs" and "lh_delete al lh d = (old, lh')"
  shows "simulates lh' (filter (\<lambda>x. cmp x d \<noteq> 0) xs)"
  using assms valid_delete [OF _ assms(2)]
  by (auto simp: simulates_def sorted_wrt_filter)

lemma simulates_insert:
  assumes "simulates lh xs" and "lh_insert al lh d = (ok, old, lh')" and "ok"
  shows "simulates lh' (d # filter (\<lambda>x. cmp x d \<noteq> 0) xs)"
  using assms valid_insert [OF _ assms(2)] cmp_commute
  by (auto simp: simulates_def sorted_wrt_filter)

lemma simulates_step:
  assumes "simulates lh xs" and "lh_step al opn lh = (out, lh')" and "ref_step cmp al opn xs = (out', xs')"
  shows "out = out' \<and> simulates lh' xs'"
proof (cases opn)
  case (Retrieve d)
  then show ?thesis using assms by (auto simp: simulates_find)
next
  case (Insert d)
  obtain ok old l where r: "lh_insert al lh d = (ok, old, l)" by (metis prod_cases3)
  have v: "old = find (\<lambda>x. cmp x d = 0) xs" "ok = (old \<noteq> None \<or> mallocs al 24)"
    "\<not> ok \<Longrightarrow> simulates l xs"
    using valid_insert [OF _ r] simulates_find [OF assms(1)] assms(1) by (auto simp: simulates_def)
  have "filter (\<lambda>x. cmp x d \<noteq> 0) xs = xs" if "old = None"
    using that v(1) by (auto simp: find_None_iff intro: filter_True)
  with v assms Insert r simulates_insert [OF assms(1) r] show ?thesis
    by (auto split: option.split_asm if_split_asm)
next
  case (Delete d)
  obtain old l where r: "lh_delete al lh d = (old, l)" by fastforce
  then show ?thesis
    using assms Delete simulates_delete [OF assms(1) r] valid_delete [OF _ r] simulates_find [OF assms(1)]
    by (auto simp: simulates_def)
next
  case NumItems
  have "card (lh_set lh) = length xs"
    using assms(1) ref_distinct by (auto simp: simulates_def distinct_card)
  then show ?thesis using assms NumItems card_lh_set by (auto simp: simulates_def)
qed

lemma simulates_run: "simulates lh xs \<Longrightarrow> lh_run ops lh = ref_run cmp ops xs"
proof (induction ops arbitrary: lh xs)
  case Nil
  then show ?case by simp
next
  case (Cons a ops)
  obtain al opn where a: "a = (al, opn)" by fastforce
  obtain out lh' where l: "lh_step al opn lh = (out, lh')" by fastforce
  obtain out' xs' where r: "ref_step cmp al opn xs = (out', xs')" by fastforce
  from simulates_step [OF Cons.prems l r] Cons.IH [of lh' xs'] show ?case by (simp add: a l r)
qed

lemma run_from_new: "lh_new al hash cmp = Some lh \<Longrightarrow> lh_run ops lh = ref_run cmp ops []"
  by (rule simulates_run) (simp add: simulates_def valid_new)

subsection \<open>Load\<close>

text \<open>The table is never overloaded and, above the smallest size, never too sparse.\<close>

definition balanced :: "'d lhash \<Rightarrow> bool" where
  "balanced lh \<longleftrightarrow> valid lh \<and> callback_depth lh = 0 \<and> card (lh_set lh) < 3 * num_buckets lh
     \<and> (num_buckets lh \<le> kMinNumBuckets \<or> num_buckets lh \<le> card (lh_set lh))"

lemma finite_lh_set: "finite (lh_set lh)"
  by (simp add: lh_set_def)

lemma rebucket_grants:
  assumes "grants_blocks al" and "8 * n + 8 \<le> PTRDIFF_MAX"
  shows "num_buckets (lh_rebucket al lh n) = n" and "callback_depth (lh_rebucket al lh n) = callback_depth lh"
proof -
  have "8 * n + 8 < SIZE_MODULUS" "mallocs al (8 * n)"
    using assms by (simp_all add: grants_blocks_def block_size_def PTRDIFF_MAX_def SIZE_MODULUS_def OPENSSL_MALLOC_PREFIX_def)
  then show "num_buckets (lh_rebucket al lh n) = n" "callback_depth (lh_rebucket al lh n) = callback_depth lh"
    by (simp_all add: lh_rebucket_def)
qed

lemma maybe_resize_balanced:
  assumes "valid lh" and "callback_depth lh = 0" and "card (lh_set lh) \<le> 3 * num_buckets lh"
    and "num_buckets lh \<le> kMinNumBuckets \<or> num_buckets lh \<le> Suc (card (lh_set lh))"
    and "card (lh_set lh) < 2 ^ 58" and "grants_blocks al"
  shows "balanced (lh_maybe_resize al lh)"
proof -
  let ?k = "card (lh_set lh)" and ?n = "num_buckets lh"
  have n: "16 \<le> ?n" using lh_okD(4) [OF validD(1), OF assms(1)] by (simp add: kMinNumBuckets_def)
  have small: "?n \<le> 2 ^ 58" using assms(4,5) by (auto simp: kMinNumBuckets_def)
  have k: "num_items lh = ?k"
    using card_lh_set [OF assms(1)] assms(5) by (simp add: lh_num_items_def SIZE_MODULUS_def)
  have avg: "2 < ?k div ?n \<longleftrightarrow> 3 * ?n \<le> ?k"
    using n less_eq_div_iff_mult_less_eq [of ?n 3 ?k] by linarith
  have low: "?k div ?n < 1 \<longleftrightarrow> ?k < ?n"
    using n div_less_iff_less_mult [of ?n ?k 1] by simp
  have re: "num_buckets (lh_rebucket al lh m) = m" "callback_depth (lh_rebucket al lh m) = 0" if "m \<le> 2 * ?n" for m
    using rebucket_grants [OF assms(6), of m lh] that small assms(2) by (simp_all add: PTRDIFF_MAX_def)
  have sz2: "sz (?n * 2) = ?n * 2" using small by (simp add: SIZE_MODULUS_def)
  let ?lh = "lh_maybe_resize al lh"
  have "callback_depth ?lh = 0 \<and> ?k < 3 * num_buckets ?lh \<and> (num_buckets ?lh \<le> 16 \<or> num_buckets ?lh \<le> ?k)"
    using n k avg low re assms(2-4) unfolding lh_maybe_resize_def
    by (auto simp: Let_def kMinNumBuckets_def kMaxAverageChainLength_def kMinAverageChainLength_def sz2)
  then show ?thesis by (simp add: balanced_def valid_maybe_resize [OF assms(1)] kMinNumBuckets_def)
qed

lemma card_others:
  assumes "valid lh"
  shows "card (lh_set lh) \<le> Suc (card {x \<in> lh_set lh. cmp x d \<noteq> 0})" "card {x \<in> lh_set lh. cmp x d \<noteq> 0} \<le> card (lh_set lh)"
proof -
  let ?E = "{x \<in> lh_set lh. cmp x d = 0}" and ?O = "{x \<in> lh_set lh. cmp x d \<noteq> 0}"
  have "x = y" if "x \<in> ?E" "y \<in> ?E" for x y
    using that lh_set_unique [OF assms, of x y] cmp_trans [of x d y] cmp_commute [of y d] by auto
  then have "card ?E \<le> 1" using card_le_Suc0_iff_eq [of ?E] finite_lh_set [of lh] by auto
  moreover have "lh_set lh = ?E \<union> ?O" "?E \<inter> ?O = {}" by auto
  then have "card (lh_set lh) = card ?E + card ?O"
    using card_Un_disjoint [of ?E ?O] finite_lh_set [of lh] by simp
  ultimately show "card (lh_set lh) \<le> Suc (card ?O)" "card ?O \<le> card (lh_set lh)" by simp_all
qed

lemma insert_balanced:
  assumes "balanced lh" and "card (lh_set lh) + 1 < 2 ^ 58" and "grants_blocks al" and r: "lh_insert al lh d = (ok, old, lh')"
  shows "balanced lh' \<and> card (lh_set lh') \<le> Suc (card (lh_set lh))"
proof -
  have v: "valid lh" "callback_depth lh = 0" using assms(1) by (simp_all add: balanced_def)
  let ?O = "{x \<in> lh_set lh. cmp x d \<noteq> 0}"
  have m: "mallocs al 24" using assms(3) by (simp add: grants_blocks_def block_size_def PTRDIFF_MAX_def OPENSSL_MALLOC_PREFIX_def)
  have "d \<notin> ?O" by (simp add: cmp_refl)
  then have card: "card (insert d ?O) = Suc (card ?O)" using finite_lh_set [of lh] by simp
  note c = card_others [OF v(1), of d]
  show ?thesis
  proof (cases "chain_pos cmp (chain lh d) d = length (chain lh d)")
    case True
    note f = insert_fresh [OF v(1) True refl]
    have "?O = lh_set lh"
      using True lh_retrieve_None_iff [OF v(1), of d] by (auto simp: lh_retrieve_chain [OF v(1)] Let_def)
    then show ?thesis using maybe_resize_balanced [OF f(1) _ _ _ _ assms(3)] f(2) True r m v assms(1,2) card
        valid_maybe_resize(2) [OF f(1), of al]
      by (auto simp: lh_insert_def chain_facts [OF v(1)] Let_def balanced_def)
  next
    case False
    note f = insert_replace [OF v(1) refl False refl]
    have "\<not> card ?O = card (lh_set lh)"
    proof
      assume "card ?O = card (lh_set lh)"
      then have "?O = lh_set lh" using finite_lh_set [of lh] by (intro card_subset_eq) auto
      then show False using False lh_retrieve_None_iff [OF v(1), of d] by (auto simp: lh_retrieve_chain [OF v(1)] Let_def)
    qed
    then have "card (insert d ?O) = card (lh_set lh)" using c card by simp
    then show ?thesis using f False r v assms(1) by (auto simp: lh_insert_def chain_facts [OF v(1)] Let_def balanced_def)
  qed
qed

lemma delete_balanced:
  assumes "balanced lh" and "card (lh_set lh) < 2 ^ 58" and "grants_blocks al" and r: "lh_delete al lh d = (old, lh')"
  shows "balanced lh' \<and> card (lh_set lh') \<le> card (lh_set lh)"
proof -
  have v: "valid lh" "callback_depth lh = 0" using assms(1) by (simp_all add: balanced_def)
  show ?thesis
  proof (cases "chain_pos cmp (chain lh d) d = length (chain lh d)")
    case True
    then show ?thesis using assms by (auto simp: lh_delete_def chain_facts [OF v(1)] Let_def)
  next
    case False
    note f = delete_present [OF v(1) refl False refl]
    show ?thesis using maybe_resize_balanced [OF f(1) _ _ _ _ assms(3)] f(2) False r v assms(1,2) card_others [OF v(1), of d]
        valid_maybe_resize(2) [OF f(1), of al]
      by (auto simp: lh_delete_def chain_facts [OF v(1)] Let_def balanced_def)
  qed
qed

lemma step_balanced:
  assumes "balanced lh" and "card (lh_set lh) + 1 < 2 ^ 58" and "grants_blocks al"
  shows "balanced (snd (lh_step al opn lh)) \<and> card (lh_set (snd (lh_step al opn lh))) \<le> Suc (card (lh_set lh))"
  using assms insert_balanced [OF assms] delete_balanced [OF assms(1) _ assms(3)]
  by (cases opn) (fastforce split: prod.splits)+

lemma run_balanced:
  "balanced lh \<Longrightarrow> card (lh_set lh) + length ops < 2 ^ 58 \<Longrightarrow> (\<forall>(al, opn) \<in> set ops. grants_blocks al) \<Longrightarrow>
    balanced (lh_after ops lh)"
proof (induction ops arbitrary: lh)
  case (Cons a ops)
  obtain al opn where a: "a = (al, opn)" by fastforce
  have "balanced (snd (lh_step al opn lh)) \<and> card (lh_set (snd (lh_step al opn lh))) \<le> Suc (card (lh_set lh))"
    using Cons.prems a by (intro step_balanced) auto
  with Cons.IH [of "snd (lh_step al opn lh)"] Cons.prems a show ?case by simp
qed simp

lemma new_balanced: "lh_new al hash cmp = Some lh \<Longrightarrow> balanced lh \<and> lh_set lh = {}"
  using valid_new [of al lh] by (auto simp: balanced_def lh_new_def kMinNumBuckets_def split: if_split_asm)

end

section \<open>The tables of the library\<close>

text \<open>
  The name tables of \<open>crypto/obj/obj.c\<close> hash and compare the strings of an object; \<open>strcmp\<close> of
  two C strings is 0 exactly when they agree up to the terminator.
\<close>

fun c_strcmp :: "byte list \<Rightarrow> byte list \<Rightarrow> int" where
  "c_strcmp [] [] = 0"
| "c_strcmp [] (b # bs) = - int (unat b)"
| "c_strcmp (a # as) [] = int (unat a)"
| "c_strcmp (a # as) (b # bs) =
     (if a \<noteq> b then int (unat a) - int (unat b) else if a = 0 then 0 else c_strcmp as bs)"

lemma c_strcmp_0_iff:
  "c_strcmp as bs = 0 \<longleftrightarrow> takeWhile (\<lambda>c. c \<noteq> 0) as = takeWhile (\<lambda>c. c \<noteq> 0) bs"
proof -
  have eq: "int (unat a) - int (unat b) = 0 \<longleftrightarrow> a = b" "int (unat a) = 0 \<longleftrightarrow> a = 0" for a b :: byte
    by (simp_all add: word_unat_eq_iff del: of_nat_unat)
  show ?thesis
    by (induction as bs rule: c_strcmp.induct) (auto simp: eq simp del: of_nat_unat right_minus_eq of_nat_eq_0_iff)
qed

lemma take_c_strlen: "take (c_strlen s) s = takeWhile (\<lambda>c. c \<noteq> 0) s"
  by (simp add: c_strlen_def takeWhile_eq_take [symmetric])

interpretation names: hash_cmp "\<lambda>s. lh_strhash (Some s)" c_strcmp
  by unfold_locales (simp_all add: c_strcmp_0_iff lh_strhash_def take_c_strlen)

section \<open>Properties\<close>

text \<open>
  C16: the hash table behaves like a list of pairwise unequal elements. For every sequence of lookups,
  insertions, deletions and counts from \<open>lh_new\<close>, with any outcome of the allocations, and for
  every pair of hash and comparison functions that meets the contract, the answers are those of
  the reference list: resizing, chaining and redistribution are not observable.
\<close>

theorem lhash_refines_list:
  assumes "hash_cmp hash cmp" and "lh_new al hash cmp = Some lh"
  shows "lh_run ops lh = ref_run cmp ops []"
  using assms by (rule hash_cmp.run_from_new)

theorem lhash_refines_list_witness:
  "lh_run [(demo_allocator, Insert [7, 0]), (demo_allocator, Retrieve [7, 0, 5])]
      (the (lh_new demo_allocator (\<lambda>s. lh_strhash (Some s)) c_strcmp))
    = [OutInsert True None, OutData (Some [7, 0])]"
proof -
  let ?h = "\<lambda>s. lh_strhash (Some s)"
  have "mallocs demo_allocator n" if "n \<le> 128" for n
    using that by (simp add: demo_allocator_def mallocs_def sz_def SIZE_MODULUS_def PTRDIFF_MAX_def OPENSSL_MALLOC_PREFIX_def)
  then have new: "lh_new demo_allocator ?h c_strcmp = Some (the (lh_new demo_allocator ?h c_strcmp))"
    and al: "mallocs demo_allocator 24"
    by (simp_all add: lh_new_def kMinNumBuckets_def)
  show ?thesis
    using lhash_refines_list [OF names.hash_cmp_axioms new] by (simp del: lh_run.simps add: al)
qed

text \<open>
  \<open>lh_doall\<close> calls the function exactly once on each element of the table, in some order, keeps
  the contents and leaves a well-formed table, whatever the depth of nested iterations.
\<close>

theorem lh_doall_visits_each:
  assumes "hash_cmp hash cmp" and "lh_valid hash cmp lh"
    and "lh_doall al (Some lh) func s = (Some lh', s')"
  shows "lh_valid hash cmp lh' \<and> lh_set lh' = lh_set lh
    \<and> (\<exists>xs. distinct xs \<and> set xs = lh_set lh \<and> s' = foldl (\<lambda>s x. func x s) s xs)"
  using hash_cmp.valid_doall [OF assms(1,2)] assms(3) by (simp add: lh_doall_def)

text \<open>
  C17: the load of the table stays between one and three items per bucket. Take any sequence of fewer than \<open>2 ^ 58\<close> lookups,
  insertions, deletions and counts from \<open>lh_new\<close>, made outside of iterations, during which every request for
  memory of a possible size is granted. Afterwards there are fewer than three items per bucket on average, and at
  least one unless the table has its smallest size of 16 buckets.
\<close>

theorem lh_load_bounded:
  assumes "hash_cmp hash cmp" and "lh_new al0 hash cmp = Some lh" and "length ops < 2 ^ 58"
    and "\<forall>(al, opn) \<in> set ops. grants_blocks al"
  shows "card (lh_set (lh_after ops lh)) < 3 * num_buckets (lh_after ops lh)
    \<and> (num_buckets (lh_after ops lh) \<le> 16 \<or> num_buckets (lh_after ops lh) \<le> card (lh_set (lh_after ops lh)))"
proof -
  have "hash_cmp.balanced hash cmp (lh_after ops lh)"
    using hash_cmp.new_balanced [OF assms(1,2)] assms(3,4) by (intro hash_cmp.run_balanced [OF assms(1)]) auto
  then show ?thesis by (simp add: hash_cmp.balanced_def [OF assms(1)] kMinNumBuckets_def)
qed

definition sample_table :: "byte list lhash" where
  "sample_table = the (lh_new every_block (\<lambda>s. lh_strhash (Some s)) c_strcmp)"

lemma sample_table_new: "lh_new every_block (\<lambda>s. lh_strhash (Some s)) c_strcmp = Some sample_table"
  using every_block_mallocs [of 48] every_block_mallocs [of 128]
  by (simp add: sample_table_def lh_new_def kMinNumBuckets_def block_size_def PTRDIFF_MAX_def OPENSSL_MALLOC_PREFIX_def)

theorem lh_load_bounded_witness:
  "card (lh_set (lh_after (map (\<lambda>i. (every_block, Insert [i])) [1, 2, 3]) sample_table))
    < 3 * num_buckets (lh_after (map (\<lambda>i. (every_block, Insert [i])) [1, 2, 3]) sample_table)"
  using lh_load_bounded [OF names.hash_cmp_axioms sample_table_new, of "map (\<lambda>i. (every_block, Insert [i])) [1, 2, 3]"]
  by (simp add: grants_blocks_def every_block_mallocs del: lh_after.simps list.map)

theorem lh_doall_visits_each_witness:
  "\<exists>lh' s' xs. lh_doall demo_allocator (Some sample_table) (\<lambda>x s. s + 1) (0 :: nat) = (Some lh', s')
    \<and> set xs = lh_set sample_table \<and> s' = foldl (\<lambda>s x. s + 1) 0 xs"
proof -
  obtain lh' s' where "lh_doall demo_allocator (Some sample_table) (\<lambda>x s. s + 1) (0 :: nat) = (Some lh', s')"
    by (auto simp: lh_doall_def lh_doall_internal_def Let_def)
  note r = this
  from lh_doall_visits_each [OF names.hash_cmp_axioms names.valid_new(1) [OF sample_table_new] r]
  obtain xs where "set xs = lh_set sample_table \<and> s' = foldl (\<lambda>s x. s + 1) 0 xs" by fast
  with r show ?thesis by metis
qed

end
