(* ===== verification/Pool.thy ===== *)
theory Pool
  imports Lhash
begin

text \<open>
  The buffer pool \<open>crypto/pool/pool.c\<close> with its saturating reference counts
  (\<open>crypto/refcount_lock.c\<close>): buffers with equal contents are shared through an \<open>lhash\<close> table.
  Buffers live in an explicit heap of addresses, because a count is changed through every pointer to
  its buffer. The table holds a pointer together with the bytes it points to, which never change
  while the buffer is alive. Touching a freed buffer, the \<open>abort\<close> of an underflowing count and a
  failed \<open>assert\<close> are error values. \<open>CRYPTO_BUFFER_new\<close> takes the pool's lock twice, so its two
  critical sections are separate steps of the transition system at the end, between which other
  threads may run.
\<close>

section \<open>Reference counts\<close>

definition CRYPTO_REFCOUNT_MAX :: u32 where "CRYPTO_REFCOUNT_MAX = 0xffffffff"

definition CRYPTO_refcount_inc :: "u32 \<Rightarrow> u32" where
  "CRYPTO_refcount_inc count = (if count < CRYPTO_REFCOUNT_MAX then count + 1 else count)"

datatype pool_error = UseAfterFree | Abort | AssertFailed

definition CRYPTO_refcount_dec_and_test_zero :: "u32 \<Rightarrow> pool_error + bool \<times> u32" where
  "CRYPTO_refcount_dec_and_test_zero count =
     (if count = 0 then Inl Abort
      else let count' = (if count < CRYPTO_REFCOUNT_MAX then count - 1 else count)
           in Inr (count' = 0, count'))"

section \<open>Buffers\<close>

record crypto_buffer =
  cb_pool :: bool
  cb_data :: "byte list"
  cb_references :: u32

type_synonym pool_key = "nat \<times> byte list"

record pool_state =
  heap :: "nat \<rightharpoonup> crypto_buffer"
  bufs :: "pool_key lhash"

fun c_memcmp :: "byte list \<Rightarrow> byte list \<Rightarrow> int" where
  "c_memcmp (a # as) (b # bs) = (if a \<noteq> b then int (unat a) - int (unat b) else c_memcmp as bs)"
| "c_memcmp _ _ = 0"

definition CRYPTO_BUFFER_hash :: "pool_key \<Rightarrow> u32" where
  "CRYPTO_BUFFER_hash buf = OPENSSL_hash32 (snd buf)"

definition CRYPTO_BUFFER_cmp :: "pool_key \<Rightarrow> pool_key \<Rightarrow> int" where
  "CRYPTO_BUFFER_cmp a b =
     (if length (snd a) \<noteq> length (snd b) then 1 else c_memcmp (snd a) (snd b))"

text \<open>\<open>pool_size\<close> is \<open>sizeof(CRYPTO_BUFFER_POOL)\<close>, which depends on the platform's mutex.\<close>

definition CRYPTO_BUFFER_POOL_new :: "allocator \<Rightarrow> nat \<Rightarrow> (nat \<rightharpoonup> crypto_buffer) \<Rightarrow> pool_state option" where
  "CRYPTO_BUFFER_POOL_new al pool_size hp =
     (if \<not> mallocs al pool_size then None
      else case lh_new al CRYPTO_BUFFER_hash CRYPTO_BUFFER_cmp of
             None \<Rightarrow> None
           | Some t \<Rightarrow> Some \<lparr>heap = hp, bufs = t\<rparr>)"

definition inc_ref :: "pool_state \<Rightarrow> nat \<Rightarrow> pool_error + pool_state" where
  "inc_ref st a =
     (case heap st a of
        None \<Rightarrow> Inl UseAfterFree
      | Some b \<Rightarrow> Inr (st\<lparr>heap := (heap st)(a \<mapsto> b\<lparr>cb_references := CRYPTO_refcount_inc (cb_references b)\<rparr>)\<rparr>))"

definition free_buffer :: "pool_state \<Rightarrow> nat \<Rightarrow> pool_state" where
  "free_buffer st a = st\<lparr>heap := (heap st)(a := None)\<rparr>"

text \<open>The first critical section of \<open>CRYPTO_BUFFER_new\<close>: \<open>tmp\<close> is not a heap buffer.\<close>

definition new_lookup :: "pool_state \<Rightarrow> byte list \<Rightarrow> pool_error + nat option \<times> pool_state" where
  "new_lookup st data =
     (case lh_retrieve (bufs st) (0, data) of
        None \<Rightarrow> Inr (None, st)
      | Some duplicate \<Rightarrow>
          (case inc_ref st (fst duplicate) of
             Inl e \<Rightarrow> Inl e
           | Inr st' \<Rightarrow> Inr (Some (fst duplicate), st')))"

text \<open>The allocation of a buffer at the address \<open>a\<close> that \<open>malloc\<close> returns (\<open>sizeof(CRYPTO_BUFFER)\<close> is 32).\<close>

definition new_alloc :: "allocator \<Rightarrow> nat \<Rightarrow> bool \<Rightarrow> pool_state \<Rightarrow> byte list \<Rightarrow> pool_state option" where
  "new_alloc al a pooled st data =
     (if \<not> mallocs al 32 then None
      else case BUF_memdup al data (length data) of
             None \<Rightarrow>
               (if length data \<noteq> 0 then None
                else Some (st\<lparr>heap := (heap st)(a \<mapsto> \<lparr>cb_pool = pooled, cb_data = [], cb_references = 1\<rparr>)\<rparr>))
           | Some d \<Rightarrow>
               Some (st\<lparr>heap := (heap st)(a \<mapsto> \<lparr>cb_pool = pooled, cb_data = d, cb_references = 1\<rparr>)\<rparr>))"

text \<open>The second critical section, and the release of a buffer that lost the race.\<close>

definition new_insert :: "allocator \<Rightarrow> pool_state \<Rightarrow> nat \<Rightarrow> pool_error + nat option \<times> pool_state" where
  "new_insert al st a =
     (case heap st a of
        None \<Rightarrow> Inl UseAfterFree
      | Some buf \<Rightarrow>
          (case lh_retrieve (bufs st) (a, cb_data buf) of
             None \<Rightarrow>
               (case lh_insert al (bufs st) (a, cb_data buf) of (inserted, old, t) \<Rightarrow>
                  if old \<noteq> None then Inl AssertFailed
                  else if inserted then Inr (Some a, st\<lparr>bufs := t\<rparr>)
                  else Inr (None, free_buffer (st\<lparr>bufs := t\<rparr>) a))
           | Some duplicate \<Rightarrow>
               (case inc_ref st (fst duplicate) of
                  Inl e \<Rightarrow> Inl e
                | Inr st' \<Rightarrow> Inr (Some (fst duplicate), free_buffer st' a))))"

definition CRYPTO_BUFFER_new ::
  "allocator \<Rightarrow> nat \<Rightarrow> bool \<Rightarrow> pool_state \<Rightarrow> byte list \<Rightarrow> pool_error + nat option \<times> pool_state" where
  "CRYPTO_BUFFER_new al a pooled st data =
     (if \<not> pooled then
        (case new_alloc al a False st data of
           None \<Rightarrow> Inr (None, st)
         | Some st' \<Rightarrow> Inr (Some a, st'))
      else
        (case new_lookup st data of
           Inl e \<Rightarrow> Inl e
         | Inr (Some duplicate, st') \<Rightarrow> Inr (Some duplicate, st')
         | Inr (None, st') \<Rightarrow>
             (case new_alloc al a True st' data of
                None \<Rightarrow> Inr (None, st')
              | Some st'' \<Rightarrow> new_insert al st'' a)))"

definition CRYPTO_BUFFER_free :: "allocator \<Rightarrow> pool_state \<Rightarrow> nat option \<Rightarrow> pool_error + pool_state" where
  "CRYPTO_BUFFER_free al st buf =
     (case buf of None \<Rightarrow> Inr st
      | Some a \<Rightarrow>
          (case heap st a of
             None \<Rightarrow> Inl UseAfterFree
           | Some b \<Rightarrow>
               (case CRYPTO_refcount_dec_and_test_zero (cb_references b) of
                  Inl e \<Rightarrow> Inl e
                | Inr (is_zero, count) \<Rightarrow>
                    let st1 = st\<lparr>heap := (heap st)(a \<mapsto> b\<lparr>cb_references := count\<rparr>)\<rparr> in
                    if \<not> is_zero then Inr st1
                    else if \<not> cb_pool b then Inr (free_buffer st1 a)
                    else
                      (case lh_delete al (bufs st1) (a, cb_data b) of (found, t) \<Rightarrow>
                         if found \<noteq> Some (a, cb_data b) then Inl AssertFailed
                         else Inr (free_buffer (st1\<lparr>bufs := t\<rparr>) a)))))"

definition CRYPTO_BUFFER_up_ref :: "pool_state \<Rightarrow> nat \<Rightarrow> pool_error + pool_state" where
  "CRYPTO_BUFFER_up_ref st a = inc_ref st a"

section \<open>The table's contract\<close>

lemma c_memcmp_0_iff: "length as = length bs \<Longrightarrow> c_memcmp as bs = 0 \<longleftrightarrow> as = bs"
proof -
  have eq: "int (unat a) - int (unat b) = 0 \<longleftrightarrow> a = b" for a b :: byte
    by (simp add: word_unat_eq_iff del: of_nat_unat)
  show "length as = length bs \<Longrightarrow> ?thesis"
    by (induction as bs rule: c_memcmp.induct) (auto simp: eq simp del: of_nat_unat right_minus_eq)
qed

lemma CRYPTO_BUFFER_cmp_0_iff: "CRYPTO_BUFFER_cmp x y = 0 \<longleftrightarrow> snd x = snd y"
  by (auto simp: CRYPTO_BUFFER_cmp_def c_memcmp_0_iff)

interpretation buffers: hash_cmp CRYPTO_BUFFER_hash CRYPTO_BUFFER_cmp
  by unfold_locales (simp_all add: CRYPTO_BUFFER_cmp_0_iff CRYPTO_BUFFER_hash_def)

section \<open>Threads and their references\<close>

text \<open>
  \<open>held a\<close> counts the references the clients hold on the buffer at \<open>a\<close>; \<open>inflight\<close> are the buffers
  that a running \<open>CRYPTO_BUFFER_new\<close> has allocated and not yet inserted.
\<close>

record pool_sys =
  pool :: pool_state
  inflight :: "nat set"
  held :: "nat \<Rightarrow> nat"

definition give :: "nat option \<Rightarrow> (nat \<Rightarrow> nat) \<Rightarrow> nat \<Rightarrow> nat" where
  "give r h = (case r of None \<Rightarrow> h | Some a \<Rightarrow> h(a := h a + 1))"

inductive pool_step :: "pool_sys \<Rightarrow> pool_sys \<Rightarrow> bool" where
  Lookup: "new_lookup (pool s) data = Inr (r, st) \<Longrightarrow>
    pool_step s (s\<lparr>pool := st, held := give r (held s)\<rparr>)"
| AllocPooled: "heap (pool s) a = None \<Longrightarrow> length data \<le> PTRDIFF_MAX \<Longrightarrow> new_alloc al a True (pool s) data = Some st \<Longrightarrow>
    pool_step s (s\<lparr>pool := st, inflight := insert a (inflight s)\<rparr>)"
| AllocPlain: "heap (pool s) a = None \<Longrightarrow> length data \<le> PTRDIFF_MAX \<Longrightarrow> new_alloc al a False (pool s) data = Some st \<Longrightarrow>
    pool_step s (s\<lparr>pool := st, held := give (Some a) (held s)\<rparr>)"
| Insert: "a \<in> inflight s \<Longrightarrow> new_insert al (pool s) a = Inr (r, st) \<Longrightarrow>
    pool_step s (s\<lparr>pool := st, inflight := inflight s - {a}, held := give r (held s)\<rparr>)"
| UpRef: "0 < held s a \<Longrightarrow> CRYPTO_BUFFER_up_ref (pool s) a = Inr st \<Longrightarrow>
    pool_step s (s\<lparr>pool := st, held := give (Some a) (held s)\<rparr>)"
| Free: "0 < held s a \<Longrightarrow> CRYPTO_BUFFER_free al (pool s) (Some a) = Inr st \<Longrightarrow>
    pool_step s (s\<lparr>pool := st, held := (held s)(a := held s a - 1)\<rparr>)"

definition pool_start :: "pool_state \<Rightarrow> pool_sys" where
  "pool_start st = \<lparr>pool = st, inflight = {}, held = (\<lambda>_. 0)\<rparr>"

inductive pool_reach :: "pool_sys \<Rightarrow> bool" where
  Start: "CRYPTO_BUFFER_POOL_new al n Map.empty = Some st \<Longrightarrow> pool_reach (pool_start st)"
| Step: "pool_reach s \<Longrightarrow> pool_step s s' \<Longrightarrow> pool_reach s'"

section \<open>The invariant\<close>

text \<open>A settled buffer: its count is the number of references, unless it has saturated.\<close>

definition counted :: "u32 \<Rightarrow> nat \<Rightarrow> bool" where
  "counted w n \<longleftrightarrow> w \<noteq> 0 \<and> (unat w = n \<or> w = CRYPTO_REFCOUNT_MAX)"

definition live_ok :: "pool_sys \<Rightarrow> nat \<Rightarrow> crypto_buffer \<Rightarrow> bool" where
  "live_ok s a b \<longleftrightarrow>
     (if a \<in> inflight s then cb_pool b \<and> cb_references b = 1 \<and> held s a = 0
      else counted (cb_references b) (held s a))
     \<and> ((a, cb_data b) \<in> lh_set (bufs (pool s)) \<longleftrightarrow> cb_pool b \<and> a \<notin> inflight s)"

definition pool_inv :: "pool_sys \<Rightarrow> bool" where
  "pool_inv s \<longleftrightarrow>
     lh_valid CRYPTO_BUFFER_hash CRYPTO_BUFFER_cmp (bufs (pool s))
     \<and> (\<forall>a b. heap (pool s) a = Some b \<longrightarrow> live_ok s a b)
     \<and> (\<forall>a d. (a, d) \<in> lh_set (bufs (pool s)) \<longrightarrow> (\<exists>b. heap (pool s) a = Some b \<and> cb_data b = d))
     \<and> (\<forall>a. heap (pool s) a = None \<longrightarrow> a \<notin> inflight s \<and> held s a = 0)"

lemma pool_invD:
  assumes "pool_inv s"
  shows "lh_valid CRYPTO_BUFFER_hash CRYPTO_BUFFER_cmp (bufs (pool s))"
    "heap (pool s) a = Some b \<Longrightarrow> live_ok s a b"
    "(a, d) \<in> lh_set (bufs (pool s)) \<Longrightarrow> \<exists>b. heap (pool s) a = Some b \<and> cb_data b = d"
    "heap (pool s) a = None \<Longrightarrow> a \<notin> inflight s \<and> held s a = 0"
  using assms by (auto simp: pool_inv_def)

text \<open>The buffers in the table: their contents determine them, and they are settled.\<close>

lemma table_unique:
  assumes "pool_inv s" and "(a, d) \<in> lh_set (bufs (pool s))" and "(a', d) \<in> lh_set (bufs (pool s))"
  shows "a = a'"
  using buffers.lh_set_unique [OF pool_invD(1) [OF assms(1)] assms(2,3)]
  by (simp add: CRYPTO_BUFFER_cmp_0_iff)

lemma table_settled:
  assumes "pool_inv s" and "(a, d) \<in> lh_set (bufs (pool s))"
  obtains b where "heap (pool s) a = Some b" "cb_data b = d" "a \<notin> inflight s"
  using pool_invD(2,3) [OF assms(1)] assms(2) that by (metis live_ok_def)

lemma table_data:
  assumes "pool_inv s" and "(a, d) \<in> lh_set (bufs (pool s))"
  shows "heap (pool s) a \<noteq> None" "heap (pool s) a = Some b \<Longrightarrow> d = cb_data b" "a \<notin> inflight s"
  using table_settled [OF assms] by auto

lemma retrieve_key:
  assumes "pool_inv s"
  shows "lh_retrieve (bufs (pool s)) (x, data) = Some k \<longleftrightarrow>
    k \<in> lh_set (bufs (pool s)) \<and> snd k = data"
  using buffers.lh_retrieve_iff [OF pool_invD(1) [OF assms], of "(x, data)" k]
  by (simp add: CRYPTO_BUFFER_cmp_0_iff)

subsection \<open>Counting\<close>

lemma refcount_less_max: "w \<noteq> CRYPTO_REFCOUNT_MAX \<longleftrightarrow> w < CRYPTO_REFCOUNT_MAX"
proof -
  have "w \<le> CRYPTO_REFCOUNT_MAX" using unat_u32_less [of w]
    by (simp add: CRYPTO_REFCOUNT_MAX_def word_le_nat_alt)
  then show ?thesis by auto
qed

lemma counted_inc: "counted w n \<Longrightarrow> counted (CRYPTO_refcount_inc w) (n + 1)"
proof -
  assume c: "counted w n"
  show ?thesis
  proof (cases "w = CRYPTO_REFCOUNT_MAX")
    case True
    then show ?thesis by (simp add: CRYPTO_refcount_inc_def counted_def CRYPTO_REFCOUNT_MAX_def)
  next
    case False
    then have "w < CRYPTO_REFCOUNT_MAX" using refcount_less_max by blast
    then have "unat (w + 1) = unat w + 1"
      by (simp add: unatSuc word_less_nat_alt CRYPTO_REFCOUNT_MAX_def unat_word_ariths(1))
    moreover from this have "w + 1 \<noteq> 0" by (metis Suc_eq_plus1 nat.distinct(1) unsigned_0)
    ultimately show ?thesis using c False refcount_less_max by (auto simp: CRYPTO_refcount_inc_def counted_def)
  qed
qed

lemma counted_dec:
  assumes "counted w n" and "0 < n"
  obtains z w' where "CRYPTO_refcount_dec_and_test_zero w = Inr (z, w')"
    "z \<Longrightarrow> n = 1" "\<not> z \<Longrightarrow> counted w' (n - 1)"
proof (cases "w = CRYPTO_REFCOUNT_MAX")
  case True
  with that [of False w] show thesis
    by (auto simp: CRYPTO_refcount_dec_and_test_zero_def counted_def CRYPTO_REFCOUNT_MAX_def)
next
  case False
  then have lt: "w < CRYPTO_REFCOUNT_MAX" using refcount_less_max by blast
  have w: "unat w = n" "w \<noteq> 0" using assms(1) False by (auto simp: counted_def)
  then have u: "unat (w - 1) = n - 1" by (simp add: unat_minus_one)
  have z: "w - 1 = 0 \<longleftrightarrow> n = 1" using u w assms(2) by (auto simp: unat_eq_zero)
  have "CRYPTO_refcount_dec_and_test_zero w = Inr (w - 1 = 0, w - 1)"
    using lt w by (simp add: CRYPTO_refcount_dec_and_test_zero_def Let_def)
  from that [OF this] u z show thesis by (auto simp: counted_def)
qed

subsection \<open>Every step keeps the invariant and none goes wrong\<close>

lemma inc_ref_inv:
  assumes "pool_inv s" and "heap (pool s) a = Some b" and "a \<notin> inflight s"
  obtains st where "inc_ref (pool s) a = Inr st"
    "pool_inv (s\<lparr>pool := st, held := give (Some a) (held s)\<rparr>)"
proof -
  let ?b = "b\<lparr>cb_references := CRYPTO_refcount_inc (cb_references b)\<rparr>"
  let ?st = "pool s\<lparr>heap := (heap (pool s))(a \<mapsto> ?b)\<rparr>"
  have ok: "live_ok s a b" using pool_invD(2) [OF assms(1,2)] .
  then have "counted (cb_references ?b) (held s a + 1)"
    using counted_inc assms(3) by (simp add: live_ok_def)
  then have "pool_inv (s\<lparr>pool := ?st, held := give (Some a) (held s)\<rparr>)"
    using assms ok table_data(2) [OF assms(1) _ assms(2)] by (auto simp: pool_inv_def live_ok_def give_def)
  moreover have "inc_ref (pool s) a = Inr ?st" by (simp add: inc_ref_def assms(2))
  ultimately show thesis using that by blast
qed

lemma new_lookup_inv:
  assumes "pool_inv s"
  obtains r st where "new_lookup (pool s) data = Inr (r, st)"
    "pool_inv (s\<lparr>pool := st, held := give r (held s)\<rparr>)"
proof (cases "lh_retrieve (bufs (pool s)) (0, data)")
  case None
  then show thesis using that [of None "pool s"] assms by (simp add: new_lookup_def give_def)
next
  case (Some k)
  then have "k \<in> lh_set (bufs (pool s))" using retrieve_key [OF assms, of 0 data k] by blast
  then have "(fst k, snd k) \<in> lh_set (bufs (pool s))" by simp
  then obtain b where "heap (pool s) (fst k) = Some b" "fst k \<notin> inflight s"
    using table_settled [OF assms] by metis
  from inc_ref_inv [OF assms this] obtain st where "inc_ref (pool s) (fst k) = Inr st"
    "pool_inv (s\<lparr>pool := st, held := give (Some (fst k)) (held s)\<rparr>)" .
  then show thesis using that [of "Some (fst k)" st] Some by (simp add: new_lookup_def)
qed

lemma new_alloc_state:
  assumes "new_alloc al a pooled st data = Some st'" and "length data \<le> PTRDIFF_MAX"
  shows "st' = st\<lparr>heap := (heap st)(a \<mapsto> \<lparr>cb_pool = pooled, cb_data = data, cb_references = 1\<rparr>)\<rparr>"
  using assms BUF_memdup_copies [of al data]
  by (auto simp: new_alloc_def split: if_split_asm option.split_asm)

lemma new_alloc_inv:
  assumes "pool_inv s" and "heap (pool s) a = None" and "new_alloc al a pooled (pool s) data = Some st"
    and "length data \<le> PTRDIFF_MAX"
  shows "pool_inv (if pooled then s\<lparr>pool := st, inflight := insert a (inflight s)\<rparr>
    else s\<lparr>pool := st, held := give (Some a) (held s)\<rparr>)"
proof -
  have "(a, d) \<notin> lh_set (bufs (pool s))" for d using table_data(1) [OF assms(1)] assms(2) by blast
  moreover have "counted 1 1" by (simp add: counted_def)
  ultimately show ?thesis
    using assms(1,2) unfolding new_alloc_state [OF assms(3,4)]
    by (auto simp: pool_inv_def live_ok_def give_def)
qed

lemma held_first:
  "s\<lparr>held := h, pool := p, inflight := i\<rparr> = s\<lparr>pool := p, inflight := i, held := h\<rparr>"
  by simp

lemma free_inflight_inv:
  assumes "pool_inv s" and "a \<in> inflight s"
  shows "pool_inv (s\<lparr>pool := free_buffer (pool s) a, inflight := inflight s - {a}\<rparr>)"
proof -
  have n: "(a, d) \<notin> lh_set (bufs (pool s))" for d
    using assms table_data(3) by blast
  have "held s a = 0" using assms by (cases "heap (pool s) a") (auto simp: pool_inv_def live_ok_def)
  then show ?thesis using assms n by (auto simp: pool_inv_def live_ok_def free_buffer_def)
qed

lemma inc_ref_other:
  assumes "inc_ref st a = Inr st'" and "a' \<noteq> a"
  shows "bufs st' = bufs st" "heap st' a' = heap st a'"
  using assms by (auto simp: inc_ref_def split: option.split_asm)

text \<open>The second critical section without a duplicate: the buffer settles in the table, or it is freed.\<close>

lemma new_insert_fresh_inv:
  assumes "pool_inv s" and "a \<in> inflight s" and "heap (pool s) a = Some buf"
    and "lh_retrieve (bufs (pool s)) (a, cb_data buf) = None"
    and "lh_insert al (bufs (pool s)) (a, cb_data buf) = (ok, old, t)"
  shows "old = None"
    "ok \<Longrightarrow> pool_inv (s\<lparr>pool := pool s\<lparr>bufs := t\<rparr>, inflight := inflight s - {a}, held := give (Some a) (held s)\<rparr>)"
    "\<not> ok \<Longrightarrow> pool_inv (s\<lparr>pool := free_buffer (pool s\<lparr>bufs := t\<rparr>) a, inflight := inflight s - {a}\<rparr>)"
proof -
  have v: "lh_valid CRYPTO_BUFFER_hash CRYPTO_BUFFER_cmp t" and old: "old = None"
    and t: "lh_set t = (if ok then insert (a, cb_data buf)
        {x \<in> lh_set (bufs (pool s)). CRYPTO_BUFFER_cmp x (a, cb_data buf) \<noteq> 0}
      else lh_set (bufs (pool s)))"
    using buffers.valid_insert [OF pool_invD(1) [OF assms(1)] assms(5)] assms(4) by auto
  have "snd k \<noteq> cb_data buf" if "k \<in> lh_set (bufs (pool s))" for k
    using retrieve_key [OF assms(1), of a "cb_data buf" k] assms(4) that by auto
  then have set: "lh_set t = (if ok then insert (a, cb_data buf) (lh_set (bufs (pool s)))
      else lh_set (bufs (pool s)))"
    unfolding t by (auto simp: CRYPTO_BUFFER_cmp_0_iff)
  show "old = None" by (rule old)
  show "pool_inv (s\<lparr>pool := pool s\<lparr>bufs := t\<rparr>, inflight := inflight s - {a}, held := give (Some a) (held s)\<rparr>)"
    if ok
  proof -
    have set': "lh_set t = insert (a, cb_data buf) (lh_set (bufs (pool s)))" using set that by simp
    have a: "cb_pool buf" "cb_references buf = 1" "held s a = 0" "counted 1 1"
      using pool_invD(2) [OF assms(1,3)] assms(2) by (simp_all add: live_ok_def counted_def)
    let ?s = "s\<lparr>pool := pool s\<lparr>bufs := t\<rparr>, inflight := inflight s - {a}, held := give (Some a) (held s)\<rparr>"
    have "live_ok ?s a' b" if "heap (pool s) a' = Some b" for a' b
      using pool_invD(2) [OF assms(1) that] that assms(3) a
      by (cases "a' = a") (simp_all add: live_ok_def give_def set')
    moreover have "\<exists>b. heap (pool s) a' = Some b \<and> cb_data b = d" if "(a', d) \<in> lh_set t" for a' d
      using that assms(3) pool_invD(3) [OF assms(1)] unfolding set' by blast
    moreover have "a' \<notin> inflight ?s \<and> held ?s a' = 0" if "heap (pool s) a' = None" for a'
      using pool_invD(4) [OF assms(1) that] that assms(3) by (cases "a' = a") (simp_all add: give_def)
    ultimately show ?thesis using v unfolding pool_inv_def by simp
  qed
  show "pool_inv (s\<lparr>pool := free_buffer (pool s\<lparr>bufs := t\<rparr>) a, inflight := inflight s - {a}\<rparr>)" if "\<not> ok"
  proof -
    have "lh_set t = lh_set (bufs (pool s))" using set that by simp
    then have "pool_inv (s\<lparr>pool := pool s\<lparr>bufs := t\<rparr>\<rparr>)"
      using assms(1) v by (simp add: pool_inv_def live_ok_def)
    from free_inflight_inv [OF this] assms(2) show ?thesis by simp
  qed
qed

lemma new_insert_inv:
  assumes "pool_inv s" and "a \<in> inflight s"
  obtains r st where "new_insert al (pool s) a = Inr (r, st)"
    "pool_inv (s\<lparr>pool := st, inflight := inflight s - {a}, held := give r (held s)\<rparr>)"
proof -
  obtain buf where buf: "heap (pool s) a = Some buf"
    using pool_invD(4) [OF assms(1), of a] assms(2) by (cases "heap (pool s) a") auto
  show thesis
  proof (cases "lh_retrieve (bufs (pool s)) (a, cb_data buf)")
    case None
    obtain ok old t where ins: "lh_insert al (bufs (pool s)) (a, cb_data buf) = (ok, old, t)"
      by (metis prod_cases3)
    note f = new_insert_fresh_inv [OF assms buf None ins]
    show thesis
    proof (cases ok)
      case True
      then show thesis using that [of "Some a"] buf None ins f by (simp add: new_insert_def)
    next
      case False
      then show thesis using that [of None] buf None ins f by (simp add: new_insert_def give_def)
    qed
  next
    case (Some k)
    then have "k \<in> lh_set (bufs (pool s))"
      using retrieve_key [OF assms(1), of a "cb_data buf" k] by blast
    then have "(fst k, snd k) \<in> lh_set (bufs (pool s))" by simp
    then obtain b where b: "heap (pool s) (fst k) = Some b" "fst k \<notin> inflight s"
      using table_settled [OF assms(1)] by metis
    from inc_ref_inv [OF assms(1) this] obtain st where st: "inc_ref (pool s) (fst k) = Inr st"
      "pool_inv (s\<lparr>pool := st, held := give (Some (fst k)) (held s)\<rparr>)" .
    have "pool_inv (s\<lparr>pool := free_buffer st a, inflight := inflight s - {a},
        held := give (Some (fst k)) (held s)\<rparr>)"
      using free_inflight_inv [OF st(2), of a] assms(2) by (simp add: held_first)
    then show thesis using that [of "Some (fst k)"] buf Some st(1) by (simp add: new_insert_def)
  qed
qed

lemma held_settled:
  assumes "pool_inv s" and "0 < held s a"
  obtains b where "heap (pool s) a = Some b" "a \<notin> inflight s" "counted (cb_references b) (held s a)"
    "(a, cb_data b) \<in> lh_set (bufs (pool s)) \<longleftrightarrow> cb_pool b"
proof -
  obtain b where b: "heap (pool s) a = Some b"
    using pool_invD(4) [OF assms(1), of a] assms(2) by (cases "heap (pool s) a") auto
  with that pool_invD(2) [OF assms(1) b] assms(2) show thesis
    by (auto simp: live_ok_def split: if_split_asm)
qed

lemma CRYPTO_BUFFER_free_inv:
  assumes "pool_inv s" and "0 < held s a"
  obtains st where "CRYPTO_BUFFER_free al (pool s) (Some a) = Inr st"
    "pool_inv (s\<lparr>pool := st, held := (held s)(a := held s a - 1)\<rparr>)"
proof -
  obtain b where b: "heap (pool s) a = Some b" "a \<notin> inflight s" "counted (cb_references b) (held s a)"
    "(a, cb_data b) \<in> lh_set (bufs (pool s)) \<longleftrightarrow> cb_pool b"
    using held_settled [OF assms] .
  obtain z w where zw: "CRYPTO_refcount_dec_and_test_zero (cb_references b) = Inr (z, w)"
    "z \<Longrightarrow> held s a = 1" "\<not> z \<Longrightarrow> counted w (held s a - 1)"
    using counted_dec [OF b(3) assms(2)] by blast
  note data = table_data(2) [OF assms(1) _ b(1)]
  consider "\<not> z" | "z" "\<not> cb_pool b" | "z" "cb_pool b" by blast
  then show thesis
  proof cases
    case 1
    let ?st = "pool s\<lparr>heap := (heap (pool s))(a \<mapsto> b\<lparr>cb_references := w\<rparr>)\<rparr>"
    have "pool_inv (s\<lparr>pool := ?st, held := (held s)(a := held s a - 1)\<rparr>)"
      using assms(1) b zw(3) 1 data by (auto simp: pool_inv_def live_ok_def)
    then show thesis using that [of ?st] b(1) zw(1) 1 by (simp add: CRYPTO_BUFFER_free_def)
  next
    case 2
    have "(a, d) \<notin> lh_set (bufs (pool s))" for d using b(4) 2 data by blast
    then have "pool_inv (s\<lparr>pool := free_buffer (pool s) a, held := (held s)(a := held s a - 1)\<rparr>)"
      using assms(1) b zw(2) 2 by (auto simp: pool_inv_def live_ok_def free_buffer_def)
    then show thesis
      using that [of "free_buffer (pool s) a"] b(1) zw(1) 2
      by (simp add: CRYPTO_BUFFER_free_def free_buffer_def)
  next
    case 3
    obtain old t where del: "lh_delete al (bufs (pool s)) (a, cb_data b) = (old, t)" by fastforce
    note d = buffers.valid_delete [OF pool_invD(1) [OF assms(1)] del]
    have "old = Some (a, cb_data b)"
      using d retrieve_key [OF assms(1), of a "cb_data b"] b(4) 3 by simp
    moreover have "lh_set t = lh_set (bufs (pool s)) - {(a, cb_data b)}"
      using d table_unique [OF assms(1)] b(4) 3 by (auto simp: CRYPTO_BUFFER_cmp_0_iff)
    then have "pool_inv (s\<lparr>pool := free_buffer (pool s\<lparr>bufs := t\<rparr>) a, held := (held s)(a := held s a - 1)\<rparr>)"
      using assms(1) b zw(2) 3 d data by (auto simp: pool_inv_def live_ok_def free_buffer_def)
    ultimately show thesis
      using that [of "free_buffer (pool s\<lparr>bufs := t\<rparr>) a"] b(1) zw(1) 3 del
      by (simp add: CRYPTO_BUFFER_free_def free_buffer_def)
  qed
qed

lemma CRYPTO_BUFFER_up_ref_inv:
  assumes "pool_inv s" and "0 < held s a"
  obtains st where "CRYPTO_BUFFER_up_ref (pool s) a = Inr st"
    "pool_inv (s\<lparr>pool := st, held := give (Some a) (held s)\<rparr>)"
proof -
  obtain b where "heap (pool s) a = Some b" "a \<notin> inflight s" using held_settled [OF assms] .
  from inc_ref_inv [OF assms(1) this] that show thesis by (metis CRYPTO_BUFFER_up_ref_def)
qed

lemma pool_step_inv: "pool_step s s' \<Longrightarrow> pool_inv s \<Longrightarrow> pool_inv s'"
proof (induction rule: pool_step.induct)
  case (Lookup s data r st)
  then show ?case using new_lookup_inv [of s data] by (metis Pair_inject sum.inject(2))
next
  case (AllocPooled s a data al st)
  then show ?case using new_alloc_inv [of s a al True data st] by simp
next
  case (AllocPlain s a data al st)
  then show ?case using new_alloc_inv [of s a al False data st] by simp
next
  case (Insert a s al r st)
  then show ?case using new_insert_inv [of s a al] by (metis Pair_inject sum.inject(2))
next
  case (UpRef s a st)
  then show ?case using CRYPTO_BUFFER_up_ref_inv [of s a] by (metis sum.inject(2))
next
  case (Free s a al st)
  then show ?case using CRYPTO_BUFFER_free_inv [of s a al] by (metis sum.inject(2))
qed

lemma pool_reach_inv: "pool_reach s \<Longrightarrow> pool_inv s"
proof (induction rule: pool_reach.induct)
  case (Start al n st)
  then obtain t where "lh_new al CRYPTO_BUFFER_hash CRYPTO_BUFFER_cmp = Some t"
    "st = \<lparr>heap = Map.empty, bufs = t\<rparr>"
    by (auto simp: CRYPTO_BUFFER_POOL_new_def split: if_split_asm option.split_asm)
  then show ?case using buffers.valid_new by (auto simp: pool_inv_def pool_start_def)
next
  case (Step s s')
  then show ?case using pool_step_inv by blast
qed

subsection \<open>The whole of \<open>CRYPTO_BUFFER_new\<close>\<close>

lemma new_alloc_None:
  "new_alloc al a pooled st data = None \<longleftrightarrow>
    \<not> mallocs al 32 \<or> (data \<noteq> [] \<and> \<not> mallocs al (length data))"
  by (auto simp: new_alloc_def BUF_memdup_def OPENSSL_malloc_def split: if_split_asm)

text \<open>
  What a call returns: a buffer with the requested contents, shared if the pool has one, or
  nothing when an allocation fails, with the heap as before.
\<close>

definition new_result ::
  "allocator \<Rightarrow> bool \<Rightarrow> pool_sys \<Rightarrow> byte list \<Rightarrow> nat option \<Rightarrow> pool_state \<Rightarrow> bool" where
  "new_result al pooled s data r st \<longleftrightarrow>
     (case r of
        Some p \<Rightarrow> (\<exists>b. heap st p = Some b \<and> cb_data b = data \<and> cb_pool b = pooled)
          \<and> (pooled \<longrightarrow> (p, data) \<in> lh_set (bufs st)
               \<and> (\<forall>q. (q, data) \<in> lh_set (bufs (pool s)) \<longrightarrow> p = q))
      | None \<Rightarrow> heap st = heap (pool s)
          \<and> \<not> (mallocs al 32 \<and> mallocs al (length data) \<and> mallocs al 24))"

lemma new_pooled_hit:
  assumes "pool_inv s" and "(p, data) \<in> lh_set (bufs (pool s))"
  shows "\<exists>st. CRYPTO_BUFFER_new al a True (pool s) data = Inr (Some p, st) \<and> new_result al True s data (Some p) st"
proof -
  have r: "lh_retrieve (bufs (pool s)) (0, data) = Some (p, data)"
    using retrieve_key [OF assms(1), of 0 data "(p, data)"] assms(2) by simp
  obtain b where b: "heap (pool s) p = Some b" "cb_data b = data" "p \<notin> inflight s"
    using table_settled [OF assms] .
  let ?st = "pool s\<lparr>heap := (heap (pool s))(p \<mapsto> b\<lparr>cb_references := CRYPTO_refcount_inc (cb_references b)\<rparr>)\<rparr>"
  have pb: "cb_pool b" using pool_invD(2) [OF assms(1) b(1)] b assms(2) by (simp add: live_ok_def)
  have "\<forall>q. (q, data) \<in> lh_set (bufs (pool s)) \<longrightarrow> p = q"
    using table_unique [OF assms(1,2)] by blast
  then have "new_result al True s data (Some p) ?st"
    unfolding new_result_def option.case by (intro conjI impI) (simp_all add: b(2) pb assms(2))
  moreover have "CRYPTO_BUFFER_new al a True (pool s) data = Inr (Some p, ?st)"
    by (simp add: CRYPTO_BUFFER_new_def new_lookup_def inc_ref_def r b(1))
  ultimately show ?thesis by blast
qed

lemma new_pooled_miss:
  assumes "pool_inv s" and "heap (pool s) a = None" and "\<And>q. (q, data) \<notin> lh_set (bufs (pool s))"
    and "length data \<le> PTRDIFF_MAX"
  shows "\<exists>r st. CRYPTO_BUFFER_new al a True (pool s) data = Inr (r, st) \<and> new_result al True s data r st"
proof -
  have miss: "lh_retrieve (bufs (pool s)) (x, data) = None" for x
    using retrieve_key [OF assms(1), of x data] assms(3) by (metis not_None_eq prod.collapse)
  then have look: "new_lookup (pool s) data = Inr (None, pool s)" by (simp add: new_lookup_def)
  show ?thesis
  proof (cases "new_alloc al a True (pool s) data")
    case None
    then show ?thesis using look new_alloc_None [of al a True "pool s" data]
      by (auto simp: CRYPTO_BUFFER_new_def new_result_def)
  next
    case (Some st)
    note st = new_alloc_state [OF Some assms(4)]
    obtain ok old t where ins: "lh_insert al (bufs (pool s)) (a, data) = (ok, old, t)"
      by (metis prod_cases3)
    note i = buffers.valid_insert [OF pool_invD(1) [OF assms(1)] ins]
    have "(heap (pool s))(a := None) = heap (pool s)" using assms(2) by (rule fun_upd_idem)
    then have "new_insert al st a = Inr (if ok then (Some a, st\<lparr>bufs := t\<rparr>) else (None, pool s\<lparr>bufs := t\<rparr>))"
      using ins i miss by (simp add: new_insert_def st free_buffer_def)
    then show ?thesis using look Some i miss st assms(3)
      by (auto simp: CRYPTO_BUFFER_new_def new_result_def)
  qed
qed

section \<open>Properties\<close>

text \<open>
  C18: the pool is memory safe under every interleaving. In every state that threads can reach by
  running the critical sections of \<open>CRYPTO_BUFFER_new\<close>, \<open>CRYPTO_BUFFER_up_ref\<close> and
  \<open>CRYPTO_BUFFER_free\<close> in any order, each using only references it holds, no operation touches a freed
  buffer, no count underflows into \<open>abort\<close> and no \<open>assert\<close> fails; and a buffer whose construction is
  over has as its count the number of references held, unless the count has saturated, so that a
  buffer without references is gone.
\<close>

theorem pool_safe:
  assumes "pool_reach s"
  shows "(\<exists>r st. new_lookup (pool s) data = Inr (r, st))
    \<and> (a \<in> inflight s \<longrightarrow> (\<exists>r st. new_insert al (pool s) a = Inr (r, st)))
    \<and> (0 < held s a \<longrightarrow> (\<exists>st. CRYPTO_BUFFER_up_ref (pool s) a = Inr st)
         \<and> (\<exists>st. CRYPTO_BUFFER_free al (pool s) (Some a) = Inr st))
    \<and> (\<forall>b. heap (pool s) a = Some b \<longrightarrow> a \<in> inflight s \<or> 0 < cb_references b
         \<and> (unat (cb_references b) = held s a \<or> cb_references b = CRYPTO_REFCOUNT_MAX))"
proof -
  note inv = pool_reach_inv [OF assms]
  have "a \<in> inflight s \<or> 0 < cb_references b
      \<and> (unat (cb_references b) = held s a \<or> cb_references b = CRYPTO_REFCOUNT_MAX)"
    if "heap (pool s) a = Some b" for b
    using pool_invD(2) [OF inv that] by (auto simp: live_ok_def counted_def word_neq_0_conv)
  then show ?thesis
    using new_lookup_inv [OF inv, of data] new_insert_inv [OF inv, of a al]
      CRYPTO_BUFFER_up_ref_inv [OF inv, of a] CRYPTO_BUFFER_free_inv [OF inv, of a al]
    by metis
qed

text \<open>
  C19: the pool interns. In every reachable state two references to pooled buffers with the same
  contents are the same pointer, whichever races the constructors ran.
\<close>

theorem pool_interns:
  assumes "pool_reach s" and "0 < held s a" and "0 < held s a'"
    and "heap (pool s) a = Some b" and "heap (pool s) a' = Some b'"
    and "cb_pool b" and "cb_pool b'" and "cb_data b = cb_data b'"
  shows "a = a'"
proof -
  note inv = pool_reach_inv [OF assms(1)]
  have "(a, cb_data b) \<in> lh_set (bufs (pool s))" "(a', cb_data b) \<in> lh_set (bufs (pool s))"
    using held_settled [OF inv assms(2)] held_settled [OF inv assms(3)] assms(4-) by (metis option.inject)+
  then show ?thesis by (rule table_unique [OF inv])
qed

text \<open>
  \<open>CRYPTO_BUFFER_new\<close> of a pool in a reachable state never goes wrong; it returns a buffer with
  the requested contents, which is the pool's own one when there is one, or it returns \<open>NULL\<close>
  because an allocation failed, and then leaves the heap as it was.
\<close>

theorem CRYPTO_BUFFER_new_shares:
  assumes "pool_reach s" and "heap (pool s) a = None" and "length data \<le> PTRDIFF_MAX"
  shows "\<exists>r st. CRYPTO_BUFFER_new al a True (pool s) data = Inr (r, st) \<and> new_result al True s data r st"
  using new_pooled_hit [OF pool_reach_inv [OF assms(1)]]
    new_pooled_miss [OF pool_reach_inv [OF assms(1)] assms(2) _ assms(3)]
  by blast

subsection \<open>A run\<close>

text \<open>One pooled buffer, allocated at address 1 and inserted, with one reference held.\<close>

definition empty_pool :: pool_state where
  "empty_pool = the (CRYPTO_BUFFER_POOL_new every_block 8 Map.empty)"

definition sample_buffer :: crypto_buffer where
  "sample_buffer = \<lparr>cb_pool = True, cb_data = [5], cb_references = 1\<rparr>"

definition pool_sample :: pool_sys where
  "pool_sample =
     \<lparr>pool = \<lparr>heap = [1 \<mapsto> sample_buffer],
              bufs = snd (snd (lh_insert every_block (bufs empty_pool) (1, [5])))\<rparr>,
      inflight = {}, held = (\<lambda>_. 0)(1 := 1)\<rparr>"

lemma empty_pool_new: "CRYPTO_BUFFER_POOL_new every_block 8 Map.empty = Some empty_pool"
  by (simp add: empty_pool_def CRYPTO_BUFFER_POOL_new_def lh_new_def every_block_small kMinNumBuckets_def)

lemma empty_pool_reach: "pool_reach (pool_start empty_pool)"
  using pool_reach.Start [OF empty_pool_new] .

lemma empty_pool_fields:
  "heap empty_pool = Map.empty" "lh_set (bufs empty_pool) = {}"
  using pool_reach_inv [OF empty_pool_reach]
  by (auto simp: empty_pool_def CRYPTO_BUFFER_POOL_new_def every_block_small lh_new_def lh_set_def
      kMinNumBuckets_def eval_nat_numeral)

lemma pool_sample_reach: "pool_reach pool_sample"
proof -
  let ?s0 = "pool_start empty_pool"
  let ?st = "empty_pool\<lparr>heap := [1 \<mapsto> sample_buffer]\<rparr>"
  let ?s1 = "?s0\<lparr>pool := ?st, inflight := insert 1 (inflight ?s0)\<rparr>"
  have "new_alloc every_block 1 True empty_pool [5] = Some ?st"
    by (simp add: new_alloc_def BUF_memdup_def OPENSSL_malloc_def every_block_small write_at_def
        empty_pool_fields sample_buffer_def)
  then have "pool_step ?s0 ?s1"
    by (intro pool_step.AllocPooled [of _ _ "[5]" every_block]) (simp_all add: pool_start_def empty_pool_fields PTRDIFF_MAX_def)
  with empty_pool_reach have r1: "pool_reach ?s1" by (rule pool_reach.Step)
  note inv = pool_reach_inv [OF empty_pool_reach]
  obtain ok old t where ins: "lh_insert every_block (bufs empty_pool) (1, [5]) = (ok, old, t)"
    by (metis prod_cases3)
  have v: "lh_valid CRYPTO_BUFFER_hash CRYPTO_BUFFER_cmp (bufs empty_pool)"
    using pool_invD(1) [OF inv] by (simp add: pool_start_def)
  have miss: "lh_retrieve (bufs empty_pool) (1, [5]) = None"
    using buffers.lh_retrieve_None_iff [OF v] by (simp add: empty_pool_fields)
  then have "ok" "old = None"
    using buffers.valid_insert [OF v ins] by (auto simp: every_block_small)
  then have "new_insert every_block (pool ?s1) 1 = Inr (Some 1, ?st\<lparr>bufs := t\<rparr>)"
    using ins miss by (simp add: new_insert_def sample_buffer_def)
  then have "pool_step ?s1 (?s1\<lparr>pool := ?st\<lparr>bufs := t\<rparr>, inflight := inflight ?s1 - {1}, held := give (Some 1) (held ?s1)\<rparr>)"
    by (intro pool_step.Insert) simp_all
  with r1 have "pool_reach (?s1\<lparr>pool := ?st\<lparr>bufs := t\<rparr>, inflight := inflight ?s1 - {1}, held := give (Some 1) (held ?s1)\<rparr>)"
    by (rule pool_reach.Step)
  moreover have "?s1\<lparr>pool := ?st\<lparr>bufs := t\<rparr>, inflight := inflight ?s1 - {1}, held := give (Some 1) (held ?s1)\<rparr>
      = pool_sample"
    using ins by (simp add: pool_sample_def pool_start_def give_def)
  ultimately show ?thesis by simp
qed

theorem pool_safe_witness:
  "\<exists>st. CRYPTO_BUFFER_free every_block (pool pool_sample) (Some 1) = Inr st"
  using pool_safe [OF pool_sample_reach, of _ 1 every_block] by (simp add: pool_sample_def)

theorem pool_interns_witness:
  "{a. 0 < held pool_sample a \<and> heap (pool pool_sample) a = Some sample_buffer} = {1}"
proof -
  have b: "heap (pool pool_sample) 1 = Some sample_buffer" "0 < held pool_sample 1"
    by (simp_all add: pool_sample_def)
  then have "a = 1" if "0 < held pool_sample a" "heap (pool pool_sample) a = Some sample_buffer" for a
    using pool_interns [OF pool_sample_reach that(1) b(2) that(2) b(1)] by (simp add: sample_buffer_def)
  with b show ?thesis by blast
qed

theorem CRYPTO_BUFFER_new_shares_witness:
  "\<exists>r st. CRYPTO_BUFFER_new every_block 2 True (pool pool_sample) [5] = Inr (r, st)
    \<and> new_result every_block True pool_sample [5] r st"
  by (rule CRYPTO_BUFFER_new_shares [OF pool_sample_reach]) (simp_all add: pool_sample_def PTRDIFF_MAX_def)

end
