(* ===== verification/Stack.thy ===== *)
theory Stack
  imports Prelude "HOL-Library.Multiset"
begin

text \<open>
  The growable pointer array \<open>crypto/stack/stack.c\<close>. A pointer is an \<open>option\<close>, \<open>None\<close> being \<open>NULL\<close>;
  the array \<open>data\<close> has \<open>num_alloc\<close> entries of which the first \<open>num\<close> are in use. A comparison
  function is an identifier with a meaning \<open>cmp_of\<close>, because the code compares function pointers.
  \<open>qsort\<close> and \<open>bsearch\<close> of the C library are arguments; the locale \<open>libc_sort\<close> states what the
  C standard promises of them, and a reference implementation interprets it.
\<close>

section \<open>The code\<close>

type_synonym 'a ptr = "'a option"
type_synonym 'a cmp_func = "'a ptr \<Rightarrow> 'a ptr \<Rightarrow> int"

record ('a, 'c) stack =
  num :: nat
  data :: "'a ptr list"
  is_sorted_flag :: bool
  num_alloc :: nat
  sk_comp :: "'c option"

definition kMinSize :: nat where "kMinSize = 4"

text \<open>
  \<open>OPENSSL_realloc\<close> of an array of pointers to \<open>alloc_size\<close> bytes; \<open>fresh\<close> is what the new entries hold.
\<close>

definition ptr_realloc :: "allocator \<Rightarrow> (nat \<Rightarrow> 'a ptr) \<Rightarrow> 'a ptr list \<Rightarrow> nat \<Rightarrow> 'a ptr list option" where
  "ptr_realloc al fresh old alloc_size =
     (let n = usable alloc_size div 8 in
      if mallocs al alloc_size then Some (take n old @ map fresh [length old..<n]) else None)"

definition sk_new :: "allocator \<Rightarrow> 'c option \<Rightarrow> ('a, 'c) stack option" where
  "sk_new al cmp =
     (if \<not> mallocs al 40 then None
      else if \<not> mallocs al (8 * kMinSize) then None
      else Some \<lparr>num = 0, data = replicate kMinSize None, is_sorted_flag = False,
                 num_alloc = kMinSize, sk_comp = cmp\<rparr>)"

definition sk_new_null :: "allocator \<Rightarrow> ('a, 'c) stack option" where
  "sk_new_null al = sk_new al None"

definition sk_num :: "('a, 'c) stack option \<Rightarrow> nat" where
  "sk_num sk = (case sk of None \<Rightarrow> 0 | Some s \<Rightarrow> num s)"

definition sk_zero :: "('a, 'c) stack option \<Rightarrow> ('a, 'c) stack option" where
  "sk_zero sk =
     (case sk of None \<Rightarrow> None
      | Some s \<Rightarrow>
          if num s = 0 then Some s
          else Some (s\<lparr>data := write_at (data s) 0 (replicate (num s) None),
                       num := 0, is_sorted_flag := False\<rparr>))"

definition sk_value :: "('a, 'c) stack option \<Rightarrow> nat \<Rightarrow> 'a ptr" where
  "sk_value sk i =
     (case sk of None \<Rightarrow> None | Some s \<Rightarrow> if num s \<le> i then None else data s ! i)"

definition sk_set :: "('a, 'c) stack option \<Rightarrow> nat \<Rightarrow> 'a ptr \<Rightarrow> 'a ptr \<times> ('a, 'c) stack option" where
  "sk_set sk i v =
     (case sk of None \<Rightarrow> (None, None)
      | Some s \<Rightarrow> if num s \<le> i then (None, Some s) else (v, Some (s\<lparr>data := (data s)[i := v]\<rparr>)))"

text \<open>\<open>sk_pop_free\<close>: the elements on which \<open>func\<close> is called, in order.\<close>

definition sk_pop_free :: "('a, 'c) stack option \<Rightarrow> 'a list" where
  "sk_pop_free sk =
     (case sk of None \<Rightarrow> [] | Some s \<Rightarrow> List.map_filter (\<lambda>p. p) (take (num s) (data s)))"

text \<open>The size computation of \<open>sk_insert\<close>: doubling, or one more when doubling overflows.\<close>

definition overflows :: "nat \<Rightarrow> nat \<Rightarrow> bool" where
  "overflows old new_alloc \<longleftrightarrow> new_alloc < old \<or> sz (new_alloc * 8) div 8 \<noteq> new_alloc"

definition grown :: "nat \<Rightarrow> nat option" where
  "grown old =
     (let doubled = sz (old * 2);
          new_alloc = (if overflows old doubled then sz (old + 1) else doubled)
      in if overflows old new_alloc then None else Some new_alloc)"

text \<open>The room-making part of \<open>sk_insert\<close>.\<close>

definition make_room :: "allocator \<Rightarrow> (nat \<Rightarrow> 'a ptr) \<Rightarrow> ('a, 'c) stack \<Rightarrow> ('a, 'c) stack option" where
  "make_room al fresh s =
     (if num_alloc s \<le> sz (num s + 1) then
        (case grown (num_alloc s) of
           None \<Rightarrow> None
         | Some n \<Rightarrow>
             (case ptr_realloc al fresh (data s) (sz (n * 8)) of
                None \<Rightarrow> None
              | Some d \<Rightarrow> Some (s\<lparr>data := d, num_alloc := n\<rparr>)))
      else Some s)"

definition sk_insert ::
  "allocator \<Rightarrow> (nat \<Rightarrow> 'a ptr) \<Rightarrow> ('a, 'c) stack option \<Rightarrow> 'a ptr \<Rightarrow> nat \<Rightarrow> nat \<times> ('a, 'c) stack option" where
  "sk_insert al fresh sk p pos =
     (case sk of None \<Rightarrow> (0, None)
      | Some s \<Rightarrow>
          (case make_room al fresh s of
               None \<Rightarrow> (0, Some s)
             | Some s1 \<Rightarrow>
                 let d = (if num s1 \<le> pos then (data s1)[num s1 := p]
                          else (write_at (data s1) (pos + 1) (take (num s1 - pos) (drop pos (data s1))))[pos := p])
                 in (sz (num s1 + 1), Some (s1\<lparr>data := d, num := sz (num s1 + 1), is_sorted_flag := False\<rparr>))))"

definition sk_delete :: "('a, 'c) stack option \<Rightarrow> nat \<Rightarrow> 'a ptr \<times> ('a, 'c) stack option" where
  "sk_delete sk pos =
     (case sk of None \<Rightarrow> (None, None)
      | Some s \<Rightarrow>
          if num s \<le> pos then (None, Some s)
          else
            let ret = data s ! pos;
                d = (if pos \<noteq> num s - 1
                     then write_at (data s) pos (take (num s - pos - 1) (drop (pos + 1) (data s)))
                     else data s)
            in (ret, Some (s\<lparr>data := d, num := num s - 1\<rparr>)))"

text \<open>The loops \<open>for (i = 0; i < sk->num; i++) if (sk->data[i] == p)\<close>.\<close>

fun ptr_index :: "'a ptr \<Rightarrow> 'a ptr list \<Rightarrow> nat option" where
  "ptr_index p [] = None"
| "ptr_index p (q # qs) = (if q = p then Some 0 else map_option Suc (ptr_index p qs))"

definition sk_delete_ptr :: "('a, 'c) stack option \<Rightarrow> 'a ptr \<Rightarrow> 'a ptr \<times> ('a, 'c) stack option" where
  "sk_delete_ptr sk p =
     (case sk of None \<Rightarrow> (None, None)
      | Some s \<Rightarrow>
          (case ptr_index p (take (num s) (data s)) of
             None \<Rightarrow> (None, Some s)
           | Some i \<Rightarrow> sk_delete (Some s) i))"

type_synonym 'a qsort = "'a cmp_func \<Rightarrow> 'a ptr list \<Rightarrow> 'a ptr list"
type_synonym 'a bsearch = "'a cmp_func \<Rightarrow> 'a ptr \<Rightarrow> 'a ptr list \<Rightarrow> nat option"

definition sk_sort :: "'a qsort \<Rightarrow> ('c \<Rightarrow> 'a cmp_func) \<Rightarrow> ('a, 'c) stack option \<Rightarrow> ('a, 'c) stack option" where
  "sk_sort qsort cmp_of sk =
     (case sk of None \<Rightarrow> None
      | Some s \<Rightarrow>
          (case sk_comp s of
             None \<Rightarrow> Some s
           | Some c \<Rightarrow>
               if is_sorted_flag s then Some s
               else Some (s\<lparr>data := write_at (data s) 0 (qsort (cmp_of c) (take (num s) (data s))),
                            is_sorted_flag := True\<rparr>)))"

text \<open>The loop that walks back to the first equal element.\<close>

fun first_equal :: "'a cmp_func \<Rightarrow> 'a ptr \<Rightarrow> 'a ptr list \<Rightarrow> nat \<Rightarrow> nat" where
  "first_equal cmp p d 0 = 0"
| "first_equal cmp p d (Suc idx) = (if cmp p (d ! idx) = 0 then first_equal cmp p d idx else Suc idx)"

text \<open>\<open>sk_find\<close> returns the index it stores, if it returns 1, and the stack, which it may have sorted.\<close>

definition sk_find ::
  "'a qsort \<Rightarrow> 'a bsearch \<Rightarrow> ('c \<Rightarrow> 'a cmp_func) \<Rightarrow> ('a, 'c) stack option \<Rightarrow> 'a ptr
    \<Rightarrow> nat option \<times> ('a, 'c) stack option" where
  "sk_find qsort bsearch cmp_of sk p =
     (case sk of None \<Rightarrow> (None, None)
      | Some s \<Rightarrow>
          (case sk_comp s of
             None \<Rightarrow> (ptr_index p (take (num s) (data s)), Some s)
           | Some c \<Rightarrow>
               if p = None then (None, Some s)
               else
                 (case sk_sort qsort cmp_of (Some s) of
                    None \<Rightarrow> (None, None)
                  | Some s1 \<Rightarrow>
                      (case bsearch (cmp_of c) p (take (num s1) (data s1)) of
                         None \<Rightarrow> (None, Some s1)
                       | Some idx \<Rightarrow> (Some (first_equal (cmp_of c) p (data s1) idx), Some s1)))))"

definition sk_shift :: "('a, 'c) stack option \<Rightarrow> 'a ptr \<times> ('a, 'c) stack option" where
  "sk_shift sk =
     (case sk of None \<Rightarrow> (None, None)
      | Some s \<Rightarrow> if num s = 0 then (None, Some s) else sk_delete (Some s) 0)"

definition sk_push ::
  "allocator \<Rightarrow> (nat \<Rightarrow> 'a ptr) \<Rightarrow> ('a, 'c) stack \<Rightarrow> 'a ptr \<Rightarrow> nat \<times> ('a, 'c) stack option" where
  "sk_push al fresh s p = sk_insert al fresh (Some s) p (num s)"

definition sk_pop :: "('a, 'c) stack option \<Rightarrow> 'a ptr \<times> ('a, 'c) stack option" where
  "sk_pop sk =
     (case sk of None \<Rightarrow> (None, None)
      | Some s \<Rightarrow> if num s = 0 then (None, Some s) else sk_delete (Some s) (num s - 1))"

definition sk_dup ::
  "allocator \<Rightarrow> (nat \<Rightarrow> 'a ptr) \<Rightarrow> ('a, 'c) stack option \<Rightarrow> ('a, 'c) stack option" where
  "sk_dup al fresh sk =
     (case sk of None \<Rightarrow> None
      | Some s \<Rightarrow>
          (case sk_new al (sk_comp s) of
             None \<Rightarrow> None
           | Some ret \<Rightarrow>
               (case ptr_realloc al fresh (data ret) (sz (8 * num_alloc s)) of
                  None \<Rightarrow> None
                | Some d \<Rightarrow>
                    Some (ret\<lparr>data := write_at d 0 (take (num s) (data s)), num := num s,
                              is_sorted_flag := is_sorted_flag s, num_alloc := num_alloc s,
                              sk_comp := sk_comp s\<rparr>))))"

definition sk_is_sorted :: "('a, 'c) stack option \<Rightarrow> bool" where
  "sk_is_sorted sk = (case sk of None \<Rightarrow> True | Some s \<Rightarrow> is_sorted_flag s)"

definition sk_set_cmp_func :: "('a, 'c) stack \<Rightarrow> 'c option \<Rightarrow> 'c option \<times> ('a, 'c) stack" where
  "sk_set_cmp_func s cmp =
     (sk_comp s,
      (if sk_comp s \<noteq> cmp then s\<lparr>is_sorted_flag := False\<rparr> else s)\<lparr>sk_comp := cmp\<rparr>)"

text \<open>
  The copy loop of \<open>sk_deep_copy\<close> over \<open>ret->data\<close>: \<open>Inr\<close> the copied entries, or \<open>Inl\<close> the copies
  handed to \<open>free_func\<close> after a failure. \<open>copied\<close> are the entries before the current one. \<open>copy_func i x\<close>
  is what the call for entry \<open>i\<close> returns, so that it may depend on the calls before it.
\<close>

fun copy_loop :: "(nat \<Rightarrow> 'a \<Rightarrow> 'a ptr) \<Rightarrow> 'a ptr list \<Rightarrow> 'a ptr list \<Rightarrow> 'a list + 'a ptr list" where
  "copy_loop copy_func copied [] = Inr copied"
| "copy_loop copy_func copied (None # rest) = copy_loop copy_func (copied @ [None]) rest"
| "copy_loop copy_func copied (Some x # rest) =
     (case copy_func (length copied) x of
        None \<Rightarrow> Inl (List.map_filter (\<lambda>p. p) copied)
      | Some y \<Rightarrow> copy_loop copy_func (copied @ [Some y]) rest)"

text \<open>The stack returned and the elements freed.\<close>

definition sk_deep_copy ::
  "allocator \<Rightarrow> (nat \<Rightarrow> 'a ptr) \<Rightarrow> (nat \<Rightarrow> 'a \<Rightarrow> 'a ptr) \<Rightarrow> ('a, 'c) stack option
    \<Rightarrow> ('a, 'c) stack option \<times> 'a list" where
  "sk_deep_copy al fresh copy_func sk =
     (case sk_dup al fresh sk of
        None \<Rightarrow> (None, [])
      | Some ret \<Rightarrow>
          (case copy_loop copy_func [] (take (num ret) (data ret)) of
             Inl freed \<Rightarrow> (None, freed)
           | Inr d \<Rightarrow> (Some (ret\<lparr>data := write_at (data ret) 0 d\<rparr>), [])))"

section \<open>Abstraction and invariant\<close>

definition sk_list :: "('a, 'c) stack \<Rightarrow> 'a ptr list" where
  "sk_list s = take (num s) (data s)"

definition sk_ok :: "('a, 'c) stack \<Rightarrow> bool" where
  "sk_ok s \<longleftrightarrow> length (data s) = num_alloc s \<and> num s < num_alloc s \<and> block_size (8 * num_alloc s)"

lemma sk_okD:
  assumes "sk_ok s"
  shows "length (data s) = num_alloc s" "num s < num_alloc s" "num s < length (data s)"
    "8 * num_alloc s < SIZE_MODULUS" "num_alloc s < SIZE_MODULUS" "num s + 1 < SIZE_MODULUS"
    "length (sk_list s) = num s" "block_size (8 * num_alloc s)"
proof -
  have "block_size (8 * num_alloc s)" using assms by (simp add: sk_ok_def)
  from this block_size_less [OF this] assms show "length (data s) = num_alloc s" "num s < num_alloc s" "num s < length (data s)"
    "8 * num_alloc s < SIZE_MODULUS" "num_alloc s < SIZE_MODULUS" "num s + 1 < SIZE_MODULUS"
    "length (sk_list s) = num s" "block_size (8 * num_alloc s)"
    by (auto simp: sk_ok_def sk_list_def)
qed

lemma sk_new_ok: "sk_new al c = Some s \<Longrightarrow> sk_ok s \<and> sk_list s = [] \<and> sk_comp s = c"
  by (auto simp: sk_new_def sk_ok_def sk_list_def kMinSize_def block_size_def PTRDIFF_MAX_def OPENSSL_MALLOC_PREFIX_def split: if_split_asm)

lemma overflows_iff:
  assumes "n < SIZE_MODULUS"
  shows "overflows old n \<longleftrightarrow> n < old \<or> SIZE_MODULUS \<le> 8 * n"
proof -
  have "sz (n * 8) div 8 = n \<longleftrightarrow> n * 8 < SIZE_MODULUS"
  proof
    assume "sz (n * 8) div 8 = n"
    then have "n * 8 \<le> sz (n * 8)" by (metis div_times_less_eq_dividend)
    then show "n * 8 < SIZE_MODULUS" using sz_less [of "n * 8"] by linarith
  qed simp
  then show ?thesis by (auto simp: overflows_def)
qed

text \<open>An array that exists can be doubled without overflow.\<close>

lemma grown_doubles:
  assumes "block_size (8 * old)"
  shows "grown old = Some (2 * old)" and "8 * (2 * old) + 8 < SIZE_MODULUS"
proof -
  show d: "8 * (2 * old) + 8 < SIZE_MODULUS" using block_size_double [OF assms] by simp
  then have s: "sz (old * 2) = 2 * old" by (simp add: mult.commute)
  have "\<not> overflows old (2 * old)" using d by (simp add: overflows_iff)
  then show "grown old = Some (2 * old)" by (simp add: grown_def Let_def s)
qed

section \<open>The reference\<close>

text \<open>
  What a client may assume of the operations: a list of pointers. An insertion may fail, and
  then leaves the list alone.
\<close>

datatype 'a sk_op =
  Push "'a ptr" | InsertAt "'a ptr" nat | DeleteAt nat | DeletePtr "'a ptr" | Pop | Shift
  | SetAt nat "'a ptr" | ValueAt nat | Zero

datatype 'a sk_out = OutNum nat | OutPtr "'a ptr" | OutUnit

fun sk_exec ::
  "allocator \<Rightarrow> (nat \<Rightarrow> 'a ptr) \<Rightarrow> 'a sk_op \<Rightarrow> ('a, 'c) stack \<Rightarrow> 'a sk_out \<times> ('a, 'c) stack" where
  "sk_exec al fresh (Push p) s = map_prod OutNum the (sk_push al fresh s p)"
| "sk_exec al fresh (InsertAt p i) s = map_prod OutNum the (sk_insert al fresh (Some s) p i)"
| "sk_exec al fresh (DeleteAt i) s = map_prod OutPtr the (sk_delete (Some s) i)"
| "sk_exec al fresh (DeletePtr p) s = map_prod OutPtr the (sk_delete_ptr (Some s) p)"
| "sk_exec al fresh Pop s = map_prod OutPtr the (sk_pop (Some s))"
| "sk_exec al fresh Shift s = map_prod OutPtr the (sk_shift (Some s))"
| "sk_exec al fresh (SetAt i p) s = map_prod OutPtr the (sk_set (Some s) i p)"
| "sk_exec al fresh (ValueAt i) s = (OutPtr (sk_value (Some s) i), s)"
| "sk_exec al fresh Zero s = (OutUnit, the (sk_zero (Some s)))"

definition remove_at :: "nat \<Rightarrow> 'b list \<Rightarrow> 'b list" where
  "remove_at i xs = take i xs @ drop (Suc i) xs"

inductive list_step :: "'a sk_op \<Rightarrow> 'a ptr list \<Rightarrow> 'a sk_out \<Rightarrow> 'a ptr list \<Rightarrow> bool" where
  PushOk: "list_step (Push p) xs (OutNum (length xs + 1)) (xs @ [p])"
| PushFail: "list_step (Push p) xs (OutNum 0) xs"
| InsertOk: "list_step (InsertAt p i) xs (OutNum (length xs + 1)) (take i xs @ [p] @ drop i xs)"
| InsertFail: "list_step (InsertAt p i) xs (OutNum 0) xs"
| DeleteIn: "i < length xs \<Longrightarrow> list_step (DeleteAt i) xs (OutPtr (xs ! i)) (remove_at i xs)"
| DeleteOut: "length xs \<le> i \<Longrightarrow> list_step (DeleteAt i) xs (OutPtr None) xs"
| DeletePtrHit: "p \<in> set xs \<Longrightarrow> list_step (DeletePtr p) xs (OutPtr p) (remove1 p xs)"
| DeletePtrMiss: "p \<notin> set xs \<Longrightarrow> list_step (DeletePtr p) xs (OutPtr None) xs"
| PopOk: "list_step Pop (xs @ [p]) (OutPtr p) xs"
| PopEmpty: "list_step Pop [] (OutPtr None) []"
| ShiftOk: "list_step Shift (p # xs) (OutPtr p) xs"
| ShiftEmpty: "list_step Shift [] (OutPtr None) []"
| SetIn: "i < length xs \<Longrightarrow> list_step (SetAt i p) xs (OutPtr p) (xs[i := p])"
| SetOut: "length xs \<le> i \<Longrightarrow> list_step (SetAt i p) xs (OutPtr None) xs"
| ValueIn: "i < length xs \<Longrightarrow> list_step (ValueAt i) xs (OutPtr (xs ! i)) xs"
| ValueOut: "length xs \<le> i \<Longrightarrow> list_step (ValueAt i) xs (OutPtr None) xs"
| Zero: "list_step Zero xs OutUnit []"

section \<open>Simulation\<close>

lemma make_room_ok:
  assumes "sk_ok s" and "make_room al fresh s = Some s1"
  shows "sk_ok s1" "num s1 = num s" "sk_list s1 = sk_list s" "num s + 1 < num_alloc s1" "sk_comp s1 = sk_comp s"
proof -
  note ok = sk_okD [OF assms(1)]
  have "sk_ok s1 \<and> num s1 = num s \<and> sk_list s1 = sk_list s \<and> num s + 1 < num_alloc s1 \<and> sk_comp s1 = sk_comp s"
  proof (cases "num_alloc s \<le> num s + 1")
    case True
    then obtain n d where n: "grown (num_alloc s) = Some n" "ptr_realloc al fresh (data s) (sz (n * 8)) = Some d"
      "s1 = s\<lparr>data := d, num_alloc := n\<rparr>"
      using assms(2) ok by (auto simp: make_room_def split: option.split_asm)
    note g = grown_doubles [OF ok(8)]
    have n2: "n = 2 * num_alloc s" using g(1) n(1) by simp
    then have "sz (n * 8) = 8 * n" "8 * n + 8 < SIZE_MODULUS" using g(2) by (simp_all add: mult.commute)
    then have "d = data s @ map fresh [num_alloc s..<n]" "block_size (8 * n)"
      using n(2) ok n2 mallocs_block_size [of al "8 * n"] by (auto simp: ptr_realloc_def Let_def split: if_split_asm)
    then show ?thesis using n(3) ok True n2 by (auto simp: sk_ok_def sk_list_def)
  next
    case False
    then show ?thesis using assms ok by (simp add: make_room_def)
  qed
  then show "sk_ok s1" "num s1 = num s" "sk_list s1 = sk_list s" "num s + 1 < num_alloc s1" "sk_comp s1 = sk_comp s"
    by blast+
qed

lemma take_shift_insert:
  assumes "pos < n" and "n < length d"
  shows "take (n + 1) ((write_at d (pos + 1) (take (n - pos) (drop pos d)))[pos := p])
    = take pos (take n d) @ [p] @ drop pos (take n d)"
proof (rule nth_equalityI)
  show "length (take (n + 1) ((write_at d (pos + 1) (take (n - pos) (drop pos d)))[pos := p]))
      = length (take pos (take n d) @ [p] @ drop pos (take n d))"
    using assms by simp
next
  fix i assume "i < length (take (n + 1) ((write_at d (pos + 1) (take (n - pos) (drop pos d)))[pos := p]))"
  then have "i < n + 1" by simp
  then show "take (n + 1) ((write_at d (pos + 1) (take (n - pos) (drop pos d)))[pos := p]) ! i
      = (take pos (take n d) @ [p] @ drop pos (take n d)) ! i"
    using assms by (auto simp: nth_list_update nth_write_at nth_append nth_Cons' intro!: arg_cong [of _ _ "(!) d"])
qed

lemma take_shift_delete:
  assumes "pos < n" and "n < length d"
  shows "take (n - 1) (if pos \<noteq> n - 1 then write_at d pos (take (n - pos - 1) (drop (pos + 1) d)) else d)
    = remove_at pos (take n d)"
proof (rule nth_equalityI)
  show "length (take (n - 1) (if pos \<noteq> n - 1 then write_at d pos (take (n - pos - 1) (drop (pos + 1) d)) else d))
      = length (remove_at pos (take n d))"
    using assms by (simp add: remove_at_def)
next
  fix i assume "i < length (take (n - 1) (if pos \<noteq> n - 1 then write_at d pos (take (n - pos - 1) (drop (pos + 1) d)) else d))"
  then have "i < n - 1" by simp
  then show "take (n - 1) (if pos \<noteq> n - 1 then write_at d pos (take (n - pos - 1) (drop (pos + 1) d)) else d) ! i
      = remove_at pos (take n d) ! i"
    using assms by (auto simp: nth_write_at nth_append remove_at_def)
qed

lemma sk_insert_cases:
  assumes "sk_ok s"
  shows "(sk_insert al fresh (Some s) p pos = (0, Some s) \<and> make_room al fresh s = None)
    \<or> (\<exists>s'. sk_insert al fresh (Some s) p pos = (length (sk_list s) + 1, Some s') \<and> sk_ok s'
         \<and> sk_list s' = take pos (sk_list s) @ [p] @ drop pos (sk_list s)
         \<and> \<not> is_sorted_flag s' \<and> sk_comp s' = sk_comp s)"
proof (cases "make_room al fresh s")
  case None
  then show ?thesis by (simp add: sk_insert_def)
next
  case (Some s1)
  note r = make_room_ok [OF assms Some] note ok = sk_okD [OF r(1)]
  define d where "d = (if num s1 \<le> pos then (data s1)[num s1 := p]
      else (write_at (data s1) (pos + 1) (take (num s1 - pos) (drop pos (data s1))))[pos := p])"
  let ?s = "s1\<lparr>data := d, num := num s1 + 1, is_sorted_flag := False\<rparr>"
  have len: "length d = num_alloc s1" using ok by (simp add: d_def)
  have "take (num s1 + 1) d = take pos (sk_list s1) @ [p] @ drop pos (sk_list s1)"
    using take_shift_insert [of pos "num s1" "data s1" p] ok
    by (auto simp: sk_list_def take_Suc_conv_app_nth d_def)
  then have "sk_list ?s = take pos (sk_list s) @ [p] @ drop pos (sk_list s)"
    unfolding sk_list_def [of ?s] by (simp add: r(3))
  moreover have "sk_ok ?s" using len ok r by (simp add: sk_ok_def)
  moreover have "sk_insert al fresh (Some s) p pos = (length (sk_list s) + 1, Some ?s)"
    using Some ok r(2) sk_okD(7) [OF assms] by (simp add: sk_insert_def Let_def d_def)
  ultimately show ?thesis using r(5) by auto
qed

lemma sk_delete_in:
  assumes "sk_ok s" and "pos < num s"
  obtains s' where "sk_delete (Some s) pos = (sk_list s ! pos, Some s')" "sk_ok s'"
    "sk_list s' = remove_at pos (sk_list s)" "is_sorted_flag s' = is_sorted_flag s" "sk_comp s' = sk_comp s"
proof -
  note ok = sk_okD [OF assms(1)]
  let ?d = "if pos \<noteq> num s - 1 then write_at (data s) pos (take (num s - pos - 1) (drop (pos + 1) (data s))) else data s"
  let ?s = "s\<lparr>data := ?d, num := num s - 1\<rparr>"
  have "sk_ok ?s" using ok assms by (auto simp: sk_ok_def)
  moreover have "sk_list ?s = remove_at pos (sk_list s)"
    using take_shift_delete [OF assms(2) ok(3)] by (simp add: sk_list_def)
  moreover have "sk_delete (Some s) pos = (sk_list s ! pos, Some ?s)"
    using assms(2) by (simp add: sk_delete_def Let_def sk_list_def)
  ultimately show thesis using that by simp
qed

lemma ptr_index_Some:
  "ptr_index p xs = Some i \<Longrightarrow> i < length xs \<and> xs ! i = p \<and> (\<forall>j < i. xs ! j \<noteq> p) \<and> remove_at i xs = remove1 p xs"
  by (induction xs arbitrary: i) (auto simp: remove_at_def nth_Cons split: if_split_asm nat.split)

lemma ptr_index_None: "ptr_index p xs = None \<longleftrightarrow> p \<notin> set xs"
  by (induction xs) auto

text \<open>\<open>refines opn s out s'\<close>: the outcome of an operation on \<open>s\<close> is one of the reference's.\<close>

definition refines :: "'a sk_op \<Rightarrow> ('a, 'c) stack \<Rightarrow> 'a sk_out \<Rightarrow> ('a, 'c) stack \<Rightarrow> bool" where
  "refines opn s out s' \<longleftrightarrow> sk_ok s' \<and> list_step opn (sk_list s) out (sk_list s')"

lemma sk_insert_refines:
  assumes "sk_ok s" and "sk_insert al fresh (Some s) p i = (n, s')"
  shows "refines (InsertAt p i) s (OutNum n) (the s')"
  using assms sk_insert_cases [OF assms(1), of al fresh p i] list_step.InsertOk [of p i "sk_list s"]
  by (auto simp: refines_def intro: list_step.InsertFail)

lemma sk_push_refines:
  assumes "sk_ok s" and "sk_push al fresh s p = (n, s')"
  shows "refines (Push p) s (OutNum n) (the s')"
  using assms sk_insert_cases [OF assms(1), of al fresh p "num s"] list_step.PushOk [of p "sk_list s"]
    sk_okD(7) [OF assms(1)]
  by (auto simp: refines_def sk_push_def intro: list_step.PushFail)

lemma sk_delete_refines:
  assumes "sk_ok s" and "sk_delete (Some s) i = (out, s')"
  shows "refines (DeleteAt i) s (OutPtr out) (the s')"
proof (cases "i < num s")
  case True
  from sk_delete_in [OF assms(1) this] show ?thesis
    using assms(2) sk_okD(7) [OF assms(1)] True
    by (metis list_step.DeleteIn option.sel prod.inject refines_def)
next
  case False
  then show ?thesis
    using assms sk_okD(7) [OF assms(1)] list_step.DeleteOut [of "sk_list s" i]
    by (auto simp: sk_delete_def refines_def)
qed

lemma sk_delete_ptr_refines:
  assumes "sk_ok s" and "sk_delete_ptr (Some s) p = (out, s')"
  shows "refines (DeletePtr p) s (OutPtr out) (the s')"
proof (cases "ptr_index p (sk_list s)")
  case None
  then have "p \<notin> set (sk_list s)" by (simp add: ptr_index_None)
  then show ?thesis using assms None list_step.DeletePtrMiss [of p "sk_list s"]
    by (auto simp: sk_delete_ptr_def refines_def sk_list_def)
next
  case (Some i)
  note i = ptr_index_Some [OF Some]
  then have lt: "i < num s" using sk_okD(7) [OF assms(1)] by simp
  obtain s1 where "sk_delete (Some s) i = (p, Some s1)" "sk_ok s1" "sk_list s1 = remove1 p (sk_list s)"
    using sk_delete_in [OF assms(1) lt] i by metis
  moreover have "p \<in> set (sk_list s)" using i nth_mem by blast
  ultimately show ?thesis using assms Some list_step.DeletePtrHit [of p "sk_list s"]
    by (auto simp: sk_delete_ptr_def refines_def sk_list_def)
qed

lemma sk_pop_refines:
  assumes "sk_ok s" and "sk_pop (Some s) = (out, s')"
  shows "refines Pop s (OutPtr out) (the s')"
proof (cases "num s = 0")
  case True
  then show ?thesis using assms list_step.PopEmpty by (auto simp: sk_pop_def sk_list_def refines_def)
next
  case False
  then obtain m where m: "num s = Suc m" by (cases "num s") auto
  obtain s1 where s1: "sk_delete (Some s) m = (sk_list s ! m, Some s1)" "sk_ok s1"
    "sk_list s1 = take m (sk_list s)"
    using sk_delete_in [OF assms(1), of m] m sk_okD(7) [OF assms(1)] by (auto simp: remove_at_def)
  have "sk_list s = take m (sk_list s) @ [sk_list s ! m]"
    using take_Suc_conv_app_nth [of m "sk_list s"] sk_okD(7) [OF assms(1)] m by simp
  then show ?thesis
    using assms s1 m list_step.PopOk [of "take m (sk_list s)" "sk_list s ! m"]
    by (auto simp: sk_pop_def refines_def)
qed

lemma sk_shift_refines:
  assumes "sk_ok s" and "sk_shift (Some s) = (out, s')"
  shows "refines Shift s (OutPtr out) (the s')"
proof (cases "sk_list s")
  case Nil
  then show ?thesis using assms sk_okD(7) [OF assms(1)] list_step.ShiftEmpty
    by (auto simp: sk_shift_def refines_def)
next
  case (Cons p xs)
  then have n: "num s = Suc (length xs)" using sk_okD(7) [OF assms(1)] by simp
  obtain s1 where "sk_delete (Some s) 0 = (p, Some s1)" "sk_ok s1" "sk_list s1 = xs"
    using sk_delete_in [OF assms(1), of 0] n Cons by (auto simp: remove_at_def)
  then show ?thesis using assms Cons n list_step.ShiftOk by (auto simp: sk_shift_def refines_def)
qed

lemma sk_set_refines:
  assumes "sk_ok s" and "sk_set (Some s) i p = (out, s')"
  shows "refines (SetAt i p) s (OutPtr out) (the s')"
proof -
  have "sk_ok (s\<lparr>data := (data s)[i := p]\<rparr>)" using assms(1) by (simp add: sk_ok_def)
  then show ?thesis
    using assms sk_okD(7) [OF assms(1)] list_step.SetIn [of i "sk_list s" p] list_step.SetOut [of "sk_list s" i p]
    by (auto simp: sk_set_def sk_list_def take_update_swap refines_def split: if_split_asm)
qed

lemma sk_value_refines:
  assumes "sk_ok s"
  shows "refines (ValueAt i) s (OutPtr (sk_value (Some s) i)) s"
  using assms sk_okD(7) [OF assms(1)] list_step.ValueIn [of i "sk_list s"] list_step.ValueOut [of "sk_list s" i]
  by (auto simp: sk_value_def sk_list_def refines_def)

lemma sk_zero_refines:
  assumes "sk_ok s"
  shows "refines Zero s OutUnit (the (sk_zero (Some s)))"
  using assms list_step.Zero [of "sk_list s"] by (auto simp: sk_zero_def sk_ok_def sk_list_def refines_def)

lemmas op_refines = sk_insert_refines sk_push_refines sk_delete_refines sk_delete_ptr_refines
  sk_pop_refines sk_shift_refines sk_set_refines sk_value_refines sk_zero_refines

lemma sk_exec_simulates:
  assumes "sk_ok s" and "sk_exec al fresh opn s = (out, s')"
  shows "refines opn s out s'"
  using assms by (cases opn) (auto simp: map_prod_def split: prod.split_asm intro: op_refines)

section \<open>Sorting and searching\<close>

text \<open>A comparison function that orders: antisymmetric in sign and transitive.\<close>

definition total_cmp :: "('p \<Rightarrow> 'p \<Rightarrow> int) \<Rightarrow> bool" where
  "total_cmp cmp \<longleftrightarrow>
     (\<forall>x y. cmp x y < 0 \<longleftrightarrow> 0 < cmp y x) \<and> (\<forall>x y z. cmp x y \<le> 0 \<longrightarrow> cmp y z \<le> 0 \<longrightarrow> cmp x z \<le> 0)"

abbreviation sorted_by :: "('p \<Rightarrow> 'p \<Rightarrow> int) \<Rightarrow> 'p list \<Rightarrow> bool" where
  "sorted_by cmp xs \<equiv> sorted_wrt (\<lambda>x y. cmp x y \<le> 0) xs"

lemma total_cmpD:
  assumes "total_cmp cmp"
  shows "cmp x y < 0 \<longleftrightarrow> 0 < cmp y x" "cmp x y \<le> 0 \<Longrightarrow> cmp y z \<le> 0 \<Longrightarrow> cmp x z \<le> 0"
    "cmp x y = 0 \<longleftrightarrow> cmp x y \<le> 0 \<and> cmp y x \<le> 0"
proof -
  show 1: "cmp x y < 0 \<longleftrightarrow> 0 < cmp y x" for x y using assms by (simp add: total_cmp_def)
  show "cmp x y \<le> 0 \<Longrightarrow> cmp y z \<le> 0 \<Longrightarrow> cmp x z \<le> 0" using assms by (auto simp: total_cmp_def)
  show "cmp x y = 0 \<longleftrightarrow> cmp x y \<le> 0 \<and> cmp y x \<le> 0" using 1 [of x y] 1 [of y x] by linarith
qed

locale libc_sort =
  fixes qsort :: "'a qsort"
    and bsearch :: "'a bsearch"
  assumes qsort_mset: "mset (qsort cmp xs) = mset xs"
    and qsort_sorted: "total_cmp cmp \<Longrightarrow> sorted_by cmp (qsort cmp xs)"
    and bsearch_hit: "bsearch cmp k xs = Some i \<Longrightarrow> i < length xs \<and> cmp k (xs ! i) = 0"
    and bsearch_miss: "total_cmp cmp \<Longrightarrow> sorted_by cmp xs \<Longrightarrow> bsearch cmp k xs = None \<Longrightarrow> x \<in> set xs
      \<Longrightarrow> cmp k x \<noteq> 0"
begin

lemma qsort_length [simp]: "length (qsort cmp xs) = length xs"
  using qsort_mset by (metis size_mset)

end

lemma first_equal_le: "first_equal cmp p d n \<le> n"
  by (induction n) auto

lemma first_equal_run: "first_equal cmp p d n \<le> j \<Longrightarrow> j < n \<Longrightarrow> cmp p (d ! j) = 0"
  by (induction n) (auto simp: less_Suc_eq split: if_split_asm)

lemma first_equal_stop: "0 < first_equal cmp p d n \<Longrightarrow> cmp p (d ! (first_equal cmp p d n - 1)) \<noteq> 0"
  by (induction n) auto

text \<open>In a sorted array nothing before the run of equal elements is equal.\<close>

lemma first_equal_first:
  assumes "total_cmp cmp" and "sorted_by cmp (take n d)" and "i < n" and "n \<le> length d"
    and "cmp p (d ! i) = 0" and "j < first_equal cmp p d i"
  shows "cmp p (d ! j) \<noteq> 0"
proof
  let ?f = "first_equal cmp p d i"
  assume eq: "cmp p (d ! j) = 0"
  have f: "0 < ?f" "?f \<le> i" using assms(6) first_equal_le [of cmp p d i] by auto
  have le: "cmp (d ! a) (d ! b) \<le> 0" if "a \<le> b" "b < n" for a b
  proof (cases "a = b")
    case True
    then show ?thesis using total_cmpD(1) [OF assms(1), of "d ! a" "d ! a"] by auto
  next
    case False
    with that have ab: "a < b" by simp
    have "cmp (take n d ! a) (take n d ! b) \<le> 0"
      using sorted_wrt_nth_less [OF assms(2) ab] that assms(4) by simp
    then show ?thesis using that ab by simp
  qed
  have "cmp p (d ! (?f - 1)) \<le> 0"
    using total_cmpD(2) [OF assms(1), of p "d ! j" "d ! (?f - 1)"] eq le [of j "?f - 1"] assms(3,6) f by simp
  moreover have "cmp (d ! (?f - 1)) p \<le> 0"
    using total_cmpD(2) [OF assms(1), of "d ! (?f - 1)" "d ! i" p] le [of "?f - 1" i] assms(3) f
      total_cmpD(3) [OF assms(1), of p "d ! i"] assms(5) by simp
  ultimately have "cmp p (d ! (?f - 1)) = 0" using total_cmpD(3) [OF assms(1)] by blast
  with first_equal_stop [OF f(1)] show False by blast
qed

text \<open>The \<open>sorted\<close> field tells the truth.\<close>

definition flag_ok :: "('c \<Rightarrow> 'a cmp_func) \<Rightarrow> ('a, 'c) stack \<Rightarrow> bool" where
  "flag_ok cmp_of s \<longleftrightarrow>
     (\<forall>c. is_sorted_flag s \<longrightarrow> sk_comp s = Some c \<longrightarrow> sorted_by (cmp_of c) (sk_list s))"

context libc_sort
begin

lemma sk_sort_sorts:
  assumes "sk_ok s" and "flag_ok cmp_of s" and "sk_comp s = Some c" and "total_cmp (cmp_of c)"
  obtains s' where "sk_sort qsort cmp_of (Some s) = Some s'" "sk_ok s'" "is_sorted_flag s'" "sk_comp s' = Some c"
    "mset (sk_list s') = mset (sk_list s)" "sorted_by (cmp_of c) (sk_list s')" "num s' = num s"
proof (cases "is_sorted_flag s")
  case True
  then show thesis using that [of s] assms by (simp add: sk_sort_def flag_ok_def)
next
  case False
  let ?xs = "qsort (cmp_of c) (sk_list s)"
  let ?s = "s\<lparr>data := write_at (data s) 0 ?xs, is_sorted_flag := True\<rparr>"
  note ok = sk_okD [OF assms(1)]
  have list: "sk_list ?s = ?xs" using ok by (simp add: sk_list_def write_at_def)
  have "sk_ok ?s" using ok by (simp add: sk_ok_def)
  moreover have "sk_sort qsort cmp_of (Some s) = Some ?s"
    using False assms(3) by (simp add: sk_sort_def sk_list_def)
  ultimately show thesis
    using that [of ?s] list assms(3) qsort_mset qsort_sorted [OF assms(4)] by simp
qed

lemma sk_find_first_equal:
  assumes "sk_ok s" and "flag_ok cmp_of s" and "sk_comp s = Some c" and "total_cmp (cmp_of c)" and "p \<noteq> None"
  shows "\<exists>r s'. sk_find qsort bsearch cmp_of (Some s) p = (r, Some s') \<and> sk_ok s' \<and> flag_ok cmp_of s'
    \<and> mset (sk_list s') = mset (sk_list s)
    \<and> (case r of None \<Rightarrow> \<forall>x \<in> set (sk_list s). cmp_of c p x \<noteq> 0
        | Some i \<Rightarrow> i < length (sk_list s') \<and> cmp_of c p (sk_list s' ! i) = 0
            \<and> (\<forall>j < i. cmp_of c p (sk_list s' ! j) \<noteq> 0))"
proof -
  obtain s1 where s1: "sk_sort qsort cmp_of (Some s) = Some s1" "sk_ok s1" "is_sorted_flag s1" "sk_comp s1 = Some c"
    "mset (sk_list s1) = mset (sk_list s)" "sorted_by (cmp_of c) (sk_list s1)" "num s1 = num s"
    using sk_sort_sorts [OF assms(1-4)] .
  note ok = sk_okD [OF s1(2)]
  have flag: "flag_ok cmp_of s1" using s1 by (simp add: flag_ok_def)
  have set: "set (sk_list s1) = set (sk_list s)" using s1(5) by (metis set_mset_mset)
  show ?thesis
  proof (cases "bsearch (cmp_of c) p (sk_list s1)")
    case None
    then have "sk_find qsort bsearch cmp_of (Some s) p = (None, Some s1)"
      using s1(1) assms(3,5) by (auto simp: sk_find_def sk_list_def)
    then show ?thesis
      using s1 flag bsearch_miss [OF assms(4) s1(6) None] set by auto
  next
    case (Some idx)
    let ?i = "first_equal (cmp_of c) p (data s1) idx"
    have hit: "idx < num s1" "cmp_of c p (data s1 ! idx) = 0"
      using bsearch_hit [OF Some] ok by (auto simp: sk_list_def)
    have i: "?i \<le> idx" by (rule first_equal_le)
    have "cmp_of c p (data s1 ! ?i) = 0"
      using hit first_equal_run [of "cmp_of c" p "data s1" idx ?i] i by (cases "?i = idx") auto
    moreover have "cmp_of c p (data s1 ! j) \<noteq> 0" if "j < ?i" for j
      using first_equal_first [OF assms(4) _ hit(1) _ hit(2) that] s1(6) ok by (simp add: sk_list_def)
    moreover have "sk_find qsort bsearch cmp_of (Some s) p = (Some ?i, Some s1)"
      using s1(1) assms(3,5) Some by (simp add: sk_find_def sk_list_def)
    ultimately show ?thesis using s1 flag i hit ok by (auto simp: sk_list_def)
  qed
qed

end

subsection \<open>A reference implementation of the C library functions\<close>

fun ins_by :: "('p \<Rightarrow> 'p \<Rightarrow> int) \<Rightarrow> 'p \<Rightarrow> 'p list \<Rightarrow> 'p list" where
  "ins_by cmp x [] = [x]"
| "ins_by cmp x (y # ys) = (if cmp x y \<le> 0 then x # y # ys else y # ins_by cmp x ys)"

definition c_qsort :: "'a qsort" where
  "c_qsort cmp xs = foldr (ins_by cmp) xs []"

function bsearch_range :: "'a cmp_func \<Rightarrow> 'a ptr \<Rightarrow> 'a ptr list \<Rightarrow> nat \<Rightarrow> nat \<Rightarrow> nat option" where
  "bsearch_range cmp k xs lo hi =
     (if hi \<le> lo then None
      else let m = (lo + hi) div 2 in
           if cmp k (xs ! m) = 0 then Some m
           else if cmp k (xs ! m) < 0 then bsearch_range cmp k xs lo m
           else bsearch_range cmp k xs (m + 1) hi)"
  by pat_completeness auto
termination by (relation "measure (\<lambda>(cmp, k, xs, lo, hi). hi - lo)") auto

declare bsearch_range.simps [simp del]

definition c_bsearch :: "'a bsearch" where
  "c_bsearch cmp k xs = bsearch_range cmp k xs 0 (length xs)"

lemma mset_ins_by: "mset (ins_by cmp x ys) = add_mset x (mset ys)"
  by (induction ys) auto

lemma set_ins_by: "set (ins_by cmp x ys) = insert x (set ys)"
  using mset_ins_by [of cmp x ys] by (metis set_mset_add_mset_insert set_mset_mset)

lemma sorted_ins_by:
  assumes "total_cmp cmp" and "sorted_by cmp ys"
  shows "sorted_by cmp (ins_by cmp x ys)"
  using assms(2)
proof (induction ys)
  case Nil
  then show ?case by simp
next
  case (Cons y ys)
  show ?case
  proof (cases "cmp x y \<le> 0")
    case True
    then show ?thesis using Cons.prems total_cmpD(2) [OF assms(1), of x y] by auto
  next
    case False
    then have "cmp y x \<le> 0" using total_cmpD(1) [OF assms(1), of y x] by linarith
    then show ?thesis using False Cons by (simp add: set_ins_by)
  qed
qed

lemma bsearch_range_hit:
  "bsearch_range cmp k xs lo hi = Some i \<Longrightarrow> hi \<le> length xs \<Longrightarrow> i < length xs \<and> cmp k (xs ! i) = 0"
proof (induction cmp k xs lo hi rule: bsearch_range.induct)
  case (1 cmp k xs lo hi)
  let ?m = "(lo + hi) div 2"
  show ?case
  proof (cases "hi \<le> lo")
    case True
    then show ?thesis using 1(3) by (simp add: bsearch_range.simps [of cmp k xs lo hi])
  next
    case False
    have "?m < length xs" using False 1(4) by linarith
    then show ?thesis using 1 False
      by (auto simp: bsearch_range.simps [of cmp k xs lo hi] Let_def split: if_split_asm)
  qed
qed

lemma sorted_by_nth:
  assumes "total_cmp cmp" and "sorted_by cmp xs" and "i \<le> j" and "j < length xs"
  shows "cmp (xs ! i) (xs ! j) \<le> 0"
  using assms total_cmpD(1) [OF assms(1), of "xs ! i" "xs ! i"]
  by (cases "i = j") (auto simp: sorted_wrt_iff_nth_less)

lemma bsearch_range_miss:
  assumes "total_cmp cmp" and "sorted_by cmp xs"
  shows "bsearch_range cmp k xs lo hi = None \<Longrightarrow> hi \<le> length xs \<Longrightarrow> lo \<le> j \<Longrightarrow> j < hi
    \<Longrightarrow> cmp k (xs ! j) \<noteq> 0"
  using assms
proof (induction cmp k xs lo hi rule: bsearch_range.induct)
  case (1 cmp k xs lo hi)
  let ?m = "(lo + hi) div 2"
  have lt: "lo < hi" "\<not> hi \<le> lo" "?m < hi" "lo \<le> ?m" "?m < length xs" using 1(4-6) by auto
  have ne: "cmp k (xs ! ?m) \<noteq> 0"
    using 1(3) lt by (auto simp: bsearch_range.simps [of cmp k xs lo hi] Let_def split: if_split_asm)
  note le = sorted_by_nth [OF 1(7,8)] note tr = total_cmpD [OF 1(7)]
  show ?case
  proof (cases "cmp k (xs ! ?m) < 0")
    case True
    have rec: "bsearch_range cmp k xs lo ?m = None"
      using 1(3) lt True ne by (simp add: bsearch_range.simps [of cmp k xs lo hi] Let_def split: if_split_asm)
    show ?thesis
    proof (cases "j < ?m")
      case True
      then show ?thesis using "1.IH"(1) [OF lt(2) refl ne \<open>cmp k (xs ! ?m) < 0\<close> rec] 1(5) 1(4) lt 1(7,8) by auto
    next
      case False
      then have "cmp (xs ! ?m) (xs ! j) \<le> 0" using le [of ?m j] 1(4,6) by auto
      then show ?thesis using True tr(2) [of "xs ! ?m" "xs ! j" k] tr(1) [of k "xs ! ?m"] tr(3) [of k "xs ! j"] by auto
    qed
  next
    case False
    have rec: "bsearch_range cmp k xs (?m + 1) hi = None"
      using 1(3) lt False ne by (simp add: bsearch_range.simps [of cmp k xs lo hi] Let_def split: if_split_asm)
    show ?thesis
    proof (cases "?m < j")
      case True
      then show ?thesis using "1.IH"(2) [OF lt(2) refl ne False rec] 1(4,6,7,8) by auto
    next
      case m: False
      then have "cmp (xs ! j) (xs ! ?m) \<le> 0" using le [of j ?m] lt by auto
      then show ?thesis using False ne tr(2) [of k "xs ! j" "xs ! ?m"] by auto
    qed
  qed
qed

interpretation libc: libc_sort c_qsort c_bsearch
proof
  show "mset (c_qsort cmp xs) = mset xs" for cmp :: "'a cmp_func" and xs
    unfolding c_qsort_def by (induction xs) (auto simp: mset_ins_by)
  show "sorted_by cmp (c_qsort cmp xs)" if "total_cmp cmp" for cmp :: "'a cmp_func" and xs
    unfolding c_qsort_def by (induction xs) (auto simp: sorted_ins_by [OF that])
  show "i < length xs \<and> cmp k (xs ! i) = 0" if "c_bsearch cmp k xs = Some i" for cmp :: "'a cmp_func" and k xs i
    using bsearch_range_hit that unfolding c_bsearch_def by blast
  show "cmp k x \<noteq> 0" if "total_cmp cmp" "sorted_by cmp xs" "c_bsearch cmp k xs = None" "x \<in> set xs"
    for cmp :: "'a cmp_func" and k xs x
    using bsearch_range_miss [OF that(1,2)] that(3,4) unfolding c_bsearch_def in_set_conv_nth by auto
qed

section \<open>Copying\<close>

text \<open>The copy of entry \<open>i\<close>: \<open>NULL\<close> entries are kept.\<close>

definition copy_entry :: "(nat \<Rightarrow> 'a \<Rightarrow> 'a ptr) \<Rightarrow> nat \<Rightarrow> 'a ptr \<Rightarrow> 'a ptr" where
  "copy_entry copy_func i p = Option.bind p (copy_func i)"

definition copy_fails :: "(nat \<Rightarrow> 'a \<Rightarrow> 'a ptr) \<Rightarrow> nat \<Rightarrow> 'a ptr \<Rightarrow> bool" where
  "copy_fails copy_func i p \<longleftrightarrow> p \<noteq> None \<and> copy_entry copy_func i p = None"

text \<open>The copies of the first \<open>k\<close> entries of \<open>xs\<close>, which starts at index \<open>m\<close>.\<close>

definition copies :: "(nat \<Rightarrow> 'a \<Rightarrow> 'a ptr) \<Rightarrow> nat \<Rightarrow> 'a ptr list \<Rightarrow> nat \<Rightarrow> 'a ptr list" where
  "copies copy_func m xs k = map (\<lambda>i. copy_entry copy_func (m + i) (xs ! i)) [0..<k]"

lemma copies_0 [simp]: "copies f m xs 0 = []"
  by (simp add: copies_def)

lemma copies_Suc [simp]: "copies f m (p # xs) (Suc k) = copy_entry f m p # copies f (Suc m) xs k"
  by (simp add: copies_def map_upt_Suc del: upt_Suc)

text \<open>What the loop promises when the entries before \<open>xs\<close> have been copied.\<close>

definition copy_spec :: "(nat \<Rightarrow> 'a \<Rightarrow> 'a ptr) \<Rightarrow> 'a ptr list \<Rightarrow> 'a ptr list \<Rightarrow> 'a list + 'a ptr list \<Rightarrow> bool" where
  "copy_spec f copied xs res \<longleftrightarrow>
     (case res of
        Inr d \<Rightarrow> d = copied @ copies f (length copied) xs (length xs)
          \<and> (\<forall>i < length xs. \<not> copy_fails f (length copied + i) (xs ! i))
      | Inl freed \<Rightarrow> \<exists>k < length xs. copy_fails f (length copied + k) (xs ! k)
          \<and> (\<forall>i < k. \<not> copy_fails f (length copied + i) (xs ! i))
          \<and> freed = List.map_filter (\<lambda>p. p) (copied @ copies f (length copied) xs k))"

lemma copy_spec_Cons:
  assumes "\<not> copy_fails f (length copied) p" and "copy_spec f (copied @ [copy_entry f (length copied) p]) rest res"
  shows "copy_spec f copied (p # rest) res"
proof (cases res)
  case (Inl freed)
  with assms(2) obtain k where "k < length rest" "copy_fails f (Suc (length copied) + k) (rest ! k)"
    "\<forall>i < k. \<not> copy_fails f (Suc (length copied) + i) (rest ! i)"
    "freed = List.map_filter (\<lambda>p. p) (copied @ copy_entry f (length copied) p # copies f (Suc (length copied)) rest k)"
    by (auto simp: copy_spec_def)
  then show ?thesis using assms(1)
    unfolding copy_spec_def Inl sum.case by (intro exI [of _ "Suc k"]) (simp add: All_less_Suc2)
next
  case (Inr d)
  with assms show ?thesis by (simp add: copy_spec_def All_less_Suc2)
qed

lemma copy_loop_spec: "copy_spec f copied xs (copy_loop f copied xs)"
proof (induction f copied xs rule: copy_loop.induct)
  case (1 f copied)
  then show ?case by (simp add: copy_spec_def)
next
  case (2 f copied rest)
  then show ?case by (auto simp: copy_fails_def copy_entry_def intro!: copy_spec_Cons)
next
  case (3 f copied x rest)
  show ?case
  proof (cases "f (length copied) x")
    case None
    then show ?thesis by (auto simp: copy_spec_def copy_fails_def copy_entry_def intro!: exI [of _ 0])
  next
    case (Some y)
    with 3 [OF Some] show ?thesis by (auto simp: copy_fails_def copy_entry_def intro!: copy_spec_Cons)
  qed
qed

lemma sk_dup_copies:
  assumes "sk_ok s" and "sk_dup al fresh (Some s) = Some s'"
  shows "sk_ok s'" "sk_list s' = sk_list s" "num s' = num s" "is_sorted_flag s' = is_sorted_flag s"
    "sk_comp s' = sk_comp s"
proof -
  obtain ret d where d: "sk_new al (sk_comp s) = Some ret"
    "ptr_realloc al fresh (data ret) (sz (8 * num_alloc s)) = Some d"
    "s' = ret\<lparr>data := write_at d 0 (take (num s) (data s)), num := num s,
       is_sorted_flag := is_sorted_flag s, num_alloc := num_alloc s, sk_comp := sk_comp s\<rparr>"
    using assms(2) by (auto simp: sk_dup_def split: option.split_asm)
  have "sz (8 * num_alloc s) = 8 * num_alloc s" "8 * num_alloc s + 8 < SIZE_MODULUS"
    using block_size_double [OF sk_okD(8) [OF assms(1)]] by simp_all
  then have "length d = num_alloc s" using d(2) by (auto simp: ptr_realloc_def Let_def split: if_split_asm)
  then show "sk_ok s'" "sk_list s' = sk_list s" "num s' = num s" "is_sorted_flag s' = is_sorted_flag s"
    "sk_comp s' = sk_comp s"
    using sk_okD [OF assms(1)] by (simp_all add: d(3) sk_ok_def sk_list_def write_at_def)
qed

section \<open>Properties\<close>

text \<open>
  C20: the stack is a list of pointers. Every operation on a well-formed stack leaves a
  well-formed one and does to the elements in use exactly what the reference list allows: shifting for
  insertion and deletion, out-of-range indices, growth with its overflow checks, and a failed
  insertion that changes nothing.
\<close>

theorem sk_exec_refines_list:
  assumes "sk_ok s" and "sk_exec al fresh opn s = (out, s')"
  shows "sk_ok s' \<and> list_step opn (sk_list s) out (sk_list s')"
  using sk_exec_simulates [OF assms] by (simp add: refines_def)

definition sample_stack :: "(nat, unit) stack" where
  "sample_stack = \<lparr>num = 3, data = [Some 1, Some 2, Some 3, None], is_sorted_flag = True,
                   num_alloc = 4, sk_comp = Some ()\<rparr>"

lemma sample_stack_ok: "sk_ok sample_stack" "sk_list sample_stack = [Some 1, Some 2, Some 3]"
  by (simp_all add: sample_stack_def sk_ok_def sk_list_def block_size_def PTRDIFF_MAX_def OPENSSL_MALLOC_PREFIX_def)

theorem sk_exec_refines_list_witness:
  "\<exists>s'. sk_exec every_block (\<lambda>_. None) (DeletePtr (Some 2)) sample_stack
      = (OutPtr (Some 2), s')
    \<and> list_step (DeletePtr (Some 2)) [Some 1, Some 2, Some 3] (OutPtr (Some 2)) (sk_list s')"
proof -
  let ?r = "sk_exec every_block (\<lambda>_. None) (DeletePtr (Some 2)) sample_stack"
  have "fst ?r = OutPtr (Some 2)"
    by (simp add: sample_stack_def sk_delete_ptr_def sk_delete_def numeral_eq_Suc)
  then have "?r = (OutPtr (Some 2), snd ?r)" by (metis prod.collapse)
  with sk_exec_refines_list [OF sample_stack_ok(1) this] sample_stack_ok(2) show ?thesis by metis
qed

text \<open>
  \<open>sk_find\<close> with a comparison function sorts at most once, keeps the elements, and returns the
  index of the first element equal to the key, or reports that there is none, whatever the C library's
  sorting and searching functions do within their specification, provided the \<open>sorted\<close> field is true.
\<close>

theorem sk_find_returns_first:
  assumes "libc_sort qsort bsearch" and "sk_ok s" and "flag_ok cmp_of s" and "sk_comp s = Some c"
    and "total_cmp (cmp_of c)" and "p \<noteq> None"
  shows "\<exists>r s'. sk_find qsort bsearch cmp_of (Some s) p = (r, Some s') \<and> sk_ok s' \<and> flag_ok cmp_of s'
    \<and> mset (sk_list s') = mset (sk_list s)
    \<and> (case r of None \<Rightarrow> \<forall>x \<in> set (sk_list s). cmp_of c p x \<noteq> 0
        | Some i \<Rightarrow> i < length (sk_list s') \<and> cmp_of c p (sk_list s' ! i) = 0
            \<and> (\<forall>j < i. cmp_of c p (sk_list s' ! j) \<noteq> 0))"
  using assms(1) by (rule libc_sort.sk_find_first_equal) (rule assms(2-6))+

definition nat_cmp :: "unit \<Rightarrow> nat cmp_func" where
  "nat_cmp u p q = int (case p of None \<Rightarrow> 0 | Some n \<Rightarrow> n) - int (case q of None \<Rightarrow> 0 | Some n \<Rightarrow> n)"

lemma nat_cmp_total: "total_cmp (nat_cmp u)"
  by (auto simp: total_cmp_def nat_cmp_def)

theorem sk_find_returns_first_witness:
  "\<exists>r s'. sk_find c_qsort c_bsearch nat_cmp (Some sample_stack) (Some 2) = (r, Some s')
    \<and> mset (sk_list s') = mset [Some 1, Some 2, Some 3]"
proof -
  have f: "flag_ok nat_cmp sample_stack"
    using sample_stack_ok(2) by (simp add: flag_ok_def nat_cmp_def)
  have c: "sk_comp sample_stack = Some ()" by (simp add: sample_stack_def)
  have p: "Some 2 \<noteq> (None :: nat ptr)" by simp
  from sk_find_returns_first [OF libc.libc_sort_axioms sample_stack_ok(1) f c nat_cmp_total p]
  show ?thesis unfolding sample_stack_ok(2) by blast
qed

text \<open>
  C21: \<open>sk_set\<close> does not clear the \<open>sorted\<close> field. Overwrite any element of a stack that is marked as sorted, except the
  last, with one that is greater than its successor: the stack still claims to be sorted although its elements
  are out of order, and \<open>sk_sort\<close>, which trusts the field, leaves them so, whatever \<open>qsort\<close> is.
\<close>

theorem sk_set_leaves_stale_flag:
  assumes "sk_ok s" and "is_sorted_flag s" and "sk_comp s = Some c" and "i + 1 < num s"
    and "0 < cmp_of c p (sk_list s ! (i + 1))"
  shows "\<exists>s'. sk_set (Some s) i p = (p, Some s') \<and> sk_is_sorted (Some s')
    \<and> \<not> sorted_by (cmp_of c) (sk_list s') \<and> sk_sort qsort cmp_of (Some s') = Some s'"
proof -
  let ?s = "s\<lparr>data := (data s)[i := p]\<rparr>"
  have list: "sk_list ?s = (sk_list s)[i := p]" by (simp add: sk_list_def take_update_swap)
  have len: "i + 1 < length (sk_list s)" using assms(4) sk_okD(7) [OF assms(1)] by simp
  have "\<not> sorted_by (cmp_of c) (sk_list ?s)"
  proof
    assume "sorted_by (cmp_of c) (sk_list ?s)"
    then have "cmp_of c (sk_list ?s ! i) (sk_list ?s ! (i + 1)) \<le> 0"
      using sorted_wrt_nth_less [of "\<lambda>x y. cmp_of c x y \<le> 0" "sk_list ?s" i "i + 1"] len by (simp add: list)
    with assms(5) len show False by (simp add: list)
  qed
  moreover have "sk_set (Some s) i p = (p, Some ?s)" using assms(4) by (simp add: sk_set_def)
  moreover have "sk_sort qsort cmp_of (Some ?s) = Some ?s" using assms(2,3) by (simp add: sk_sort_def)
  ultimately show ?thesis using assms(2) by (auto simp: sk_is_sorted_def)
qed

theorem sk_set_leaves_stale_flag_witness:
  "\<exists>s'. sk_set (Some sample_stack) 0 (Some 9) = (Some 9, Some s') \<and> sk_is_sorted (Some s')
    \<and> \<not> sorted_by (nat_cmp ()) (sk_list s')"
  using sk_set_leaves_stale_flag [OF sample_stack_ok(1), of "()" 0 nat_cmp "Some 9"] sample_stack_ok(2)
  by (auto simp: sample_stack_def nat_cmp_def)

text \<open>
  C22: \<open>sk_deep_copy\<close> is all or nothing. It returns a well-formed stack of the copies of all elements and
  frees nothing, or it returns \<open>NULL\<close>: because the shallow copy could not be allocated, or because some
  call of \<open>copy_func\<close> failed, and then it has freed exactly the copies made by the calls before it.
\<close>

theorem sk_deep_copy_all_or_nothing:
  assumes "sk_ok s" and "sk_deep_copy al fresh copy_func (Some s) = (r, freed)"
  shows "case r of
      Some s' \<Rightarrow> freed = [] \<and> sk_ok s' \<and> sk_list s' = copies copy_func 0 (sk_list s) (length (sk_list s))
        \<and> (\<forall>i < length (sk_list s). \<not> copy_fails copy_func i (sk_list s ! i))
    | None \<Rightarrow> (sk_dup al fresh (Some s) = None \<and> freed = [])
        \<or> (\<exists>k < length (sk_list s). copy_fails copy_func k (sk_list s ! k)
            \<and> (\<forall>i < k. \<not> copy_fails copy_func i (sk_list s ! i))
            \<and> freed = List.map_filter (\<lambda>p. p) (copies copy_func 0 (sk_list s) k))"
proof (cases "sk_dup al fresh (Some s)")
  case None
  then show ?thesis using assms(2) by (auto simp: sk_deep_copy_def)
next
  case (Some ret)
  note d = sk_dup_copies [OF assms(1) Some]
  let ?xs = "sk_list s"
  have dl: "take (num ret) (data ret) = ?xs" using d(2) by (simp add: sk_list_def)
  show ?thesis
  proof (cases "copy_loop copy_func [] ?xs")
    case (Inl fs)
    then have "r = None" "freed = fs" using assms(2) Some dl by (auto simp: sk_deep_copy_def)
    with copy_loop_spec [of copy_func "[]" ?xs] Inl show ?thesis by (simp add: copy_spec_def)
  next
    case (Inr ys)
    let ?s = "ret\<lparr>data := write_at (data ret) 0 ys\<rparr>"
    have r: "r = Some ?s" "freed = []" using assms(2) Some dl Inr by (auto simp: sk_deep_copy_def)
    have ys: "ys = copies copy_func 0 ?xs (length ?xs)" "\<forall>i < length ?xs. \<not> copy_fails copy_func i (?xs ! i)"
      using copy_loop_spec [of copy_func "[]" ?xs] Inr by (simp_all add: copy_spec_def)
    then have "length ys = num s" using sk_okD(7) [OF assms(1)] by (simp add: copies_def)
    then have "sk_ok ?s" "sk_list ?s = ys"
      using sk_okD [OF d(1)] d(3) by (auto simp: sk_ok_def sk_list_def write_at_def)
    with r ys show ?thesis by simp
  qed
qed

theorem sk_deep_copy_all_or_nothing_witness:
  "case fst (sk_deep_copy every_block (\<lambda>_. None) (\<lambda>i n. Some (n + 10)) (Some sample_stack)) of
     None \<Rightarrow> False | Some s' \<Rightarrow> sk_list s' = [Some 11, Some 12, Some 13]"
proof -
  let ?f = "\<lambda>i n. Some (n + 10 :: nat)"
  let ?r = "sk_deep_copy every_block (\<lambda>_. None) ?f (Some sample_stack)"
  have dup: "sk_dup every_block (\<lambda>_. None) (Some sample_stack) \<noteq> None"
    by (simp add: sk_dup_def sk_new_def ptr_realloc_def every_block_small kMinSize_def sample_stack_def
        sz_def SIZE_MODULUS_def Let_def)
  have ok: "\<not> copy_fails ?f i p" for i and p :: "nat ptr"
    by (cases p) (simp_all add: copy_fails_def copy_entry_def)
  have "?r = (fst ?r, snd ?r)" by simp
  from sk_deep_copy_all_or_nothing [OF sample_stack_ok(1) this] show ?thesis
    using dup ok by (auto simp: sample_stack_ok(2) copy_entry_def split: option.split_asm option.split)
qed

end
