(* ===== verification/Bio_Pair.thy ===== *)
theory Bio_Pair
  imports Prelude
begin

text \<open>
  The BIO pair of \<open>crypto/bio/pair.c\<close>: two connected endpoints, each with a ring buffer for what it
  writes and the other end reads, and the entry points \<open>BIO_read\<close> and \<open>BIO_write\<close> of
  \<open>crypto/bio/bio.c\<close> through which clients reach it. The record \<open>bio\<close> joins the fields of \<open>BIO\<close> and of
  its \<open>struct bio_bio_st\<close>; the only possible \<open>peer\<close> of an endpoint is the other one, which the
  operations take as a second argument. The copy loops are \<open>partial_function\<close>s: a loop that makes no
  progress, or a failed \<open>assert\<close>, is \<open>None\<close>, and it is proved that neither happens.
\<close>

section \<open>The code\<close>

record bio =
  bio_init :: bool
  bio_shutdown :: int
  bio_flags :: u32
  bio_num_read :: nat
  bio_num_write :: nat
  bb_peer :: bool
  bb_closed :: bool
  bb_len :: nat
  bb_offset :: nat
  bb_size :: nat
  bb_buf :: "byte list option"
  bb_request :: nat

definition BIO_clear_retry_flags :: "bio \<Rightarrow> bio" where
  "BIO_clear_retry_flags b = b\<lparr>bio_flags := bio_flags b AND NOT 0xf\<rparr>"

definition BIO_set_retry_read :: "bio \<Rightarrow> bio" where
  "BIO_set_retry_read b = b\<lparr>bio_flags := bio_flags b OR 0x9\<rparr>"

definition BIO_set_retry_write :: "bio \<Rightarrow> bio" where
  "BIO_set_retry_write b = b\<lparr>bio_flags := bio_flags b OR 0xa\<rparr>"

text \<open>\<open>BIO_new\<close> with the method table of the pair, whose \<open>create\<close> is \<open>bio_new\<close>.\<close>

definition bio_new :: "allocator \<Rightarrow> bio \<Rightarrow> bio option" where
  "bio_new al b =
     (if \<not> mallocs al 56 then None
      else Some (b\<lparr>bb_peer := False, bb_closed := False, bb_len := 0, bb_offset := 0,
                   bb_size := 17 * 1024, bb_buf := None, bb_request := 0\<rparr>))"

definition BIO_new :: "allocator \<Rightarrow> bio option" where
  "BIO_new al =
     (if \<not> mallocs al 64 then None
      else bio_new al \<lparr>bio_init = False, bio_shutdown = 1, bio_flags = 0, bio_num_read = 0,
                       bio_num_write = 0, bb_peer = False, bb_closed = False, bb_len = 0,
                       bb_offset = 0, bb_size = 0, bb_buf = None, bb_request = 0\<rparr>)"

definition bio_destroy_pair :: "bio \<Rightarrow> bio \<Rightarrow> bio \<times> bio" where
  "bio_destroy_pair b other =
     (if \<not> bb_peer b then (b, other)
      else (b\<lparr>bb_peer := False, bio_init := False, bb_len := 0, bb_offset := 0\<rparr>,
            other\<lparr>bb_peer := False, bio_init := False, bb_len := 0, bb_offset := 0\<rparr>))"

text \<open>\<open>bio_free\<close>: what is left of the other end when this one is released.\<close>

definition bio_free :: "bio \<Rightarrow> bio \<Rightarrow> bio" where
  "bio_free b other = (if bb_peer b then snd (bio_destroy_pair b other) else other)"

text \<open>The conversion of an \<open>int\<close> to \<open>size_t\<close>.\<close>

definition to_size :: "int \<Rightarrow> nat" where
  "to_size n = nat (n mod int SIZE_MODULUS)"

text \<open>The \<open>do ... while (rest)\<close> loop of \<open>bio_read\<close>: the bytes stored and the writer's structure. A failed assertion is \<open>None\<close>.\<close>

partial_function (option) read_loop ::
  "bio \<Rightarrow> byte list \<Rightarrow> nat \<Rightarrow> byte list \<Rightarrow> (byte list \<times> bio) option" where
  "read_loop peer_b ring rest out =
     (if \<not> rest \<le> bb_len peer_b then None
      else
        let chunk = (if sz (bb_offset peer_b + rest) \<le> bb_size peer_b then rest
                     else bb_size peer_b - bb_offset peer_b);
            out' = out @ take chunk (drop (bb_offset peer_b) ring);
            len' = bb_len peer_b - chunk;
            peer' = peer_b\<lparr>bb_len := len',
                           bb_offset := (if len' \<noteq> 0
                             then (if bb_offset peer_b + chunk = bb_size peer_b then 0
                                   else bb_offset peer_b + chunk)
                             else 0)\<rparr>
        in if \<not> sz (bb_offset peer_b + chunk) \<le> bb_size peer_b then None
           else if len' = 0 \<and> chunk \<noteq> rest then None
           else if rest - chunk = 0 then Some (out', peer')
           else read_loop peer' ring (rest - chunk) out')"

text \<open>The result of \<open>bio_read\<close>: the return value, the bytes stored in \<open>buf\<close>, and both ends.\<close>

definition bio_read :: "bool \<Rightarrow> int \<Rightarrow> bio \<Rightarrow> bio \<Rightarrow> (int \<times> byte list \<times> bio \<times> bio) option" where
  "bio_read buf_null isize b0 peer_b0 =
     (let b = BIO_clear_retry_flags b0; n = to_size isize in
      if \<not> bio_init b then Some (0, [], b, peer_b0)
      else if \<not> bb_peer b then None
      else case bb_buf peer_b0 of None \<Rightarrow> None
      | Some ring \<Rightarrow>
          let peer_b = peer_b0\<lparr>bb_request := 0\<rparr> in
          if buf_null \<or> n = 0 then Some (0, [], b, peer_b)
          else if bb_len peer_b = 0 then
            (if bb_closed peer_b then Some (0, [], b, peer_b)
             else Some (-1, [], BIO_set_retry_read b,
                        peer_b\<lparr>bb_request := (if n \<le> bb_size peer_b then n else bb_size peer_b)\<rparr>))
          else
            let n = (if bb_len peer_b < n then bb_len peer_b else n) in
            (case read_loop peer_b ring n [] of None \<Rightarrow> None
             | Some (out, peer') \<Rightarrow> Some (int n, out, b, peer')))"

text \<open>The loop of \<open>bio_write\<close>.\<close>

partial_function (option) write_loop ::
  "bio \<Rightarrow> byte list \<Rightarrow> byte list \<Rightarrow> nat \<Rightarrow> bio option" where
  "write_loop b ring src rest =
     (if \<not> bb_len b + rest \<le> bb_size b then None
      else
        let wo = sz (bb_offset b + bb_len b);
            write_offset = (if bb_size b \<le> wo then wo - bb_size b else wo);
            chunk = (if sz (write_offset + rest) \<le> bb_size b then rest else bb_size b - write_offset);
            ring' = write_at ring write_offset (take chunk src);
            b' = b\<lparr>bb_len := bb_len b + chunk, bb_buf := Some ring'\<rparr>
        in if \<not> bb_len b' \<le> bb_size b' then None
           else if rest - chunk = 0 then Some b'
           else write_loop b' ring' (drop chunk src) (rest - chunk))"

definition bio_write :: "byte list option \<Rightarrow> int \<Rightarrow> bio \<Rightarrow> (int \<times> bio) option" where
  "bio_write src inum b0 =
     (let b = BIO_clear_retry_flags b0; n = to_size inum in
      case src of None \<Rightarrow> Some (0, b)
      | Some bytes \<Rightarrow>
          if \<not> bio_init b \<or> n = 0 then Some (0, b)
          else if \<not> bb_peer b then None
          else case bb_buf b of None \<Rightarrow> None
          | Some ring \<Rightarrow>
              let b = b\<lparr>bb_request := 0\<rparr> in
              if bb_closed b then Some (-1, b)
              else if \<not> bb_len b \<le> bb_size b then None
              else if bb_len b = bb_size b then Some (-1, BIO_set_retry_write b)
              else
                let n = (if bb_size b - bb_len b < n then bb_size b - bb_len b else n) in
                (case write_loop b ring bytes n of None \<Rightarrow> None | Some b' \<Rightarrow> Some (int n, b')))"

text \<open>One endpoint of \<open>bio_make_pair\<close>: allocate the ring buffer unless there is one.\<close>

definition make_ring :: "allocator \<Rightarrow> nat \<Rightarrow> bio \<Rightarrow> bio option" where
  "make_ring al writebuf_len b =
     (case bb_buf b of Some _ \<Rightarrow> Some b
      | None \<Rightarrow>
          let b1 = (if writebuf_len \<noteq> 0 then b\<lparr>bb_size := writebuf_len\<rparr> else b) in
          (case OPENSSL_malloc al (bb_size b1) of
             None \<Rightarrow> None
           | Some m \<Rightarrow> Some (b1\<lparr>bb_buf := Some m, bb_len := 0, bb_offset := 0\<rparr>)))"

definition bio_make_pair :: "allocator \<Rightarrow> bio \<Rightarrow> bio \<Rightarrow> nat \<Rightarrow> nat \<Rightarrow> (bio \<times> bio) option" where
  "bio_make_pair al b1 b2 writebuf1_len writebuf2_len =
     (if bb_peer b1 \<or> bb_peer b2 then None
      else case make_ring al writebuf1_len b1 of None \<Rightarrow> None
      | Some c1 \<Rightarrow>
          (case make_ring al writebuf2_len b2 of None \<Rightarrow> None
           | Some c2 \<Rightarrow>
               Some (c1\<lparr>bb_peer := True, bb_closed := False, bb_request := 0, bio_init := True\<rparr>,
                     c2\<lparr>bb_peer := True, bb_closed := False, bb_request := 0, bio_init := True\<rparr>)))"

definition BIO_new_bio_pair :: "allocator \<Rightarrow> nat \<Rightarrow> nat \<Rightarrow> (bio \<times> bio) option" where
  "BIO_new_bio_pair al writebuf1_len writebuf2_len =
     (case (BIO_new al, BIO_new al) of
        (Some b1, Some b2) \<Rightarrow> bio_make_pair al b1 b2 writebuf1_len writebuf2_len
      | _ \<Rightarrow> None)"

datatype bio_cmd =
  BIO_C_GET_WRITE_BUF_SIZE | BIO_C_GET_WRITE_GUARANTEE | BIO_C_GET_READ_REQUEST
  | BIO_C_RESET_READ_REQUEST | BIO_C_SHUTDOWN_WR | BIO_CTRL_GET_CLOSE | BIO_CTRL_SET_CLOSE int
  | BIO_CTRL_PENDING | BIO_CTRL_WPENDING | BIO_CTRL_FLUSH | BIO_CTRL_EOF "bio option" | BIO_CTRL_OTHER

fun bio_ctrl :: "bio \<Rightarrow> bio \<Rightarrow> bio_cmd \<Rightarrow> int \<times> bio" where
  "bio_ctrl b peer_b BIO_C_GET_WRITE_BUF_SIZE = (int (bb_size b), b)"
| "bio_ctrl b peer_b BIO_C_GET_WRITE_GUARANTEE =
     (if \<not> bb_peer b \<or> bb_closed b then 0 else int (bb_size b) - int (bb_len b), b)"
| "bio_ctrl b peer_b BIO_C_GET_READ_REQUEST = (int (bb_request b), b)"
| "bio_ctrl b peer_b BIO_C_RESET_READ_REQUEST = (1, b\<lparr>bb_request := 0\<rparr>)"
| "bio_ctrl b peer_b BIO_C_SHUTDOWN_WR = (1, b\<lparr>bb_closed := True\<rparr>)"
| "bio_ctrl b peer_b BIO_CTRL_GET_CLOSE = (bio_shutdown b, b)"
| "bio_ctrl b peer_b (BIO_CTRL_SET_CLOSE n) = (1, b\<lparr>bio_shutdown := n\<rparr>)"
| "bio_ctrl b peer_b BIO_CTRL_PENDING = (if bb_peer b then int (bb_len peer_b) else 0, b)"
| "bio_ctrl b peer_b BIO_CTRL_WPENDING = (if bb_buf b \<noteq> None then int (bb_len b) else 0, b)"
| "bio_ctrl b peer_b BIO_CTRL_FLUSH = (1, b)"
| "bio_ctrl b peer_b (BIO_CTRL_EOF ptr) =
     (case ptr of Some other \<Rightarrow> if bb_len other = 0 \<and> bb_closed other then 1 else 0 | None \<Rightarrow> 1, b)"
| "bio_ctrl b peer_b BIO_CTRL_OTHER = (0, b)"

definition BIO_ctrl_get_read_request :: "bio \<Rightarrow> bio \<Rightarrow> int" where
  "BIO_ctrl_get_read_request b peer_b = fst (bio_ctrl b peer_b BIO_C_GET_READ_REQUEST)"

definition BIO_ctrl_get_write_guarantee :: "bio \<Rightarrow> bio \<Rightarrow> int" where
  "BIO_ctrl_get_write_guarantee b peer_b = fst (bio_ctrl b peer_b BIO_C_GET_WRITE_GUARANTEE)"

definition BIO_shutdown_wr :: "bio \<Rightarrow> bio \<Rightarrow> int \<times> bio" where
  "BIO_shutdown_wr b peer_b = bio_ctrl b peer_b BIO_C_SHUTDOWN_WR"

definition BIO_read :: "bool \<Rightarrow> int \<Rightarrow> bio \<Rightarrow> bio \<Rightarrow> (int \<times> byte list \<times> bio \<times> bio) option" where
  "BIO_read buf_null n b peer_b =
     (if \<not> bio_init b then Some (-2, [], b, peer_b)
      else if n \<le> 0 then Some (0, [], b, peer_b)
      else case bio_read buf_null n b peer_b of None \<Rightarrow> None
      | Some (ret, out, b', peer') \<Rightarrow>
          Some (ret, out,
                (if 0 < ret then b'\<lparr>bio_num_read := sz (bio_num_read b' + nat ret)\<rparr> else b'), peer'))"

definition BIO_write :: "byte list option \<Rightarrow> int \<Rightarrow> bio \<Rightarrow> (int \<times> bio) option" where
  "BIO_write src n b =
     (if \<not> bio_init b then Some (-2, b)
      else if n \<le> 0 then Some (0, b)
      else case bio_write src n b of None \<Rightarrow> None
      | Some (ret, b') \<Rightarrow>
          Some (ret, if 0 < ret then b'\<lparr>bio_num_write := sz (bio_num_write b' + nat ret)\<rparr> else b'))"

section \<open>The queue in the ring\<close>

definition ring_at :: "byte list \<Rightarrow> nat \<Rightarrow> nat \<Rightarrow> byte list" where
  "ring_at ring off n = map (\<lambda>i. ring ! ((off + i) mod length ring)) [0..<n]"

definition ring_ok :: "bio \<Rightarrow> byte list \<Rightarrow> bool" where
  "ring_ok b ring \<longleftrightarrow> length ring = bb_size b \<and> bb_len b \<le> bb_size b \<and> bb_offset b < bb_size b
     \<and> 2 * bb_size b < SIZE_MODULUS"

lemma length_ring_at [simp]: "length (ring_at ring off n) = n"
  by (simp add: ring_at_def)

lemma nth_ring_at [simp]: "i < n \<Longrightarrow> ring_at ring off n ! i = ring ! ((off + i) mod length ring)"
  by (simp add: ring_at_def)

lemma ring_at_split:
  assumes "k \<le> n" and "off + k \<le> length ring"
  shows "ring_at ring off n = take k (drop off ring) @ ring_at ring ((off + k) mod length ring) (n - k)"
proof (rule nth_equalityI)
  show "length (ring_at ring off n)
      = length (take k (drop off ring) @ ring_at ring ((off + k) mod length ring) (n - k))"
    using assms by simp
next
  fix i assume i: "i < length (ring_at ring off n)"
  show "ring_at ring off n ! i
      = (take k (drop off ring) @ ring_at ring ((off + k) mod length ring) (n - k)) ! i"
  proof (cases "i < k")
    case True
    then show ?thesis using i assms by (simp add: nth_append min_absorb2)
  next
    case False
    then obtain j where j: "i = k + j" using le_iff_add [of k i] by auto
    then have "((off + k) mod length ring + j) mod length ring = (off + i) mod length ring"
      by (simp add: mod_add_left_eq add.assoc)
    then show ?thesis using i j assms by (simp add: nth_append min_absorb2)
  qed
qed

lemma ring_at_append:
  assumes "off < length ring" and "n + length xs \<le> length ring"
    and "wo = (off + n) mod length ring" and "wo + length xs \<le> length ring"
  shows "ring_at (write_at ring wo xs) off (n + length xs) = ring_at ring off n @ xs"
proof (rule nth_equalityI)
  show "length (ring_at (write_at ring wo xs) off (n + length xs)) = length (ring_at ring off n @ xs)"
    by simp
next
  fix i assume "i < length (ring_at (write_at ring wo xs) off (n + length xs))"
  then have i: "i < n + length xs" by simp
  have idx: "(off + i) mod length ring = (if off + i < length ring then off + i else off + i - length ring)"
    using i assms(1,2) by (simp add: mod_if)
  have wo: "wo = (if off + n < length ring then off + n else off + n - length ring)"
    using assms(1-3) by (simp add: mod_if)
  show "ring_at (write_at ring wo xs) off (n + length xs) ! i = (ring_at ring off n @ xs) ! i"
    using i idx wo assms by (auto simp: nth_append nth_write_at split: if_split_asm intro!: arg_cong [of _ _ "(!) xs"])
qed

definition bb_queue :: "bio \<Rightarrow> byte list" where
  "bb_queue b = (case bb_buf b of None \<Rightarrow> [] | Some ring \<Rightarrow> ring_at ring (bb_offset b) (bb_len b))"

lemma ring_okD:
  assumes "ring_ok b ring"
  shows "length ring = bb_size b" "bb_len b \<le> bb_size b" "bb_offset b < bb_size b"
    "2 * bb_size b < SIZE_MODULUS" "bb_offset b < length ring"
  using assms by (auto simp: ring_ok_def)

section \<open>The loops\<close>

lemma read_loop_ok:
  assumes "ring_ok b ring" and "0 < rest" and "rest \<le> bb_len b"
  shows "\<exists>o'. read_loop b ring rest out
      = Some (out @ take rest (ring_at ring (bb_offset b) (bb_len b)),
              b\<lparr>bb_len := bb_len b - rest, bb_offset := o'\<rparr>)
    \<and> o' < bb_size b \<and> ring_at ring o' (bb_len b - rest) = drop rest (ring_at ring (bb_offset b) (bb_len b))"
  using assms
proof (induction rest arbitrary: b out rule: less_induct)
  case (less rest)
  note ok = ring_okD [OF less.prems(1)]
  define c where "c = (if bb_offset b + rest \<le> bb_size b then rest else bb_size b - bb_offset b)"
  define o' where "o' = (if bb_len b - c \<noteq> 0
      then (if bb_offset b + c = bb_size b then 0 else bb_offset b + c) else 0)"
  let ?b = "b\<lparr>bb_len := bb_len b - c, bb_offset := o'\<rparr>"
  have c: "0 < c" "c \<le> rest" "bb_offset b + c \<le> length ring" using ok less.prems by (auto simp: c_def)
  have sz: "sz (bb_offset b + rest) = bb_offset b + rest" "sz (bb_offset b + c) = bb_offset b + c" using ok less.prems c by simp_all
  have as: "bb_offset b + c \<le> bb_size b" "bb_len b - c = 0 \<Longrightarrow> c = rest" using c ok less.prems by auto
  have step: "read_loop b ring rest out
      = (if rest - c = 0 then Some (out @ take c (drop (bb_offset b) ring), ?b)
         else read_loop ?b ring (rest - c) (out @ take c (drop (bb_offset b) ring)))"
    using less.prems(3) as by (subst read_loop.simps) (simp only: sz c_def [symmetric] o'_def Let_def not_not if_True, auto)
  have o': "o' < bb_size b" "bb_len b - c \<noteq> 0 \<Longrightarrow> o' = (bb_offset b + c) mod length ring"
    using c ok by (auto simp: o'_def)
  have q: "ring_at ring (bb_offset b) (bb_len b)
      = take c (drop (bb_offset b) ring) @ ring_at ring ((bb_offset b + c) mod length ring) (bb_len b - c)"
    using ring_at_split [of c "bb_len b" "bb_offset b" ring] c less.prems by auto
  then have q': "ring_at ring (bb_offset b) (bb_len b)
      = take c (drop (bb_offset b) ring) @ ring_at ring o' (bb_len b - c)"
    using o'(2) by (cases "bb_len b - c = 0") (simp_all add: ring_at_def)
  have len: "length (take c (drop (bb_offset b) ring)) = c" using c by simp
  show ?case
  proof (cases "rest - c = 0")
    case True
    then have "rest = c" using c by simp
    then show ?thesis using step q' o' len by auto
  next
    case False
    have "ring_ok ?b ring" using ok o' by (auto simp: ring_ok_def)
    moreover have "0 < rest - c" "rest - c < rest" "rest - c \<le> bb_len ?b"
      using False c less.prems by auto
    ultimately obtain o2 where o2: "read_loop ?b ring (rest - c) (out @ take c (drop (bb_offset b) ring))
        = Some ((out @ take c (drop (bb_offset b) ring)) @ take (rest - c) (ring_at ring o' (bb_len b - c)),
            ?b\<lparr>bb_len := bb_len b - c - (rest - c), bb_offset := o2\<rparr>)"
      "o2 < bb_size b" "ring_at ring o2 (bb_len b - c - (rest - c)) = drop (rest - c) (ring_at ring o' (bb_len b - c))"
      using less.IH [of "rest - c" ?b "out @ take c (drop (bb_offset b) ring)"] by auto
    have l: "bb_len b - c - (rest - c) = bb_len b - rest" using c by simp
    have "take rest (ring_at ring (bb_offset b) (bb_len b))
        = take c (drop (bb_offset b) ring) @ take (rest - c) (ring_at ring o' (bb_len b - c))"
      "drop rest (ring_at ring (bb_offset b) (bb_len b)) = drop (rest - c) (ring_at ring o' (bb_len b - c))"
      unfolding q' using len c by simp_all
    then show ?thesis using step False o2 unfolding l by auto
  qed
qed

lemma write_loop_ok:
  assumes "ring_ok b ring" and "0 < rest" and "bb_len b + rest \<le> bb_size b" and "rest \<le> length src"
  shows "\<exists>ring'. write_loop b ring src rest = Some (b\<lparr>bb_len := bb_len b + rest, bb_buf := Some ring'\<rparr>)
    \<and> length ring' = length ring
    \<and> ring_at ring' (bb_offset b) (bb_len b + rest) = ring_at ring (bb_offset b) (bb_len b) @ take rest src"
  using assms
proof (induction rest arbitrary: b ring src rule: less_induct)
  case (less rest)
  note ok = ring_okD [OF less.prems(1)]
  define wo where "wo = (if bb_size b \<le> bb_offset b + bb_len b then bb_offset b + bb_len b - bb_size b
      else bb_offset b + bb_len b)"
  define c where "c = (if wo + rest \<le> bb_size b then rest else bb_size b - wo)"
  let ?r = "write_at ring wo (take c src)"
  let ?b = "b\<lparr>bb_len := bb_len b + c, bb_buf := Some ?r\<rparr>"
  have wo: "wo = (bb_offset b + bb_len b) mod length ring" "wo < length ring"
    using ok less.prems by (auto simp: wo_def mod_if)
  have c: "0 < c" "c \<le> rest" "wo + c \<le> length ring" "length (take c src) = c"
    using ok wo(2) less.prems by (auto simp: c_def)
  have sz: "sz (wo + rest) = wo + rest" "sz (bb_offset b + bb_len b) = bb_offset b + bb_len b" using ok wo(2) less.prems by simp_all
  have step: "write_loop b ring src rest
      = (if rest - c = 0 then Some ?b else write_loop ?b ?r (drop c src) (rest - c))"
    using less.prems(3) c(2)
    by (subst write_loop.simps) (simp only: Let_def sz wo_def [symmetric] c_def [symmetric] not_not if_True, simp)
  have app: "ring_at ?r (bb_offset b) (bb_len b + c) = ring_at ring (bb_offset b) (bb_len b) @ take c src"
    using ring_at_append [of "bb_offset b" ring "bb_len b" "take c src" wo] ok c wo less.prems by simp
  have len: "length ?r = length ring" using c by simp
  show ?case
  proof (cases "rest - c = 0")
    case True
    then have "rest = c" using c by simp
    then show ?thesis using step app len by auto
  next
    case False
    have "ring_ok ?b ?r" using ok len c less.prems by (auto simp: ring_ok_def)
    moreover have "0 < rest - c" "rest - c < rest" "bb_len ?b + (rest - c) \<le> bb_size ?b"
      "rest - c \<le> length (drop c src)"
      using False c less.prems by auto
    ultimately obtain r2 where r2: "write_loop ?b ?r (drop c src) (rest - c)
        = Some (?b\<lparr>bb_len := bb_len ?b + (rest - c), bb_buf := Some r2\<rparr>)" "length r2 = length ?r"
      "ring_at r2 (bb_offset ?b) (bb_len ?b + (rest - c)) = ring_at ?r (bb_offset ?b) (bb_len ?b) @ take (rest - c) (drop c src)"
      using less.IH [of "rest - c" ?b ?r "drop c src"] by blast
    have l: "bb_len b + c + (rest - c) = bb_len b + rest" using c by simp
    have "take c src @ take (rest - c) (drop c src) = take rest src"
      using c by (metis le_add_diff_inverse take_add)
    then show ?thesis using step False r2 app len l by auto
  qed
qed

section \<open>The operations as queue operations\<close>

definition end_ok :: "bio \<Rightarrow> bool" where
  "end_ok b \<longleftrightarrow> bio_init b \<and> bb_peer b \<and> (\<exists>ring. bb_buf b = Some ring \<and> ring_ok b ring)"

lemma end_okE:
  assumes "end_ok b"
  obtains ring where "bb_buf b = Some ring" "ring_ok b ring" "bio_init b" "bb_peer b"
    "bb_queue b = ring_at ring (bb_offset b) (bb_len b)" "length (bb_queue b) = bb_len b"
  using assms by (auto simp: end_ok_def bb_queue_def)

lemma to_size_int: "0 < n \<Longrightarrow> n \<le> int INT_MAX \<Longrightarrow> to_size n = nat n"
  by (simp add: to_size_def INT_MAX_def SIZE_MODULUS_def)

text \<open>The fields that decide whether an endpoint is well formed and what it holds.\<close>

lemma end_ok_cong:
  assumes "bio_init b' = bio_init b" "bb_peer b' = bb_peer b" "bb_buf b' = bb_buf b" "bb_len b' = bb_len b"
    "bb_offset b' = bb_offset b" "bb_size b' = bb_size b"
  shows "end_ok b' = end_ok b" "bb_queue b' = bb_queue b"
  using assms by (auto simp: end_ok_def ring_ok_def bb_queue_def split: option.split)

text \<open>What a read of \<open>n\<close> bytes gives from a queue.\<close>

definition read_result :: "nat \<Rightarrow> bio \<Rightarrow> int \<Rightarrow> byte list \<Rightarrow> bio \<Rightarrow> bool" where
  "read_result n p ret out p' \<longleftrightarrow>
     (if bb_queue p = [] then out = [] \<and> bb_queue p' = [] \<and> ret = (if bb_closed p then 0 else -1)
      else out = take n (bb_queue p) \<and> bb_queue p' = drop n (bb_queue p) \<and> ret = int (length out))"

lemma bio_read_queue:
  assumes "end_ok b" and "end_ok p" and "0 < n" and "n \<le> int INT_MAX"
  shows "\<exists>ret out b' p'. bio_read False n b p = Some (ret, out, b', p') \<and> end_ok b' \<and> end_ok p'
    \<and> bb_queue b' = bb_queue b \<and> bio_num_read b' = bio_num_read b \<and> bio_num_write b' = bio_num_write b
    \<and> bio_num_read p' = bio_num_read p \<and> bio_num_write p' = bio_num_write p
    \<and> bb_closed p' = bb_closed p \<and> read_result (nat n) p ret out p'"
proof -
  obtain ring where p: "bb_buf p = Some ring" "ring_ok p ring" "bio_init p" "bb_peer p"
    "bb_queue p = ring_at ring (bb_offset p) (bb_len p)" "length (bb_queue p) = bb_len p"
    using assms(2) by (rule end_okE)
  have b: "bio_init b" "bb_peer b" using assms(1) by (auto simp: end_ok_def)
  have sz: "to_size n = nat n" "0 < nat n" using assms(3,4) by (auto simp: to_size_int)
  let ?b = "BIO_clear_retry_flags b" and ?p = "p\<lparr>bb_request := 0\<rparr>"
  have be: "end_ok ?b" "bb_queue ?b = bb_queue b" "end_ok (BIO_set_retry_read ?b)" "bb_queue (BIO_set_retry_read ?b) = bb_queue b"
    using end_ok_cong [of ?b b] end_ok_cong [of "BIO_set_retry_read ?b" b] assms(1)
    by (simp_all add: BIO_clear_retry_flags_def BIO_set_retry_read_def)
  show ?thesis
  proof (cases "bb_len p = 0")
    case True
    then have "bb_queue p = []" using p(6) by simp
    moreover have "end_ok (p\<lparr>bb_request := k\<rparr>)" "bb_queue (p\<lparr>bb_request := k\<rparr>) = bb_queue p" for k
      using end_ok_cong [of "p\<lparr>bb_request := k\<rparr>" p] assms(2) by simp_all
    ultimately show ?thesis
      using True b p(1) sz be
      by (auto simp: bio_read_def Let_def read_result_def BIO_clear_retry_flags_def BIO_set_retry_read_def)
  next
    case False
    define k where "k = (if bb_len p < nat n then bb_len p else nat n)"
    have k: "0 < k" "k \<le> bb_len ?p" using False sz by (auto simp: k_def)
    have "ring_ok ?p ring" using p(2) by (simp add: ring_ok_def)
    from read_loop_ok [OF this k, of "[]"] obtain o' where r: "read_loop ?p ring k []
        = Some (take k (bb_queue p), ?p\<lparr>bb_len := bb_len p - k, bb_offset := o'\<rparr>)"
      "o' < bb_size p" "ring_at ring o' (bb_len p - k) = drop k (bb_queue p)"
      using p(5) by auto
    let ?p' = "?p\<lparr>bb_len := bb_len p - k, bb_offset := o'\<rparr>"
    have "bio_read False n b p = Some (int k, take k (bb_queue p), ?b, ?p')"
      using False b p(1) sz r(1)
      by (cases "bb_len p < nat n") (simp_all add: bio_read_def Let_def k_def BIO_clear_retry_flags_def)
    moreover have "bb_queue ?p' = drop (nat n) (bb_queue p)" "take k (bb_queue p) = take (nat n) (bb_queue p)"
      using r(3) p(1,6) by (auto simp: bb_queue_def k_def)
    moreover have "end_ok ?p'" using p r(2) by (auto simp: end_ok_def ring_ok_def)
    moreover have "bb_queue p \<noteq> []" using False p(6) by auto
    moreover have "k = length (take (nat n) (bb_queue p))" using p(6) by (simp add: k_def)
    ultimately show ?thesis using be
      by (auto simp: read_result_def BIO_clear_retry_flags_def)
  qed
qed

text \<open>What a write of \<open>n\<close> bytes of \<open>src\<close> does to the queue.\<close>

definition write_result :: "nat \<Rightarrow> byte list \<Rightarrow> bio \<Rightarrow> int \<Rightarrow> bio \<Rightarrow> bool" where
  "write_result n src b ret b' \<longleftrightarrow>
     (if bb_closed b \<or> length (bb_queue b) = bb_size b then ret = -1 \<and> bb_queue b' = bb_queue b
      else let k = min n (bb_size b - length (bb_queue b))
           in ret = int k \<and> bb_queue b' = bb_queue b @ take k src)"

lemma bio_write_queue:
  assumes "end_ok b" and "0 < n" and "n \<le> int INT_MAX" and "nat n \<le> length src"
  shows "\<exists>ret b'. bio_write (Some src) n b = Some (ret, b') \<and> end_ok b'
    \<and> bio_num_read b' = bio_num_read b \<and> bio_num_write b' = bio_num_write b
    \<and> bb_closed b' = bb_closed b \<and> write_result (nat n) src b ret b'"
proof -
  obtain ring where p: "bb_buf b = Some ring" "ring_ok b ring" "bio_init b" "bb_peer b"
    "bb_queue b = ring_at ring (bb_offset b) (bb_len b)" "length (bb_queue b) = bb_len b"
    using assms(1) by (rule end_okE)
  note ok = ring_okD [OF p(2)]
  have sz: "to_size n = nat n" "0 < nat n" using assms by (auto simp: to_size_int)
  let ?b = "(BIO_clear_retry_flags b)\<lparr>bb_request := 0\<rparr>"
  have be: "end_ok ?b" "bb_queue ?b = bb_queue b" "end_ok (BIO_set_retry_write ?b)" "bb_queue (BIO_set_retry_write ?b) = bb_queue b"
    using end_ok_cong [of ?b b] end_ok_cong [of "BIO_set_retry_write ?b" b] assms(1)
    by (simp_all add: BIO_clear_retry_flags_def BIO_set_retry_write_def)
  show ?thesis
  proof (cases "bb_closed b \<or> bb_len b = bb_size b")
    case True
    then show ?thesis
      using p sz be ok(2)
      by (auto simp: bio_write_def Let_def write_result_def BIO_clear_retry_flags_def BIO_set_retry_write_def)
  next
    case False
    define k where "k = (if bb_size b - bb_len b < nat n then bb_size b - bb_len b else nat n)"
    have k: "0 < k" "bb_len ?b + k \<le> bb_size ?b" "k \<le> length src"
      using False sz ok(2) assms(4) by (auto simp: k_def BIO_clear_retry_flags_def)
    have "ring_ok ?b ring" using p(2) by (simp add: ring_ok_def BIO_clear_retry_flags_def)
    from write_loop_ok [OF this k] obtain ring' where r:
      "write_loop ?b ring src k = Some (?b\<lparr>bb_len := bb_len b + k, bb_buf := Some ring'\<rparr>)"
      "length ring' = length ring" "ring_at ring' (bb_offset b) (bb_len b + k) = bb_queue b @ take k src"
      using p(5) by (auto simp: BIO_clear_retry_flags_def)
    let ?b' = "?b\<lparr>bb_len := bb_len b + k, bb_buf := Some ring'\<rparr>"
    have "bio_write (Some src) n b = Some (int k, ?b')"
      using False p sz r(1) ok(2)
      by (cases "bb_size b - bb_len b < nat n") (simp_all add: bio_write_def Let_def k_def BIO_clear_retry_flags_def)
    moreover have "bb_queue ?b' = bb_queue b @ take k src"
      using r(3) by (simp add: bb_queue_def BIO_clear_retry_flags_def)
    moreover have "end_ok ?b'" using p r(2) k by (auto simp: end_ok_def ring_ok_def BIO_clear_retry_flags_def)
    moreover have "k = min (nat n) (bb_size b - length (bb_queue b))" using p(6) by (auto simp: k_def)
    ultimately show ?thesis using False p(6) by (auto simp: write_result_def BIO_clear_retry_flags_def Let_def)
  qed
qed

section \<open>Both directions of a pair\<close>

text \<open>
  A pair with the history of its use: \<open>sent\<close> are the bytes that writes have accepted, \<open>got\<close> the
  bytes that reads have delivered, at each end. The steps are the calls of the two clients, in any
  order; \<open>mirror\<close> makes the rules, which are stated for end \<open>a\<close>, hold for end \<open>b\<close> too.
\<close>

record bio_sys =
  end_a :: bio
  end_b :: bio
  sent_a :: "byte list"
  sent_b :: "byte list"
  got_a :: "byte list"
  got_b :: "byte list"

definition mirror :: "bio_sys \<Rightarrow> bio_sys" where
  "mirror s = \<lparr>end_a = end_b s, end_b = end_a s, sent_a = sent_b s, sent_b = sent_a s,
               got_a = got_b s, got_b = got_a s\<rparr>"

inductive bio_step :: "bio_sys \<Rightarrow> bio_sys \<Rightarrow> bool" where
  Read: "n \<le> int INT_MAX \<Longrightarrow> BIO_read buf_null n (end_a s) (end_b s) = Some (ret, out, a, b) \<Longrightarrow>
    bio_step s (s\<lparr>end_a := a, end_b := b, got_a := got_a s @ out\<rparr>)"
| Write: "n \<le> int INT_MAX \<Longrightarrow> nat n \<le> length src \<Longrightarrow> BIO_write (Some src) n (end_a s) = Some (ret, a) \<Longrightarrow>
    bio_step s (s\<lparr>end_a := a, sent_a := sent_a s @ take (nat ret) src\<rparr>)"
| Ctrl: "bio_ctrl (end_a s) (end_b s) cmd = (ret, a) \<Longrightarrow> bio_step s (s\<lparr>end_a := a\<rparr>)"
| Other: "bio_step (mirror s) (mirror s') \<Longrightarrow> bio_step s s'"

inductive bio_reach :: "bio_sys \<Rightarrow> bool" where
  Start: "BIO_new_bio_pair al n1 n2 = Some (a, b) \<Longrightarrow> 2 * n1 < SIZE_MODULUS \<Longrightarrow> 2 * n2 < SIZE_MODULUS \<Longrightarrow>
    bio_reach \<lparr>end_a = a, end_b = b, sent_a = [], sent_b = [], got_a = [], got_b = []\<rparr>"
| Step: "bio_reach s \<Longrightarrow> bio_step s s' \<Longrightarrow> bio_reach s'"

definition bio_inv :: "bio_sys \<Rightarrow> bool" where
  "bio_inv s \<longleftrightarrow> end_ok (end_a s) \<and> end_ok (end_b s)
     \<and> sent_a s = got_b s @ bb_queue (end_a s) \<and> sent_b s = got_a s @ bb_queue (end_b s)
     \<and> bio_num_read (end_a s) = sz (length (got_a s)) \<and> bio_num_read (end_b s) = sz (length (got_b s))
     \<and> bio_num_write (end_a s) = sz (length (sent_a s)) \<and> bio_num_write (end_b s) = sz (length (sent_b s))"

lemma bio_inv_mirror [simp]: "bio_inv (mirror s) = bio_inv s"
  by (auto simp: bio_inv_def mirror_def)

lemma mirror_mirror [simp]: "mirror (mirror s) = s"
  by (simp add: mirror_def)

lemma sz_add: "sz (sz m + n) = sz (m + n)"
  by (simp add: sz_def mod_add_left_eq)

lemma end_ok_counters:
  "end_ok (b\<lparr>bio_num_read := k\<rparr>) = end_ok b" "bb_queue (b\<lparr>bio_num_read := k\<rparr>) = bb_queue b"
  "end_ok (b\<lparr>bio_num_write := k\<rparr>) = end_ok b" "bb_queue (b\<lparr>bio_num_write := k\<rparr>) = bb_queue b"
  using end_ok_cong [of "b\<lparr>bio_num_read := k\<rparr>" b] end_ok_cong [of "b\<lparr>bio_num_write := k\<rparr>" b] by simp_all

lemma end_ok_init: "end_ok b \<Longrightarrow> bio_init b"
  by (simp add: end_ok_def)

lemma BIO_read_queue:
  assumes "end_ok b" and "end_ok p" and "0 < n" and "n \<le> int INT_MAX" and "bio_num_read b < SIZE_MODULUS"
  shows "\<exists>ret out b' p'. BIO_read False n b p = Some (ret, out, b', p') \<and> end_ok b' \<and> end_ok p'
    \<and> bb_queue b' = bb_queue b \<and> bio_num_write b' = bio_num_write b
    \<and> bio_num_read p' = bio_num_read p \<and> bio_num_write p' = bio_num_write p
    \<and> bb_closed p' = bb_closed p \<and> read_result (nat n) p ret out p'
    \<and> bio_num_read b' = sz (bio_num_read b + length out)"
proof -
  obtain ret out b' p' where r: "bio_read False n b p = Some (ret, out, b', p')" "end_ok b'" "end_ok p'"
    "bb_queue b' = bb_queue b" "bio_num_read b' = bio_num_read b" "bio_num_write b' = bio_num_write b"
    "bio_num_read p' = bio_num_read p" "bio_num_write p' = bio_num_write p" "bb_closed p' = bb_closed p"
    "read_result (nat n) p ret out p'"
    using bio_read_queue [OF assms(1-4)] by blast
  have "0 < ret \<Longrightarrow> nat ret = length out" "\<not> 0 < ret \<Longrightarrow> out = []"
    using r(10) assms(3) by (auto simp: read_result_def split: if_split_asm)
  then show ?thesis
    using r end_ok_init [OF assms(1)] assms(3,5) by (cases "0 < ret") (auto simp: BIO_read_def end_ok_counters)
qed

lemma BIO_write_queue:
  assumes "end_ok b" and "0 < n" and "n \<le> int INT_MAX" and "nat n \<le> length src"
    and "bio_num_write b < SIZE_MODULUS"
  shows "\<exists>ret b'. BIO_write (Some src) n b = Some (ret, b') \<and> end_ok b'
    \<and> bio_num_read b' = bio_num_read b \<and> bb_closed b' = bb_closed b \<and> write_result (nat n) src b ret b'
    \<and> bb_queue b' = bb_queue b @ take (nat ret) src
    \<and> bio_num_write b' = sz (bio_num_write b + length (take (nat ret) src))"
proof -
  obtain ret b' where r: "bio_write (Some src) n b = Some (ret, b')" "end_ok b'"
    "bio_num_read b' = bio_num_read b" "bio_num_write b' = bio_num_write b" "bb_closed b' = bb_closed b"
    "write_result (nat n) src b ret b'"
    using bio_write_queue [OF assms(1-4)] by blast
  have "bb_queue b' = bb_queue b @ take (nat ret) src" "nat ret \<le> length src"
    using r(6) assms(4) by (auto simp: write_result_def Let_def split: if_split_asm)
  moreover have "write_result (nat n) src b ret (b'\<lparr>bio_num_write := k\<rparr>) = write_result (nat n) src b ret b'" for k
    by (simp add: write_result_def end_ok_counters)
  ultimately show ?thesis
    using r end_ok_init [OF assms(1)] assms(2,5)
    by (cases "0 < ret") (auto simp: BIO_write_def end_ok_counters min_absorb2)
qed

lemma bio_read_null:
  assumes "end_ok b" and "end_ok p" and "BIO_read True n b p = Some (ret, out, b', p')"
  shows "out = []" "end_ok b'" "end_ok p'" "bb_queue b' = bb_queue b" "bb_queue p' = bb_queue p"
    "bio_num_read b' = bio_num_read b" "bio_num_write b' = bio_num_write b"
    "bio_num_read p' = bio_num_read p" "bio_num_write p' = bio_num_write p"
proof -
  have "out = [] \<and> (b' = b \<or> b' = BIO_clear_retry_flags b) \<and> (p' = p \<or> p' = p\<lparr>bb_request := 0\<rparr>)"
    using assms by (auto simp: BIO_read_def bio_read_def end_ok_def Let_def BIO_clear_retry_flags_def split: if_split_asm)
  moreover have "end_ok (BIO_clear_retry_flags b)" "bb_queue (BIO_clear_retry_flags b) = bb_queue b"
    "end_ok (p\<lparr>bb_request := 0\<rparr>)" "bb_queue (p\<lparr>bb_request := 0\<rparr>) = bb_queue p"
    using assms(1,2) end_ok_cong [of "BIO_clear_retry_flags b" b] end_ok_cong [of "p\<lparr>bb_request := 0\<rparr>" p]
    by (simp_all add: BIO_clear_retry_flags_def)
  ultimately show "out = []" "end_ok b'" "end_ok p'" "bb_queue b' = bb_queue b" "bb_queue p' = bb_queue p"
    "bio_num_read b' = bio_num_read b" "bio_num_write b' = bio_num_write b"
    "bio_num_read p' = bio_num_read p" "bio_num_write p' = bio_num_write p"
    using assms(1,2) by (auto simp: BIO_clear_retry_flags_def)
qed

text \<open>A read takes its bytes off the front of the peer's queue, whatever it returns.\<close>

lemma BIO_read_any:
  assumes "end_ok b" and "end_ok p" and "n \<le> int INT_MAX" and "bio_num_read b < SIZE_MODULUS"
    and "BIO_read buf_null n b p = Some (ret, out, b', p')"
  shows "end_ok b'" "end_ok p'" "bb_queue b' = bb_queue b" "bb_queue p = out @ bb_queue p'"
    "bio_num_write b' = bio_num_write b" "bio_num_read p' = bio_num_read p" "bio_num_write p' = bio_num_write p"
    "bio_num_read b' = sz (bio_num_read b + length out)"
proof -
  have "end_ok b' \<and> end_ok p' \<and> bb_queue b' = bb_queue b \<and> bb_queue p = out @ bb_queue p'
    \<and> bio_num_write b' = bio_num_write b \<and> bio_num_read p' = bio_num_read p \<and> bio_num_write p' = bio_num_write p
    \<and> bio_num_read b' = sz (bio_num_read b + length out)"
  proof (cases "0 < n")
    case pos: True
    show ?thesis
    proof (cases buf_null)
      case True
      then have "BIO_read True n b p = Some (ret, out, b', p')" using assms(5) by simp
      from bio_read_null [OF assms(1,2) this] assms(4) show ?thesis by simp
    next
      case False
      obtain r where "read_result (nat n) p r out p'"
        and ok: "end_ok b'" "end_ok p'" "bb_queue b' = bb_queue b"
          "bio_num_write b' = bio_num_write b" "bio_num_read p' = bio_num_read p" "bio_num_write p' = bio_num_write p"
          "bio_num_read b' = sz (bio_num_read b + length out)"
        using BIO_read_queue [OF assms(1,2) pos assms(3,4)] assms(5) False by auto
      then have "bb_queue p = out @ bb_queue p'" by (auto simp: read_result_def split: if_split_asm)
      with ok show ?thesis by blast
    qed
  next
    case False
    then have "b' = b" "p' = p" "out = []" using assms(1,5) by (auto simp: BIO_read_def end_ok_def)
    then show ?thesis using assms(1,2,4) by simp
  qed
  then show "end_ok b'" "end_ok p'" "bb_queue b' = bb_queue b" "bb_queue p = out @ bb_queue p'"
    "bio_num_write b' = bio_num_write b" "bio_num_read p' = bio_num_read p" "bio_num_write p' = bio_num_write p"
    "bio_num_read b' = sz (bio_num_read b + length out)"
    by blast+
qed

lemma BIO_write_any:
  assumes "end_ok b" and "n \<le> int INT_MAX" and "nat n \<le> length src" and "bio_num_write b < SIZE_MODULUS"
    and "BIO_write (Some src) n b = Some (ret, b')"
  shows "end_ok b'" "bb_queue b' = bb_queue b @ take (nat ret) src" "bio_num_read b' = bio_num_read b"
    "bio_num_write b' = sz (bio_num_write b + length (take (nat ret) src))"
proof -
  have "end_ok b' \<and> bb_queue b' = bb_queue b @ take (nat ret) src \<and> bio_num_read b' = bio_num_read b
    \<and> bio_num_write b' = sz (bio_num_write b + length (take (nat ret) src))"
  proof (cases "0 < n")
    case True
    from BIO_write_queue [OF assms(1) True assms(2-4)] assms(5) show ?thesis by auto
  next
    case False
    then have "b' = b" "ret = 0" using assms(1,5) by (auto simp: BIO_write_def end_ok_def)
    then show ?thesis using assms(1,4) by simp
  qed
  then show "end_ok b'" "bb_queue b' = bb_queue b @ take (nat ret) src" "bio_num_read b' = bio_num_read b"
    "bio_num_write b' = sz (bio_num_write b + length (take (nat ret) src))"
    by blast+
qed

lemma bio_ctrl_keeps:
  assumes "end_ok b" and "bio_ctrl b p cmd = (ret, b')"
  shows "end_ok b'" "bb_queue b' = bb_queue b" "bio_num_read b' = bio_num_read b" "bio_num_write b' = bio_num_write b"
proof -
  have "bio_init b' = bio_init b \<and> bb_peer b' = bb_peer b \<and> bb_buf b' = bb_buf b \<and> bb_len b' = bb_len b
    \<and> bb_offset b' = bb_offset b \<and> bb_size b' = bb_size b
    \<and> bio_num_read b' = bio_num_read b \<and> bio_num_write b' = bio_num_write b"
    using assms(2) by (cases cmd) (auto split: option.split_asm)
  then show "end_ok b'" "bb_queue b' = bb_queue b" "bio_num_read b' = bio_num_read b" "bio_num_write b' = bio_num_write b"
    using end_ok_cong [of b' b] assms(1) by simp_all
qed

lemma bio_step_inv: "bio_step s s' \<Longrightarrow> bio_inv s \<Longrightarrow> bio_inv s'"
proof (induction rule: bio_step.induct)
  case (Read n buf_null s ret out a b)
  have "bio_num_read (end_a s) < SIZE_MODULUS" using Read by (simp add: bio_inv_def)
  from BIO_read_any [OF _ _ Read(1) this Read(2)] Read(3) show ?case
    by (auto simp: bio_inv_def sz_add)
next
  case (Write n src s ret a)
  have "bio_num_write (end_a s) < SIZE_MODULUS" using Write by (simp add: bio_inv_def)
  from BIO_write_any [OF _ Write(1,2) this Write(3)] Write(4) show ?case
    by (auto simp: bio_inv_def sz_add add.assoc)
next
  case (Ctrl s cmd ret a)
  with bio_ctrl_keeps [of "end_a s" "end_b s" cmd ret a] show ?case by (auto simp: bio_inv_def)
next
  case (Other s s')
  then show ?case by simp
qed

lemma half_size_prefix: "2 * n < SIZE_MODULUS \<Longrightarrow> n + 8 < SIZE_MODULUS"
  by (simp add: SIZE_MODULUS_def)

lemma make_ring_ok:
  assumes "make_ring al n b = Some c" and "bb_buf b = None" and "0 < bb_size b"
    and "2 * bb_size b < SIZE_MODULUS" and "2 * n < SIZE_MODULUS"
  shows "\<exists>ring. bb_buf c = Some ring \<and> ring_ok c ring" "bb_len c = 0"
    "bio_num_read c = bio_num_read b" "bio_num_write c = bio_num_write b"
  using assms OPENSSL_malloc_length [of al n] OPENSSL_malloc_length [of al "bb_size b"]
    half_size_prefix [of n] half_size_prefix [of "bb_size b"]
  by (auto simp: make_ring_def Let_def ring_ok_def split: option.split_asm if_split_asm)

lemma pair_start_inv:
  assumes "BIO_new_bio_pair al n1 n2 = Some (a, b)" and "2 * n1 < SIZE_MODULUS" and "2 * n2 < SIZE_MODULUS"
  shows "bio_inv \<lparr>end_a = a, end_b = b, sent_a = [], sent_b = [], got_a = [], got_b = []\<rparr>"
proof -
  obtain x where x: "BIO_new al = Some x" "bio_make_pair al x x n1 n2 = Some (a, b)"
    using assms(1) by (auto simp: BIO_new_bio_pair_def split: option.split_asm)
  have f: "bb_buf x = None" "bb_size x = 17 * 1024" "bio_num_read x = 0" "bio_num_write x = 0"
    using x(1) by (auto simp: BIO_new_def bio_new_def split: if_split_asm)
  obtain c1 c2 where c: "make_ring al n1 x = Some c1" "make_ring al n2 x = Some c2"
    "a = c1\<lparr>bb_peer := True, bb_closed := False, bb_request := 0, bio_init := True\<rparr>"
    "b = c2\<lparr>bb_peer := True, bb_closed := False, bb_request := 0, bio_init := True\<rparr>"
    using x(2) by (auto simp: bio_make_pair_def split: if_split_asm option.split_asm)
  have s: "0 < bb_size x" "2 * bb_size x < SIZE_MODULUS" using f by (simp_all add: SIZE_MODULUS_def)
  note m1 = make_ring_ok [OF c(1) f(1) s assms(2)] and m2 = make_ring_ok [OF c(2) f(1) s assms(3)]
  then show ?thesis
    using f c(3,4) by (auto simp: bio_inv_def end_ok_def ring_ok_def bb_queue_def ring_at_def)
qed

lemma bio_reach_inv: "bio_reach s \<Longrightarrow> bio_inv s"
  by (induction rule: bio_reach.induct) (auto intro: pair_start_inv bio_step_inv)

section \<open>Properties\<close>

text \<open>
  C23: a BIO pair is two reliable byte streams. After any sequence of reads, writes, shutdowns and other
  control calls at both ends, what one end has accepted is what the other end has read followed by
  what waits in the ring buffer: no byte is lost, repeated or reordered, however the buffer has
  wrapped around, and the buffer never holds more than its size.
\<close>

theorem bio_pair_stream:
  assumes "bio_reach s"
  shows "sent_a s = got_b s @ bb_queue (end_a s) \<and> sent_b s = got_a s @ bb_queue (end_b s)
    \<and> length (bb_queue (end_a s)) \<le> bb_size (end_a s) \<and> length (bb_queue (end_b s)) \<le> bb_size (end_b s)"
proof -
  have "length (bb_queue b) \<le> bb_size b" if "end_ok b" for b
    using that by (auto elim!: end_okE simp: ring_ok_def)
  then show ?thesis using bio_reach_inv [OF assms] by (simp add: bio_inv_def)
qed

text \<open>
  C24: reads and writes of a reachable pair always return: the copy loops end and no \<open>assert\<close>
  fails. A read delivers the front of the peer's queue, or reports the end of the stream after a
  shutdown, or asks for a retry; a write appends as much as fits, or is refused after a
  shutdown or when the buffer is full.
\<close>

theorem bio_pair_io_returns:
  assumes "bio_reach s" and "0 < n" and "n \<le> int INT_MAX" and "nat n \<le> length src"
  shows "(\<exists>ret out a b. BIO_read False n (end_a s) (end_b s) = Some (ret, out, a, b)
        \<and> read_result (nat n) (end_b s) ret out b)
    \<and> (\<exists>ret a. BIO_write (Some src) n (end_a s) = Some (ret, a) \<and> write_result (nat n) src (end_a s) ret a)"
proof -
  have i: "end_ok (end_a s)" "end_ok (end_b s)" "bio_num_read (end_a s) < SIZE_MODULUS"
    "bio_num_write (end_a s) < SIZE_MODULUS"
    using bio_reach_inv [OF assms(1)] by (simp_all add: bio_inv_def)
  from BIO_read_queue [OF i(1,2) assms(2,3) i(3)] BIO_write_queue [OF i(1) assms(2-4) i(4)]
  show ?thesis by blast
qed

subsection \<open>A pair with buffers of four bytes\<close>

definition fresh_bio :: bio where
  "fresh_bio = \<lparr>bio_init = True, bio_shutdown = 1, bio_flags = 0, bio_num_read = 0, bio_num_write = 0,
     bb_peer = True, bb_closed = False, bb_len = 0, bb_offset = 0, bb_size = 4,
     bb_buf = Some [0, 0, 0, 0], bb_request = 0\<rparr>"

definition fresh_sys :: bio_sys where
  "fresh_sys = \<lparr>end_a = fresh_bio, end_b = fresh_bio, sent_a = [], sent_b = [], got_a = [], got_b = []\<rparr>"

lemma fresh_sys_reach: "bio_reach fresh_sys"
proof -
  have "[0..<4] = [0, 1, 2, 3 :: nat]" by (simp add: upt_rec)
  then have "BIO_new_bio_pair every_block 4 4 = Some (fresh_bio, fresh_bio)"
    by (simp add: BIO_new_bio_pair_def BIO_new_def bio_new_def bio_make_pair_def make_ring_def
        OPENSSL_malloc_def every_block_small fresh_bio_def) (simp add: every_block_def)
  from bio_reach.Start [OF this] show ?thesis by (simp add: fresh_sys_def SIZE_MODULUS_def)
qed

theorem bio_pair_io_returns_witness:
  "\<exists>a. BIO_write (Some [1, 2, 3, 4, 5, 6]) 6 (end_a fresh_sys) = Some (4, a) \<and> bb_queue a = [1, 2, 3, 4]"
proof -
  have "bb_queue fresh_bio = []" "bb_size fresh_bio = 4" "\<not> bb_closed fresh_bio"
    by (simp_all add: fresh_bio_def bb_queue_def ring_at_def)
  then show ?thesis
    using bio_pair_io_returns [OF fresh_sys_reach, of 6 "[1, 2, 3, 4, 5, 6]"]
    by (auto simp: write_result_def fresh_sys_def INT_MAX_def)
qed

theorem bio_pair_stream_witness:
  "\<exists>a. bio_reach (fresh_sys\<lparr>end_a := a, sent_a := [7]\<rparr>) \<and> bb_queue a = [7]"
proof -
  obtain a where "BIO_write (Some [7]) 1 (end_a fresh_sys) = Some (1, a)"
    by (auto simp: BIO_write_def bio_write_def fresh_sys_def fresh_bio_def BIO_clear_retry_flags_def
        to_size_def SIZE_MODULUS_def write_loop.simps sz_def Let_def)
  then have "bio_step fresh_sys (fresh_sys\<lparr>end_a := a, sent_a := sent_a fresh_sys @ take (nat 1) [7]\<rparr>)"
    by (intro bio_step.Write [of 1 "[7]" fresh_sys 1 a]) (simp_all add: INT_MAX_def)
  then have r: "bio_reach (fresh_sys\<lparr>end_a := a, sent_a := [7]\<rparr>)"
    using bio_reach.Step [OF fresh_sys_reach] by (simp add: fresh_sys_def)
  with bio_pair_stream [OF r] show ?thesis by (auto simp: fresh_sys_def)
qed

end
