(* ===== verification/Modes.thy ===== *)
theory Modes
  imports Prelude
begin

text \<open>
  The stream modes of \<open>crypto/fipsmodule/modes\<close>: OFB, CFB (128, 8 and 1 bit) and CTR, the latter
  with the byte-wise 128-bit counter and with a 32-bit counter routine. The block cipher is a
  parameter, a function on 16-byte blocks under a fixed key. The input and the output buffer are
  the same or disjoint, so the output is a function of the input bytes. On the target
  \<open>STRICT_ALIGNMENT\<close> is 0 and \<open>size_t\<close> has 8 bytes; the word-wise exclusive or of a block is the
  byte-wise one in the same order.

  OFB, CFB and CTR share one shape: use up the current block, take whole blocks, start a last
  one. The locale \<open>stream_mode\<close> states it once, with the byte-at-a-time loop as the reference.
\<close>

section \<open>The common shape\<close>

text \<open>
  \<open>refill\<close> runs the block cipher when a block is used up, \<open>step\<close> treats one byte at position \<open>n\<close> of
  the block. The three loops: \<open>while (n && len)\<close>, \<open>while (len >= 16)\<close>, and the last block.
\<close>

fun stream_head :: "('s \<Rightarrow> nat \<Rightarrow> byte \<Rightarrow> byte \<times> 's) \<Rightarrow> 's \<Rightarrow> nat \<Rightarrow> byte list \<Rightarrow> byte list \<times> 's \<times> nat \<times> byte list" where
  "stream_head step s n [] = ([], s, n, [])"
| "stream_head step s n (x # xs) =
     (if n = 0 then ([], s, n, x # xs)
      else case step s n x of (y, s') \<Rightarrow>
        (case stream_head step s' ((n + 1) mod 16) xs of (ys, t, m, rest) \<Rightarrow> (y # ys, t, m, rest)))"

text \<open>The inner loop over a block, from position \<open>n\<close>.\<close>

fun stream_span :: "('s \<Rightarrow> nat \<Rightarrow> byte \<Rightarrow> byte \<times> 's) \<Rightarrow> 's \<Rightarrow> nat \<Rightarrow> byte list \<Rightarrow> byte list \<times> 's" where
  "stream_span step s n [] = ([], s)"
| "stream_span step s n (x # xs) =
     (case step s n x of (y, s') \<Rightarrow> (case stream_span step s' (n + 1) xs of (ys, t) \<Rightarrow> (y # ys, t)))"

function stream_blocks ::
  "('s \<Rightarrow> 's) \<Rightarrow> ('s \<Rightarrow> nat \<Rightarrow> byte \<Rightarrow> byte \<times> 's) \<Rightarrow> 's \<Rightarrow> byte list \<Rightarrow> byte list \<times> 's \<times> byte list" where
  "stream_blocks refill step s xs =
     (if length xs < 16 then ([], s, xs)
      else case stream_span step (refill s) 0 (take 16 xs) of (ys, s') \<Rightarrow>
        (case stream_blocks refill step s' (drop 16 xs) of (zs, t, rest) \<Rightarrow> (ys @ zs, t, rest)))"
  by pat_completeness auto
termination by (relation "measure (\<lambda>(refill, step, s, xs). length xs)") auto

declare stream_blocks.simps [simp del]

definition stream_encrypt ::
  "('s \<Rightarrow> 's) \<Rightarrow> ('s \<Rightarrow> nat \<Rightarrow> byte \<Rightarrow> byte \<times> 's) \<Rightarrow> 's \<Rightarrow> nat \<Rightarrow> byte list \<Rightarrow> byte list \<times> 's \<times> nat" where
  "stream_encrypt refill step s n xs =
     (case stream_head step s n xs of (ys, s1, n1, xs1) \<Rightarrow>
        (case stream_blocks refill step s1 xs1 of (zs, s2, xs2) \<Rightarrow>
           if xs2 = [] then (ys @ zs, s2, n1)
           else case stream_span step (refill s2) n1 xs2 of (ws, s3) \<Rightarrow>
                  (ys @ zs @ ws, s3, n1 + length xs2)))"

section \<open>OFB\<close>

definition ofb_step :: "byte list \<Rightarrow> nat \<Rightarrow> byte \<Rightarrow> byte \<times> byte list" where
  "ofb_step ivec n x = (x XOR ivec ! n, ivec)"

definition CRYPTO_ofb128_encrypt ::
  "(byte list \<Rightarrow> byte list) \<Rightarrow> byte list \<Rightarrow> nat \<Rightarrow> byte list \<Rightarrow> byte list \<times> byte list \<times> nat" where
  "CRYPTO_ofb128_encrypt block ivec num xs = stream_encrypt block ofb_step ivec num xs"

section \<open>CFB\<close>

definition cfb_enc_step :: "byte list \<Rightarrow> nat \<Rightarrow> byte \<Rightarrow> byte \<times> byte list" where
  "cfb_enc_step ivec n x = (let y = ivec ! n XOR x in (y, ivec[n := y]))"

definition cfb_dec_step :: "byte list \<Rightarrow> nat \<Rightarrow> byte \<Rightarrow> byte \<times> byte list" where
  "cfb_dec_step ivec n c = (ivec ! n XOR c, ivec[n := c])"

definition CRYPTO_cfb128_encrypt ::
  "(byte list \<Rightarrow> byte list) \<Rightarrow> bool \<Rightarrow> byte list \<Rightarrow> nat \<Rightarrow> byte list \<Rightarrow> byte list \<times> byte list \<times> nat" where
  "CRYPTO_cfb128_encrypt block enc ivec num xs =
     (if enc then stream_encrypt block cfb_enc_step ivec num xs
      else stream_encrypt block cfb_dec_step ivec num xs)"

text \<open>
  \<open>cfbr_encrypt_block\<close> on a block of \<open>nbits\<close> bits: the output bytes and the shifted \<open>ivec\<close>. The
  entries of \<open>ovec\<close> that are never assigned are \<open>junk_byte\<close>.
\<close>

definition cfbr_encrypt_block ::
  "(byte list \<Rightarrow> byte list) \<Rightarrow> byte \<Rightarrow> byte list \<Rightarrow> nat \<Rightarrow> byte list \<Rightarrow> bool \<Rightarrow> byte list \<times> byte list" where
  "cfbr_encrypt_block block junk_byte xs nbits ivec0 enc =
     (if nbits = 0 \<or> 128 < nbits then ([], ivec0)
      else
        let ivec = block ivec0;
            num = (nbits + 7) div 8;
            out = xor_bytes (take num xs) ivec;
            ovec = ivec0 @ (if enc then out else take num xs) @ replicate (17 - num) junk_byte;
            rem = nbits mod 8;
            off = nbits div 8
        in (out,
            if rem = 0 then take 16 (drop off ovec)
            else map (\<lambda>n. push_bit rem (ovec ! (n + off)) OR drop_bit (8 - rem) (ovec ! (n + off + 1))) [0..<16]))"

fun CRYPTO_cfb128_8_encrypt ::
  "(byte list \<Rightarrow> byte list) \<Rightarrow> byte \<Rightarrow> bool \<Rightarrow> byte list \<Rightarrow> byte list \<Rightarrow> byte list \<times> byte list" where
  "CRYPTO_cfb128_8_encrypt block junk_byte enc ivec [] = ([], ivec)"
| "CRYPTO_cfb128_8_encrypt block junk_byte enc ivec (x # xs) =
     (case cfbr_encrypt_block block junk_byte [x] 8 ivec enc of (y, ivec') \<Rightarrow>
        (case CRYPTO_cfb128_8_encrypt block junk_byte enc ivec' xs of (ys, t) \<Rightarrow> (y @ ys, t)))"

text \<open>One round of the loop of \<open>CRYPTO_cfb128_1_encrypt\<close>: bit \<open>n\<close>, most significant bit first.\<close>

definition cfb1_round ::
  "(byte list \<Rightarrow> byte list) \<Rightarrow> byte \<Rightarrow> bool \<Rightarrow> byte list \<Rightarrow> nat \<Rightarrow> byte list \<times> byte list \<Rightarrow> byte list \<times> byte list" where
  "cfb1_round block junk_byte enc xs n st =
     (case st of (out, ivec) \<Rightarrow>
        let c = (if xs ! (n div 8) AND push_bit (7 - n mod 8) 1 \<noteq> 0 then 0x80 else 0) in
        (case cfbr_encrypt_block block junk_byte [c] 1 ivec enc of (d, ivec') \<Rightarrow>
           (out[n div 8 := (out ! (n div 8) AND NOT (push_bit (7 - n mod 8) 1))
                           OR drop_bit (n mod 8) (d ! 0 AND 0x80)],
            ivec')))"

definition CRYPTO_cfb128_1_encrypt ::
  "(byte list \<Rightarrow> byte list) \<Rightarrow> byte \<Rightarrow> bool \<Rightarrow> byte list \<Rightarrow> byte list \<Rightarrow> nat \<Rightarrow> byte list \<Rightarrow> byte list \<times> byte list" where
  "CRYPTO_cfb128_1_encrypt block junk_byte enc ivec xs bits out =
     fold (cfb1_round block junk_byte enc xs) [0..<bits] (out, ivec)"

section \<open>CTR\<close>

text \<open>The carry loop of \<open>ctr128_inc\<close> and \<open>ctr96_inc\<close>.\<close>

fun inc_loop :: "byte list \<Rightarrow> nat \<Rightarrow> u32 \<Rightarrow> byte list" where
  "inc_loop counter 0 c = counter"
| "inc_loop counter (Suc n) c =
     (let c' = c + ucast (counter ! n) in inc_loop (counter[n := ucast c']) n (drop_bit 8 c'))"

definition ctr128_inc :: "byte list \<Rightarrow> byte list" where
  "ctr128_inc counter = inc_loop counter 16 1"

definition ctr96_inc :: "byte list \<Rightarrow> byte list" where
  "ctr96_inc counter = inc_loop counter 12 1"

definition ctr_refill :: "(byte list \<Rightarrow> byte list) \<Rightarrow> byte list \<times> byte list \<Rightarrow> byte list \<times> byte list" where
  "ctr_refill block st = (case st of (ivec, ecount_buf) \<Rightarrow> (ctr128_inc ivec, block ivec))"

definition ctr_step :: "byte list \<times> byte list \<Rightarrow> nat \<Rightarrow> byte \<Rightarrow> byte \<times> byte list \<times> byte list" where
  "ctr_step st n x = (x XOR snd st ! n, st)"

definition CRYPTO_ctr128_encrypt ::
  "(byte list \<Rightarrow> byte list) \<Rightarrow> byte list \<times> byte list \<Rightarrow> nat \<Rightarrow> byte list \<Rightarrow> byte list \<times> (byte list \<times> byte list) \<times> nat" where
  "CRYPTO_ctr128_encrypt block st num xs = stream_encrypt (ctr_refill block) ctr_step st num xs"

definition GETU32 :: "byte list \<Rightarrow> u32" where
  "GETU32 p = word_of_nat (be_nat (take 4 p))"

definition PUTU32 :: "u32 \<Rightarrow> byte list" where
  "PUTU32 v = be_bytes 4 (unat v)"

text \<open>
  The block loop of \<open>CRYPTO_ctr128_encrypt_ctr32\<close>: \<open>func in blocks ivec\<close> is the caller's routine. The
  result: output, \<open>ivec\<close>, \<open>ctr32\<close> and the input left.
\<close>

definition ctr32_chunk :: "u32 \<Rightarrow> nat \<Rightarrow> u32 \<times> nat" where
  "ctr32_chunk ctr32 len =
     (let blocks = len div 16;
          blocks = (if 2 ^ 28 < blocks then 2 ^ 28 else blocks);
          ctr32 = ctr32 + word_of_nat blocks
      in if unat ctr32 < blocks then (0, blocks - unat ctr32) else (ctr32, blocks))"

definition ctr32_advance :: "byte list \<Rightarrow> u32 \<Rightarrow> byte list" where
  "ctr32_advance ivec ctr32 =
     (let iv = write_at ivec 12 (PUTU32 ctr32) in if ctr32 = 0 then ctr96_inc iv else iv)"

lemma ctr32_chunk_progress:
  assumes "ctr32_chunk c len = (c', b)" and "16 \<le> len"
  shows "0 < b" "16 * b \<le> len"
proof -
  define k where "k = (if 2 ^ 28 < len div 16 then 2 ^ 28 else len div 16)"
  have k: "0 < k" "k \<le> len div 16" using assms(2) by (auto simp: k_def)
  have b: "b = (if unat (c + word_of_nat k) < k then k - unat (c + word_of_nat k) else k)"
    using assms(1) by (auto simp: ctr32_chunk_def Let_def k_def split: if_split_asm)
  show "0 < b" using k b by auto
  have "b \<le> len div 16" using k b by auto
  then show "16 * b \<le> len" by linarith
qed

function ctr32_blocks ::
  "(byte list \<Rightarrow> nat \<Rightarrow> byte list \<Rightarrow> byte list) \<Rightarrow> byte list \<Rightarrow> u32 \<Rightarrow> byte list
    \<Rightarrow> byte list \<times> byte list \<times> u32 \<times> byte list" where
  "ctr32_blocks func ivec ctr32 xs =
     (if length xs < 16 then ([], ivec, ctr32, xs)
      else
        case ctr32_chunk ctr32 (length xs) of (ctr32', blocks) \<Rightarrow>
        let ys = func (take (16 * blocks) xs) blocks ivec in
        (case ctr32_blocks func (ctr32_advance ivec ctr32') ctr32' (drop (16 * blocks) xs) of
           (zs, iv, c, rest) \<Rightarrow> (ys @ zs, iv, c, rest)))"
  by pat_completeness auto

termination
  by (relation "measure (\<lambda>(func, ivec, ctr32, xs). length xs)")
    (auto dest!: ctr32_chunk_progress(1) [OF sym])

declare ctr32_blocks.simps [simp del]

definition CRYPTO_ctr128_encrypt_ctr32 ::
  "(byte list \<Rightarrow> nat \<Rightarrow> byte list \<Rightarrow> byte list) \<Rightarrow> byte list \<times> byte list \<Rightarrow> nat \<Rightarrow> byte list
    \<Rightarrow> byte list \<times> (byte list \<times> byte list) \<times> nat" where
  "CRYPTO_ctr128_encrypt_ctr32 func st num xs =
     (case stream_head ctr_step st num xs of (ys, (ivec, ecount_buf), n, xs1) \<Rightarrow>
        (case ctr32_blocks func ivec (GETU32 (drop 12 ivec)) xs1 of (zs, iv, ctr32, xs2) \<Rightarrow>
           if xs2 = [] then (ys @ zs, (iv, ecount_buf), n)
           else
             let ec = func (replicate 16 0) 1 iv;
                 iv' = ctr32_advance iv (ctr32 + 1)
             in case stream_span ctr_step (iv', ec) n xs2 of (ws, st') \<Rightarrow>
                  (ys @ zs @ ws, st', n + length xs2)))"

section \<open>The byte-at-a-time reference\<close>

text \<open>
  The loop that the code itself uses for unaligned buffers: run the cipher when the block is used
  up, then treat one byte.
\<close>

fun stream_ref ::
  "('s \<Rightarrow> 's) \<Rightarrow> ('s \<Rightarrow> nat \<Rightarrow> byte \<Rightarrow> byte \<times> 's) \<Rightarrow> 's \<Rightarrow> nat \<Rightarrow> byte list \<Rightarrow> byte list \<times> 's \<times> nat" where
  "stream_ref refill step s n [] = ([], s, n)"
| "stream_ref refill step s n (x # xs) =
     (case step (if n = 0 then refill s else s) n x of (y, s') \<Rightarrow>
        (case stream_ref refill step s' ((n + 1) mod 16) xs of (ys, t, m) \<Rightarrow> (y # ys, t, m)))"

lemma stream_ref_append:
  "stream_ref refill step s n (xs @ ys) =
    (case stream_ref refill step s n xs of (us, s1, n1) \<Rightarrow>
      (case stream_ref refill step s1 n1 ys of (vs, s2, n2) \<Rightarrow> (us @ vs, s2, n2)))"
  by (induction xs arbitrary: s n) (auto split: prod.split)

lemma stream_head_ref:
  assumes "stream_head step s n xs = (ys, s1, n1, rest)" and "n < 16"
  shows "\<exists>pre. xs = pre @ rest \<and> stream_ref refill step s n pre = (ys, s1, n1)
    \<and> (rest = [] \<or> n1 = 0) \<and> n1 < 16"
  using assms
proof (induction xs arbitrary: s n ys)
  case Nil
  then show ?case by auto
next
  case (Cons x xs)
  show ?case
  proof (cases "n = 0")
    case True
    then show ?thesis using Cons.prems by auto
  next
    case False
    obtain y s' where st: "step s n x = (y, s')" by fastforce
    then obtain zs where h: "stream_head step s' ((n + 1) mod 16) xs = (zs, s1, n1, rest)" "ys = y # zs"
      using Cons.prems(1) False by (auto split: prod.split_asm)
    from Cons.IH [OF h(1)] obtain pre where "xs = pre @ rest"
      "stream_ref refill step s' ((n + 1) mod 16) pre = (zs, s1, n1)" "rest = [] \<or> n1 = 0" "n1 < 16"
      by auto
    then show ?thesis using False st h(2) by (intro exI [of _ "x # pre"]) auto
  qed
qed

lemma stream_span_ref:
  "stream_span step s n xs = (ys, t) \<Longrightarrow> 0 < n \<Longrightarrow> n + length xs \<le> 16 \<Longrightarrow>
    stream_ref refill step s (n mod 16) xs = (ys, t, (n + length xs) mod 16)"
proof (induction xs arbitrary: s n ys)
  case Nil
  then show ?case by simp
next
  case (Cons x xs)
  obtain y s' where st: "step s n x = (y, s')" by fastforce
  then obtain zs where h: "stream_span step s' (n + 1) xs = (zs, t)" "ys = y # zs"
    using Cons.prems(1) by (auto split: prod.split_asm)
  have "n < 16" using Cons.prems(3) by simp
  with Cons.IH [OF h(1)] Cons.prems st h(2) show ?case by simp
qed

lemma stream_span_ref_0:
  assumes "stream_span step (refill s) 0 xs = (ys, t)" and "xs \<noteq> []" and "length xs \<le> 16"
  shows "stream_ref refill step s 0 xs = (ys, t, length xs mod 16)"
proof -
  obtain x zs where xs: "xs = x # zs" using assms(2) by (cases xs) auto
  obtain y s' where st: "step (refill s) 0 x = (y, s')" by fastforce
  obtain us where h: "stream_span step s' 1 zs = (us, t)" "ys = y # us"
    using assms(1) st xs by (auto split: prod.split_asm)
  from stream_span_ref [OF h(1), of refill] assms(3) st h(2) xs show ?thesis by simp
qed

lemma stream_blocks_ref:
  "stream_blocks refill step s xs = (zs, t, rest) \<Longrightarrow>
    \<exists>pre. xs = pre @ rest \<and> stream_ref refill step s 0 pre = (zs, t, 0) \<and> length rest < 16"
proof (induction refill step s xs arbitrary: zs rule: stream_blocks.induct)
  case (1 refill step s xs)
  show ?case
  proof (cases "length xs < 16")
    case True
    then show ?thesis using 1(2) by (auto simp: stream_blocks.simps [of refill step s xs])
  next
    case False
    obtain ys s' where sp: "stream_span step (refill s) 0 (take 16 xs) = (ys, s')" by fastforce
    then obtain us where h: "stream_blocks refill step s' (drop 16 xs) = (us, t, rest)" "zs = ys @ us"
      using 1(2) False by (auto simp: stream_blocks.simps [of refill step s xs] split: prod.split_asm)
    from 1(1) [OF False sp [symmetric] h(1)] obtain pre where pre: "drop 16 xs = pre @ rest"
      "stream_ref refill step s' 0 pre = (us, t, 0)" "length rest < 16" by blast
    have "stream_ref refill step s 0 (take 16 xs) = (ys, s', 0)"
      using stream_span_ref_0 [of step refill s "take 16 xs" ys s'] sp False by (cases xs) auto
    then have "stream_ref refill step s 0 (take 16 xs @ pre) = (zs, t, 0)"
      using pre(2) h(2) by (simp add: stream_ref_append)
    moreover have "xs = (take 16 xs @ pre) @ rest" using pre(1) by (metis append_assoc append_take_drop_id)
    ultimately show ?thesis using pre(3) by blast
  qed
qed

lemma stream_encrypt_ref:
  assumes "n < 16"
  shows "stream_encrypt refill step s n xs = stream_ref refill step s n xs"
proof -
  obtain ys s1 n1 xs1 where h: "stream_head step s n xs = (ys, s1, n1, xs1)" by (metis prod_cases4)
  obtain zs s2 xs2 where b: "stream_blocks refill step s1 xs1 = (zs, s2, xs2)" by (metis prod_cases3)
  obtain pre where p: "xs = pre @ xs1" "stream_ref refill step s n pre = (ys, s1, n1)"
    "xs1 = [] \<or> n1 = 0" "n1 < 16"
    using stream_head_ref [OF h assms] by blast
  obtain mid where m: "xs1 = mid @ xs2" "stream_ref refill step s1 0 mid = (zs, s2, 0)" "length xs2 < 16"
    using stream_blocks_ref [OF b] by blast
  show ?thesis
  proof (cases "xs1 = []")
    case True
    then have "zs = []" "s2 = s1" "xs2 = []" using b by (simp_all add: stream_blocks.simps)
    then show ?thesis using True p h b by (simp add: stream_encrypt_def)
  next
    case False
    then have n1: "n1 = 0" using p(3) by simp
    show ?thesis
    proof (cases "xs2 = []")
      case True
      then show ?thesis using n1 p(1,2) m h b by (simp add: stream_encrypt_def stream_ref_append)
    next
      case False
      obtain ws s3 where sp: "stream_span step (refill s2) 0 xs2 = (ws, s3)" by fastforce
      from stream_span_ref_0 [of step refill s2 xs2 ws s3] sp False m(3)
      have "stream_ref refill step s2 0 xs2 = (ws, s3, length xs2)" by simp
      then show ?thesis using False n1 p(1,2) m h b sp by (simp add: stream_encrypt_def stream_ref_append)
    qed
  qed
qed

section \<open>Decryption\<close>

text \<open>
  The contract of the two directions of a mode: the decrypting step undoes the encrypting one and
  leaves the same state behind.
\<close>

locale stream_mode =
  fixes refill :: "'s \<Rightarrow> 's"
    and enc :: "'s \<Rightarrow> nat \<Rightarrow> byte \<Rightarrow> byte \<times> 's"
    and dec :: "'s \<Rightarrow> nat \<Rightarrow> byte \<Rightarrow> byte \<times> 's"
  assumes dec_enc: "enc s n x = (y, s') \<Longrightarrow> dec s n y = (x, s')"
begin

lemma ref_roundtrip:
  "stream_ref refill enc s n xs = (ys, t, m) \<Longrightarrow> stream_ref refill dec s n ys = (xs, t, m)"
proof (induction xs arbitrary: s n ys)
  case Nil
  then show ?case by simp
next
  case (Cons x xs)
  obtain y s' where st: "enc (if n = 0 then refill s else s) n x = (y, s')" by fastforce
  then obtain zs where h: "stream_ref refill enc s' ((n + 1) mod 16) xs = (zs, t, m)" "ys = y # zs"
    using Cons.prems by (auto split: prod.split_asm)
  show ?case using Cons.IH [OF h(1)] dec_enc [OF st] h(2) by simp
qed

lemma encrypt_roundtrip:
  "n < 16 \<Longrightarrow> stream_encrypt refill enc s n xs = (ys, t, m) \<Longrightarrow> stream_encrypt refill dec s n ys = (xs, t, m)"
  by (simp add: stream_encrypt_ref ref_roundtrip)

end

lemma ref_num_less: "stream_ref refill step s n xs = (ys, t, m) \<Longrightarrow> n < 16 \<Longrightarrow> m < 16"
  by (induction xs arbitrary: s n ys) (auto split: prod.split_asm)

lemma encrypt_streams:
  assumes "n < 16" and "stream_encrypt refill step s n xs = (ys, s1, n1)"
    and "stream_encrypt refill step s1 n1 xs' = (ys', s2, n2)"
  shows "stream_encrypt refill step s n (xs @ xs') = (ys @ ys', s2, n2)"
  using assms ref_num_less [of refill step s n xs ys s1 n1]
  by (simp add: stream_encrypt_ref stream_ref_append)

lemma xor_cancel: "(x XOR k) XOR k = (x :: byte)" "k XOR (k XOR x) = (x :: byte)"
  by (simp_all add: xor.assoc xor.left_commute [of k k])

interpretation ofb: stream_mode block ofb_step ofb_step for block
  by unfold_locales (auto simp: ofb_step_def xor_cancel)

interpretation ctr: stream_mode "ctr_refill block" ctr_step ctr_step for block
  by unfold_locales (auto simp: ctr_step_def xor_cancel)

interpretation cfb: stream_mode block cfb_enc_step cfb_dec_step for block
  by unfold_locales (auto simp: cfb_enc_step_def cfb_dec_step_def xor_cancel Let_def)

section \<open>Counters\<close>

lemma be_nat_append: "be_nat (xs @ ys) = be_nat xs * 256 ^ length ys + be_nat ys"
proof (induction ys rule: rev_induct)
  case Nil
  then show ?case by simp
next
  case (snoc y ys)
  have "be_nat ((xs @ ys) @ [y]) = be_nat (xs @ ys) * 256 + unat y" by (rule be_nat_snoc)
  with snoc show ?case by (simp add: algebra_simps)
qed

lemma be_nat_inj: "length xs = length ys \<Longrightarrow> be_nat xs = be_nat ys \<Longrightarrow> xs = ys"
  by (metis be_bytes_be_nat)

lemma length_inc_loop [simp]: "length (inc_loop counter n c) = length counter"
  by (induction counter n c rule: inc_loop.induct) (simp_all add: Let_def)

lemma inc_loop_drop: "n \<le> k \<Longrightarrow> drop k (inc_loop counter n c) = drop k counter"
  by (induction counter n c rule: inc_loop.induct) (auto simp: Let_def)

lemma inc_loop_value:
  "n \<le> length counter \<Longrightarrow> unat c \<le> 1 \<Longrightarrow>
    be_nat (take n (inc_loop counter n c)) = (be_nat (take n counter) + unat c) mod 256 ^ n"
proof (induction counter n c rule: inc_loop.induct)
  case (1 counter c)
  then show ?case by simp
next
  case (2 counter n c)
  define c' where "c' = c + ucast (counter ! n)"
  let ?r = "inc_loop (counter[n := ucast c']) n (drop_bit 8 c')"
  have "unat c + unat (counter ! n) < 4294967296"
    using 2(3) unat_byte_less [of "counter ! n"] by linarith
  then have u: "unat c' = unat c + unat (counter ! n)"
    unfolding c'_def by (subst unat_word_ariths(1)) simp
  have carry: "unat (drop_bit 8 c') = unat c' div 256" by (simp add: unat_drop_bit_div)
  have "unat c' < 512" using u 2(3) unat_byte_less [of "counter ! n"] by linarith
  then have le: "unat (drop_bit 8 c') \<le> 1" unfolding carry by linarith
  have len: "n < length counter" using 2(2) by simp
  have "?r ! n = drop n ?r ! 0" using len by simp
  also have "\<dots> = (ucast c' :: byte)" using inc_loop_drop [of n n] len by simp
  finally have "take (Suc n) ?r = take n ?r @ [ucast c']"
    using len by (simp add: take_Suc_conv_app_nth)
  then have "be_nat (take (Suc n) ?r) = be_nat (take n ?r) * 256 + unat c' mod 256"
    by (simp add: unat_ucast_byte)
  also have "be_nat (take n ?r) = (be_nat (take n counter) + unat c' div 256) mod 256 ^ n"
    using 2(1) [OF c'_def] 2(2) le carry by simp
  also have "\<dots> * 256 + unat c' mod 256 = (be_nat (take n counter) * 256 + unat c') mod 256 ^ Suc n"
  proof -
    have "(be_nat (take n counter) * 256 + unat c') div 256 = be_nat (take n counter) + unat c' div 256"
      "(be_nat (take n counter) * 256 + unat c') mod 256 = unat c' mod 256" by simp_all
    then show ?thesis using mod_mult2_eq [of "be_nat (take n counter) * 256 + unat c'" 256 "256 ^ n"] by simp
  qed
  also have "be_nat (take n counter) * 256 + unat c' = be_nat (take (Suc n) counter) + unat c"
    using len u by (simp add: take_Suc_conv_app_nth)
  finally show ?case by (simp add: c'_def Let_def)
qed

lemma ctr128_inc_value:
  assumes "length iv = 16"
  shows "be_nat (ctr128_inc iv) = (be_nat iv + 1) mod 2 ^ 128" "length (ctr128_inc iv) = 16"
  using inc_loop_value [of 16 iv 1] assms by (simp_all add: ctr128_inc_def)

text \<open>The counter block \<open>k\<close> blocks on.\<close>

definition iv_plus :: "byte list \<Rightarrow> nat \<Rightarrow> byte list" where
  "iv_plus iv k = be_bytes 16 (be_nat iv + k)"

lemma length_iv_plus [simp]: "length (iv_plus iv k) = 16"
  by (simp add: iv_plus_def)

lemma be_nat_iv_plus: "be_nat (iv_plus iv k) = (be_nat iv + k) mod 256 ^ 16"
  by (simp only: iv_plus_def be_nat_be_bytes)

lemma iv_plus_eqI: "length jv = 16 \<Longrightarrow> be_nat jv = (be_nat iv + k) mod 256 ^ 16 \<Longrightarrow> jv = iv_plus iv k"
  by (rule be_nat_inj) (simp_all add: be_nat_iv_plus)

lemma iv_plus_0 [simp]: "length iv = 16 \<Longrightarrow> iv_plus iv 0 = iv"
  by (rule sym, rule iv_plus_eqI) (use be_nat_bound [of iv] in simp_all)

lemma iv_plus_plus: "iv_plus (iv_plus iv a) b = iv_plus iv (a + b)"
  by (rule iv_plus_eqI) (simp_all only: length_iv_plus be_nat_iv_plus mod_add_left_eq add.assoc)

lemma ctr128_inc_plus: "length iv = 16 \<Longrightarrow> ctr128_inc iv = iv_plus iv 1"
  by (rule iv_plus_eqI) (simp_all add: ctr128_inc_value)

section \<open>The 32-bit counter routine\<close>

text \<open>
  What the code asks of the routine it is given: counter mode over whole blocks with a counter
  in the last four bytes that wraps without a carry.
\<close>

definition ctr32_at :: "byte list \<Rightarrow> nat \<Rightarrow> byte list" where
  "ctr32_at iv i = take 12 iv @ be_bytes 4 (be_nat (drop 12 iv) + i)"

definition ctr32_func :: "(byte list \<Rightarrow> byte list) \<Rightarrow> (byte list \<Rightarrow> nat \<Rightarrow> byte list \<Rightarrow> byte list) \<Rightarrow> bool" where
  "ctr32_func block func \<longleftrightarrow>
     (\<forall>xs k iv. length iv = 16 \<longrightarrow> length xs = 16 * k \<longrightarrow>
        func xs k iv = concat (map (\<lambda>i. xor_bytes (take 16 (drop (16 * i) xs)) (block (ctr32_at iv i))) [0..<k]))"

definition block_fun :: "(byte list \<Rightarrow> byte list) \<Rightarrow> bool" where
  "block_fun block \<longleftrightarrow> (\<forall>x. length x = 16 \<longrightarrow> length (block x) = 16)"

lemma ctr32_chunk_facts:
  assumes "ctr32_chunk c len = (c', b)" and "16 \<le> len"
  shows "unat c + b \<le> 2 ^ 32" "unat c' = (unat c + b) mod 2 ^ 32"
proof -
  define k where "k = (if 2 ^ 28 < len div 16 then 2 ^ 28 else len div 16)"
  define w where "w = c + word_of_nat k"
  have k: "k \<le> 2 ^ 28" by (simp add: k_def)
  have c: "unat c < 2 ^ 32" using unat_u32_less [of c] by simp
  have w: "unat w = (unat c + k) mod 2 ^ 32"
    using k by (simp add: w_def unat_word_ariths(1) unat_of_nat)
  have r: "c' = (if unat w < k then 0 else w)" "b = (if unat w < k then k - unat w else k)"
    using assms(1) by (auto simp: ctr32_chunk_def Let_def k_def w_def split: if_split_asm)
  show "unat c + b \<le> 2 ^ 32" "unat c' = (unat c + b) mod 2 ^ 32"
  proof (atomize (full), cases "unat c + k < 2 ^ 32")
    case True
    then show "unat c + b \<le> 2 ^ 32 \<and> unat c' = (unat c + b) mod 2 ^ 32" using w r by simp
  next
    case False
    then have "unat w = unat c + k - 2 ^ 32" using w c k by (simp add: mod_if)
    with False c have "unat w < k" "unat c + b = 2 ^ 32" using r(2) by (auto split: if_split_asm)
    then show "unat c + b \<le> 2 ^ 32 \<and> unat c' = (unat c + b) mod 2 ^ 32" using r(1) by simp
  qed
qed

lemma ctr96_inc_value:
  assumes "length iv = 16"
  shows "be_nat (ctr96_inc iv) = ((be_nat (take 12 iv) + 1) mod 256 ^ 12) * 256 ^ 4 + be_nat (drop 12 iv)"
    "length (ctr96_inc iv) = 16"
proof -
  let ?r = "ctr96_inc iv"
  show len: "length ?r = 16" using assms by (simp add: ctr96_inc_def)
  have "be_nat ?r = be_nat (take 12 ?r) * 256 ^ length (drop 12 ?r) + be_nat (drop 12 ?r)"
    using be_nat_append [of "take 12 ?r" "drop 12 ?r"] by simp
  moreover have "be_nat (take 12 ?r) = (be_nat (take 12 iv) + 1) mod 256 ^ 12"
    using inc_loop_value [of 12 iv 1] assms by (simp add: ctr96_inc_def)
  moreover have "drop 12 ?r = drop 12 iv" by (simp add: ctr96_inc_def inc_loop_drop)
  ultimately show "be_nat ?r = ((be_nat (take 12 iv) + 1) mod 256 ^ 12) * 256 ^ 4 + be_nat (drop 12 iv)"
    using assms by simp
qed

lemma be_nat_split: "length iv = 16 \<Longrightarrow> be_nat iv = be_nat (take 12 iv) * 256 ^ 4 + be_nat (drop 12 iv)"
  using be_nat_append [of "take 12 iv" "drop 12 iv"] by simp

lemma unat_GETU32: "length iv = 16 \<Longrightarrow> unat (GETU32 (drop 12 iv)) = be_nat (drop 12 iv)"
  using be_nat_bound [of "drop 12 iv"] by (simp add: GETU32_def unat_of_nat)

lemma ctr32_advance_plus:
  assumes "length iv = 16" and "0 < b" and "be_nat (drop 12 iv) + b \<le> 2 ^ 32"
    and "unat c = (be_nat (drop 12 iv) + b) mod 2 ^ 32"
  shows "ctr32_advance iv c = iv_plus iv b" "GETU32 (drop 12 (ctr32_advance iv c)) = c"
proof -
  let ?w = "write_at iv 12 (PUTU32 c)"
  have w: "take 12 ?w = take 12 iv" "drop 12 ?w = PUTU32 c" "length ?w = 16"
    using assms(1) by (simp_all add: write_at_def PUTU32_def)
  have p: "be_nat (PUTU32 c) = unat c" using unat_u32_less [of c] by (simp add: PUTU32_def be_nat_be_bytes)
  have hi: "be_nat (take 12 iv) < 256 ^ 12" using be_nat_bound [of "take 12 iv"] assms(1) by simp
  have "length (ctr32_advance iv c) = 16 \<and> be_nat (ctr32_advance iv c) = (be_nat iv + b) mod 256 ^ 16
      \<and> drop 12 (ctr32_advance iv c) = PUTU32 c"
  proof (cases "c = 0")
    case True
    then have s: "be_nat (drop 12 iv) + b = 2 ^ 32"
      using assms(2-4) by (metis add_is_0 gr_implies_not0 le_neq_implies_less mod_less unsigned_0)
    have q: "(256 :: nat) ^ 16 = 256 ^ 12 * 256 ^ 4" by simp
    have "be_nat iv + b = (be_nat (take 12 iv) + 1) * 256 ^ 4"
      unfolding be_nat_split [OF assms(1)] using s by simp
    moreover have "(be_nat (take 12 iv) + 1) * 256 ^ 4 mod 256 ^ 16
        = ((be_nat (take 12 iv) + 1) mod 256 ^ 12) * 256 ^ 4"
      by (subst q) (rule mod_mult_mult2)
    ultimately show ?thesis
      using True ctr96_inc_value [OF w(3)] w p
      by (simp add: ctr32_advance_def Let_def ctr96_inc_def inc_loop_drop)
  next
    case False
    then have lt: "be_nat (drop 12 iv) + b < 2 ^ 32"
      using assms(3,4) by (metis le_neq_implies_less mod_self unsigned_eq_0_iff)
    have "be_nat ?w = be_nat (take 12 iv) * 256 ^ 4 + unat c"
      using be_nat_split [OF w(3)] w p by simp
    also have "\<dots> = be_nat iv + b" using be_nat_split [OF assms(1)] assms(4) lt by simp
    finally have "be_nat ?w = be_nat iv + b" .
    moreover have "be_nat ?w < 256 ^ 16" using be_nat_bound [of ?w] w(3) by simp
    ultimately show ?thesis using False w by (simp add: ctr32_advance_def Let_def)
  qed
  then show "ctr32_advance iv c = iv_plus iv b" "GETU32 (drop 12 (ctr32_advance iv c)) = c"
    using p iv_plus_eqI [of "ctr32_advance iv c" iv b]
    by (auto simp: GETU32_def PUTU32_def intro: unsigned_word_eqI)
qed

text \<open>Whole blocks of the 128-bit counter loop, in closed form.\<close>

definition ctr_blocks :: "(byte list \<Rightarrow> byte list) \<Rightarrow> (nat \<Rightarrow> byte list) \<Rightarrow> nat \<Rightarrow> byte list \<Rightarrow> byte list" where
  "ctr_blocks block at k xs =
     concat (map (\<lambda>i. xor_bytes (take 16 (drop (16 * i) xs)) (block (at i))) [0..<k])"

lemma ctr_blocks_Suc:
  "ctr_blocks block at (Suc k) xs =
    xor_bytes (take 16 xs) (block (at 0)) @ ctr_blocks block (\<lambda>i. at (Suc i)) k (drop 16 xs)"
  by (simp add: ctr_blocks_def upt_conv_Cons map_Suc_upt [symmetric] comp_def add.commute del: upt_Suc)

lemma ctr_blocks_cong: "(\<And>i. i < k \<Longrightarrow> at i = at' i) \<Longrightarrow> ctr_blocks block at k xs = ctr_blocks block at' k xs"
  by (auto simp: ctr_blocks_def intro!: arg_cong [where f = concat])

lemma ctr_span:
  "n + length xs \<le> length ec \<Longrightarrow> stream_span ctr_step (iv, ec) n xs = (xor_bytes xs (drop n ec), (iv, ec))"
  by (induction xs arbitrary: n) (simp_all add: ctr_step_def Cons_nth_drop_Suc [symmetric])

lemma ctr_whole_blocks:
  assumes "block_fun block"
  shows "length iv = 16 \<Longrightarrow> length xs = 16 * k \<Longrightarrow> \<exists>ec'.
    stream_ref (ctr_refill block) ctr_step (iv, ec) 0 xs = (ctr_blocks block (iv_plus iv) k xs, (iv_plus iv k, ec'), 0)"
proof (induction k arbitrary: iv ec xs)
  case 0
  then show ?case by (auto simp: ctr_blocks_def)
next
  case (Suc k)
  let ?iv = "ctr128_inc iv"
  have iv: "?iv = iv_plus iv 1" "length ?iv = 16"
    using Suc.prems(1) by (simp_all add: ctr128_inc_plus)
  have len: "length (take 16 xs) = 16" "length (block iv) = 16" "take 16 xs \<noteq> []"
    using Suc.prems assms by (auto simp: block_fun_def)
  from Suc.IH [OF iv(2), of "drop 16 xs" "block iv"] Suc.prems(2) obtain ec' where
    rest: "stream_ref (ctr_refill block) ctr_step (?iv, block iv) 0 (drop 16 xs)
      = (ctr_blocks block (iv_plus ?iv) k (drop 16 xs), (iv_plus ?iv k, ec'), 0)" by auto
  have "stream_span ctr_step (ctr_refill block (iv, ec)) 0 (take 16 xs)
      = (xor_bytes (take 16 xs) (block iv), (?iv, block iv))"
    using len by (simp add: ctr_refill_def ctr_span)
  with stream_span_ref_0 [of ctr_step "ctr_refill block" "(iv, ec)" "take 16 xs"] len(3)
  have "stream_ref (ctr_refill block) ctr_step (iv, ec) 0 (take 16 xs)
      = (xor_bytes (take 16 xs) (block iv), (?iv, block iv), 0)" using len(1) by simp
  with rest show ?case
    using stream_ref_append [of "ctr_refill block" ctr_step "(iv, ec)" 0 "take 16 xs" "drop 16 xs"] Suc.prems(1)
    by (auto simp: ctr_blocks_Suc iv(1) iv_plus_plus intro!: ctr_blocks_cong)
qed

lemma ctr32_at_plus:
  assumes "length iv = 16" and "be_nat (drop 12 iv) + i < 2 ^ 32"
  shows "ctr32_at iv i = iv_plus iv i"
proof (rule iv_plus_eqI)
  show len: "length (ctr32_at iv i) = 16" using assms(1) by (simp add: ctr32_at_def)
  have "be_nat (ctr32_at iv i) = be_nat iv + i"
    using assms by (simp add: ctr32_at_def be_nat_append be_nat_be_bytes be_nat_split [OF assms(1)])
  with be_nat_bound [of "ctr32_at iv i"] len
  show "be_nat (ctr32_at iv i) = (be_nat iv + i) mod 256 ^ 16" by simp
qed

lemma ctr32_func_blocks:
  assumes "ctr32_func block func" and "length iv = 16" and "length xs = 16 * k"
    and "be_nat (drop 12 iv) + k \<le> 2 ^ 32"
  shows "func xs k iv = ctr_blocks block (iv_plus iv) k xs"
proof -
  have "func xs k iv = ctr_blocks block (ctr32_at iv) k xs"
    using assms(1-3) by (simp add: ctr32_func_def ctr_blocks_def)
  also have "\<dots> = ctr_blocks block (iv_plus iv) k xs"
    by (rule ctr_blocks_cong) (use assms(2,4) in \<open>simp add: ctr32_at_plus\<close>)
  finally show ?thesis .
qed

lemma ctr32_blocks_ref:
  assumes "ctr32_func block func" and "block_fun block"
  shows "ctr32_blocks func iv (GETU32 (drop 12 iv)) xs = (zs, jv, d, rest) \<Longrightarrow> length iv = 16 \<Longrightarrow>
    \<exists>pre ec'. xs = pre @ rest \<and> length rest < 16 \<and> length jv = 16 \<and> d = GETU32 (drop 12 jv) \<and>
      stream_ref (ctr_refill block) ctr_step (iv, ec) 0 pre = (zs, (jv, ec'), 0)"
proof (induction xs arbitrary: iv zs ec rule: length_induct)
  case (1 xs)
  let ?c = "GETU32 (drop 12 iv)"
  note unfold = ctr32_blocks.simps [of func iv ?c xs]
  show ?case
  proof (cases "length xs < 16")
    case True
    then show ?thesis using 1(2,3) by (auto simp: unfold)
  next
    case False
    obtain c' b where ch: "ctr32_chunk ?c (length xs) = (c', b)" by fastforce
    have b: "0 < b" "16 * b \<le> length xs" using ctr32_chunk_progress [OF ch] False by simp_all
    have u: "be_nat (drop 12 iv) + b \<le> 2 ^ 32" "unat c' = (be_nat (drop 12 iv) + b) mod 2 ^ 32"
      using ctr32_chunk_facts [OF ch] False 1(3) by (simp_all add: unat_GETU32)
    note adv = ctr32_advance_plus [OF 1(3) b(1) u]
    have len: "length (take (16 * b) xs) = 16 * b" using b(2) by simp
    obtain us where h: "ctr32_blocks func (iv_plus iv b) (GETU32 (drop 12 (iv_plus iv b))) (drop (16 * b) xs)
        = (us, jv, d, rest)" "zs = ctr_blocks block (iv_plus iv) b (take (16 * b) xs) @ us"
      using 1(2) False ch adv ctr32_func_blocks [OF assms(1) 1(3) len u(1)]
      by (auto simp: unfold Let_def split: prod.split_asm)
    obtain ec1 where first: "stream_ref (ctr_refill block) ctr_step (iv, ec) 0 (take (16 * b) xs)
        = (ctr_blocks block (iv_plus iv) b (take (16 * b) xs), (iv_plus iv b, ec1), 0)"
      using ctr_whole_blocks [OF assms(2) 1(3) len] by blast
    have "length (drop (16 * b) xs) < length xs" using b by simp
    with 1(1) h(1) length_iv_plus obtain pre ec' where pre: "drop (16 * b) xs = pre @ rest"
      "length rest < 16" "length jv = 16" "d = GETU32 (drop 12 jv)"
      "stream_ref (ctr_refill block) ctr_step (iv_plus iv b, ec1) 0 pre = (us, (jv, ec'), 0)"
      by metis
    have "xs = (take (16 * b) xs @ pre) @ rest" using pre(1) by (metis append_assoc append_take_drop_id)
    moreover have "stream_ref (ctr_refill block) ctr_step (iv, ec) 0 (take (16 * b) xs @ pre) = (zs, (jv, ec'), 0)"
      using first pre(5) h(2) by (simp add: stream_ref_append)
    ultimately show ?thesis using pre(2-4) by blast
  qed
qed

lemma ctr32_tail:
  assumes "ctr32_func block func" and "block_fun block" and "length iv = 16"
  shows "func (replicate 16 0) 1 iv = block iv"
    "ctr32_advance iv (GETU32 (drop 12 iv) + 1) = ctr128_inc iv"
proof -
  have lt: "be_nat (drop 12 iv) < 2 ^ 32" using be_nat_bound [of "drop 12 iv"] assms(3) by simp
  have "length (block iv) = 16" using assms(2,3) by (simp add: block_fun_def)
  then have "xor_bytes (replicate 16 0) (block iv) = block iv"
    by (intro nth_equalityI) (simp_all add: xor_bytes_def)
  then show "func (replicate 16 0) 1 iv = block iv"
    using ctr32_func_blocks [OF assms(1,3), of "replicate 16 0" 1] lt assms(3) by (simp add: ctr_blocks_def)
  have "unat (GETU32 (drop 12 iv) + 1) = (be_nat (drop 12 iv) + 1) mod 2 ^ 32"
    by (simp add: unat_word_ariths(1) unat_GETU32 [OF assms(3)])
  with lt show "ctr32_advance iv (GETU32 (drop 12 iv) + 1) = ctr128_inc iv"
    using ctr32_advance_plus(1) [OF assms(3), of 1] by (simp add: ctr128_inc_plus [OF assms(3)])
qed

lemma ctr_head_state:
  "stream_head ctr_step st n xs = (ys, st', m, rest) \<Longrightarrow> st' = st"
  by (induction xs arbitrary: n ys) (auto simp: ctr_step_def split: if_split_asm prod.split_asm)

lemma ctr32_encrypt_ref:
  assumes "ctr32_func block func" and "block_fun block" and "length iv = 16" and "num < 16"
    and "CRYPTO_ctr128_encrypt_ctr32 func (iv, ec) num xs = (ys, (iv1, ec1), m)"
  shows "\<exists>ec2. stream_ref (ctr_refill block) ctr_step (iv, ec) num xs = (ys, (iv1, ec2), m) \<and> (m = 0 \<or> ec1 = ec2)"
proof -
  let ?ref = "stream_ref (ctr_refill block) ctr_step"
  obtain hs n xs1 where h: "stream_head ctr_step (iv, ec) num xs = (hs, (iv, ec), n, xs1)"
    using ctr_head_state by (metis prod_cases4)
  obtain zs jv d xs2 where b: "ctr32_blocks func iv (GETU32 (drop 12 iv)) xs1 = (zs, jv, d, xs2)"
    by (metis prod_cases4)
  obtain pre where p: "xs = pre @ xs1" "?ref (iv, ec) num pre = (hs, (iv, ec), n)" "xs1 = [] \<or> n = 0"
    using stream_head_ref [OF h assms(4)] by blast
  obtain mid ec' where m: "xs1 = mid @ xs2" "length xs2 < 16" "length jv = 16" "d = GETU32 (drop 12 jv)"
    "?ref (iv, ec) 0 mid = (zs, (jv, ec'), 0)"
    using ctr32_blocks_ref [OF assms(1,2) b assms(3)] by blast
  show ?thesis
  proof (cases "xs2 = []")
    case True
    then have r: "ys = hs @ zs" "iv1 = jv" "ec1 = ec" "m = n"
      using assms(5) h b by (simp_all add: CRYPTO_ctr128_encrypt_ctr32_def)
    show ?thesis
    proof (cases "xs1 = []")
      case True
      then have "zs = []" "jv = iv" using b by (simp_all add: ctr32_blocks.simps)
      then show ?thesis using r p True by simp
    next
      case False
      then show ?thesis using r p m True by (simp add: stream_ref_append)
    qed
  next
    case False
    then have n: "n = 0" using p(3) m(1) by simp
    have len: "length (block jv) = 16" using assms(2) m(3) by (simp add: block_fun_def)
    have sp: "stream_span ctr_step (ctr128_inc jv, block jv) 0 xs2
        = (xor_bytes xs2 (block jv), (ctr128_inc jv, block jv))"
      using len m(2) by (simp add: ctr_span)
    have r: "ys = hs @ zs @ xor_bytes xs2 (block jv)" "iv1 = ctr128_inc jv" "ec1 = block jv" "m = length xs2"
      using assms(5) h b False n sp m(4) ctr32_tail [OF assms(1,2) m(3)]
      by (auto simp: CRYPTO_ctr128_encrypt_ctr32_def)
    have "?ref (jv, ec') 0 xs2 = (xor_bytes xs2 (block jv), (ctr128_inc jv, block jv), length xs2)"
      using stream_span_ref_0 [of ctr_step "ctr_refill block" "(jv, ec')" xs2] sp False m(2)
      by (simp add: ctr_refill_def)
    then show ?thesis using r p m n by (simp add: stream_ref_append)
  qed
qed

section \<open>CFB with one byte and with one bit\<close>

lemma xor_bytes_single: "k \<noteq> [] \<Longrightarrow> xor_bytes [x] k = [x XOR hd k]"
  by (cases k) simp_all

text \<open>One byte: the ciphertext byte is shifted into the vector.\<close>

lemma cfbr_8:
  assumes "block_fun block" and "length iv = 16"
  shows "cfbr_encrypt_block block j [x] 8 iv enc =
    (let y = x XOR hd (block iv) in ([y], drop 1 iv @ [if enc then y else x]))"
proof -
  have "block iv \<noteq> []" using assms by (auto simp: block_fun_def)
  then show ?thesis using assms(2)
    by (simp add: cfbr_encrypt_block_def xor_bytes_single Let_def)
qed

lemma cfb8_roundtrip_aux:
  assumes "block_fun block"
  shows "length iv = 16 \<Longrightarrow> CRYPTO_cfb128_8_encrypt block j True iv xs = (ys, t) \<Longrightarrow>
    CRYPTO_cfb128_8_encrypt block j' False iv ys = (xs, t)"
proof (induction xs arbitrary: iv ys)
  case Nil
  then show ?case by simp
next
  case (Cons x xs)
  then obtain zs where h: "CRYPTO_cfb128_8_encrypt block j True (drop 1 iv @ [x XOR hd (block iv)]) xs = (zs, t)"
    "ys = (x XOR hd (block iv)) # zs"
    by (auto simp: cfbr_8 [OF assms] Let_def split: prod.split_asm)
  with Cons show ?case by (auto simp: cfbr_8 [OF assms] Let_def xor_cancel)
qed

text \<open>Bit \<open>n\<close> of a buffer, most significant bit of each byte first, and a shift by one bit.\<close>

definition buf_bit :: "byte list \<Rightarrow> nat \<Rightarrow> bool" where
  "buf_bit xs n = bit (xs ! (n div 8)) (7 - n mod 8)"

definition shift_in :: "byte list \<Rightarrow> bool \<Rightarrow> byte list" where
  "shift_in iv b = map (\<lambda>n. push_bit 1 (iv ! n) OR (if n = 15 then of_bool b else drop_bit 7 (iv ! (n + 1)))) [0..<16]"

lemma length_shift_in [simp]: "length (shift_in iv b) = 16"
  by (simp add: shift_in_def)

lemma byte_top: "drop_bit 7 (w :: byte) = of_bool (bit w 7)"
proof (rule bit_eqI)
  fix n
  show "bit (drop_bit 7 w) n = bit (of_bool (bit w 7) :: byte) n"
    using bit_imp_le_length [of w "7 + n"] by (cases n) (auto simp: bit_drop_bit_eq bit_of_bool_iff)
qed

lemma cfbr_1:
  assumes "block_fun block" and "length iv = 16"
  shows "cfbr_encrypt_block block j [c] 1 iv enc =
    (let y = c XOR hd (block iv) in ([y], shift_in iv (bit (if enc then y else c) 7)))"
proof -
  have "block iv \<noteq> []" using assms by (auto simp: block_fun_def)
  then show ?thesis using assms(2)
    by (auto simp: cfbr_encrypt_block_def xor_bytes_single Let_def shift_in_def nth_append byte_top)
qed

lemma bit_push_1: "i < 8 \<Longrightarrow> bit (push_bit i 1 :: byte) k = (k = i)"
  by (auto simp: bit_exp_iff)

lemma byte_bit_test:
  assumes "i < 8"
  shows "((w :: byte) AND push_bit i 1 \<noteq> 0) = bit w i"
proof -
  have "w AND push_bit i 1 = (if bit w i then push_bit i 1 else 0)"
    by (rule bit_eqI) (use assms in \<open>auto simp: bit_and_iff bit_push_1 simp del: push_bit_of_1\<close>)
  moreover have "push_bit i (1 :: byte) \<noteq> 0" using bit_push_1 [OF assms, of i] by (metis bit_0_eq bot_apply bot_bool_def)
  ultimately show ?thesis by presburger
qed

lemma bit_set_top:
  assumes "i < 8" and "m < 8"
  shows "bit ((w AND NOT (push_bit (7 - i) 1)) OR drop_bit i (d AND 0x80) :: byte) (7 - m)
    = (if m = i then bit d 7 else bit w (7 - m))"
proof -
  have clear: "bit (push_bit (7 - i) 1 :: byte) (7 - m) = (m = i)"
    using assms bit_push_1 [of "7 - i" "7 - m"] by (simp only:) linarith
  have top: "bit (0x80 :: byte) k = (k = 7)" for k
    using bit_push_1 [of 7 k] by simp
  have "(i + (7 - m) = 7) = (m = i)" using assms by linarith
  then have put: "bit (drop_bit i (d AND 0x80)) (7 - m) = (m = i \<and> bit d 7)"
    by (simp only: bit_drop_bit_eq bit_and_iff comp_apply top) auto
  have "possible_bit TYPE(byte) (7 - m)" by simp
  with clear put show ?thesis by (simp only: bit_or_iff bit_and_iff bit_not_iff) auto
qed

text \<open>A round, in terms of bits.\<close>

lemma cfb1_round_bits:
  assumes "block_fun block" and "length iv = 16" and "n < 8 * length out"
    and "cfb1_round block j enc xs n (out, iv) = (out', iv')"
  shows "length out' = length out"
    "buf_bit out' m = (if m = n then buf_bit xs n \<noteq> bit (hd (block iv)) 7 else buf_bit out m)"
    "iv' = shift_in iv (if enc then buf_bit xs n \<noteq> bit (hd (block iv)) 7 else buf_bit xs n)"
proof -
  define c :: byte where "c = (if xs ! (n div 8) AND push_bit (7 - n mod 8) 1 \<noteq> 0 then 0x80 else 0)"
  have c7: "bit (0x80 :: byte) 7" by (simp add: bit_numeral_rec)
  have "bit c 7 = buf_bit xs n"
    unfolding c_def buf_bit_def by (subst byte_bit_test) (simp_all add: c7)
  moreover have r: "out' = out[n div 8 := (out ! (n div 8) AND NOT (push_bit (7 - n mod 8) 1))
        OR drop_bit (n mod 8) ((c XOR hd (block iv)) AND 0x80)]"
    "iv' = shift_in iv (bit (if enc then c XOR hd (block iv) else c) 7)"
    using assms(4)
    unfolding cfb1_round_def prod.case Let_def c_def [symmetric] cfbr_1 [OF assms(1,2)] nth_Cons_0 prod.inject
    by (auto simp only:)
  ultimately show "iv' = shift_in iv (if enc then buf_bit xs n \<noteq> bit (hd (block iv)) 7 else buf_bit xs n)"
    by (auto simp: bit_xor_iff)
  show "length out' = length out" using r by simp
  show "buf_bit out' m = (if m = n then buf_bit xs n \<noteq> bit (hd (block iv)) 7 else buf_bit out m)"
  proof (cases "m div 8 = n div 8")
    case True
    then have "(m mod 8 = n mod 8) = (m = n)" by (metis mod_div_mult_eq)
    moreover have "n div 8 < length out" using assms(3) by simp
    ultimately show ?thesis
      using \<open>bit c 7 = buf_bit xs n\<close>
      by (simp only: r(1) buf_bit_def [of _ m] True nth_list_update_eq bit_set_top mod_less_divisor
          bit_xor_iff zero_less_numeral simp_thms if_cancel split: if_split)
  next
    case False
    then have "m \<noteq> n" by auto
    with False show ?thesis by (simp add: r(1) buf_bit_def)
  qed
qed

lemma cfb1_rounds:
  assumes "block_fun block"
  shows "length iv = 16 \<Longrightarrow> \<forall>n\<in>set ns. n < 8 * length out \<Longrightarrow>
    fold (cfb1_round block j enc xs) ns (out, iv) = (out', iv') \<Longrightarrow>
    length out' = length out \<and> length iv' = 16 \<and> (\<forall>m. m \<notin> set ns \<longrightarrow> buf_bit out' m = buf_bit out m)"
proof (induction ns arbitrary: out iv)
  case Nil
  then show ?case by simp
next
  case (Cons n ns)
  obtain o1 iv1 where st: "cfb1_round block j enc xs n (out, iv) = (o1, iv1)" by fastforce
  have n: "n < 8 * length out" using Cons.prems(2) by simp
  note b = cfb1_round_bits [OF assms Cons.prems(1) n st]
  have "length iv1 = 16" using b(3) by simp
  from Cons.IH [OF this, of o1] Cons.prems b(1) st
  have "length out' = length o1 \<and> length iv' = 16 \<and> (\<forall>m. m \<notin> set ns \<longrightarrow> buf_bit out' m = buf_bit o1 m)"
    by simp
  then show ?case using b(1,2) by simp
qed

lemma cfb1_decrypts:
  assumes "block_fun block" and "length iv = 16" and "bits \<le> 8 * length out" and "bits \<le> 8 * length out2"
    and "fold (cfb1_round block j True xs) [0..<bits] (out, iv) = (ys, t)"
  shows "k \<le> bits \<Longrightarrow> \<exists>zs o1 jv. fold (cfb1_round block j' False ys) [0..<k] (out2, iv) = (zs, jv)
    \<and> fold (cfb1_round block j True xs) [0..<k] (out, iv) = (o1, jv) \<and> (\<forall>m<k. buf_bit zs m = buf_bit xs m)"
proof (induction k)
  case 0
  then show ?case by simp
next
  case (Suc k)
  let ?E = "cfb1_round block j True xs" and ?D = "cfb1_round block j' False ys"
  from Suc obtain zs o1 jv where ih: "fold ?D [0..<k] (out2, iv) = (zs, jv)"
    "fold ?E [0..<k] (out, iv) = (o1, jv)" "\<forall>m<k. buf_bit zs m = buf_bit xs m" by auto
  have small: "\<forall>n\<in>set [0..<k]. n < 8 * length out" "\<forall>n\<in>set [0..<k]. n < 8 * length out2"
    using Suc.prems assms(3,4) by auto
  have len: "length o1 = length out" "length jv = 16" "length zs = length out2"
    using cfb1_rounds [OF assms(1,2) small(1) ih(2)] cfb1_rounds [OF assms(1,2) small(2) ih(1)] by blast+
  obtain o2 jv2 where e: "?E k (o1, jv) = (o2, jv2)" by fastforce
  obtain zs2 jv3 where d: "?D k (zs, jv) = (zs2, jv3)" by fastforce
  have k: "k < 8 * length o1" "k < 8 * length zs" using Suc.prems len assms(3,4) by simp_all
  note eb = cfb1_round_bits [OF assms(1) len(2) k(1) e] and db = cfb1_round_bits [OF assms(1) len(2) k(2) d]
  have "[0..<bits] = [0..<Suc k] @ [Suc k..<bits]"
    using Suc.prems upt_add_eq_append [of 0 "Suc k" "bits - Suc k"] by simp
  then have "fold ?E [Suc k..<bits] (o2, jv2) = (ys, t)" using assms(5) ih(2) e by simp
  moreover have "length jv2 = 16" "\<forall>n\<in>set [Suc k..<bits]. n < 8 * length o2" "k \<notin> set [Suc k..<bits]"
    unfolding eb(3) eb(1) len(1) using assms(3) by auto
  ultimately have "buf_bit ys k = buf_bit o2 k"
    using cfb1_rounds [OF assms(1), of jv2 "[Suc k..<bits]" o2] by blast
  then have y: "buf_bit ys k = (buf_bit xs k \<noteq> bit (hd (block jv)) 7)" using eb(2) by simp
  have "jv3 = jv2" using eb(3) db(3) y by simp
  moreover have "buf_bit zs2 m = buf_bit xs m" if "m < Suc k" for m
    using that ih(3) db(2) [of m] y by (cases "m = k") auto
  ultimately show ?case using ih e d by simp
qed

section \<open>Key streams\<close>

text \<open>
  How often the cipher has run once \<open>k\<close> bytes are done, from position \<open>n\<close> of a block: byte \<open>j\<close> is
  treated after \<open>refills n (j + 1)\<close> runs, at position \<open>(n + j) mod 16\<close> of the block.
\<close>

definition refills :: "nat \<Rightarrow> nat \<Rightarrow> nat" where
  "refills n k = (n + k + 15) div 16 - (n + 15) div 16"

lemma refills_0 [simp]: "refills n 0 = 0"
  by (simp add: refills_def)

lemma refills_Suc: "n < 16 \<Longrightarrow> refills n (Suc k) = (if n = 0 then 1 else 0) + refills ((n + 1) mod 16) k"
proof -
  assume n: "n < 16"
  then consider "n = 0" | "n = 15" | "0 < n" "n < 15" by linarith
  then show ?thesis
  proof cases
    case 3
    then have "(n + 15) div 16 = 1" "(16 + n) div 16 = 1" by simp_all
    then show ?thesis using 3 by (simp add: refills_def)
  qed (auto simp: refills_def)
qed

lemma stream_ref_ConsE:
  assumes "stream_ref refill step s n (x # xs) = (ys, t, m)" and "step (if n = 0 then refill s else s) n x = (y, s')"
  obtains zs where "ys = y # zs" and "stream_ref refill step s' ((n + 1) mod 16) xs = (zs, t, m)"
  using assms by (auto split: prod.split_asm)

definition ofb_key :: "(byte list \<Rightarrow> byte list) \<Rightarrow> byte list \<Rightarrow> nat \<Rightarrow> byte list" where
  "ofb_key block ivec r = (block ^^ r) ivec"

definition ctr_key :: "(byte list \<Rightarrow> byte list) \<Rightarrow> byte list \<Rightarrow> byte list \<Rightarrow> nat \<Rightarrow> byte list" where
  "ctr_key block ivec ecount_buf r = (if r = 0 then ecount_buf else block (iv_plus ivec (r - 1)))"

text \<open>
  The key block of CFB at position \<open>p\<close> of the stream, when the current block began with the first \<open>n\<close> bytes of \<open>ivec\<close>
  (for \<open>n = 0\<close> it has not begun and \<open>ivec\<close> is the block before it) and the ciphertext goes on with \<open>cs\<close>.
\<close>

definition cfb_key :: "(byte list \<Rightarrow> byte list) \<Rightarrow> byte list \<Rightarrow> nat \<Rightarrow> byte list \<Rightarrow> nat \<Rightarrow> byte list" where
  "cfb_key block ivec n cs p =
     (if p < 16 then (if n = 0 then block ivec else ivec)
      else block (take 16 (drop (16 * (p div 16 - 1)) (take n ivec @ cs))))"

lemma mod16_step: "((n + 1) mod 16 + j) mod 16 = (n + Suc j) mod (16 :: nat)"
  by (simp add: mod_simps)

lemma ofb_keystream:
  assumes "stream_ref block ofb_step ivec n xs = (ys, t, m)" and "n < 16"
  shows "length ys = length xs \<and> (\<forall>j < length xs. ys ! j = xs ! j XOR ofb_key block ivec (refills n (j + 1)) ! ((n + j) mod 16)) \<and>
    t = ofb_key block ivec (refills n (length xs)) \<and> m = (n + length xs) mod 16"
  using assms
proof (induction xs arbitrary: ivec n ys)
  case (Cons x xs)
  define iv n' where "iv = (if n = 0 then block ivec else ivec)" and "n' = (n + 1) mod 16"
  have "ofb_step (if n = 0 then block ivec else ivec) n x = (x XOR iv ! n, iv)" by (simp add: ofb_step_def iv_def)
  then obtain zs where z: "stream_ref block ofb_step iv n' xs = (zs, t, m)" "ys = (x XOR iv ! n) # zs"
    using stream_ref_ConsE [OF Cons.prems(1)] unfolding n'_def by metis
  have "n' < 16" by (simp add: n'_def)
  note IH = Cons.IH [OF z(1) this]
  have k: "ofb_key block ivec (refills n (Suc k)) = ofb_key block iv (refills n' k)" for k
    using Cons.prems(2) by (simp add: ofb_key_def refills_Suc n'_def iv_def funpow_swap1)
  have "ys ! j = (x # xs) ! j XOR ofb_key block ivec (refills n (j + 1)) ! ((n + j) mod 16)" if "j < Suc (length xs)" for j
    using that IH k mod16_step [of n] Cons.prems(2) by (cases j) (auto simp: z(2) n'_def ofb_key_def [of _ iv])
  then show ?case using IH k mod16_step [of n] z(2) by (simp add: n'_def)
qed (simp_all add: ofb_key_def)

lemma ctr_keystream:
  assumes "stream_ref (ctr_refill block) ctr_step (ivec, ec) n xs = (ys, (ivec', ec'), m)" and "n < 16" and "length ivec = 16"
  shows "length ys = length xs \<and> (\<forall>j < length xs. ys ! j = xs ! j XOR ctr_key block ivec ec (refills n (j + 1)) ! ((n + j) mod 16)) \<and>
    ivec' = iv_plus ivec (refills n (length xs)) \<and> ec' = ctr_key block ivec ec (refills n (length xs)) \<and> m = (n + length xs) mod 16"
  using assms
proof (induction xs arbitrary: ivec ec n ys)
  case (Cons x xs)
  define iv e n' where "iv = (if n = 0 then ctr128_inc ivec else ivec)" and "e = (if n = 0 then block ivec else ec)" and "n' = (n + 1) mod 16"
  have "ctr_step (if n = 0 then ctr_refill block (ivec, ec) else (ivec, ec)) n x = (x XOR e ! n, (iv, e))"
    by (simp add: ctr_step_def ctr_refill_def iv_def e_def)
  then obtain zs where z: "stream_ref (ctr_refill block) ctr_step (iv, e) n' xs = (zs, (ivec', ec'), m)" "ys = (x XOR e ! n) # zs"
    using stream_ref_ConsE [OF Cons.prems(1)] unfolding n'_def by metis
  have iv: "n' < 16" "length iv = 16" using Cons.prems(3) by (simp_all add: n'_def iv_def ctr128_inc_plus)
  note IH = Cons.IH [OF z(1) iv]
  have k: "ctr_key block ivec ec (refills n (Suc k)) = ctr_key block iv e (refills n' k)"
    and v: "iv_plus ivec (refills n (Suc k)) = iv_plus iv (refills n' k)" for k
    using Cons.prems(2,3) by (auto simp: ctr_key_def refills_Suc n'_def iv_def e_def ctr128_inc_plus iv_plus_plus)
  have "ys ! j = (x # xs) ! j XOR ctr_key block ivec ec (refills n (j + 1)) ! ((n + j) mod 16)" if "j < Suc (length xs)" for j
    using that IH k mod16_step [of n] Cons.prems(2) by (cases j) (auto simp: z(2) n'_def ctr_key_def [of _ iv])
  then show ?case using IH k v mod16_step [of n] z(2) by (simp add: n'_def)
qed (simp_all add: ctr_key_def)

lemma cfb_key_step:
  assumes "n < 16" and "length ivec = 16" and "block_fun block"
  defines "iv \<equiv> (if n = 0 then block ivec else ivec)"
  shows "cfb_key block ivec n (c # cs) (n + Suc j) ! ((n + Suc j) mod 16) =
    cfb_key block (iv[n := c]) ((n + 1) mod 16) cs ((n + 1) mod 16 + j) ! (((n + 1) mod 16 + j) mod 16)"
proof -
  have iv: "length iv = 16" using assms(2,3) by (simp add: iv_def block_fun_def)
  have t: "take (n + 1) (iv[n := c]) = take n ivec @ [c]"
    using assms(1,2) iv by (auto simp: iv_def take_Suc_conv_app_nth)
  show ?thesis
  proof (cases "n = 15")
    case True
    then have v: "iv[n := c] = take 15 ivec @ [c]" using t iv by simp
    show ?thesis
    proof (cases "j < 16")
      case False
      then have "16 * (j div 16) = 16 + 16 * (j div 16 - 1)" using div_le_mono [of 16 j 16] by (simp add: algebra_simps)
      then have "16 * ((n + Suc j) div 16 - 1) = 16 + 16 * (j div 16 - 1)" by (simp add: True div_add_self1)
      then have "take 16 (drop (16 * ((n + Suc j) div 16 - 1)) (take n ivec @ c # cs)) = take 16 (drop (16 * (j div 16 - 1)) cs)"
        using True assms(2) by (simp only:) simp
      then show ?thesis using True False by (simp add: cfb_key_def)
    qed (use True v assms(2) in \<open>simp add: cfb_key_def\<close>)
  next
    case False
    then have "(n + 1) mod 16 = n + 1" using assms(1) by simp
    then show ?thesis using False assms(1) t by (auto simp: cfb_key_def iv_def)
  qed
qed

text \<open>Both directions: the register takes the ciphertext byte, the output of one and the input of the other.\<close>

lemma cfb_keystream:
  assumes "\<And>iv n x. n < 16 \<Longrightarrow> step iv n x = (iv ! n XOR x, iv[n := c (iv ! n) x])" and "block_fun block"
    and "stream_ref block step ivec n xs = (ys, t, m)" and "n < 16" and "length ivec = 16"
    and "cs = (if enc then ys else xs)" and "\<And>k x. c k x = (if enc then k XOR x else x)"
  shows "length ys = length xs \<and> (\<forall>j < length xs. ys ! j = xs ! j XOR cfb_key block ivec n cs (n + j) ! ((n + j) mod 16)) \<and>
    m = (n + length xs) mod 16"
  using assms(3-6)
proof (induction xs arbitrary: ivec n ys cs)
  case (Cons x xs)
  define iv n' where "iv = (if n = 0 then block ivec else ivec)" and "n' = (n + 1) mod 16"
  let ?c = "c (iv ! n) x"
  have "step (if n = 0 then block ivec else ivec) n x = (iv ! n XOR x, iv[n := ?c])"
    using assms(1) [OF Cons.prems(2)] by (simp add: iv_def)
  then obtain zs where z: "stream_ref block step (iv[n := ?c]) n' xs = (zs, t, m)" "ys = (iv ! n XOR x) # zs"
    using stream_ref_ConsE [OF Cons.prems(1)] unfolding n'_def by metis
  define ds where "ds = (if enc then zs else xs)"
  have iv: "n' < 16" "length (iv[n := ?c]) = 16" using Cons.prems(3) assms(2) by (simp_all add: n'_def iv_def block_fun_def)
  note IH = Cons.IH [OF z(1) iv ds_def]
  have cs: "cs = ?c # ds" using Cons.prems(4) z(2) assms(7) by (simp add: ds_def)
  note key = cfb_key_step [OF Cons.prems(2,3) assms(2), of ?c ds, folded iv_def, folded n'_def, folded cs]
  have "ys ! j = (x # xs) ! j XOR cfb_key block ivec n cs (n + j) ! ((n + j) mod 16)" if "j < Suc (length xs)" for j
  proof (cases j)
    case 0
    then show ?thesis using Cons.prems(2) by (simp add: z(2) cfb_key_def iv_def xor.commute)
  next
    case (Suc i)
    then show ?thesis using that IH key [of i] by (simp add: z(2))
  qed
  then show ?case using IH mod16_step [of n] z(2) by (simp add: n'_def)
qed simp_all

section \<open>Properties\<close>

text \<open>
  OFB, CFB in both directions and CTR, which use up a partial block, take whole blocks by
  machine words and start a last block, compute what the byte-at-a-time loop computes (output,
  chaining state and \<open>num\<close>), for every block cipher and every \<open>num\<close> below 16.
\<close>

theorem stream_modes_bytewise:
  assumes "num < 16"
  shows "CRYPTO_ofb128_encrypt block ivec num xs = stream_ref block ofb_step ivec num xs
    \<and> CRYPTO_cfb128_encrypt block enc ivec num xs =
      stream_ref block (if enc then cfb_enc_step else cfb_dec_step) ivec num xs
    \<and> CRYPTO_ctr128_encrypt block st num xs = stream_ref (ctr_refill block) ctr_step st num xs"
  using assms
  by (simp add: CRYPTO_ofb128_encrypt_def CRYPTO_cfb128_encrypt_def CRYPTO_ctr128_encrypt_def stream_encrypt_ref)

text \<open>A block cipher for the witnesses: exclusive or with a constant block.\<close>

definition toy_block :: "byte list \<Rightarrow> byte list" where
  "toy_block x = map (\<lambda>b. b XOR 0x5A) x"

lemma block_fun_toy: "block_fun toy_block"
  by (simp add: block_fun_def toy_block_def)

theorem stream_modes_bytewise_witness:
  "CRYPTO_ctr128_encrypt toy_block (replicate 16 255, replicate 16 7) 15 [1, 2]
    = stream_ref (ctr_refill toy_block) ctr_step (replicate 16 255, replicate 16 7) 15 [1, 2]"
  using stream_modes_bytewise [of 15 toy_block "[]" "[1, 2]" True "(replicate 16 255, replicate 16 7)"] by simp

text \<open>
  What a mode has encrypted it decrypts, from the same chaining state, and both ends are left in the same state, so
  that the next call can continue.
\<close>

lemma stream_modes_roundtrip:
  assumes "num < 16"
  shows "(CRYPTO_ofb128_encrypt block ivec num xs = (ys, t, m) \<longrightarrow> CRYPTO_ofb128_encrypt block ivec num ys = (xs, t, m))
    \<and> (CRYPTO_cfb128_encrypt block True ivec num xs = (ys, t, m) \<longrightarrow> CRYPTO_cfb128_encrypt block False ivec num ys = (xs, t, m))
    \<and> (CRYPTO_ctr128_encrypt block st num xs = (ys, st', m) \<longrightarrow> CRYPTO_ctr128_encrypt block st num ys = (xs, st', m))"
  using assms ofb.encrypt_roundtrip [of num block ivec xs ys t m] cfb.encrypt_roundtrip [of num block ivec xs ys t m]
    ctr.encrypt_roundtrip [of num block st xs ys st' m]
  by (simp add: CRYPTO_ofb128_encrypt_def CRYPTO_cfb128_encrypt_def CRYPTO_ctr128_encrypt_def)

lemma cfb_continues:
  assumes "num < 16" and "CRYPTO_cfb128_encrypt block enc ivec num xs = (ys, t, m)"
  shows "CRYPTO_cfb128_encrypt block enc ivec num (xs @ zs) =
    (case CRYPTO_cfb128_encrypt block enc t m zs of (ws, r) \<Rightarrow> (ys @ ws, r))"
proof (cases enc)
  case True
  then show ?thesis using encrypt_streams [of num block cfb_enc_step ivec xs ys t m zs] assms
    by (cases "CRYPTO_cfb128_encrypt block enc t m zs") (auto simp: CRYPTO_cfb128_encrypt_def)
next
  case False
  then show ?thesis using encrypt_streams [of num block cfb_dec_step ivec xs ys t m zs] assms
    by (cases "CRYPTO_cfb128_encrypt block enc t m zs") (auto simp: CRYPTO_cfb128_encrypt_def)
qed

text \<open>
  C27: The key streams of the three modes, for every block cipher, every length and every position \<open>num\<close> in a block. Byte \<open>j\<close>
  of the output is byte \<open>j\<close> of the input exclusive-or byte \<open>(num + j) mod 16\<close> of a key block: in OFB the cipher iterated on \<open>ivec\<close>,
  once more for each block begun; in CTR the cipher of the 128-bit counter, which goes up by one for each block begun and wraps at
  \<open>2 ^ 128\<close>; in CFB the cipher of the sixteen ciphertext bytes before the block, in both directions. The vector, the counter and
  \<open>num\<close> are left where the next call continues the stream, and decryption returns what was encrypted.
\<close>

theorem stream_modes_keystream:
  assumes "block_fun block" and "length ivec = 16" and "num < 16"
  shows "(\<exists>ys. CRYPTO_ofb128_encrypt block ivec num xs = (ys, (block ^^ refills num (length xs)) ivec, (num + length xs) mod 16)
      \<and> length ys = length xs \<and> (\<forall>j < length xs. ys ! j = xs ! j XOR ((block ^^ refills num (j + 1)) ivec) ! ((num + j) mod 16)))
    \<and> (\<exists>ys. CRYPTO_ctr128_encrypt block (ivec, ecount_buf) num xs =
        (ys, (be_bytes 16 (be_nat ivec + refills num (length xs)), if refills num (length xs) = 0 then ecount_buf
          else block (be_bytes 16 (be_nat ivec + refills num (length xs) - 1))), (num + length xs) mod 16)
      \<and> length ys = length xs \<and> (\<forall>j < length xs. ys ! j = xs ! j XOR
          (if refills num (j + 1) = 0 then ecount_buf else block (be_bytes 16 (be_nat ivec + refills num (j + 1) - 1))) ! ((num + j) mod 16)))
    \<and> (\<exists>ys t. CRYPTO_cfb128_encrypt block True ivec num xs = (ys, t, (num + length xs) mod 16)
      \<and> length ys = length xs \<and> (\<forall>j < length xs. ys ! j = xs ! j XOR cfb_key block ivec num ys (num + j) ! ((num + j) mod 16))
      \<and> CRYPTO_cfb128_encrypt block False ivec num ys = (xs, t, (num + length xs) mod 16)
      \<and> (\<forall>zs. CRYPTO_cfb128_encrypt block True ivec num (xs @ zs) =
          (case CRYPTO_cfb128_encrypt block True t ((num + length xs) mod 16) zs of (ws, r) \<Rightarrow> (ys @ ws, r))))
    \<and> (\<exists>ys t. CRYPTO_cfb128_encrypt block False ivec num xs = (ys, t, (num + length xs) mod 16)
      \<and> length ys = length xs \<and> (\<forall>j < length xs. ys ! j = xs ! j XOR cfb_key block ivec num xs (num + j) ! ((num + j) mod 16))
      \<and> (\<forall>zs. CRYPTO_cfb128_encrypt block False ivec num (xs @ zs) =
          (case CRYPTO_cfb128_encrypt block False t ((num + length xs) mod 16) zs of (ws, r) \<Rightarrow> (ys @ ws, r))))"
proof (intro conjI)
  note b = stream_modes_bytewise [OF assms(3)]
  obtain ys t m where o: "stream_ref block ofb_step ivec num xs = (ys, t, m)" by (metis prod_cases3)
  show "\<exists>ys. CRYPTO_ofb128_encrypt block ivec num xs = (ys, (block ^^ refills num (length xs)) ivec, (num + length xs) mod 16)
      \<and> length ys = length xs \<and> (\<forall>j < length xs. ys ! j = xs ! j XOR ((block ^^ refills num (j + 1)) ivec) ! ((num + j) mod 16))"
    using b ofb_keystream [OF o assms(3)] o by (simp add: ofb_key_def)
  obtain zs iv ec m where c: "stream_ref (ctr_refill block) ctr_step (ivec, ecount_buf) num xs = (zs, (iv, ec), m)" by (metis prod.exhaust)
  show "\<exists>ys. CRYPTO_ctr128_encrypt block (ivec, ecount_buf) num xs =
        (ys, (be_bytes 16 (be_nat ivec + refills num (length xs)), if refills num (length xs) = 0 then ecount_buf
          else block (be_bytes 16 (be_nat ivec + refills num (length xs) - 1))), (num + length xs) mod 16)
      \<and> length ys = length xs \<and> (\<forall>j < length xs. ys ! j = xs ! j XOR
          (if refills num (j + 1) = 0 then ecount_buf else block (be_bytes 16 (be_nat ivec + refills num (j + 1) - 1))) ! ((num + j) mod 16))"
    using b ctr_keystream [OF c assms(3,2)] c by (auto simp: ctr_key_def iv_plus_def)
  obtain us t m where e: "stream_ref block cfb_enc_step ivec num xs = (us, t, m)" by (metis prod_cases3)
  have k: "length us = length xs \<and> (\<forall>j < length xs. us ! j = xs ! j XOR cfb_key block ivec num us (num + j) ! ((num + j) mod 16)) \<and>
    m = (num + length xs) mod 16"
    by (rule cfb_keystream [where enc = True and c = "\<lambda>k x. k XOR x", OF _ assms(1) e assms(3,2)]) (simp_all add: cfb_enc_step_def Let_def)
  have "CRYPTO_cfb128_encrypt block True ivec num xs = (us, t, m)" using b e by simp
  then show "\<exists>ys t. CRYPTO_cfb128_encrypt block True ivec num xs = (ys, t, (num + length xs) mod 16)
      \<and> length ys = length xs \<and> (\<forall>j < length xs. ys ! j = xs ! j XOR cfb_key block ivec num ys (num + j) ! ((num + j) mod 16))
      \<and> CRYPTO_cfb128_encrypt block False ivec num ys = (xs, t, (num + length xs) mod 16)
      \<and> (\<forall>zs. CRYPTO_cfb128_encrypt block True ivec num (xs @ zs) =
          (case CRYPTO_cfb128_encrypt block True t ((num + length xs) mod 16) zs of (ws, r) \<Rightarrow> (ys @ ws, r)))"
    using k stream_modes_roundtrip [OF assms(3), of block ivec xs us t m] cfb_continues [OF assms(3), of block True ivec xs us t m]
    by (intro exI [of _ us] exI [of _ t]) simp
  obtain vs t m where d: "stream_ref block cfb_dec_step ivec num xs = (vs, t, m)" by (metis prod_cases3)
  have "length vs = length xs \<and> (\<forall>j < length xs. vs ! j = xs ! j XOR cfb_key block ivec num xs (num + j) ! ((num + j) mod 16)) \<and>
    m = (num + length xs) mod 16"
    by (rule cfb_keystream [where enc = False and c = "\<lambda>k x. x", OF _ assms(1) d assms(3,2)]) (simp_all add: cfb_dec_step_def)
  then show "\<exists>ys t. CRYPTO_cfb128_encrypt block False ivec num xs = (ys, t, (num + length xs) mod 16)
      \<and> length ys = length xs \<and> (\<forall>j < length xs. ys ! j = xs ! j XOR cfb_key block ivec num xs (num + j) ! ((num + j) mod 16))
      \<and> (\<forall>zs. CRYPTO_cfb128_encrypt block False ivec num (xs @ zs) =
          (case CRYPTO_cfb128_encrypt block False t ((num + length xs) mod 16) zs of (ws, r) \<Rightarrow> (ys @ ws, r)))"
    using b d cfb_continues [OF assms(3), of block False ivec xs vs t m] by (intro exI [of _ vs] exI [of _ t]) simp
qed

theorem stream_modes_keystream_witness:
  "\<exists>ys ec. CRYPTO_ctr128_encrypt toy_block (replicate 15 0 @ [255], []) 0 (replicate 20 0) = (ys, (replicate 14 0 @ [1, 1], ec), 4)
    \<and> ys ! 15 = 0xA5 \<and> ys ! 16 = 0x5A"
proof -
  define iv :: "byte list" where "iv = replicate 15 0 @ [255]"
  have l: "length iv = 16" by (simp add: iv_def)
  obtain ys ec where y: "CRYPTO_ctr128_encrypt toy_block (iv, []) 0 (replicate 20 0) = (ys, (be_bytes 16 (be_nat iv + refills 0 20), ec), (0 + 20) mod 16)"
      "\<forall>j < 20. ys ! j = replicate 20 0 ! j XOR
          (if refills 0 (j + 1) = 0 then [] else toy_block (be_bytes 16 (be_nat iv + refills 0 (j + 1) - 1))) ! ((0 + j) mod 16)"
    using stream_modes_keystream [OF block_fun_toy l, of 0 "replicate 20 0" "[]", OF zero_less_numeral,
        THEN conjunct2, THEN conjunct1, unfolded length_replicate] by blast
  have r: "refills 0 20 = 2" "refills 0 16 = 1" "refills 0 17 = 2" by (simp_all add: refills_def)
  have "be_nat (replicate n 0) = 0" for n by (induction n) (simp_all add: be_nat_def)
  then have iv: "be_nat iv = 255" by (simp only: iv_def be_nat_snoc) simp
  have b: "be_bytes 16 255 = replicate 15 0 @ [255]" "be_bytes 16 256 = replicate 14 0 @ [1, 0]" "be_bytes 16 257 = replicate 14 0 @ [1, 1]"
    by code_simp+
  have "ys ! 15 = 0xA5" using y(2) [rule_format, of 15] r iv b by (simp add: toy_block_def nth_append)
  moreover have "ys ! 16 = 0x5A" using y(2) [rule_format, of 16] r iv b by (simp add: toy_block_def nth_append)
  ultimately show ?thesis using y(1) r iv b by (auto simp: iv_def)
qed

text \<open>
  C28: counter mode with a routine that only counts in 32 bits gives the same output, the same
  counter and the same \<open>num\<close> as counter mode with the 128-bit counter, through every overflow of
  the 32-bit counter, and the same \<open>ecount_buf\<close> whenever a later call will use it. The routine
  is a parameter that does counter mode over whole blocks without the carry.
\<close>

theorem ctr32_equals_ctr128:
  assumes "ctr32_func block func" and "block_fun block" and "length ivec = 16" and "num < 16"
    and "CRYPTO_ctr128_encrypt_ctr32 func (ivec, ecount_buf) num xs = (ys, (iv1, ec1), m1)"
    and "CRYPTO_ctr128_encrypt block (ivec, ecount_buf) num xs = (zs, (iv2, ec2), m2)"
  shows "ys = zs \<and> iv1 = iv2 \<and> m1 = m2 \<and> (m1 = 0 \<or> ec1 = ec2)"
  using ctr32_encrypt_ref [OF assms(1-5)] assms(4,6)
  by (auto simp: CRYPTO_ctr128_encrypt_def stream_encrypt_ref)

text \<open>A routine with a 32-bit counter, for the witness.\<close>

definition toy_ctr32 :: "byte list \<Rightarrow> nat \<Rightarrow> byte list \<Rightarrow> byte list" where
  "toy_ctr32 xs k iv = ctr_blocks toy_block (ctr32_at iv) k xs"

lemma ctr32_func_toy: "ctr32_func toy_block toy_ctr32"
  by (simp add: ctr32_func_def toy_ctr32_def ctr_blocks_def)

theorem ctr32_equals_ctr128_witness:
  "fst (CRYPTO_ctr128_encrypt_ctr32 toy_ctr32 (replicate 16 255, []) 0 (replicate 40 0))
    = fst (CRYPTO_ctr128_encrypt toy_block (replicate 16 255, []) 0 (replicate 40 0))"
proof -
  obtain ys iv1 ec1 m1 zs iv2 ec2 m2 where
    "CRYPTO_ctr128_encrypt_ctr32 toy_ctr32 (replicate 16 255, []) 0 (replicate 40 0) = (ys, (iv1, ec1), m1)"
    "CRYPTO_ctr128_encrypt toy_block (replicate 16 255, []) 0 (replicate 40 0) = (zs, (iv2, ec2), m2)"
    by (metis prod.exhaust)
  then show ?thesis using ctr32_equals_ctr128 [OF ctr32_func_toy block_fun_toy, of "replicate 16 255" 0 "[]"] by simp
qed

text \<open>
  CFB with 8 bits and with 1 bit decrypts what it encrypted and leaves the same shifted
  vector, whatever the unassigned bytes of \<open>ovec\<close> hold. With one bit at a time the first \<open>bits\<close>
  bits come back; the output bits after them are those the buffer had.
\<close>

theorem cfb_short_roundtrip:
  assumes "block_fun block" and "length ivec = 16"
    and "bits \<le> 8 * length out" and "bits \<le> 8 * length out2"
  shows "(CRYPTO_cfb128_8_encrypt block j True ivec xs = (ys, t) \<longrightarrow>
      CRYPTO_cfb128_8_encrypt block j' False ivec ys = (xs, t))
    \<and> (CRYPTO_cfb128_1_encrypt block j True ivec xs bits out = (ys, t) \<longrightarrow>
      (\<exists>zs. CRYPTO_cfb128_1_encrypt block j' False ivec ys bits out2 = (zs, t)
        \<and> (\<forall>m. buf_bit zs m = (if m < bits then buf_bit xs m else buf_bit out2 m))))"
proof (intro conjI impI)
  assume e: "CRYPTO_cfb128_1_encrypt block j True ivec xs bits out = (ys, t)"
  then obtain zs where z: "CRYPTO_cfb128_1_encrypt block j' False ivec ys bits out2 = (zs, t)"
    "\<forall>m<bits. buf_bit zs m = buf_bit xs m"
    using cfb1_decrypts [OF assms, of j xs ys t bits j'] by (auto simp: CRYPTO_cfb128_1_encrypt_def)
  have "\<forall>n\<in>set [0..<bits]. n < 8 * length out2" using assms(4) by auto
  then have "\<forall>m. m \<notin> set [0..<bits] \<longrightarrow> buf_bit zs m = buf_bit out2 m"
    using cfb1_rounds [OF assms(1,2)] z(1) unfolding CRYPTO_cfb128_1_encrypt_def by blast
  with z show "\<exists>zs. CRYPTO_cfb128_1_encrypt block j' False ivec ys bits out2 = (zs, t)
      \<and> (\<forall>m. buf_bit zs m = (if m < bits then buf_bit xs m else buf_bit out2 m))" by auto
qed (rule cfb8_roundtrip_aux [OF assms(1,2)])

theorem cfb_short_roundtrip_witness:
  "fst (CRYPTO_cfb128_8_encrypt toy_block 0 False (replicate 16 0)
    (fst (CRYPTO_cfb128_8_encrypt toy_block 0 True (replicate 16 0) [1, 2, 3]))) = [1, 2, 3]"
  using cfb_short_roundtrip [OF block_fun_toy, of "replicate 16 0" 0 "[]" "[]" 0 "[1, 2, 3]"
      "fst (CRYPTO_cfb128_8_encrypt toy_block 0 True (replicate 16 0) [1, 2, 3])"
      "snd (CRYPTO_cfb128_8_encrypt toy_block 0 True (replicate 16 0) [1, 2, 3])" 0]
  by (simp only: length_replicate prod.collapse fst_conv simp_thms le0)

end
