(* ===== verification/Cbc.thy ===== *)
theory Cbc
  imports Modes
begin

text \<open>
  Cipher block chaining, \<open>crypto/fipsmodule/modes/cbc.c\<close>. Input and output may overlap, so both are
  ranges of one memory; the initialisation vector is an array of its own. On the target
  \<open>STRICT_ALIGNMENT\<close> is 0 and \<open>size_t\<close> has 8 bytes: blocks are combined word by word. The block
  cipher is a parameter, a function on 16-byte blocks under a fixed key.
\<close>

section \<open>Memory\<close>

type_synonym mem = "nat \<Rightarrow> byte"

definition loadn :: "mem \<Rightarrow> nat \<Rightarrow> nat \<Rightarrow> byte list" where
  "loadn m a n = map m [a..<a + n]"

definition storen :: "mem \<Rightarrow> nat \<Rightarrow> byte list \<Rightarrow> mem" where
  "storen m a bs = (\<lambda>x. if a \<le> x \<and> x < a + length bs then bs ! (x - a) else m x)"

lemma length_loadn [simp]: "length (loadn m a n) = n"
  by (simp add: loadn_def)

lemma nth_loadn [simp]: "i < n \<Longrightarrow> loadn m a n ! i = m (a + i)"
  by (simp add: loadn_def)

lemma loadn_add: "loadn m a (n + k) = loadn m a n @ loadn m (a + n) k"
  by (intro nth_equalityI) (auto simp: loadn_def nth_append add.assoc)

lemma loadn_cong: "(\<And>x. a \<le> x \<Longrightarrow> x < a + n \<Longrightarrow> m x = m' x) \<Longrightarrow> loadn m a n = loadn m' a n"
  by (simp add: loadn_def)

lemma loadn_storen_same: "n = length bs \<Longrightarrow> loadn (storen m a bs) a n = bs"
  by (intro nth_equalityI) (simp_all add: storen_def)

lemma loadn_storen_other: "a + n \<le> b \<or> b + length bs \<le> a \<Longrightarrow> loadn (storen m b bs) a n = loadn m a n"
  by (intro loadn_cong) (auto simp: storen_def)

lemma storen_other: "x < a \<or> a + length bs \<le> x \<Longrightarrow> storen m a bs x = m x"
  by (auto simp: storen_def)

section \<open>Encryption\<close>

text \<open>The pointer \<open>iv\<close> leads to the array \<open>ivec\<close> or into a buffer.\<close>

datatype iv_ptr = Ivec | Block_at nat

fun iv_load :: "mem \<Rightarrow> byte list \<Rightarrow> iv_ptr \<Rightarrow> nat \<Rightarrow> nat \<Rightarrow> byte list" where
  "iv_load m ivec Ivec off n = take n (drop off ivec)"
| "iv_load m ivec (Block_at a) off n = loadn m (a + off) n"

definition enc_word :: "byte list \<Rightarrow> iv_ptr \<Rightarrow> nat \<Rightarrow> nat \<Rightarrow> mem \<Rightarrow> nat \<Rightarrow> mem" where
  "enc_word ivec iv inp out m n = storen m (out + n) (xor_bytes (loadn m (inp + n) 8) (iv_load m ivec iv n 8))"

fun cbc_enc_blocks ::
  "(byte list \<Rightarrow> byte list) \<Rightarrow> byte list \<Rightarrow> mem \<Rightarrow> nat \<Rightarrow> nat \<Rightarrow> nat \<Rightarrow> iv_ptr \<Rightarrow> mem \<times> nat \<times> nat \<times> nat \<times> iv_ptr" where
  "cbc_enc_blocks block ivec m inp out len iv =
     (if len \<ge> 16
      then let m = foldl (enc_word ivec iv inp out) m [0, 8];
               m = storen m out (block (loadn m out 16))
           in cbc_enc_blocks block ivec m (inp + 16) (out + 16) (len - 16) (Block_at out)
      else (m, inp, out, len, iv))"

definition enc_byte :: "byte list \<Rightarrow> iv_ptr \<Rightarrow> nat \<Rightarrow> nat \<Rightarrow> nat \<Rightarrow> mem \<Rightarrow> nat \<Rightarrow> mem" where
  "enc_byte ivec iv inp out len m n =
     m(out + n := (if n < len then m (inp + n) XOR hd (iv_load m ivec iv n 1) else hd (iv_load m ivec iv n 1)))"

fun cbc_enc_tail :: "(byte list \<Rightarrow> byte list) \<Rightarrow> byte list \<Rightarrow> mem \<Rightarrow> nat \<Rightarrow> nat \<Rightarrow> nat \<Rightarrow> iv_ptr \<Rightarrow> mem \<times> iv_ptr" where
  "cbc_enc_tail block ivec m inp out len iv =
     (if len = 0 then (m, iv)
      else let m = foldl (enc_byte ivec iv inp out len) m [0..<16];
               m = storen m out (block (loadn m out 16))
           in if len \<le> 16 then (m, Block_at out)
              else cbc_enc_tail block ivec m (inp + 16) (out + 16) (len - 16) (Block_at out))"

definition CRYPTO_cbc128_encrypt ::
  "(byte list \<Rightarrow> byte list) \<Rightarrow> mem \<Rightarrow> nat \<Rightarrow> nat \<Rightarrow> nat \<Rightarrow> byte list \<Rightarrow> mem \<times> byte list" where
  "CRYPTO_cbc128_encrypt block m inp out len ivec =
     (case cbc_enc_blocks block ivec m inp out len Ivec of (m, inp, out, len, iv) \<Rightarrow>
        case cbc_enc_tail block ivec m inp out len iv of (m, iv) \<Rightarrow> (m, iv_load m ivec iv 0 16))"

section \<open>Decryption\<close>

definition dec_word :: "byte list \<Rightarrow> iv_ptr \<Rightarrow> nat \<Rightarrow> mem \<Rightarrow> nat \<Rightarrow> mem" where
  "dec_word ivec iv out m n = storen m (out + n) (xor_bytes (loadn m (out + n) 8) (iv_load m ivec iv n 8))"

text \<open>The loop that decrypts straight into the output.\<close>

fun cbc_dec_direct ::
  "(byte list \<Rightarrow> byte list) \<Rightarrow> byte list \<Rightarrow> mem \<Rightarrow> nat \<Rightarrow> nat \<Rightarrow> nat \<Rightarrow> iv_ptr \<Rightarrow> mem \<times> nat \<times> nat \<times> nat \<times> iv_ptr" where
  "cbc_dec_direct block ivec m inp out len iv =
     (if len \<ge> 16
      then let m = storen m out (block (loadn m inp 16));
               m = foldl (dec_word ivec iv out) m [0, 8]
           in cbc_dec_direct block ivec m (inp + 16) (out + 16) (len - 16) (Block_at inp)
      else (m, inp, out, len, iv))"

definition dec_tmp_word :: "byte list \<Rightarrow> nat \<Rightarrow> nat \<Rightarrow> mem \<times> byte list \<Rightarrow> nat \<Rightarrow> mem \<times> byte list" where
  "dec_tmp_word tmp inp out = (\<lambda>(m, ivec) n.
     let c = loadn m (inp + n) 8
     in (storen m (out + n) (xor_bytes (take 8 (drop n tmp)) (take 8 (drop n ivec))), write_at ivec n c))"

text \<open>The loop that decrypts into a temporary block.\<close>

fun cbc_dec_tmp ::
  "(byte list \<Rightarrow> byte list) \<Rightarrow> byte list \<Rightarrow> mem \<Rightarrow> nat \<Rightarrow> nat \<Rightarrow> nat \<Rightarrow> mem \<times> nat \<times> nat \<times> nat \<times> byte list" where
  "cbc_dec_tmp block ivec m inp out len =
     (if len \<ge> 16
      then case foldl (dec_tmp_word (block (loadn m inp 16)) inp out) (m, ivec) [0, 8] of (m, ivec) \<Rightarrow>
             cbc_dec_tmp block ivec m (inp + 16) (out + 16) (len - 16)
      else (m, inp, out, len, ivec))"

definition dec_byte :: "byte list \<Rightarrow> nat \<Rightarrow> nat \<Rightarrow> mem \<times> byte list \<Rightarrow> nat \<Rightarrow> mem \<times> byte list" where
  "dec_byte tmp inp out = (\<lambda>(m, ivec) n. let c = m (inp + n) in (m(out + n := tmp ! n XOR ivec ! n), ivec[n := c]))"

fun cbc_dec_tail :: "(byte list \<Rightarrow> byte list) \<Rightarrow> byte list \<Rightarrow> mem \<Rightarrow> nat \<Rightarrow> nat \<Rightarrow> nat \<Rightarrow> mem \<times> byte list" where
  "cbc_dec_tail block ivec m inp out len =
     (if len = 0 then (m, ivec)
      else case foldl (dec_byte (block (loadn m inp 16)) inp out) (m, ivec) [0..<min 16 len] of (m, ivec) \<Rightarrow>
        if len \<le> 16 then (m, foldl (\<lambda>ivec n. ivec[n := m (inp + n)]) ivec [len..<16])
        else cbc_dec_tail block ivec m (inp + 16) (out + 16) (len - 16))"

text \<open>\<open>None\<close> is the failed assertion on how the buffers overlap.\<close>

definition CRYPTO_cbc128_decrypt ::
  "(byte list \<Rightarrow> byte list) \<Rightarrow> mem \<Rightarrow> nat \<Rightarrow> nat \<Rightarrow> nat \<Rightarrow> byte list \<Rightarrow> (mem \<times> byte list) option" where
  "CRYPTO_cbc128_decrypt block m inp out len ivec =
     (if \<not> (inp \<ge> out \<or> inp + len \<le> out) then None
      else case (if (inp \<ge> 32 \<and> out \<le> inp - 32) \<or> inp < out
                 then case cbc_dec_direct block ivec m inp out len Ivec of (m, inp, out, len, iv) \<Rightarrow>
                   (m, inp, out, len, iv_load m ivec iv 0 16)
                 else cbc_dec_tmp block ivec m inp out len) of
             (m, inp, out, len, ivec) \<Rightarrow> Some (cbc_dec_tail block ivec m inp out len))"

declare cbc_enc_blocks.simps [simp del] cbc_enc_tail.simps [simp del] cbc_dec_direct.simps [simp del]
  cbc_dec_tmp.simps [simp del] cbc_dec_tail.simps [simp del]

section \<open>Reference definitions\<close>

definition pad16 :: "byte list \<Rightarrow> byte list" where
  "pad16 xs = take 16 (xs @ replicate 16 0)"

text \<open>The blocks of the result, and the chaining value after them. The last block is filled with zeros.\<close>

function cbc_enc :: "(byte list \<Rightarrow> byte list) \<Rightarrow> byte list \<Rightarrow> byte list \<Rightarrow> byte list \<times> byte list" where
  "cbc_enc block iv xs =
     (if xs = [] then ([], iv)
      else let c = block (xor_bytes (pad16 xs) iv); r = cbc_enc block c (drop 16 xs) in (c @ fst r, snd r))"
  by pat_completeness auto
termination by (relation "measure (\<lambda>(block, iv, xs). length xs)") auto

function cbc_dec :: "(byte list \<Rightarrow> byte list) \<Rightarrow> byte list \<Rightarrow> byte list \<Rightarrow> byte list \<times> byte list" where
  "cbc_dec block iv xs =
     (if xs = [] then ([], iv)
      else let r = cbc_dec block (take 16 xs) (drop 16 xs) in (xor_bytes (block (take 16 xs)) iv @ fst r, snd r))"
  by pat_completeness auto
termination by (relation "measure (\<lambda>(block, iv, xs). length xs)") auto

declare cbc_enc.simps [simp del] cbc_dec.simps [simp del]

section \<open>One block\<close>

definition iv_before :: "iv_ptr \<Rightarrow> byte list \<Rightarrow> nat \<Rightarrow> bool" where
  "iv_before iv ivec a \<longleftrightarrow> length ivec = 16 \<and> (case iv of Ivec \<Rightarrow> True | Block_at b \<Rightarrow> b + 16 \<le> a)"

lemma length_iv_load: "iv_before iv ivec a \<Longrightarrow> off + n \<le> 16 \<Longrightarrow> length (iv_load m ivec iv off n) = n"
  by (cases iv) (simp_all add: iv_before_def)

lemma iv_load_cong: "iv_before iv ivec a \<Longrightarrow> off + n \<le> 16 \<Longrightarrow> (\<And>x. x < a \<Longrightarrow> m x = m' x) \<Longrightarrow> iv_load m ivec iv off n = iv_load m' ivec iv off n"
  by (cases iv) (auto simp: iv_before_def intro!: loadn_cong)

lemma iv_load_8_8: "iv_before iv ivec a \<Longrightarrow> iv_load m ivec iv 0 16 = iv_load m ivec iv 0 8 @ iv_load m ivec iv 8 8"
  using loadn_add [of m _ 8 8] by (cases iv) (auto simp: iv_before_def take_drop append_take_drop_id min_def)

text \<open>Output at or behind the input, or clear of it.\<close>

definition behind :: "nat \<Rightarrow> nat \<Rightarrow> nat \<Rightarrow> bool" where
  "behind out inp len \<longleftrightarrow> out \<le> inp \<or> inp + len \<le> out"

definition same_outside :: "mem \<Rightarrow> mem \<Rightarrow> nat \<Rightarrow> nat \<Rightarrow> bool" where
  "same_outside m m' a n \<longleftrightarrow> (\<forall>x. x < a \<or> a + n \<le> x \<longrightarrow> m' x = m x)"

lemma same_outside_storen: "length bs = n \<Longrightarrow> same_outside m (storen m a bs) a n"
  by (auto simp: same_outside_def storen_def)

lemma same_outside_trans: "same_outside m m1 a n \<Longrightarrow> same_outside m1 m2 b k \<Longrightarrow> c \<le> a \<Longrightarrow> a + n \<le> c + l \<Longrightarrow> c \<le> b \<Longrightarrow> b + k \<le> c + l \<Longrightarrow> same_outside m m2 c l"
  by (auto simp: same_outside_def)

lemma loadn_outside: "same_outside m m' a n \<Longrightarrow> b + k \<le> a \<or> a + n \<le> b \<Longrightarrow> loadn m' b k = loadn m b k"
  by (intro loadn_cong) (auto simp: same_outside_def)

lemma enc_words:
  fixes m :: mem
  assumes "iv_before iv ivec out" and "behind out inp 16"
  defines "m' \<equiv> foldl (enc_word ivec iv inp out) m [0, 8]"
  shows "loadn m' out 16 = xor_bytes (loadn m inp 16) (iv_load m ivec iv 0 16)" and "same_outside m m' out 16"
proof -
  let ?w = "\<lambda>n. xor_bytes (loadn m (inp + n) 8) (iv_load m ivec iv n 8)"
  let ?m = "storen m out (?w 0)"
  have l: "length (?w n) = 8" if "n \<le> 8" for n using length_iv_load [OF assms(1), of n 8] that by simp
  have "loadn ?m (inp + 8) 8 = loadn m (inp + 8) 8" using assms(2) l [of 0] by (intro loadn_storen_other) (auto simp: behind_def)
  moreover have "iv_load ?m ivec iv 8 8 = iv_load m ivec iv 8 8" by (intro iv_load_cong [OF assms(1)]) (simp_all add: storen_other)
  ultimately have m': "m' = storen ?m (out + 8) (?w 8)" by (simp add: m'_def enc_word_def)
  have "loadn m' out 8 = ?w 0" using l [of 0] l [of 8] by (simp add: m' loadn_storen_other loadn_storen_same)
  moreover have "loadn m' (out + 8) 8 = ?w 8" using l [of 8] by (simp add: m' loadn_storen_same)
  ultimately have "loadn m' out 16 = ?w 0 @ ?w 8" using loadn_add [of m' out 8 8] by simp
  then show "loadn m' out 16 = xor_bytes (loadn m inp 16) (iv_load m ivec iv 0 16)"
    using loadn_add [of m inp 8 8] length_iv_load [OF assms(1), of 0 8] by (simp add: iv_load_8_8 [OF assms(1)] xor_bytes_append)
  show "same_outside m m' out 16" unfolding m'
    by (rule same_outside_trans [OF same_outside_storen [OF l [of 0]] same_outside_storen [OF l [of 8]]]) simp_all
qed

lemma block_funD: "block_fun block \<Longrightarrow> length x = 16 \<Longrightarrow> length (block x) = 16"
  by (simp add: block_fun_def)

lemma pad16_block: "length a = 16 \<Longrightarrow> pad16 (a @ b) = a"
  by (simp add: pad16_def)

lemma cbc_enc_block: "length a = 16 \<Longrightarrow> cbc_enc block iv (a @ b) =
  (let c = block (xor_bytes a iv) in (c @ fst (cbc_enc block c b), snd (cbc_enc block c b)))"
  by (subst cbc_enc.simps) (auto simp: pad16_block Let_def)

lemma cbc_dec_block: "length a = 16 \<Longrightarrow> cbc_dec block iv (a @ b) = (xor_bytes (block a) iv @ fst (cbc_dec block a b), snd (cbc_dec block a b))"
  by (subst cbc_dec.simps) (auto simp: Let_def)

section \<open>Encryption chains the blocks\<close>

lemma enc_block:
  fixes m :: mem
  assumes b: "block_fun block" and iv: "iv_before iv ivec out" and "behind out inp 16"
  defines "m1 \<equiv> foldl (enc_word ivec iv inp out) m [0, 8]"
  defines "m2 \<equiv> storen m1 out (block (loadn m1 out 16))"
  shows "loadn m2 out 16 = block (xor_bytes (loadn m inp 16) (iv_load m ivec iv 0 16))" and "same_outside m m2 out 16"
proof -
  have l: "length (block (loadn m1 out 16)) = 16" by (rule block_funD [OF b]) simp
  show "loadn m2 out 16 = block (xor_bytes (loadn m inp 16) (iv_load m ivec iv 0 16))"
    using enc_words(1) [OF iv assms(3)] l by (simp add: m2_def m1_def loadn_storen_same)
  show "same_outside m m2 out 16" unfolding m2_def
    by (rule same_outside_trans [OF enc_words(2) [OF iv assms(3), of m, folded m1_def] same_outside_storen [OF l]]) simp_all
qed

lemma cbc_enc_blocks_ok:
  assumes "block_fun block" and "iv_before iv ivec out" and "behind out inp len"
    and "cbc_enc_blocks block ivec m inp out len iv = (m', inp', out', len', iv')"
  shows "inp' = inp + 16 * (len div 16) \<and> out' = out + 16 * (len div 16) \<and> len' = len mod 16 \<and> iv_before iv' ivec out' \<and>
    same_outside m m' out (16 * (len div 16)) \<and>
    (loadn m' out (16 * (len div 16)), iv_load m' ivec iv' 0 16) = cbc_enc block (iv_load m ivec iv 0 16) (loadn m inp (16 * (len div 16)))"
  using assms
proof (induction block ivec m inp out len iv rule: cbc_enc_blocks.induct)
  case (1 block ivec m inp out len iv)
  show ?case
  proof (cases "16 \<le> len")
    case False
    then show ?thesis using 1(3,5) by (auto simp: cbc_enc_blocks.simps cbc_enc.simps same_outside_def loadn_def)
  next
    case True
    define k where "k = 16 * ((len - 16) div 16)"
    have k: "16 * (len div 16) = 16 + k" "len mod 16 = (len - 16) mod 16" "16 + k \<le> len" using True by (auto simp: k_def le_div_geq le_mod_geq)
    define m2 where "m2 = storen (foldl (enc_word ivec iv inp out) m [0, 8]) out (block (loadn (foldl (enc_word ivec iv inp out) m [0, 8]) out 16))"
    let ?v = "iv_load m ivec iv 0 16"
    have be: "behind out inp 16" "behind (out + 16) (inp + 16) (len - 16)" using 1(4) True by (auto simp: behind_def)
    have m2: "loadn m2 out 16 = block (xor_bytes (loadn m inp 16) ?v)" "same_outside m m2 out 16"
      unfolding m2_def by (rule enc_block [OF 1(2,3) be(1)])+
    have r: "cbc_enc_blocks block ivec m2 (inp + 16) (out + 16) (len - 16) (Block_at out) = (m', inp', out', len', iv')"
      using 1(5) True by (simp add: cbc_enc_blocks.simps [of block ivec m] m2_def Let_def)
    have ivb: "iv_before (Block_at out) ivec (out + 16)" using 1(3) by (simp add: iv_before_def)
    note IH = 1(1) [OF True refl refl, folded m2_def, OF 1(2) ivb be(2) r, folded k_def]
    have h: "inp' = inp + 16 + k" "out' = out + 16 + k" "len' = (len - 16) mod 16" "iv_before iv' ivec out'" "same_outside m2 m' (out + 16) k"
      "(loadn m' (out + 16) k, iv_load m' ivec iv' 0 16) = cbc_enc block (loadn m2 out 16) (loadn m2 (inp + 16) k)"
      using IH by auto
    have "loadn m2 (inp + 16) k = loadn m (inp + 16) k" using 1(4) k by (intro loadn_outside [OF m2(2)]) (auto simp: behind_def)
    moreover have "loadn m' out 16 = loadn m2 out 16" by (rule loadn_outside [OF h(5)]) simp
    ultimately have "(loadn m' out (16 + k), iv_load m' ivec iv' 0 16) = cbc_enc block ?v (loadn m inp (16 + k))"
      using h(6) m2(1) by (simp add: loadn_add cbc_enc_block Let_def prod_eq_iff)
    moreover have "same_outside m m' out (16 + k)" by (rule same_outside_trans [OF m2(2) h(5)]) simp_all
    ultimately show ?thesis using h k by simp
  qed
qed

lemma enc_bytes:
  assumes iv: "iv_before iv ivec out" and "behind out inp len" and "j \<le> 16"
  shows "(\<forall>n < j. foldl (enc_byte ivec iv inp out len) m [0..<j] (out + n) =
      (if n < len then m (inp + n) XOR iv_load m ivec iv 0 16 ! n else iv_load m ivec iv 0 16 ! n)) \<and>
    same_outside m (foldl (enc_byte ivec iv inp out len) m [0..<j]) out j"
  using assms(3)
proof (induction j)
  case (Suc j)
  let ?m = "foldl (enc_byte ivec iv inp out len) m [0..<j]"
  have same: "same_outside m ?m out j" using Suc by simp
  have "iv_load ?m ivec iv j 1 = iv_load m ivec iv j 1" using same Suc.prems by (intro iv_load_cong [OF iv]) (auto simp: same_outside_def)
  moreover have "hd (iv_load m ivec iv j 1) = iv_load m ivec iv 0 16 ! j"
    using iv Suc.prems by (cases iv) (simp_all add: iv_before_def take_Suc_conv_app_nth hd_drop_conv_nth loadn_def)
  moreover have "?m (inp + j) = m (inp + j)" if "j < len" using same assms(2) that by (auto simp: same_outside_def behind_def)
  ultimately have step: "foldl (enc_byte ivec iv inp out len) m [0..<Suc j] =
      ?m(out + j := (if j < len then m (inp + j) XOR iv_load m ivec iv 0 16 ! j else iv_load m ivec iv 0 16 ! j))"
    by (simp add: enc_byte_def [of _ _ _ _ _ ?m])
  show ?case unfolding step using Suc by (auto simp: same_outside_def less_Suc_eq)
qed (simp add: same_outside_def)

lemma cbc_enc_tail_ok:
  assumes b: "block_fun block" and iv: "iv_before iv ivec out" and be: "behind out inp len" and len: "0 < len" "len \<le> 16"
    and t: "cbc_enc_tail block ivec m inp out len iv = (m', iv')"
  shows "same_outside m m' out 16" and "iv' = Block_at out"
    and "(loadn m' out 16, loadn m' out 16) = cbc_enc block (iv_load m ivec iv 0 16) (loadn m inp len)"
proof -
  define m1 where "m1 = foldl (enc_byte ivec iv inp out len) m [0..<16]"
  let ?v = "iv_load m ivec iv 0 16"
  note e = enc_bytes [OF iv be le_refl, of m, folded m1_def]
  have l: "length (block (loadn m1 out 16)) = 16" by (rule block_funD [OF b]) simp
  have t': "m' = storen m1 out (block (loadn m1 out 16))" "iv' = Block_at out" using t len by (simp_all add: cbc_enc_tail.simps m1_def Let_def)
  show "iv' = Block_at out" by (rule t'(2))
  show "same_outside m m' out 16" unfolding t'(1)
    by (rule same_outside_trans [OF conjunct2 [OF e] same_outside_storen [OF l]]) simp_all
  have "length ?v = 16" by (rule length_iv_load [OF iv]) simp
  then have "loadn m1 out 16 = xor_bytes (pad16 (loadn m inp len)) ?v"
    using e len by (intro nth_equalityI) (auto simp: xor_bytes_def pad16_def nth_append)
  moreover have "loadn m inp len \<noteq> []" using len(1) length_loadn [of m inp len] by (metis length_0_conv less_irrefl)
  ultimately show "(loadn m' out 16, loadn m' out 16) = cbc_enc block ?v (loadn m inp len)"
    using len l by (subst cbc_enc.simps) (simp add: t'(1) loadn_storen_same cbc_enc.simps Let_def)
qed

lemma first_block:
  assumes "16 dvd length a" and "a \<noteq> []"
  obtains x y where "a = x @ y" "length x = 16" "16 dvd length y"
proof
  have "16 \<le> length a" using assms by (intro dvd_imp_le) auto
  then show "length (take 16 a) = 16" by simp
  show "16 dvd length (drop 16 a)" using assms(1) by (simp add: dvd_diff_nat)
qed simp

lemma cbc_enc_append:
  "16 dvd length a \<Longrightarrow> cbc_enc block v (a @ b) =
    (fst (cbc_enc block v a) @ fst (cbc_enc block (snd (cbc_enc block v a)) b), snd (cbc_enc block (snd (cbc_enc block v a)) b))"
proof (induction "length a" arbitrary: a v rule: less_induct)
  case less
  show ?case
  proof (cases "a = []")
    case False
    then obtain x y where a: "a = x @ y" "length x = 16" "16 dvd length y" using first_block less.prems by blast
    then have "length y < length a" by simp
    then show ?thesis using less.hyps [OF _ a(3)] a(2) by (simp add: a(1) cbc_enc_block Let_def)
  qed (simp add: cbc_enc.simps [of _ _ "[]"])
qed

lemma cbc_dec_append:
  "16 dvd length a \<Longrightarrow> cbc_dec block v (a @ b) =
    (fst (cbc_dec block v a) @ fst (cbc_dec block (snd (cbc_dec block v a)) b), snd (cbc_dec block (snd (cbc_dec block v a)) b))"
proof (induction "length a" arbitrary: a v rule: less_induct)
  case less
  show ?case
  proof (cases "a = []")
    case False
    then obtain x y where a: "a = x @ y" "length x = 16" "16 dvd length y" using first_block less.prems by blast
    then have "length y < length a" by simp
    then show ?thesis using less.hyps [OF _ a(3)] a(2) by (simp add: a(1) cbc_dec_block)
  qed (simp add: cbc_dec.simps [of _ _ "[]"])
qed

definition round16 :: "nat \<Rightarrow> nat" where
  "round16 len = 16 * ((len + 15) div 16)"

lemma round16: "round16 len = 16 * (len div 16) + (if len mod 16 = 0 then 0 else 16)" "len \<le> round16 len"
proof -
  have "len + 15 = 16 * (len div 16) + (len mod 16 + 15)" by simp
  then have "(len + 15) div 16 = len div 16 + (len mod 16 + 15) div 16" by (metis div_mult_self4 zero_neq_numeral add.commute)
  moreover have "(len mod 16 + 15) div 16 = (if len mod 16 = 0 then 0 else 1)"
  proof (cases "len mod 16 = 0")
    case False
    then have "16 \<le> len mod 16 + 15" "len mod 16 + 15 < 32" using mod_less_divisor [of 16 len] by simp_all
    then show ?thesis using False by (simp add: div_nat_eqI)
  qed simp
  ultimately show r: "round16 len = 16 * (len div 16) + (if len mod 16 = 0 then 0 else 16)" by (simp add: round16_def)
  have "len = 16 * (len div 16) + len mod 16" by simp
  then show "len \<le> round16 len" unfolding r using mod_less_divisor [of 16 len] by (cases "len mod 16 = 0") simp_all
qed

lemma CRYPTO_cbc128_encrypt_ok:
  assumes b: "block_fun block" and "length ivec = 16" and be: "behind out inp len"
    and e: "CRYPTO_cbc128_encrypt block m inp out len ivec = (m', ivec')"
  shows "(loadn m' out (round16 len), ivec') = cbc_enc block ivec (loadn m inp len) \<and> same_outside m m' out (round16 len)"
proof -
  let ?k = "16 * (len div 16)"
  obtain m1 inp1 out1 len1 iv1 where r: "cbc_enc_blocks block ivec m inp out len Ivec = (m1, inp1, out1, len1, iv1)"
    by (cases "cbc_enc_blocks block ivec m inp out len Ivec") auto
  have iv: "iv_before Ivec ivec out" using assms(2) by (simp add: iv_before_def)
  have h: "inp1 = inp + ?k" "out1 = out + ?k" "len1 = len mod 16" "iv_before iv1 ivec out1" "same_outside m m1 out ?k"
    "(loadn m1 out ?k, iv_load m1 ivec iv1 0 16) = cbc_enc block ivec (loadn m inp ?k)"
    using cbc_enc_blocks_ok [OF b iv be r] assms(2) by auto
  have split: "loadn m inp len = loadn m inp ?k @ loadn m (inp + ?k) (len mod 16)" using loadn_add [of m inp ?k "len mod 16"] by simp
  have f: "fst (cbc_enc block ivec (loadn m inp ?k)) = loadn m1 out ?k" "snd (cbc_enc block ivec (loadn m inp ?k)) = iv_load m1 ivec iv1 0 16"
    using h(6) by (simp_all flip: h(6))
  show ?thesis
  proof (cases "len mod 16 = 0")
    case True
    then have "m' = m1" "ivec' = iv_load m1 ivec iv1 0 16"
      using e by (auto simp: CRYPTO_cbc128_encrypt_def r h(3) cbc_enc_tail.simps)
    then show ?thesis using h True split by (simp add: round16 loadn_def)
  next
    case False
    obtain iv2 where t: "cbc_enc_tail block ivec m1 inp1 out1 len1 iv1 = (m', iv2)" and ivec': "ivec' = iv_load m' ivec iv2 0 16"
      using e by (auto simp: CRYPTO_cbc128_encrypt_def r split: prod.splits)
    have be1: "behind out1 inp1 len1" using be by (auto simp: behind_def h)
    have l1: "0 < len1" "len1 \<le> 16" using False h(3) mod_less_divisor [of 16 len] by simp_all
    note tail = cbc_enc_tail_ok [OF b h(4) be1 l1 t]
    have "loadn m1 inp1 len1 = loadn m (inp + ?k) (len mod 16)"
      unfolding h(1,3) using be by (intro loadn_outside [OF h(5)]) (auto simp: behind_def)
    then have last: "cbc_enc block (iv_load m1 ivec iv1 0 16) (loadn m (inp + ?k) (len mod 16)) = (loadn m' out1 16, ivec')"
      using tail(2,3) by (simp add: ivec')
    have "loadn m' out ?k = loadn m1 out ?k" by (rule loadn_outside [OF tail(1)]) (simp add: h)
    then have "(loadn m' out (?k + 16), ivec') = cbc_enc block ivec (loadn m inp len)"
      unfolding split by (simp add: cbc_enc_append f last loadn_add h(2))
    moreover have "same_outside m m' out (?k + 16)" by (rule same_outside_trans [OF h(5) tail(1)]) (simp_all add: h)
    ultimately show ?thesis using False by (simp add: round16)
  qed
qed

section \<open>Decryption undoes the chaining\<close>

definition iv_clear :: "iv_ptr \<Rightarrow> byte list \<Rightarrow> nat \<Rightarrow> bool" where
  "iv_clear iv ivec out \<longleftrightarrow> length ivec = 16 \<and> (case iv of Ivec \<Rightarrow> True | Block_at a \<Rightarrow> a + 16 \<le> out \<or> out + 16 \<le> a)"

lemma iv_load_outside:
  "iv_clear iv ivec out \<Longrightarrow> off + n \<le> 16 \<Longrightarrow> same_outside m m' out 16 \<Longrightarrow> iv_load m' ivec iv off n = iv_load m ivec iv off n"
  by (cases iv) (auto simp: iv_clear_def same_outside_def intro!: loadn_cong)

lemma iv_load_clear:
  assumes "iv_clear iv ivec out"
  shows "iv_load m ivec iv 0 16 = iv_load m ivec iv 0 8 @ iv_load m ivec iv 8 8" "length (iv_load m ivec iv 0 8) = 8" "length (iv_load m ivec iv 8 8) = 8"
  using assms loadn_add [of m _ 8 8] by (cases iv; auto simp: iv_clear_def take_drop min_def)+

lemma same_outside_widen: "same_outside m m' b k \<Longrightarrow> a \<le> b \<Longrightarrow> b + k \<le> a + n \<Longrightarrow> same_outside m m' a n"
  by (auto simp: same_outside_def)

lemma dec_words:
  fixes m :: mem
  assumes iv: "iv_clear iv ivec out"
  defines "m' \<equiv> foldl (dec_word ivec iv out) m [0, 8]"
  shows "loadn m' out 16 = xor_bytes (loadn m out 16) (iv_load m ivec iv 0 16)" and "same_outside m m' out 16"
proof -
  let ?w = "\<lambda>n. xor_bytes (loadn m (out + n) 8) (iv_load m ivec iv n 8)"
  let ?m = "storen m out (?w 0)"
  have l: "length (?w 0) = 8" "length (?w 8) = 8" using iv_load_clear [OF iv] by simp_all
  have s: "same_outside m ?m out 16" by (rule same_outside_widen [OF same_outside_storen [OF l(1)]]) simp_all
  have "loadn ?m (out + 8) 8 = loadn m (out + 8) 8" using l by (intro loadn_storen_other) simp
  then have m': "m' = storen ?m (out + 8) (?w 8)" using iv_load_outside [OF iv _ s, of 8 8] by (simp add: m'_def dec_word_def)
  have "loadn m' out 8 = ?w 0" "loadn m' (out + 8) 8 = ?w 8" using l by (simp_all add: m' loadn_storen_other loadn_storen_same)
  then show "loadn m' out 16 = xor_bytes (loadn m out 16) (iv_load m ivec iv 0 16)"
    using loadn_add [of m' out 8 8] loadn_add [of m out 8 8] iv_load_clear [OF iv] by (simp add: xor_bytes_append)
  show "same_outside m m' out 16" unfolding m'
    by (rule same_outside_trans [OF same_outside_storen [OF l(1)] same_outside_storen [OF l(2)]]) simp_all
qed

definition far :: "nat \<Rightarrow> nat \<Rightarrow> nat \<Rightarrow> bool" where
  "far out inp len \<longleftrightarrow> out + 32 \<le> inp \<or> inp + len \<le> out"

definition iv_trails :: "iv_ptr \<Rightarrow> byte list \<Rightarrow> nat \<Rightarrow> bool" where
  "iv_trails iv ivec inp \<longleftrightarrow> length ivec = 16 \<and> (case iv of Ivec \<Rightarrow> True | Block_at a \<Rightarrow> a + 16 = inp)"

lemma dec_direct_block:
  fixes m :: mem
  assumes b: "block_fun block" and f: "far out inp len" and "16 \<le> len" and t: "iv_trails iv ivec inp"
  defines "m1 \<equiv> storen m out (block (loadn m inp 16))"
  defines "m2 \<equiv> foldl (dec_word ivec iv out) m1 [0, 8]"
  shows "loadn m2 out 16 = xor_bytes (block (loadn m inp 16)) (iv_load m ivec iv 0 16)" and "same_outside m m2 out 16"
proof -
  have iv: "iv_clear iv ivec out" using t f assms(3) by (auto simp: iv_trails_def iv_clear_def far_def split: iv_ptr.splits)
  have l: "length (block (loadn m inp 16)) = 16" by (rule block_funD [OF b]) simp
  have s: "same_outside m m1 out 16" unfolding m1_def by (rule same_outside_storen [OF l])
  show "loadn m2 out 16 = xor_bytes (block (loadn m inp 16)) (iv_load m ivec iv 0 16)"
    using dec_words(1) [OF iv, of m1] iv_load_outside [OF iv _ s, of 0 16] l by (simp add: m2_def m1_def loadn_storen_same)
  show "same_outside m m2 out 16" unfolding m2_def
    by (rule same_outside_trans [OF s dec_words(2) [OF iv]]) simp_all
qed

lemma cbc_dec_direct_ok:
  assumes "block_fun block" and "iv_trails iv ivec inp" and "far out inp len"
    and "cbc_dec_direct block ivec m inp out len iv = (m', inp', out', len', iv')"
  shows "inp' = inp + 16 * (len div 16) \<and> out' = out + 16 * (len div 16) \<and> len' = len mod 16 \<and> same_outside m m' out (16 * (len div 16)) \<and>
    (loadn m' out (16 * (len div 16)), iv_load m' ivec iv' 0 16) = cbc_dec block (iv_load m ivec iv 0 16) (loadn m inp (16 * (len div 16)))"
  using assms
proof (induction block ivec m inp out len iv rule: cbc_dec_direct.induct)
  case (1 block ivec m inp out len iv)
  show ?case
  proof (cases "16 \<le> len")
    case False
    then show ?thesis using 1(3,5) by (auto simp: cbc_dec_direct.simps cbc_dec.simps same_outside_def loadn_def)
  next
    case True
    define k where "k = 16 * ((len - 16) div 16)"
    have k: "16 * (len div 16) = 16 + k" "len mod 16 = (len - 16) mod 16" "16 + k \<le> len" using True by (auto simp: k_def le_div_geq le_mod_geq)
    define m2 where "m2 = foldl (dec_word ivec iv out) (storen m out (block (loadn m inp 16))) [0, 8]"
    let ?v = "iv_load m ivec iv 0 16"
    have m2: "loadn m2 out 16 = xor_bytes (block (loadn m inp 16)) ?v" "same_outside m m2 out 16"
      unfolding m2_def by (rule dec_direct_block [OF 1(2,4) True 1(3)])+
    have r: "cbc_dec_direct block ivec m2 (inp + 16) (out + 16) (len - 16) (Block_at inp) = (m', inp', out', len', iv')"
      using 1(5) True by (simp add: cbc_dec_direct.simps [of block ivec m] m2_def Let_def)
    have tr: "iv_trails (Block_at inp) ivec (inp + 16)" using 1(3) by (simp add: iv_trails_def)
    have far: "far (out + 16) (inp + 16) (len - 16)" using 1(4) True by (auto simp: far_def)
    note IH = 1(1) [OF True refl refl, folded m2_def, OF 1(2) tr far r, folded k_def]
    have h: "inp' = inp + 16 + k" "out' = out + 16 + k" "len' = (len - 16) mod 16" "same_outside m2 m' (out + 16) k"
      "(loadn m' (out + 16) k, iv_load m' ivec iv' 0 16) = cbc_dec block (loadn m2 inp 16) (loadn m2 (inp + 16) k)"
      using IH by auto
    have "loadn m2 inp 16 = loadn m inp 16" "loadn m2 (inp + 16) k = loadn m (inp + 16) k"
      using 1(4) True k by (intro loadn_outside [OF m2(2)]; auto simp: far_def)+
    moreover have "loadn m' out 16 = loadn m2 out 16" by (rule loadn_outside [OF h(4)]) simp
    ultimately have "(loadn m' out (16 + k), iv_load m' ivec iv' 0 16) = cbc_dec block ?v (loadn m inp (16 + k))"
      using h(5) m2(1) by (simp add: loadn_add cbc_dec_block prod_eq_iff)
    moreover have "same_outside m m' out (16 + k)" by (rule same_outside_trans [OF m2(2) h(4)]) simp_all
    ultimately show ?thesis using h k by simp
  qed
qed

lemma dec_tmp_block:
  assumes "length tmp = 16" and "length ivec = 16" and "out \<le> inp" and r: "foldl (dec_tmp_word tmp inp out) (m, ivec) [0, 8] = (m', ivec')"
  shows "loadn m' out 16 = xor_bytes tmp ivec" and "same_outside m m' out 16" and "ivec' = loadn m inp 16"
proof -
  let ?w = "\<lambda>n. xor_bytes (take 8 (drop n tmp)) (take 8 (drop n ivec))"
  let ?m = "storen m out (?w 0)"
  have l: "length (?w 0) = 8" "length (?w 8) = 8" using assms by simp_all
  have c: "loadn ?m (inp + 8) 8 = loadn m (inp + 8) 8" using l assms(3) by (intro loadn_storen_other) simp
  have d: "take 8 (drop 8 (write_at ivec 0 (loadn m inp 8))) = take 8 (drop 8 ivec)" using assms(2) by (simp add: write_at_def)
  have m': "m' = storen ?m (out + 8) (?w 8)" and i: "ivec' = write_at (write_at ivec 0 (loadn m inp 8)) 8 (loadn m (inp + 8) 8)"
    using r c [simplified] by (auto simp: dec_tmp_word_def Let_def d)
  have "loadn m' out 8 = ?w 0" "loadn m' (out + 8) 8 = ?w 8" using l by (simp_all add: m' loadn_storen_other loadn_storen_same)
  moreover have "xor_bytes tmp ivec = ?w 0 @ ?w 8"
    using xor_bytes_append [of "take 8 tmp" "take 8 ivec" "drop 8 tmp" "drop 8 ivec"] assms(1,2) by simp
  ultimately show "loadn m' out 16 = xor_bytes tmp ivec" using loadn_add [of m' out 8 8] by simp
  show "same_outside m m' out 16" unfolding m'
    by (rule same_outside_trans [OF same_outside_storen [OF l(1)] same_outside_storen [OF l(2)]]) simp_all
  show "ivec' = loadn m inp 16" using loadn_add [of m inp 8 8] assms(2) by (simp add: i write_at_def)
qed

lemma cbc_dec_tmp_ok:
  assumes "block_fun block" and "length ivec = 16" and "out \<le> inp"
    and "cbc_dec_tmp block ivec m inp out len = (m', inp', out', len', ivec')"
  shows "inp' = inp + 16 * (len div 16) \<and> out' = out + 16 * (len div 16) \<and> len' = len mod 16 \<and> same_outside m m' out (16 * (len div 16)) \<and>
    (loadn m' out (16 * (len div 16)), ivec') = cbc_dec block ivec (loadn m inp (16 * (len div 16)))"
  using assms
proof (induction block ivec m inp out len rule: cbc_dec_tmp.induct)
  case (1 block ivec m inp out len)
  show ?case
  proof (cases "16 \<le> len")
    case False
    then show ?thesis using 1(5) by (auto simp: cbc_dec_tmp.simps cbc_dec.simps same_outside_def loadn_def)
  next
    case True
    define k where "k = 16 * ((len - 16) div 16)"
    have k: "16 * (len div 16) = 16 + k" "len mod 16 = (len - 16) mod 16" using True by (auto simp: k_def le_div_geq le_mod_geq)
    obtain m2 ivec2 where w: "foldl (dec_tmp_word (block (loadn m inp 16)) inp out) (m, ivec) [0, 8] = (m2, ivec2)" by fastforce
    have "length (block (loadn m inp 16)) = 16" by (rule block_funD [OF 1(2)]) simp
    note m2 = dec_tmp_block [OF this 1(3,4) w]
    have r: "cbc_dec_tmp block ivec2 m2 (inp + 16) (out + 16) (len - 16) = (m', inp', out', len', ivec')"
      using 1(5) True w by (simp add: cbc_dec_tmp.simps [of block ivec m])
    have "length ivec2 = 16" "out + 16 \<le> inp + 16" using m2(3) 1(4) by simp_all
    note IH = 1(1) [OF True w [symmetric] 1(2) this r, folded k_def]
    have h: "inp' = inp + 16 + k" "out' = out + 16 + k" "len' = (len - 16) mod 16" "same_outside m2 m' (out + 16) k"
      "(loadn m' (out + 16) k, ivec') = cbc_dec block (loadn m inp 16) (loadn m2 (inp + 16) k)"
      using IH m2(3) by auto
    have "loadn m2 (inp + 16) k = loadn m (inp + 16) k" using 1(4) by (intro loadn_outside [OF m2(2)]) simp
    moreover have "loadn m' out 16 = loadn m2 out 16" by (rule loadn_outside [OF h(4)]) simp
    ultimately have "(loadn m' out (16 + k), ivec') = cbc_dec block ivec (loadn m inp (16 + k))"
      using h(5) m2(1) by (simp add: loadn_add cbc_dec_block prod_eq_iff)
    moreover have "same_outside m m' out (16 + k)" by (rule same_outside_trans [OF m2(2) h(4)]) simp_all
    ultimately show ?thesis using h k by simp
  qed
qed

lemma dec_bytes:
  assumes "length ivec = 16" and "behind out inp 16" and "j \<le> 16"
  shows "\<exists>m'. foldl (dec_byte tmp inp out) (m, ivec) [0..<j] = (m', loadn m inp j @ drop j ivec) \<and>
    (\<forall>n < j. m' (out + n) = tmp ! n XOR ivec ! n) \<and> same_outside m m' out j"
  using assms(3)
proof (induction j)
  case (Suc j)
  then obtain m1 where m1: "foldl (dec_byte tmp inp out) (m, ivec) [0..<j] = (m1, loadn m inp j @ drop j ivec)"
    "\<forall>n < j. m1 (out + n) = tmp ! n XOR ivec ! n" "same_outside m m1 out j" by auto
  have c: "m1 (inp + j) = m (inp + j)" using m1(3) assms(2) Suc.prems by (auto simp: same_outside_def behind_def)
  have "(loadn m inp j @ drop j ivec)[j := m (inp + j)] = loadn m inp (Suc j) @ drop (Suc j) ivec"
    using assms(1) Suc.prems by (intro nth_equalityI) (auto simp: nth_list_update nth_append less_Suc_eq)
  moreover have "(loadn m inp j @ drop j ivec) ! j = ivec ! j" using assms(1) Suc.prems by (simp add: nth_append)
  ultimately have "foldl (dec_byte tmp inp out) (m, ivec) [0..<Suc j] =
    (m1(out + j := tmp ! j XOR ivec ! j), loadn m inp (Suc j) @ drop (Suc j) ivec)"
    using m1(1) c by (simp add: dec_byte_def)
  then show ?case using m1(2,3) by (intro exI conjI) (auto simp: same_outside_def less_Suc_eq)
qed (simp add: same_outside_def loadn_def)

lemma fill_rest:
  assumes "length ivec = 16" and "j \<le> 16" and "\<And>n. j \<le> n \<Longrightarrow> n < 16 \<Longrightarrow> m' (inp + n) = m (inp + n)"
  shows "foldl (\<lambda>ivec n. ivec[n := m' (inp + n)]) (loadn m inp j @ drop j ivec) [j..<16] = loadn m inp 16"
proof -
  have "foldl (\<lambda>ivec n. ivec[n := m' (inp + n)]) (loadn m inp j @ drop j ivec) [j..<l] = loadn m inp l @ drop l ivec" if "j \<le> l" "l \<le> 16" for l
    using that
  proof (induction l rule: dec_induct)
    case (step l)
    then have "(loadn m inp l @ drop l ivec)[l := m (inp + l)] = loadn m inp (Suc l) @ drop (Suc l) ivec"
      using assms(1) by (intro nth_equalityI) (auto simp: nth_list_update nth_append less_Suc_eq)
    then show ?case using step assms(3) [of l] by simp
  qed simp
  then show ?thesis using assms(1,2) by simp
qed

lemma cbc_dec_tail_ok:
  assumes b: "block_fun block" and "length ivec = 16" and be: "behind out inp 16" and len: "0 < len" "len \<le> 16"
    and t: "cbc_dec_tail block ivec m inp out len = (m', ivec')"
  shows "loadn m' out len = take len (xor_bytes (block (loadn m inp 16)) ivec)" and "same_outside m m' out len" and "ivec' = loadn m inp 16"
proof -
  let ?tmp = "block (loadn m inp 16)"
  obtain m1 where m1: "foldl (dec_byte ?tmp inp out) (m, ivec) [0..<len] = (m1, loadn m inp len @ drop len ivec)"
    "\<forall>n < len. m1 (out + n) = ?tmp ! n XOR ivec ! n" "same_outside m m1 out len"
    using dec_bytes [OF assms(2) be len(2)] by blast
  have "m1 (inp + n) = m (inp + n)" if "len \<le> n" "n < 16" for n
    using m1(3) be that by (auto simp: same_outside_def behind_def)
  then have "m' = m1" "ivec' = loadn m inp 16"
    using t len m1(1) fill_rest [OF assms(2) len(2), of m1 inp m] by (simp_all add: cbc_dec_tail.simps)
  moreover have "length ?tmp = 16" by (rule block_funD [OF b]) simp
  then have "loadn m1 out len = take len (xor_bytes ?tmp ivec)"
    using m1(2) assms(2) len by (intro nth_equalityI) (auto simp: xor_bytes_def)
  ultimately show "loadn m' out len = take len (xor_bytes ?tmp ivec)" "same_outside m m' out len" "ivec' = loadn m inp 16"
    using m1(3) by simp_all
qed

lemma length_cbc_dec_chain: "16 dvd length xs \<Longrightarrow> length iv = 16 \<Longrightarrow> length (snd (cbc_dec block iv xs)) = 16"
proof (induction "length xs" arbitrary: xs iv rule: less_induct)
  case less
  show ?case
  proof (cases "xs = []")
    case False
    then obtain x y where a: "xs = x @ y" "length x = 16" "16 dvd length y" using first_block less.prems by blast
    then have "length y < length xs" by simp
    then show ?thesis using less.hyps [OF _ a(3,2)] a(2) by (simp add: a(1) cbc_dec_block)
  qed (use less.prems in \<open>simp add: cbc_dec.simps [of _ _ "[]"]\<close>)
qed



lemma decrypt_blocks:
  assumes b: "block_fun block" and iv: "length ivec = 16" and as: "out \<le> inp \<or> inp + len \<le> out"
  obtains m1 iv1 where "CRYPTO_cbc128_decrypt block m inp out len ivec =
      Some (cbc_dec_tail block iv1 m1 (inp + 16 * (len div 16)) (out + 16 * (len div 16)) (len mod 16))"
    and "same_outside m m1 out (16 * (len div 16))"
    and "cbc_dec block ivec (loadn m inp (16 * (len div 16))) = (loadn m1 out (16 * (len div 16)), iv1)"
proof -
  let ?k = "16 * (len div 16)"
  let ?direct = "(inp \<ge> 32 \<and> out \<le> inp - 32) \<or> inp < out"
  define blocks where "blocks = (if ?direct then case cbc_dec_direct block ivec m inp out len Ivec of (m, inp, out, len, iv) \<Rightarrow>
      (m, inp, out, len, iv_load m ivec iv 0 16) else cbc_dec_tmp block ivec m inp out len)"
  obtain m1 inp1 out1 len1 iv1 where r: "blocks = (m1, inp1, out1, len1, iv1)" by (cases blocks) auto
  have h: "inp1 = inp + ?k \<and> out1 = out + ?k \<and> len1 = len mod 16 \<and> same_outside m m1 out ?k \<and>
      (loadn m1 out ?k, iv1) = cbc_dec block ivec (loadn m inp ?k)"
  proof (cases ?direct)
    case True
    have far: "far out inp len" using True as by (auto simp: far_def)
    obtain ivp where d: "cbc_dec_direct block ivec m inp out len Ivec = (m1, inp1, out1, len1, ivp)" "iv1 = iv_load m1 ivec ivp 0 16"
      using r True by (auto simp: blocks_def split: prod.splits)
    have "iv_trails Ivec ivec inp" using iv by (simp add: iv_trails_def)
    then show ?thesis using cbc_dec_direct_ok [OF b _ far d(1)] iv by (simp add: d(2))
  next
    case False
    then have "cbc_dec_tmp block ivec m inp out len = (m1, inp1, out1, len1, iv1)" "out \<le> inp" using r by (auto simp: blocks_def)
    then show ?thesis using cbc_dec_tmp_ok [OF b iv] by blast
  qed
  have "CRYPTO_cbc128_decrypt block m inp out len ivec = Some (cbc_dec_tail block iv1 m1 inp1 out1 len1)"
    using r as by (simp add: CRYPTO_cbc128_decrypt_def flip: blocks_def)
  with h show thesis using that by simp
qed


lemma CRYPTO_cbc128_decrypt_ok:
  assumes b: "block_fun block" and iv: "length ivec = 16" and be: "behind out inp (round16 len)"
  shows "\<exists>m' ivec'. CRYPTO_cbc128_decrypt block m inp out len ivec = Some (m', ivec') \<and>
    loadn m' out len = take len (fst (cbc_dec block ivec (loadn m inp (round16 len)))) \<and>
    ivec' = snd (cbc_dec block ivec (loadn m inp (round16 len))) \<and> same_outside m m' out len"
proof -
  let ?k = "16 * (len div 16)"
  have "out \<le> inp \<or> inp + len \<le> out" using be round16(2) [of len] by (auto simp: behind_def)
  then obtain m1 iv1 where D: "CRYPTO_cbc128_decrypt block m inp out len ivec = Some (cbc_dec_tail block iv1 m1 (inp + ?k) (out + ?k) (len mod 16))"
      "same_outside m m1 out ?k" "cbc_dec block ivec (loadn m inp ?k) = (loadn m1 out ?k, iv1)"
    by (rule decrypt_blocks [OF b iv])
  obtain m2 iv2 where t: "cbc_dec_tail block iv1 m1 (inp + ?k) (out + ?k) (len mod 16) = (m2, iv2)" by fastforce
  have d: "CRYPTO_cbc128_decrypt block m inp out len ivec = Some (m2, iv2)" using D(1) t by simp
  show ?thesis
  proof (cases "len mod 16 = 0")
    case True
    then have "m2 = m1" "iv2 = iv1" "?k = len" using t by (auto simp: cbc_dec_tail.simps)
    then show ?thesis using D(2,3) True d by (auto simp: round16)
  next
    case False
    have R: "round16 len = ?k + 16" using False by (simp add: round16)
    have be1: "behind (out + ?k) (inp + ?k) 16" using be by (auto simp: behind_def R)
    have l1: "0 < len mod 16" "len mod 16 \<le> 16" using False mod_less_divisor [of 16 len] by simp_all
    have "length iv1 = 16" using length_cbc_dec_chain [of "loadn m inp ?k" ivec block] iv D(3) by simp
    note tail = cbc_dec_tail_ok [OF b this be1 l1 t]
    let ?c = "loadn m (inp + ?k) 16"
    have c: "loadn m1 (inp + ?k) 16 = ?c" using be by (auto intro!: loadn_outside [OF D(2)] simp: behind_def R)
    have "cbc_dec block iv1 ?c = (xor_bytes (block ?c) iv1, ?c)"
      using cbc_dec_block [of ?c block iv1 "[]"] by (simp add: cbc_dec.simps [of _ _ "[]"])
    then have ref: "cbc_dec block ivec (loadn m inp (round16 len)) = (loadn m1 out ?k @ xor_bytes (block ?c) iv1, ?c)"
      by (simp add: R loadn_add cbc_dec_append D(3))
    have "loadn m2 out ?k = loadn m1 out ?k" by (rule loadn_outside [OF tail(2)]) simp
    then have "loadn m2 out (?k + len mod 16) = loadn m1 out ?k @ take (len mod 16) (xor_bytes (block ?c) iv1)"
      using loadn_add [of m2 out ?k "len mod 16"] tail(1) c by simp
    then have "loadn m2 out len = take len (loadn m1 out ?k @ xor_bytes (block ?c) iv1)"
      by (simp add: minus_mult_div_eq_mod)
    moreover have "same_outside m m2 out len" by (rule same_outside_trans [OF D(2) tail(2)]) auto
    ultimately show ?thesis using d tail(3) c by (simp add: ref)
  qed
qed



section \<open>Properties\<close>

definition inverse_blocks :: "(byte list \<Rightarrow> byte list) \<Rightarrow> (byte list \<Rightarrow> byte list) \<Rightarrow> bool" where
  "inverse_blocks dec enc \<longleftrightarrow> (\<forall>x. length x = 16 \<longrightarrow> dec (enc x) = x)"

lemma length_pad16 [simp]: "length (pad16 xs) = 16"
  by (simp add: pad16_def)

lemma cbc_dec_enc:
  assumes "inverse_blocks dec enc" and "block_fun enc" and "length v = 16"
  shows "take (length xs) (fst (cbc_dec dec v (fst (cbc_enc enc v xs)))) = xs \<and> snd (cbc_dec dec v (fst (cbc_enc enc v xs))) = snd (cbc_enc enc v xs)"
  using assms(3)
proof (induction "length xs" arbitrary: xs v rule: less_induct)
  case less
  show ?case
  proof (cases "xs = []")
    case False
    define c where "c = enc (xor_bytes (pad16 xs) v)"
    have c: "length c = 16" "dec c = xor_bytes (pad16 xs) v"
      using assms(1,2) less.prems by (simp_all add: c_def block_fun_def inverse_blocks_def)
    have e: "cbc_enc enc v xs = (c @ fst (cbc_enc enc c (drop 16 xs)), snd (cbc_enc enc c (drop 16 xs)))"
      using False by (subst cbc_enc.simps) (simp add: c_def Let_def)
    have "length (drop 16 xs) < length xs" using False by simp
    note IH = less.hyps [OF this c(1)]
    have d: "cbc_dec dec v (fst (cbc_enc enc v xs)) =
      (pad16 xs @ fst (cbc_dec dec c (fst (cbc_enc enc c (drop 16 xs)))), snd (cbc_dec dec c (fst (cbc_enc enc c (drop 16 xs)))))"
      using less.prems by (simp add: e cbc_dec_block [OF c(1)] c(2) xor_bytes_cancel)
    have "take (length xs) (pad16 xs @ fst (cbc_dec dec c (fst (cbc_enc enc c (drop 16 xs))))) = xs"
      using conjunct1 [OF IH] append_take_drop_id [of 16 xs] by (cases "16 \<le> length xs") (simp_all add: pad16_def)
    then show ?thesis unfolding d using IH by (simp add: e)
  qed (simp add: cbc_enc.simps [of _ _ "[]"] cbc_dec.simps [of _ _ "[]"])
qed



text \<open>
  C26: What CBC encrypts it decrypts: when the output of \<open>CRYPTO_cbc128_encrypt\<close> is decrypted with the same initialisation
  vector, in place or to anywhere at or before it, the bytes that were encrypted come back, whatever their number, and
  both calls leave the same chaining value for the next.
\<close>
theorem cbc_roundtrip:
  assumes "block_fun enc" and "block_fun dec" and "inverse_blocks dec enc" and "length ivec = 16"
    and "out \<le> inp \<or> inp + len \<le> out" and "dst \<le> out" and "CRYPTO_cbc128_encrypt enc m inp out len ivec = (m', ivec')"
  shows "\<exists>m''. CRYPTO_cbc128_decrypt dec m' out dst len ivec = Some (m'', ivec') \<and> loadn m'' dst len = loadn m inp len"
proof -
  have e: "(loadn m' out (round16 len), ivec') = cbc_enc enc ivec (loadn m inp len)"
    using CRYPTO_cbc128_encrypt_ok [OF assms(1,4) _ assms(7)] assms(5) by (simp add: behind_def)
  then have "loadn m' out (round16 len) = fst (cbc_enc enc ivec (loadn m inp len))" "ivec' = snd (cbc_enc enc ivec (loadn m inp len))"
    by (metis fst_conv, metis snd_conv)
  then show ?thesis
    using CRYPTO_cbc128_decrypt_ok [OF assms(2,4), of dst out len m'] assms(6) cbc_dec_enc [OF assms(3,1,4), of "loadn m inp len"]
    by (auto simp: behind_def)
qed

theorem cbc_roundtrip_witness:
  "\<exists>m''. CRYPTO_cbc128_decrypt rev (fst (CRYPTO_cbc128_encrypt rev (\<lambda>x. of_nat x) 100 100 20 (replicate 16 7))) 100 97 20 (replicate 16 7) =
      Some (m'', snd (CRYPTO_cbc128_encrypt rev (\<lambda>x. of_nat x) 100 100 20 (replicate 16 7))) \<and>
    loadn m'' 97 20 = loadn (\<lambda>x. of_nat x) 100 20"
proof -
  have b: "block_fun rev" "inverse_blocks rev rev" by (simp_all add: block_fun_def inverse_blocks_def)
  show ?thesis
    by (rule cbc_roundtrip [OF b(1) b(1) b(2)]) simp_all
qed

end
