(* ===== verification/Runs.thy ===== *)
theory Runs
  imports Main
begin

text \<open>
  Sequences of calls. A concrete component and an abstract one answer the same operations; when a
  relation between their states is kept by every operation the client may call, all sequences of
  such calls get the same answers. \<open>None\<close> as the result of a concrete step is an abort or undefined
  behaviour.
\<close>

fun run :: "('op \<Rightarrow> 'c \<Rightarrow> ('c \<times> 'o) option) \<Rightarrow> 'op list \<Rightarrow> 'c \<Rightarrow> ('c \<times> 'o list) option" where
  "run step [] c = Some (c, [])"
| "run step (op # ops) c =
     (case step op c of
        None \<Rightarrow> None
      | Some (c', out) \<Rightarrow> (case run step ops c' of None \<Rightarrow> None | Some (c'', outs) \<Rightarrow> Some (c'', out # outs)))"

fun spec_run :: "('op \<Rightarrow> 'a \<Rightarrow> 'a \<times> 'o) \<Rightarrow> 'op list \<Rightarrow> 'a \<Rightarrow> 'a \<times> 'o list" where
  "spec_run spec [] a = (a, [])"
| "spec_run spec (op # ops) a =
     (case spec op a of (a', out) \<Rightarrow> (case spec_run spec ops a' of (a'', outs) \<Rightarrow> (a'', out # outs)))"

text \<open>The client calls only what the contract of each operation allows.\<close>

fun allowed :: "('op \<Rightarrow> 'a \<Rightarrow> bool) \<Rightarrow> ('op \<Rightarrow> 'a \<Rightarrow> 'a \<times> 'o) \<Rightarrow> 'op list \<Rightarrow> 'a \<Rightarrow> bool" where
  "allowed pre spec [] a \<longleftrightarrow> True"
| "allowed pre spec (op # ops) a \<longleftrightarrow> pre op a \<and> allowed pre spec ops (fst (spec op a))"

locale simulation =
  fixes step :: "'op \<Rightarrow> 'c \<Rightarrow> ('c \<times> 'o) option"
    and spec :: "'op \<Rightarrow> 'a \<Rightarrow> 'a \<times> 'o"
    and pre :: "'op \<Rightarrow> 'a \<Rightarrow> bool"
    and rel :: "'c \<Rightarrow> 'a \<Rightarrow> bool"
  assumes sim: "rel c a \<Longrightarrow> pre op a \<Longrightarrow> \<exists>c'. step op c = Some (c', snd (spec op a)) \<and> rel c' (fst (spec op a))"
begin

lemma run_simulates:
  assumes "rel c a" and "allowed pre spec ops a"
  shows "\<exists>c'. run step ops c = Some (c', snd (spec_run spec ops a)) \<and> rel c' (fst (spec_run spec ops a))"
  using assms
proof (induction ops arbitrary: c a)
  case (Cons op ops)
  then obtain c1 where "step op c = Some (c1, snd (spec op a))" "rel c1 (fst (spec op a))"
    using sim [of c a op] by auto
  moreover from this Cons obtain c2 where
    "run step ops c1 = Some (c2, snd (spec_run spec ops (fst (spec op a))))"
    "rel c2 (fst (spec_run spec ops (fst (spec op a))))" by fastforce
  ultimately show ?case by (simp add: case_prod_beta)
qed simp

end

end
