(* ===== verification/Stream_Map.thy ===== *)
theory Stream_Map
  imports Prelude Runs
begin

text \<open>
  The stream map of \<open>chttp2/transport/stream_map.cc\<close> in gRPC core: the streams of an HTTP/2 connection
  by their identifiers. Two parallel arrays are kept sorted by key; a deletion leaves a hole, which is
  a null value, and holes are closed when the arrays are full.

  A null pointer is \<open>None\<close>. \<open>gpr_malloc\<close> and \<open>gpr_realloc\<close> do not return on failure; what fresh memory
  holds is the argument \<open>fresh\<close>. A failed \<open>GPR_ASSERT\<close> is \<open>None\<close>.
\<close>

section \<open>Operations\<close>

record 'v stream_map =
  sm_keys :: "u32 list"
  sm_values :: "'v option list"
  sm_count :: nat
  sm_free :: nat
  sm_capacity :: nat

type_synonym 'v fresh = "(nat \<Rightarrow> u32) \<times> (nat \<Rightarrow> 'v option)"

definition grpc_chttp2_stream_map_init :: "'v fresh \<Rightarrow> nat \<Rightarrow> 'v stream_map option" where
  "grpc_chttp2_stream_map_init fresh initial_capacity =
     (if 1 < initial_capacity
      then Some \<lparr>sm_keys = map (fst fresh) [0..<initial_capacity], sm_values = map (snd fresh) [0..<initial_capacity],
                 sm_count = 0, sm_free = 0, sm_capacity = initial_capacity\<rparr>
      else None)"

text \<open>The loop of \<open>compact\<close>, with \<open>n\<close> turns to go.\<close>

fun compact_loop :: "nat \<Rightarrow> nat \<Rightarrow> nat \<Rightarrow> u32 list \<Rightarrow> 'v option list \<Rightarrow> nat \<times> u32 list \<times> 'v option list" where
  "compact_loop 0 i out ks vs = (out, ks, vs)"
| "compact_loop (Suc n) i out ks vs =
     (if vs ! i \<noteq> None then compact_loop n (i + 1) (out + 1) (ks[out := ks ! i]) (vs[out := vs ! i])
      else compact_loop n (i + 1) out ks vs)"

definition compact :: "u32 list \<Rightarrow> 'v option list \<Rightarrow> nat \<Rightarrow> nat \<times> u32 list \<times> 'v option list" where
  "compact ks vs count = compact_loop count 0 0 ks vs"

text \<open>\<open>find\<close> returns the index of the cell that the C function points to.\<close>

function bsearch_loop :: "u32 list \<Rightarrow> u32 \<Rightarrow> nat \<Rightarrow> nat \<Rightarrow> nat option" where
  "bsearch_loop ks key min_idx max_idx =
     (if min_idx < max_idx then
        let mid_idx = min_idx + (max_idx - min_idx) div 2; mid_key = ks ! mid_idx in
        if mid_key < key then bsearch_loop ks key (mid_idx + 1) max_idx
        else if key < mid_key then bsearch_loop ks key min_idx mid_idx
        else Some mid_idx
      else None)"
  by pat_completeness auto
termination
  by (relation "measure (\<lambda>(ks, key, lo, hi). hi - lo)") auto

declare bsearch_loop.simps [simp del]

definition find_key :: "'v stream_map \<Rightarrow> u32 \<Rightarrow> nat option" where
  "find_key m key = (if sm_count m = 0 then None else bsearch_loop (sm_keys m) key 0 (sm_count m))"

definition grpc_chttp2_stream_map_find :: "'v stream_map \<Rightarrow> u32 \<Rightarrow> 'v option" where
  "grpc_chttp2_stream_map_find m key =
     (case find_key m key of None \<Rightarrow> None | Some i \<Rightarrow> sm_values m ! i)"

definition grpc_chttp2_stream_map_add :: "'v fresh \<Rightarrow> 'v stream_map \<Rightarrow> u32 \<Rightarrow> 'v option \<Rightarrow> 'v stream_map option" where
  "grpc_chttp2_stream_map_add fresh m key v =
     (let count = sm_count m; capacity = sm_capacity m in
      if \<not> (count = 0 \<or> sm_keys m ! (count - 1) < key) then None
      else if v = None then None
      else if grpc_chttp2_stream_map_find m key \<noteq> None then None
      else
        let (count, m) =
          (if count = capacity then
             if capacity div 4 < sm_free m then
               (case compact (sm_keys m) (sm_values m) count of (count, ks, vs) \<Rightarrow>
                  (count, m\<lparr>sm_keys := ks, sm_values := vs, sm_free := 0\<rparr>))
             else
               let capacity' = sz (3 * capacity) div 2 in
               (count, m\<lparr>sm_capacity := capacity',
                         sm_keys := take capacity' (sm_keys m) @ map (fst fresh) [capacity..<capacity'],
                         sm_values := take capacity' (sm_values m) @ map (snd fresh) [capacity..<capacity']\<rparr>)
           else (count, m))
        in if count < sm_capacity m
           then Some (m\<lparr>sm_keys := (sm_keys m)[count := key], sm_values := (sm_values m)[count := v],
                        sm_count := count + 1\<rparr>)
           else None)"

definition grpc_chttp2_stream_map_delete :: "'v stream_map \<Rightarrow> u32 \<Rightarrow> ('v stream_map \<times> 'v option) option" where
  "grpc_chttp2_stream_map_delete m key =
     (case find_key m key of
        None \<Rightarrow> Some (m, None)
      | Some i \<Rightarrow>
          let out = sm_values m ! i;
              m = m\<lparr>sm_values := (sm_values m)[i := None], sm_free := sm_free m + (if out \<noteq> None then 1 else 0)\<rparr>;
              m = (if sm_free m = sm_count m then m\<lparr>sm_free := 0, sm_count := 0\<rparr> else m)
          in if grpc_chttp2_stream_map_find m key = None then Some (m, out) else None)"

definition grpc_chttp2_stream_map_size :: "'v stream_map \<Rightarrow> nat" where
  "grpc_chttp2_stream_map_size m = sm_count m - sm_free m"

text \<open>\<open>rand\<close> takes the number that the library function returned.\<close>

definition grpc_chttp2_stream_map_rand :: "'v stream_map \<Rightarrow> nat \<Rightarrow> ('v stream_map \<times> 'v option) option" where
  "grpc_chttp2_stream_map_rand m r =
     (if sm_count m = sm_free m then Some (m, None)
      else
        let m = (if sm_free m \<noteq> 0 then
                   (case compact (sm_keys m) (sm_values m) (sm_count m) of (count, ks, vs) \<Rightarrow>
                      m\<lparr>sm_keys := ks, sm_values := vs, sm_count := count, sm_free := 0\<rparr>)
                 else m)
        in if 0 < sm_count m then Some (m, sm_values m ! (r mod sm_count m)) else None)"

text \<open>The calls that \<open>for_each\<close> makes, in order.\<close>

definition grpc_chttp2_stream_map_for_each :: "'v stream_map \<Rightarrow> (u32 \<times> 'v) list" where
  "grpc_chttp2_stream_map_for_each m =
     concat (map (\<lambda>i. case sm_values m ! i of None \<Rightarrow> [] | Some v \<Rightarrow> [(sm_keys m ! i, v)]) [0..<(sm_count m)])"

section \<open>Invariant and abstraction\<close>

text \<open>The cells in use, and the entries that are not holes.\<close>

definition cells :: "'v stream_map \<Rightarrow> (u32 \<times> 'v option) list" where
  "cells m = zip (take (sm_count m) (sm_keys m)) (take (sm_count m) (sm_values m))"

definition live :: "(u32 \<times> 'v option) list \<Rightarrow> (u32 \<times> 'v) list" where
  "live cs = List.map_filter (\<lambda>(k, v). map_option (Pair k) v) cs"

definition sm_ok :: "'v stream_map \<Rightarrow> bool" where
  "sm_ok m \<longleftrightarrow>
     length (sm_keys m) = sm_capacity m \<and> length (sm_values m) = sm_capacity m
     \<and> sm_count m \<le> sm_capacity m \<and> 1 < sm_capacity m \<and> 3 * sm_capacity m < SIZE_MODULUS
     \<and> sorted_wrt (<) (map fst (cells m))
     \<and> sm_free m + length (live (cells m)) = sm_count m"

definition sm_map :: "'v stream_map \<Rightarrow> u32 \<rightharpoonup> 'v" where
  "sm_map m = map_of (live (cells m))"

lemma live_simps [simp]:
  "live [] = []" "live ((k, None) # cs) = live cs" "live ((k, Some v) # cs) = (k, v) # live cs"
  "live (cs @ ds) = live cs @ live ds"
  by (simp_all add: live_def List.map_filter_def)

lemma live_set: "(k, v) \<in> set (live cs) \<longleftrightarrow> (k, Some v) \<in> set cs"
  by (induction cs rule: list.induct) (auto split: option.split simp: live_def List.map_filter_def)

lemma live_keys: "set (map fst (live cs)) \<subseteq> set (map fst cs)"
  by (auto simp: live_set) force

lemma live_no_key: "key \<notin> fst ` set cs \<Longrightarrow> map_of (live cs) key = None"
  using live_keys [of cs] by (auto simp: map_of_eq_None_iff)

lemma live_sorted: "sorted_wrt (<) (map fst cs) \<Longrightarrow> sorted_wrt (<) (map fst (live cs))"
proof (induction cs)
  case (Cons c cs)
  then show ?case by (cases c; cases "snd c") (fastforce simp: live_set)+
qed simp

lemma live_map:
  assumes "sorted_wrt (<) (map fst cs)"
  shows "map_of (live cs) k = Some v \<longleftrightarrow> (k, Some v) \<in> set cs"
proof -
  have "distinct (map fst (live cs))" using live_sorted [OF assms] by (simp add: strict_sorted_iff)
  then show ?thesis by (simp add: live_set)
qed

lemma length_live_le: "length (live cs) \<le> length cs"
  by (simp add: live_def List.map_filter_def) 

lemma cells_length: "sm_ok m \<Longrightarrow> length (cells m) = sm_count m"
  by (simp add: sm_ok_def cells_def)

lemma cells_nth:
  "sm_ok m \<Longrightarrow> i < sm_count m \<Longrightarrow> cells m ! i = (sm_keys m ! i, sm_values m ! i)"
  by (simp add: sm_ok_def cells_def)

section \<open>Searching\<close>

lemma bsearch_loop_correct:
  assumes srt: "\<And>i j. i < j \<Longrightarrow> j < n \<Longrightarrow> ks ! i < ks ! j"
  shows "hi \<le> n \<Longrightarrow> (\<And>i. i < n \<Longrightarrow> ks ! i = key \<Longrightarrow> lo \<le> i \<and> i < hi) \<Longrightarrow>
    (case bsearch_loop ks key lo hi of None \<Rightarrow> \<forall>i<n. ks ! i \<noteq> key | Some i \<Rightarrow> i < n \<and> ks ! i = key)"
proof (induction "hi - lo" arbitrary: lo hi rule: less_induct)
  case less
  define mid where "mid = lo + (hi - lo) div 2"
  note step = bsearch_loop.simps [of ks key lo hi, folded mid_def, unfolded Let_def]
  show ?case
  proof (cases "lo < hi")
    case True
    then have mid: "lo \<le> mid" "mid < hi" "mid < n" using less.prems(1) by (auto simp: mid_def)
    consider "ks ! mid < key" | "key < ks ! mid" | "ks ! mid = key" by fastforce
    then show ?thesis
    proof cases
      case 1
      have "mid + 1 \<le> i \<and> i < hi" if "i < n" "ks ! i = key" for i
        using 1 that srt [of i mid] mid less.prems(2) [OF that] by (cases i mid rule: linorder_cases) auto
      from less.hyps [OF _ less.prems(1) this] mid show ?thesis unfolding step using True 1 by simp
    next
      case 2
      have "lo \<le> i \<and> i < mid" if "i < n" "ks ! i = key" for i
        using 2 that srt [of mid i] less.prems(2) [OF that] by (cases i mid rule: linorder_cases) auto
      moreover have "\<not> ks ! mid < key" using 2 by simp
      ultimately show ?thesis unfolding step using less.hyps [of mid lo] True 2 mid by simp
    next
      case 3
      then show ?thesis unfolding step using True mid by simp
    qed
  next
    case False
    then show ?thesis unfolding step using less.prems(2) by fastforce
  qed
qed

lemma keys_sorted: "sm_ok m \<Longrightarrow> i < j \<Longrightarrow> j < sm_count m \<Longrightarrow> sm_keys m ! i < sm_keys m ! j"
  by (auto simp: sm_ok_def cells_def map_fst_zip_take sorted_wrt_iff_nth_less)

lemma find_key_correct:
  assumes "sm_ok m"
  shows "case find_key m key of None \<Rightarrow> \<forall>i < sm_count m. sm_keys m ! i \<noteq> key
    | Some i \<Rightarrow> i < sm_count m \<and> sm_keys m ! i = key"
  using bsearch_loop_correct [of "sm_count m" "sm_keys m" "sm_count m" key 0] keys_sorted [OF assms]
  by (auto simp: find_key_def split: option.splits)

lemma sm_map_cell:
  assumes "sm_ok m" and "i < sm_count m"
  shows "sm_map m (sm_keys m ! i) = sm_values m ! i"
proof -
  have srt: "sorted_wrt (<) (map fst (cells m))" using assms(1) by (simp add: sm_ok_def)
  have c: "(sm_keys m ! i, sm_values m ! i) \<in> set (cells m)"
    using assms cells_nth [OF assms] cells_length [OF assms(1)] by (metis nth_mem)
  have uniq: "v = sm_values m ! i" if "(sm_keys m ! i, v) \<in> set (cells m)" for v
  proof -
    have "distinct (map fst (cells m))" using srt by (simp add: strict_sorted_iff)
    with c that show ?thesis by (metis Some_eq_map_of_iff option.inject)
  qed
  show ?thesis
  proof (cases "sm_values m ! i")
    case None
    then show ?thesis using uniq live_map [OF srt, of "sm_keys m ! i"]
      by (cases "sm_map m (sm_keys m ! i)") (auto simp: sm_map_def)
  next
    case (Some v)
    with c show ?thesis by (simp add: sm_map_def live_map [OF srt])
  qed
qed

lemma sm_map_none:
  assumes "sm_ok m" and "\<forall>i < sm_count m. sm_keys m ! i \<noteq> key"
  shows "sm_map m key = None"
proof -
  have "key \<notin> fst ` set (cells m)"
    using assms cells_nth [OF assms(1)] cells_length [OF assms(1)] by (auto simp: in_set_conv_nth)
  then show ?thesis by (simp add: sm_map_def live_no_key)
qed

lemma find_map: "sm_ok m \<Longrightarrow> grpc_chttp2_stream_map_find m key = sm_map m key"
  using find_key_correct [of m key]
  by (cases "find_key m key") (auto simp: grpc_chttp2_stream_map_find_def sm_map_none sm_map_cell)

lemma for_each_live: "sm_ok m \<Longrightarrow> grpc_chttp2_stream_map_for_each m = live (cells m)"
proof -
  assume ok: "sm_ok m"
  have "live cs = concat (map (\<lambda>i. case snd (cs ! i) of None \<Rightarrow> [] | Some v \<Rightarrow> [(fst (cs ! i), v)]) [0..<length cs])"
    for cs :: "(u32 \<times> 'a option) list"
  proof (induction cs)
    case (Cons c cs)
    then show ?case
      by (cases c; cases "snd c") (simp_all add: upt_conv_Cons map_Suc_upt [symmetric] comp_def del: upt_Suc cong: option.case_cong)
  qed simp
  from this [of "cells m"] have "live (cells m) =
      concat (map (\<lambda>i. case snd (cells m ! i) of None \<Rightarrow> [] | Some v \<Rightarrow> [(fst (cells m ! i), v)]) [0..<(sm_count m)])"
    by (simp add: cells_length [OF ok])
  also have "map (\<lambda>i. case snd (cells m ! i) of None \<Rightarrow> [] | Some v \<Rightarrow> [(fst (cells m ! i), v)]) [0..<(sm_count m)] =
      map (\<lambda>i. case sm_values m ! i of None \<Rightarrow> [] | Some v \<Rightarrow> [(sm_keys m ! i, v)]) [0..<(sm_count m)]"
    by (intro map_cong) (auto simp: cells_nth [OF ok] split: option.split)
  finally show ?thesis by (simp add: grpc_chttp2_stream_map_for_each_def)
qed

text \<open>The entries in order are determined by the map.\<close>

definition entries_of :: "(u32 \<rightharpoonup> 'v) \<Rightarrow> (u32 \<times> 'v) list" where
  "entries_of f = map (\<lambda>k. (k, the (f k))) (sorted_list_of_set (dom f))"

lemma live_entries:
  assumes "sm_ok m"
  shows "live (cells m) = entries_of (sm_map m)"
proof -
  have srt: "sorted_wrt (<) (map fst (live (cells m)))" using assms by (simp add: sm_ok_def live_sorted)
  then have "sorted_list_of_set (set (map fst (live (cells m)))) = map fst (live (cells m))"
    by (intro sorted_list_of_set.idem_if_sorted_distinct) (simp_all add: strict_sorted_iff)
  then have ks: "sorted_list_of_set (dom (sm_map m)) = map fst (live (cells m))"
    by (simp add: sm_map_def dom_map_of_conv_image_fst)
  have "(fst e, the (sm_map m (fst e))) = e" if "e \<in> set (live (cells m))" for e
    using srt that by (cases e) (simp add: sm_map_def strict_sorted_iff map_of_is_SomeI)
  then show ?thesis by (simp add: entries_of_def ks comp_def map_idI)
qed

section \<open>Closing the holes\<close>

definition filled :: "(u32 \<times> 'v) list \<Rightarrow> (u32 \<times> 'v option) list" where
  "filled es = map (\<lambda>(k, v). (k, Some v)) es"

lemma filled_simps [simp]:
  "live (filled es) = es" "map fst (filled es) = map fst es" "length (filled es) = length es"
  by (induction es) (auto simp: filled_def)

lemma compact_loop_correct:
  assumes "compact_loop n i out ks vs = (out', ks', vs')"
    and "length vs = length ks" "i + n \<le> length ks" "out \<le> i"
  shows "length ks' = length ks \<and> length vs' = length vs \<and> out' \<le> i + n
    \<and> zip (take out' ks') (take out' vs') = zip (take out ks) (take out vs) @ filled (live (zip (take n (drop i ks)) (take n (drop i vs))))"
  using assms
proof (induction n arbitrary: i out ks vs)
  case 0
  then show ?case by (auto simp: filled_def)
next
  case (Suc n)
  have i: "i < length ks" "i < length vs" using Suc.prems by auto
  have head: "zip (take (Suc n) (drop i ks)) (take (Suc n) (drop i vs)) =
      (ks ! i, vs ! i) # zip (take n (drop (Suc i) ks)) (take n (drop (Suc i) vs))"
    using i by (simp add: Cons_nth_drop_Suc [symmetric])
  show ?case
  proof (cases "vs ! i")
    case None
    with Suc.IH [of "i + 1" out ks vs] Suc.prems head show ?thesis by simp
  next
    case (Some v)
    let ?ks = "ks[out := ks ! i]" and ?vs = "vs[out := vs ! i]"
    have "compact_loop n (i + 1) (out + 1) ?ks ?vs = (out', ks', vs')" using Suc.prems(1) Some by simp
    from Suc.IH [OF this] Suc.prems(2-4)
    have IH: "length ks' = length ks" "length vs' = length vs" "out' \<le> i + Suc n"
      "zip (take out' ks') (take out' vs') = zip (take (Suc out) ?ks) (take (Suc out) ?vs)
        @ filled (live (zip (take n (drop (Suc i) ks)) (take n (drop (Suc i) vs))))" by auto
    have "out < length ks" "out < length vs" using Suc.prems i by auto
    then have "zip (take (Suc out) ?ks) (take (Suc out) ?vs) = zip (take out ks) (take out vs) @ [(ks ! i, Some v)]"
      using Some by (simp add: take_Suc_conv_app_nth)
    then show ?thesis using IH head Some by (simp add: filled_def)
  qed
qed

lemma compact_correct:
  assumes "sm_ok m" and "compact (sm_keys m) (sm_values m) (sm_count m) = (count, ks, vs)"
  defines "m' \<equiv> m\<lparr>sm_keys := ks, sm_values := vs, sm_count := count, sm_free := 0\<rparr>"
  shows "sm_ok m'" "sm_map m' = sm_map m" "count = length (live (cells m))" "cells m' = filled (live (cells m))"
proof -
  have c: "length ks = sm_capacity m" "length vs = sm_capacity m" "count \<le> sm_count m"
      "zip (take count ks) (take count vs) = filled (live (cells m))"
    using compact_loop_correct [OF assms(2) [unfolded compact_def]] assms(1) by (auto simp: sm_ok_def cells_def)
  show cells: "cells m' = filled (live (cells m))" using c by (simp add: cells_def m'_def)
  show len: "count = length (live (cells m))" 
  proof -
    have "length (zip (take count ks) (take count vs)) = count" using c(1-3) assms(1) by (simp add: sm_ok_def)
    then show ?thesis by (simp add: c(4))
  qed
  show "sm_map m' = sm_map m" by (simp add: sm_map_def cells)
  show "sm_ok m'" using c assms(1) len live_sorted [of "cells m"] unfolding sm_ok_def cells by (auto simp: m'_def)
qed

section \<open>Each operation on the map\<close>

lemma sm_free_count: "sm_ok m \<Longrightarrow> sm_free m = sm_count m \<longleftrightarrow> sm_map m = Map.empty"
  by (auto simp: sm_ok_def sm_map_def)

lemma size_map: "sm_ok m \<Longrightarrow> grpc_chttp2_stream_map_size m = card (dom (sm_map m))"
proof -
  assume ok: "sm_ok m"
  have "distinct (map fst (live (cells m)))" using ok live_sorted [of "cells m"] by (simp add: sm_ok_def strict_sorted_iff)
  then have "card (dom (sm_map m)) = length (live (cells m))"
    by (metis dom_map_of_conv_image_fst distinct_card length_map list.set_map sm_map_def)
  then show ?thesis using ok by (auto simp: grpc_chttp2_stream_map_size_def sm_ok_def)
qed

text \<open>At most \<open>2 ^ 32\<close> keys fit, so the capacity does not overflow.\<close>

lemma count_bound: "sm_ok m \<Longrightarrow> sm_count m \<le> 2 ^ 32"
proof -
  assume ok: "sm_ok m"
  have "distinct (map fst (cells m))" using ok by (simp add: sm_ok_def strict_sorted_iff)
  then have "card (set (map fst (cells m))) = sm_count m" using cells_length [OF ok] by (metis distinct_card length_map)
  moreover have "card (set (map fst (cells m))) \<le> card (UNIV :: u32 set)" by (rule card_mono) auto
  ultimately show ?thesis by (simp add: card_word)
qed


definition with_cell :: "'v stream_map \<Rightarrow> u32 \<Rightarrow> 'v \<Rightarrow> 'v stream_map" where
  "with_cell m key v = m\<lparr>sm_keys := (sm_keys m)[sm_count m := key], sm_values := (sm_values m)[sm_count m := Some v],
     sm_count := sm_count m + 1\<rparr>"

lemma append_cell:
  assumes "sm_ok m" and "sm_count m < sm_capacity m" and "\<forall>k\<in>fst ` set (cells m). k < key"
  shows "sm_ok (with_cell m key v)" "sm_map (with_cell m key v) = (sm_map m)(key \<mapsto> v)"
    "cells (with_cell m key v) = cells m @ [(key, Some v)]"
proof -
  show cells: "cells (with_cell m key v) = cells m @ [(key, Some v)]"
    using assms(1,2) by (simp add: cells_def with_cell_def sm_ok_def take_Suc_conv_app_nth)
  have "map_of (live (cells m)) key = None" using assms(3) by (intro live_no_key) auto
  then show "sm_map (with_cell m key v) = (sm_map m)(key \<mapsto> v)"
    by (auto simp: sm_map_def cells map_add_def split: option.split)
  show "sm_ok (with_cell m key v)"
    using assms(1-3) unfolding sm_ok_def cells by (auto simp: with_cell_def sorted_wrt_append)
qed

lemma compact_keys:
  assumes "sm_ok m" and "compact (sm_keys m) (sm_values m) (sm_count m) = (count, ks, vs)"
  shows "fst ` set (cells (m\<lparr>sm_keys := ks, sm_values := vs, sm_count := count, sm_free := 0\<rparr>)) \<subseteq> fst ` set (cells m)"
  unfolding compact_correct(4) [OF assms] using live_keys [of "cells m"] filled_simps(2) [of "live (cells m)"]
  by (metis list.set_map)

lemma resized_ok:
  fixes g :: "nat \<Rightarrow> u32" and h :: "nat \<Rightarrow> 'v option"
  assumes "sm_ok m" and "sm_count m = sm_capacity m"
  defines "c \<equiv> sz (3 * sm_capacity m) div 2"
  defines "m' \<equiv> m\<lparr>sm_capacity := c, sm_keys := take c (sm_keys m) @ map g [sm_capacity m..<c],
    sm_values := take c (sm_values m) @ map h [sm_capacity m..<c]\<rparr>"
  shows "sm_ok m'" "cells m' = cells m" "sm_capacity m < c"
proof -
  have b: "sm_capacity m \<le> 2 ^ 32" "1 < sm_capacity m" "sz (3 * sm_capacity m) = 3 * sm_capacity m"
    using count_bound [OF assms(1)] assms(1,2) by (auto simp: sm_ok_def)
  then show c: "sm_capacity m < c" by (simp add: c_def)
  have "3 * c < SIZE_MODULUS" using b by (simp add: c_def SIZE_MODULUS_def)
  moreover show cells: "cells m' = cells m" using assms(1,2) c by (simp add: cells_def m'_def sm_ok_def)
  ultimately show "sm_ok m'" using assms(1,2) c unfolding sm_ok_def cells by (auto simp: m'_def)
qed

lemma add_room:
  assumes ok: "sm_ok m" and new: "\<forall>k\<in>fst ` set (cells m). k < key"
  shows "\<exists>m1. grpc_chttp2_stream_map_add fresh m key (Some v) = Some (with_cell m1 key v) \<and> sm_ok m1 \<and> sm_map m1 = sm_map m
    \<and> sm_count m1 < sm_capacity m1 \<and> fst ` set (cells m1) \<subseteq> fst ` set (cells m)"
proof -
  have "sm_keys m ! i < key" if "i < sm_count m" for i
    using new that cells_nth [OF ok that] cells_length [OF ok] by (metis fst_conv image_eqI nth_mem)
  then have last: "sm_count m = 0 \<or> sm_keys m ! (sm_count m - 1) < key" by (cases "sm_count m") auto
  have "sm_map m key = None" using new by (auto simp: sm_map_def intro!: live_no_key)
  then have none: "grpc_chttp2_stream_map_find m key = None" by (simp add: find_map [OF ok])
  note eval = grpc_chttp2_stream_map_add_def with_cell_def Let_def
  consider (room) "sm_count m < sm_capacity m"
    | (holes) "sm_count m = sm_capacity m" "sm_capacity m div 4 < sm_free m"
    | (full) "sm_count m = sm_capacity m" "\<not> sm_capacity m div 4 < sm_free m"
    using ok by (fastforce simp: sm_ok_def)
  then show ?thesis
  proof cases
    case room
    then have "grpc_chttp2_stream_map_add fresh m key (Some v) = Some (with_cell m key v)"
      using last none by (simp add: eval)
    then show ?thesis using ok room by blast
  next
    case holes
    obtain count ks vs where c: "compact (sm_keys m) (sm_values m) (sm_count m) = (count, ks, vs)"
      by (metis prod_cases3)
    let ?m = "m\<lparr>sm_keys := ks, sm_values := vs, sm_count := count, sm_free := 0\<rparr>"
    note cc = compact_correct [OF ok c]
    have less: "sm_count ?m < sm_capacity ?m" using cc(3) holes ok by (auto simp: sm_ok_def)
    then have "grpc_chttp2_stream_map_add fresh m key (Some v) = Some (with_cell ?m key v)"
      using last none holes c by (simp add: eval)
    then show ?thesis using cc(1,2) less compact_keys [OF ok c] by blast
  next
    case full
    let ?c = "sz (3 * sm_capacity m) div 2"
    let ?m = "m\<lparr>sm_capacity := ?c, sm_keys := take ?c (sm_keys m) @ map (fst fresh) [sm_capacity m..<?c],
      sm_values := take ?c (sm_values m) @ map (snd fresh) [sm_capacity m..<?c]\<rparr>"
    note rr = resized_ok(1,2) [OF ok full(1), where g = "fst fresh" and h = "snd fresh"] resized_ok(3) [OF ok full(1)]
    have "grpc_chttp2_stream_map_add fresh m key (Some v) = Some (with_cell ?m key v)"
      using last none full rr(3) by (simp add: eval)
    moreover have "sm_map ?m = sm_map m" by (simp add: sm_map_def rr(2))
    moreover have "sm_count ?m < sm_capacity ?m" using full rr(3) by simp
    ultimately show ?thesis using rr(1,2) by (metis order_refl)
  qed
qed

lemma add_map:
  assumes "sm_ok m" and "\<forall>k\<in>fst ` set (cells m). k < key"
  shows "\<exists>m'. grpc_chttp2_stream_map_add fresh m key (Some v) = Some m' \<and> sm_ok m' \<and> sm_map m' = (sm_map m)(key \<mapsto> v)
    \<and> fst ` set (cells m') \<subseteq> insert key (fst ` set (cells m))"
proof -
  from add_room [OF assms] obtain m1 where m1: "grpc_chttp2_stream_map_add fresh m key (Some v) = Some (with_cell m1 key v)"
    "sm_ok m1" "sm_map m1 = sm_map m" "sm_count m1 < sm_capacity m1" "fst ` set (cells m1) \<subseteq> fst ` set (cells m)" by blast
  have "\<forall>k\<in>fst ` set (cells m1). k < key" using assms(2) m1(5) by blast
  from append_cell [OF m1(2,4) this, of v] m1 show ?thesis by auto
qed

lemma live_hole:
  assumes "sorted_wrt (<) (map fst cs)" and "i < length cs" and "fst (cs ! i) = k"
  shows "map_of (live (cs[i := (k, None)])) = (map_of (live cs))(k := None)"
    "length (live (cs[i := (k, None)])) + (if snd (cs ! i) \<noteq> None then 1 else 0) = length (live cs)"
proof -
  let ?A = "take i cs" and ?B = "drop (Suc i) cs"
  obtain w where w: "cs ! i = (k, w)" using assms(3) by (cases "cs ! i") auto
  have cs: "cs = ?A @ (k, w) # ?B" using id_take_nth_drop [OF assms(2)] w by simp
  have upd: "cs[i := (k, None)] = ?A @ (k, None) # ?B" using assms(2) by (simp add: upd_conv_take_nth_drop)
  have "distinct (map fst (?A @ (k, w) # ?B))" using assms(1) cs by (metis strict_sorted_iff)
  then have "k \<notin> fst ` set ?A" "k \<notin> fst ` set ?B" by auto
  then have none: "map_of (live ?A) k = None" "map_of (live ?B) k = None" by (blast intro: live_no_key)+
  have "map_of (live (?A @ (k, None) # ?B)) = (map_of (live (?A @ (k, w) # ?B)))(k := None)"
    using none by (cases w) (auto simp: map_add_def fun_eq_iff split: option.split)
  then show "map_of (live (cs[i := (k, None)])) = (map_of (live cs))(k := None)" using upd cs by metis
  have "length (live (?A @ (k, None) # ?B)) + (if w \<noteq> None then 1 else 0) = length (live (?A @ (k, w) # ?B))"
    by (cases w) auto
  then show "length (live (cs[i := (k, None)])) + (if snd (cs ! i) \<noteq> None then 1 else 0) = length (live cs)"
    using upd cs w by (metis snd_conv)
qed

lemma delete_map:
  assumes ok: "sm_ok m"
  shows "\<exists>m'. grpc_chttp2_stream_map_delete m key = Some (m', sm_map m key) \<and> sm_ok m' \<and> sm_map m' = (sm_map m)(key := None)
    \<and> fst ` set (cells m') \<subseteq> fst ` set (cells m)"
proof (cases "find_key m key")
  case None
  then have "sm_map m key = None" using find_key_correct [OF ok, of key] sm_map_none [OF ok] by simp
  then show ?thesis using None ok by (auto simp: grpc_chttp2_stream_map_delete_def)
next
  case (Some i)
  then have i: "i < sm_count m" "sm_keys m ! i = key" using find_key_correct [OF ok, of key] by auto
  let ?w = "sm_values m ! i"
  define m1 where "m1 = m\<lparr>sm_values := (sm_values m)[i := None], sm_free := sm_free m + (if ?w \<noteq> None then 1 else 0)\<rparr>"
  define m2 where "m2 = (if sm_free m1 = sm_count m1 then m1\<lparr>sm_free := 0, sm_count := 0\<rparr> else m1)"
  have c: "i < length (cells m)" "cells m ! i = (key, ?w)" using i cells_length [OF ok] cells_nth [OF ok i(1)] by auto
  have srt: "sorted_wrt (<) (map fst (cells m))" using ok by (simp add: sm_ok_def)
  have "take (sm_count m) ((sm_values m)[i := None]) = (take (sm_count m) (sm_values m))[i := None]"
    using i by (simp add: take_update_swap)
  then have cells1: "cells m1 = (cells m)[i := (key, None)]"
    using ok i by (simp add: cells_def m1_def sm_ok_def zip_update list_update_id [of _ i, symmetric])
      (metis list_update_id nth_take zip_update)
  have keys1: "map fst (cells m1) = map fst (cells m)"
    unfolding cells1 map_update using c by (metis fst_conv list_update_id nth_map)
  note hole = live_hole [OF srt c(1), of key] 
  have "sm_free m1 + length (live (cells m1)) = sm_count m1"
    using ok hole(2) c unfolding sm_ok_def cells1 by (auto simp: m1_def split: if_split_asm)
  then have ok1: "sm_ok m1" using ok unfolding sm_ok_def keys1 by (simp add: m1_def)
  have map1: "sm_map m1 = (sm_map m)(key := None)" using hole(1) c by (simp add: sm_map_def cells1)
  have "sm_ok m2 \<and> sm_map m2 = (sm_map m)(key := None) \<and> fst ` set (cells m2) \<subseteq> fst ` set (cells m)"
  proof (cases "sm_free m1 = sm_count m1")
    case True
    then have "sm_map m1 = Map.empty" using sm_free_count [OF ok1] by simp
    then show ?thesis using True ok1 map1 by (auto simp: m2_def sm_ok_def cells_def sm_map_def)
  next
    case False
    then show ?thesis using ok1 map1 keys1 by (simp add: m2_def) (metis list.set_map order_refl)
  qed
  moreover from this have "grpc_chttp2_stream_map_find m2 key = None" by (simp add: find_map)
  moreover have "sm_map m key = ?w" using sm_map_cell [OF ok i(1)] i(2) by simp
  moreover have "grpc_chttp2_stream_map_delete m key =
      (if grpc_chttp2_stream_map_find m2 key = None then Some (m2, ?w) else None)"
    unfolding grpc_chttp2_stream_map_delete_def Some m2_def m1_def by (simp only: option.case Let_def)
  ultimately show ?thesis by auto
qed

lemma full_cells:
  fixes m :: "'v stream_map"
  assumes "sm_ok m" and "sm_free m = 0"
  shows "cells m = filled (live (cells m))"
proof -
  have "cs = filled (live cs)" if "length (live cs) = length cs" for cs :: "(u32 \<times> 'v option) list"
    using that
  proof (induction cs)
    case (Cons c cs)
    then show ?case using length_live_le [of cs] by (cases c; cases "snd c") (auto simp: filled_def)
  qed (simp add: filled_def)
  then show ?thesis using assms cells_length [OF assms(1)] by (simp add: sm_ok_def)
qed

lemma rand_map:
  assumes ok: "sm_ok m"
  defines "es \<equiv> entries_of (sm_map m)"
  shows "\<exists>m'. grpc_chttp2_stream_map_rand m r =
      Some (m', if es = [] then None else Some (snd (es ! (r mod length es)))) \<and> sm_ok m' \<and> sm_map m' = sm_map m
    \<and> fst ` set (cells m') \<subseteq> fst ` set (cells m)"
proof -
  have es: "es = live (cells m)" by (simp add: es_def live_entries [OF ok])
  show ?thesis
  proof (cases "sm_count m = sm_free m")
    case True
    then have "es = []" using ok by (simp add: es sm_ok_def)
    then show ?thesis using True ok by (auto simp: grpc_chttp2_stream_map_rand_def)
  next
    case False
    obtain count ks vs where c: "compact (sm_keys m) (sm_values m) (sm_count m) = (count, ks, vs)"
      by (metis prod_cases3)
    define m' where "m' = (if sm_free m \<noteq> 0 then m\<lparr>sm_keys := ks, sm_values := vs, sm_count := count, sm_free := 0\<rparr> else m)"
    have m': "sm_ok m' \<and> sm_map m' = sm_map m \<and> sm_free m' = 0 \<and> live (cells m') = es"
      using compact_correct [OF ok c] ok by (auto simp: m'_def es)
    have keys: "fst ` set (cells m') \<subseteq> fst ` set (cells m)"
      using compact_keys [OF ok c] by (simp add: m'_def)
    have len: "length es = sm_count m'" "es \<noteq> []" using m' False ok by (auto simp: sm_ok_def es)
    let ?i = "r mod sm_count m'"
    have i: "?i < sm_count m'" using len by (cases "sm_count m'") auto
    have "cells m' = filled es" using m' full_cells [of m'] by simp
    then have "sm_values m' ! ?i = Some (snd (es ! ?i))"
      using cells_nth [of m' ?i] m' i len by (auto simp: filled_def case_prod_beta)
    then have "grpc_chttp2_stream_map_rand m r = Some (m', Some (snd (es ! ?i)))"
    proof -
      have "grpc_chttp2_stream_map_rand m r = (if 0 < sm_count m' then Some (m', sm_values m' ! ?i) else None)"
        unfolding grpc_chttp2_stream_map_rand_def m'_def c by (simp only: False if_False Let_def prod.case)
      then show ?thesis using \<open>sm_values m' ! ?i = _\<close> i by simp
    qed
    then show ?thesis using m' keys len by auto
  qed
qed


section \<open>Runs\<close>

datatype 'v sm_op = Add u32 'v | Delete u32 | Find u32 | Size | Rand nat | For_each

datatype 'v sm_out = Done | Value "'v option" | Number nat | Entries "(u32 \<times> 'v) list"

fun sm_step :: "'v fresh \<Rightarrow> 'v sm_op \<Rightarrow> 'v stream_map \<Rightarrow> ('v stream_map \<times> 'v sm_out) option" where
  "sm_step fresh (Add k v) m = map_option (\<lambda>m'. (m', Done)) (grpc_chttp2_stream_map_add fresh m k (Some v))"
| "sm_step fresh (Delete k) m = map_option (\<lambda>(m', v). (m', Value v)) (grpc_chttp2_stream_map_delete m k)"
| "sm_step fresh (Find k) m = Some (m, Value (grpc_chttp2_stream_map_find m k))"
| "sm_step fresh Size m = Some (m, Number (grpc_chttp2_stream_map_size m))"
| "sm_step fresh (Rand r) m = map_option (\<lambda>(m', v). (m', Value v)) (grpc_chttp2_stream_map_rand m r)"
| "sm_step fresh For_each m = Some (m, Entries (grpc_chttp2_stream_map_for_each m))"

text \<open>
  The reference: a map, with the last key added, which bounds every key that a cell may still hold. A
  client adds keys in increasing order only, as HTTP/2 numbers its streams.
\<close>

fun sm_spec :: "'v sm_op \<Rightarrow> (u32 \<rightharpoonup> 'v) \<times> u32 option \<Rightarrow> ((u32 \<rightharpoonup> 'v) \<times> u32 option) \<times> 'v sm_out" where
  "sm_spec (Add k v) (f, last_key) = ((f(k \<mapsto> v), Some k), Done)"
| "sm_spec (Delete k) (f, last_key) = ((f(k := None), last_key), Value (f k))"
| "sm_spec (Find k) (f, last_key) = ((f, last_key), Value (f k))"
| "sm_spec Size (f, last_key) = ((f, last_key), Number (card (dom f)))"
| "sm_spec (Rand r) (f, last_key) =
     ((f, last_key), Value (if entries_of f = [] then None else Some (snd (entries_of f ! (r mod length (entries_of f))))))"
| "sm_spec For_each (f, last_key) = ((f, last_key), Entries (entries_of f))"

fun sm_pre :: "'v sm_op \<Rightarrow> (u32 \<rightharpoonup> 'v) \<times> u32 option \<Rightarrow> bool" where
  "sm_pre (Add k v) (f, last_key) \<longleftrightarrow> (case last_key of None \<Rightarrow> True | Some t \<Rightarrow> t < k)"
| "sm_pre _ _ \<longleftrightarrow> True"

definition sm_rel :: "'v stream_map \<Rightarrow> (u32 \<rightharpoonup> 'v) \<times> u32 option \<Rightarrow> bool" where
  "sm_rel m a \<longleftrightarrow> sm_ok m \<and> sm_map m = fst a \<and> (\<forall>k\<in>fst ` set (cells m). \<exists>t. snd a = Some t \<and> k \<le> t)"

interpretation sm: simulation "sm_step fresh" sm_spec sm_pre sm_rel for fresh :: "'v fresh"
proof
  fix m :: "'v stream_map" and a op
  assume rel: "sm_rel m a" and pre: "sm_pre op a"
  obtain f last_key where a: "a = (f, last_key)" by (cases a)
  have m: "sm_ok m" "sm_map m = f" "\<forall>k\<in>fst ` set (cells m). \<exists>t. last_key = Some t \<and> k \<le> t"
    using rel by (simp_all add: sm_rel_def a)
  have sub: "\<forall>k\<in>fst ` set (cells m'). \<exists>t. last_key = Some t \<and> k \<le> t"
    if "fst ` set (cells m') \<subseteq> fst ` set (cells m)" for m' :: "'v stream_map"
    using that m(3) by blast
  show "\<exists>c'. sm_step fresh op m = Some (c', snd (sm_spec op a)) \<and> sm_rel c' (fst (sm_spec op a))"
  proof (cases op)
    case (Add k v)
    then have "\<forall>x\<in>fst ` set (cells m). x < k" using pre m(3) by (fastforce simp: a)
    from add_map [OF m(1) this, of fresh v] show ?thesis using m Add pre
      by (fastforce simp: a sm_rel_def)
  next
    case (Delete k)
    then show ?thesis using delete_map [OF m(1), of k] m(2) sub by (fastforce simp: a sm_rel_def)
  next
    case (Rand r)
    then show ?thesis using rand_map [OF m(1), of r] m(2) sub by (fastforce simp: a sm_rel_def)
  qed (use m in \<open>auto simp: a sm_rel_def find_map size_map for_each_live live_entries\<close>)
qed

section \<open>Properties\<close>

text \<open>
  C39: for every sequence of calls in which keys are added in increasing order, no assertion of the
  stream map fails, no cell outside its arrays is used, and every call returns what a finite map
  returns: lookups and deletions the value of the key, \<open>size\<close> the number of entries, \<open>for_each\<close> the entries
  in order, and \<open>rand\<close> one of them. Holes, compaction and growth of the arrays are never visible.
\<close>
theorem stream_map_refines_map:
  assumes "1 < cap" and "3 * cap < SIZE_MODULUS" and "allowed sm_pre sm_spec ops (Map.empty, None)"
  shows "\<exists>m0 m. grpc_chttp2_stream_map_init fresh cap = Some m0
    \<and> run (sm_step fresh) ops m0 = Some (m, snd (spec_run sm_spec ops (Map.empty, None)))"
proof -
  obtain m0 where m0: "grpc_chttp2_stream_map_init fresh cap = Some m0"
    using assms(1) by (simp add: grpc_chttp2_stream_map_init_def)
  then have "sm_rel m0 (Map.empty, None)" using assms(1,2)
    by (auto simp: grpc_chttp2_stream_map_init_def sm_rel_def sm_ok_def sm_map_def cells_def split: if_split_asm)
  from sm.run_simulates [OF this assms(3)] m0 show ?thesis by blast
qed

theorem stream_map_refines_map_witness:
  "\<forall>fresh :: nat fresh. \<exists>m0 m. grpc_chttp2_stream_map_init fresh 2 = Some m0
    \<and> run (sm_step fresh) [Add 1 10, Add 3 30, Delete 1, Add 5 50, Find 3, Find 1, Size] m0 =
      Some (m, [Done, Done, Value (Some 10), Done, Value (Some 30), Value None, Number 2])"
proof
  fix fresh :: "nat fresh"
  let ?ops = "[Add 1 10, Add 3 30, Delete 1, Add 5 50, Find 3, Find 1, Size] :: nat sm_op list"
  have "allowed sm_pre sm_spec ?ops (Map.empty, None)" by (simp add: word_less_nat_alt)
  moreover have "snd (spec_run sm_spec ?ops (Map.empty, None)) =
      [Done, Done, Value (Some 10), Done, Value (Some 30), Value None, Number 2]" by simp
  ultimately show "\<exists>m0 m. grpc_chttp2_stream_map_init fresh 2 = Some m0 \<and> run (sm_step fresh) ?ops m0 =
      Some (m, [Done, Done, Value (Some 10), Done, Value (Some 30), Value None, Number 2])"
    using stream_map_refines_map [of 2 ?ops fresh] by (simp only: SIZE_MODULUS_def) simp
qed

end
