(* ===== verification/Timer_Heap.thy ===== *)
theory Timer_Heap
  imports Prelude Runs "HOL-Library.Multiset"
begin

text \<open>
  The timer heap of \<open>iomgr/timer_heap.cc\<close> in gRPC core: a binary heap of pointers to timers, ordered by
  deadline, in which every timer knows its position, so that a timer can be cancelled in place.

  A timer is its address. Its deadline does not change while it is in the heap and is the argument
  \<open>deadline\<close>; its field \<open>heap_index\<close> is part of the state. Indices and counts are \<open>uint32_t\<close>: naturals with
  \<open>w32\<close> where the code can wrap around. \<open>gpr_realloc\<close> does not return on failure, and what fresh memory
  holds is the argument \<open>fresh\<close>.
\<close>

section \<open>Operations\<close>

type_synonym timer = nat

record timer_heap =
  timers :: "timer list"
  timer_count :: nat
  timer_capacity :: nat
  heap_index :: "timer \<Rightarrow> nat"

text \<open>The parent of \<open>i\<close>; C rounds \<open>(0 - 1) / 2\<close> to 0, as the subtraction of naturals does here.\<close>

definition parent :: "nat \<Rightarrow> nat" where
  "parent i = (i - 1) div 2"

function adjust_upwards :: "(timer \<Rightarrow> int) \<Rightarrow> timer list \<Rightarrow> (timer \<Rightarrow> nat) \<Rightarrow> nat \<Rightarrow> timer \<Rightarrow> timer list \<times> (timer \<Rightarrow> nat)" where
  "adjust_upwards deadline first index i t =
     (if 0 < i \<and> \<not> deadline (first ! parent i) \<le> deadline t
      then adjust_upwards deadline (first[i := first ! parent i]) (index(first ! parent i := i)) (parent i) t
      else (first[i := t], index(t := i)))"
  by pat_completeness auto
termination
  by (relation "measure (\<lambda>(_, _, _, i, _). i)") (auto simp: parent_def)

declare adjust_upwards.simps [simp del]

text \<open>\<open>None\<close>: more than \<open>k\<close> turns; the length is always enough.\<close>

fun adjust_downwards ::
  "(timer \<Rightarrow> int) \<Rightarrow> nat \<Rightarrow> timer list \<Rightarrow> (timer \<Rightarrow> nat) \<Rightarrow> nat \<Rightarrow> nat \<Rightarrow> timer \<Rightarrow> (timer list \<times> (timer \<Rightarrow> nat)) option" where
  "adjust_downwards deadline k first index i len t =
     (let left_child = w32 (1 + 2 * i); right_child = w32 (left_child + 1);
          next_i = (if right_child < len \<and> deadline (first ! left_child) > deadline (first ! right_child)
                    then right_child else left_child)
      in if len \<le> left_child \<or> deadline t \<le> deadline (first ! next_i) then Some (first[i := t], index(t := i))
         else case k of
           0 \<Rightarrow> None
         | Suc k' \<Rightarrow>
             adjust_downwards deadline k' (first[i := first ! next_i]) (index(first ! next_i := i)) next_i len t)"

declare adjust_downwards.simps [simp del]

definition SHRINK_FULLNESS_FACTOR :: nat where "SHRINK_FULLNESS_FACTOR = 2"

definition resize :: "(nat \<Rightarrow> timer) \<Rightarrow> timer_heap \<Rightarrow> nat \<Rightarrow> timer_heap" where
  "resize fresh h capacity =
     h\<lparr>timer_capacity := capacity,
       timers := take capacity (timers h) @ map fresh [length (timers h)..<capacity]\<rparr>"

definition maybe_shrink :: "(nat \<Rightarrow> timer) \<Rightarrow> timer_heap \<Rightarrow> timer_heap" where
  "maybe_shrink fresh h =
     (if 8 \<le> timer_count h \<and> timer_count h \<le> timer_capacity h div SHRINK_FULLNESS_FACTOR div 2
      then resize fresh h (w32 (timer_count h * SHRINK_FULLNESS_FACTOR)) else h)"

definition note_changed_priority :: "(timer \<Rightarrow> int) \<Rightarrow> timer_heap \<Rightarrow> timer \<Rightarrow> timer_heap option" where
  "note_changed_priority deadline h t =
     (let i = heap_index h t in
      if deadline (timers h ! parent i) > deadline t
      then (case adjust_upwards deadline (timers h) (heap_index h) i t of
              (ts, index) \<Rightarrow> Some (h\<lparr>timers := ts, heap_index := index\<rparr>))
      else (case adjust_downwards deadline (timer_count h) (timers h) (heap_index h) i (timer_count h) t of
              None \<Rightarrow> None
            | Some (ts, index) \<Rightarrow> Some (h\<lparr>timers := ts, heap_index := index\<rparr>)))"

definition grpc_timer_heap_init :: "(timer \<Rightarrow> nat) \<Rightarrow> timer_heap" where
  "grpc_timer_heap_init index = \<lparr>timers = [], timer_count = 0, timer_capacity = 0, heap_index = index\<rparr>"

text \<open>An index outside the array is undefined behaviour, \<open>None\<close>.\<close>

definition grpc_timer_heap_add ::
  "(timer \<Rightarrow> int) \<Rightarrow> (nat \<Rightarrow> timer) \<Rightarrow> timer_heap \<Rightarrow> timer \<Rightarrow> (timer_heap \<times> bool) option" where
  "grpc_timer_heap_add deadline fresh h t =
     (let h = (if timer_count h = timer_capacity h
               then resize fresh h (max (w32 (timer_capacity h + 1)) (w32 (timer_capacity h * 3) div 2)) else h)
      in if timer_count h < length (timers h) then
           (case adjust_upwards deadline (timers h) ((heap_index h)(t := timer_count h)) (timer_count h) t of
              (ts, index) \<Rightarrow>
                Some (h\<lparr>timers := ts, heap_index := index, timer_count := w32 (timer_count h + 1)\<rparr>, index t = 0))
         else None)"

definition grpc_timer_heap_remove ::
  "(timer \<Rightarrow> int) \<Rightarrow> (nat \<Rightarrow> timer) \<Rightarrow> timer_heap \<Rightarrow> timer \<Rightarrow> timer_heap option" where
  "grpc_timer_heap_remove deadline fresh h t =
     (let i = heap_index h t; n = timer_count h in
      if n = 0 \<or> n \<le> i \<or> length (timers h) < n then None
      else if i = n - 1 then Some (maybe_shrink fresh (h\<lparr>timer_count := n - 1\<rparr>))
      else
        let u = timers h ! (n - 1);
            h = maybe_shrink fresh (h\<lparr>timers := (timers h)[i := u], heap_index := (heap_index h)(u := i),
                                      timer_count := n - 1\<rparr>)
        in note_changed_priority deadline h (timers h ! i))"

definition grpc_timer_heap_is_empty :: "timer_heap \<Rightarrow> bool" where
  "grpc_timer_heap_is_empty h \<longleftrightarrow> timer_count h = 0"

definition grpc_timer_heap_top :: "timer_heap \<Rightarrow> timer" where
  "grpc_timer_heap_top h = timers h ! 0"

definition grpc_timer_heap_pop :: "(timer \<Rightarrow> int) \<Rightarrow> (nat \<Rightarrow> timer) \<Rightarrow> timer_heap \<Rightarrow> timer_heap option" where
  "grpc_timer_heap_pop deadline fresh h = grpc_timer_heap_remove deadline fresh h (grpc_timer_heap_top h)"

section \<open>Moving a hole\<close>

definition edge_ok :: "(timer \<Rightarrow> int) \<Rightarrow> timer list \<Rightarrow> nat \<Rightarrow> bool" where
  "edge_ok dl xs j \<longleftrightarrow> (0 < j \<and> j < length xs \<longrightarrow> dl (xs ! parent j) \<le> dl (xs ! j))"

definition heap_ordered :: "(timer \<Rightarrow> int) \<Rightarrow> timer list \<Rightarrow> bool" where
  "heap_ordered dl xs \<longleftrightarrow> (\<forall>j. edge_ok dl xs j)"

text \<open>The parent of \<open>i\<close> is no later than the children of \<open>i\<close>.\<close>

definition grand_ok :: "(timer \<Rightarrow> int) \<Rightarrow> timer list \<Rightarrow> nat \<Rightarrow> bool" where
  "grand_ok dl xs i \<longleftrightarrow>
     (\<forall>j. 0 < i \<and> 0 < j \<and> j < length xs \<and> parent j = i \<longrightarrow> dl (xs ! parent i) \<le> dl (xs ! j))"

text \<open>The array with \<open>t\<close> in the hole at \<open>i\<close> is ordered except above \<open>i\<close>, or except below it.\<close>

definition up_ok :: "(timer \<Rightarrow> int) \<Rightarrow> timer list \<Rightarrow> nat \<Rightarrow> bool" where
  "up_ok dl xs i \<longleftrightarrow> (\<forall>j. j \<noteq> i \<longrightarrow> edge_ok dl xs j) \<and> grand_ok dl xs i"

definition down_ok :: "(timer \<Rightarrow> int) \<Rightarrow> timer list \<Rightarrow> nat \<Rightarrow> bool" where
  "down_ok dl xs i \<longleftrightarrow> (\<forall>j. 0 < j \<and> parent j = i \<or> edge_ok dl xs j) \<and> grand_ok dl xs i"

lemma parent_less: "0 < i \<Longrightarrow> parent i < i"
  by (simp add: parent_def)

lemma parent_child: "0 < j \<Longrightarrow> parent j = i \<longleftrightarrow> j = 2 * i + 1 \<or> j = 2 * i + 2"
  by (auto simp: parent_def)

definition swap :: "'a list \<Rightarrow> nat \<Rightarrow> nat \<Rightarrow> 'a list" where
  "swap xs i j = xs[i := xs ! j, j := xs ! i]"

lemma swap_facts:
  assumes "i < length xs" "j < length xs"
  shows "length (swap xs i j) = length xs" "mset (swap xs i j) = mset xs"
    "k < length xs \<Longrightarrow> swap xs i j ! k = (if k = j then xs ! i else if k = i then xs ! j else xs ! k)"
  using assms by (auto simp: swap_def nth_list_update mset_swap)

lemma up_step:
  assumes ok: "up_ok dl xs i" and i: "0 < i" "i < length xs" and less: "dl (xs ! i) < dl (xs ! parent i)"
  shows "up_ok dl (swap xs i (parent i)) (parent i)"
proof -
  let ?p = "parent i"
  have p: "?p < i" "?p < length xs" using parent_less [OF i(1)] i by auto
  have e: "dl (xs ! parent j) \<le> dl (xs ! j)" if "0 < j" "j < length xs" "j \<noteq> i" for j
    using ok that by (simp add: up_ok_def edge_ok_def)
  have g: "dl (xs ! ?p) \<le> dl (xs ! j)" if "0 < j" "j < length xs" "parent j = i" for j
    using ok i(1) that by (simp add: up_ok_def grand_ok_def)
  have "edge_ok dl (swap xs i ?p) j" if "j \<noteq> ?p" for j
    unfolding edge_ok_def
  proof
    assume j: "0 < j \<and> j < length (swap xs i ?p)"
    then have jl: "j < length xs" "parent j < length xs" using swap_facts(1) [OF i(2) p(2)] parent_less [of j] by auto
    then show "dl (swap xs i ?p ! parent j) \<le> dl (swap xs i ?p ! j)"
      using j that less e [of j] e [of ?p] g [of j] p swap_facts(3) [OF i(2) p(2)] by (auto split: if_split)
  qed
  moreover have "grand_ok dl (swap xs i ?p) ?p"
    unfolding grand_ok_def
  proof (intro allI impI)
    fix j assume j: "0 < ?p \<and> 0 < j \<and> j < length (swap xs i ?p) \<and> parent j = ?p"
    have pp: "parent ?p < ?p" using j parent_less by blast
    then have "dl (xs ! parent ?p) \<le> dl (xs ! ?p)" using e [of ?p] j p by auto
    moreover have "j \<noteq> ?p" "j < length xs" using j parent_less [of j] swap_facts(1) [OF i(2) p(2)] by auto
    ultimately show "dl (swap xs i ?p ! parent ?p) \<le> dl (swap xs i ?p ! j)"
      using j pp p e [of j] swap_facts(3) [OF i(2) p(2), of j] swap_facts(3) [OF i(2) p(2), of "parent ?p"]
      by (cases "j = i") auto
  qed
  ultimately show ?thesis by (simp add: up_ok_def)
qed


lemma down_step:
  assumes ok: "down_ok dl xs i" and c: "0 < c" "c < length xs" "parent c = i"
    and less: "dl (xs ! c) < dl (xs ! i)"
    and least: "\<And>j. 0 < j \<Longrightarrow> j < length xs \<Longrightarrow> parent j = i \<Longrightarrow> dl (xs ! c) \<le> dl (xs ! j)"
  shows "down_ok dl (swap xs i c) c"
proof -
  have i: "i < c" "i < length xs" using parent_less [OF c(1)] c by auto
  have e: "dl (xs ! parent j) \<le> dl (xs ! j)" if "0 < j" "j < length xs" "parent j \<noteq> i" for j
    using ok that by (auto simp: down_ok_def edge_ok_def)
  have g: "dl (xs ! parent i) \<le> dl (xs ! j)" if "0 < i" "0 < j" "j < length xs" "parent j = i" for j
    using ok that by (simp add: down_ok_def grand_ok_def)
  note sw = swap_facts [OF i(2) c(2)]
  have "edge_ok dl (swap xs i c) j" if j: "0 < j" "parent j \<noteq> c" for j
    unfolding edge_ok_def
  proof
    assume "0 < j \<and> j < length (swap xs i c)"
    then have jl: "j < length xs" "parent j < j" "parent j < length xs" using sw(1) parent_less [of j] by auto
    show "dl (swap xs i c ! parent j) \<le> dl (swap xs i c ! j)"
    proof (cases "j = i")
      case True
      then show ?thesis using jl j sw(3) g [of c] c i by auto
    next
      case False
      then show ?thesis using jl j sw(3) e [of j] least [of j] less c i by (cases "parent j = i") auto
    qed
  qed
  moreover have "grand_ok dl (swap xs i c) c"
    unfolding grand_ok_def
  proof (intro allI impI)
    fix j assume j: "0 < c \<and> 0 < j \<and> j < length (swap xs i c) \<and> parent j = c"
    then have "j \<noteq> c" "j \<noteq> i" "j < length xs" "parent j \<noteq> i" using parent_less [of j] i sw(1) by auto
    then show "dl (swap xs i c ! parent c) \<le> dl (swap xs i c ! j)" using j e [of j] sw(3) c i by auto
  qed
  ultimately show ?thesis by (auto simp: down_ok_def edge_ok_def)
qed

lemma root_below:
  assumes "\<And>k. k \<le> j \<Longrightarrow> edge_ok dl xs k"
  shows "j < length xs \<Longrightarrow> dl (xs ! 0) \<le> dl (xs ! j)"
  using assms
proof (induction j rule: less_induct)
  case (less j)
  show ?case
  proof (cases "j = 0")
    case False
    then have "parent j < j" "dl (xs ! parent j) \<le> dl (xs ! j)"
      using less.prems(2) [of j] less.prems(1) parent_less by (auto simp: edge_ok_def)
    with less.IH [of "parent j"] less.prems show ?thesis by fastforce
  qed simp
qed

lemma heap_root: "heap_ordered dl xs \<Longrightarrow> j < length xs \<Longrightarrow> dl (xs ! 0) \<le> dl (xs ! j)"
  by (rule root_below) (simp_all add: heap_ordered_def)

section \<open>The loops\<close>

text \<open>Every timer in the array knows its position; \<open>except\<close> a hole.\<close>

definition index_ok :: "(timer \<Rightarrow> nat) \<Rightarrow> timer list \<Rightarrow> nat set \<Rightarrow> bool" where
  "index_ok index xs holes \<longleftrightarrow> (\<forall>j<length xs. j \<notin> holes \<longrightarrow> index (xs ! j) = j)"

definition settled :: "(timer \<Rightarrow> int) \<Rightarrow> timer list \<Rightarrow> (timer \<Rightarrow> nat) \<Rightarrow> timer list \<Rightarrow> (timer \<Rightarrow> nat) \<Rightarrow> bool" where
  "settled dl xs index ys index' \<longleftrightarrow>
     heap_ordered dl ys \<and> mset ys = mset xs \<and> index_ok index' ys {}
     \<and> (\<forall>u. u \<notin> set xs \<longrightarrow> index' u = index u)"

lemma hole_swap:
  "i < length xs \<Longrightarrow> p < length xs \<Longrightarrow> p \<noteq> i \<Longrightarrow> xs[i := xs ! p, p := t] = swap (xs[i := t]) i p"
  by (auto simp: swap_def list_update_swap)

lemma hole_neq: "distinct (xs[i := t]) \<Longrightarrow> i < length xs \<Longrightarrow> j < length xs \<Longrightarrow> j \<noteq> i \<Longrightarrow> xs ! j \<noteq> t"
  by (metis length_list_update nth_eq_iff_index_eq nth_list_update_eq nth_list_update_neq)

lemma index_move:
  assumes "index_ok index xs {i}" "p < length xs" "i < length xs" "p \<noteq> i" "distinct (xs[i := t])"
  shows "index_ok (index(xs ! p := i)) (xs[i := xs ! p]) {p}"
  unfolding index_ok_def
proof (intro allI impI)
  fix j assume j: "j < length (xs[i := xs ! p])" "j \<notin> {p}"
  show "(index(xs ! p := i)) (xs[i := xs ! p] ! j) = j"
  proof (cases "j = i")
    case False
    have "(xs[i := t]) ! j \<noteq> (xs[i := t]) ! p" using assms(2,5) j by (simp add: nth_eq_iff_index_eq)
    then have "xs ! j \<noteq> xs ! p" using False assms(4) by simp
    then show ?thesis using assms(1) j False by (simp add: index_ok_def)
  qed (use assms in simp)
qed

lemma index_fill:
  assumes "index_ok index xs {i}" "i < length xs" "distinct (xs[i := t])"
  shows "index_ok (index(t := i)) (xs[i := t]) {}"
  unfolding index_ok_def
proof (intro allI impI)
  fix j assume j: "j < length (xs[i := t])"
  show "(index(t := i)) (xs[i := t] ! j) = j"
  proof (cases "j = i")
    case False
    then have "xs ! j \<noteq> t" using hole_neq [OF assms(3,2), of j] j by simp
    then show ?thesis using assms(1,2) j False by (simp add: index_ok_def)
  qed (use assms in simp)
qed

lemma settled_step:
  assumes "settled dl (swap xs i p) (index(u := k)) ys index'" "u \<in> set xs" "i < length xs" "p < length xs"
  shows "settled dl xs index ys index'"
proof -
  have "mset (swap xs i p) = mset xs" by (rule swap_facts) (use assms in auto)
  moreover from this have "set (swap xs i p) = set xs" by (rule mset_eq_setD)
  ultimately show ?thesis using assms(1,2) by (auto simp: settled_def)
qed

lemma distinct_swap: "i < length xs \<Longrightarrow> p < length xs \<Longrightarrow> distinct (swap xs i p) = distinct xs"
  using swap_facts(2) [of i xs p] by (metis mset_eq_imp_distinct_iff)

lemma adjust_upwards_move:
  "0 < i \<and> \<not> dl (first ! parent i) \<le> dl t \<Longrightarrow> adjust_upwards dl first index i t =
    adjust_upwards dl (first[i := first ! parent i]) (index(first ! parent i := i)) (parent i) t"
  by (rule trans [OF adjust_upwards.simps if_P])

lemma adjust_upwards_stop:
  "\<not> (0 < i \<and> \<not> dl (first ! parent i) \<le> dl t) \<Longrightarrow> adjust_upwards dl first index i t = (first[i := t], index(t := i))"
  by (rule trans [OF adjust_upwards.simps if_not_P])

lemma adjust_upwards_settles:
  "i < length first \<Longrightarrow> distinct (first[i := t]) \<Longrightarrow> up_ok dl (first[i := t]) i \<Longrightarrow> index_ok index first {i} \<Longrightarrow>
    settled dl (first[i := t]) index (fst (adjust_upwards dl first index i t)) (snd (adjust_upwards dl first index i t))"
proof (induction i arbitrary: first index rule: less_induct)
  case (less i)
  let ?p = "parent i" and ?xs = "first[i := t]"
  show ?case
  proof (cases "0 < i \<and> \<not> dl (first ! ?p) \<le> dl t")
    case True
    then have p: "?p < i" "?p < length first" using parent_less [of i] less.prems(1) by auto
    let ?first = "first[i := first ! ?p]"
    have sw: "?first[?p := t] = swap ?xs i ?p" using hole_swap [of i first ?p t] p less.prems(1) by simp
    have "up_ok dl (?first[?p := t]) ?p"
      unfolding sw using True p less.prems by (intro up_step) auto
    moreover have "distinct (?first[?p := t])" unfolding sw using less.prems p by (simp add: distinct_swap)
    moreover have "index_ok (index(first ! ?p := i)) ?first {?p}"
      using index_move [OF less.prems(4) p(2) less.prems(1) _ less.prems(2)] p by simp
    ultimately have "settled dl (?first[?p := t]) (index(first ! ?p := i))
        (fst (adjust_upwards dl ?first (index(first ! ?p := i)) ?p t))
        (snd (adjust_upwards dl ?first (index(first ! ?p := i)) ?p t))"
      using p by (intro less.IH) (simp_all add: fun_upd_def)
    moreover have "first ! ?p \<in> set ?xs" using p less.prems(1) by (auto simp: in_set_conv_nth intro!: exI [of _ ?p])
    ultimately have "settled dl ?xs index
        (fst (adjust_upwards dl ?first (index(first ! ?p := i)) ?p t))
        (snd (adjust_upwards dl ?first (index(first ! ?p := i)) ?p t))"
      unfolding sw by (rule settled_step) (use p less.prems(1) in auto)
    then show ?thesis unfolding adjust_upwards_move [OF True] .
  next
    case False
    have "edge_ok dl ?xs j" for j
      using less.prems(1,3) False parent_less [of i] by (cases "j = i") (auto simp: up_ok_def edge_ok_def)
    then have "settled dl ?xs index ?xs (index(t := i))"
      using index_fill [OF less.prems(4,1,2)] less.prems(1)
      by (auto simp: settled_def heap_ordered_def dest: set_update_memI)
    then show ?thesis unfolding adjust_upwards_stop [OF False] by (simp add: fun_upd_def)
  qed
qed


lemma adjust_upwards_first:
  "i < length first \<Longrightarrow> distinct (first[i := t]) \<Longrightarrow> (\<And>k. k < i \<Longrightarrow> edge_ok dl first k) \<Longrightarrow>
    fst (adjust_upwards dl first index i t) ! 0 = t \<longleftrightarrow> i = 0 \<or> dl t < dl (first ! 0)"
proof (induction i arbitrary: first index rule: less_induct)
  case (less i)
  let ?p = "parent i"
  show ?case
  proof (cases "0 < i \<and> \<not> dl (first ! ?p) \<le> dl t")
    case True
    then have p: "?p < i" "?p < length first" using parent_less [of i] less.prems(1) by auto
    let ?first = "first[i := first ! ?p]"
    have "distinct (?first[?p := t])"
      using hole_swap [of i first ?p t] p less.prems by (simp add: distinct_swap)
    moreover have "edge_ok dl ?first k" if "k < ?p" for k
      using less.prems(3) [of k] that p parent_less [of k] by (cases "k = 0") (auto simp: edge_ok_def)
    ultimately have "fst (adjust_upwards dl ?first (index(first ! ?p := i)) ?p t) ! 0 = t \<longleftrightarrow> ?p = 0 \<or> dl t < dl (?first ! 0)"
      using p by (intro less.IH) auto
    moreover have "?first ! 0 = first ! 0" using True by simp
    moreover have "?p = 0 \<Longrightarrow> dl t < dl (first ! 0)" using True by auto
    ultimately show ?thesis unfolding adjust_upwards_move [OF True] using True by auto
  next
    case False
    show ?thesis
    proof (cases "i = 0")
      case True
      then show ?thesis unfolding adjust_upwards_stop [OF False] using less.prems(1) by simp
    next
      case i: False
      have "dl (first ! 0) \<le> dl (first ! ?p)"
        using less.prems(1,3) parent_less [of i] i by (intro root_below) auto
      moreover have "first ! 0 \<noteq> t" using hole_neq [OF less.prems(2,1), of 0] less.prems(1) i by (cases first) auto
      ultimately show ?thesis unfolding adjust_upwards_stop [OF False] using False i by simp
    qed
  qed
qed

text \<open>The child that the hole moves to.\<close>

definition next_child :: "(timer \<Rightarrow> int) \<Rightarrow> timer list \<Rightarrow> nat \<Rightarrow> nat" where
  "next_child dl xs i =
     (if 2 * i + 2 < length xs \<and> dl (xs ! (2 * i + 1)) > dl (xs ! (2 * i + 2)) then 2 * i + 2 else 2 * i + 1)"

lemma next_child_least:
  fixes dl :: "timer \<Rightarrow> int"
  assumes "2 * i + 1 < length xs"
  defines "c \<equiv> next_child dl xs i"
  shows "0 < c" "c < length xs" "parent c = i" "i < c"
    "0 < j \<Longrightarrow> j < length xs \<Longrightarrow> parent j = i \<Longrightarrow> dl (xs ! c) \<le> dl (xs ! j)"
proof -
  show "0 < c" "c < length xs" "parent c = i" "i < c"
    using assms by (auto simp: next_child_def parent_def)
  assume j: "0 < j" "j < length xs" "parent j = i"
  then have "j = 2 * i + 1 \<or> j = 2 * i + 2" using parent_child by simp
  then show "dl (xs ! c) \<le> dl (xs ! j)" using j(2) by (auto simp: c_def next_child_def)
qed

lemma adjust_downwards_prefix:
  assumes "length xs < 2147483648" and "i < length xs"
  shows "adjust_downwards dl k (xs @ more') index i (length xs) t =
    (let c = next_child dl xs i in
     if length xs \<le> 2 * i + 1 \<or> dl t \<le> dl (xs ! c) then Some (xs[i := t] @ more', index(t := i))
     else case k of 0 \<Rightarrow> None
       | Suc k' \<Rightarrow> adjust_downwards dl k' (xs[i := xs ! c] @ more') (index(xs ! c := i)) c (length xs) t)"
proof -
  have w: "w32 (1 + 2 * i) = 2 * i + 1" "w32 (2 * i + 1 + 1) = 2 * i + 2" using assms by (simp_all add: w32_def)
  show ?thesis
  proof (cases "length xs \<le> 2 * i + 1")
    case True
    then show ?thesis using assms(2)
      by (subst adjust_downwards.simps) (simp only: w Let_def list_update_append1 simp_thms if_True)
  next
    case False
    then have n: "(xs @ more') ! (2 * i + 1) = xs ! (2 * i + 1)"
      "2 * i + 2 < length xs \<Longrightarrow> (xs @ more') ! (2 * i + 2) = xs ! (2 * i + 2)" by (simp_all add: nth_append)
    have c: "(if 2 * i + 2 < length xs \<and> dl ((xs @ more') ! (2 * i + 1)) > dl ((xs @ more') ! (2 * i + 2))
        then 2 * i + 2 else 2 * i + 1) = next_child dl xs i" using n by (auto simp: next_child_def)
    have "(xs @ more') ! next_child dl xs i = xs ! next_child dl xs i"
      using False next_child_least(2) [of i xs dl] by (simp add: nth_append)
    then show ?thesis using assms(2) by (subst adjust_downwards.simps) (simp only: w Let_def c list_update_append1)
  qed
qed

lemmas adjust_downwards_unfold = adjust_downwards_prefix [where more' = "[]", unfolded append_Nil2]

lemma adjust_downwards_settles:
  "i < length first \<Longrightarrow> length first < 2147483648 \<Longrightarrow> length first - i \<le> k \<Longrightarrow> distinct (first[i := t]) \<Longrightarrow>
    down_ok dl (first[i := t]) i \<Longrightarrow> index_ok index first {i} \<Longrightarrow>
    \<exists>ys index'. adjust_downwards dl k first index i (length first) t = Some (ys, index') \<and> settled dl (first[i := t]) index ys index'"
proof (induction k arbitrary: i first index)
  case 0
  then show ?case by simp
next
  case (Suc k)
  let ?xs = "first[i := t]" and ?c = "next_child dl first i"
  show ?case
  proof (cases "length first \<le> 2 * i + 1 \<or> dl t \<le> dl (first ! ?c)")
    case True
    have "edge_ok dl ?xs j" for j
    proof (cases "0 < j \<and> j < length first \<and> parent j = i")
      case j: True
      then have "2 * i + 1 < length first" using parent_child [of j i] by auto
      from next_child_least(5) [OF this, of j dl] True this j show ?thesis using Suc.prems(1) parent_less [of j]
        by (auto simp: edge_ok_def)
    next
      case False
      then show ?thesis using Suc.prems(5) by (auto simp: down_ok_def edge_ok_def)
    qed
    then have "settled dl ?xs index ?xs (index(t := i))"
      using index_fill [OF Suc.prems(6,1,4)] Suc.prems(1)
      by (auto simp: settled_def heap_ordered_def dest: set_update_memI)
    then show ?thesis using True Suc.prems(1,2) by (simp add: adjust_downwards_unfold Let_def)
  next
    case False
    then have c: "0 < ?c" "?c < length first" "parent ?c = i" "i < ?c"
      using next_child_least [of i first] by auto
    let ?first = "first[i := first ! ?c]"
    have sw: "?first[?c := t] = swap ?xs i ?c" using hole_swap [of i first ?c t] c Suc.prems(1) by simp
    have "down_ok dl (?first[?c := t]) ?c"
      unfolding sw
    proof (rule down_step [OF Suc.prems(5) c(1)])
      fix j assume j: "0 < j" "j < length ?xs" "parent j = i"
      then have "i \<noteq> j" using parent_less [of j] by simp
      then have "?xs ! j = first ! j" "?xs ! ?c = first ! ?c" using c(4) by simp_all
      then show "dl (?xs ! ?c) \<le> dl (?xs ! j)" using next_child_least(5) [of i first j dl] False j by simp
    next
      show "dl (?xs ! ?c) < dl (?xs ! i)" using False c(4) Suc.prems(1) by simp
    qed (use c(2,3) in simp_all)
    moreover have "distinct (?first[?c := t])" unfolding sw using Suc.prems c by (simp add: distinct_swap)
    moreover have "index_ok (index(first ! ?c := i)) ?first {?c}"
      using index_move [OF Suc.prems(6) c(2) Suc.prems(1) _ Suc.prems(4)] c by simp
    moreover have "length ?first - ?c \<le> k" using c(4) Suc.prems(1,3) by simp
    ultimately obtain ys index' where
      ad: "adjust_downwards dl k ?first (index(first ! ?c := i)) ?c (length ?first) t = Some (ys, index')"
        "settled dl (?first[?c := t]) (index(first ! ?c := i)) ys index'"
      using Suc.IH [of ?c ?first "index(first ! ?c := i)"] Suc.prems(2,3) c by (auto simp: fun_upd_def)
    have "first ! ?c \<in> set ?xs" using c Suc.prems(1) by (auto simp: in_set_conv_nth intro!: exI [of _ ?c])
    then have "settled dl ?xs index ys index'"
      using settled_step [OF ad(2) [unfolded sw]] c Suc.prems(1) by simp
    then show ?thesis using False Suc.prems(1,2) ad(1) by (simp add: adjust_downwards_unfold Let_def)
  qed
qed


section \<open>Invariant\<close>

text \<open>The part of the array in use.\<close>

abbreviation used :: "timer_heap \<Rightarrow> timer list" where
  "used h \<equiv> take (timer_count h) (timers h)"

text \<open>The fields of a heap with fewer than \<open>2 ^ 30\<close> timers.\<close>

definition th_shape :: "timer_heap \<Rightarrow> bool" where
  "th_shape h \<longleftrightarrow>
     length (timers h) = timer_capacity h \<and> timer_count h \<le> timer_capacity h \<and> timer_count h \<le> 1073741824"

definition th_ok :: "(timer \<Rightarrow> int) \<Rightarrow> timer_heap \<Rightarrow> bool" where
  "th_ok dl h \<longleftrightarrow>
     th_shape h \<and> distinct (used h) \<and> index_ok (heap_index h) (used h) {} \<and> heap_ordered dl (used h)"

text \<open>The loops leave the unused cells alone.\<close>

lemma adjust_upwards_append:
  "i < length first \<Longrightarrow> adjust_upwards dl (first @ more') index i t =
    (fst (adjust_upwards dl first index i t) @ more', snd (adjust_upwards dl first index i t))"
proof (induction i arbitrary: first index rule: less_induct)
  case (less i)
  let ?p = "parent i"
  show ?case
  proof (cases "0 < i \<and> \<not> dl (first ! ?p) \<le> dl t")
    case True
    then have p: "?p < i" "?p < length first" using parent_less [of i] less.prems(1) by auto
    then have True': "0 < i \<and> \<not> dl ((first @ more') ! ?p) \<le> dl t" using True by (simp add: nth_append)
    show ?thesis unfolding adjust_upwards_move [OF True] adjust_upwards_move [OF True']
      using less.IH [OF p(1), of "first[i := first ! ?p]" "index(first ! ?p := i)"] p less.prems
      by (simp add: nth_append list_update_append1 fun_upd_def)
  next
    case False
    then have "\<not> (0 < i \<and> \<not> dl ((first @ more') ! ?p) \<le> dl t)" using less.prems parent_less [of i] by (cases "i = 0") (auto simp: nth_append)
    then show ?thesis unfolding adjust_upwards_stop [OF False] using less.prems
      by (simp add: adjust_upwards_stop list_update_append1 fun_upd_def)
  qed
qed


lemma adjust_downwards_append:
  "i < length first \<Longrightarrow> length first < 2147483648 \<Longrightarrow> adjust_downwards dl k (first @ more') index i (length first) t =
    map_option (\<lambda>(ys, index'). (ys @ more', index')) (adjust_downwards dl k first index i (length first) t)"
proof (induction k arbitrary: i first index)
  case 0
  then show ?case by (simp add: adjust_downwards_prefix adjust_downwards_unfold Let_def)
next
  case (Suc k)
  let ?c = "next_child dl first i"
  show ?case
  proof (cases "length first \<le> 2 * i + 1 \<or> dl t \<le> dl (first ! ?c)")
    case True
    then show ?thesis using Suc.prems by (simp add: adjust_downwards_prefix adjust_downwards_unfold Let_def)
  next
    case False
    then have c: "?c < length first" using next_child_least [of i first] by auto
    then have "adjust_downwards dl k (first[i := first ! ?c] @ more') (index(first ! ?c := i)) ?c (length first) t =
        map_option (\<lambda>(ys, index'). (ys @ more', index'))
          (adjust_downwards dl k (first[i := first ! ?c]) (index(first ! ?c := i)) ?c (length first) t)"
      using Suc.IH [of ?c "first[i := first ! ?c]" "index(first ! ?c := i)"] Suc.prems by (simp add: fun_upd_def)
    then show ?thesis using False Suc.prems by (simp add: adjust_downwards_prefix adjust_downwards_unfold Let_def)
  qed
qed

section \<open>Operations keep the invariant\<close>

lemma resize_facts:
  assumes "th_shape h" and "timer_count h \<le> c"
  shows "th_shape (resize fresh h c)" "used (resize fresh h c) = used h" "timer_count (resize fresh h c) = timer_count h"
    "heap_index (resize fresh h c) = heap_index h" "timer_capacity (resize fresh h c) = c"
  using assms by (simp_all add: resize_def th_shape_def min_absorb1)

lemma shrink_facts:
  assumes "th_shape h"
  shows "th_shape (maybe_shrink fresh h)" "used (maybe_shrink fresh h) = used h"
    "timer_count (maybe_shrink fresh h) = timer_count h" "heap_index (maybe_shrink fresh h) = heap_index h"
proof -
  have "timer_count h \<le> w32 (timer_count h * SHRINK_FULLNESS_FACTOR)"
    using assms by (simp add: th_shape_def SHRINK_FULLNESS_FACTOR_def)
  from resize_facts [OF assms this] assms
  show "th_shape (maybe_shrink fresh h)" "used (maybe_shrink fresh h) = used h"
    "timer_count (maybe_shrink fresh h) = timer_count h" "heap_index (maybe_shrink fresh h) = heap_index h"
    by (simp_all add: maybe_shrink_def)
qed

lemma used_split: "th_shape h \<Longrightarrow> timers h = used h @ drop (timer_count h) (timers h) \<and> length (used h) = timer_count h"
  by (simp add: th_shape_def)

lemma settled_facts:
  assumes "settled dl xs index ys index'" and "distinct xs"
  shows "distinct ys" "set ys = set xs" "length ys = length xs"
  using assms by (auto simp: settled_def dest: mset_eq_setD mset_eq_length mset_eq_imp_distinct_iff)

lemma heap_min: "heap_ordered dl xs \<Longrightarrow> xs \<noteq> [] \<Longrightarrow> dl t < dl (xs ! 0) \<longleftrightarrow> (\<forall>u\<in>set xs. dl t < dl u)"
  using heap_root [of dl xs] by (fastforce simp: in_set_conv_nth)

lemma index_root:
  assumes "index_ok index ys {}" "t \<in> set ys"
  shows "index t = 0 \<longleftrightarrow> ys ! 0 = t"
proof -
  obtain i where i: "i < length ys" "ys ! i = t" using assms(2) by (auto simp: in_set_conv_nth)
  have "index (ys ! 0) = 0" "index (ys ! i) = i" using assms(1) i(1) by (cases ys; auto simp: index_ok_def)+
  then show ?thesis using i(2) by auto
qed

lemma push_settles:
  fixes x :: timer
  assumes "heap_ordered dl xs" "distinct xs" "index_ok index xs {}" "t \<notin> set xs"
  defines "r \<equiv> adjust_upwards dl (xs @ [x]) (index(t := length xs)) (length xs) t"
  shows "settled dl (xs @ [t]) (index(t := length xs)) (fst r) (snd r)" "snd r t = 0 \<longleftrightarrow> (\<forall>u\<in>set xs. dl t < dl u)"
proof -
  have "edge_ok dl (xs @ [t]) j" if "j \<noteq> length xs" for j
    using assms(1) that parent_less [of j] by (auto simp: heap_ordered_def edge_ok_def nth_append)
  moreover have "grand_ok dl (xs @ [t]) (length xs)"
    unfolding grand_ok_def using parent_less by (metis Suc_leI length_append_singleton not_less)
  ultimately have up: "up_ok dl (xs @ [t]) (length xs)" by (simp add: up_ok_def)
  have ix: "index_ok (index(t := length xs)) (xs @ [x]) {length xs}"
    using assms(3,4) by (auto simp: index_ok_def nth_append less_Suc_eq)
  show st: "settled dl (xs @ [t]) (index(t := length xs)) (fst r) (snd r)"
    using adjust_upwards_settles [of "length xs" "xs @ [x]" t dl] up ix assms(2,4) by (simp add: r_def)
  have "edge_ok dl (xs @ [x]) k" if "k < length xs" for k
    using assms(1) that parent_less [of k] by (auto simp: heap_ordered_def edge_ok_def nth_append)
  then have "fst r ! 0 = t \<longleftrightarrow> length xs = 0 \<or> dl t < dl ((xs @ [x]) ! 0)"
    using adjust_upwards_first [of "length xs" "xs @ [x]" t dl] assms(2,4) by (simp add: r_def)
  also have "\<dots> \<longleftrightarrow> (\<forall>u\<in>set xs. dl t < dl u)" using heap_min [OF assms(1), of t] by (cases "xs = []") (auto simp: nth_append)
  finally show "snd r t = 0 \<longleftrightarrow> (\<forall>u\<in>set xs. dl t < dl u)"
    using index_root [of "snd r" "fst r" t] st settled_facts(2) [OF st] assms(2,4) by (simp add: settled_def)
qed

lemma add_heap:
  assumes ok: "th_ok dl h" and t: "t \<notin> set (used h)" and room: "timer_count h < 1073741824"
  shows "\<exists>h'. grpc_timer_heap_add dl fresh h t = Some (h', \<forall>u\<in>set (used h). dl t < dl u) \<and> th_ok dl h'
    \<and> set (used h') = insert t (set (used h)) \<and> timer_count h' = timer_count h + 1"
proof -
  define h1 where "h1 = (if timer_count h = timer_capacity h
    then resize fresh h (max (w32 (timer_capacity h + 1)) (w32 (timer_capacity h * 3) div 2)) else h)"
  have sh: "th_shape h" using ok by (simp add: th_ok_def)
  have "timer_count h \<le> max (w32 (timer_capacity h + 1)) (w32 (timer_capacity h * 3) div 2)" "timer_count h = timer_capacity h \<Longrightarrow>
      timer_count h < max (w32 (timer_capacity h + 1)) (w32 (timer_capacity h * 3) div 2)" if "timer_count h = timer_capacity h"
    using room that by (simp_all add: w32_def)
  then have h1: "th_shape h1" "used h1 = used h" "timer_count h1 = timer_count h" "heap_index h1 = heap_index h"
      "timer_count h1 < timer_capacity h1"
    using sh resize_facts [OF sh, of _ fresh] unfolding h1_def by (auto simp: th_shape_def)
  obtain x more' where split: "timers h1 = used h @ x # more'"
    using used_split [OF h1(1)] h1(2,3,5) h1(1) Cons_nth_drop_Suc [of "timer_count h1" "timers h1"]
    by (metis th_shape_def)
  have n: "length (used h) = timer_count h" using used_split [OF sh] by simp
  define r where "r = adjust_upwards dl (used h @ [x]) ((heap_index h)(t := length (used h))) (length (used h)) t"
  note push = push_settles [of dl "used h" "heap_index h" t x, folded r_def]
  have st: "settled dl (used h @ [t]) ((heap_index h)(t := length (used h))) (fst r) (snd r)"
    and first: "snd r t = 0 \<longleftrightarrow> (\<forall>u\<in>set (used h). dl t < dl u)"
    using push ok t by (simp_all add: th_ok_def)
  have d: "distinct (used h @ [t])" using ok t by (simp add: th_ok_def)
  note sf = settled_facts [OF st d]
  have "adjust_upwards dl (timers h1) ((heap_index h)(t := timer_count h)) (timer_count h) t = (fst r @ more', snd r)"
    using adjust_upwards_append [of "length (used h)" "used h @ [x]" dl more'] split n by (simp add: r_def)
  then have res: "grpc_timer_heap_add dl fresh h t =
      Some (h1\<lparr>timers := fst r @ more', heap_index := snd r, timer_count := timer_count h + 1\<rparr>, \<forall>u\<in>set (used h). dl t < dl u)"
    using h1 room first sh by (simp add: grpc_timer_heap_add_def h1_def [symmetric] th_shape_def)
  have "used (h1\<lparr>timers := fst r @ more', heap_index := snd r, timer_count := timer_count h + 1\<rparr>) = fst r"
    using sf(3) n by simp
  moreover have "th_shape (h1\<lparr>timers := fst r @ more', heap_index := snd r, timer_count := timer_count h + 1\<rparr>)"
    using h1 split sf(3) room n by (auto simp: th_shape_def)
  ultimately show ?thesis using res st sf by (auto simp: th_ok_def settled_def)
qed


lemma heap_ordered_butlast: "heap_ordered dl (xs @ [u]) \<Longrightarrow> heap_ordered dl xs"
  unfolding heap_ordered_def edge_ok_def
proof (intro allI impI)
  fix j assume "\<forall>j. 0 < j \<and> j < length (xs @ [u]) \<longrightarrow> dl ((xs @ [u]) ! parent j) \<le> dl ((xs @ [u]) ! j)" "0 < j \<and> j < length xs"
  then show "dl (xs ! parent j) \<le> dl (xs ! j)" using parent_less [of j] by (auto simp: nth_append dest!: spec [of _ j])
qed

text \<open>A heap with another timer at \<open>i\<close> is ordered except next to \<open>i\<close>.\<close>

lemma replaced_ok:
  assumes "heap_ordered dl xs" and i: "i < length xs"
  shows "0 < i \<Longrightarrow> dl u < dl (xs ! parent i) \<Longrightarrow> up_ok dl (xs[i := u]) i"
    "i = 0 \<or> dl (xs ! parent i) \<le> dl u \<Longrightarrow> down_ok dl (xs[i := u]) i"
proof -
  have e: "dl (xs ! parent j) \<le> dl (xs ! j)" if "0 < j" "j < length xs" for j
    using assms(1) that by (simp add: heap_ordered_def edge_ok_def)
  have g: "dl (xs ! parent i) \<le> dl (xs ! j)" if "0 < i" "0 < j" "j < length xs" "parent j = i" for j
    using e [of i] e [of j] that i by auto
  have grand: "grand_ok dl (xs[i := u]) i"
    unfolding grand_ok_def
  proof (intro allI impI)
    fix j assume j: "0 < i \<and> 0 < j \<and> j < length (xs[i := u]) \<and> parent j = i"
    then have "parent i \<noteq> i" "j \<noteq> i" using parent_less [of i] parent_less [of j] by auto
    then show "dl (xs[i := u] ! parent i) \<le> dl (xs[i := u] ! j)" using g [of j] j by simp
  qed
  show "up_ok dl (xs[i := u]) i" if "0 < i" "dl u < dl (xs ! parent i)"
  proof -
    have "edge_ok dl (xs[i := u]) j" if "j \<noteq> i" for j
      using that e [of j] g [of j] \<open>0 < i\<close> \<open>dl u < _\<close> parent_less [of j]
      by (cases "parent j = i") (auto simp: edge_ok_def nth_list_update)
    with grand show ?thesis by (simp add: up_ok_def)
  qed
  show "down_ok dl (xs[i := u]) i" if "i = 0 \<or> dl (xs ! parent i) \<le> dl u"
  proof -
    have "0 < j \<and> parent j = i \<or> edge_ok dl (xs[i := u]) j" for j
      using that e [of j] parent_less [of j] i by (cases "j = i") (auto simp: edge_ok_def nth_list_update)
    with grand show ?thesis by (simp add: down_ok_def)
  qed
qed

lemma note_changed_settles:
  assumes sh: "th_shape h" and used: "used h = xs[i := u]" and i: "i < length xs" and idx: "heap_index h u = i"
    and heap: "heap_ordered dl xs" and d: "distinct (xs[i := u])" and ix: "index_ok (heap_index h) (xs[i := u]) {i}"
  shows "\<exists>h'. note_changed_priority dl h u = Some h' \<and> th_ok dl h' \<and> set (used h') = set (xs[i := u])
    \<and> timer_count h' = timer_count h"
proof -
  let ?ys = "xs[i := u]" and ?rest = "drop (timer_count h) (timers h)"
  have split: "timers h = ?ys @ ?rest" "timer_count h = length xs" using used_split [OF sh] used i by auto
  have small: "length ?ys < 2147483648" using sh split by (simp add: th_shape_def)
  have "parent i < length ?ys" using i by (simp add: parent_def)
  then have up: "timers h ! parent i = ?ys ! parent i" by (subst split(1)) (simp add: nth_append)
  have "\<exists>zs index'. settled dl ?ys (heap_index h) zs index'
      \<and> note_changed_priority dl h u = Some (h\<lparr>timers := zs @ ?rest, heap_index := index'\<rparr>)"
  proof (cases "0 < i \<and> dl u < dl (xs ! parent i)")
    case True
    then have p: "?ys ! parent i = xs ! parent i" using parent_less [of i] by simp
    let ?r = "adjust_upwards dl ?ys (heap_index h) i u"
    have "settled dl ?ys (heap_index h) (fst ?r) (snd ?r)"
      using adjust_upwards_settles [of i ?ys u dl "heap_index h"] replaced_ok(1) [OF heap i, of u] True i d ix by simp
    moreover have "adjust_upwards dl (timers h) (heap_index h) i u = (fst ?r @ ?rest, snd ?r)"
      using adjust_upwards_append [of i ?ys dl ?rest] i split(1) by simp
    ultimately show ?thesis using True p up by (auto simp: note_changed_priority_def idx)
  next
    case False
    then have cond: "i = 0 \<or> dl (xs ! parent i) \<le> dl u" by auto
    have p: "\<not> dl u < dl (timers h ! parent i)" unfolding up using False i parent_less [of i]
      by (cases "i = 0") (auto simp: parent_def)
    obtain zs index' where zs: "adjust_downwards dl (length ?ys) ?ys (heap_index h) i (length ?ys) u = Some (zs, index')"
      "settled dl ?ys (heap_index h) zs index'"
      using adjust_downwards_settles [of i ?ys "length ?ys" u dl "heap_index h"] replaced_ok(2) [OF heap i cond] i d ix small
      by auto
    then have "adjust_downwards dl (timer_count h) (timers h) (heap_index h) i (timer_count h) u = Some (zs @ ?rest, index')"
      using adjust_downwards_append [of i ?ys dl "length ?ys" ?rest "heap_index h" u] i small split by simp
    then show ?thesis using p zs(2) by (auto simp: note_changed_priority_def idx)
  qed
  then obtain zs index' where zs: "settled dl ?ys (heap_index h) zs index'"
    "note_changed_priority dl h u = Some (h\<lparr>timers := zs @ ?rest, heap_index := index'\<rparr>)" by blast
  note sf = settled_facts [OF zs(1) d]
  have "used (h\<lparr>timers := zs @ ?rest, heap_index := index'\<rparr>) = zs" using sf(3) split(2) by simp
  moreover have "th_shape (h\<lparr>timers := zs @ ?rest, heap_index := index'\<rparr>)"
    using sh sf(3) split by (simp add: th_shape_def)
  ultimately show ?thesis using zs sf by (auto simp: th_ok_def settled_def)
qed


lemma index_ok_snoc: "index_ok index (xs @ [u]) {} \<longleftrightarrow> index_ok index xs {} \<and> index u = length xs"
  by (auto simp: index_ok_def nth_append less_Suc_eq)

lemma index_of_used:
  assumes "th_ok dl h" and "t \<in> set (used h)"
  shows "heap_index h t < timer_count h" "used h ! heap_index h t = t"
  using assms used_split [of h] by (auto simp: th_ok_def index_ok_def in_set_conv_nth)

lemma remove_heap:
  assumes ok: "th_ok dl h" and t: "t \<in> set (used h)"
  shows "\<exists>h'. grpc_timer_heap_remove dl fresh h t = Some h' \<and> th_ok dl h' \<and> set (used h') = set (used h) - {t}
    \<and> timer_count h' = timer_count h - 1"
proof -
  let ?i = "heap_index h t" and ?n = "timer_count h"
  define xs u where "xs = butlast (used h)" and "u = timers h ! (?n - 1)"
  have sh: "th_shape h" using ok by (simp add: th_ok_def)
  note i = index_of_used [OF ok t]
  have n: "length (used h) = ?n" using used_split [OF sh] by simp
  have "0 < ?n" using i(1) by simp
  then have ne: "used h \<noteq> []" using n by auto
  then have "last (used h) = u" using n \<open>0 < ?n\<close> by (simp add: last_conv_nth u_def)
  then have used: "used h = xs @ [u]" using ne by (metis append_butlast_last_id xs_def)
  have len: "length xs = ?n - 1" "0 < ?n" using n used by auto
  have xs: "heap_ordered dl xs" "distinct xs" "u \<notin> set xs" "index_ok (heap_index h) xs {}" "heap_index h u = length xs"
    using ok heap_ordered_butlast [of dl xs u] unfolding th_ok_def used
    by (auto simp: index_ok_snoc)
  have prefix: "take (?n - 1) (timers h) = xs" using sh by (simp add: xs_def th_shape_def butlast_take)
  have bound: "\<not> (?n = 0 \<or> ?n \<le> ?i \<or> length (timers h) < ?n)" using i(1) sh by (auto simp: th_shape_def)
  show ?thesis
  proof (cases "?i = ?n - 1")
    case True
    then have "t = u" using i(2) len by (metis nth_append_length used)
    let ?h = "h\<lparr>timer_count := ?n - 1\<rparr>"
    have "used ?h = xs" using prefix by simp
    moreover have sh': "th_shape ?h" using sh by (auto simp: th_shape_def)
    ultimately have "th_ok dl (maybe_shrink fresh ?h)" "used (maybe_shrink fresh ?h) = xs"
        "timer_count (maybe_shrink fresh ?h) = ?n - 1"
      using shrink_facts [OF sh', of fresh] xs by (simp_all add: th_ok_def)
    then show ?thesis using bound True xs(3) \<open>t = u\<close>
      by (auto simp: grpc_timer_heap_remove_def Let_def used)
  next
    case False
    then have lt: "?i < length xs" using i(1) len by simp
    then have ti: "xs ! ?i = t" using i(2) by (simp add: used nth_append)
    let ?h = "h\<lparr>timers := (timers h)[?i := u], heap_index := (heap_index h)(u := ?i), timer_count := ?n - 1\<rparr>"
    have sh': "th_shape ?h" using sh by (auto simp: th_shape_def)
    have used': "used ?h = xs[?i := u]" using prefix by (simp add: take_update_swap)
    note sf = shrink_facts [OF sh', of fresh]
    have d: "distinct (xs[?i := u])" using xs by (simp add: distinct_list_update)
    have ix: "index_ok ((heap_index h)(u := ?i)) (xs[?i := u]) {?i}"
      using xs(3,4) by (auto simp: index_ok_def)
    have "?i < timer_count (maybe_shrink fresh ?h)" using sf(3) lt len(1) by simp
    then have "timers (maybe_shrink fresh ?h) ! ?i = used (maybe_shrink fresh ?h) ! ?i" by simp
    also have "\<dots> = u" unfolding sf(2) used' using lt by simp
    finally have at: "timers (maybe_shrink fresh ?h) ! ?i = u" .
    obtain h' where h': "note_changed_priority dl (maybe_shrink fresh ?h) u = Some h'" "th_ok dl h'"
        "set (used h') = set (xs[?i := u])" "timer_count h' = ?n - 1"
      using note_changed_settles [OF sf(1), of xs ?i u dl] sf(2,3,4) used' lt xs(1) d ix by auto
    have "grpc_timer_heap_remove dl fresh h t = Some h'"
      using bound False h'(1) at by (simp add: grpc_timer_heap_remove_def Let_def u_def)
    moreover have "set (xs[?i := u]) = set (used h) - {t}"
      unfolding used set_update_distinct [OF xs(2) lt] ti using xs(3) lt ti nth_mem by fastforce
    ultimately show ?thesis using h' by auto
  qed
qed


section \<open>Runs\<close>

datatype timer_op = Add_timer timer | Remove_timer timer | Min_deadline

text \<open>
  \<open>Min_deadline\<close> is what \<open>timer_generic.cc\<close> computes from the heap: the deadline of its top, or nothing if it
  is empty.
\<close>

datatype timer_out = Is_first bool | Removed | Deadline "int option"

fun timer_step :: "(timer \<Rightarrow> int) \<Rightarrow> (nat \<Rightarrow> timer) \<Rightarrow> timer_op \<Rightarrow> timer_heap \<Rightarrow> (timer_heap \<times> timer_out) option" where
  "timer_step dl fresh (Add_timer t) h = map_option (\<lambda>(h', b). (h', Is_first b)) (grpc_timer_heap_add dl fresh h t)"
| "timer_step dl fresh (Remove_timer t) h = map_option (\<lambda>h'. (h', Removed)) (grpc_timer_heap_remove dl fresh h t)"
| "timer_step dl fresh Min_deadline h =
     Some (h, Deadline (if grpc_timer_heap_is_empty h then None else Some (dl (grpc_timer_heap_top h))))"

fun timer_spec :: "(timer \<Rightarrow> int) \<Rightarrow> timer_op \<Rightarrow> timer set \<Rightarrow> timer set \<times> timer_out" where
  "timer_spec dl (Add_timer t) S = (insert t S, Is_first (\<forall>u\<in>S. dl t < dl u))"
| "timer_spec dl (Remove_timer t) S = (S - {t}, Removed)"
| "timer_spec dl Min_deadline S = (S, Deadline (if S = {} then None else Some (Min (dl ` S))))"

fun timer_pre :: "timer_op \<Rightarrow> timer set \<Rightarrow> bool" where
  "timer_pre (Add_timer t) S \<longleftrightarrow> t \<notin> S \<and> card S < 1073741824"
| "timer_pre (Remove_timer t) S \<longleftrightarrow> t \<in> S"
| "timer_pre Min_deadline S \<longleftrightarrow> True"

definition timer_rel :: "(timer \<Rightarrow> int) \<Rightarrow> timer_heap \<Rightarrow> timer set \<Rightarrow> bool" where
  "timer_rel dl h S \<longleftrightarrow> th_ok dl h \<and> set (used h) = S"

lemma used_card: "th_ok dl h \<Longrightarrow> card (set (used h)) = timer_count h"
  using used_split [of h] distinct_card [of "used h"] by (simp add: th_ok_def)

lemma top_least:
  assumes "th_ok dl h" and "timer_count h \<noteq> 0"
  shows "grpc_timer_heap_top h \<in> set (used h)" "u \<in> set (used h) \<Longrightarrow> dl (grpc_timer_heap_top h) \<le> dl u"
proof -
  have len: "length (used h) = timer_count h" using assms used_split [of h] by (simp add: th_ok_def)
  have top': "grpc_timer_heap_top h = used h ! 0" using assms by (simp add: grpc_timer_heap_top_def)
  show "grpc_timer_heap_top h \<in> set (used h)" unfolding top' using len assms(2) by (intro nth_mem) simp
  show "u \<in> set (used h) \<Longrightarrow> dl (grpc_timer_heap_top h) \<le> dl u"
    unfolding top' using assms(1) heap_root [of dl "used h"] by (auto simp: th_ok_def in_set_conv_nth)
qed

interpretation th: simulation "timer_step dl fresh" "timer_spec dl" timer_pre "timer_rel dl" for dl fresh
proof
  fix h S op
  assume rel: "timer_rel dl h S" and pre: "timer_pre op S"
  then have ok: "th_ok dl h" "set (used h) = S" by (simp_all add: timer_rel_def)
  show "\<exists>h'. timer_step dl fresh op h = Some (h', snd (timer_spec dl op S)) \<and> timer_rel dl h' (fst (timer_spec dl op S))"
  proof (cases op)
    case (Add_timer t)
    then show ?thesis using add_heap [OF ok(1), of t fresh] ok(2) pre used_card [OF ok(1)] by (auto simp: timer_rel_def)
  next
    case (Remove_timer t)
    then show ?thesis using remove_heap [OF ok(1), of t fresh] ok(2) pre by (auto simp: timer_rel_def)
  next
    case Min_deadline
    have "timer_count h = 0 \<longleftrightarrow> S = {}" using used_card [OF ok(1)] ok(2) by (metis card_0_eq List.finite_set)
    moreover have "dl (grpc_timer_heap_top h) = Min (dl ` S)" if "timer_count h \<noteq> 0"
      using top_least [OF ok(1) that] ok(2) by (intro Min_eqI [symmetric]) auto
    ultimately show ?thesis using Min_deadline rel by (simp add: grpc_timer_heap_is_empty_def)
  qed
qed

text \<open>Taking timers off the top until the heap is empty, as the expiry of timers does.\<close>

fun drain :: "(timer \<Rightarrow> int) \<Rightarrow> (nat \<Rightarrow> timer) \<Rightarrow> nat \<Rightarrow> timer_heap \<Rightarrow> timer list option" where
  "drain dl fresh n h =
     (if grpc_timer_heap_is_empty h then Some []
      else case n of 0 \<Rightarrow> None
        | Suc n' \<Rightarrow>
            (case grpc_timer_heap_pop dl fresh h of None \<Rightarrow> None
             | Some h' \<Rightarrow> map_option (Cons (grpc_timer_heap_top h)) (drain dl fresh n' h')))"

declare drain.simps [simp del]

lemma drain_sorted:
  "th_ok dl h \<Longrightarrow> timer_count h \<le> n \<Longrightarrow>
    \<exists>ts. drain dl fresh n h = Some ts \<and> set ts = set (used h) \<and> distinct ts \<and> sorted (map dl ts)"
proof (induction n arbitrary: h)
  case 0
  then show ?case by (simp add: drain.simps grpc_timer_heap_is_empty_def)
next
  case (Suc n)
  show ?case
  proof (cases "timer_count h = 0")
    case True
    then show ?thesis by (simp add: drain.simps grpc_timer_heap_is_empty_def)
  next
    case False
    note top' = top_least [OF Suc.prems(1) False]
    obtain h' where h': "grpc_timer_heap_remove dl fresh h (grpc_timer_heap_top h) = Some h'" "th_ok dl h'"
      "set (used h') = set (used h) - {grpc_timer_heap_top h}" "timer_count h' = timer_count h - 1"
      using remove_heap [OF Suc.prems(1) top'(1), of fresh] by blast
    obtain ts where ts: "drain dl fresh n h' = Some ts" "set ts = set (used h')" "distinct ts" "sorted (map dl ts)"
    proof -
      have "timer_count h' \<le> n" using h'(4) Suc.prems(2) False by linarith
      from that Suc.IH [OF h'(2) this] show ?thesis by blast
    qed
    have "drain dl fresh (Suc n) h = Some (grpc_timer_heap_top h # ts)"
      using False h'(1) ts(1) by (simp add: drain.simps [of _ _ "Suc n"] grpc_timer_heap_is_empty_def grpc_timer_heap_pop_def)
    then show ?thesis using ts h'(3) top' by auto
  qed
qed

section \<open>Properties\<close>

text \<open>
  C40: for every sequence of additions, removals and queries, with the timers removed among those in the
  heap and fewer than \<open>2 ^ 30\<close> of them, the timer heap never leaves its array and answers as a set of timers
  would: an addition says whether the timer is due before all others, a query the earliest
  deadline. Popping the heap empty afterwards yields exactly the timers left, by deadline.
\<close>
theorem timer_heap_refines_set:
  assumes "allowed timer_pre (timer_spec dl) ops {}"
  shows "\<exists>h ts. run (timer_step dl fresh) ops (grpc_timer_heap_init index) = Some (h, snd (spec_run (timer_spec dl) ops {}))
    \<and> drain dl fresh (timer_count h) h = Some ts \<and> distinct ts \<and> sorted (map dl ts)
    \<and> set ts = fst (spec_run (timer_spec dl) ops {})"
proof -
  have "timer_rel dl (grpc_timer_heap_init index) {}"
    by (simp add: timer_rel_def th_ok_def th_shape_def grpc_timer_heap_init_def index_ok_def heap_ordered_def edge_ok_def)
  from th.run_simulates [OF this assms, of fresh] obtain h where
    "run (timer_step dl fresh) ops (grpc_timer_heap_init index) = Some (h, snd (spec_run (timer_spec dl) ops {}))"
    "timer_rel dl h (fst (spec_run (timer_spec dl) ops {}))" by blast
  with drain_sorted [of dl h "timer_count h" fresh] show ?thesis by (auto simp: timer_rel_def)
qed

theorem timer_heap_refines_set_witness:
  "\<forall>fresh index. \<exists>h ts. run (timer_step (\<lambda>t. int (100 - t)) fresh)
      [Add_timer 10, Add_timer 30, Add_timer 20, Remove_timer 30, Min_deadline] (grpc_timer_heap_init index) =
        Some (h, [Is_first True, Is_first True, Is_first False, Removed, Deadline (Some 80)])
    \<and> drain (\<lambda>t. int (100 - t)) fresh (timer_count h) h = Some ts \<and> set ts = {10, 20}"
proof (intro allI)
  fix fresh index
  let ?dl = "\<lambda>t :: nat. int (100 - t)" and ?ops = "[Add_timer 10, Add_timer 30, Add_timer 20, Remove_timer 30, Min_deadline]"
  have "allowed timer_pre (timer_spec ?dl) ?ops {}" by simp
  from timer_heap_refines_set [OF this, of fresh index]
  show "\<exists>h ts. run (timer_step ?dl fresh) ?ops (grpc_timer_heap_init index) =
        Some (h, [Is_first True, Is_first True, Is_first False, Removed, Deadline (Some 80)])
    \<and> drain ?dl fresh (timer_count h) h = Some ts \<and> set ts = {10, 20}"
    by (simp add: insert_Diff_if) blast
qed

end
