(* ===== verification/Avl.thy ===== *)
theory Avl
  imports Runs "HOL-Library.Tree" "HOL-Library.Multiset" "HOL-Library.Monad_Syntax"
begin

text \<open>
  The persistent, reference-counted AVL tree of \<open>lib/avl/avl.cc\<close> in gRPC core, with the counts of
  \<open>lib/gpr/sync.cc\<close>. A tree is a pointer to its root; adding and removing builds new nodes along a path,
  shares the rest, and releases the old root.

  The nodes are a store from addresses to records. \<open>None\<close> as the result of an operation is a null or
  dangling dereference, a failed assertion (those of debug builds included), or the end of the fuel.
  \<open>gpr_malloc\<close>, which never returns null, is the argument \<open>malloc\<close>: an address outside the set of those
  in use. The client's \<open>compare_keys\<close> is the argument \<open>cmp\<close>. Its copies of keys and values are counted:
  \<open>live_keys\<close> and \<open>live_values\<close> are the multisets of those that exist, \<open>copy_key\<close> adds an equal
  one, and destroying one that does not exist is \<open>None\<close>. C++ leaves the order in which arguments are
  evaluated open; the model goes from left to right.
\<close>

section \<open>Operations\<close>

type_synonym ptr = "nat option"

record ('k, 'v) avl_node =
  an_refs :: int
  an_key :: 'k
  an_value :: 'v
  an_left :: ptr
  an_right :: ptr
  an_height :: int

record ('k, 'v) avl_store =
  nodes :: "nat \<rightharpoonup> ('k, 'v) avl_node"
  live_keys :: "'k multiset"
  live_values :: "'v multiset"

type_synonym malloc = "nat set \<Rightarrow> nat"

definition gpr_ref :: "('k, 'v) avl_store \<Rightarrow> nat \<Rightarrow> ('k, 'v) avl_store option" where
  "gpr_ref st a = do {
     n \<leftarrow> nodes st a;
     Some (st\<lparr>nodes := (nodes st)(a \<mapsto> n\<lparr>an_refs := an_refs n + 1\<rparr>)\<rparr>) }"

definition gpr_unref :: "('k, 'v) avl_store \<Rightarrow> nat \<Rightarrow> (('k, 'v) avl_store \<times> bool) option" where
  "gpr_unref st a = do {
     n \<leftarrow> nodes st a;
     if an_refs n > 0
     then Some (st\<lparr>nodes := (nodes st)(a \<mapsto> n\<lparr>an_refs := an_refs n - 1\<rparr>)\<rparr>, an_refs n = 1)
     else None }"

definition copy_key :: "('k, 'v) avl_store \<Rightarrow> 'k \<Rightarrow> ('k, 'v) avl_store" where
  "copy_key st k = st\<lparr>live_keys := add_mset k (live_keys st)\<rparr>"

definition copy_value :: "('k, 'v) avl_store \<Rightarrow> 'v \<Rightarrow> ('k, 'v) avl_store" where
  "copy_value st v = st\<lparr>live_values := add_mset v (live_values st)\<rparr>"

definition destroy_key :: "('k, 'v) avl_store \<Rightarrow> 'k \<Rightarrow> ('k, 'v) avl_store option" where
  "destroy_key st k = (if k \<in># live_keys st then Some (st\<lparr>live_keys := live_keys st - {#k#}\<rparr>) else None)"

definition destroy_value :: "('k, 'v) avl_store \<Rightarrow> 'v \<Rightarrow> ('k, 'v) avl_store option" where
  "destroy_value st v = (if v \<in># live_values st then Some (st\<lparr>live_values := live_values st - {#v#}\<rparr>) else None)"

definition gpr_free :: "('k, 'v) avl_store \<Rightarrow> nat \<Rightarrow> ('k, 'v) avl_store option" where
  "gpr_free st a = (if nodes st a = None then None else Some (st\<lparr>nodes := (nodes st)(a := None)\<rparr>))"

definition ref_node :: "('k, 'v) avl_store \<Rightarrow> ptr \<Rightarrow> (('k, 'v) avl_store \<times> ptr) option" where
  "ref_node st p =
     (case p of None \<Rightarrow> Some (st, p) | Some a \<Rightarrow> do { st \<leftarrow> gpr_ref st a; Some (st, p) })"

text \<open>The recursions carry fuel, the height that the root stores.\<close>

fun unref_loop :: "nat \<Rightarrow> ('k, 'v) avl_store \<Rightarrow> ptr \<Rightarrow> ('k, 'v) avl_store option" where
  "unref_loop f st None = Some st"
| "unref_loop 0 st (Some a) = None"
| "unref_loop (Suc f) st (Some a) = do {
     (st, last) \<leftarrow> gpr_unref st a;
     if last then do {
       n \<leftarrow> nodes st a;
       st \<leftarrow> destroy_key st (an_key n);
       st \<leftarrow> destroy_value st (an_value n);
       st \<leftarrow> unref_loop f st (an_left n);
       st \<leftarrow> unref_loop f st (an_right n);
       gpr_free st a }
     else Some st }"

definition node_height :: "('k, 'v) avl_store \<Rightarrow> ptr \<Rightarrow> int option" where
  "node_height st p = (case p of None \<Rightarrow> Some 0 | Some a \<Rightarrow> map_option an_height (nodes st a))"

definition fuel :: "('k, 'v) avl_store \<Rightarrow> ptr \<Rightarrow> nat" where
  "fuel st p = (case node_height st p of None \<Rightarrow> 0 | Some h \<Rightarrow> nat h)"

definition unref_node :: "('k, 'v) avl_store \<Rightarrow> ptr \<Rightarrow> ('k, 'v) avl_store option" where
  "unref_node st p = unref_loop (fuel st p) st p"

fun calculate_height :: "nat \<Rightarrow> ('k, 'v) avl_store \<Rightarrow> ptr \<Rightarrow> int option" where
  "calculate_height f st None = Some 0"
| "calculate_height 0 st (Some a) = None"
| "calculate_height (Suc f) st (Some a) = do {
     n \<leftarrow> nodes st a;
     l \<leftarrow> calculate_height f st (an_left n);
     r \<leftarrow> calculate_height f st (an_right n);
     Some (1 + max l r) }"

fun assert_loop :: "nat \<Rightarrow> ('k, 'v) avl_store \<Rightarrow> ptr \<Rightarrow> unit option" where
  "assert_loop f st None = Some ()"
| "assert_loop 0 st (Some a) = None"
| "assert_loop (Suc f) st (Some a) = do {
     n \<leftarrow> nodes st a;
     assert_loop f st (an_left n);
     assert_loop f st (an_right n);
     h \<leftarrow> calculate_height (Suc f) st (Some a);
     l \<leftarrow> node_height st (an_left n);
     r \<leftarrow> node_height st (an_right n);
     if h = an_height n \<and> \<bar>l - r\<bar> \<le> 1 then Some () else None }"

definition assert_invariants :: "('k, 'v) avl_store \<Rightarrow> ptr \<Rightarrow> ptr option" where
  "assert_invariants st p = do { assert_loop (fuel st p) st p; Some p }"

definition new_node ::
  "malloc \<Rightarrow> ('k, 'v) avl_store \<Rightarrow> 'k \<Rightarrow> 'v \<Rightarrow> ptr \<Rightarrow> ptr \<Rightarrow> (('k, 'v) avl_store \<times> ptr) option" where
  "new_node malloc st k v l r = do {
     let a = malloc (dom (nodes st));
     l' \<leftarrow> assert_invariants st l;
     r' \<leftarrow> assert_invariants st r;
     hl \<leftarrow> node_height st l;
     hr \<leftarrow> node_height st r;
     Some (st\<lparr>nodes := (nodes st)(a \<mapsto> \<lparr>an_refs = 1, an_key = k, an_value = v, an_left = l', an_right = r',
                                          an_height = 1 + max hl hr\<rparr>)\<rparr>, Some a) }"

fun get_loop :: "('k \<Rightarrow> 'k \<Rightarrow> int) \<Rightarrow> nat \<Rightarrow> ('k, 'v) avl_store \<Rightarrow> ptr \<Rightarrow> 'k \<Rightarrow> ptr option" where
  "get_loop cmp f st None k = Some None"
| "get_loop cmp 0 st (Some a) k = None"
| "get_loop cmp (Suc f) st (Some a) k = do {
     n \<leftarrow> nodes st a;
     let c = cmp (an_key n) k;
     if c = 0 then Some (Some a)
     else if c > 0 then get_loop cmp f st (an_left n) k
     else get_loop cmp f st (an_right n) k }"

text \<open>The value of \<open>grpc_avl_get\<close> for a missing key, the null pointer, is the argument \<open>null\<close>.\<close>

definition grpc_avl_get :: "'v \<Rightarrow> ('k \<Rightarrow> 'k \<Rightarrow> int) \<Rightarrow> ('k, 'v) avl_store \<Rightarrow> ptr \<Rightarrow> 'k \<Rightarrow> 'v option" where
  "grpc_avl_get null cmp st root k = do {
     node \<leftarrow> get_loop cmp (fuel st root) st root k;
     case node of None \<Rightarrow> Some null | Some a \<Rightarrow> map_option an_value (nodes st a) }"

definition grpc_avl_maybe_get :: "('k \<Rightarrow> 'k \<Rightarrow> int) \<Rightarrow> ('k, 'v) avl_store \<Rightarrow> ptr \<Rightarrow> 'k \<Rightarrow> 'v option option" where
  "grpc_avl_maybe_get cmp st root k = do {
     node \<leftarrow> get_loop cmp (fuel st root) st root k;
     case node of None \<Rightarrow> Some None | Some a \<Rightarrow> map_option (\<lambda>n. Some (an_value n)) (nodes st a) }"

definition rotate_left ::
  "malloc \<Rightarrow> ('k, 'v) avl_store \<Rightarrow> 'k \<Rightarrow> 'v \<Rightarrow> ptr \<Rightarrow> ptr \<Rightarrow> (('k, 'v) avl_store \<times> ptr) option" where
  "rotate_left malloc st k v lt rt = do {
     b \<leftarrow> rt;
     rn \<leftarrow> nodes st b;
     let st = copy_value (copy_key st (an_key rn)) (an_value rn);
     (st, rl) \<leftarrow> ref_node st (an_left rn);
     (st, l') \<leftarrow> new_node malloc st k v lt rl;
     (st, rr) \<leftarrow> ref_node st (an_right rn);
     (st, n) \<leftarrow> new_node malloc st (an_key rn) (an_value rn) l' rr;
     st \<leftarrow> unref_node st rt;
     Some (st, n) }"

definition rotate_right ::
  "malloc \<Rightarrow> ('k, 'v) avl_store \<Rightarrow> 'k \<Rightarrow> 'v \<Rightarrow> ptr \<Rightarrow> ptr \<Rightarrow> (('k, 'v) avl_store \<times> ptr) option" where
  "rotate_right malloc st k v lt rt = do {
     b \<leftarrow> lt;
     ln \<leftarrow> nodes st b;
     let st = copy_value (copy_key st (an_key ln)) (an_value ln);
     (st, ll) \<leftarrow> ref_node st (an_left ln);
     (st, lr) \<leftarrow> ref_node st (an_right ln);
     (st, r') \<leftarrow> new_node malloc st k v lr rt;
     (st, n) \<leftarrow> new_node malloc st (an_key ln) (an_value ln) ll r';
     st \<leftarrow> unref_node st lt;
     Some (st, n) }"

definition rotate_left_right ::
  "malloc \<Rightarrow> ('k, 'v) avl_store \<Rightarrow> 'k \<Rightarrow> 'v \<Rightarrow> ptr \<Rightarrow> ptr \<Rightarrow> (('k, 'v) avl_store \<times> ptr) option" where
  "rotate_left_right malloc st k v lt rt = do {
     b \<leftarrow> lt;
     ln \<leftarrow> nodes st b;
     c \<leftarrow> an_right ln;
     lrn \<leftarrow> nodes st c;
     let st = copy_value (copy_key st (an_key lrn)) (an_value lrn);
     let st = copy_value (copy_key st (an_key ln)) (an_value ln);
     (st, ll) \<leftarrow> ref_node st (an_left ln);
     (st, lrl) \<leftarrow> ref_node st (an_left lrn);
     (st, l') \<leftarrow> new_node malloc st (an_key ln) (an_value ln) ll lrl;
     (st, lrr) \<leftarrow> ref_node st (an_right lrn);
     (st, r') \<leftarrow> new_node malloc st k v lrr rt;
     (st, n) \<leftarrow> new_node malloc st (an_key lrn) (an_value lrn) l' r';
     st \<leftarrow> unref_node st lt;
     Some (st, n) }"

definition rotate_right_left ::
  "malloc \<Rightarrow> ('k, 'v) avl_store \<Rightarrow> 'k \<Rightarrow> 'v \<Rightarrow> ptr \<Rightarrow> ptr \<Rightarrow> (('k, 'v) avl_store \<times> ptr) option" where
  "rotate_right_left malloc st k v lt rt = do {
     b \<leftarrow> rt;
     rn \<leftarrow> nodes st b;
     c \<leftarrow> an_left rn;
     rln \<leftarrow> nodes st c;
     let st = copy_value (copy_key st (an_key rln)) (an_value rln);
     (st, rll) \<leftarrow> ref_node st (an_left rln);
     (st, l') \<leftarrow> new_node malloc st k v lt rll;
     let st = copy_value (copy_key st (an_key rn)) (an_value rn);
     (st, rlr) \<leftarrow> ref_node st (an_right rln);
     (st, rr) \<leftarrow> ref_node st (an_right rn);
     (st, r') \<leftarrow> new_node malloc st (an_key rn) (an_value rn) rlr rr;
     (st, n) \<leftarrow> new_node malloc st (an_key rln) (an_value rln) l' r';
     st \<leftarrow> unref_node st rt;
     Some (st, n) }"

text \<open>The difference of the heights of the children of a node that is not null.\<close>

definition child_diff :: "('k, 'v) avl_store \<Rightarrow> ptr \<Rightarrow> int option" where
  "child_diff st p = do {
     a \<leftarrow> p;
     n \<leftarrow> nodes st a;
     l \<leftarrow> node_height st (an_left n);
     r \<leftarrow> node_height st (an_right n);
     Some (l - r) }"

definition asserted :: "(('k, 'v) avl_store \<times> ptr) option \<Rightarrow> (('k, 'v) avl_store \<times> ptr) option" where
  "asserted r = do { (st, p) \<leftarrow> r; p \<leftarrow> assert_invariants st p; Some (st, p) }"

definition rebalance ::
  "malloc \<Rightarrow> ('k, 'v) avl_store \<Rightarrow> 'k \<Rightarrow> 'v \<Rightarrow> ptr \<Rightarrow> ptr \<Rightarrow> (('k, 'v) avl_store \<times> ptr) option" where
  "rebalance malloc st k v lt rt = do {
     hl \<leftarrow> node_height st lt;
     hr \<leftarrow> node_height st rt;
     if hl - hr = 2 then do {
       d \<leftarrow> child_diff st lt;
       if d = - 1 then asserted (rotate_left_right malloc st k v lt rt)
       else asserted (rotate_right malloc st k v lt rt) }
     else if hl - hr = - 2 then do {
       d \<leftarrow> child_diff st rt;
       if d = 1 then asserted (rotate_right_left malloc st k v lt rt)
       else asserted (rotate_left malloc st k v lt rt) }
     else asserted (new_node malloc st k v lt rt) }"

fun add_key ::
  "malloc \<Rightarrow> ('k \<Rightarrow> 'k \<Rightarrow> int) \<Rightarrow> nat \<Rightarrow> ('k, 'v) avl_store \<Rightarrow> ptr \<Rightarrow> 'k \<Rightarrow> 'v \<Rightarrow> (('k, 'v) avl_store \<times> ptr) option" where
  "add_key malloc cmp f st None k v = new_node malloc st k v None None"
| "add_key malloc cmp 0 st (Some a) k v = None"
| "add_key malloc cmp (Suc f) st (Some a) k v = do {
     n \<leftarrow> nodes st a;
     let c = cmp (an_key n) k;
     if c = 0 then do {
       (st, l) \<leftarrow> ref_node st (an_left n);
       (st, r) \<leftarrow> ref_node st (an_right n);
       new_node malloc st k v l r }
     else if c > 0 then do {
       let st = copy_value (copy_key st (an_key n)) (an_value n);
       (st, l) \<leftarrow> add_key malloc cmp f st (an_left n) k v;
       (st, r) \<leftarrow> ref_node st (an_right n);
       rebalance malloc st (an_key n) (an_value n) l r }
     else do {
       let st = copy_value (copy_key st (an_key n)) (an_value n);
       (st, l) \<leftarrow> ref_node st (an_left n);
       (st, r) \<leftarrow> add_key malloc cmp f st (an_right n) k v;
       rebalance malloc st (an_key n) (an_value n) l r } }"

definition grpc_avl_add ::
  "malloc \<Rightarrow> ('k \<Rightarrow> 'k \<Rightarrow> int) \<Rightarrow> ('k, 'v) avl_store \<Rightarrow> ptr \<Rightarrow> 'k \<Rightarrow> 'v \<Rightarrow> (('k, 'v) avl_store \<times> ptr) option" where
  "grpc_avl_add malloc cmp st root k v = do {
     (st, root') \<leftarrow> add_key malloc cmp (fuel st root) st root k v;
     assert_invariants st root';
     st \<leftarrow> unref_node st root;
     Some (st, root') }"

fun in_order_head :: "nat \<Rightarrow> ('k, 'v) avl_store \<Rightarrow> nat \<Rightarrow> ('k, 'v) avl_node option" where
  "in_order_head f st a = do {
     n \<leftarrow> nodes st a;
     case an_left n of None \<Rightarrow> Some n
     | Some b \<Rightarrow> (case f of 0 \<Rightarrow> None | Suc f \<Rightarrow> in_order_head f st b) }"

fun in_order_tail :: "nat \<Rightarrow> ('k, 'v) avl_store \<Rightarrow> nat \<Rightarrow> ('k, 'v) avl_node option" where
  "in_order_tail f st a = do {
     n \<leftarrow> nodes st a;
     case an_right n of None \<Rightarrow> Some n
     | Some b \<Rightarrow> (case f of 0 \<Rightarrow> None | Suc f \<Rightarrow> in_order_tail f st b) }"

declare in_order_head.simps [simp del] in_order_tail.simps [simp del]

fun remove_key ::
  "malloc \<Rightarrow> ('k \<Rightarrow> 'k \<Rightarrow> int) \<Rightarrow> nat \<Rightarrow> ('k, 'v) avl_store \<Rightarrow> ptr \<Rightarrow> 'k \<Rightarrow> (('k, 'v) avl_store \<times> ptr) option" where
  "remove_key malloc cmp f st None k = Some (st, None)"
| "remove_key malloc cmp 0 st (Some a) k = None"
| "remove_key malloc cmp (Suc f) st (Some a) k = do {
     n \<leftarrow> nodes st a;
     let c = cmp (an_key n) k;
     if c = 0 then
       (case (an_left n, an_right n) of
          (None, _) \<Rightarrow> ref_node st (an_right n)
        | (_, None) \<Rightarrow> ref_node st (an_left n)
        | (Some lp, Some rp) \<Rightarrow> do {
            ln \<leftarrow> nodes st lp;
            rn \<leftarrow> nodes st rp;
            if an_height ln < an_height rn then do {
              h \<leftarrow> in_order_head f st rp;
              let st = copy_value (copy_key st (an_key h)) (an_value h);
              (st, l) \<leftarrow> ref_node st (an_left n);
              (st, r) \<leftarrow> remove_key malloc cmp f st (an_right n) (an_key h);
              rebalance malloc st (an_key h) (an_value h) l r }
            else do {
              h \<leftarrow> in_order_tail f st lp;
              let st = copy_value (copy_key st (an_key h)) (an_value h);
              (st, l) \<leftarrow> remove_key malloc cmp f st (an_left n) (an_key h);
              (st, r) \<leftarrow> ref_node st (an_right n);
              rebalance malloc st (an_key h) (an_value h) l r } })
     else if c > 0 then do {
       let st = copy_value (copy_key st (an_key n)) (an_value n);
       (st, l) \<leftarrow> remove_key malloc cmp f st (an_left n) k;
       (st, r) \<leftarrow> ref_node st (an_right n);
       rebalance malloc st (an_key n) (an_value n) l r }
     else do {
       let st = copy_value (copy_key st (an_key n)) (an_value n);
       (st, l) \<leftarrow> ref_node st (an_left n);
       (st, r) \<leftarrow> remove_key malloc cmp f st (an_right n) k;
       rebalance malloc st (an_key n) (an_value n) l r } }"

definition grpc_avl_remove ::
  "malloc \<Rightarrow> ('k \<Rightarrow> 'k \<Rightarrow> int) \<Rightarrow> ('k, 'v) avl_store \<Rightarrow> ptr \<Rightarrow> 'k \<Rightarrow> (('k, 'v) avl_store \<times> ptr) option" where
  "grpc_avl_remove malloc cmp st root k = do {
     (st, root') \<leftarrow> remove_key malloc cmp (fuel st root) st root k;
     assert_invariants st root';
     st \<leftarrow> unref_node st root;
     Some (st, root') }"

definition grpc_avl_create :: ptr where
  "grpc_avl_create = None"

definition grpc_avl_ref :: "('k, 'v) avl_store \<Rightarrow> ptr \<Rightarrow> (('k, 'v) avl_store \<times> ptr) option" where
  "grpc_avl_ref st root = ref_node st root"

definition grpc_avl_unref :: "('k, 'v) avl_store \<Rightarrow> ptr \<Rightarrow> ('k, 'v) avl_store option" where
  "grpc_avl_unref st root = unref_node st root"

definition grpc_avl_is_empty :: "ptr \<Rightarrow> bool" where
  "grpc_avl_is_empty root \<longleftrightarrow> root = None"

end
