(* ===== verification/Avl_Store.thy ===== *)
theory Avl_Store
  imports Avl
begin

text \<open>
  Ownership in the store of the AVL tree. A tree in the store is a \<open>tree\<close> whose nodes carry their
  addresses. The invariant \<open>owns\<close> says which trees, keys and values the running code owns: every
  count is the number of pointers to the node, from nodes and from the owner, and every live key or
  value is in a node or with the owner. Each operation turns one set of owned things into another.
\<close>

section \<open>Trees in the store\<close>

type_synonym ('k, 'v) atree = "(nat \<times> 'k \<times> 'v) tree"

fun ptr_of :: "('k, 'v) atree \<Rightarrow> ptr" where
  "ptr_of Leaf = None"
| "ptr_of (Node l (a, k, v) r) = Some a"

definition strip :: "('k, 'v) atree \<Rightarrow> ('k \<times> 'v) tree" where
  "strip t = map_tree snd t"

lemma strip_simps [simp]:
  "strip Leaf = Leaf" "strip (Node l (a, k, v) r) = Node (strip l) (k, v) (strip r)"
  "height (strip t) = height t"
  by (simp_all add: strip_def)

text \<open>What a node holds besides its count.\<close>

definition content :: "('k, 'v) avl_node \<Rightarrow> 'k \<times> 'v \<times> ptr \<times> ptr \<times> int" where
  "content n = (an_key n, an_value n, an_left n, an_right n, an_height n)"

lemma content_refs [simp]: "content (n\<lparr>an_refs := i\<rparr>) = content n"
  by (simp add: content_def)

fun rep :: "(nat \<rightharpoonup> ('k, 'v) avl_node) \<Rightarrow> ('k, 'v) atree \<Rightarrow> bool" where
  "rep N Leaf \<longleftrightarrow> True"
| "rep N (Node l (a, k, v) r) \<longleftrightarrow>
     map_option content (N a) = Some (k, v, ptr_of l, ptr_of r, 1 + max (int (height l)) (int (height r)))
     \<and> rep N l \<and> rep N r"

lemma rep_cong: "map_option content \<circ> N = map_option content \<circ> N' \<Longrightarrow> rep N t = rep N' t"
  by (induction N t rule: rep.induct) (auto simp: fun_eq_iff)

lemma rep_mono:
  "rep N t \<Longrightarrow> (\<And>a n. N a = Some n \<Longrightarrow> map_option content (N' a) = Some (content n)) \<Longrightarrow> rep N' t"
  by (induction N t rule: rep.induct) fastforce+

lemma rep_subtree: "rep N t \<Longrightarrow> s \<in> subtrees t \<Longrightarrow> rep N s"
  by (induction N t rule: rep.induct) auto

lemma rep_ptr: "rep N t \<Longrightarrow> ptr_of t = Some a \<Longrightarrow> a \<in> dom N"
  by (cases t rule: ptr_of.cases) auto

lemma rep_height: "rep (nodes st) t \<Longrightarrow> node_height st (ptr_of t) = Some (int (height t))"
  by (cases t rule: ptr_of.cases) (auto simp: node_height_def content_def)

lemma rep_fuel: "rep (nodes st) t \<Longrightarrow> fuel st (ptr_of t) = height t"
  by (simp add: fuel_def rep_height)

fun avl :: "'a tree \<Rightarrow> bool" where
  "avl Leaf \<longleftrightarrow> True"
| "avl (Node l x r) \<longleftrightarrow> \<bar>int (height l) - int (height r)\<bar> \<le> 1 \<and> avl l \<and> avl r"

lemma avl_strip [simp]: "avl (strip t) = avl t"
  by (induction t) (auto simp: strip_def)

lemma rep_Node:
  assumes "rep N (Node l (a, k, v) r)"
  obtains n where "N a = Some n" "an_key n = k" "an_value n = v" "an_left n = ptr_of l" "an_right n = ptr_of r"
    "an_height n = 1 + max (int (height l)) (int (height r))" "rep N l" "rep N r"
  using assms by (auto simp: content_def)

lemma rep_calculate_height:
  "rep (nodes st) t \<Longrightarrow> height t \<le> f \<Longrightarrow> calculate_height f st (ptr_of t) = Some (int (height t))"
proof (induction "nodes st" t arbitrary: f rule: rep.induct)
  case (2 l a k v r)
  then obtain f' where "f = Suc f'" "height l \<le> f'" "height r \<le> f'" by (cases f) auto
  with 2 show ?case by (elim rep_Node) auto
qed simp

lemma rep_assert_loop:
  "rep (nodes st) t \<Longrightarrow> avl t \<Longrightarrow> height t \<le> f \<Longrightarrow> assert_loop f st (ptr_of t) = Some ()"
proof (induction "nodes st" t arbitrary: f rule: rep.induct)
  case (2 l a k v r)
  then obtain f' where f: "f = Suc f'" "height l \<le> f'" "height r \<le> f'" by (cases f) auto
  show ?case using 2(3) 
  proof (rule rep_Node)
    fix n assume n: "nodes st a = Some n" "an_left n = ptr_of l" "an_right n = ptr_of r"
      "an_height n = 1 + max (int (height l)) (int (height r))" "rep (nodes st) l" "rep (nodes st) r"
    have "calculate_height (Suc f') st (Some a) = Some (1 + max (int (height l)) (int (height r)))"
      using rep_calculate_height [OF 2(3), of f] 2(5) f(1) by simp
    then show ?thesis using 2 f n by (simp add: rep_height del: calculate_height.simps)
  qed
qed simp

lemma rep_assert_invariants:
  "rep (nodes st) t \<Longrightarrow> avl t \<Longrightarrow> assert_invariants st (ptr_of t) = Some (ptr_of t)"
  by (simp add: assert_invariants_def rep_fuel rep_assert_loop)

section \<open>Ownership\<close>

definition own :: "ptr \<Rightarrow> nat multiset" where
  "own p = (case p of None \<Rightarrow> {#} | Some a \<Rightarrow> {#a#})"

lemma own_simps [simp]: "own None = {#}" "own (Some a) = {#a#}"
  by (simp_all add: own_def)

definition kids :: "('k, 'v) avl_node \<Rightarrow> nat multiset" where
  "kids n = own (an_left n) + own (an_right n)"

definition over :: "(('k, 'v) avl_node \<Rightarrow> 'a multiset) \<Rightarrow> (nat \<rightharpoonup> ('k, 'v) avl_node) \<Rightarrow> 'a multiset" where
  "over g N = (\<Sum>a\<in>dom N. g (the (N a)))"

abbreviation edges :: "(nat \<rightharpoonup> ('k, 'v) avl_node) \<Rightarrow> nat multiset" where
  "edges \<equiv> over kids"

abbreviation keys_in :: "(nat \<rightharpoonup> ('k, 'v) avl_node) \<Rightarrow> 'k multiset" where
  "keys_in \<equiv> over (\<lambda>n. {#an_key n#})"

abbreviation values_in :: "(nat \<rightharpoonup> ('k, 'v) avl_node) \<Rightarrow> 'v multiset" where
  "values_in \<equiv> over (\<lambda>n. {#an_value n#})"

definition roots :: "('k, 'v) atree multiset \<Rightarrow> nat multiset" where
  "roots ts = (\<Sum>t\<in>#ts. own (ptr_of t))"

lemma roots_simps [simp]:
  "roots {#} = {#}" "roots (add_mset t ts) = own (ptr_of t) + roots ts"
  by (simp_all add: roots_def)

definition refs_ok :: "(nat \<rightharpoonup> ('k, 'v) avl_node) \<Rightarrow> nat multiset \<Rightarrow> bool" where
  "refs_ok N R \<longleftrightarrow> (\<forall>a n. N a = Some n \<longrightarrow> an_refs n = int (count (edges N + R) a) \<and> 0 < an_refs n)"

lemma refs_okD:
  "refs_ok N R \<Longrightarrow> N a = Some n \<Longrightarrow> an_refs n = int (count (edges N) a) + int (count R a) \<and> 0 < an_refs n"
  unfolding refs_ok_def by (metis count_union of_nat_add)

definition owns :: "('k, 'v) avl_store \<Rightarrow> ('k, 'v) atree multiset \<Rightarrow> 'k multiset \<Rightarrow> 'v multiset \<Rightarrow> bool" where
  "owns st T K V \<longleftrightarrow>
     finite (dom (nodes st))
   \<and> (\<forall>t\<in>#T. rep (nodes st) t)
   \<and> (\<forall>a\<in>dom (nodes st). \<exists>t. rep (nodes st) t \<and> ptr_of t = Some a)
   \<and> refs_ok (nodes st) (roots T)
   \<and> live_keys st = keys_in (nodes st) + K \<and> live_values st = values_in (nodes st) + V"

text \<open>Trees the owner can reach.\<close>

definition reach :: "('k, 'v) atree multiset \<Rightarrow> ('k, 'v) atree \<Rightarrow> bool" where
  "reach T s \<longleftrightarrow> (\<exists>t\<in>#T. s \<in> subtrees t)"

lemma subtrees_self [simp]: "t \<in> subtrees t"
  by (cases t) auto

lemma reach_root: "t \<in># T \<Longrightarrow> reach T t"
  using subtrees_self unfolding reach_def by blast

lemma reach_kids:
  assumes "reach T (Node l x r)"
  shows "reach T l" "reach T r"
proof -
  have sub: "s \<in> subtrees u" if "Node l x r \<in> subtrees u" "s \<in> {l, r}" for s u
    using that by (induction u) auto
  show "reach T l" "reach T r" using assms sub by (auto simp: reach_def)
qed

lemma reach_add [simp]: "reach (add_mset t T) s \<longleftrightarrow> s \<in> subtrees t \<or> reach T s"
  by (auto simp: reach_def)

lemma owns_rep: "owns st T K V \<Longrightarrow> reach T s \<Longrightarrow> rep (nodes st) s"
  by (auto simp: owns_def reach_def intro: rep_subtree)

lemma over_insert:
  assumes "finite (dom N)" and "a \<notin> dom N"
  shows "over g (N(a \<mapsto> n)) = g n + over g N"
proof -
  have "(\<Sum>b\<in>dom N. g (the ((N(a \<mapsto> n)) b))) = (\<Sum>b\<in>dom N. g (the (N b)))"
    using assms(2) by (intro sum.cong) auto
  then show ?thesis using assms by (simp add: over_def)
qed

lemma over_remove:
  assumes "finite (dom N)" and "N a = Some n"
  shows "over g N = g n + over g (N(a := None))"
proof -
  have "N = (N(a := None))(a \<mapsto> n)" using assms(2) by auto
  then show ?thesis using over_insert [of "N(a := None)" a g n] assms(1) by simp
qed

lemma over_cong:
  assumes "\<And>n n'. content n = content n' \<Longrightarrow> g n = g n'" and "map_option content \<circ> N = map_option content \<circ> N'"
  shows "over g N = over g N'"
proof -
  have c: "map_option content (N a) = map_option content (N' a)" for a using assms(2) by (simp add: fun_eq_iff)
  have "N a = None \<longleftrightarrow> N' a = None" for a using c [of a] by (cases "N a"; cases "N' a") auto
  then have dom: "dom N = dom N'" by (auto simp: dom_def)
  have "g (the (N a)) = g (the (N' a))" if "a \<in> dom N'" for a
  proof -
    from that dom obtain n n' where n: "N a = Some n" "N' a = Some n'" by blast
    with c [of a] have "content n = content n'" by simp
    from assms(1) [OF this] n show ?thesis by simp
  qed
  then show ?thesis by (simp add: over_def dom)
qed

lemma edges_rep:
  assumes "finite (dom N)" and "\<forall>a\<in>dom N. \<exists>t. rep N t \<and> ptr_of t = Some a"
  shows "set_mset (edges N) \<subseteq> dom N"
proof
  fix b assume "b \<in># edges N"
  then obtain a n where "N a = Some n" "b \<in># kids n"
    using assms(1) by (auto simp: over_def set_mset_sum)
  moreover from this assms(2) obtain l k v r where "rep N (Node l (a, k, v) r)"
    by (metis domI ptr_of.elims option.sel option.simps(3))
  ultimately show "b \<in> dom N" 
    by (auto simp: kids_def content_def own_def split: option.splits dest: rep_ptr)
qed

lemma owns_roots: "owns st T K V \<Longrightarrow> set_mset (roots T) \<subseteq> dom (nodes st)"
  by (fastforce simp: owns_def roots_def own_def split: option.splits dest: rep_ptr)

lemma owns_edges: "owns st T K V \<Longrightarrow> set_mset (edges (nodes st)) \<subseteq> dom (nodes st)"
  by (rule edges_rep) (auto simp: owns_def)

section \<open>What the operations do to what is owned\<close>

lemma owns_refs:
  assumes "owns st T K V" and "nodes st a = Some n"
    and T': "\<forall>t\<in>#T'. rep (nodes st) t"
    and ref: "i = an_refs n + (int (count (roots T') a) - int (count (roots T) a))" "0 < i"
    and rest: "\<And>b. b \<noteq> a \<Longrightarrow> count (roots T') b = count (roots T) b"
  shows "owns (st\<lparr>nodes := (nodes st)(a \<mapsto> n\<lparr>an_refs := i\<rparr>)\<rparr>) T' K V"
proof -
  let ?N = "(nodes st)(a \<mapsto> n\<lparr>an_refs := i\<rparr>)"
  have c: "map_option content \<circ> nodes st = map_option content \<circ> ?N" using assms(2) by (auto simp: fun_eq_iff)
  note rep = rep_cong [OF c]
  have over: "edges ?N = edges (nodes st)" "keys_in ?N = keys_in (nodes st)" "values_in ?N = values_in (nodes st)"
    by (rule over_cong [OF _ c, symmetric]; simp add: content_def kids_def)+
  have dom: "dom ?N = dom (nodes st)" using assms(2) by auto
  have ok: "refs_ok (nodes st) (roots T)" using assms(1) by (simp add: owns_def)
  have "an_refs n' = int (count (edges ?N + roots T') b) \<and> 0 < an_refs n'" if "?N b = Some n'" for b n'
  proof (cases "b = a")
    case True
    then show ?thesis using that ref refs_okD [OF ok assms(2)] unfolding over by auto
  next
    case False
    then have "nodes st b = Some n'" using that by simp
    from refs_okD [OF ok this] rest [OF False] show ?thesis unfolding over by simp
  qed
  then have "refs_ok ?N (roots T')" unfolding refs_ok_def by blast
  then show ?thesis using assms(1) T' unfolding owns_def
    by (simp add: over dom rep [symmetric] del: dom_fun_upd)
qed

lemma count_own [simp]: "count (own (Some a)) b = (if b = a then 1 else 0)"
  by simp

lemma ref_node_owns:
  assumes "owns st T K V" and "reach T s"
  shows "\<exists>st'. ref_node st (ptr_of s) = Some (st', ptr_of s) \<and> owns st' (add_mset s T) K V"
proof (cases s rule: ptr_of.cases)
  case 1
  then show ?thesis using assms(1) by (simp add: ref_node_def owns_def)
next
  case (2 l a k v r)
  have rep: "rep (nodes st) s" using owns_rep [OF assms] .
  then obtain n where n: "nodes st a = Some n" using 2 by auto
  have "0 < an_refs n" using assms(1) n refs_okD by (auto simp: owns_def)
  then have "owns (st\<lparr>nodes := (nodes st)(a \<mapsto> n\<lparr>an_refs := an_refs n + 1\<rparr>)\<rparr>) (add_mset s T) K V"
    using rep assms(1) by (intro owns_refs [OF assms(1) n]) (auto simp: 2 owns_def)
  then show ?thesis using n by (simp add: ref_node_def gpr_ref_def 2)
qed

definition fresh_malloc :: "malloc \<Rightarrow> bool" where
  "fresh_malloc malloc \<longleftrightarrow> (\<forall>A. finite A \<longrightarrow> malloc A \<notin> A)"

lemma new_node_owns:
  assumes "fresh_malloc malloc" and "owns st (add_mset l (add_mset r T)) (add_mset k K) (add_mset v V)"
    and "avl l" and "avl r"
  shows "\<exists>st' a. new_node malloc st k v (ptr_of l) (ptr_of r) = Some (st', Some a)
    \<and> owns st' (add_mset (Node l (a, k, v) r) T) K V"
proof -
  let ?a = "malloc (dom (nodes st))"
  let ?n = "\<lparr>an_refs = 1, an_key = k, an_value = v, an_left = ptr_of l, an_right = ptr_of r,
             an_height = 1 + max (int (height l)) (int (height r))\<rparr>"
  let ?N = "(nodes st)(?a \<mapsto> ?n)" and ?t = "Node l (?a, k, v) r"
  have own: "finite (dom (nodes st))" "rep (nodes st) l" "rep (nodes st) r" "\<forall>t\<in>#T. rep (nodes st) t"
    "\<forall>a\<in>dom (nodes st). \<exists>t. rep (nodes st) t \<and> ptr_of t = Some a"
    "refs_ok (nodes st) (roots (add_mset l (add_mset r T)))"
    using assms(2) by (auto simp: owns_def)
  have a: "?a \<notin> dom (nodes st)" using assms(1) own(1) by (simp add: fresh_malloc_def)
  have mono: "rep ?N t" if "rep (nodes st) t" for t
    by (rule rep_mono [OF that]) (use a in auto)
  have t: "rep ?N ?t" using own(2,3) mono by (simp add: content_def)
  have edges: "edges ?N = own (ptr_of l) + own (ptr_of r) + edges (nodes st)"
    using over_insert [OF own(1) a, of kids ?n] by (simp add: kids_def [of ?n])
  have zero: "count (own (ptr_of l) + own (ptr_of r) + edges (nodes st) + roots T) ?a = 0"
    using owns_roots [OF assms(2)] owns_edges [OF assms(2)] a by (auto simp: count_eq_zero_iff)
  have "an_refs n = int (count (edges ?N + roots (add_mset ?t T)) b) \<and> 0 < an_refs n" if "?N b = Some n" for b n
  proof (cases "b = ?a")
    case True
    then show ?thesis using that zero unfolding edges by auto
  next
    case False
    then show ?thesis using that refs_okD [OF own(6), of b n] unfolding edges by auto
  qed
  then have "refs_ok ?N (roots (add_mset ?t T))" unfolding refs_ok_def by blast
  moreover have "\<exists>t. rep ?N t \<and> ptr_of t = Some b" if "b \<in> dom ?N" for b
  proof (cases "b = ?a")
    case True
    then show ?thesis using t by (intro exI [of _ ?t]) simp
  next
    case False
    then have "b \<in> dom (nodes st)" using that by simp
    with own(5) mono show ?thesis by blast
  qed
  moreover have "live_keys st = keys_in ?N + K" "live_values st = values_in ?N + V"
    using assms(2) by (simp_all add: owns_def over_insert [OF own(1) a])
  ultimately have "owns (st\<lparr>nodes := ?N\<rparr>) (add_mset ?t T) K V"
    using own(1,4) mono t unfolding owns_def by simp
  then show ?thesis using own(2,3) assms(3,4)
    by (simp add: new_node_def Let_def rep_assert_invariants rep_height)
qed

text \<open>The recursion does not see a node that nothing points to.\<close>

definition put :: "nat \<Rightarrow> ('k, 'v) avl_node \<Rightarrow> ('k, 'v) avl_store \<Rightarrow> ('k, 'v) avl_store" where
  "put a n st = st\<lparr>nodes := (nodes st)(a \<mapsto> n)\<rparr>"

lemma put_frame:
  "gpr_unref st b = Some (st', fin) \<Longrightarrow> nodes st a = None \<Longrightarrow> gpr_unref (put a n st) b = Some (put a n st', fin) \<and> nodes st' a = None"
  "gpr_free st b = Some st' \<Longrightarrow> nodes st a = None \<Longrightarrow> gpr_free (put a n st) b = Some (put a n st') \<and> nodes st' a = None"
  "destroy_key st k = Some st' \<Longrightarrow> nodes st a = None \<Longrightarrow> destroy_key (put a n st) k = Some (put a n st') \<and> nodes st' a = None"
  "destroy_value st v = Some st' \<Longrightarrow> nodes st a = None \<Longrightarrow> destroy_value (put a n st) v = Some (put a n st') \<and> nodes st' a = None"
  "nodes st b = Some m \<Longrightarrow> nodes st a = None \<Longrightarrow> nodes (put a n st) b = Some m"
  by (auto simp: put_def gpr_unref_def gpr_free_def destroy_key_def destroy_value_def fun_upd_twist
      split: if_split_asm bind_splits)

lemma unref_loop_frame:
  "unref_loop f st p = Some st' \<Longrightarrow> nodes st a = None \<Longrightarrow>
    unref_loop f (put a n st) p = Some (put a n st') \<and> nodes st' a = None"
proof (induction f st p arbitrary: st' rule: unref_loop.induct)
  case (3 f st b)
  from 3(3) obtain st1 fin where 1: "gpr_unref st b = Some (st1, fin)" by (auto split: bind_splits)
  note f1 = put_frame(1) [OF 1 3(4)]
  show ?case
  proof (cases fin)
    case False
    then show ?thesis using 1 3(3) f1 by auto
  next
    case True
    with 1 3(3) obtain m st2 st3 st4 st5 where s: "nodes st1 b = Some m" "destroy_key st1 (an_key m) = Some st2"
      "destroy_value st2 (an_value m) = Some st3" "unref_loop f st3 (an_left m) = Some st4"
      "unref_loop f st4 (an_right m) = Some st5" "gpr_free st5 b = Some st'" by (auto split: bind_splits)
    note f2 = put_frame(5) [OF s(1) conjunct2 [OF f1]] and f3 = put_frame(3) [OF s(2) conjunct2 [OF f1]]
    note f4 = put_frame(4) [OF s(3) conjunct2 [OF f3]]
    note f5 = 3(1) [OF 1 refl True s(1,2,3,4) conjunct2 [OF f4]]
    note f6 = 3(2) [OF 1 refl True s(1,2,3,4,5) conjunct2 [OF f5]]
    note f7 = put_frame(2) [OF s(6) conjunct2 [OF f6]]
    show ?thesis using f1 f2 f3 f4 f5 f6 f7 True by simp
  qed
qed auto

lemma rep_without:
  "rep N t \<Longrightarrow> finite (dom N) \<Longrightarrow> a \<notin># edges N \<Longrightarrow> ptr_of t \<noteq> Some a \<Longrightarrow> rep (N(a := None)) t"
proof (induction N t rule: rep.induct)
  case (2 N l b k v r)
  from 2(3) show ?case
  proof (rule rep_Node)
    fix n assume n: "N b = Some n" "an_left n = ptr_of l" "an_right n = ptr_of r" "rep N l" "rep N r"
    have "kids n \<subseteq># edges N" using over_remove [OF 2(4) n(1), of kids] by simp
    then have "ptr_of l \<noteq> Some a" "ptr_of r \<noteq> Some a" using n(2,3) 2(5)
      by (auto simp: kids_def [of n] dest: mset_subset_eqD)
    then show ?thesis using 2 n by simp
  qed
qed simp

lemma owns_take_apart:
  assumes "owns st (add_mset (Node l (a, k, v) r) T) K V" and "nodes st a = Some n" and "an_refs n = 1"
  shows "owns (st\<lparr>nodes := (nodes st)(a := None)\<rparr>) (add_mset l (add_mset r T)) (add_mset k K) (add_mset v V)"
proof -
  let ?N = "(nodes st)(a := None)"
  have own: "finite (dom (nodes st))" "rep (nodes st) (Node l (a, k, v) r)" "\<forall>t\<in>#T. rep (nodes st) t"
    "\<forall>a\<in>dom (nodes st). \<exists>t. rep (nodes st) t \<and> ptr_of t = Some a"
    "refs_ok (nodes st) (roots (add_mset (Node l (a, k, v) r) T))"
    using assms(1) by (auto simp: owns_def)
  have none: "a \<notin># edges (nodes st)" "a \<notin># roots T"
    using refs_okD [OF own(5) assms(2)] assms(3) by (auto simp: not_in_iff)
  from own(2) have n: "an_key n = k" "an_value n = v" "an_left n = ptr_of l" "an_right n = ptr_of r"
    "rep (nodes st) l" "rep (nodes st) r" using assms(2) by (auto simp: content_def)
  have edges: "edges (nodes st) = own (ptr_of l) + own (ptr_of r) + edges ?N"
    using over_remove [OF own(1) assms(2), of kids] n by (simp add: kids_def [of n])
  note without = rep_without [OF _ own(1) none(1)]
  have root: "ptr_of t \<noteq> Some a" if "t \<in># T" for t
    using none(2) that by (auto simp: roots_def)
  have kid: "ptr_of l \<noteq> Some a" "ptr_of r \<noteq> Some a" using none(1) unfolding edges by auto
  have "an_refs m = int (count (edges ?N + roots (add_mset l (add_mset r T))) b) \<and> 0 < an_refs m"
    if "?N b = Some m" for b m
    using that refs_okD [OF own(5), of b m] unfolding edges by (auto split: if_split_asm)
  then have "refs_ok ?N (roots (add_mset l (add_mset r T)))" unfolding refs_ok_def by blast
  moreover have "\<exists>t. rep ?N t \<and> ptr_of t = Some b" if "b \<in> dom ?N" for b
    using that own(4) without by (auto split: if_split_asm) (metis domI option.inject)
  moreover have "live_keys st = keys_in ?N + add_mset k K" "live_values st = values_in ?N + add_mset v V"
    using assms(1) n by (simp_all add: owns_def over_remove [OF own(1) assms(2)])
  ultimately show ?thesis using own(1,3) n(5,6) without root kid unfolding owns_def by simp
qed

lemma destroy_owned:
  "owns st T (add_mset k K) V \<Longrightarrow> \<exists>st'. destroy_key st k = Some st' \<and> owns st' T K V \<and> nodes st' = nodes st"
  "owns st T K (add_mset v V) \<Longrightarrow> \<exists>st'. destroy_value st v = Some st' \<and> owns st' T K V \<and> nodes st' = nodes st"
  by (auto simp: owns_def destroy_key_def destroy_value_def)

lemma unref_loop_owns:
  "owns st (add_mset s T) K V \<Longrightarrow> height s \<le> f \<Longrightarrow> \<exists>st'. unref_loop f st (ptr_of s) = Some st' \<and> owns st' T K V"
proof (induction s arbitrary: st T K V f)
  case Leaf
  then show ?case by (auto simp: owns_def)
next
  case (Node l x r)
  obtain a k v where x: "x = (a, k, v)" by (cases x)
  obtain f' where f: "f = Suc f'" "height l \<le> f'" "height r \<le> f'" using Node.prems(2) by (cases f) auto
  have own: "rep (nodes st) (Node l (a, k, v) r)" "refs_ok (nodes st) (roots (add_mset (Node l (a, k, v) r) T))"
    "\<forall>t\<in>#T. rep (nodes st) t"
    using Node.prems(1) by (auto simp: owns_def x)
  from own(1) obtain n where n: "nodes st a = Some n" "an_key n = k" "an_value n = v" "an_left n = ptr_of l"
    "an_right n = ptr_of r" by (rule rep_Node)
  note refs = refs_okD [OF own(2) n(1)]
  let ?n = "n\<lparr>an_refs := an_refs n - 1\<rparr>"
  show ?case
  proof (cases "an_refs n = 1")
    case False
    have "owns (st\<lparr>nodes := (nodes st)(a \<mapsto> ?n)\<rparr>) T K V"
      using refs False own(3) Node.prems(1) by (intro owns_refs [OF Node.prems(1) n(1)]) (auto simp: x)
    then show ?thesis using n(1) refs False by (simp add: x f(1) gpr_unref_def)
  next
    case True
    let ?st = "st\<lparr>nodes := (nodes st)(a := None)\<rparr>"
    note apart = owns_take_apart [OF Node.prems(1) [unfolded x] n(1) True]
    obtain st1 where st1: "destroy_key ?st k = Some st1" "owns st1 (add_mset l (add_mset r T)) K (add_mset v V)"
      "nodes st1 = nodes ?st" using destroy_owned(1) [OF apart] by blast
    obtain st2 where st2: "destroy_value st1 v = Some st2" "owns st2 (add_mset l (add_mset r T)) K V"
      "nodes st2 = nodes st1" using destroy_owned(2) [OF st1(2)] by blast
    obtain st3 where st3: "unref_loop f' st2 (ptr_of l) = Some st3" "owns st3 (add_mset r T) K V"
      using Node.IH(1) [OF st2(2) f(2)] by blast
    obtain st4 where st4: "unref_loop f' st3 (ptr_of r) = Some st4" "owns st4 T K V"
      using Node.IH(2) [OF st3(2) f(3)] by blast
    have none: "nodes ?st a = None" "nodes st1 a = None" "nodes st2 a = None" using st1(3) st2(3) by simp_all
    note u1 = put_frame(3) [OF st1(1) none(1), of ?n] and u2 = put_frame(4) [OF st2(1) none(2), of ?n]
    note u3 = unref_loop_frame [OF st3(1) none(3), of ?n]
    note u4 = unref_loop_frame [OF st4(1) conjunct2 [OF u3], of ?n]
    have "gpr_free (put a ?n st4) a = Some st4" using conjunct2 [OF u4] by (simp add: gpr_free_def put_def fun_upd_idem)
    moreover have "nodes (put a ?n ?st) a = Some ?n" by (simp add: put_def)
    moreover have "gpr_unref st a = Some (put a ?n ?st, True)" using n(1) True refs by (simp add: gpr_unref_def put_def)
    ultimately have "unref_loop f st (ptr_of (Node l x r)) = Some st4"
      using u1 u2 u3 u4 n by (simp add: x f(1))
    then show ?thesis using st4(2) by blast
  qed
qed

lemma unref_node_owns:
  assumes "owns st (add_mset s T) K V"
  shows "\<exists>st'. unref_node st (ptr_of s) = Some st' \<and> owns st' T K V"
proof -
  have "rep (nodes st) s" using assms by (simp add: owns_def)
  then show ?thesis using unref_loop_owns [OF assms le_refl] by (simp add: unref_node_def rep_fuel)
qed

lemma copy_owns:
  "owns st T K V \<Longrightarrow> owns (copy_value (copy_key st k) v) T (add_mset k K) (add_mset v V)"
  by (simp add: owns_def copy_key_def copy_value_def)

section \<open>Rotations\<close>

text \<open>The result of a step that leaves one more tree with the owner.\<close>

definition gives ::
  "(('k, 'v) avl_store \<times> ptr) option \<Rightarrow> ('k, 'v) atree multiset \<Rightarrow> 'k multiset \<Rightarrow> 'v multiset \<Rightarrow> ('k \<times> 'v) tree \<Rightarrow> bool" where
  "gives m T K V t \<longleftrightarrow> (\<exists>st u. m = Some (st, ptr_of u) \<and> owns st (add_mset u T) K V \<and> strip u = t)"

lemma gives_obtain:
  assumes "gives m T K V t"
  obtains st u where "m = Some (st, ptr_of u)" "owns st (add_mset u T) K V" "strip u = t"
  using assms by (auto simp: gives_def)

lemma ref_gives: "owns st T K V \<Longrightarrow> reach T s \<Longrightarrow> gives (ref_node st (ptr_of s)) T K V (strip s)"
  using ref_node_owns unfolding gives_def by blast

lemma new_gives:
  assumes "fresh_malloc malloc" and "owns st T' K' V'"
    and "T' = add_mset l (add_mset r T)" and "K' = add_mset k K" and "V' = add_mset v V"
    and "avl (strip l)" and "avl (strip r)"
  shows "gives (new_node malloc st k v (ptr_of l) (ptr_of r)) T K V (Node (strip l) (k, v) (strip r))"
proof -
  obtain st' a where "new_node malloc st k v (ptr_of l) (ptr_of r) = Some (st', Some a)"
    "owns st' (add_mset (Node l (a, k, v) r) T) K V"
    using new_node_owns [of malloc st l r T k K v V] assms by auto
  then show ?thesis unfolding gives_def by (intro exI [of _ st'] exI [of _ "Node l (a, k, v) r"]) simp
qed

text \<open>The last step of a rotation gives up the node that was taken apart.\<close>

lemma unref_gives:
  assumes "owns st T' K V" and "T' = add_mset u (add_mset s T)" and "strip u = t"
  shows "gives (do { st \<leftarrow> unref_node st (ptr_of s); Some (st, ptr_of u) }) T K V t"
proof -
  have "owns st (add_mset s (add_mset u T)) K V" using assms(1,2) by (simp add: add_mset_commute)
  from unref_node_owns [OF this] show ?thesis using assms(3) by (auto simp: gives_def)
qed

lemma owned_node:
  assumes "owns st T K V" and "reach T (Node l (a, k, v) r)"
  obtains n where "nodes st a = Some n" "an_key n = k" "an_value n = v" "an_left n = ptr_of l" "an_right n = ptr_of r"
    "an_height n = 1 + max (int (height l)) (int (height r))"
  using owns_rep [OF assms] by (rule rep_Node)

lemma rotate_left_gives:
  assumes "fresh_malloc malloc" and "owns st (add_mset l (add_mset (Node rl (b, kb, vb) rr) T)) (add_mset k K) (add_mset v V)"
    and "avl (Node l (b, k, v) rl)" "avl rr"
  shows "gives (rotate_left malloc st k v (ptr_of l) (Some b)) T K V (Node (Node (strip l) (k, v) (strip rl)) (kb, vb) (strip rr))"
proof -
  let ?T = "add_mset (Node rl (b, kb, vb) rr) T"
  obtain n where n: "nodes st b = Some n" "an_key n = kb" "an_value n = vb" "an_left n = ptr_of rl" "an_right n = ptr_of rr"
    by (rule owned_node [OF assms(2), of rl b kb vb rr]) simp
  obtain st1 rl' where 1: "ref_node (copy_value (copy_key st kb) vb) (ptr_of rl) = Some (st1, ptr_of rl')"
    "owns st1 (add_mset rl' (add_mset l ?T)) (add_mset kb (add_mset k K)) (add_mset vb (add_mset v V))" "strip rl' = strip rl"
    by (rule gives_obtain [OF ref_gives [OF copy_owns [OF assms(2)], of rl]]) simp_all
  obtain st2 l' where 2: "new_node malloc st1 k v (ptr_of l) (ptr_of rl') = Some (st2, ptr_of l')"
    "owns st2 (add_mset l' ?T) (add_mset kb K) (add_mset vb V)" "strip l' = Node (strip l) (k, v) (strip rl')"
    by (rule gives_obtain [OF new_gives [OF assms(1) 1(2), of l rl' ?T k "add_mset kb K" v "add_mset vb V"]]) (use assms(3,4) 1(3) in simp_all)
  obtain st3 rr' where 3: "ref_node st2 (ptr_of rr) = Some (st3, ptr_of rr')"
    "owns st3 (add_mset rr' (add_mset l' ?T)) (add_mset kb K) (add_mset vb V)" "strip rr' = strip rr"
    by (rule gives_obtain [OF ref_gives [OF 2(2), of rr]]) simp_all
  obtain st4 u where 4: "new_node malloc st3 kb vb (ptr_of l') (ptr_of rr') = Some (st4, ptr_of u)"
    "owns st4 (add_mset u ?T) K V" "strip u = Node (strip l') (kb, vb) (strip rr')"
    by (rule gives_obtain [OF new_gives [OF assms(1) 3(2), of l' rr' ?T kb K vb V]]) (use assms(3,4) 1(3) 2(3) 3(3) in simp_all)
  from unref_gives [OF 4(2) refl] show ?thesis using n 1 2 3 4 by (simp add: rotate_left_def Let_def)
qed

lemma rotate_right_gives:
  assumes "fresh_malloc malloc" and "owns st (add_mset (Node ll (b, kb, vb) lr) (add_mset r T)) (add_mset k K) (add_mset v V)"
    and "avl (Node lr (b, k, v) r)" "avl ll"
  shows "gives (rotate_right malloc st k v (Some b) (ptr_of r)) T K V (Node (strip ll) (kb, vb) (Node (strip lr) (k, v) (strip r)))"
proof -
  let ?T = "add_mset (Node ll (b, kb, vb) lr) T"
  obtain n where n: "nodes st b = Some n" "an_key n = kb" "an_value n = vb" "an_left n = ptr_of ll" "an_right n = ptr_of lr"
    by (rule owned_node [OF assms(2), of ll b kb vb lr]) simp
  have o: "owns st (add_mset r ?T) (add_mset k K) (add_mset v V)" using assms(2) by (simp add: add_mset_commute)
  obtain st1 ll' where 1: "ref_node (copy_value (copy_key st kb) vb) (ptr_of ll) = Some (st1, ptr_of ll')"
    "owns st1 (add_mset ll' (add_mset r ?T)) (add_mset kb (add_mset k K)) (add_mset vb (add_mset v V))" "strip ll' = strip ll"
    by (rule gives_obtain [OF ref_gives [OF copy_owns [OF o], of ll]]) simp_all
  obtain st2 lr' where 2: "ref_node st1 (ptr_of lr) = Some (st2, ptr_of lr')"
    "owns st2 (add_mset lr' (add_mset ll' (add_mset r ?T))) (add_mset kb (add_mset k K)) (add_mset vb (add_mset v V))" "strip lr' = strip lr"
    by (rule gives_obtain [OF ref_gives [OF 1(2), of lr]]) simp_all
  obtain st3 r' where 3: "new_node malloc st2 k v (ptr_of lr') (ptr_of r) = Some (st3, ptr_of r')"
    "owns st3 (add_mset r' (add_mset ll' ?T)) (add_mset kb K) (add_mset vb V)" "strip r' = Node (strip lr') (k, v) (strip r)"
    by (rule gives_obtain [OF new_gives [OF assms(1) 2(2), of lr' r "add_mset ll' ?T" k "add_mset kb K" v "add_mset vb V"]])
      (use assms(3,4) 2(3) in \<open>simp_all add: add_mset_commute\<close>)
  obtain st4 u where 4: "new_node malloc st3 kb vb (ptr_of ll') (ptr_of r') = Some (st4, ptr_of u)"
    "owns st4 (add_mset u ?T) K V" "strip u = Node (strip ll') (kb, vb) (strip r')"
    by (rule gives_obtain [OF new_gives [OF assms(1) 3(2), of ll' r' ?T kb K vb V]])
      (use assms(3,4) 1(3) 2(3) 3(3) in \<open>simp_all add: add_mset_commute\<close>)
  from unref_gives [OF 4(2) refl] show ?thesis using n 1 2 3 4 by (simp add: rotate_right_def Let_def)
qed

lemma rotate_left_right_gives:
  assumes "fresh_malloc malloc"
    and "owns st (add_mset (Node ll (b, kb, vb) (Node lrl (c, kc, vc) lrr)) (add_mset r T)) (add_mset k K) (add_mset v V)"
    and "avl (Node ll (b, kb, vb) lrl)" "avl (Node lrr (b, k, v) r)"
  shows "gives (rotate_left_right malloc st k v (Some b) (ptr_of r)) T K V
    (Node (Node (strip ll) (kb, vb) (strip lrl)) (kc, vc) (Node (strip lrr) (k, v) (strip r)))"
proof -
  let ?T = "add_mset (Node ll (b, kb, vb) (Node lrl (c, kc, vc) lrr)) T"
  obtain n where n: "nodes st b = Some n" "an_key n = kb" "an_value n = vb" "an_left n = ptr_of ll" "an_right n = Some c"
    by (rule owned_node [OF assms(2), of ll b kb vb "Node lrl (c, kc, vc) lrr"]) simp_all
  obtain m where m: "nodes st c = Some m" "an_key m = kc" "an_value m = vc" "an_left m = ptr_of lrl" "an_right m = ptr_of lrr"
    by (rule owned_node [OF assms(2), of lrl c kc vc lrr]) simp_all
  have "owns st (add_mset r ?T) (add_mset k K) (add_mset v V)" using assms(2) by (simp add: add_mset_commute)
  note o = copy_owns [OF copy_owns [OF this, of kc vc], of kb vb]
  let ?K = "add_mset kb (add_mset kc (add_mset k K))" and ?V = "add_mset vb (add_mset vc (add_mset v V))"
  let ?st = "copy_value (copy_key (copy_value (copy_key st kc) vc) kb) vb"
  obtain st1 ll' where 1: "ref_node ?st (ptr_of ll) = Some (st1, ptr_of ll')"
    "owns st1 (add_mset ll' (add_mset r ?T)) ?K ?V" "strip ll' = strip ll"
    by (rule gives_obtain [OF ref_gives [OF o, of ll]]) simp_all
  obtain st2 lrl' where 2: "ref_node st1 (ptr_of lrl) = Some (st2, ptr_of lrl')"
    "owns st2 (add_mset lrl' (add_mset ll' (add_mset r ?T))) ?K ?V" "strip lrl' = strip lrl"
    by (rule gives_obtain [OF ref_gives [OF 1(2), of lrl]]) simp_all
  obtain st3 l' where 3: "new_node malloc st2 kb vb (ptr_of ll') (ptr_of lrl') = Some (st3, ptr_of l')"
    "owns st3 (add_mset l' (add_mset r ?T)) (add_mset kc (add_mset k K)) (add_mset vc (add_mset v V))"
    "strip l' = Node (strip ll') (kb, vb) (strip lrl')"
    by (rule gives_obtain [OF new_gives [OF assms(1) 2(2), of ll' lrl' "add_mset r ?T" kb "add_mset kc (add_mset k K)" vb "add_mset vc (add_mset v V)"]])
      (use assms(3,4) 1(3) 2(3) in \<open>simp_all add: add_mset_commute\<close>)
  obtain st4 lrr' where 4: "ref_node st3 (ptr_of lrr) = Some (st4, ptr_of lrr')"
    "owns st4 (add_mset lrr' (add_mset l' (add_mset r ?T))) (add_mset kc (add_mset k K)) (add_mset vc (add_mset v V))" "strip lrr' = strip lrr"
    by (rule gives_obtain [OF ref_gives [OF 3(2), of lrr]]) simp_all
  obtain st5 r' where 5: "new_node malloc st4 k v (ptr_of lrr') (ptr_of r) = Some (st5, ptr_of r')"
    "owns st5 (add_mset r' (add_mset l' ?T)) (add_mset kc K) (add_mset vc V)" "strip r' = Node (strip lrr') (k, v) (strip r)"
    by (rule gives_obtain [OF new_gives [OF assms(1) 4(2), of lrr' r "add_mset l' ?T" k "add_mset kc K" v "add_mset vc V"]])
      (use assms(3,4) 4(3) in \<open>simp_all add: add_mset_commute\<close>)
  obtain st6 u where 6: "new_node malloc st5 kc vc (ptr_of l') (ptr_of r') = Some (st6, ptr_of u)"
    "owns st6 (add_mset u ?T) K V" "strip u = Node (strip l') (kc, vc) (strip r')"
    by (rule gives_obtain [OF new_gives [OF assms(1) 5(2), of l' r' ?T kc K vc V]])
      (use assms(3,4) 1(3) 2(3) 3(3) 4(3) 5(3) in \<open>simp_all add: add_mset_commute\<close>)
  from unref_gives [OF 6(2) refl] show ?thesis using n m 1 2 3 4 5 6 by (simp add: rotate_left_right_def Let_def)
qed

lemma rotate_right_left_gives:
  assumes "fresh_malloc malloc"
    and "owns st (add_mset l (add_mset (Node (Node rll (c, kc, vc) rlr) (b, kb, vb) rr) T)) (add_mset k K) (add_mset v V)"
    and "avl (Node l (b, k, v) rll)" "avl (Node rlr (b, kb, vb) rr)"
  shows "gives (rotate_right_left malloc st k v (ptr_of l) (Some b)) T K V
    (Node (Node (strip l) (k, v) (strip rll)) (kc, vc) (Node (strip rlr) (kb, vb) (strip rr)))"
proof -
  let ?T = "add_mset (Node (Node rll (c, kc, vc) rlr) (b, kb, vb) rr) T"
  obtain n where n: "nodes st b = Some n" "an_key n = kb" "an_value n = vb" "an_left n = Some c" "an_right n = ptr_of rr"
    by (rule owned_node [OF assms(2), of "Node rll (c, kc, vc) rlr" b kb vb rr]) simp_all
  obtain m where m: "nodes st c = Some m" "an_key m = kc" "an_value m = vc" "an_left m = ptr_of rll" "an_right m = ptr_of rlr"
    by (rule owned_node [OF assms(2), of rll c kc vc rlr]) simp_all
  obtain st1 rll' where 1: "ref_node (copy_value (copy_key st kc) vc) (ptr_of rll) = Some (st1, ptr_of rll')"
    "owns st1 (add_mset rll' (add_mset l ?T)) (add_mset kc (add_mset k K)) (add_mset vc (add_mset v V))" "strip rll' = strip rll"
    by (rule gives_obtain [OF ref_gives [OF copy_owns [OF assms(2)], of rll]]) simp_all
  obtain st2 l' where 2: "new_node malloc st1 k v (ptr_of l) (ptr_of rll') = Some (st2, ptr_of l')"
    "owns st2 (add_mset l' ?T) (add_mset kc K) (add_mset vc V)" "strip l' = Node (strip l) (k, v) (strip rll')"
    by (rule gives_obtain [OF new_gives [OF assms(1) 1(2), of l rll' ?T k "add_mset kc K" v "add_mset vc V"]])
      (use assms(3,4) 1(3) in \<open>simp_all add: add_mset_commute\<close>)
  let ?K = "add_mset kb (add_mset kc K)" and ?V = "add_mset vb (add_mset vc V)"
  obtain st3 rlr' where 3: "ref_node (copy_value (copy_key st2 kb) vb) (ptr_of rlr) = Some (st3, ptr_of rlr')"
    "owns st3 (add_mset rlr' (add_mset l' ?T)) ?K ?V" "strip rlr' = strip rlr"
    by (rule gives_obtain [OF ref_gives [OF copy_owns [OF 2(2)], of rlr]]) simp_all
  obtain st4 rr' where 4: "ref_node st3 (ptr_of rr) = Some (st4, ptr_of rr')"
    "owns st4 (add_mset rr' (add_mset rlr' (add_mset l' ?T))) ?K ?V" "strip rr' = strip rr"
    by (rule gives_obtain [OF ref_gives [OF 3(2), of rr]]) simp_all
  obtain st5 r' where 5: "new_node malloc st4 kb vb (ptr_of rlr') (ptr_of rr') = Some (st5, ptr_of r')"
    "owns st5 (add_mset r' (add_mset l' ?T)) (add_mset kc K) (add_mset vc V)" "strip r' = Node (strip rlr') (kb, vb) (strip rr')"
    by (rule gives_obtain [OF new_gives [OF assms(1) 4(2), of rlr' rr' "add_mset l' ?T" kb "add_mset kc K" vb "add_mset vc V"]])
      (use assms(3,4) 3(3) 4(3) in \<open>simp_all add: add_mset_commute\<close>)
  obtain st6 u where 6: "new_node malloc st5 kc vc (ptr_of l') (ptr_of r') = Some (st6, ptr_of u)"
    "owns st6 (add_mset u ?T) K V" "strip u = Node (strip l') (kc, vc) (strip r')"
    by (rule gives_obtain [OF new_gives [OF assms(1) 5(2), of l' r' ?T kc K vc V]])
      (use assms(3,4) 1(3) 2(3) 3(3) 4(3) 5(3) in \<open>simp_all add: add_mset_commute\<close>)
  from unref_gives [OF 6(2) refl] show ?thesis using n m 1 2 3 4 5 6 by (simp add: rotate_right_left_def Let_def)
qed

end
