(* ===== verification/Avl_Map.thy ===== *)
theory Avl_Map
  imports Avl_Store
begin

text \<open>
  The AVL tree of gRPC as a map. Rebalancing, adding and removing are first described on plain trees;
  the operations on the store build those trees, own what they return and nothing else, and
  stay balanced. Whole runs over many handles are then runs over finite maps.
\<close>

section \<open>Balanced trees\<close>

definition bal :: "'a tree \<Rightarrow> 'a \<Rightarrow> 'a tree \<Rightarrow> 'a tree" where
  "bal l x r =
     (if height l = height r + 2 then
        (case l of Node ll y lr \<Rightarrow>
           if height lr = height ll + 1
           then (case lr of Node lrl z lrr \<Rightarrow> Node (Node ll y lrl) z (Node lrr x r) | Leaf \<Rightarrow> Leaf)
           else Node ll y (Node lr x r)
         | Leaf \<Rightarrow> Leaf)
      else if height r = height l + 2 then
        (case r of Node rl y rr \<Rightarrow>
           if height rl = height rr + 1
           then (case rl of Node rll z rlr \<Rightarrow> Node (Node l x rll) z (Node rlr y rr) | Leaf \<Rightarrow> Leaf)
           else Node (Node l x rl) y rr
         | Leaf \<Rightarrow> Leaf)
      else Node l x r)"

abbreviation near :: "nat \<Rightarrow> 'a tree \<Rightarrow> 'b tree \<Rightarrow> bool" where
  "near d l r \<equiv> \<bar>int (height l) - int (height r)\<bar> \<le> int d"

lemma bal_inorder: "inorder (bal l x r) = inorder l @ x # inorder r"
  by (auto simp: bal_def split: tree.splits)

lemma bal_avl_left:
  assumes "avl l" "avl r" "height l = height r + 2"
  shows "avl (bal l x r) \<and> height (bal l x r) \<in> {height l, 1 + height l}"
proof -
  obtain ll y lr where l: "l = Node ll y lr" using assms(3) by (cases l) auto
  have h: "max (height ll) (height lr) = height r + 1" "near 1 ll lr" "avl ll" "avl lr" using assms by (auto simp: l)
  show ?thesis
  proof (cases "height lr = height ll + 1")
    case True
    then obtain lrl z lrr where lr: "lr = Node lrl z lrr" by (cases lr) auto
    have "max (height lrl) (height lrr) = height r" "height ll = height r" "near 1 lrl lrr"
      using h True by (auto simp: lr)
    then show ?thesis using assms h True by (auto simp: l lr bal_def max_def split: if_split_asm)
  next
    case False
    then have "height ll = height r + 1" "height lr \<in> {height r, height r + 1}" using h by (auto simp: max_def split: if_split_asm)
    then show ?thesis using assms False h by (auto simp: l bal_def)
  qed
qed

lemma bal_avl_right:
  assumes "avl l" "avl r" "height r = height l + 2"
  shows "avl (bal l x r) \<and> height (bal l x r) \<in> {height r, 1 + height r}"
proof -
  obtain rl y rr where r: "r = Node rl y rr" using assms(3) by (cases r) auto
  have h: "max (height rl) (height rr) = height l + 1" "near 1 rl rr" "avl rl" "avl rr" using assms by (auto simp: r)
  show ?thesis
  proof (cases "height rl = height rr + 1")
    case True
    then obtain rll z rlr where rl: "rl = Node rll z rlr" by (cases rl) auto
    have "max (height rll) (height rlr) = height l" "height rr = height l" "near 1 rll rlr"
      using h True by (auto simp: rl)
    then show ?thesis using assms h True by (auto simp: r rl bal_def max_def split: if_split_asm)
  next
    case False
    then have "height rr = height l + 1" "height rl \<in> {height l, height l + 1}" using h by (auto simp: max_def split: if_split_asm)
    then show ?thesis using assms False h by (auto simp: r bal_def)
  qed
qed

lemma bal_avl:
  assumes "avl l" "avl r" "near 2 l r"
  shows "avl (bal l x r)"
    and "near 1 l r \<Longrightarrow> height (bal l x r) = 1 + max (height l) (height r)"
    and "\<not> near 1 l r \<Longrightarrow> height (bal l x r) \<in> {max (height l) (height r), 1 + max (height l) (height r)}"
proof -
  have near1: "near 1 l r \<Longrightarrow> bal l x r = Node l x r" by (auto simp: bal_def)
  consider (l) "height l = height r + 2" | (r) "height r = height l + 2" | (n) "near 1 l r" using assms(3) by force
  then show "avl (bal l x r)"
    using bal_avl_left [OF assms(1,2)] bal_avl_right [OF assms(1,2)] near1 assms(1,2) by cases auto
  show "near 1 l r \<Longrightarrow> height (bal l x r) = 1 + max (height l) (height r)" using near1 by simp
  show "\<not> near 1 l r \<Longrightarrow> height (bal l x r) \<in> {max (height l) (height r), 1 + max (height l) (height r)}"
  proof -
    assume "\<not> near 1 l r"
    then consider "height l = height r + 2" | "height r = height l + 2" using assms(3) by force
    then show ?thesis using bal_avl_left [OF assms(1,2)] bal_avl_right [OF assms(1,2)] by cases auto
  qed
qed

lemma asserted_gives:
  assumes "gives m T K V t" and "avl t"
  shows "gives (asserted m) T K V t"
proof -
  obtain st u where u: "m = Some (st, ptr_of u)" "owns st (add_mset u T) K V" "strip u = t"
    using assms(1) by (rule gives_obtain)
  then have "rep (nodes st) u" "avl u" using assms(2) by (auto simp: owns_def)
  with u show ?thesis by (auto simp: gives_def asserted_def rep_assert_invariants)
qed

lemma rebalance_gives:
  assumes m: "fresh_malloc malloc" and o: "owns st (add_mset l (add_mset r T)) (add_mset k K) (add_mset v V)"
    and avl: "avl l" "avl r" and near: "near 2 l r"
  shows "gives (rebalance malloc st k v (ptr_of l) (ptr_of r)) T K V (bal (strip l) (k, v) (strip r))"
proof -
  have rep: "rep (nodes st) l" "rep (nodes st) r" using o by (simp_all add: owns_def)
  note h = rep_height [OF rep(1)] rep_height [OF rep(2)]
  have res: "avl (bal (strip l) (k, v) (strip r))" using avl near by (intro bal_avl) simp_all
  consider (l) "height l = height r + 2" | (r) "height r = height l + 2" | (n) "near 1 l r" using near by force
  then show ?thesis
  proof cases
    case l
    then obtain ll b kb vb lr where l': "l = Node ll (b, kb, vb) lr" by (cases l) auto
    obtain n where n: "nodes st b = Some n" "an_left n = ptr_of ll" "an_right n = ptr_of lr"
      by (rule owned_node [OF o, of ll b kb vb lr]) (auto simp: l')
    have d: "child_diff st (ptr_of l) = Some (int (height ll) - int (height lr))"
      using rep(1) n rep_height [of st ll] rep_height [of st lr] by (simp add: child_diff_def l')
    show ?thesis
    proof (cases "height lr = height ll + 1")
      case True
      then obtain lrl c kc vc lrr where lr: "lr = Node lrl (c, kc, vc) lrr" by (cases lr) auto
      have "gives (rotate_left_right malloc st k v (Some b) (ptr_of r)) T K V (bal (strip l) (k, v) (strip r))"
        using rotate_left_right_gives [OF m o [unfolded l' lr]] avl True l by (simp add: l' lr bal_def max_def split: if_split_asm)
      from asserted_gives [OF this res] show ?thesis using h d l True by (simp add: rebalance_def l')
    next
      case False
      have "gives (rotate_right malloc st k v (Some b) (ptr_of r)) T K V (bal (strip l) (k, v) (strip r))"
        using rotate_right_gives [OF m o [unfolded l']] avl False l by (simp add: l' bal_def max_def split: if_split_asm)
      from asserted_gives [OF this res] show ?thesis using h d l False by (simp add: rebalance_def l')
    qed
  next
    case r
    then obtain rl b kb vb rr where r': "r = Node rl (b, kb, vb) rr" by (cases r) auto
    obtain n where n: "nodes st b = Some n" "an_left n = ptr_of rl" "an_right n = ptr_of rr"
      by (rule owned_node [OF o, of rl b kb vb rr]) (auto simp: r')
    have d: "child_diff st (ptr_of r) = Some (int (height rl) - int (height rr))"
      using rep(2) n rep_height [of st rl] rep_height [of st rr] by (simp add: child_diff_def r')
    show ?thesis
    proof (cases "height rl = height rr + 1")
      case True
      then obtain rll c kc vc rlr where rl: "rl = Node rll (c, kc, vc) rlr" by (cases rl) auto
      have "gives (rotate_right_left malloc st k v (ptr_of l) (Some b)) T K V (bal (strip l) (k, v) (strip r))"
        using rotate_right_left_gives [OF m o [unfolded r' rl]] avl True r by (simp add: r' rl bal_def max_def split: if_split_asm)
      from asserted_gives [OF this res] show ?thesis using h d r True by (simp add: rebalance_def r')
    next
      case False
      have "gives (rotate_left malloc st k v (ptr_of l) (Some b)) T K V (bal (strip l) (k, v) (strip r))"
        using rotate_left_gives [OF m o [unfolded r']] avl False r by (simp add: r' bal_def max_def split: if_split_asm)
      from asserted_gives [OF this res] show ?thesis using h d r False by (simp add: rebalance_def r')
    qed
  next
    case n
    have "gives (new_node malloc st k v (ptr_of l) (ptr_of r)) T K V (bal (strip l) (k, v) (strip r))"
      using new_gives [OF m o refl refl refl] avl n by (auto simp: bal_def)
    from asserted_gives [OF this res] show ?thesis using h n by (auto simp: rebalance_def)
  qed
qed

lemma strip_avl: "strip u = t \<Longrightarrow> avl t \<Longrightarrow> avl u \<and> height u = height t"
  by (metis avl_strip strip_simps(3))

text \<open>The two ways a path is closed: one child is new, the other is shared.\<close>

lemma close_left_gives:
  assumes m: "fresh_malloc malloc" and o: "owns st (add_mset l' T) (add_mset k K) (add_mset v V)"
    and "reach T r" and l': "strip l' = t" "avl t" and r: "avl r" and near: "near 2 t r"
  shows "gives (do { (st, r) \<leftarrow> ref_node st (ptr_of r); rebalance malloc st k v (ptr_of l') r }) T K V (bal t (k, v) (strip r))"
proof -
  have "reach (add_mset l' T) r" using assms(3) by simp
  then obtain st2 r' where 2: "ref_node st (ptr_of r) = Some (st2, ptr_of r')"
    "owns st2 (add_mset r' (add_mset l' T)) (add_mset k K) (add_mset v V)" "strip r' = strip r"
    by (rule gives_obtain [OF ref_gives [OF o]])
  have "gives (rebalance malloc st2 k v (ptr_of l') (ptr_of r')) T K V (bal (strip l') (k, v) (strip r'))"
    using near 2(2) strip_avl [OF l'] strip_avl [OF 2(3)] r by (intro rebalance_gives [OF m]) (auto simp: add_mset_commute)
  then show ?thesis using 2 l' by simp
qed

lemma close_right_gives:
  assumes m: "fresh_malloc malloc" and o: "owns st (add_mset r' (add_mset l' T)) (add_mset k K) (add_mset v V)"
    and l': "strip l' = strip l" "avl l" and r': "strip r' = t" "avl t" and near: "near 2 l t"
  shows "gives (rebalance malloc st k v (ptr_of l') (ptr_of r')) T K V (bal (strip l) (k, v) t)"
proof -
  have "gives (rebalance malloc st k v (ptr_of l') (ptr_of r')) T K V (bal (strip l') (k, v) (strip r'))"
    using near o strip_avl [OF l'(1)] l'(2) strip_avl [OF r'] by (intro rebalance_gives [OF m]) (auto simp: add_mset_commute)
  then show ?thesis using l' r' by simp
qed

section \<open>Adding a key\<close>

fun t_add :: "('k \<Rightarrow> 'k \<Rightarrow> int) \<Rightarrow> ('k \<times> 'v) tree \<Rightarrow> 'k \<Rightarrow> 'v \<Rightarrow> ('k \<times> 'v) tree" where
  "t_add cmp Leaf k v = Node Leaf (k, v) Leaf"
| "t_add cmp (Node l (a, b) r) k v =
     (if cmp a k = 0 then Node l (k, v) r
      else if cmp a k > 0 then bal (t_add cmp l k v) (a, b) r
      else bal l (a, b) (t_add cmp r k v))"

lemma bal_grown:
  assumes "avl l" "avl r" "near 1 l0 r0" "height l \<in> {height l0, 1 + height l0}" "height r \<in> {height r0, 1 + height r0}"
    "height l = height l0 \<or> height r = height r0"
  shows "avl (bal l x r) \<and> height (bal l x r) \<in> {1 + max (height l0) (height r0), 2 + max (height l0) (height r0)}"
proof -
  have near: "near 2 l r" using assms(3-5) by auto
  have "height (bal l x r) \<in> {1 + max (height l0) (height r0), 2 + max (height l0) (height r0)}"
  proof (cases "near 1 l r")
    case True
    from bal_avl(2) [OF assms(1,2) near this, of x] assms(4-6) show ?thesis by auto
  next
    case False
    from bal_avl(3) [OF assms(1,2) near this, of x] False assms(3-6) show ?thesis by auto
  qed
  then show ?thesis using bal_avl(1) [OF assms(1,2) near] by simp
qed

lemma t_add_avl: "avl t \<Longrightarrow> avl (t_add cmp t k v) \<and> height (t_add cmp t k v) \<in> {height t, 1 + height t}"
proof (induction cmp t k v rule: t_add.induct)
  case (2 cmp l a b r k v)
  consider (eq) "cmp a k = 0" | (lt) "cmp a k > 0" | (gt) "cmp a k < 0" by linarith
  then show ?case
  proof cases
    case eq
    then show ?thesis using 2 by simp
  next
    case lt
    with 2 bal_grown [of "t_add cmp l k v" r l r "(a, b)"] show ?thesis by auto
  next
    case gt
    with 2 bal_grown [of l "t_add cmp r k v" l r "(a, b)"] show ?thesis by auto
  qed
qed simp

lemma add_key_gives:
  assumes m: "fresh_malloc malloc"
  shows "owns st T (add_mset k K) (add_mset v V) \<Longrightarrow> reach T s \<Longrightarrow> avl s \<Longrightarrow> height s \<le> f \<Longrightarrow>
    gives (add_key malloc cmp f st (ptr_of s) k v) T K V (t_add cmp (strip s) k v)"
proof (induction s arbitrary: st T K V f)
  case Leaf
  have "owns st (add_mset Leaf (add_mset Leaf T)) (add_mset k K) (add_mset v V)"
    using Leaf.prems(1) by (simp add: owns_def)
  from new_gives [OF m this refl refl refl] show ?case by simp
next
  case (Node l x r)
  obtain a ka va where x: "x = (a, ka, va)" by (cases x)
  obtain f' where f: "f = Suc f'" "height l \<le> f'" "height r \<le> f'" using Node.prems(4) by (cases f) auto
  have near: "near 1 l r" and avl: "avl l" "avl r" using Node.prems(3) by simp_all
  note reach = reach_kids [OF Node.prems(2)]
  obtain n where n: "nodes st a = Some n" "an_key n = ka" "an_value n = va" "an_left n = ptr_of l" "an_right n = ptr_of r"
    using Node.prems(1,2) unfolding x by (rule owned_node)
  have o: "owns (copy_value (copy_key st ka) va) T (add_mset k (add_mset ka K)) (add_mset v (add_mset va V))"
    using copy_owns [OF Node.prems(1), of ka va] by (simp add: add_mset_commute)
  consider (eq) "cmp ka k = 0" | (lt) "cmp ka k > 0" | (gt) "cmp ka k < 0" by linarith
  then show ?case
  proof cases
    case eq
    obtain st1 l' where 1: "ref_node st (ptr_of l) = Some (st1, ptr_of l')"
      "owns st1 (add_mset l' T) (add_mset k K) (add_mset v V)" "strip l' = strip l"
      by (rule gives_obtain [OF ref_gives [OF Node.prems(1) reach(1)]])
    have "reach (add_mset l' T) r" using reach by simp
    then obtain st2 r' where 2: "ref_node st1 (ptr_of r) = Some (st2, ptr_of r')"
      "owns st2 (add_mset r' (add_mset l' T)) (add_mset k K) (add_mset v V)" "strip r' = strip r"
      by (rule gives_obtain [OF ref_gives [OF 1(2)]])
    have "gives (new_node malloc st2 k v (ptr_of l') (ptr_of r')) T K V (Node (strip l') (k, v) (strip r'))"
      using avl 1(3) 2(3) by (intro new_gives [OF m 2(2)]) (simp_all add: add_mset_commute)
    then show ?thesis using n 1 2 eq by (simp add: x f(1))
  next
    case lt
    obtain st1 l' where 1: "add_key malloc cmp f' (copy_value (copy_key st ka) va) (ptr_of l) k v = Some (st1, ptr_of l')"
      "owns st1 (add_mset l' T) (add_mset ka K) (add_mset va V)" "strip l' = t_add cmp (strip l) k v"
      by (rule gives_obtain [OF Node.IH(1) [OF o reach(1) avl(1) f(2)]])
    have "gives (do { (st, r) \<leftarrow> ref_node st1 (ptr_of r); rebalance malloc st ka va (ptr_of l') r }) T K V
        (bal (t_add cmp (strip l) k v) (ka, va) (strip r))"
      using t_add_avl [of "strip l" cmp k v] avl near
      by (intro close_left_gives [OF m 1(2) reach(2) 1(3)]) auto
    then show ?thesis using n 1 lt by (simp add: x f(1) Let_def)
  next
    case gt
    obtain st1 l' where 1: "ref_node (copy_value (copy_key st ka) va) (ptr_of l) = Some (st1, ptr_of l')"
      "owns st1 (add_mset l' T) (add_mset k (add_mset ka K)) (add_mset v (add_mset va V))" "strip l' = strip l"
      by (rule gives_obtain [OF ref_gives [OF o reach(1)]])
    have "reach (add_mset l' T) r" using reach by simp
    then obtain st2 r' where 2: "add_key malloc cmp f' st1 (ptr_of r) k v = Some (st2, ptr_of r')"
      "owns st2 (add_mset r' (add_mset l' T)) (add_mset ka K) (add_mset va V)" "strip r' = t_add cmp (strip r) k v"
      by (rule gives_obtain [OF Node.IH(2) [OF 1(2) _ avl(2) f(3)]])
    have "gives (rebalance malloc st2 ka va (ptr_of l') (ptr_of r')) T K V (bal (strip l) (ka, va) (t_add cmp (strip r) k v))"
      using t_add_avl [of "strip r" cmp k v] avl near
      by (intro close_right_gives [OF m 2(2) 1(3) avl(1) 2(3)]) auto
    then show ?thesis using n 1 2 gt by (simp add: x f(1) Let_def)
  qed
qed

section \<open>Removing a key\<close>

fun t_remove :: "('k \<Rightarrow> 'k \<Rightarrow> int) \<Rightarrow> ('k \<times> 'v) tree \<Rightarrow> 'k \<Rightarrow> ('k \<times> 'v) tree" where
  "t_remove cmp Leaf k = Leaf"
| "t_remove cmp (Node l (a, b) r) k =
     (if cmp a k = 0 then
        (if l = Leaf then r else if r = Leaf then l
         else if height l < height r then bal l (hd (inorder r)) (t_remove cmp r (fst (hd (inorder r))))
         else bal (t_remove cmp l (fst (last (inorder l)))) (last (inorder l)) r)
      else if cmp a k > 0 then bal (t_remove cmp l k) (a, b) r
      else bal l (a, b) (t_remove cmp r k))"

lemma bal_shrunk:
  assumes "avl l" "avl r" "near 1 l0 r0" "height l = height l0 \<or> 1 + height l = height l0"
    "height r = height r0 \<or> 1 + height r = height r0" "height l = height l0 \<or> height r = height r0"
  shows "near 2 l r \<and> avl (bal l x r) \<and> (height (bal l x r) = 1 + max (height l0) (height r0) \<or> height (bal l x r) = max (height l0) (height r0))"
proof -
  have near: "near 2 l r" using assms(3-5) by auto
  have "height (bal l x r) = 1 + max (height l0) (height r0) \<or> height (bal l x r) = max (height l0) (height r0)"
  proof (cases "near 1 l r")
    case True
    from bal_avl(2) [OF assms(1,2) near this, of x] assms(4-6) show ?thesis by auto
  next
    case False
    from bal_avl(3) [OF assms(1,2) near this, of x] False assms(3-6) show ?thesis by auto
  qed
  then show ?thesis using bal_avl(1) [OF assms(1,2) near] near by simp
qed

lemma t_remove_avl:
  "avl t \<Longrightarrow> avl (t_remove cmp t k) \<and> (height (t_remove cmp t k) = height t \<or> 1 + height (t_remove cmp t k) = height t)"
proof (induction cmp t k rule: t_remove.induct)
  case (2 cmp l a b r k)
  note L = bal_shrunk [of "t_remove cmp l _" r l r] and R = bal_shrunk [of l "t_remove cmp r _" l r]
  consider (none) "cmp a k = 0" "l = Leaf \<or> r = Leaf"
    | (head) "cmp a k = 0" "l \<noteq> Leaf" "r \<noteq> Leaf" "height l < height r"
    | (tail) "cmp a k = 0" "l \<noteq> Leaf" "r \<noteq> Leaf" "\<not> height l < height r"
    | (lt) "cmp a k > 0" | (gt) "cmp a k < 0" by linarith
  then show ?case
  proof cases
    case none
    then show ?thesis using 2(5) by auto
  next
    case head
    from 2(1) [OF head] 2(5) R [of "fst (hd (inorder r))" "hd (inorder r)"] head show ?thesis by auto
  next
    case tail
    from 2(2) [OF tail] 2(5) L [of "fst (last (inorder l))" "last (inorder l)"] tail show ?thesis by auto
  next
    case lt
    then show ?thesis using 2(3) 2(5) L [of k "(a, b)"] by auto
  next
    case gt
    then show ?thesis using 2(4) 2(5) R [of k "(a, b)"] by auto
  qed
qed simp

lemma in_order_head_rep:
  "rep (nodes st) (Node l (a, k, v) r) \<Longrightarrow> height l \<le> f \<Longrightarrow>
    \<exists>n. in_order_head f st a = Some n \<and> (an_key n, an_value n) = hd (inorder (strip (Node l (a, k, v) r)))"
proof (induction l arbitrary: a k v r f)
  case Leaf
  then show ?case by (auto simp: content_def in_order_head.simps [of f])
next
  case (Node ll x lr)
  obtain b kb vb where x: "x = (b, kb, vb)" by (cases x)
  obtain f' where f: "f = Suc f'" "height ll \<le> f'" using Node.prems(2) by (cases f) auto
  have "rep (nodes st) (Node ll (b, kb, vb) lr)" using Node.prems(1) by (simp add: x)
  from Node.IH(1) [OF this f(2)] obtain n where
    "in_order_head f' st b = Some n" "(an_key n, an_value n) = hd (inorder (strip (Node ll (b, kb, vb) lr)))" by blast
  moreover obtain m where "nodes st a = Some m" "an_left m = Some b"
    using Node.prems(1) by (auto simp: x content_def)
  ultimately show ?case by (auto simp: in_order_head.simps [of "Suc f'"] f(1) x hd_append)
qed

lemma in_order_tail_rep:
  "rep (nodes st) (Node l (a, k, v) r) \<Longrightarrow> height r \<le> f \<Longrightarrow>
    \<exists>n. in_order_tail f st a = Some n \<and> (an_key n, an_value n) = last (inorder (strip (Node l (a, k, v) r)))"
proof (induction r arbitrary: a k v l f)
  case Leaf
  then show ?case by (auto simp: content_def in_order_tail.simps [of f])
next
  case (Node rl x rr)
  obtain b kb vb where x: "x = (b, kb, vb)" by (cases x)
  obtain f' where f: "f = Suc f'" "height rr \<le> f'" using Node.prems(2) by (cases f) auto
  have "rep (nodes st) (Node rl (b, kb, vb) rr)" using Node.prems(1) by (simp add: x)
  from Node.IH(2) [OF this f(2)] obtain n where
    "in_order_tail f' st b = Some n" "(an_key n, an_value n) = last (inorder (strip (Node rl (b, kb, vb) rr)))" by blast
  moreover obtain m where "nodes st a = Some m" "an_right m = Some b"
    using Node.prems(1) by (auto simp: x content_def)
  ultimately show ?case by (auto simp: in_order_tail.simps [of "Suc f'"] f(1) x)
qed

lemma remove_key_gives:
  assumes m: "fresh_malloc malloc"
  shows "owns st T K V \<Longrightarrow> reach T s \<Longrightarrow> avl s \<Longrightarrow> height s \<le> f \<Longrightarrow>
    gives (remove_key malloc cmp f st (ptr_of s) k) T K V (t_remove cmp (strip s) k)"
proof (induction s arbitrary: st T K V f k)
  case Leaf
  have "owns st (add_mset Leaf T) K V" using Leaf.prems(1) by (simp add: owns_def)
  then show ?case unfolding gives_def by (intro exI [of _ st] exI [of _ Leaf]) simp
next
  case (Node l x r)
  obtain a ka va where x: "x = (a, ka, va)" by (cases x)
  obtain f' where f: "f = Suc f'" "height l \<le> f'" "height r \<le> f'" using Node.prems(4) by (cases f) auto
  have near: "near 1 l r" and avl: "avl l" "avl r" using Node.prems(3) by simp_all
  note reach = reach_kids [OF Node.prems(2)]
  obtain n where n: "nodes st a = Some n" "an_key n = ka" "an_value n = va" "an_left n = ptr_of l" "an_right n = ptr_of r"
    using Node.prems(1,2) unfolding x by (rule owned_node)
  have left: "gives (do { let st = copy_value (copy_key st kb) vb; (st, l) \<leftarrow> remove_key malloc cmp f' st (ptr_of l) k';
        (st, r) \<leftarrow> ref_node st (ptr_of r); rebalance malloc st kb vb l r }) T K V
      (bal (t_remove cmp (strip l) k') (kb, vb) (strip r))" for k' kb vb
  proof -
    obtain st1 l' where 1: "remove_key malloc cmp f' (copy_value (copy_key st kb) vb) (ptr_of l) k' = Some (st1, ptr_of l')"
      "owns st1 (add_mset l' T) (add_mset kb K) (add_mset vb V)" "strip l' = t_remove cmp (strip l) k'"
      by (rule gives_obtain [OF Node.IH(1) [OF copy_owns [OF Node.prems(1)] reach(1) avl(1) f(2)]])
    have "gives (do { (st, r) \<leftarrow> ref_node st1 (ptr_of r); rebalance malloc st kb vb (ptr_of l') r }) T K V
        (bal (t_remove cmp (strip l) k') (kb, vb) (strip r))"
      using t_remove_avl [of "strip l" cmp k'] avl near by (intro close_left_gives [OF m 1(2) reach(2) 1(3)]) auto
    then show ?thesis using 1 by (simp add: Let_def)
  qed
  have right: "gives (do { let st = copy_value (copy_key st kb) vb; (st, l) \<leftarrow> ref_node st (ptr_of l);
        (st, r) \<leftarrow> remove_key malloc cmp f' st (ptr_of r) k'; rebalance malloc st kb vb l r }) T K V
      (bal (strip l) (kb, vb) (t_remove cmp (strip r) k'))" for k' kb vb
  proof -
    obtain st1 l' where 1: "ref_node (copy_value (copy_key st kb) vb) (ptr_of l) = Some (st1, ptr_of l')"
      "owns st1 (add_mset l' T) (add_mset kb K) (add_mset vb V)" "strip l' = strip l"
      by (rule gives_obtain [OF ref_gives [OF copy_owns [OF Node.prems(1)] reach(1)]])
    have "reach (add_mset l' T) r" using reach by simp
    then obtain st2 r' where 2: "remove_key malloc cmp f' st1 (ptr_of r) k' = Some (st2, ptr_of r')"
      "owns st2 (add_mset r' (add_mset l' T)) (add_mset kb K) (add_mset vb V)" "strip r' = t_remove cmp (strip r) k'"
      by (rule gives_obtain [OF Node.IH(2) [OF 1(2) _ avl(2) f(3)]])
    have "gives (rebalance malloc st2 kb vb (ptr_of l') (ptr_of r')) T K V (bal (strip l) (kb, vb) (t_remove cmp (strip r) k'))"
      using t_remove_avl [of "strip r" cmp k'] avl near by (intro close_right_gives [OF m 2(2) 1(3) avl(1) 2(3)]) auto
    then show ?thesis using 1 2 by (simp add: Let_def)
  qed
  consider (gt) "cmp ka k < 0" | (lt) "cmp ka k > 0" | (none) "cmp ka k = 0" "l = Leaf \<or> r = Leaf"
    | (both) ll b kb vb lr rl c kc vc rr where "cmp ka k = 0" "l = Node ll (b, kb, vb) lr" "r = Node rl (c, kc, vc) rr"
    by (cases l rule: ptr_of.cases; cases r rule: ptr_of.cases) (auto, (metis linorder_neqE_linordered_idom)+)
  then show ?case
  proof cases
    case lt
    then show ?thesis using n left [of ka va k] by (simp add: x f(1) Let_def)
  next
    case gt
    then show ?thesis using n right [of ka va k] by (simp add: x f(1) Let_def)
  next
    case none
    then show ?thesis using n ref_gives [OF Node.prems(1) reach(1)] ref_gives [OF Node.prems(1) reach(2)]
      by (cases l rule: ptr_of.cases; cases r rule: ptr_of.cases) (auto simp: x f(1))
  next
    case both
    have rep: "rep (nodes st) l" "rep (nodes st) r" using owns_rep [OF Node.prems(1)] reach by auto
    obtain ln where ln: "nodes st b = Some ln" "an_height ln = int (height l)" using rep(1) by (auto simp: both content_def)
    obtain rn where rn: "nodes st c = Some rn" "an_height rn = int (height r)" using rep(2) by (auto simp: both content_def)
    have kids: "height rl \<le> f'" "height lr \<le> f'" using f by (simp_all add: both)
    obtain h where h: "in_order_head f' st c = Some h" "(an_key h, an_value h) = hd (inorder (strip r))"
      using in_order_head_rep [OF rep(2) [unfolded both(3)] kids(1)] unfolding both(3) by blast
    obtain t where t: "in_order_tail f' st b = Some t" "(an_key t, an_value t) = last (inorder (strip l))"
      using in_order_tail_rep [OF rep(1) [unfolded both(2)] kids(2)] unfolding both(2) by blast
    have key: "fst (hd (inorder (strip r))) = an_key h" "fst (last (inorder (strip l))) = an_key t"
      using h(2) t(2) by (metis fst_conv)+
    have ne: "strip l \<noteq> Leaf" "strip r \<noteq> Leaf" by (simp_all add: both)
    have ptr: "ptr_of l = Some b" "ptr_of r = Some c" by (simp_all add: both)
    show ?thesis
    proof (cases "height l < height r")
      case True
      then show ?thesis using n ln rn h(1) right [of "an_key h" "an_value h" "an_key h"] both(1) ne
        by (simp add: x f(1) ptr h(2) key Let_def)
    next
      case False
      then show ?thesis using n ln rn t(1) left [of "an_key t" "an_value t" "an_key t"] both(1) ne
        by (simp add: x f(1) ptr t(2) key Let_def)
    qed
  qed
qed

section \<open>The map of a tree\<close>

text \<open>
  What \<open>avl.h\<close> asks of \<open>compare_keys\<close>: the sign says how the keys are ordered, here by their rank in
  some linear order.
\<close>

definition compares :: "('k \<Rightarrow> 'k \<Rightarrow> int) \<Rightarrow> ('k \<Rightarrow> 'r::linorder) \<Rightarrow> bool" where
  "compares cmp rank \<longleftrightarrow> (\<forall>a b. (cmp a b < 0 \<longleftrightarrow> rank a < rank b) \<and> (cmp a b > 0 \<longleftrightarrow> rank b < rank a))"

lemma compares_iff:
  assumes "compares cmp rank"
  shows "cmp a b < 0 \<longleftrightarrow> rank a < rank b" "cmp a b > 0 \<longleftrightarrow> rank b < rank a" "cmp a b = 0 \<longleftrightarrow> rank a = rank b"
proof -
  show *: "cmp a b < 0 \<longleftrightarrow> rank a < rank b" "cmp a b > 0 \<longleftrightarrow> rank b < rank a"
    using assms by (simp_all add: compares_def)
  have "cmp a b = 0 \<longleftrightarrow> \<not> cmp a b < 0 \<and> \<not> cmp a b > 0" by linarith
  then show "cmp a b = 0 \<longleftrightarrow> rank a = rank b" unfolding * by auto
qed

definition ranks :: "('k \<Rightarrow> 'r) \<Rightarrow> ('k \<times> 'v) list \<Rightarrow> 'r list" where
  "ranks rank xs = map (rank \<circ> fst) xs"

definition ordered :: "('k \<Rightarrow> 'r::linorder) \<Rightarrow> ('k \<times> 'v) list \<Rightarrow> bool" where
  "ordered rank xs \<longleftrightarrow> sorted_wrt (<) (ranks rank xs)"

definition amap :: "('k \<Rightarrow> 'r) \<Rightarrow> ('k \<times> 'v) list \<Rightarrow> 'r \<rightharpoonup> 'v" where
  "amap rank xs = map_of (map (\<lambda>(k, v). (rank k, v)) xs)"

lemma amap_simps [simp]:
  "amap rank [] = Map.empty" "amap rank ((k, v) # xs) = (amap rank xs)(rank k \<mapsto> v)"
  "amap rank (xs @ ys) = amap rank ys ++ amap rank xs"
  by (simp_all add: amap_def)

lemma amap_dom: "dom (amap rank xs) = rank ` fst ` set xs"
  by (force simp: amap_def dom_map_of_conv_image_fst)

lemma ordered_append:
  "ordered rank (xs @ (k, v) # ys) \<longleftrightarrow> ordered rank xs \<and> ordered rank ys
    \<and> (\<forall>x\<in>set xs. rank (fst x) < rank k) \<and> (\<forall>y\<in>set ys. rank k < rank (fst y))"
  by (auto simp: ordered_def ranks_def sorted_wrt_append) (metis fst_conv less_trans)

definition upd :: "('k \<Rightarrow> 'r::linorder) \<Rightarrow> 'k \<Rightarrow> 'v \<Rightarrow> ('k \<times> 'v) list \<Rightarrow> ('k \<times> 'v) list" where
  "upd rank k v xs = filter (\<lambda>x. rank (fst x) < rank k) xs @ (k, v) # filter (\<lambda>x. rank k < rank (fst x)) xs"

definition del :: "('k \<Rightarrow> 'r) \<Rightarrow> 'k \<Rightarrow> ('k \<times> 'v) list \<Rightarrow> ('k \<times> 'v) list" where
  "del rank k xs = filter (\<lambda>x. rank (fst x) \<noteq> rank k) xs"

lemma filter_all: "(\<forall>x\<in>set xs. P x) \<Longrightarrow> filter P xs = xs"
  by (induction xs) auto

lemma filter_none: "(\<forall>x\<in>set xs. \<not> P x) \<Longrightarrow> filter P xs = []"
  by (induction xs) auto

lemma ordered_filter: "ordered rank xs \<Longrightarrow> ordered rank (filter P xs)"
  by (induction xs) (auto simp: ordered_def ranks_def)

lemma ordered_upd: "ordered rank xs \<Longrightarrow> ordered rank (upd rank k v xs)"
  by (simp add: upd_def ordered_append ordered_filter)

lemma amap_filter: "ordered rank xs \<Longrightarrow> amap rank (filter (\<lambda>x. P (rank (fst x))) xs) = amap rank xs |` {a. P a}"
proof (induction xs)
  case (Cons x xs)
  obtain k v where x: "x = (k, v)" by (cases x)
  have "ordered rank xs" using Cons.prems by (simp add: ordered_def ranks_def)
  moreover have "rank k \<notin> dom (amap rank xs)" using Cons.prems by (auto simp: x ordered_def ranks_def amap_dom)
  then have "\<not> P (rank k) \<Longrightarrow> amap rank xs |` {a. P a} = ((amap rank xs)(rank k \<mapsto> v)) |` {a. P a}"
    by (auto simp: restrict_map_def fun_eq_iff)
  ultimately show ?case using Cons.IH by (auto simp: x restrict_map_def fun_eq_iff)
qed simp

lemma amap_upd: "ordered rank xs \<Longrightarrow> amap rank (upd rank k v xs) = (amap rank xs)(rank k \<mapsto> v)"
  using amap_filter [of rank xs "\<lambda>a. a < rank k"] amap_filter [of rank xs "\<lambda>a. rank k < a"]
  by (auto simp: upd_def fun_eq_iff restrict_map_def map_add_def split: option.split)

lemma amap_del: "ordered rank xs \<Longrightarrow> amap rank (del rank k xs) = (amap rank xs)(rank k := None)"
  using amap_filter [of rank xs "\<lambda>a. a \<noteq> rank k"] by (auto simp: del_def restrict_map_def fun_eq_iff)

lemma upd_del_append:
  assumes "ordered rank (xs @ (a, b) # ys)"
  shows "rank k < rank a \<Longrightarrow> upd rank k v (xs @ (a, b) # ys) = upd rank k v xs @ (a, b) # ys"
    and "rank a < rank k \<Longrightarrow> upd rank k v (xs @ (a, b) # ys) = xs @ (a, b) # upd rank k v ys"
    and "rank a = rank k \<Longrightarrow> upd rank k v (xs @ (a, b) # ys) = xs @ (k, v) # ys"
    and "rank k < rank a \<Longrightarrow> del rank k (xs @ (a, b) # ys) = del rank k xs @ (a, b) # ys"
    and "rank a < rank k \<Longrightarrow> del rank k (xs @ (a, b) # ys) = xs @ (a, b) # del rank k ys"
    and "rank a = rank k \<Longrightarrow> del rank k (xs @ (a, b) # ys) = xs @ ys"
proof -
  have xs: "\<forall>x\<in>set xs. rank (fst x) < rank a" and ys: "\<forall>y\<in>set ys. rank a < rank (fst y)"
    using assms by (simp_all add: ordered_append)
  have ys': "\<forall>y\<in>set ys. rank k < rank (fst y)" if "rank k \<le> rank a" using ys that by (meson le_less_trans)
  have xs': "\<forall>x\<in>set xs. rank (fst x) < rank k" if "rank a \<le> rank k" using xs that by (meson less_le_trans)
  have below: "filter (\<lambda>x. rank (fst x) < rank k) ys = []" "filter (\<lambda>x. rank k < rank (fst x)) ys = ys"
    "filter (\<lambda>x. rank (fst x) \<noteq> rank k) ys = ys" if "rank k \<le> rank a"
    using ys' [OF that] by (auto intro!: filter_none filter_all)
  have above: "filter (\<lambda>x. rank (fst x) < rank k) xs = xs" "filter (\<lambda>x. rank k < rank (fst x)) xs = []"
    "filter (\<lambda>x. rank (fst x) \<noteq> rank k) xs = xs" if "rank a \<le> rank k"
    using xs' [OF that] by (auto intro!: filter_none filter_all)
  show "rank k < rank a \<Longrightarrow> upd rank k v (xs @ (a, b) # ys) = upd rank k v xs @ (a, b) # ys"
    "rank a < rank k \<Longrightarrow> upd rank k v (xs @ (a, b) # ys) = xs @ (a, b) # upd rank k v ys"
    "rank a = rank k \<Longrightarrow> upd rank k v (xs @ (a, b) # ys) = xs @ (k, v) # ys"
    "rank k < rank a \<Longrightarrow> del rank k (xs @ (a, b) # ys) = del rank k xs @ (a, b) # ys"
    "rank a < rank k \<Longrightarrow> del rank k (xs @ (a, b) # ys) = xs @ (a, b) # del rank k ys"
    "rank a = rank k \<Longrightarrow> del rank k (xs @ (a, b) # ys) = xs @ ys"
    using below above by (simp_all add: upd_def del_def)
qed

lemma t_add_inorder:
  assumes "compares cmp rank"
  shows "ordered rank (inorder t) \<Longrightarrow> inorder (t_add cmp t k v) = upd rank k v (inorder t)"
proof (induction t)
  case (Node l x r)
  obtain a b where x: "x = (a, b)" by (cases x)
  have o: "ordered rank (inorder l @ (a, b) # inorder r)" "ordered rank (inorder l)" "ordered rank (inorder r)"
    using Node.prems by (simp_all add: x ordered_append)
  consider "rank k < rank a" | "rank a < rank k" | "rank a = rank k" by fastforce
  then show ?case using Node.IH o(2,3) upd_del_append(1-3) [OF o(1), of k v]
    by cases (auto simp: x bal_inorder compares_iff [OF assms])
qed (simp add: upd_def)

lemma del_hd:
  assumes "ordered rank xs" and "xs \<noteq> []"
  shows "hd xs # del rank (fst (hd xs)) xs = xs"
proof -
  obtain a b ys where "xs = (a, b) # ys" using assms(2) by (cases xs) auto
  then show ?thesis using upd_del_append(6) [of rank "[]" a b ys a] assms(1) by simp
qed

lemma del_last:
  assumes "ordered rank xs" and "xs \<noteq> []"
  shows "del rank (fst (last xs)) xs @ [last xs] = xs"
proof -
  obtain a b ys where "xs = ys @ [(a, b)]" using assms(2) by (cases xs rule: rev_cases) auto
  then show ?thesis using upd_del_append(6) [of rank ys a b "[]" a] assms(1) by simp
qed

lemma t_remove_inorder:
  assumes "compares cmp rank"
  shows "ordered rank (inorder t) \<Longrightarrow> inorder (t_remove cmp t k) = del rank k (inorder t)"
proof (induction t arbitrary: k)
  case (Node l x r)
  obtain a b where x: "x = (a, b)" by (cases x)
  have o: "ordered rank (inorder l @ (a, b) # inorder r)" "ordered rank (inorder l)" "ordered rank (inorder r)"
    using Node.prems by (simp_all add: x ordered_append)
  note del = upd_del_append(4-6) [OF o(1), of k]
  consider "rank k < rank a" | "rank a < rank k" | (eq) "rank a = rank k" by fastforce
  then show ?case
  proof cases
    case eq
    then show ?thesis using del(3) Node.IH o(2,3) del_hd [OF o(3)] del_last [OF o(2)]
      by (auto simp: x bal_inorder compares_iff [OF assms])
  qed (use Node.IH o(2,3) del in \<open>auto simp: x bal_inorder compares_iff [OF assms]\<close>)
qed (simp add: del_def)

definition hit :: "('k, 'v) avl_store \<Rightarrow> 'v option \<Rightarrow> ptr \<Rightarrow> bool" where
  "hit st v p \<longleftrightarrow> (case p of None \<Rightarrow> v = None | Some a \<Rightarrow> \<exists>n. nodes st a = Some n \<and> v = Some (an_value n))"

lemma get_loop_rep:
  assumes "compares cmp rank"
  shows "rep (nodes st) t \<Longrightarrow> ordered rank (inorder (strip t)) \<Longrightarrow> height t \<le> f \<Longrightarrow>
    \<exists>p. get_loop cmp f st (ptr_of t) k = Some p \<and> hit st (amap rank (inorder (strip t)) (rank k)) p"
proof (induction t arbitrary: f)
  case (Node l x r)
  obtain a ka va where x: "x = (a, ka, va)" by (cases x)
  obtain f' where f: "f = Suc f'" "height l \<le> f'" "height r \<le> f'" using Node.prems(3) by (cases f) auto
  obtain n where n: "nodes st a = Some n" "an_key n = ka" "an_value n = va" "an_left n = ptr_of l" "an_right n = ptr_of r"
    and rep: "rep (nodes st) l" "rep (nodes st) r" using Node.prems(1) unfolding x by (rule rep_Node)
  let ?L = "inorder (strip l)" and ?R = "inorder (strip r)"
  have o: "ordered rank ?L" "ordered rank ?R" "\<forall>x\<in>set ?L. rank (fst x) < rank ka" "\<forall>y\<in>set ?R. rank ka < rank (fst y)"
    using Node.prems(2) by (simp_all add: x ordered_append)
  have dom: "rank k \<notin> dom (amap rank ?R)" if "rank k \<le> rank ka" using o(4) that by (auto simp: amap_dom)
  have dom': "rank k \<notin> dom (amap rank ?L)" if "rank ka \<le> rank k" using o(3) that by (auto simp: amap_dom)
  have amap: "amap rank (inorder (strip (Node l x r))) = (amap rank ?R)(rank ka \<mapsto> va) ++ amap rank ?L" by (simp add: x)
  consider (lt) "rank k < rank ka" | (gt) "rank ka < rank k" | (eq) "rank ka = rank k" by fastforce
  then show ?case
  proof cases
    case lt
    then have "amap rank (inorder (strip (Node l x r))) (rank k) = amap rank ?L (rank k)"
      using dom unfolding amap by (auto simp: map_add_def domIff split: option.split)
    moreover have "get_loop cmp f st (ptr_of (Node l x r)) k = get_loop cmp f' st (ptr_of l) k"
      using lt n by (auto simp: x f(1) compares_iff [OF assms])
    ultimately show ?thesis using Node.IH(1) [OF rep(1) o(1) f(2)] by simp
  next
    case gt
    then have "amap rank (inorder (strip (Node l x r))) (rank k) = amap rank ?R (rank k)"
      using dom' unfolding amap by (auto simp: map_add_def domIff split: option.split)
    moreover have "get_loop cmp f st (ptr_of (Node l x r)) k = get_loop cmp f' st (ptr_of r) k"
      using gt n by (auto simp: x f(1) compares_iff [OF assms])
    ultimately show ?thesis using Node.IH(2) [OF rep(2) o(2) f(3)] by simp
  next
    case eq
    then have "amap rank (inorder (strip (Node l x r))) (rank k) = Some va"
      using dom' unfolding amap by (auto simp: map_add_def domIff split: option.split)
    moreover have "get_loop cmp f st (ptr_of (Node l x r)) k = Some (Some a)"
      using eq n by (auto simp: x f(1) compares_iff [OF assms])
    ultimately show ?thesis using n by (simp add: hit_def)
  qed
qed (simp add: hit_def)

section \<open>The functions of the interface\<close>

lemma release_gives:
  assumes "gives m (add_mset s T) K V t" and "avl t"
  shows "gives (do { (st, root') \<leftarrow> m; assert_invariants st root'; st \<leftarrow> unref_node st (ptr_of s); Some (st, root') }) T K V t"
proof -
  obtain st u where u: "m = Some (st, ptr_of u)" "owns st (add_mset u (add_mset s T)) K V" "strip u = t"
    using assms(1) by (rule gives_obtain)
  have "rep (nodes st) u" "avl u" using u assms(2) by (auto simp: owns_def)
  with unref_gives [OF u(2) refl u(3)] show ?thesis by (simp add: u(1) rep_assert_invariants)
qed

lemma grpc_avl_add_gives:
  assumes "fresh_malloc malloc" and "owns st (add_mset s T) (add_mset k K) (add_mset v V)" and "avl s"
  shows "gives (grpc_avl_add malloc cmp st (ptr_of s) k v) T K V (t_add cmp (strip s) k v)"
proof -
  have "rep (nodes st) s" using assms(2) by (simp add: owns_def)
  then have "gives (add_key malloc cmp (fuel st (ptr_of s)) st (ptr_of s) k v) (add_mset s T) K V (t_add cmp (strip s) k v)"
    using add_key_gives [OF assms(1,2) _ assms(3)] by (simp add: rep_fuel)
  from release_gives [OF this] t_add_avl [of "strip s" cmp k v] assms(3) show ?thesis by (simp add: grpc_avl_add_def)
qed

lemma grpc_avl_remove_gives:
  assumes "fresh_malloc malloc" and "owns st (add_mset s T) K V" and "avl s"
  shows "gives (grpc_avl_remove malloc cmp st (ptr_of s) k) T K V (t_remove cmp (strip s) k)"
proof -
  have "rep (nodes st) s" using assms(2) by (simp add: owns_def)
  then have "gives (remove_key malloc cmp (fuel st (ptr_of s)) st (ptr_of s) k) (add_mset s T) K V (t_remove cmp (strip s) k)"
    using remove_key_gives [OF assms(1,2) _ assms(3)] by (simp add: rep_fuel)
  from release_gives [OF this] t_remove_avl [of "strip s" cmp k] assms(3) show ?thesis by (simp add: grpc_avl_remove_def)
qed

lemma grpc_avl_gets:
  assumes "compares cmp rank" and "owns st T K V" and "s \<in># T" and "ordered rank (inorder (strip s))"
  shows "grpc_avl_maybe_get cmp st (ptr_of s) k = Some (amap rank (inorder (strip s)) (rank k))"
    and "grpc_avl_get null cmp st (ptr_of s) k =
      Some (case amap rank (inorder (strip s)) (rank k) of None \<Rightarrow> null | Some v \<Rightarrow> v)"
proof -
  have rep: "rep (nodes st) s" using assms(2,3) by (simp add: owns_def)
  from get_loop_rep [OF assms(1) this assms(4) le_refl, of k]
  show "grpc_avl_maybe_get cmp st (ptr_of s) k = Some (amap rank (inorder (strip s)) (rank k))"
    "grpc_avl_get null cmp st (ptr_of s) k =
      Some (case amap rank (inorder (strip s)) (rank k) of None \<Rightarrow> null | Some v \<Rightarrow> v)"
    by (auto simp: grpc_avl_maybe_get_def grpc_avl_get_def rep_fuel [OF rep] hit_def split: option.splits)
qed

section \<open>Runs\<close>

text \<open>
  A client holds a list of trees. \<open>Unref\<close>, \<open>Add\<close> and \<open>Remove\<close> consume the reference they are given; \<open>Add\<close> and
  \<open>Remove\<close> put the new tree in its place. The key and the value of \<open>Add\<close> are made by the client
  and given away.
\<close>

datatype ('k, 'v) avl_op = Create | Ref nat | Unref nat | Add nat 'k 'v | Remove nat 'k
  | Get nat 'k | Maybe_get nat 'k | Is_empty nat

datatype 'v avl_out = Done | Value 'v | Maybe "'v option" | Flag bool

definition without :: "nat \<Rightarrow> 'a list \<Rightarrow> 'a list" where
  "without i xs = take i xs @ drop (Suc i) xs"

fun avl_step :: "malloc \<Rightarrow> ('k \<Rightarrow> 'k \<Rightarrow> int) \<Rightarrow> 'v \<Rightarrow> ('k, 'v) avl_op \<Rightarrow>
    ('k, 'v) avl_store \<times> ptr list \<Rightarrow> ((('k, 'v) avl_store \<times> ptr list) \<times> 'v avl_out) option" where
  "avl_step malloc cmp null Create (st, hs) = Some ((st, hs @ [grpc_avl_create]), Done)"
| "avl_step malloc cmp null (Ref i) (st, hs) = do { (st, p) \<leftarrow> grpc_avl_ref st (hs ! i); Some ((st, hs @ [p]), Done) }"
| "avl_step malloc cmp null (Unref i) (st, hs) = do { st \<leftarrow> grpc_avl_unref st (hs ! i); Some ((st, without i hs), Done) }"
| "avl_step malloc cmp null (Add i k v) (st, hs) = do {
     (st, p) \<leftarrow> grpc_avl_add malloc cmp (copy_value (copy_key st k) v) (hs ! i) k v;
     Some ((st, hs[i := p]), Done) }"
| "avl_step malloc cmp null (Remove i k) (st, hs) = do {
     (st, p) \<leftarrow> grpc_avl_remove malloc cmp st (hs ! i) k; Some ((st, hs[i := p]), Done) }"
| "avl_step malloc cmp null (Get i k) (st, hs) = do { v \<leftarrow> grpc_avl_get null cmp st (hs ! i) k; Some ((st, hs), Value v) }"
| "avl_step malloc cmp null (Maybe_get i k) (st, hs) = do { v \<leftarrow> grpc_avl_maybe_get cmp st (hs ! i) k; Some ((st, hs), Maybe v) }"
| "avl_step malloc cmp null (Is_empty i) (st, hs) = Some ((st, hs), Flag (grpc_avl_is_empty (hs ! i)))"

fun avl_spec :: "('k \<Rightarrow> 'r) \<Rightarrow> 'v \<Rightarrow> ('k, 'v) avl_op \<Rightarrow> ('r \<rightharpoonup> 'v) list \<Rightarrow> ('r \<rightharpoonup> 'v) list \<times> 'v avl_out" where
  "avl_spec rank null Create ms = (ms @ [Map.empty], Done)"
| "avl_spec rank null (Ref i) ms = (ms @ [ms ! i], Done)"
| "avl_spec rank null (Unref i) ms = (without i ms, Done)"
| "avl_spec rank null (Add i k v) ms = (ms[i := (ms ! i)(rank k \<mapsto> v)], Done)"
| "avl_spec rank null (Remove i k) ms = (ms[i := (ms ! i)(rank k := None)], Done)"
| "avl_spec rank null (Get i k) ms = (ms, Value (case (ms ! i) (rank k) of None \<Rightarrow> null | Some v \<Rightarrow> v))"
| "avl_spec rank null (Maybe_get i k) ms = (ms, Maybe ((ms ! i) (rank k)))"
| "avl_spec rank null (Is_empty i) ms = (ms, Flag (ms ! i = Map.empty))"

fun avl_pre :: "('k, 'v) avl_op \<Rightarrow> ('r \<rightharpoonup> 'v) list \<Rightarrow> bool" where
  "avl_pre Create ms \<longleftrightarrow> True"
| "avl_pre (Ref i) ms \<longleftrightarrow> i < length ms"
| "avl_pre (Unref i) ms \<longleftrightarrow> i < length ms"
| "avl_pre (Add i k v) ms \<longleftrightarrow> i < length ms"
| "avl_pre (Remove i k) ms \<longleftrightarrow> i < length ms"
| "avl_pre (Get i k) ms \<longleftrightarrow> i < length ms"
| "avl_pre (Maybe_get i k) ms \<longleftrightarrow> i < length ms"
| "avl_pre (Is_empty i) ms \<longleftrightarrow> i < length ms"

definition tree_ok :: "('k \<Rightarrow> 'r::linorder) \<Rightarrow> ('k, 'v) atree \<Rightarrow> bool" where
  "tree_ok rank t \<longleftrightarrow> avl t \<and> ordered rank (inorder (strip t))"

definition tree_map :: "('k \<Rightarrow> 'r::linorder) \<Rightarrow> ('k, 'v) atree \<Rightarrow> 'r \<rightharpoonup> 'v" where
  "tree_map rank t = amap rank (inorder (strip t))"

definition avl_rel :: "malloc \<Rightarrow> ('k \<Rightarrow> 'k \<Rightarrow> int) \<Rightarrow> ('k \<Rightarrow> 'r::linorder) \<Rightarrow>
    ('k, 'v) avl_store \<times> ptr list \<Rightarrow> ('r \<rightharpoonup> 'v) list \<Rightarrow> bool" where
  "avl_rel malloc cmp rank c ms \<longleftrightarrow> fresh_malloc malloc \<and> compares cmp rank
     \<and> (\<exists>ts. snd c = map ptr_of ts \<and> owns (fst c) (mset ts) {#} {#} \<and> (\<forall>t\<in>set ts. tree_ok rank t) \<and> ms = map (tree_map rank) ts)"

lemma mset_without: "i < length ts \<Longrightarrow> mset ts = add_mset (ts ! i) (mset (without i ts))"
  by (metis Cons_nth_drop_Suc append_take_drop_id mset_append mset.simps(2) union_mset_add_mset_right without_def)

lemma mset_replace: "i < length ts \<Longrightarrow> mset (ts[i := u]) = add_mset u (mset (without i ts))"
  using mset_without [of i "ts[i := u]"] by (simp add: without_def)

lemma map_without: "map f (without i xs) = without i (map f xs)"
  by (simp add: without_def take_map drop_map)

lemma tree_map_empty: "ptr_of t = None \<longleftrightarrow> tree_map rank t = Map.empty"
  by (cases t rule: ptr_of.cases) (auto simp: tree_map_def)

lemma replaced_rel:
  assumes "gives m (mset (without i ts)) {#} {#} t" and "i < length ts" and "\<forall>t\<in>set ts. tree_ok rank t"
    and "avl t" and "ordered rank (inorder t)" and "fresh_malloc malloc" and "compares cmp rank"
  shows "\<exists>c'. (do { (st, p) \<leftarrow> m; Some ((st, (map ptr_of ts)[i := p]), out) }) = Some (c', out)
    \<and> avl_rel malloc cmp rank c' ((map (tree_map rank) ts)[i := amap rank (inorder t)])"
proof -
  obtain st u where u: "m = Some (st, ptr_of u)" "owns st (add_mset u (mset (without i ts))) {#} {#}" "strip u = t"
    using assms(1) by (rule gives_obtain)
  have "owns st (mset (ts[i := u])) {#} {#}" using u(2) assms(2) by (simp add: mset_replace)
  moreover have "tree_ok rank u" using strip_avl [OF u(3) assms(4)] u(3) assms(5) by (simp add: tree_ok_def)
  then have "\<forall>t\<in>set (ts[i := u]). tree_ok rank t" using assms(3) by (auto dest!: set_update_subset_insert [THEN subsetD])
  ultimately have "avl_rel malloc cmp rank (st, (map ptr_of ts)[i := ptr_of u]) ((map (tree_map rank) ts)[i := amap rank (inorder t)])"
    using assms(6,7) u(3) unfolding avl_rel_def
    by (intro conjI exI [of _ "ts[i := u]"]) (simp_all add: map_update tree_map_def)
  then show ?thesis by (simp add: u(1))
qed

text \<open>One lemma per group of operations; \<open>ts\<close> are the trees that the handles point to.\<close>

definition sim_at :: "malloc \<Rightarrow> ('k \<Rightarrow> 'k \<Rightarrow> int) \<Rightarrow> 'v \<Rightarrow> ('k \<Rightarrow> 'r::linorder) \<Rightarrow> ('k, 'v) avl_op \<Rightarrow>
    ('k, 'v) avl_store \<times> ptr list \<Rightarrow> ('r \<rightharpoonup> 'v) list \<Rightarrow> bool" where
  "sim_at malloc cmp null rank op c ms \<longleftrightarrow> (\<exists>c'. avl_step malloc cmp null op c = Some (c', snd (avl_spec rank null op ms))
     \<and> avl_rel malloc cmp rank c' (fst (avl_spec rank null op ms)))"

lemma avl_relE:
  assumes "avl_rel malloc cmp rank c ms"
  obtains st ts where "c = (st, map ptr_of ts)" "owns st (mset ts) {#} {#}" "\<forall>t\<in>set ts. tree_ok rank t"
    "ms = map (tree_map rank) ts" "fresh_malloc malloc" "compares cmp rank"
  using assms by (cases c) (auto simp: avl_rel_def)

lemma avl_relI:
  "owns st (mset ts) {#} {#} \<Longrightarrow> \<forall>t\<in>set ts. tree_ok rank t \<Longrightarrow> fresh_malloc malloc \<Longrightarrow> compares cmp rank \<Longrightarrow>
    avl_rel malloc cmp rank (st, map ptr_of ts) (map (tree_map rank) ts)"
  by (auto simp: avl_rel_def)

lemma handle_at:
  assumes "owns st (mset ts) {#} {#}" "\<forall>t\<in>set ts. tree_ok rank t" "i < length ts"
  shows "avl (ts ! i)" "ordered rank (inorder (strip (ts ! i)))" "tree_ok rank (ts ! i)"
    "owns st (add_mset (ts ! i) (mset (without i ts))) {#} {#}" "ts ! i \<in># mset ts"
  using assms mset_without [OF assms(3)] by (auto simp: tree_ok_def)

lemma sim_handles:
  assumes "avl_rel malloc cmp rank c ms" and "avl_pre op ms" and "op = Create \<or> op = Ref i \<or> op = Unref i"
  shows "sim_at malloc cmp null rank op c ms"
proof -
  obtain st ts where c: "c = (st, map ptr_of ts)" and own: "owns st (mset ts) {#} {#}"
    and ok: "\<forall>t\<in>set ts. tree_ok rank t" and ms: "ms = map (tree_map rank) ts"
    and m: "fresh_malloc malloc" and cmp: "compares cmp rank"
    using assms(1) by (rule avl_relE)
  note at = handle_at [OF own ok]
  consider "op = Create" | (Ref) "op = Ref i" "i < length ts" | (Unref) "op = Unref i" "i < length ts"
    using assms(2,3) by (auto simp: ms)
  then show ?thesis
  proof cases
    case 1
    have "owns st (mset (ts @ [Leaf])) {#} {#}" using own by (simp add: owns_def)
    from avl_relI [OF this _ m cmp] ok show ?thesis
      by (simp add: 1 c ms sim_at_def grpc_avl_create_def tree_map_def tree_ok_def ordered_def ranks_def)
  next
    case Ref
    from ref_node_owns [OF own reach_root [OF at(5) [OF Ref(2)]]] obtain st' where
      st': "ref_node st (ptr_of (ts ! i)) = Some (st', ptr_of (ts ! i))" "owns st' (mset (ts @ [ts ! i])) {#} {#}" by auto
    from avl_relI [OF st'(2) _ m cmp] ok at(3) [OF Ref(2)] Ref show ?thesis
      by (simp add: c ms sim_at_def grpc_avl_ref_def st'(1))
  next
    case Unref
    obtain st' where st': "unref_node st (ptr_of (ts ! i)) = Some st'" "owns st' (mset (without i ts)) {#} {#}"
      using unref_node_owns [OF at(4) [OF Unref(2)]] by blast
    have "\<forall>t\<in>set (without i ts). tree_ok rank t" using ok by (auto simp: without_def dest: in_set_takeD in_set_dropD)
    from avl_relI [OF st'(2) this m cmp] Unref show ?thesis
      by (simp add: c ms sim_at_def grpc_avl_unref_def st'(1) map_without)
  qed
qed

lemma sim_update:
  assumes "avl_rel malloc cmp rank c ms" and "avl_pre op ms" and "op = Add i k v \<or> op = Remove i k"
  shows "sim_at malloc cmp null rank op c ms"
proof -
  obtain st ts where c: "c = (st, map ptr_of ts)" and own: "owns st (mset ts) {#} {#}"
    and ok: "\<forall>t\<in>set ts. tree_ok rank t" and ms: "ms = map (tree_map rank) ts"
    and m: "fresh_malloc malloc" and cmp: "compares cmp rank"
    using assms(1) by (rule avl_relE)
  have i: "i < length ts" using assms(2,3) by (auto simp: ms)
  note at = handle_at [OF own ok i]
  from assms(3) show ?thesis
  proof
    assume op: "op = Add i k v"
    have "ordered rank (inorder (t_add cmp (strip (ts ! i)) k v))" "avl (t_add cmp (strip (ts ! i)) k v)"
      using at t_add_avl [of "strip (ts ! i)" cmp k v] by (simp_all add: t_add_inorder [OF cmp] ordered_upd)
    from replaced_rel [OF grpc_avl_add_gives [OF m copy_owns [OF at(4)] at(1)] i ok this(2,1) m cmp, of Done] at
    show ?thesis using i by (simp add: op c ms sim_at_def t_add_inorder [OF cmp] amap_upd tree_map_def)
  next
    assume op: "op = Remove i k"
    have "ordered rank (inorder (t_remove cmp (strip (ts ! i)) k))" "avl (t_remove cmp (strip (ts ! i)) k)"
      using at t_remove_avl [of "strip (ts ! i)" cmp k] by (simp_all add: t_remove_inorder [OF cmp] del_def ordered_filter)
    from replaced_rel [OF grpc_avl_remove_gives [OF m at(4,1)] i ok this(2,1) m cmp, of Done] at
    show ?thesis using i by (simp add: op c ms sim_at_def t_remove_inorder [OF cmp] amap_del tree_map_def)
  qed
qed

lemma sim_read:
  assumes "avl_rel malloc cmp rank c ms" and "avl_pre op ms" and "op \<in> {Get i k, Maybe_get i k, Is_empty i}"
  shows "sim_at malloc cmp null rank op c ms"
proof -
  obtain st ts where c: "c = (st, map ptr_of ts)" and own: "owns st (mset ts) {#} {#}"
    and ok: "\<forall>t\<in>set ts. tree_ok rank t" and ms: "ms = map (tree_map rank) ts" and cmp: "compares cmp rank"
    using assms(1) by (rule avl_relE)
  have i: "i < length ts" using assms(2,3) by (auto simp: ms)
  note at = handle_at [OF own ok i]
  show ?thesis using assms(1,3) grpc_avl_gets [OF cmp own at(5,2)] tree_map_empty [of "ts ! i" rank] i
    by (auto simp: c ms sim_at_def tree_map_def grpc_avl_is_empty_def)
qed

interpretation avl_run: simulation "avl_step malloc cmp null" "avl_spec rank null" avl_pre "avl_rel malloc cmp rank"
  for malloc and cmp :: "'k \<Rightarrow> 'k \<Rightarrow> int" and null :: 'v and rank :: "'k \<Rightarrow> 'r::linorder"
proof (unfold_locales, fold sim_at_def)
  fix c :: "('k, 'v) avl_store \<times> ptr list" and ms :: "('r \<rightharpoonup> 'v) list" and op :: "('k, 'v) avl_op"
  assume "avl_rel malloc cmp rank c ms" "avl_pre op ms"
  then show "sim_at malloc cmp null rank op c ms"
    by (cases op) (rule sim_handles sim_update sim_read; simp)+
qed

section \<open>No leaks and no tall trees\<close>

lemma edge_height:
  assumes "owns st T K V" and "a \<in># edges (nodes st)" and "nodes st a = Some n"
  shows "\<exists>b m. nodes st b = Some m \<and> an_height n < an_height m"
proof -
  obtain b m where m: "nodes st b = Some m" "a \<in># kids m"
    using assms(1,2) by (auto simp: owns_def over_def set_mset_sum)
  then obtain t where t: "rep (nodes st) t" "ptr_of t = Some b" using assms(1) by (fastforce simp: owns_def)
  then obtain l k v r where tree: "t = Node l (b, k, v) r" by (cases t rule: ptr_of.cases) auto
  have node: "an_left m = ptr_of l" "an_right m = ptr_of r" "rep (nodes st) l" "rep (nodes st) r"
    "an_height m = 1 + max (int (height l)) (int (height r))" using t(1) m(1) by (auto simp: tree content_def)
  have "\<exists>s\<in>{l, r}. ptr_of s = Some a" using m(2) node(1,2) by (auto simp: kids_def own_def split: option.splits)
  then have "an_height n \<le> max (int (height l)) (int (height r))"
    using rep_height [OF node(3)] rep_height [OF node(4)] assms(3) by (auto simp: node_height_def)
  then show ?thesis using m(1) node(5) by fastforce
qed

lemma owns_nothing:
  assumes "owns st {#} {#} {#}"
  shows "nodes st = Map.empty \<and> live_keys st = {#} \<and> live_values st = {#}"
proof -
  have "dom (nodes st) = {}"
  proof (rule ccontr)
    assume ne: "dom (nodes st) \<noteq> {}"
    let ?H = "(\<lambda>a. an_height (the (nodes st a))) ` dom (nodes st)"
    have fin: "finite ?H" using assms by (simp add: owns_def)
    obtain a n where n: "nodes st a = Some n" "an_height n = Max ?H" using Max_in [OF fin] ne by fastforce
    have "a \<in># edges (nodes st)" using refs_okD [of "nodes st" "{#}" a n] n(1) assms by (auto simp: owns_def intro!: count_inI)
    then obtain b m where m: "nodes st b = Some m" "an_height n < an_height m" using edge_height [OF assms _ n(1)] by blast
    have "an_height m \<le> Max ?H" using m(1) fin by (intro Max_ge) force+
    then show False using m(2) n(2) by simp
  qed
  then show ?thesis using assms by (simp add: owns_def over_def)
qed

lemma avl_size: "avl t \<Longrightarrow> 2 ^ (height t div 2) \<le> size1 t"
proof (induction t)
  case (Node l x r)
  show ?case
  proof (cases "height (Node l x r) < 2")
    case False
    then obtain h where h: "height (Node l x r) = h + 2" by (metis add.commute le_Suc_ex not_less)
    have "h \<le> height l" "h \<le> height r" using Node.prems h by auto
    then have "(2::nat) ^ (h div 2) \<le> 2 ^ (height l div 2)" "(2::nat) ^ (h div 2) \<le> 2 ^ (height r div 2)"
      by (simp_all add: div_le_mono)
    moreover have "2 ^ (height l div 2) \<le> size1 l" "2 ^ (height r div 2) \<le> size1 r" using Node by simp_all
    moreover have "(2::nat) ^ ((h + 2) div 2) = 2 * 2 ^ (h div 2)" by simp
    ultimately show ?thesis unfolding h size1.simps by linarith
  qed (auto simp: size1_size)
qed simp

lemma ordered_size:
  assumes "ordered rank xs"
  shows "length xs = card (dom (amap rank xs))"
proof -
  have "distinct (ranks rank xs)" using assms by (auto simp: ordered_def strict_sorted_iff)
  from distinct_card [OF this] show ?thesis by (simp add: amap_dom ranks_def image_image)
qed

definition empty_store :: "('k, 'v) avl_store" where
  "empty_store = \<lparr>nodes = Map.empty, live_keys = {#}, live_values = {#}\<rparr>"

lemma empty_rel: "fresh_malloc malloc \<Longrightarrow> compares cmp rank \<Longrightarrow> avl_rel malloc cmp rank (empty_store, []) []"
  by (simp add: avl_rel_def owns_def empty_store_def over_def refs_ok_def)

section \<open>Properties\<close>

text \<open>
  C29: for every sequence of calls on any number of handles, the AVL tree dereferences no null or freed
  pointer, destroys every key, value and node at most once, fails none of its assertions (the debug
  checks of heights and balance included) and ends; lookups return what finite maps return, where an
  addition or a removal changes the map of its own handle only, however much is shared.
  Once every handle is released no node, key or value is left.
\<close>
theorem avl_refines_maps:
  assumes "fresh_malloc malloc" and "compares cmp rank" and "allowed avl_pre (avl_spec rank null) ops []"
  shows "\<exists>st hs. run (avl_step malloc cmp null) ops (empty_store, []) = Some ((st, hs), snd (spec_run (avl_spec rank null) ops []))
    \<and> length hs = length (fst (spec_run (avl_spec rank null) ops []))
    \<and> (hs = [] \<longrightarrow> nodes st = Map.empty \<and> live_keys st = {#} \<and> live_values st = {#})"
proof -
  from avl_run.run_simulates [OF empty_rel [OF assms(1,2)] assms(3)] obtain st hs where
    r: "run (avl_step malloc cmp null) ops (empty_store, []) = Some ((st, hs), snd (spec_run (avl_spec rank null) ops []))"
    "avl_rel malloc cmp rank (st, hs) (fst (spec_run (avl_spec rank null) ops []))" by (metis surj_pair)
  from r(2) obtain ts where "hs = map ptr_of ts" "owns st (mset ts) {#} {#}"
    "fst (spec_run (avl_spec rank null) ops []) = map (tree_map rank) ts" by (auto simp: avl_rel_def)
  with r(1) owns_nothing [of st] show ?thesis by auto
qed

definition small_malloc :: malloc where
  "small_malloc A = Suc (Max (insert 0 A))"

lemma small_malloc_fresh: "fresh_malloc small_malloc"
  unfolding fresh_malloc_def small_malloc_def using Max_ge [of "insert 0 _"] by (metis Suc_n_not_le_n finite_insert insertI2)

lemma diff_compares: "compares (\<lambda>a b. a - b) (\<lambda>a :: int. a)"
  by (auto simp: compares_def)

theorem avl_refines_maps_witness:
  "\<exists>st hs. run (avl_step small_malloc (\<lambda>a b. a - b) 0)
      [Create, Add 0 (5 :: int) (50 :: nat), Ref 0, Add 1 7 70, Remove 0 5, Maybe_get 1 5, Get 0 5, Is_empty 0, Unref 1, Unref 0]
      (empty_store, []) =
    Some ((st, hs), [Done, Done, Done, Done, Done, Maybe (Some 50), Value 0, Flag True, Done, Done])
    \<and> hs = [] \<and> nodes st = Map.empty \<and> live_keys st = {#} \<and> live_values st = {#}"
proof -
  let ?ops = "[Create, Add 0 (5 :: int) (50 :: nat), Ref 0, Add 1 7 70, Remove 0 5, Maybe_get 1 5, Get 0 5, Is_empty 0, Unref 1, Unref 0]"
  have "allowed avl_pre (avl_spec (\<lambda>a. a) 0) ?ops []" by (simp add: without_def)
  from avl_refines_maps [OF small_malloc_fresh diff_compares this] show ?thesis by (auto simp: without_def)
qed

text \<open>
  After every sequence of calls the height that a root stores is at most logarithmic in the number
  of entries of its map, which bounds the path every lookup, addition and removal takes and
  the depth of their recursion.
\<close>
theorem avl_height_bounded:
  assumes "fresh_malloc malloc" and "compares cmp rank" and "allowed avl_pre (avl_spec rank null) ops []"
  shows "\<exists>st hs outs. run (avl_step malloc cmp null) ops (empty_store, []) = Some ((st, hs), outs)
    \<and> (\<forall>i<length hs. \<exists>h. node_height st (hs ! i) = Some (int h)
      \<and> 2 ^ (h div 2) \<le> card (dom (fst (spec_run (avl_spec rank null) ops []) ! i)) + 1)"
proof -
  from avl_run.run_simulates [OF empty_rel [OF assms(1,2)] assms(3)] obtain st hs where
    r: "run (avl_step malloc cmp null) ops (empty_store, []) = Some ((st, hs), snd (spec_run (avl_spec rank null) ops []))"
    "avl_rel malloc cmp rank (st, hs) (fst (spec_run (avl_spec rank null) ops []))" by (metis surj_pair)
  then obtain ts where ts: "hs = map ptr_of ts" "owns st (mset ts) {#} {#}" "\<forall>t\<in>set ts. tree_ok rank t"
    "fst (spec_run (avl_spec rank null) ops []) = map (tree_map rank) ts" by (auto simp: avl_rel_def)
  have "\<exists>h. node_height st (ptr_of (ts ! i)) = Some (int h) \<and> 2 ^ (h div 2) \<le> card (dom (tree_map rank (ts ! i))) + 1"
    if i: "i < length ts" for i
  proof -
    note at = handle_at [OF ts(2,3) i]
    have "rep (nodes st) (ts ! i)" using at(4) by (simp add: owns_def)
    moreover have "length (inorder (strip (ts ! i))) = size (ts ! i)" by (simp add: strip_def)
    then have "size1 (ts ! i) = card (dom (tree_map rank (ts ! i))) + 1"
      using ordered_size [OF at(2)] by (simp add: tree_map_def size1_size)
    ultimately show ?thesis using avl_size [OF at(1)] rep_height by fastforce
  qed
  then show ?thesis using r(1) by (auto simp: ts)
qed

theorem avl_height_bounded_witness:
  "\<exists>st hs outs. run (avl_step small_malloc (\<lambda>a b. a - b) 0) [Create, Add 0 (1 :: int) (10 :: nat), Add 0 2 20, Add 0 3 30] (empty_store, [])
      = Some ((st, hs), outs)
    \<and> (\<forall>i<length hs. \<exists>h. node_height st (hs ! i) = Some (int h)
      \<and> 2 ^ (h div 2) \<le> card (dom (fst (spec_run (avl_spec (\<lambda>a. a) 0) [Create, Add 0 (1 :: int) (10 :: nat), Add 0 2 20, Add 0 3 30] []) ! i)) + 1)"
  by (rule avl_height_bounded [OF small_malloc_fresh diff_compares]) simp

end
