(* ===== verification/Http2_Frames.thy ===== *)
theory Http2_Frames
  imports Prelude
begin

text \<open>
  The control frames of HTTP/2 in gRPC: \<open>frame_settings.cc\<close>, \<open>frame_ping.cc\<close>, \<open>frame_rst_stream.cc\<close>,
  \<open>frame_window_update.cc\<close>, \<open>frame_goaway.cc\<close> and \<open>http2_settings.cc\<close> of \<open>chttp2/transport\<close>. A parser is given
  the payload of a frame slice by slice and keeps its place in a state of its own.

  The transport is the record of what these parsers read and write; what they call in the rest of the
  transport is recorded in order in \<open>calls\<close>, and what they send in \<open>qbuf\<close>. A parser ends with \<open>Ok\<close>, with
  an error, or with a failed \<open>GPR_ASSERT\<close>. Log and trace output is left out.
\<close>

section \<open>Results\<close>

datatype 'a res = Ok 'a | Err string | Abort

fun rbind :: "'a res \<Rightarrow> ('a \<Rightarrow> 'b res) \<Rightarrow> 'b res" where
  "rbind (Ok x) f = f x"
| "rbind (Err e) f = Err e"
| "rbind Abort f = Abort"

lemma rbind_assoc: "rbind (rbind m f) g = rbind m (\<lambda>x. rbind (f x) g)"
  by (cases m) simp_all

lemma rbind_Ok [simp]: "rbind m Ok = m"
  by (cases m) simp_all

section \<open>The transport\<close>

text \<open>Of a stream: whether it waits for window, whether trailing metadata came, and the bytes counted as framing.\<close>

record h2_stream =
  stalled :: bool
  trailing_size :: nat
  framing_bytes :: nat

datatype h2_call = Ack_ping u64 | Initiate_write string | Mark_closed "u32 option" | Mark_writable | Stream_recv_update u32
  | Add_goaway u32 "byte list" | Notify_settings | Send_goaway u32 | Close_transport

record h2_transport =
  peer_settings :: "u32 list"
  initial_window_update :: int
  flow_control_enabled :: bool
  notify_on_receive_settings :: bool
  is_client :: bool
  last_ping_recv_time :: int
  min_recv_ping_interval :: int
  keepalive_permit_without_calls :: bool
  stream_count :: nat
  ping_strikes :: int
  max_ping_strikes :: int
  ping_acks :: "u64 list"
  disable_ping_ack :: bool
  last_new_stream_id :: u32
  remote_window :: int
  incoming_stream_id :: u32
  incoming_stream :: "h2_stream option"
  qbuf :: "byte list list"
  calls :: "h2_call list"

definition call :: "h2_call \<Rightarrow> h2_transport \<Rightarrow> h2_transport" where
  "call c t = t\<lparr>calls := calls t @ [c]\<rparr>"

section \<open>Writing frames\<close>

definition put_u32 :: "u32 \<Rightarrow> byte list" where
  "put_u32 x = [ucast (drop_bit 24 x), ucast (drop_bit 16 x), ucast (drop_bit 8 x), ucast x]"

definition fill_header :: "u32 \<Rightarrow> byte \<Rightarrow> byte list" where
  "fill_header len flags = [ucast (drop_bit 16 len), ucast (drop_bit 8 len), ucast len, 4, flags, 0, 0, 0, 0]"

definition grpc_setting_id_to_wire_id :: "u16 list" where
  "grpc_setting_id_to_wire_id = [1, 2, 3, 4, 5, 6, 65027]"

definition setting_changed :: "u32 list \<Rightarrow> u32 list \<Rightarrow> u32 \<Rightarrow> nat \<Rightarrow> bool" where
  "setting_changed old new force_mask i \<longleftrightarrow> new ! i \<noteq> old ! i \<or> force_mask AND push_bit i 1 \<noteq> 0"

definition put_setting :: "u32 list \<Rightarrow> nat \<Rightarrow> byte list" where
  "put_setting new i =
     [ucast (drop_bit 8 (grpc_setting_id_to_wire_id ! i)), ucast (grpc_setting_id_to_wire_id ! i)] @ put_u32 (new ! i)"

definition grpc_chttp2_settings_create :: "u32 list \<Rightarrow> u32 list \<Rightarrow> u32 \<Rightarrow> nat \<Rightarrow> u32 list \<times> byte list" where
  "grpc_chttp2_settings_create old new force_mask count =
     (let changed = filter (setting_changed old new force_mask) [0..<count]
      in (foldl (\<lambda>old i. old[i := new ! i]) old changed,
          fill_header (of_nat (6 * length changed)) 0 @ concat (map (put_setting new) changed)))"

definition grpc_chttp2_settings_ack_create :: "byte list" where
  "grpc_chttp2_settings_ack_create = fill_header 0 1"

definition grpc_chttp2_ping_create :: "bool \<Rightarrow> u64 \<Rightarrow> byte list" where
  "grpc_chttp2_ping_create ack opaque_8bytes =
     [0, 0, 8, 6, if ack then 1 else 0, 0, 0, 0, 0,
      ucast (drop_bit 56 opaque_8bytes), ucast (drop_bit 48 opaque_8bytes), ucast (drop_bit 40 opaque_8bytes),
      ucast (drop_bit 32 opaque_8bytes), ucast (drop_bit 24 opaque_8bytes), ucast (drop_bit 16 opaque_8bytes),
      ucast (drop_bit 8 opaque_8bytes), ucast opaque_8bytes]"

definition grpc_chttp2_rst_stream_create :: "u32 \<Rightarrow> u32 \<Rightarrow> nat \<Rightarrow> nat \<times> byte list" where
  "grpc_chttp2_rst_stream_create sid code framing = (framing + 13, [0, 0, 4, 3, 0] @ put_u32 sid @ put_u32 code)"

definition grpc_chttp2_window_update_create :: "u32 \<Rightarrow> u32 \<Rightarrow> nat \<Rightarrow> (nat \<times> byte list) res" where
  "grpc_chttp2_window_update_create sid window_update header =
     (if window_update = 0 then Abort else Ok (header + 13, [0, 0, 4, 8, 0] @ put_u32 sid @ put_u32 window_update))"

definition grpc_chttp2_goaway_append :: "u32 \<Rightarrow> u32 \<Rightarrow> byte list \<Rightarrow> h2_transport \<Rightarrow> h2_transport res" where
  "grpc_chttp2_goaway_append last_stream_id error_code debug_data t =
     (if length debug_data < 4294967287
      then let frame_length = 8 + of_nat (length debug_data) :: u32
           in Ok (t\<lparr>qbuf := qbuf t @ [[ucast (drop_bit 16 frame_length), ucast (drop_bit 8 frame_length), ucast frame_length,
                7, 0, 0, 0, 0, 0] @ put_u32 last_stream_id @ put_u32 error_code, debug_data]\<rparr>)
      else Abort)"

section \<open>Settings\<close>

text \<open>The setting is the index into the tables; \<open>None\<close> for an identifier that is not known.\<close>

definition grpc_wire_id_to_setting_id :: "u32 \<Rightarrow> nat option" where
  "grpc_wire_id_to_setting_id wire_id =
     (let i = wire_id - 1; x = unat (i mod 256); y = unat (i div 256); h = (if y = 254 then x + 4 else x)
      in if h < length grpc_setting_id_to_wire_id \<and> ucast (grpc_setting_id_to_wire_id ! h) = wire_id then Some h else None)"

datatype invalid_value_behavior = Clamp | Disconnect

record setting_parameters =
  min_value :: u32
  max_value :: u32
  behavior :: invalid_value_behavior
  error_value :: u32

definition grpc_chttp2_settings_parameters :: "setting_parameters list" where
  "grpc_chttp2_settings_parameters =
     [\<lparr>min_value = 0, max_value = 4294967295, behavior = Clamp, error_value = 1\<rparr>,
      \<lparr>min_value = 0, max_value = 1, behavior = Disconnect, error_value = 1\<rparr>,
      \<lparr>min_value = 0, max_value = 4294967295, behavior = Disconnect, error_value = 1\<rparr>,
      \<lparr>min_value = 0, max_value = 2147483647, behavior = Disconnect, error_value = 3\<rparr>,
      \<lparr>min_value = 16384, max_value = 16777215, behavior = Disconnect, error_value = 1\<rparr>,
      \<lparr>min_value = 0, max_value = 16777216, behavior = Clamp, error_value = 1\<rparr>,
      \<lparr>min_value = 0, max_value = 1, behavior = Clamp, error_value = 1\<rparr>]"

datatype settings_state = SPS_ID0 | SPS_ID1 | SPS_VAL0 | SPS_VAL1 | SPS_VAL2 | SPS_VAL3

record settings_parser =
  sp_state :: settings_state
  sp_is_ack :: bool
  sp_id :: u16
  sp_value :: u32
  incoming_settings :: "u32 list"

definition grpc_chttp2_settings_parser_begin_frame :: "settings_parser \<Rightarrow> nat \<Rightarrow> byte \<Rightarrow> u32 list \<Rightarrow> settings_parser res" where
  "grpc_chttp2_settings_parser_begin_frame p len flags settings =
     (let p = p\<lparr>incoming_settings := settings, sp_is_ack := False, sp_state := SPS_ID0\<rparr>
      in if flags = 1
         then if len \<noteq> 0 then Err ''non-empty settings ack frame received'' else Ok (p\<lparr>sp_is_ack := True\<rparr>)
         else if flags \<noteq> 0 then Err ''invalid flags on settings frame''
         else if len mod 6 \<noteq> 0 then Err ''settings frames must be a multiple of six bytes''
         else Ok p)"

text \<open>
  What \<open>grpc_chttp2_settings_parser_parse\<close> does with a complete entry. A refused value ends the connection with an error, which here carries no state: the goaway that is appended to
  \<open>qbuf\<close> first counts only through its own assertion.
\<close>

definition apply_setting :: "settings_parser \<Rightarrow> h2_transport \<Rightarrow> (settings_parser \<times> h2_transport) res" where
  "apply_setting p t =
     (case grpc_wire_id_to_setting_id (ucast (sp_id p)) of
        None \<Rightarrow> Ok (p, t)
      | Some i \<Rightarrow>
          let sp = grpc_chttp2_settings_parameters ! i;
              store = (\<lambda>p. Ok (p\<lparr>incoming_settings := (incoming_settings p)[i := sp_value p]\<rparr>,
                if i = 3 \<and> incoming_settings p ! i \<noteq> sp_value p
                then t\<lparr>initial_window_update := initial_window_update t + (uint (sp_value p) - uint (incoming_settings p ! i))\<rparr>
                else t))
          in if \<not> flow_control_enabled t \<and> (i = 3 \<or> i = 4) then Ok (p, t)
             else if sp_value p < min_value sp \<or> sp_value p > max_value sp
             then (case behavior sp of
                     Clamp \<Rightarrow> store (p\<lparr>sp_value := (if sp_value p < min_value sp then min_value sp else max_value sp)\<rparr>)
                   | Disconnect \<Rightarrow>
                       rbind (grpc_chttp2_goaway_append (last_new_stream_id t) (error_value sp)
                         (map (\<lambda>c. of_nat (of_char c)) ''HTTP2 settings error'') t) (\<lambda>t. Err ''invalid value''))
             else store p)"

fun settings_loop :: "settings_parser \<Rightarrow> h2_transport \<Rightarrow> byte list \<Rightarrow> bool \<Rightarrow> (settings_parser \<times> h2_transport) res" where
  "settings_loop p t [] is_last =
     (if sp_state p = SPS_ID0 \<and> is_last
      then let t = t\<lparr>peer_settings := incoming_settings p, qbuf := qbuf t @ [grpc_chttp2_settings_ack_create]\<rparr>
           in Ok (p, if notify_on_receive_settings t then call Notify_settings (t\<lparr>notify_on_receive_settings := False\<rparr>) else t)
      else Ok (p, t))"
| "settings_loop p t (b # bs) is_last =
     (case sp_state p of
        SPS_ID0 \<Rightarrow> settings_loop (p\<lparr>sp_id := push_bit 8 (ucast b), sp_state := SPS_ID1\<rparr>) t bs is_last
      | SPS_ID1 \<Rightarrow> settings_loop (p\<lparr>sp_id := sp_id p OR ucast b, sp_state := SPS_VAL0\<rparr>) t bs is_last
      | SPS_VAL0 \<Rightarrow> settings_loop (p\<lparr>sp_value := push_bit 24 (ucast b), sp_state := SPS_VAL1\<rparr>) t bs is_last
      | SPS_VAL1 \<Rightarrow> settings_loop (p\<lparr>sp_value := sp_value p OR push_bit 16 (ucast b), sp_state := SPS_VAL2\<rparr>) t bs is_last
      | SPS_VAL2 \<Rightarrow> settings_loop (p\<lparr>sp_value := sp_value p OR push_bit 8 (ucast b), sp_state := SPS_VAL3\<rparr>) t bs is_last
      | SPS_VAL3 \<Rightarrow>
          rbind (apply_setting (p\<lparr>sp_value := sp_value p OR ucast b, sp_state := SPS_ID0\<rparr>) t)
            (\<lambda>(p, t). settings_loop p t bs is_last))"

definition grpc_chttp2_settings_parser_parse ::
  "settings_parser \<times> h2_transport \<Rightarrow> byte list \<Rightarrow> bool \<Rightarrow> (settings_parser \<times> h2_transport) res" where
  "grpc_chttp2_settings_parser_parse s bytes is_last =
     (case s of (p, t) \<Rightarrow> if sp_is_ack p then Ok (p, t) else settings_loop p t bytes is_last)"

section \<open>Ping\<close>

record ping_parser =
  pp_byte :: nat
  pp_is_ack :: byte
  opaque_8bytes :: u64

definition grpc_chttp2_ping_parser_begin_frame :: "nat \<Rightarrow> byte \<Rightarrow> ping_parser res" where
  "grpc_chttp2_ping_parser_begin_frame len flags =
     (if flags AND 0xfe \<noteq> 0 \<or> len \<noteq> 8 then Err ''invalid ping''
      else Ok \<lparr>pp_byte = 0, pp_is_ack = flags, opaque_8bytes = 0\<rparr>)"

fun ping_loop :: "ping_parser \<Rightarrow> byte list \<Rightarrow> ping_parser" where
  "ping_loop p [] = p"
| "ping_loop p (b # bs) =
     (if pp_byte p = 8 then p
      else ping_loop (p\<lparr>opaque_8bytes := opaque_8bytes p OR push_bit (56 - 8 * pp_byte p) (ucast b), pp_byte := pp_byte p + 1\<rparr>) bs)"

text \<open>\<open>grpc_chttp2_add_ping_strike\<close> of \<open>chttp2_transport.cc\<close>.\<close>

definition grpc_chttp2_add_ping_strike :: "h2_transport \<Rightarrow> h2_transport" where
  "grpc_chttp2_add_ping_strike t =
     (let t = t\<lparr>ping_strikes := ping_strikes t + 1\<rparr>; t = t\<lparr>ping_strikes := ping_strikes t + 1\<rparr>
      in if ping_strikes t > max_ping_strikes t \<and> max_ping_strikes t \<noteq> 0
         then call Close_transport (call (Send_goaway 11) t) else t)"

definition ping_received :: "int \<Rightarrow> ping_parser \<Rightarrow> h2_transport \<Rightarrow> h2_transport" where
  "ping_received now p t =
     (let t = (if is_client t then t
               else let next_allowed_ping =
                          (if \<not> keepalive_permit_without_calls t \<and> stream_count t = 0
                           then last_ping_recv_time t + 7200 * 1000
                           else last_ping_recv_time t + min_recv_ping_interval t);
                        t = (if next_allowed_ping > now then grpc_chttp2_add_ping_strike t else t)
                    in t\<lparr>last_ping_recv_time := now\<rparr>)
      in if disable_ping_ack t then t
         else call (Initiate_write ''PING_RESPONSE'') (t\<lparr>ping_acks := ping_acks t @ [opaque_8bytes p]\<rparr>))"

definition grpc_chttp2_ping_parser_parse ::
  "int \<Rightarrow> ping_parser \<times> h2_transport \<Rightarrow> byte list \<Rightarrow> bool \<Rightarrow> (ping_parser \<times> h2_transport) res" where
  "grpc_chttp2_ping_parser_parse now s bytes is_last =
     (case s of (p, t) \<Rightarrow>
        let p = ping_loop p bytes
        in if pp_byte p = 8
           then if is_last
                then Ok (p, if pp_is_ack p \<noteq> 0 then call (Ack_ping (opaque_8bytes p)) t else ping_received now p t)
                else Abort
           else Ok (p, t))"

definition grpc_set_disable_ping_ack :: "bool \<Rightarrow> h2_transport \<Rightarrow> h2_transport" where
  "grpc_set_disable_ping_ack b t = t\<lparr>disable_ping_ack := b\<rparr>"

section \<open>Stream resets\<close>

record rst_parser =
  rp_byte :: nat
  reason_bytes :: "byte list"

definition grpc_chttp2_rst_stream_parser_begin_frame :: "rst_parser \<Rightarrow> nat \<Rightarrow> rst_parser res" where
  "grpc_chttp2_rst_stream_parser_begin_frame p len = (if len \<noteq> 4 then Err ''invalid rst_stream'' else Ok (p\<lparr>rp_byte := 0\<rparr>))"

fun rst_loop :: "rst_parser \<Rightarrow> byte list \<Rightarrow> rst_parser \<times> byte list" where
  "rst_loop p [] = (p, [])"
| "rst_loop p (b # bs) =
     (if rp_byte p = 4 then (p, b # bs)
      else rst_loop (p\<lparr>reason_bytes := (reason_bytes p)[rp_byte p := b], rp_byte := rp_byte p + 1\<rparr>) bs)"

definition count_framing :: "nat \<Rightarrow> h2_transport \<Rightarrow> h2_transport" where
  "count_framing n t =
     (case incoming_stream t of None \<Rightarrow> t
      | Some s \<Rightarrow> t\<lparr>incoming_stream := Some (s\<lparr>framing_bytes := framing_bytes s + n\<rparr>)\<rparr>)"

definition grpc_chttp2_rst_stream_parser_parse ::
  "rst_parser \<times> h2_transport \<Rightarrow> byte list \<Rightarrow> bool \<Rightarrow> (rst_parser \<times> h2_transport) res" where
  "grpc_chttp2_rst_stream_parser_parse st bytes is_last =
     (case st of (p, t) \<Rightarrow>
        case rst_loop p bytes of (p, rest) \<Rightarrow>
        case incoming_stream t of
          None \<Rightarrow> Abort
        | Some s \<Rightarrow>
            let t = count_framing (length rest) t
            in if rp_byte p = 4
               then if is_last
                    then let reason = push_bit 24 (ucast (reason_bytes p ! 0)) OR push_bit 16 (ucast (reason_bytes p ! 1))
                               OR push_bit 8 (ucast (reason_bytes p ! 2)) OR ucast (reason_bytes p ! 3)
                         in Ok (p, call (Mark_closed (if reason \<noteq> 0 \<or> trailing_size s = 0 then Some reason else None)) t)
                    else Abort
               else Ok (p, t))"

section \<open>Window updates\<close>

record window_parser =
  wp_byte :: nat
  amount :: u32

definition grpc_chttp2_window_update_parser_begin_frame :: "nat \<Rightarrow> byte \<Rightarrow> window_parser res" where
  "grpc_chttp2_window_update_parser_begin_frame len flags =
     (if flags \<noteq> 0 \<or> len \<noteq> 4 then Err ''invalid window update'' else Ok \<lparr>wp_byte = 0, amount = 0\<rparr>)"

fun window_loop :: "window_parser \<Rightarrow> byte list \<Rightarrow> window_parser \<times> byte list" where
  "window_loop p [] = (p, [])"
| "window_loop p (b # bs) =
     (if wp_byte p = 4 then (p, b # bs)
      else window_loop (p\<lparr>amount := amount p OR push_bit (8 * (3 - wp_byte p)) (ucast b), wp_byte := wp_byte p + 1\<rparr>) bs)"

definition window_received :: "u32 \<Rightarrow> h2_transport \<Rightarrow> h2_transport" where
  "window_received received_update t =
     (if incoming_stream_id t \<noteq> 0
      then (case incoming_stream t of
              None \<Rightarrow> t
            | Some s \<Rightarrow>
                let t = call (Stream_recv_update received_update) t
                in if stalled s
                   then call (Initiate_write ''FLOW_CONTROL_UNSTALLED_BY_UPDATE'')
                          (call Mark_writable (t\<lparr>incoming_stream := Some (s\<lparr>stalled := False\<rparr>)\<rparr>))
                   else t)
      else let was_zero = remote_window t \<le> 0;
               t = (if flow_control_enabled t then t\<lparr>remote_window := remote_window t + uint received_update\<rparr> else t);
               is_zero = remote_window t \<le> 0
           in if was_zero \<and> \<not> is_zero then call (Initiate_write ''TRANSPORT_FLOW_CONTROL_UNSTALLED'') t else t)"

definition grpc_chttp2_window_update_parser_parse ::
  "window_parser \<times> h2_transport \<Rightarrow> byte list \<Rightarrow> bool \<Rightarrow> (window_parser \<times> h2_transport) res" where
  "grpc_chttp2_window_update_parser_parse st bytes is_last =
     (case st of (p, t) \<Rightarrow>
        case window_loop p bytes of (p, rest) \<Rightarrow>
          let t = count_framing (length rest) t
          in if wp_byte p = 4
             then if amount p = 0 \<or> amount p AND 0x80000000 \<noteq> 0 then Err ''invalid window update bytes''
                  else if is_last then Ok (p, window_received (amount p) t) else Abort
             else Ok (p, t))"

section \<open>Going away\<close>

datatype goaway_state = LSI0 | LSI1 | LSI2 | LSI3 | ERR0 | ERR1 | ERR2 | ERR3 | DEBUG

record goaway_parser =
  gp_state :: goaway_state
  last_stream_id :: u32
  error_code :: u32
  debug_data :: "byte list"
  debug_length :: nat
  debug_pos :: nat

definition grpc_chttp2_goaway_parser_init :: "goaway_parser \<Rightarrow> goaway_parser" where
  "grpc_chttp2_goaway_parser_init p = p\<lparr>debug_data := []\<rparr>"

text \<open>What the fresh memory for the debug data holds is the argument \<open>fresh\<close>.\<close>

definition grpc_chttp2_goaway_parser_begin_frame :: "(nat \<Rightarrow> byte) \<Rightarrow> goaway_parser \<Rightarrow> nat \<Rightarrow> goaway_parser res" where
  "grpc_chttp2_goaway_parser_begin_frame fresh p len =
     (if len < 8 then Err ''goaway frame too short''
      else Ok (p\<lparr>debug_length := len - 8, debug_data := map fresh [0..<len - 8], debug_pos := 0, gp_state := LSI0\<rparr>))"

definition goaway_debug :: "goaway_parser \<Rightarrow> h2_transport \<Rightarrow> byte list \<Rightarrow> bool \<Rightarrow> (goaway_parser \<times> h2_transport) res" where
  "goaway_debug p t bs is_last =
     (if length (debug_data p) < debug_pos p + length bs \<or> \<not> length bs < 4294967295 - debug_pos p then Abort
      else let p = p\<lparr>debug_data := write_at (debug_data p) (debug_pos p) bs, debug_pos := debug_pos p + length bs, gp_state := DEBUG\<rparr>
           in if is_last then Ok (p\<lparr>debug_data := []\<rparr>, call (Add_goaway (error_code p) (debug_data p)) t) else Ok (p, t))"

fun goaway_loop :: "goaway_parser \<Rightarrow> h2_transport \<Rightarrow> byte list \<Rightarrow> bool \<Rightarrow> (goaway_parser \<times> h2_transport) res" where
  "goaway_loop p t [] is_last = (if gp_state p = DEBUG then goaway_debug p t [] is_last else Ok (p, t))"
| "goaway_loop p t (b # bs) is_last =
     (case gp_state p of
        LSI0 \<Rightarrow> goaway_loop (p\<lparr>last_stream_id := push_bit 24 (ucast b), gp_state := LSI1\<rparr>) t bs is_last
      | LSI1 \<Rightarrow> goaway_loop (p\<lparr>last_stream_id := last_stream_id p OR push_bit 16 (ucast b), gp_state := LSI2\<rparr>) t bs is_last
      | LSI2 \<Rightarrow> goaway_loop (p\<lparr>last_stream_id := last_stream_id p OR push_bit 8 (ucast b), gp_state := LSI3\<rparr>) t bs is_last
      | LSI3 \<Rightarrow> goaway_loop (p\<lparr>last_stream_id := last_stream_id p OR ucast b, gp_state := ERR0\<rparr>) t bs is_last
      | ERR0 \<Rightarrow> goaway_loop (p\<lparr>error_code := push_bit 24 (ucast b), gp_state := ERR1\<rparr>) t bs is_last
      | ERR1 \<Rightarrow> goaway_loop (p\<lparr>error_code := error_code p OR push_bit 16 (ucast b), gp_state := ERR2\<rparr>) t bs is_last
      | ERR2 \<Rightarrow> goaway_loop (p\<lparr>error_code := error_code p OR push_bit 8 (ucast b), gp_state := ERR3\<rparr>) t bs is_last
      | ERR3 \<Rightarrow> goaway_loop (p\<lparr>error_code := error_code p OR ucast b, gp_state := DEBUG\<rparr>) t bs is_last
      | DEBUG \<Rightarrow> goaway_debug p t (b # bs) is_last)"

definition grpc_chttp2_goaway_parser_parse ::
  "goaway_parser \<times> h2_transport \<Rightarrow> byte list \<Rightarrow> bool \<Rightarrow> (goaway_parser \<times> h2_transport) res" where
  "grpc_chttp2_goaway_parser_parse st bytes is_last = (case st of (p, t) \<Rightarrow> goaway_loop p t bytes is_last)"

end
