(* ===== verification/Http2_Slices.thy ===== *)
theory Http2_Slices
  imports Http2_Frames
begin

text \<open>
  The parsers of \<open>Http2_Frames\<close> do not depend on how a payload is cut into slices, and they read
  back what the writers wrote.
\<close>

section \<open>Slices\<close>

text \<open>The calls for a payload that arrives in slices: only the last one has \<open>is_last\<close> set.\<close>

fun feed :: "('s \<Rightarrow> byte list \<Rightarrow> bool \<Rightarrow> 's res) \<Rightarrow> 's \<Rightarrow> byte list list \<Rightarrow> 's res" where
  "feed parse s [] = Ok s"
| "feed parse s [c] = parse s c True"
| "feed parse s (c # d # cs) = rbind (parse s c False) (\<lambda>s. feed parse s (d # cs))"

definition slices_of :: "byte list list \<Rightarrow> byte list \<Rightarrow> bool" where
  "slices_of cs bs \<longleftrightarrow> concat cs = bs \<and> cs \<noteq> [] \<and> ([] \<notin> set cs \<or> cs = [[]])"

text \<open>
  \<open>expects s n\<close>: in state \<open>s\<close> the parser is waiting for the last \<open>n\<close> bytes of the payload.
\<close>

locale frame_parser =
  fixes parse :: "'s \<Rightarrow> byte list \<Rightarrow> bool \<Rightarrow> 's res"
    and expects :: "'s \<Rightarrow> nat \<Rightarrow> bool"
  assumes split: "expects s n \<Longrightarrow> a \<noteq> [] \<Longrightarrow> b \<noteq> [] \<Longrightarrow> length a + length b \<le> n \<Longrightarrow>
      parse s (a @ b) (length a + length b = n) = rbind (parse s a False) (\<lambda>s'. parse s' b (length a + length b = n))"
    and rest: "expects s n \<Longrightarrow> a \<noteq> [] \<Longrightarrow> length a < n \<Longrightarrow> parse s a False = Ok s' \<Longrightarrow> expects s' (n - length a)"
begin

lemma feed_whole:
  assumes "slices_of cs bs" and "expects s (length bs)"
  shows "feed parse s cs = parse s bs True"
proof -
  have "cs \<noteq> [] \<Longrightarrow> [] \<notin> set cs \<Longrightarrow> expects s (length (concat cs)) \<Longrightarrow> feed parse s cs = parse s (concat cs) True"
  proof (induction cs arbitrary: s)
    case (Cons c cs)
    show ?case
    proof (cases "cs = []")
      case False
      then obtain d ds where cs: "cs = d # ds" by (cases cs) auto
      have ne: "c \<noteq> []" "concat cs \<noteq> []" using Cons.prems cs by auto
      have e: "expects s (length c + length (concat cs))" using Cons.prems(3) by simp
      have whole: "parse s (c @ concat cs) True = rbind (parse s c False) (\<lambda>s'. parse s' (concat cs) True)"
        using split [OF e ne] by simp
      have step: "feed parse s (c # cs) = rbind (parse s c False) (\<lambda>s. feed parse s cs)" by (simp add: cs)
      show ?thesis
      proof (cases "parse s c False")
        case (Ok s')
        have "expects s' (length (concat cs))" using rest [OF e ne(1) _ Ok] ne(2) by simp
        then show ?thesis using Cons.IH [of s'] Cons.prems(2) False whole step Ok by simp
      qed (use whole step in simp_all)
    qed simp
  qed simp
  then show ?thesis using assms by (cases "cs = [[]]") (auto simp: slices_of_def)
qed

end

section \<open>The parsers\<close>

lemma settings_loop_append:
  "settings_loop p t (a @ b) is_last = rbind (settings_loop p t a False) (\<lambda>(p, t). settings_loop p t b is_last)"
proof (induction p t a False rule: settings_loop.induct)
  case (2 p t c cs)
  then show ?case by (cases "sp_state p") (auto simp: rbind_assoc case_prod_beta intro!: arg_cong2 [where f = rbind] ext)
qed simp

interpretation settings: frame_parser grpc_chttp2_settings_parser_parse "\<lambda>s n. True"
proof
  fix s :: "settings_parser \<times> h2_transport" and n :: nat and a b :: "byte list"
  show "grpc_chttp2_settings_parser_parse s (a @ b) (length a + length b = n) =
    rbind (grpc_chttp2_settings_parser_parse s a False) (\<lambda>s'. grpc_chttp2_settings_parser_parse s' b (length a + length b = n))"
  proof (cases s)
    case (Pair p t)
    show ?thesis
    proof (cases "sp_is_ack p")
      case False
      have "sp_is_ack p' = sp_is_ack p" if "settings_loop p t a False = Ok (p', t')" for p' t'
        using that
      proof (induction p t a False rule: settings_loop.induct)
        case (2 p t c cs)
        then show ?case
          by (cases "sp_state p") (auto simp: apply_setting_def Let_def grpc_chttp2_goaway_append_def split: option.splits if_splits invalid_value_behavior.splits)
      qed auto
      then show ?thesis using False
        by (cases "settings_loop p t a False") (auto simp: Pair grpc_chttp2_settings_parser_parse_def settings_loop_append)
    qed (simp add: Pair grpc_chttp2_settings_parser_parse_def)
  qed
qed simp

lemma ping_loop_append: "ping_loop p (a @ b) = ping_loop (ping_loop p a) b"
  by (induction p a rule: ping_loop.induct) (auto, cases b, auto)

lemma ping_loop_byte: "pp_byte p + length a \<le> 8 \<Longrightarrow> pp_byte (ping_loop p a) = pp_byte p + length a"
  by (induction p a rule: ping_loop.induct) auto

interpretation ping: frame_parser "grpc_chttp2_ping_parser_parse now" "\<lambda>(p, t) n. pp_byte p + n = 8" for now
  by unfold_locales
    (auto simp: grpc_chttp2_ping_parser_parse_def ping_loop_append Let_def ping_loop_byte split: if_splits)

lemma rst_loop_append:
  "snd (rst_loop p a) = [] \<Longrightarrow> rst_loop p (a @ b) = rst_loop (fst (rst_loop p a)) b"
  by (induction p a rule: rst_loop.induct) auto

lemma rst_loop_byte:
  "rp_byte p + length a \<le> 4 \<Longrightarrow> rp_byte (fst (rst_loop p a)) = rp_byte p + length a \<and> snd (rst_loop p a) = []"
  by (induction p a rule: rst_loop.induct) auto

lemma count_framing_0 [simp]: "count_framing 0 t = t"
  by (cases t) (auto simp: count_framing_def split: option.split)

lemma rst_partial:
  assumes "rp_byte p + length a < 4" and "incoming_stream t \<noteq> None"
  shows "grpc_chttp2_rst_stream_parser_parse (p, t) a is_last = Ok (fst (rst_loop p a), t)"
  using assms rst_loop_byte [of p a]
  by (cases "rst_loop p a") (auto simp: grpc_chttp2_rst_stream_parser_parse_def)

interpretation rst: frame_parser grpc_chttp2_rst_stream_parser_parse "\<lambda>(p, t) n. rp_byte p + n = 4 \<and> incoming_stream t \<noteq> None"
proof (unfold_locales, goal_cases)
  case (1 s n a b)
  obtain p t where s: "s = (p, t)" by (cases s)
  have a: "rp_byte p + length a < 4" "incoming_stream t \<noteq> None" using 1 by (auto simp: s Suc_le_eq neq_Nil_conv)
  have "rst_loop p (a @ b) = rst_loop (fst (rst_loop p a)) b"
    using rst_loop_byte [of p a] a rst_loop_append by simp
  then have "grpc_chttp2_rst_stream_parser_parse (p, t) (a @ b) l = grpc_chttp2_rst_stream_parser_parse (fst (rst_loop p a), t) b l" for l
    by (simp add: grpc_chttp2_rst_stream_parser_parse_def)
  then show ?case by (simp add: s rst_partial [OF a])
next
  case (2 s n a s')
  then show ?case using rst_loop_byte [of "fst s" a] by (auto simp: rst_partial split: prod.splits)
qed

lemma window_loop_append:
  "snd (window_loop p a) = [] \<Longrightarrow> window_loop p (a @ b) = window_loop (fst (window_loop p a)) b"
  by (induction p a rule: window_loop.induct) auto

lemma window_loop_byte:
  "wp_byte p + length a \<le> 4 \<Longrightarrow> wp_byte (fst (window_loop p a)) = wp_byte p + length a \<and> snd (window_loop p a) = []"
  by (induction p a rule: window_loop.induct) auto

lemma window_partial:
  assumes "wp_byte p + length a < 4"
  shows "grpc_chttp2_window_update_parser_parse (p, t) a is_last = Ok (fst (window_loop p a), t)"
  using assms window_loop_byte [of p a]
  by (cases "window_loop p a") (auto simp: grpc_chttp2_window_update_parser_parse_def)

interpretation window: frame_parser grpc_chttp2_window_update_parser_parse "\<lambda>(p, t) n. wp_byte p + n = 4"
proof (unfold_locales, goal_cases)
  case (1 s n a b)
  obtain p t where s: "s = (p, t)" by (cases s)
  have a: "wp_byte p + length a < 4" using 1 by (auto simp: s Suc_le_eq neq_Nil_conv)
  have "window_loop p (a @ b) = window_loop (fst (window_loop p a)) b"
    using window_loop_byte [of p a] a window_loop_append by simp
  then have "grpc_chttp2_window_update_parser_parse (p, t) (a @ b) l = grpc_chttp2_window_update_parser_parse (fst (window_loop p a), t) b l" for l
    by (simp add: grpc_chttp2_window_update_parser_parse_def)
  then show ?case by (simp add: s window_partial [OF a])
next
  case (2 s n a s')
  then show ?case using window_loop_byte [of "fst s" a] by (auto simp: window_partial split: prod.splits)
qed

text \<open>The bytes of the fixed part of a goaway frame that are still to come.\<close>

fun goaway_left :: "goaway_state \<Rightarrow> nat" where
  "goaway_left LSI0 = 8"
| "goaway_left LSI1 = 7"
| "goaway_left LSI2 = 6"
| "goaway_left LSI3 = 5"
| "goaway_left ERR0 = 4"
| "goaway_left ERR1 = 3"
| "goaway_left ERR2 = 2"
| "goaway_left ERR3 = 1"
| "goaway_left DEBUG = 0"

definition goaway_expects :: "goaway_parser \<times> h2_transport \<Rightarrow> nat \<Rightarrow> bool" where
  "goaway_expects s n \<longleftrightarrow> (case s of (p, t) \<Rightarrow> length (debug_data p) = debug_length p \<and> debug_length p < 4294967295 \<and>
     debug_pos p \<le> debug_length p \<and> (gp_state p \<noteq> DEBUG \<longrightarrow> debug_pos p = 0) \<and>
     goaway_left (gp_state p) + (debug_length p - debug_pos p) = n)"

lemma write_at_write_at:
  "off + length xs + length ys \<le> length buf \<Longrightarrow> write_at (write_at buf off xs) (off + length xs) ys = write_at buf off (xs @ ys)"
  by (simp add: write_at_def ac_simps)

lemma goaway_loop_DEBUG: "gp_state p = DEBUG \<Longrightarrow> goaway_loop p t bs l = goaway_debug p t bs l"
  by (cases bs) auto

lemma goaway_debug_append:
  assumes "gp_state p = DEBUG" "goaway_expects (p, t) n" "length a + length b \<le> n"
  shows "goaway_loop p t (a @ b) l = rbind (goaway_loop p t a False) (\<lambda>(p, t). goaway_loop p t b l)"
  using assms by (auto simp: goaway_loop_DEBUG goaway_debug_def Let_def write_at_write_at goaway_expects_def)

text \<open>Before the debug data a byte moves the parser to its next state.\<close>

lemma goaway_loop_head:
  assumes "gp_state p \<noteq> DEBUG"
  obtains q where "\<And>t bs l. goaway_loop p t (b # bs) l = goaway_loop q t bs l"
    and "\<And>t n. goaway_expects (p, t) n \<Longrightarrow> goaway_expects (q, t) (n - 1)"
proof (cases "gp_state p")
  case LSI0
  then show ?thesis by (intro that [of "p\<lparr>last_stream_id := push_bit 24 (ucast b), gp_state := LSI1\<rparr>"]) (auto simp: goaway_expects_def)
next
  case LSI1
  then show ?thesis
    by (intro that [of "p\<lparr>last_stream_id := last_stream_id p OR push_bit 16 (ucast b), gp_state := LSI2\<rparr>"]) (auto simp: goaway_expects_def)
next
  case LSI2
  then show ?thesis
    by (intro that [of "p\<lparr>last_stream_id := last_stream_id p OR push_bit 8 (ucast b), gp_state := LSI3\<rparr>"]) (auto simp: goaway_expects_def)
next
  case LSI3
  then show ?thesis
    by (intro that [of "p\<lparr>last_stream_id := last_stream_id p OR ucast b, gp_state := ERR0\<rparr>"]) (auto simp: goaway_expects_def)
next
  case ERR0
  then show ?thesis by (intro that [of "p\<lparr>error_code := push_bit 24 (ucast b), gp_state := ERR1\<rparr>"]) (auto simp: goaway_expects_def)
next
  case ERR1
  then show ?thesis
    by (intro that [of "p\<lparr>error_code := error_code p OR push_bit 16 (ucast b), gp_state := ERR2\<rparr>"]) (auto simp: goaway_expects_def)
next
  case ERR2
  then show ?thesis
    by (intro that [of "p\<lparr>error_code := error_code p OR push_bit 8 (ucast b), gp_state := ERR3\<rparr>"]) (auto simp: goaway_expects_def)
next
  case ERR3
  then show ?thesis
    by (intro that [of "p\<lparr>error_code := error_code p OR ucast b, gp_state := DEBUG\<rparr>"]) (auto simp: goaway_expects_def)
qed (use assms in simp)

lemma goaway_loop_append:
  assumes "goaway_expects (p, t) n" and "length a + length b \<le> n" and "b \<noteq> []"
  shows "goaway_loop p t (a @ b) l = rbind (goaway_loop p t a False) (\<lambda>(p, t). goaway_loop p t b l)"
    and "goaway_loop p t a False = Ok (p', t') \<Longrightarrow> goaway_expects (p', t') (n - length a)"
  using assms
proof (induction a arbitrary: p n)
  case Nil
  {
    case 1
    show ?case
    proof (cases "gp_state p = DEBUG")
      case True
      then show ?thesis using 1 goaway_debug_append [of p t n "[]" b l] by simp
    qed simp
  next
    case 2
    then show ?case by (auto simp: goaway_debug_def Let_def goaway_expects_def split: if_splits)
  }
next
  case (Cons c a)
  {
    case 1
    show ?case
    proof (cases "gp_state p = DEBUG")
      case True
      then show ?thesis using 1 goaway_debug_append [of p t n "c # a" b l] by blast
    next
      case False
      obtain q where q: "\<And>t bs l. goaway_loop p t (c # bs) l = goaway_loop q t bs l"
        "\<And>t n. goaway_expects (p, t) n \<Longrightarrow> goaway_expects (q, t) (n - 1)" using goaway_loop_head [OF False, of c] by blast
      show ?thesis using Cons.IH(1) [of q "n - 1"] q(2) [OF 1(1)] 1(2,3) by (simp add: q(1) del: goaway_loop.simps)
    qed
  next
    case 2
    show ?case
    proof (cases "gp_state p = DEBUG")
      case True
      then show ?thesis using 2 by (auto simp: goaway_debug_def Let_def goaway_expects_def split: if_splits)
    next
      case False
      obtain q where q: "\<And>t bs l. goaway_loop p t (c # bs) l = goaway_loop q t bs l"
        "\<And>t n. goaway_expects (p, t) n \<Longrightarrow> goaway_expects (q, t) (n - 1)" using goaway_loop_head [OF False, of c] by blast
      show ?thesis using Cons.IH(2) [of q "n - 1"] q(2) [OF 2(2)] 2(1,3,4) by (simp add: q(1) del: goaway_loop.simps)
    qed
  }
qed

interpretation goaway: frame_parser grpc_chttp2_goaway_parser_parse goaway_expects
proof (unfold_locales, goal_cases)
  case (1 s n a b)
  then show ?case using goaway_loop_append(1) [of "fst s" "snd s" n a b]
    by (cases s) (simp add: grpc_chttp2_goaway_parser_parse_def)
next
  case (2 s n a s')
  then show ?case using goaway_loop_append(2) [of "fst s" "snd s" n a "[0]" "fst s'" "snd s'"]
    by (cases s, cases s') (auto simp: grpc_chttp2_goaway_parser_parse_def)
qed

section \<open>Reading back what was written\<close>

lemma u32_bytes:
  "push_bit 24 (ucast (ucast (drop_bit 24 x) :: byte)) OR push_bit 16 (ucast (ucast (drop_bit 16 x) :: byte)) OR
   push_bit 8 (ucast (ucast (drop_bit 8 x) :: byte)) OR ucast (ucast x :: byte) = (x :: u32)" (is "?l = x")
proof (rule bit_word_eqI)
  fix n assume n: "n < LENGTH(32)"
  consider "n < 8" | "8 \<le> n" "n < 16" | "16 \<le> n" "n < 24" | "24 \<le> n" using n by linarith
  then show "bit ?l n = bit x n"
    using n by cases (auto simp: bit_simps)
qed

lemma u16_bytes: "push_bit 8 (ucast (ucast (drop_bit 8 x) :: byte)) OR ucast (ucast x :: byte) = (x :: u16)" (is "?l = x")
proof (rule bit_word_eqI)
  fix n assume n: "n < LENGTH(16)"
  consider "n < 8" | "8 \<le> n" using n by linarith
  then show "bit ?l n = bit x n"
    using n by cases (auto simp: bit_simps)
qed

lemma u64_bytes:
  "push_bit 56 (ucast (ucast (drop_bit 56 x) :: byte)) OR push_bit 48 (ucast (ucast (drop_bit 48 x) :: byte)) OR
   push_bit 40 (ucast (ucast (drop_bit 40 x) :: byte)) OR push_bit 32 (ucast (ucast (drop_bit 32 x) :: byte)) OR
   push_bit 24 (ucast (ucast (drop_bit 24 x) :: byte)) OR push_bit 16 (ucast (ucast (drop_bit 16 x) :: byte)) OR
   push_bit 8 (ucast (ucast (drop_bit 8 x) :: byte)) OR ucast (ucast x :: byte) = (x :: u64)" (is "?l = x")
proof (rule bit_word_eqI)
  fix n assume n: "n < LENGTH(64)"
  consider "n < 8" | "8 \<le> n" "n < 16" | "16 \<le> n" "n < 24" | "24 \<le> n" "n < 32" | "32 \<le> n" "n < 40" | "40 \<le> n" "n < 48"
    | "48 \<le> n" "n < 56" | "56 \<le> n" using n by linarith
  then show "bit ?l n = bit x n"
    using n by cases (auto simp: bit_simps)
qed

lemma length_put_u32 [simp]: "length (put_u32 x) = 4"
  by (simp add: put_u32_def)

text \<open>A whole payload in one slice.\<close>

lemma ping_whole:
  "grpc_chttp2_ping_parser_parse now (\<lparr>pp_byte = 0, pp_is_ack = f, opaque_8bytes = 0\<rparr>, t)
     (drop 9 (grpc_chttp2_ping_create ack x)) True =
   Ok (\<lparr>pp_byte = 8, pp_is_ack = f, opaque_8bytes = x\<rparr>,
       if f \<noteq> 0 then call (Ack_ping x) t else ping_received now \<lparr>pp_byte = 8, pp_is_ack = f, opaque_8bytes = x\<rparr> t)"
proof -
  have "ping_loop \<lparr>pp_byte = 0, pp_is_ack = f, opaque_8bytes = 0\<rparr> (drop 9 (grpc_chttp2_ping_create ack x)) =
    \<lparr>pp_byte = 8, pp_is_ack = f, opaque_8bytes = x\<rparr>"
    using u64_bytes [of x] by (simp add: grpc_chttp2_ping_create_def or.assoc)
  then show ?thesis by (auto simp: grpc_chttp2_ping_parser_parse_def Let_def)
qed

lemma rst_whole:
  assumes "incoming_stream t = Some s" and "length (reason_bytes p) = 4"
  shows "grpc_chttp2_rst_stream_parser_parse (p\<lparr>rp_byte := 0\<rparr>, t) (put_u32 x) True =
    Ok (p\<lparr>rp_byte := 4, reason_bytes := put_u32 x\<rparr>,
        call (Mark_closed (if x \<noteq> 0 \<or> trailing_size s = 0 then Some x else None)) t)"
proof -
  obtain a b c d where r: "reason_bytes p = [a, b, c, d]"
    using assms(2) by (auto simp: eval_nat_numeral length_Suc_conv)
  have "rst_loop (p\<lparr>rp_byte := 0\<rparr>) (put_u32 x) = (p\<lparr>rp_byte := 4, reason_bytes := put_u32 x\<rparr>, [])"
    by (simp add: put_u32_def r)
  moreover have "push_bit 24 (ucast (put_u32 x ! 0)) OR push_bit 16 (ucast (put_u32 x ! 1)) OR
    push_bit 8 (ucast (put_u32 x ! 2)) OR ucast (put_u32 x ! 3) = x"
    using u32_bytes [of x] by (simp add: put_u32_def or.assoc)
  ultimately show ?thesis using assms(1) by (simp add: grpc_chttp2_rst_stream_parser_parse_def Let_def or.assoc)
qed

lemma u32_top_bit:
  assumes "x < (0x80000000 :: u32)"
  shows "x AND 0x80000000 = 0"
proof (rule bit_word_eqI)
  fix n assume "n < LENGTH(32)"
  have "unat x < 2 ^ 31" using assms by (simp add: word_less_nat_alt)
  then have "\<not> bit (unat x) 31" by (simp add: bit_iff_odd)
  then have "\<not> bit x 31" by (simp add: bit_unsigned_iff)
  moreover have "bit (x AND push_bit 31 1) n \<longleftrightarrow> n = 31 \<and> bit x 31" for n
    by (cases "n = 31") (auto simp only: bit_and_iff bit_push_bit_iff bit_1_iff, auto dest: bit_imp_le_length)
  ultimately show "bit (x AND 0x80000000) n = bit (0 :: u32) n" by simp
qed

lemma window_whole:
  assumes "x \<noteq> 0" and "x < 0x80000000"
  shows "grpc_chttp2_window_update_parser_parse (\<lparr>wp_byte = 0, amount = 0\<rparr>, t) (put_u32 x) True =
    Ok (\<lparr>wp_byte = 4, amount = x\<rparr>, window_received x t)"
proof -
  have "window_loop \<lparr>wp_byte = 0, amount = 0\<rparr> (put_u32 x) = (\<lparr>wp_byte = 4, amount = x\<rparr>, [])"
    using u32_bytes [of x] by (simp add: put_u32_def or.assoc)
  moreover have "x AND 0x80000000 = 0" using assms(2) by (rule u32_top_bit)
  ultimately show ?thesis using assms(1) by (simp add: grpc_chttp2_window_update_parser_parse_def Let_def)
qed

lemma goaway_whole:
  assumes "length (debug_data p) = length dbg" and "debug_length p = length dbg" and "debug_pos p = 0" and "gp_state p = LSI0"
    and "length dbg < 4294967295"
  shows "grpc_chttp2_goaway_parser_parse (p, t) (put_u32 lsi @ put_u32 e @ dbg) True =
    Ok (p\<lparr>gp_state := DEBUG, last_stream_id := lsi, error_code := e, debug_data := [], debug_pos := length dbg\<rparr>,
        call (Add_goaway e dbg) t)"
proof -
  have "goaway_loop p t (put_u32 lsi @ put_u32 e @ dbg) True =
    goaway_loop (p\<lparr>last_stream_id := lsi, error_code := e, gp_state := DEBUG\<rparr>) t dbg True"
    using u32_bytes [of lsi] u32_bytes [of e] assms(4) by (simp add: put_u32_def or.assoc)
  also have "\<dots> = Ok (p\<lparr>gp_state := DEBUG, last_stream_id := lsi, error_code := e, debug_data := [], debug_pos := length dbg\<rparr>,
        call (Add_goaway e dbg) t)"
    using assms by (simp add: goaway_loop_DEBUG goaway_debug_def write_at_def)
  finally show ?thesis by (simp add: grpc_chttp2_goaway_parser_parse_def)
qed

lemma put_state: "sp_state p = q \<Longrightarrow> p\<lparr>sp_id := a, sp_value := b, sp_state := q\<rparr> = p\<lparr>sp_id := a, sp_value := b\<rparr>"
  by (cases p) simp

lemma settings_entry:
  assumes "sp_state p = SPS_ID0"
  shows "settings_loop p t (put_setting new i @ bs) l =
    rbind (apply_setting (p\<lparr>sp_id := grpc_setting_id_to_wire_id ! i, sp_value := new ! i\<rparr>) t)
      (\<lambda>(p, t). settings_loop p t bs l)"
  using assms u32_bytes [of "new ! i"] u16_bytes [of "grpc_setting_id_to_wire_id ! i"]
  by (simp add: put_setting_def put_u32_def or.assoc put_state)

definition valid_setting :: "nat \<Rightarrow> u32 \<Rightarrow> bool" where
  "valid_setting i v \<longleftrightarrow> min_value (grpc_chttp2_settings_parameters ! i) \<le> v \<and> v \<le> max_value (grpc_chttp2_settings_parameters ! i)"

lemma less_7: "i < 7 \<longleftrightarrow> i = 0 \<or> i = 1 \<or> i = 2 \<or> i = 3 \<or> i = 4 \<or> i = 5 \<or> i = (6 :: nat)"
  by auto

lemma wire_id_back: "i < 7 \<Longrightarrow> grpc_wire_id_to_setting_id (ucast (grpc_setting_id_to_wire_id ! i)) = Some i"
  unfolding less_7 by (elim disjE) (simp_all add: grpc_wire_id_to_setting_id_def grpc_setting_id_to_wire_id_def Let_def)

lemma apply_valid:
  assumes "i < 7" and "valid_setting i v" and "flow_control_enabled t"
  shows "apply_setting (p\<lparr>sp_id := grpc_setting_id_to_wire_id ! i, sp_value := v\<rparr>) t =
    Ok (p\<lparr>sp_id := grpc_setting_id_to_wire_id ! i, sp_value := v, incoming_settings := (incoming_settings p)[i := v]\<rparr>,
        if i = 3 then t\<lparr>initial_window_update := initial_window_update t + (uint v - uint (incoming_settings p ! i))\<rparr> else t)"
  using assms by (auto simp: apply_setting_def wire_id_back valid_setting_def Let_def not_less [symmetric])

lemma settings_entries:
  assumes "sp_state p = SPS_ID0" and "flow_control_enabled t" and "length (incoming_settings p) = 7"
    and "\<forall>i \<in> set is. i < 7 \<and> valid_setting i (new ! i)"
  defines "st \<equiv> foldl (\<lambda>old i. old[i := new ! i]) (incoming_settings p) is"
  obtains p' where "incoming_settings p' = st" "sp_state p' = SPS_ID0"
    and "settings_loop p t (concat (map (put_setting new) is)) l =
      settings_loop p' (t\<lparr>initial_window_update := initial_window_update t + (uint (st ! 3) - uint (incoming_settings p ! 3))\<rparr>) [] l"
proof -
  have "\<exists>p'. incoming_settings p' = foldl (\<lambda>old i. old[i := new ! i]) (incoming_settings p) is \<and> sp_state p' = SPS_ID0 \<and>
    settings_loop p t (concat (map (put_setting new) is)) l = settings_loop p' (t\<lparr>initial_window_update := initial_window_update t +
      (uint (foldl (\<lambda>old i. old[i := new ! i]) (incoming_settings p) is ! 3) - uint (incoming_settings p ! 3))\<rparr>) [] l"
    using assms(1-4)
  proof (induction "is" arbitrary: p t)
    case Nil
    then show ?case by (intro exI [of _ p]) simp
  next
    case (Cons i "is")
    let ?p = "p\<lparr>sp_id := grpc_setting_id_to_wire_id ! i, sp_value := new ! i, incoming_settings := (incoming_settings p)[i := new ! i]\<rparr>"
    let ?t = "t\<lparr>initial_window_update := initial_window_update t + (uint (incoming_settings ?p ! 3) - uint (incoming_settings p ! 3))\<rparr>"
    have step: "settings_loop p t (concat (map (put_setting new) (i # is))) l = settings_loop ?p ?t (concat (map (put_setting new) is)) l"
      using Cons.prems by (simp add: settings_entry apply_valid)
    show ?case unfolding step using Cons.IH [of ?p ?t] Cons.prems by (auto simp: algebra_simps)
  qed
  then show ?thesis using that unfolding st_def by blast
qed

lemma foldl_settings_nth:
  "length xs = length new \<Longrightarrow> j < length new \<Longrightarrow>
   foldl (\<lambda>old i. old[i := new ! i]) xs is ! j = (if j \<in> set is then new ! j else xs ! j)"
  by (induction "is" arbitrary: xs) (auto simp: nth_list_update)

lemma foldl_settings_length [simp]: "length (foldl (\<lambda>old i. old[i := f i]) xs is) = length xs"
  by (induction "is" arbitrary: xs) auto

lemma settings_create_sent:
  assumes "length old = count" and "length new = count"
  shows "fst (grpc_chttp2_settings_create old new force_mask count) = new"
  using assms by (intro nth_equalityI) (auto simp: grpc_chttp2_settings_create_def foldl_settings_nth setting_changed_def Let_def)

end
