(* ===== verification/Http2_Deframe.thy ===== *)
theory Http2_Deframe
  imports Http2_Slices
begin

text \<open>
  The HTTP/2 deframer of gRPC, \<open>grpc_chttp2_perform_read\<close> of \<open>parsing.cc\<close>: it takes the bytes of the
  connection slice by slice, checks the connection preface, reads the nine-byte frame headers and hands
  each payload to the parser of its frame. The rest of the transport, with the parser of the current
  frame in it, is the field \<open>conn\<close>; the functions that are called on it are the \<open>callbacks\<close>.
\<close>

section \<open>The deframer\<close>

text \<open>
  The state is the number of the enumeration constant: below 24 the position in the connection preface,
  from \<open>DTS_FH_0\<close> to \<open>DTS_FH_0 + 8\<close> the position in the frame header, then \<open>DTS_FRAME\<close>.
\<close>

definition DTS_FH_0 :: nat where "DTS_FH_0 = 24"

definition DTS_FH_8 :: nat where "DTS_FH_8 = 32"

definition DTS_FRAME :: nat where "DTS_FRAME = 33"

lemmas dts_defs = DTS_FH_0_def DTS_FH_8_def DTS_FRAME_def

definition GRPC_CHTTP2_CLIENT_CONNECT_STRING :: "byte list" where
  "GRPC_CHTTP2_CLIENT_CONNECT_STRING =
     map (\<lambda>c. of_nat (of_char c)) ''PRI * HTTP/2.0'' @ [13, 10, 13, 10] @ map (\<lambda>c. of_nat (of_char c)) ''SM'' @ [13, 10, 13, 10]"

record 's deframer =
  deframe_state :: nat
  incoming_frame_size :: u32
  incoming_frame_type :: byte
  incoming_frame_flags :: byte
  frame_stream_id :: u32
  conn :: 's

text \<open>
  \<open>init_frame\<close> is called with size, type, flags and stream of the frame; \<open>clear_stream\<close> is the assignment
  of \<open>nullptr\<close> to \<open>incoming_stream\<close>; \<open>max_frame_size\<close> is the acknowledged limit, \<open>None\<close> where flow control is off.
\<close>

record 's callbacks =
  init_frame :: "u32 \<Rightarrow> byte \<Rightarrow> byte \<Rightarrow> u32 \<Rightarrow> 's \<Rightarrow> 's res"
  parse_slice :: "'s \<Rightarrow> byte list \<Rightarrow> bool \<Rightarrow> 's res"
  clear_stream :: "'s \<Rightarrow> 's"
  max_frame_size :: "'s \<Rightarrow> u32 option"

definition header_byte :: "byte \<Rightarrow> 's deframer \<Rightarrow> 's deframer" where
  "header_byte b c =
     (let i = deframe_state c - DTS_FH_0; c = c\<lparr>deframe_state := deframe_state c + 1\<rparr>
      in if i = 0 then c\<lparr>incoming_frame_size := push_bit 16 (ucast b)\<rparr>
         else if i = 1 then c\<lparr>incoming_frame_size := incoming_frame_size c OR push_bit 8 (ucast b)\<rparr>
         else if i = 2 then c\<lparr>incoming_frame_size := incoming_frame_size c OR ucast b\<rparr>
         else if i = 3 then c\<lparr>incoming_frame_type := b\<rparr>
         else if i = 4 then c\<lparr>incoming_frame_flags := b\<rparr>
         else if i = 5 then c\<lparr>frame_stream_id := push_bit 24 (ucast b AND 0x7f)\<rparr>
         else if i = 6 then c\<lparr>frame_stream_id := frame_stream_id c OR push_bit 16 (ucast b)\<rparr>
         else if i = 7 then c\<lparr>frame_stream_id := frame_stream_id c OR push_bit 8 (ucast b)\<rparr>
         else c\<lparr>frame_stream_id := frame_stream_id c OR ucast b\<rparr>)"

definition frame_too_large :: "'s callbacks \<Rightarrow> 's deframer \<Rightarrow> bool" where
  "frame_too_large k c \<longleftrightarrow> (case max_frame_size k (conn c) of None \<Rightarrow> False | Some m \<Rightarrow> incoming_frame_size c > m)"

lemma rbind_cong [fundef_cong]: "m = m' \<Longrightarrow> (\<And>x. m' = Ok x \<Longrightarrow> f x = g x) \<Longrightarrow> rbind m f = rbind m' g"
  by (cases m') simp_all

function grpc_chttp2_perform_read :: "'s callbacks \<Rightarrow> 's deframer \<Rightarrow> byte list \<Rightarrow> 's deframer res" where
  "grpc_chttp2_perform_read k c [] = Ok c"
| "grpc_chttp2_perform_read k c (b # bs) =
     (if deframe_state c < DTS_FH_0
      then if b \<noteq> GRPC_CHTTP2_CLIENT_CONNECT_STRING ! deframe_state c then Err ''connect string mismatch''
           else grpc_chttp2_perform_read k (c\<lparr>deframe_state := deframe_state c + 1\<rparr>) bs
      else if deframe_state c < DTS_FH_8 then grpc_chttp2_perform_read k (header_byte b c) bs
      else if deframe_state c = DTS_FH_8
      then let c = header_byte b c
           in rbind (init_frame k (incoming_frame_size c) (incoming_frame_type c) (incoming_frame_flags c) (frame_stream_id c) (conn c))
                (\<lambda>s. if incoming_frame_size c = 0
                     then rbind (parse_slice k s [] True)
                            (\<lambda>s. grpc_chttp2_perform_read k (c\<lparr>conn := clear_stream k s, deframe_state := DTS_FH_0\<rparr>) bs)
                     else if frame_too_large k (c\<lparr>conn := s\<rparr>) then Err ''frame size is larger than max frame size''
                     else grpc_chttp2_perform_read k (c\<lparr>conn := s\<rparr>) bs)
      else let n = of_nat (length (b # bs)) :: u32
           in if n = incoming_frame_size c
              then rbind (parse_slice k (conn c) (b # bs) True)
                     (\<lambda>s. Ok (c\<lparr>conn := clear_stream k s, deframe_state := DTS_FH_0\<rparr>))
              else if n > incoming_frame_size c
              then rbind (parse_slice k (conn c) (take (unat (incoming_frame_size c)) (b # bs)) True)
                     (\<lambda>s. grpc_chttp2_perform_read k (c\<lparr>conn := clear_stream k s, deframe_state := DTS_FH_0\<rparr>)
                       (drop (unat (incoming_frame_size c)) (b # bs)))
              else rbind (parse_slice k (conn c) (b # bs) False)
                     (\<lambda>s. Ok (c\<lparr>conn := s, incoming_frame_size := incoming_frame_size c - n\<rparr>)))"
  by pat_completeness auto

termination
  by (relation "measure (\<lambda>(k, c, bs). 2 * length bs + (if deframe_state c \<le> DTS_FH_8 then 0 else 1))")
    (auto simp: dts_defs)

text \<open>The loop of \<open>read_action_locked\<close> over the slices that were read.\<close>

fun read_slices :: "'s callbacks \<Rightarrow> 's deframer \<Rightarrow> byte list list \<Rightarrow> 's deframer res" where
  "read_slices k c [] = Ok c"
| "read_slices k c (x # xs) = rbind (grpc_chttp2_perform_read k c x) (\<lambda>c. read_slices k c xs)"

section \<open>Slices of the connection\<close>

lemma header_byte_state [simp]: "deframe_state (header_byte b c) = deframe_state c + 1"
  by (simp add: header_byte_def Let_def)

text \<open>
  Between frames the deframer still holds the size of the last frame, or what was left of it; the next header overwrites it.
\<close>

definition settle :: "'s deframer \<Rightarrow> 's deframer" where
  "settle c = (if deframe_state c = DTS_FH_0 then c\<lparr>incoming_frame_size := 0\<rparr> else c)"

definition mapr :: "('a \<Rightarrow> 'b) \<Rightarrow> 'a res \<Rightarrow> 'b res" where
  "mapr f m = rbind m (\<lambda>x. Ok (f x))"

lemma mapr_simps [simp]:
  "mapr f (Ok x) = Ok (f x)" "mapr f (Err e) = Err e" "mapr f Abort = Abort" "mapr f (rbind m g) = rbind m (\<lambda>x. mapr f (g x))"
  by (simp_all add: mapr_def rbind_assoc)

lemma read_stale:
  assumes "deframe_state c = DTS_FH_0"
  shows "mapr settle (grpc_chttp2_perform_read k (c\<lparr>incoming_frame_size := n\<rparr>) bs) = mapr settle (grpc_chttp2_perform_read k c bs)"
proof (cases bs)
  case (Cons b bs)
  have "header_byte b (c\<lparr>incoming_frame_size := n\<rparr>) = header_byte b c"
    using assms by (simp add: header_byte_def)
  then show ?thesis using assms by (simp add: Cons dts_defs)
qed (use assms in \<open>simp add: settle_def\<close>)

lemma read_stale_next:
  "mapr settle (grpc_chttp2_perform_read k (c\<lparr>incoming_frame_size := n, conn := s, deframe_state := DTS_FH_0\<rparr>) bs) =
   mapr settle (grpc_chttp2_perform_read k (c\<lparr>conn := s, deframe_state := DTS_FH_0\<rparr>) bs)"
  using read_stale [of "c\<lparr>conn := s, deframe_state := DTS_FH_0\<rparr>" k n bs] by (cases c) simp

lemma dts_neq [simp]: "DTS_FH_0 \<noteq> DTS_FRAME" "DTS_FRAME \<noteq> DTS_FH_0"
  by (simp_all add: dts_defs)

text \<open>Inside a frame its parser waits for the rest of the payload.\<close>

definition deframe_ok :: "('s \<Rightarrow> nat \<Rightarrow> bool) \<Rightarrow> 's deframer \<Rightarrow> bool" where
  "deframe_ok expects c \<longleftrightarrow> deframe_state c \<le> DTS_FRAME \<and>
     (deframe_state c = DTS_FRAME \<longrightarrow> incoming_frame_size c \<noteq> 0 \<and> expects (conn c) (unat (incoming_frame_size c)))"

lemma read_frame:
  assumes "deframe_state c = DTS_FRAME" and "bs \<noteq> []" and "length bs < 4294967296"
  shows "grpc_chttp2_perform_read k c bs =
    (let n = unat (incoming_frame_size c)
     in if n \<le> length bs
        then rbind (parse_slice k (conn c) (take n bs) True)
               (\<lambda>s. grpc_chttp2_perform_read k (c\<lparr>conn := clear_stream k s, deframe_state := DTS_FH_0\<rparr>) (drop n bs))
        else rbind (parse_slice k (conn c) bs False)
               (\<lambda>s. Ok (c\<lparr>conn := s, incoming_frame_size := incoming_frame_size c - of_nat (length bs)\<rparr>)))"
proof -
  have u: "unat (of_nat (length bs) :: u32) = length bs" using assms(3) by (simp add: unat_of_nat)
  have "of_nat (length bs) = incoming_frame_size c \<longleftrightarrow> length bs = unat (incoming_frame_size c)"
    using u by (metis unsigned_word_eqI)
  moreover have "of_nat (length bs) > incoming_frame_size c \<longleftrightarrow> length bs > unat (incoming_frame_size c)"
    using u by (simp add: word_less_nat_alt)
  ultimately show ?thesis using assms(1,2)
    by (cases bs) (auto simp: dts_defs Let_def)
qed

text \<open>
  \<open>grpc_chttp2_perform_read\<close> relies on the parsers and on what \<open>init_frame_parser\<close> leaves behind.
\<close>

locale deframing = frame_parser "parse_slice k" expects for k :: "'s callbacks" and expects :: "'s \<Rightarrow> nat \<Rightarrow> bool" +
  assumes init_expects: "init_frame k len ty fl sid s = Ok s' \<Longrightarrow> len \<noteq> 0 \<Longrightarrow> expects s' (unat len)"
begin

lemma deframe_ok_rest:
  assumes "deframe_ok expects c" and "deframe_state c = DTS_FRAME" and "a \<noteq> []" and "length a < unat (incoming_frame_size c)"
    and "parse_slice k (conn c) a False = Ok s"
  shows "deframe_ok expects (c\<lparr>conn := s, incoming_frame_size := incoming_frame_size c - of_nat (length a)\<rparr>)"
    and "unat (incoming_frame_size c - of_nat (length a)) = unat (incoming_frame_size c) - length a"
proof -
  have l: "length a < 4294967296" using assms(4) unat_u32_less [of "incoming_frame_size c"] by linarith
  have u: "unat (of_nat (length a) :: u32) = length a" using l by (simp add: unat_of_nat)
  then have "of_nat (length a) \<le> incoming_frame_size c" using assms(4) by (simp add: word_le_nat_alt)
  then show v: "unat (incoming_frame_size c - of_nat (length a)) = unat (incoming_frame_size c) - length a"
    using u by (simp add: unat_sub)
  moreover have "incoming_frame_size c - of_nat (length a) \<noteq> 0" using v assms(4) by (metis diff_is_0_eq not_less unat_0)
  ultimately show "deframe_ok expects (c\<lparr>conn := s, incoming_frame_size := incoming_frame_size c - of_nat (length a)\<rparr>)"
    using assms rest [OF _ assms(3,4,5)] by (simp add: deframe_ok_def)
qed

lemma read_append_frame:
  assumes ok: "deframe_ok expects c" and f: "deframe_state c = DTS_FRAME" and "a \<noteq> []" "b \<noteq> []" and l: "length a + length b < 4294967296"
    and short: "length a < unat (incoming_frame_size c)"
  shows "mapr settle (grpc_chttp2_perform_read k c (a @ b)) =
    rbind (grpc_chttp2_perform_read k c a) (\<lambda>c. mapr settle (grpc_chttp2_perform_read k c b))"
proof -
  let ?n = "unat (incoming_frame_size c)" and ?b = "take (unat (incoming_frame_size c) - length a) b"
  let ?c = "\<lambda>s. c\<lparr>conn := s, incoming_frame_size := incoming_frame_size c - of_nat (length a)\<rparr>"
  let ?next = "\<lambda>s. mapr settle (grpc_chttp2_perform_read k (c\<lparr>conn := clear_stream k s, deframe_state := DTS_FH_0\<rparr>) (drop (?n - length a) b))"
  have e: "expects (conn c) ?n" using ok f by (simp add: deframe_ok_def)
  have b: "?b \<noteq> []" "length a + length ?b \<le> ?n" "(length a + length ?b = ?n) = (?n \<le> length a + length b)" using assms by auto
  have first: "grpc_chttp2_perform_read k c a = rbind (parse_slice k (conn c) a False) (\<lambda>s. Ok (?c s))"
    using read_frame [OF f assms(3)] l short by simp
  have cut: "parse_slice k (conn c) (a @ ?b) (?n \<le> length a + length b) =
    rbind (parse_slice k (conn c) a False) (\<lambda>s. parse_slice k s ?b (?n \<le> length a + length b))"
    using split [OF e assms(3) b(1,2)] b(3) by simp
  have whole: "mapr settle (grpc_chttp2_perform_read k c (a @ b)) =
    (if ?n \<le> length a + length b then rbind (parse_slice k (conn c) (a @ ?b) True) ?next
     else rbind (parse_slice k (conn c) (a @ b) False)
       (\<lambda>s. Ok (c\<lparr>conn := s, incoming_frame_size := incoming_frame_size c - of_nat (length a) - of_nat (length b)\<rparr>)))"
    using read_frame [OF f, of "a @ b"] assms(3) l short f by (simp add: Let_def settle_def dts_defs algebra_simps)
  have second: "mapr settle (grpc_chttp2_perform_read k (?c s) b) =
    (if ?n \<le> length a + length b then rbind (parse_slice k s ?b True) ?next
     else rbind (parse_slice k s b False)
       (\<lambda>s. Ok (c\<lparr>conn := s, incoming_frame_size := incoming_frame_size c - of_nat (length a) - of_nat (length b)\<rparr>)))"
    if "parse_slice k (conn c) a False = Ok s" for s
    using read_frame [OF _ assms(4), of "?c s"] f l short
    by (simp add: Let_def deframe_ok_rest(2) [OF ok f assms(3) short that] read_stale_next settle_def le_diff_conv add.commute)
  show ?thesis
    using cut unfolding whole first by (cases "parse_slice k (conn c) a False") (auto simp: second rbind_assoc)
qed

lemma read_append_over:
  assumes ok: "deframe_ok expects c" and f: "deframe_state c = DTS_FRAME" and "a \<noteq> []" and l: "length a + length b < 4294967296"
    and long: "unat (incoming_frame_size c) \<le> length a"
  defines "read \<equiv> \<lambda>s. grpc_chttp2_perform_read k (c\<lparr>conn := clear_stream k s, deframe_state := DTS_FH_0\<rparr>)"
    and "rest \<equiv> drop (unat (incoming_frame_size c)) a"
  assumes later: "\<And>s. mapr settle (read s (rest @ b)) = rbind (read s rest) (\<lambda>c. mapr settle (grpc_chttp2_perform_read k c b))"
    and later_ok: "\<And>s c'. read s rest = Ok c' \<Longrightarrow> deframe_ok expects c'"
  shows "mapr settle (grpc_chttp2_perform_read k c (a @ b)) =
      rbind (grpc_chttp2_perform_read k c a) (\<lambda>c. mapr settle (grpc_chttp2_perform_read k c b))
    \<and> (\<forall>c'. grpc_chttp2_perform_read k c a = Ok c' \<longrightarrow> deframe_ok expects c')"
proof -
  let ?n = "unat (incoming_frame_size c)"
  have head: "grpc_chttp2_perform_read k c a = rbind (parse_slice k (conn c) (take ?n a) True) (\<lambda>s. read s rest)"
    using read_frame [OF f assms(3)] l long by (simp add: Let_def read_def rest_def)
  have whole: "grpc_chttp2_perform_read k c (a @ b) = rbind (parse_slice k (conn c) (take ?n a) True) (\<lambda>s. read s (rest @ b))"
    using read_frame [OF f, of "a @ b"] assms(3) l long by (simp add: Let_def read_def rest_def)
  show ?thesis unfolding head whole
    by (cases "parse_slice k (conn c) (take ?n a) True") (auto simp: later dest: later_ok)
qed

lemma read_append_under:
  assumes ok: "deframe_ok expects c" and f: "deframe_state c = DTS_FRAME" and ne: "a \<noteq> []" and l: "length a + length b < 4294967296"
    and short: "length a < unat (incoming_frame_size c)"
  shows "mapr settle (grpc_chttp2_perform_read k c (a @ b)) =
      rbind (grpc_chttp2_perform_read k c a) (\<lambda>c. mapr settle (grpc_chttp2_perform_read k c b))
    \<and> (\<forall>c'. grpc_chttp2_perform_read k c a = Ok c' \<longrightarrow> deframe_ok expects c')"
proof -
  have first: "grpc_chttp2_perform_read k c a = rbind (parse_slice k (conn c) a False)
    (\<lambda>s. Ok (c\<lparr>conn := s, incoming_frame_size := incoming_frame_size c - of_nat (length a)\<rparr>))"
    using read_frame [OF f ne] l short by simp
  have "deframe_ok expects c'" if "grpc_chttp2_perform_read k c a = Ok c'" for c'
    using that deframe_ok_rest(1) [OF ok f ne short]
    unfolding first by (cases "parse_slice k (conn c) a False") auto
  then show ?thesis using read_append_frame [OF ok f ne _ l short]
    by (cases "b = []") (simp_all add: mapr_def)
qed

lemma read_append:
  assumes "deframe_ok expects c" and "length a + length b < 4294967296"
  shows "mapr settle (grpc_chttp2_perform_read k c (a @ b)) =
      rbind (grpc_chttp2_perform_read k c a) (\<lambda>c. mapr settle (grpc_chttp2_perform_read k c b))
    \<and> (\<forall>c'. grpc_chttp2_perform_read k c a = Ok c' \<longrightarrow> deframe_ok expects c')"
  using assms
proof (induction "2 * length a + (if deframe_state c \<le> DTS_FH_8 then 0 else 1)" arbitrary: c a rule: less_induct)
  case less
  note IH = less.hyps and ok = less.prems(1) and l = less.prems(2)
  have next_ok: "deframe_ok expects (c\<lparr>conn := s, deframe_state := DTS_FH_0\<rparr>)" for c s
    by (simp add: deframe_ok_def dts_defs)
  show ?case
  proof (cases a)
    case (Cons x xs)
    consider "deframe_state c < DTS_FH_8" | "deframe_state c = DTS_FH_8" | "deframe_state c = DTS_FRAME"
      using ok unfolding deframe_ok_def dts_defs by linarith
    then show ?thesis
    proof cases
      case 1
      have "deframe_ok expects (c\<lparr>deframe_state := deframe_state c + 1\<rparr>)" "deframe_ok expects (header_byte x c)"
        using 1 by (auto simp: deframe_ok_def dts_defs)
      then show ?thesis
        using 1 IH [of xs "header_byte x c"] IH [of xs "c\<lparr>deframe_state := deframe_state c + 1\<rparr>"] l
        by (auto simp: Cons dts_defs)
    next
      case 2
      let ?c = "header_byte x c"
      show ?thesis
      proof (cases "init_frame k (incoming_frame_size ?c) (incoming_frame_type ?c) (incoming_frame_flags ?c) (frame_stream_id ?c) (conn ?c)")
        case (Ok s)
        have a: "deframe_ok expects (?c\<lparr>conn := s\<rparr>)" if "incoming_frame_size ?c \<noteq> 0"
          using 2 that init_expects [OF Ok that] by (simp add: deframe_ok_def dts_defs)
        show ?thesis
        proof (cases "incoming_frame_size ?c = 0")
          case True
          then show ?thesis using IH [OF _ next_ok [where c = ?c], of xs] l 2 Ok
            by (cases "parse_slice k s [] True") (simp_all add: Cons Let_def dts_defs)
        next
          case False
          then show ?thesis using IH [of xs "?c\<lparr>conn := s\<rparr>"] a l 2 Ok by (simp add: Cons Let_def dts_defs)
        qed
      qed (use 2 in \<open>simp_all add: Cons Let_def dts_defs\<close>)
    next
      case 3
      have ne: "a \<noteq> []" using Cons by simp
      show ?thesis
      proof (cases "length a < unat (incoming_frame_size c)")
        case True
        then show ?thesis by (rule read_append_under [OF ok 3 ne l])
      next
        case False
        let ?a = "drop (unat (incoming_frame_size c)) a"
        have "2 * length ?a + (if DTS_FH_0 \<le> DTS_FH_8 then 0 else 1) < 2 * length a + (if deframe_state c \<le> DTS_FH_8 then 0 else 1)"
          using 3 by (simp add: dts_defs)
        then have "mapr settle (grpc_chttp2_perform_read k (c\<lparr>conn := s, deframe_state := DTS_FH_0\<rparr>) (?a @ b)) =
            rbind (grpc_chttp2_perform_read k (c\<lparr>conn := s, deframe_state := DTS_FH_0\<rparr>) ?a) (\<lambda>c. mapr settle (grpc_chttp2_perform_read k c b))
          \<and> (\<forall>c'. grpc_chttp2_perform_read k (c\<lparr>conn := s, deframe_state := DTS_FH_0\<rparr>) ?a = Ok c' \<longrightarrow> deframe_ok expects c')" for s
          using IH [OF _ next_ok, of ?a s c] l by simp
        then show ?thesis using False by (intro read_append_over [OF ok 3 ne l]) auto
      qed
    qed
  qed (use ok in simp)
qed

lemma read_slices_whole:
  assumes "deframe_ok expects c" and "length (concat cs) < 4294967296"
  shows "mapr settle (read_slices k c cs) = mapr settle (grpc_chttp2_perform_read k c (concat cs))"
  using assms
proof (induction cs arbitrary: c)
  case (Cons x xs)
  have a: "mapr settle (grpc_chttp2_perform_read k c (x @ concat xs)) =
      rbind (grpc_chttp2_perform_read k c x) (\<lambda>c. mapr settle (grpc_chttp2_perform_read k c (concat xs)))"
    "grpc_chttp2_perform_read k c x = Ok c' \<Longrightarrow> deframe_ok expects c'" for c'
    using read_append [OF Cons.prems(1), of x "concat xs"] Cons.prems(2) by auto
  show ?case using Cons.IH a Cons.prems(2) by (cases "grpc_chttp2_perform_read k c x") auto
qed simp

end

section \<open>Frames\<close>

record h2_frame =
  fr_type :: byte
  fr_flags :: byte
  fr_stream :: u32
  fr_payload :: "byte list"

definition frame_header :: "u32 \<Rightarrow> byte \<Rightarrow> byte \<Rightarrow> u32 \<Rightarrow> byte list" where
  "frame_header len ty fl sid = [ucast (drop_bit 16 len), ucast (drop_bit 8 len), ucast len, ty, fl] @ put_u32 sid"

definition frame_bytes :: "h2_frame \<Rightarrow> byte list" where
  "frame_bytes f = frame_header (of_nat (length (fr_payload f))) (fr_type f) (fr_flags f) (fr_stream f) @ fr_payload f"

definition valid_frame :: "h2_frame \<Rightarrow> bool" where
  "valid_frame f \<longleftrightarrow> length (fr_payload f) < 16777216 \<and> fr_stream f < 0x80000000"

text \<open>What becomes of a whole frame.\<close>

definition handle_frame :: "'s callbacks \<Rightarrow> h2_frame \<Rightarrow> 's \<Rightarrow> 's res" where
  "handle_frame k f s =
     (let len = of_nat (length (fr_payload f)) :: u32
      in rbind (init_frame k len (fr_type f) (fr_flags f) (fr_stream f) s)
           (\<lambda>s. if len \<noteq> 0 \<and> (case max_frame_size k s of None \<Rightarrow> False | Some m \<Rightarrow> len > m)
                then Err ''frame size is larger than max frame size''
                else mapr (clear_stream k) (parse_slice k s (fr_payload f) True)))"

fun handle_frames :: "'s callbacks \<Rightarrow> h2_frame list \<Rightarrow> 's \<Rightarrow> 's res" where
  "handle_frames k [] s = Ok s"
| "handle_frames k (f # fs) s = rbind (handle_frame k f s) (handle_frames k fs)"

lemma u24_bytes:
  assumes "x < (0x1000000 :: u32)"
  shows "push_bit 16 (ucast (ucast (drop_bit 16 x) :: byte)) OR push_bit 8 (ucast (ucast (drop_bit 8 x) :: byte)) OR ucast (ucast x :: byte) = x"
proof -
  have "unat x < 2 ^ 24" using assms by (simp add: word_less_nat_alt)
  then have "drop_bit 24 x = 0" by (simp add: drop_bit_eq_div word_arith_nat_div)
  then show ?thesis using u32_bytes [of x] by simp
qed

lemma u31_bytes:
  assumes "x < (0x80000000 :: u32)"
  shows "push_bit 24 (ucast (ucast (drop_bit 24 x) :: byte) AND 0x7f) OR push_bit 16 (ucast (ucast (drop_bit 16 x) :: byte)) OR
    push_bit 8 (ucast (ucast (drop_bit 8 x) :: byte)) OR ucast (ucast x :: byte) = x"
proof -
  have "ucast (ucast (drop_bit 24 x) :: byte) AND 0x7f = (ucast (ucast (drop_bit 24 x) :: byte) :: u32)" (is "?y AND _ = _")
  proof -
    have "unat x < 2 ^ 31" using assms by (simp add: word_less_nat_alt)
    then have "unat (drop_bit 24 x) < 128" by (simp add: drop_bit_eq_div unat_div_distrib)
    then have "unat ?y < 128" by (simp add: unsigned_ucast_eq unsigned_take_bit_eq) (simp add: take_bit_eq_mod)
    then have "drop_bit 7 ?y = 0" by (simp only: drop_bit_eq_div word_arith_nat_div) simp
    then have "take_bit 7 ?y = ?y" by (simp only: take_bit_eq_self_iff_drop_bit_eq_0)
    then show ?thesis by (simp add: take_bit_eq_mask mask_eq_exp_minus_1)
  qed
  then show ?thesis using u32_bytes [of x] by simp
qed

lemma read_header_byte:
  "DTS_FH_0 \<le> deframe_state c \<Longrightarrow> deframe_state c < DTS_FH_8 \<Longrightarrow>
   grpc_chttp2_perform_read k c (b # bs) = grpc_chttp2_perform_read k (header_byte b c) bs"
  by simp

lemma read_header_end:
  assumes "deframe_state c = DTS_FH_8" and "header_byte b c = c'"
  shows "grpc_chttp2_perform_read k c (b # bs) =
    rbind (init_frame k (incoming_frame_size c') (incoming_frame_type c') (incoming_frame_flags c') (frame_stream_id c') (conn c'))
      (\<lambda>s. if incoming_frame_size c' = 0
           then rbind (parse_slice k s [] True)
                  (\<lambda>s. grpc_chttp2_perform_read k (c'\<lparr>conn := clear_stream k s, deframe_state := DTS_FH_0\<rparr>) bs)
           else if frame_too_large k (c'\<lparr>conn := s\<rparr>) then Err ''frame size is larger than max frame size''
           else grpc_chttp2_perform_read k (c'\<lparr>conn := s\<rparr>) bs)"
proof -
  have "\<not> deframe_state c < DTS_FH_0" "\<not> deframe_state c < DTS_FH_8" using assms(1) by (simp_all add: dts_defs)
  then show ?thesis using assms by (simp add: Let_def)
qed

fun header_bytes :: "byte list \<Rightarrow> 's deframer \<Rightarrow> 's deframer" where
  "header_bytes [] c = c"
| "header_bytes (b # bs) c = header_bytes bs (header_byte b c)"

lemma read_header_bytes:
  assumes "DTS_FH_0 \<le> deframe_state c" and "deframe_state c + length xs \<le> DTS_FH_8"
  shows "grpc_chttp2_perform_read k c (xs @ bs) = grpc_chttp2_perform_read k (header_bytes xs c) bs"
  using assms by (induction xs arbitrary: c) (simp_all add: read_header_byte)

lemma header_bytes_eq:
  assumes "deframe_state c = DTS_FH_0" and "len < 0x1000000" and "sid < 0x80000000"
  shows "header_bytes (frame_header len ty fl sid) c =
    c\<lparr>deframe_state := DTS_FRAME, incoming_frame_size := len, incoming_frame_type := ty, incoming_frame_flags := fl, frame_stream_id := sid\<rparr>"
  using assms(1) u24_bytes [OF assms(2)] u31_bytes [OF assms(3)]
  by (cases c) (simp add: frame_header_def put_u32_def header_byte_def dts_defs or.assoc)

lemma read_header:
  assumes "deframe_state c = DTS_FH_0" and "len < 0x1000000" and "sid < 0x80000000"
    and c': "c' = c\<lparr>deframe_state := DTS_FRAME, incoming_frame_size := len, incoming_frame_type := ty, incoming_frame_flags := fl,
      frame_stream_id := sid\<rparr>"
  shows "grpc_chttp2_perform_read k c (frame_header len ty fl sid @ bs) =
    rbind (init_frame k len ty fl sid (conn c))
      (\<lambda>s. if len = 0
           then rbind (parse_slice k s [] True)
                  (\<lambda>s. grpc_chttp2_perform_read k (c'\<lparr>conn := clear_stream k s, deframe_state := DTS_FH_0\<rparr>) bs)
           else if frame_too_large k (c'\<lparr>conn := s\<rparr>) then Err ''frame size is larger than max frame size''
           else grpc_chttp2_perform_read k (c'\<lparr>conn := s\<rparr>) bs)"
proof -
  define xs where "xs = butlast (frame_header len ty fl sid)"
  have split: "frame_header len ty fl sid = xs @ [ucast sid]" and l: "length xs = 8"
    by (simp_all add: xs_def frame_header_def put_u32_def)
  have app: "header_bytes (xs @ [b]) c = header_byte b (header_bytes xs c)" for xs b and c :: "'a deframer"
    by (induction xs arbitrary: c) simp_all
  have st: "deframe_state (header_bytes xs c) = deframe_state c + length xs" for xs and c :: "'a deframer"
    by (induction xs arbitrary: c) simp_all
  have "grpc_chttp2_perform_read k c (frame_header len ty fl sid @ bs) = grpc_chttp2_perform_read k (header_bytes xs c) (ucast sid # bs)"
    using read_header_bytes [of c xs k "ucast sid # bs"] assms(1) l by (simp add: split dts_defs)
  moreover have "header_byte (ucast sid) (header_bytes xs c) = c'"
    using header_bytes_eq [OF assms(1-3), of ty fl] by (simp add: split app c')
  moreover have "deframe_state (header_bytes xs c) = DTS_FH_8" using st [of xs c] l assms(1) by (simp add: dts_defs)
  ultimately show ?thesis using read_header_end [of "header_bytes xs c" "ucast sid" c' k bs] by (simp add: c')
qed

lemma handle_frame_read:
  assumes c: "deframe_state c = DTS_FH_0" and f: "valid_frame f" and l: "length (fr_payload f) + length bs < 4294967296"
  shows "grpc_chttp2_perform_read k c (frame_bytes f @ bs) =
    rbind (handle_frame k f (conn c))
      (\<lambda>s. grpc_chttp2_perform_read k (c\<lparr>incoming_frame_size := of_nat (length (fr_payload f)), incoming_frame_type := fr_type f,
         incoming_frame_flags := fr_flags f, frame_stream_id := fr_stream f, conn := s\<rparr>) bs)"
proof -
  let ?n = "of_nat (length (fr_payload f)) :: u32"
  define c' where "c' = c\<lparr>deframe_state := DTS_FRAME, incoming_frame_size := ?n, incoming_frame_type := fr_type f,
    incoming_frame_flags := fr_flags f, frame_stream_id := fr_stream f\<rparr>"
  have u: "unat ?n = length (fr_payload f)" using f by (simp add: valid_frame_def unat_of_nat)
  have n: "?n < 0x1000000" "?n = 0 \<longleftrightarrow> fr_payload f = []" using f u by (auto simp: valid_frame_def word_less_nat_alt simp flip: unat_eq_0)
  have after: "c'\<lparr>conn := s, deframe_state := DTS_FH_0\<rparr> = c\<lparr>incoming_frame_size := ?n, incoming_frame_type := fr_type f,
         incoming_frame_flags := fr_flags f, frame_stream_id := fr_stream f, conn := s\<rparr>" for s
    using c by (cases c) (simp add: c'_def)
  have payload: "grpc_chttp2_perform_read k (c'\<lparr>conn := s\<rparr>) (fr_payload f @ bs) =
    rbind (parse_slice k s (fr_payload f) True)
      (\<lambda>s. grpc_chttp2_perform_read k (c'\<lparr>conn := clear_stream k s, deframe_state := DTS_FH_0\<rparr>) bs)" if "fr_payload f \<noteq> []" for s
    using that read_frame [of "c'\<lparr>conn := s\<rparr>" "fr_payload f @ bs" k] l u by (simp add: c'_def Let_def)
  have large: "frame_too_large k (c'\<lparr>conn := s\<rparr>) = (case max_frame_size k s of None \<Rightarrow> False | Some m \<Rightarrow> ?n > m)" for s
    by (simp add: frame_too_large_def c'_def split: option.split)
  show ?thesis
    unfolding frame_bytes_def append_assoc read_header [OF c n(1) f [unfolded valid_frame_def, THEN conjunct2] c'_def]
    using n(2) payload by (cases "fr_payload f = []")
      (auto simp: handle_frame_def large after rbind_assoc mapr_def Let_def intro!: arg_cong2 [where f = rbind] ext)
qed

lemma read_frames:
  assumes "deframe_state c = DTS_FH_0" and "list_all valid_frame fs" and "length (concat (map frame_bytes fs)) < 4294967296"
  shows "mapr (\<lambda>c. (deframe_state c, conn c)) (grpc_chttp2_perform_read k c (concat (map frame_bytes fs))) =
    mapr (Pair DTS_FH_0) (handle_frames k fs (conn c))"
  using assms
proof (induction fs arbitrary: c)
  case (Cons f fs)
  have "length (fr_payload f) + length (concat (map frame_bytes fs)) < 4294967296"
    using Cons.prems(3) by (simp add: frame_bytes_def [of f])
  then have "grpc_chttp2_perform_read k c (concat (map frame_bytes (f # fs))) = rbind (handle_frame k f (conn c))
      (\<lambda>s. grpc_chttp2_perform_read k (c\<lparr>incoming_frame_size := of_nat (length (fr_payload f)), incoming_frame_type := fr_type f,
         incoming_frame_flags := fr_flags f, frame_stream_id := fr_stream f, conn := s\<rparr>) (concat (map frame_bytes fs)))"
    using handle_frame_read [of c f "concat (map frame_bytes fs)" k] Cons.prems(1,2) by simp
  then show ?case using Cons by (cases "handle_frame k f (conn c)") auto
qed simp

section \<open>Frames in slices\<close>

text \<open>The deframer of a new transport: a server waits for the preface of its client.\<close>

definition initial_deframe_state :: "bool \<Rightarrow> nat" where
  "initial_deframe_state client = (if client then DTS_FH_0 else 0)"

definition preface :: "bool \<Rightarrow> byte list" where
  "preface client = (if client then [] else GRPC_CHTTP2_CLIENT_CONNECT_STRING)"

lemma length_connect_string: "length GRPC_CHTTP2_CLIENT_CONNECT_STRING = DTS_FH_0"
  by (simp add: GRPC_CHTTP2_CLIENT_CONNECT_STRING_def dts_defs)

lemma read_preface_from:
  assumes "deframe_state c = i" and "i \<le> DTS_FH_0"
  shows "grpc_chttp2_perform_read k c (drop i GRPC_CHTTP2_CLIENT_CONNECT_STRING @ bs) =
    grpc_chttp2_perform_read k (c\<lparr>deframe_state := DTS_FH_0\<rparr>) bs"
  using assms
proof (induction "DTS_FH_0 - i" arbitrary: i c)
  case 0
  then show ?case by (cases c) (simp add: length_connect_string)
next
  case (Suc d)
  then have i: "i < DTS_FH_0" by simp
  have "drop i GRPC_CHTTP2_CLIENT_CONNECT_STRING =
    GRPC_CHTTP2_CLIENT_CONNECT_STRING ! i # drop (Suc i) GRPC_CHTTP2_CLIENT_CONNECT_STRING"
    using i by (simp add: Cons_nth_drop_Suc length_connect_string)
  then show ?case using Suc.hyps(1) [of "Suc i" "c\<lparr>deframe_state := Suc i\<rparr>"] Suc.hyps(2) Suc.prems i by simp
qed

lemma read_preface:
  assumes "deframe_state c = initial_deframe_state client"
  shows "grpc_chttp2_perform_read k c (preface client @ bs) = grpc_chttp2_perform_read k (c\<lparr>deframe_state := DTS_FH_0\<rparr>) bs"
  using assms read_preface_from [of c 0 k bs]
  by (cases client; cases c) (simp_all add: initial_deframe_state_def preface_def)

context deframing
begin

lemma frames_in_slices:
  assumes "deframe_state c = initial_deframe_state client" and "list_all valid_frame fs"
    and "concat cs = preface client @ concat (map frame_bytes fs)" and "length (concat cs) < 4294967296"
  shows "mapr (\<lambda>c. (deframe_state c, conn c)) (read_slices k c cs) = mapr (Pair DTS_FH_0) (handle_frames k fs (conn c))"
proof -
  let ?c = "c\<lparr>deframe_state := DTS_FH_0\<rparr>"
  have view: "mapr (\<lambda>c. (deframe_state c, conn c)) m = mapr (\<lambda>c. (deframe_state c, conn c)) (mapr settle m)" for m :: "'a deframer res"
    by (cases m) (simp_all add: settle_def)
  have "deframe_ok expects c" using assms(1) by (simp add: deframe_ok_def initial_deframe_state_def dts_defs)
  then have "mapr settle (read_slices k c cs) = mapr settle (grpc_chttp2_perform_read k ?c (concat (map frame_bytes fs)))"
    using read_slices_whole [OF _ assms(4)] read_preface [OF assms(1)] assms(3) by simp
  moreover have "mapr (\<lambda>c. (deframe_state c, conn c)) (grpc_chttp2_perform_read k ?c (concat (map frame_bytes fs))) =
    mapr (Pair DTS_FH_0) (handle_frames k fs (conn ?c))"
    using assms(2-4) by (intro read_frames) simp_all
  ultimately show ?thesis
    using view [of "read_slices k c cs"] view [of "grpc_chttp2_perform_read k ?c (concat (map frame_bytes fs))"] by simp
qed

end

section \<open>Frames of some types only\<close>

text \<open>
  A transport may promise this only of the frames whose type is in \<open>ctl\<close>. Reading is then compared with a deframer that stops
  at the first frame of another type, with the result \<open>stopped r\<close>: as long as what is read does not depend on \<open>r\<close>,
  no such frame was met.
\<close>

definition stopped :: "string option \<Rightarrow> 'a res" where
  "stopped r = (case r of None \<Rightarrow> Abort | Some e \<Rightarrow> Err e)"

definition guarded :: "string option \<Rightarrow> (byte \<Rightarrow> bool) \<Rightarrow> 's callbacks \<Rightarrow> 's callbacks" where
  "guarded r ctl k = k\<lparr>init_frame := \<lambda>len ty fl sid s. if ctl ty then init_frame k len ty fl sid s else stopped r\<rparr>"

lemma guarded_simps [simp]:
  "parse_slice (guarded r ctl k) = parse_slice k" "clear_stream (guarded r ctl k) = clear_stream k"
  "max_frame_size (guarded r ctl k) = max_frame_size k"
  "init_frame (guarded r ctl k) len ty fl sid s = (if ctl ty then init_frame k len ty fl sid s else stopped r)"
  by (simp_all add: guarded_def)

lemma guarded_too_large: "frame_too_large (guarded r ctl k) c = frame_too_large k c"
  by (simp add: frame_too_large_def)

lemma stopped_simps [simp]: "rbind (stopped r) f = stopped r" "mapr g (stopped r) = stopped r" "stopped None = Abort" "stopped (Some e) = Err e"
  by (simp_all add: stopped_def mapr_def split: option.split)

definition agrees :: "(string option \<Rightarrow> 'a res) \<Rightarrow> 'a res \<Rightarrow> bool" where
  "agrees f m \<longleftrightarrow> (\<forall>r. f r = m) \<or> (\<forall>r. f r = stopped r)"

lemma agrees_same: "agrees (\<lambda>r. m) m" and agrees_stopped: "agrees (\<lambda>r. stopped r) m"
  by (simp_all add: agrees_def)

lemma agrees_rbind: "(\<And>x. m = Ok x \<Longrightarrow> agrees (\<lambda>r. f r x) (g x)) \<Longrightarrow> agrees (\<lambda>r. rbind m (f r)) (rbind m g)"
  by (cases m) (auto simp: agrees_def)

lemma agrees_trans: "agrees f m \<Longrightarrow> (\<And>x. m = Ok x \<Longrightarrow> agrees (\<lambda>r. h r x) (g x)) \<Longrightarrow> agrees (\<lambda>r. rbind (f r) (h r)) (rbind m g)"
  by (cases m) (auto simp: agrees_def)

lemma guarded_read:
  "agrees (\<lambda>r. grpc_chttp2_perform_read (guarded r ctl k) c bs) (grpc_chttp2_perform_read k c bs)"
proof (induction k c bs rule: grpc_chttp2_perform_read.induct)
  case (2 k c b bs)
  consider "deframe_state c < DTS_FH_0" | "\<not> deframe_state c < DTS_FH_0" "deframe_state c < DTS_FH_8" | "deframe_state c = DTS_FH_8"
    | "deframe_state c > DTS_FH_8" by linarith
  then show ?case
  proof cases
    case 1
    then show ?thesis using 2(1) by (simp add: agrees_same)
  next
    case 2
    then show ?thesis using "2.IH"(2) by simp
  next
    case 3
    then have n: "\<not> deframe_state c < DTS_FH_0" "\<not> deframe_state c < DTS_FH_8" by (simp_all add: dts_defs)
    show ?thesis
    proof (cases "ctl (incoming_frame_type (header_byte b c))")
      case True
      then show ?thesis using 3 n 2(3,4) [OF n 3 refl]
        by (simp add: Let_def) (intro agrees_rbind, auto simp: guarded_too_large intro!: agrees_rbind agrees_same)
    next
      case False
      then show ?thesis using 3 n by (simp add: Let_def agrees_stopped)
    qed
  next
    case 4
    then have n: "\<not> deframe_state c < DTS_FH_0" "\<not> deframe_state c < DTS_FH_8" "deframe_state c \<noteq> DTS_FH_8" by (simp_all add: dts_defs)
    then show ?thesis using 2(5) [OF n refl] by (auto simp: Let_def agrees_same intro!: agrees_rbind)
  qed
qed (simp add: agrees_same)

lemma guarded_slices: "agrees (\<lambda>r. read_slices (guarded r ctl k) c cs) (read_slices k c cs)"
  by (induction cs arbitrary: c) (simp_all add: agrees_same agrees_trans guarded_read)

lemma guarded_frames:
  assumes "list_all (\<lambda>f. ctl (fr_type f)) fs"
  shows "handle_frames (guarded r ctl k) fs s = handle_frames k fs s"
proof -
  have "handle_frame (guarded r ctl k) f s = handle_frame k f s" if "ctl (fr_type f)" for f s
    using that unfolding handle_frame_def guarded_simps by simp
  then show ?thesis using assms by (induction fs arbitrary: s) (auto intro!: arg_cong2 [where f = rbind] ext)
qed

locale control_deframing = frame_parser "parse_slice k" expects for k :: "'s callbacks" and expects :: "'s \<Rightarrow> nat \<Rightarrow> bool" +
  fixes ctl :: "byte \<Rightarrow> bool"
  assumes init_control: "ctl ty \<Longrightarrow> init_frame k len ty fl sid s = Ok s' \<Longrightarrow> len \<noteq> 0 \<Longrightarrow> expects s' (unat len)"

sublocale control_deframing < stop: deframing "guarded r ctl k" expects for r
proof (unfold_locales, goal_cases)
  case (1 s n a b)
  then show ?case using split by simp
next
  case (2 s n a s')
  then show ?case using rest by simp
next
  case (3 len ty fl sid s s')
  then show ?case using init_control by (cases r) (auto split: if_split_asm)
qed

context control_deframing
begin

lemma control_frames_in_slices:
  assumes "deframe_state c = initial_deframe_state client" and "list_all valid_frame fs" and "list_all (\<lambda>f. ctl (fr_type f)) fs"
    and "concat cs = preface client @ concat (map frame_bytes fs)" and "length (concat cs) < 4294967296"
  shows "mapr (\<lambda>c. (deframe_state c, conn c)) (read_slices k c cs) = mapr (Pair DTS_FH_0) (handle_frames k fs (conn c))"
proof -
  have r: "mapr (\<lambda>c. (deframe_state c, conn c)) (read_slices (guarded r ctl k) c cs) = mapr (Pair DTS_FH_0) (handle_frames k fs (conn c))" for r
    using stop.frames_in_slices [OF assms(1,2,4,5)] by (simp add: guarded_frames [OF assms(3)])
  show ?thesis
  proof (cases "\<forall>r. read_slices (guarded r ctl k) c cs = read_slices k c cs")
    case True
    then show ?thesis using r [of None] by simp
  next
    case False
    then have "read_slices (guarded r ctl k) c cs = stopped r" for r
      using guarded_slices [of ctl k c cs] by (auto simp: agrees_def)
    then show ?thesis using r [of None] r [of "Some []"] by simp
  qed
qed

end

end
