(* ===== verification/Hpack_Table.thy ===== *)
theory Hpack_Table
  imports Prelude Runs "HOL-Library.Monad_Syntax" "HOL-Library.Code_Target_Nat"
begin

text \<open>
  The header table of HPACK in \<open>chttp2/transport/hpack_table.cc\<close>: the static table and, in a ring
  buffer that is resized with the table, the dynamic one.

  A header is its key and its value. References to headers and interning are left out. Counters are
  \<open>uint32_t\<close>: naturals, with \<open>w32\<close> where the code can wrap around. A null header is \<open>None\<close>; what
  fresh memory holds is the argument \<open>fresh\<close>. \<open>None\<close> as the result of an operation is a failed
  assertion or undefined behaviour.
\<close>

section \<open>Operations\<close>

type_synonym mdelem = "string \<times> string"

definition GRPC_CHTTP2_LAST_STATIC_ENTRY :: nat where "GRPC_CHTTP2_LAST_STATIC_ENTRY = 61"

definition GRPC_CHTTP2_INITIAL_HPACK_TABLE_SIZE :: nat where "GRPC_CHTTP2_INITIAL_HPACK_TABLE_SIZE = 4096"

definition GRPC_CHTTP2_HPACK_ENTRY_OVERHEAD :: nat where "GRPC_CHTTP2_HPACK_ENTRY_OVERHEAD = 32"

lemmas hpack_constants [simp] =
  GRPC_CHTTP2_LAST_STATIC_ENTRY_def GRPC_CHTTP2_INITIAL_HPACK_TABLE_SIZE_def GRPC_CHTTP2_HPACK_ENTRY_OVERHEAD_def

record hptbl =
  first_ent :: nat
  num_ents :: nat
  mem_used :: nat
  max_bytes :: nat
  current_table_bytes :: nat
  max_entries :: nat
  cap_entries :: nat
  ents :: "mdelem option list"
  static_ents :: "mdelem list"

text \<open>The entries from 1 on; entry 0 is never used.\<close>

definition static_table :: "mdelem list" where
  "static_table = [
    ('':authority'', ''''), ('':method'', ''GET''), ('':method'', ''POST''), ('':path'', ''/''),
    ('':path'', ''/index.html''), ('':scheme'', ''http''), ('':scheme'', ''https''),
    ('':status'', ''200''), ('':status'', ''204''), ('':status'', ''206''), ('':status'', ''304''),
    ('':status'', ''400''), ('':status'', ''404''), ('':status'', ''500''),
    (''accept-charset'', ''''), (''accept-encoding'', ''gzip, deflate''),
    (''accept-language'', ''''), (''accept-ranges'', ''''), (''accept'', ''''),
    (''access-control-allow-origin'', ''''), (''age'', ''''), (''allow'', ''''),
    (''authorization'', ''''), (''cache-control'', ''''), (''content-disposition'', ''''),
    (''content-encoding'', ''''), (''content-language'', ''''), (''content-length'', ''''),
    (''content-location'', ''''), (''content-range'', ''''), (''content-type'', ''''),
    (''cookie'', ''''), (''date'', ''''), (''etag'', ''''), (''expect'', ''''), (''expires'', ''''),
    (''from'', ''''), (''host'', ''''), (''if-match'', ''''), (''if-modified-since'', ''''),
    (''if-none-match'', ''''), (''if-range'', ''''), (''if-unmodified-since'', ''''),
    (''last-modified'', ''''), (''link'', ''''), (''location'', ''''), (''max-forwards'', ''''),
    (''proxy-authenticate'', ''''), (''proxy-authorization'', ''''), (''range'', ''''),
    (''referer'', ''''), (''refresh'', ''''), (''retry-after'', ''''), (''server'', ''''),
    (''set-cookie'', ''''), (''strict-transport-security'', ''''), (''transfer-encoding'', ''''),
    (''user-agent'', ''''), (''vary'', ''''), (''via'', ''''), (''www-authenticate'', '''')]"

definition entries_for_bytes :: "nat \<Rightarrow> nat" where
  "entries_for_bytes bytes = w32 (w32 (bytes + GRPC_CHTTP2_HPACK_ENTRY_OVERHEAD) + 4294967295) div GRPC_CHTTP2_HPACK_ENTRY_OVERHEAD"

definition grpc_chttp2_hptbl_init :: hptbl where
  "grpc_chttp2_hptbl_init =
     (let cap = entries_for_bytes GRPC_CHTTP2_INITIAL_HPACK_TABLE_SIZE in
      \<lparr>first_ent = 0, num_ents = 0, mem_used = 0, max_bytes = GRPC_CHTTP2_INITIAL_HPACK_TABLE_SIZE,
       current_table_bytes = GRPC_CHTTP2_INITIAL_HPACK_TABLE_SIZE, max_entries = cap, cap_entries = cap,
       ents = replicate cap None, static_ents = static_table\<rparr>)"

text \<open>Index 0 would be the element before the static entries.\<close>

definition grpc_chttp2_hptbl_lookup :: "hptbl \<Rightarrow> nat \<Rightarrow> mdelem option option" where
  "grpc_chttp2_hptbl_lookup tbl tbl_index =
     (if tbl_index \<le> GRPC_CHTTP2_LAST_STATIC_ENTRY
      then if tbl_index = 0 then None else Some (Some (static_ents tbl ! (tbl_index - 1)))
      else
        let tbl_index = tbl_index - (GRPC_CHTTP2_LAST_STATIC_ENTRY + 1) in
        if tbl_index < num_ents tbl
        then let offset = w32 (num_ents tbl - 1 - tbl_index + first_ent tbl) mod cap_entries tbl
             in Some (ents tbl ! offset)
        else Some None)"

definition elem_bytes :: "mdelem \<Rightarrow> nat" where
  "elem_bytes md = sz (length (fst md) + length (snd md) + GRPC_CHTTP2_HPACK_ENTRY_OVERHEAD)"

definition evict1 :: "hptbl \<Rightarrow> hptbl option" where
  "evict1 tbl = do {
     e \<leftarrow> ents tbl ! first_ent tbl;
     if elem_bytes e \<le> mem_used tbl
     then Some (tbl\<lparr>mem_used := mem_used tbl - w32 (elem_bytes e),
                    first_ent := w32 (first_ent tbl + 1) mod cap_entries tbl,
                    num_ents := w32 (num_ents tbl + 4294967295)\<rparr>)
     else None }"

text \<open>\<open>while (go tbl) evict1(tbl)\<close>; the table has at most \<open>n\<close> entries to evict.\<close>

fun evict_while :: "nat \<Rightarrow> (hptbl \<Rightarrow> bool) \<Rightarrow> hptbl \<Rightarrow> hptbl option" where
  "evict_while 0 go tbl = (if go tbl then None else Some tbl)"
| "evict_while (Suc n) go tbl = (if go tbl then do { tbl \<leftarrow> evict1 tbl; evict_while n go tbl } else Some tbl)"

definition rebuild_ents :: "(nat \<Rightarrow> mdelem option) \<Rightarrow> hptbl \<Rightarrow> nat \<Rightarrow> hptbl" where
  "rebuild_ents fresh tbl new_cap =
     tbl\<lparr>ents := map (\<lambda>i. if i < num_ents tbl then ents tbl ! (w32 (first_ent tbl + i) mod cap_entries tbl) else fresh i) [0..<new_cap],
         cap_entries := new_cap, first_ent := 0\<rparr>"

definition grpc_chttp2_hptbl_set_max_bytes :: "hptbl \<Rightarrow> nat \<Rightarrow> hptbl option" where
  "grpc_chttp2_hptbl_set_max_bytes tbl bytes =
     (if max_bytes tbl = bytes then Some tbl
      else do {
        tbl \<leftarrow> evict_while (num_ents tbl) (\<lambda>tbl. mem_used tbl > bytes) tbl;
        Some (tbl\<lparr>max_bytes := bytes\<rparr>) })"

text \<open>The result \<open>True\<close> is \<open>GRPC_ERROR_NONE\<close>.\<close>

definition grpc_chttp2_hptbl_set_current_table_size ::
  "(nat \<Rightarrow> mdelem option) \<Rightarrow> hptbl \<Rightarrow> nat \<Rightarrow> (hptbl \<times> bool) option" where
  "grpc_chttp2_hptbl_set_current_table_size fresh tbl bytes =
     (if current_table_bytes tbl = bytes then Some (tbl, True)
      else if bytes > max_bytes tbl then Some (tbl, False)
      else do {
        tbl \<leftarrow> evict_while (num_ents tbl) (\<lambda>tbl. mem_used tbl > bytes) tbl;
        let tbl = tbl\<lparr>current_table_bytes := bytes, max_entries := entries_for_bytes bytes\<rparr>;
        let tbl = (if max_entries tbl > cap_entries tbl
                   then rebuild_ents fresh tbl (max (max_entries tbl) (w32 (2 * cap_entries tbl)))
                   else if max_entries tbl < cap_entries tbl div 3
                   then let new_cap = max (max_entries tbl) 16
                        in if new_cap \<noteq> cap_entries tbl then rebuild_ents fresh tbl new_cap else tbl
                   else tbl);
        Some (tbl, True) })"

definition grpc_chttp2_hptbl_add :: "hptbl \<Rightarrow> mdelem \<Rightarrow> (hptbl \<times> bool) option" where
  "grpc_chttp2_hptbl_add tbl md =
     (if current_table_bytes tbl > max_bytes tbl then Some (tbl, False)
      else if elem_bytes md > current_table_bytes tbl then do {
        tbl \<leftarrow> evict_while (num_ents tbl) (\<lambda>tbl. num_ents tbl \<noteq> 0) tbl;
        Some (tbl, True) }
      else do {
        tbl \<leftarrow> evict_while (num_ents tbl)
          (\<lambda>tbl. elem_bytes md > sz (current_table_bytes tbl + (SIZE_MODULUS - mem_used tbl))) tbl;
        let i = w32 (first_ent tbl + num_ents tbl) mod cap_entries tbl;
        if i < length (ents tbl)
        then Some (tbl\<lparr>ents := (ents tbl)[i := Some md], num_ents := w32 (num_ents tbl + 1),
                       mem_used := w32 (mem_used tbl + w32 (elem_bytes md))\<rparr>, True)
        else None })"

text \<open>
  The two loops of \<open>grpc_chttp2_hptbl_find\<close>: \<open>Inl\<close> is the result returned from inside, \<open>Inr\<close> the result
  so far at the end.
\<close>

fun find_entry :: "mdelem \<Rightarrow> (nat \<times> mdelem) list \<Rightarrow> nat \<times> bool \<Rightarrow> (nat \<times> bool) + (nat \<times> bool)" where
  "find_entry md [] r = Inr r"
| "find_entry md ((i, e) # es) r =
     (if fst md \<noteq> fst e then find_entry md es r
      else if snd md = snd e then Inl (i, True)
      else find_entry md es (i, False))"

definition grpc_chttp2_hptbl_find :: "hptbl \<Rightarrow> mdelem \<Rightarrow> (nat \<times> bool) option" where
  "grpc_chttp2_hptbl_find tbl md =
     (case find_entry md (map (\<lambda>i. (i + 1, static_ents tbl ! i)) [0..<GRPC_CHTTP2_LAST_STATIC_ENTRY]) (0, False) of
        Inl r \<Rightarrow> Some r
      | Inr r \<Rightarrow> do {
          es \<leftarrow> those (map (\<lambda>i. map_option (Pair (w32 (num_ents tbl - i + GRPC_CHTTP2_LAST_STATIC_ENTRY)))
                               (ents tbl ! (w32 (first_ent tbl + i) mod cap_entries tbl))) [0..<num_ents tbl]);
          Some (case find_entry md es r of Inl r \<Rightarrow> r | Inr r \<Rightarrow> r) })"

section \<open>The ring buffer\<close>

definition ring :: "hptbl \<Rightarrow> mdelem option list" where
  "ring tbl = map (\<lambda>i. ents tbl ! ((first_ent tbl + i) mod cap_entries tbl)) [0..<num_ents tbl]"

text \<open>The size of an entry and of a table in RFC 7541.\<close>

definition esize :: "mdelem \<Rightarrow> nat" where
  "esize e = length (fst e) + length (snd e) + 32"

definition tsize :: "mdelem list \<Rightarrow> nat" where
  "tsize es = sum_list (map esize es)"

lemma tsize_simps [simp]: "tsize [] = 0" "tsize (e # es) = esize e + tsize es" "tsize (es @ es') = tsize es + tsize es'"
  by (simp_all add: tsize_def)

lemma esize_ge: "32 \<le> esize e"
  by (simp add: esize_def)

lemma tsize_count: "32 * length es \<le> tsize es"
  by (induction es) (auto simp: esize_def)

lemma elem_bytes_esize: "esize e < SIZE_MODULUS \<Longrightarrow> elem_bytes e = esize e"
  by (simp add: elem_bytes_def esize_def)

text \<open>\<open>es\<close> are the entries of the dynamic table, the oldest first.\<close>

definition tbl_ok :: "hptbl \<Rightarrow> mdelem list \<Rightarrow> bool" where
  "tbl_ok tbl es \<longleftrightarrow>
     0 < cap_entries tbl \<and> cap_entries tbl \<le> 2 ^ 28 \<and> length (ents tbl) = cap_entries tbl \<and> first_ent tbl < cap_entries tbl
   \<and> num_ents tbl = length es \<and> length es \<le> cap_entries tbl \<and> ring tbl = map Some es \<and> mem_used tbl = tsize es
   \<and> tsize es < 2 ^ 32 \<and> static_ents tbl = static_table"

lemma tbl_ok_limits [simp]:
  "tbl_ok (tbl\<lparr>max_bytes := b\<rparr>) es = tbl_ok tbl es" "tbl_ok (tbl\<lparr>current_table_bytes := b\<rparr>) es = tbl_ok tbl es"
  "tbl_ok (tbl\<lparr>max_entries := b\<rparr>) es = tbl_ok tbl es"
proof -
  have "ring (tbl\<lparr>max_bytes := b\<rparr>) = ring tbl" "ring (tbl\<lparr>current_table_bytes := b\<rparr>) = ring tbl"
    "ring (tbl\<lparr>max_entries := b\<rparr>) = ring tbl" by (simp_all add: ring_def)
  then show "tbl_ok (tbl\<lparr>max_bytes := b\<rparr>) es = tbl_ok tbl es" "tbl_ok (tbl\<lparr>current_table_bytes := b\<rparr>) es = tbl_ok tbl es"
    "tbl_ok (tbl\<lparr>max_entries := b\<rparr>) es = tbl_ok tbl es" by (simp_all add: tbl_ok_def)
qed

lemma tbl_ok_nth:
  assumes "tbl_ok tbl es" and "i < length es"
  shows "ents tbl ! ((first_ent tbl + i) mod cap_entries tbl) = Some (es ! i)"
proof -
  have "ring tbl ! i = Some (es ! i)" using assms by (simp add: tbl_ok_def)
  then show ?thesis using assms by (simp add: ring_def tbl_ok_def)
qed

lemma ring_next:
  assumes "cap_entries tbl' = cap_entries tbl" and "ents tbl' = ents tbl"
    and "first_ent tbl' = (first_ent tbl + 1) mod cap_entries tbl" and "num_ents tbl = Suc (num_ents tbl')"
  shows "ring tbl = ents tbl ! (first_ent tbl mod cap_entries tbl) # ring tbl'"
proof -
  have "(first_ent tbl' + i) mod cap_entries tbl = (first_ent tbl + Suc i) mod cap_entries tbl" for i
    unfolding assms(3) by (simp add: mod_add_left_eq)
  then show ?thesis by (simp add: ring_def assms map_upt_Suc del: upt_Suc)
qed

lemma evict1_ok:
  assumes "tbl_ok tbl (e # es)"
  shows "\<exists>tbl'. evict1 tbl = Some tbl' \<and> tbl_ok tbl' es \<and> max_bytes tbl' = max_bytes tbl
    \<and> current_table_bytes tbl' = current_table_bytes tbl \<and> cap_entries tbl' = cap_entries tbl
    \<and> max_entries tbl' = max_entries tbl"
proof -
  let ?t = "tbl\<lparr>mem_used := tsize es, first_ent := (first_ent tbl + 1) mod cap_entries tbl, num_ents := length es\<rparr>"
  have ok: "0 < cap_entries tbl" "cap_entries tbl \<le> 2 ^ 28" "first_ent tbl < cap_entries tbl" "num_ents tbl = Suc (length es)"
    "mem_used tbl = esize e + tsize es" "esize e + tsize es < 2 ^ 32" "Suc (length es) \<le> cap_entries tbl"
    "ring tbl = Some e # map Some es"
    using assms by (simp_all add: tbl_ok_def)
  have e: "ents tbl ! first_ent tbl = Some e" using tbl_ok_nth [OF assms, of 0] ok(3) by simp
  have "ring tbl = Some e # ring ?t" using ring_next [of ?t tbl] ok(3,4) e by simp
  then have "tbl_ok ?t es" using assms ok by (simp add: tbl_ok_def)
  moreover have "elem_bytes e = esize e" using ok(6) by (intro elem_bytes_esize) (simp add: SIZE_MODULUS_def)
  then have "evict1 tbl = Some ?t" using ok e by (simp add: evict1_def w32_def)
  ultimately show ?thesis by simp
qed

text \<open>Dropping the oldest entries until the rest fits.\<close>

fun evict :: "nat \<Rightarrow> mdelem list \<Rightarrow> mdelem list" where
  "evict b [] = []"
| "evict b (e # es) = (if tsize (e # es) \<le> b then e # es else evict b es)"

lemma evict_tsize: "tsize (evict b es) \<le> b" "tsize (evict b es) \<le> tsize es"
  by (induction es) auto

lemma evict_id: "tsize es \<le> b \<Longrightarrow> evict b es = es"
  by (cases es) auto

lemma evict_0: "evict 0 es = []"
  by (induction es) (auto simp: esize_def)

text \<open>The condition of an eviction loop: more than \<open>b\<close> bytes are in use.\<close>

definition decides :: "(hptbl \<Rightarrow> bool) \<Rightarrow> nat \<Rightarrow> nat \<Rightarrow> bool" where
  "decides go c b \<longleftrightarrow> (\<forall>tbl es. tbl_ok tbl es \<longrightarrow> current_table_bytes tbl = c \<longrightarrow> tsize es \<le> c \<longrightarrow> (go tbl \<longleftrightarrow> b < tsize es))"

definition same_limits :: "hptbl \<Rightarrow> hptbl \<Rightarrow> bool" where
  "same_limits tbl tbl' \<longleftrightarrow> max_bytes tbl' = max_bytes tbl \<and> current_table_bytes tbl' = current_table_bytes tbl
    \<and> cap_entries tbl' = cap_entries tbl \<and> max_entries tbl' = max_entries tbl"

lemma evict_while_ok:
  "tbl_ok tbl es \<Longrightarrow> decides go (current_table_bytes tbl) b \<Longrightarrow> tsize es \<le> current_table_bytes tbl \<Longrightarrow>
    \<exists>tbl'. evict_while (length es) go tbl = Some tbl' \<and> tbl_ok tbl' (evict b es) \<and> same_limits tbl tbl'"
proof (induction es arbitrary: tbl)
  case Nil
  then have "\<not> go tbl" by (force simp: decides_def)
  then show ?case using Nil by (simp add: same_limits_def)
next
  case (Cons e es)
  have go: "go tbl \<longleftrightarrow> b < tsize (e # es)" using Cons.prems unfolding decides_def by blast
  show ?case
  proof (cases "b < tsize (e # es)")
    case False
    then show ?thesis using go Cons.prems(1) by (simp add: same_limits_def)
  next
    case True
    obtain t where t: "evict1 tbl = Some t" "tbl_ok t es" "same_limits tbl t"
      using evict1_ok [OF Cons.prems(1)] by (auto simp: same_limits_def)
    have "decides go (current_table_bytes t) b" "tsize es \<le> current_table_bytes t"
      using Cons.prems(2,3) t(3) by (simp_all add: same_limits_def)
    from Cons.IH [OF t(2) this] t go True show ?thesis by (fastforce simp: same_limits_def)
  qed
qed

lemma decides_mem: "decides (\<lambda>tbl. mem_used tbl > b) c b"
  by (simp add: decides_def tbl_ok_def)

lemma decides_empty: "decides (\<lambda>tbl. num_ents tbl \<noteq> 0) c 0"
  unfolding decides_def tbl_ok_def using tsize_count by (metis bot_nat_0.not_eq_extremum le_zero_eq length_0_conv mult_eq_0_iff neq0_conv tsize_simps(1) zero_neq_numeral)

lemma decides_room:
  assumes "n \<le> c" and "c < 2 ^ 32"
  shows "decides (\<lambda>tbl. n > sz (current_table_bytes tbl + (SIZE_MODULUS - mem_used tbl))) c (c - n)"
proof -
  have "sz (c + (SIZE_MODULUS - m)) = c - m" if "m \<le> c" for m
  proof -
    have "c + (SIZE_MODULUS - m) = (c - m) + SIZE_MODULUS" using that assms(2) by (simp add: SIZE_MODULUS_def)
    moreover have "c - m < SIZE_MODULUS" using assms(2) by (simp add: SIZE_MODULUS_def)
    ultimately show ?thesis by (simp add: sz_def)
  qed
  then show ?thesis using assms(1) by (auto simp: decides_def tbl_ok_def)
qed

lemma rebuild_ok:
  assumes "tbl_ok tbl es" and "length es \<le> cap" "0 < cap" "cap \<le> 2 ^ 28"
  shows "tbl_ok (rebuild_ents fresh tbl cap) es"
proof -
  have small: "w32 (first_ent tbl + i) = first_ent tbl + i" if "i < length es" for i
    using assms(1) that by (intro w32_id) (auto simp: tbl_ok_def)
  have "ring (rebuild_ents fresh tbl cap) = ring tbl"
    using assms small by (auto simp: ring_def rebuild_ents_def tbl_ok_def intro!: map_cong)
  then show ?thesis using assms by (simp add: tbl_ok_def rebuild_ents_def)
qed

lemma mod_shift_neq:
  assumes "i < n" and "n < c"
  shows "(f + i) mod c \<noteq> (f + n) mod (c :: nat)"
proof
  assume "(f + i) mod c = (f + n) mod c"
  then have "c dvd (f + n) - (f + i)" using assms(1) by (subst mod_eq_dvd_iff_nat [symmetric]) simp_all
  then show False using assms by (auto dest: dvd_imp_le)
qed

lemma write_ok:
  assumes "tbl_ok tbl es" and "length es < cap_entries tbl" and "tsize es + esize e < 2 ^ 32"
  shows "tbl_ok (tbl\<lparr>ents := (ents tbl)[(first_ent tbl + num_ents tbl) mod cap_entries tbl := Some e],
      num_ents := num_ents tbl + 1, mem_used := mem_used tbl + esize e\<rparr>) (es @ [e])" (is "tbl_ok ?t _")
proof -
  let ?i = "(first_ent tbl + num_ents tbl) mod cap_entries tbl"
  have n: "num_ents tbl = length es" "length (ents tbl) = cap_entries tbl" "0 < cap_entries tbl" "ring tbl = map Some es"
    using assms(1) by (simp_all add: tbl_ok_def)
  have "(ents tbl)[?i := Some e] ! ((first_ent tbl + j) mod cap_entries tbl) = ents tbl ! ((first_ent tbl + j) mod cap_entries tbl)"
    if "j < length es" for j
    using mod_shift_neq [OF that assms(2), of "first_ent tbl"] by (simp add: n(1))
  then have "map (\<lambda>j. (ents tbl)[?i := Some e] ! ((first_ent tbl + j) mod cap_entries tbl)) [0..<length es] = map Some es"
    unfolding n(4) [symmetric] by (simp add: ring_def n(1))
  moreover have "(ents tbl)[?i := Some e] ! ?i = Some e" using n by simp
  moreover have "ring ?t = map (\<lambda>j. (ents tbl)[?i := Some e] ! ((first_ent tbl + j) mod cap_entries tbl)) ([0..<length es] @ [length es])"
    by (simp add: ring_def n(1))
  ultimately have "ring ?t = map Some (es @ [e])" unfolding map_append n(1) by simp
  then show ?thesis using assms n by (simp add: tbl_ok_def)
qed

section \<open>The table of RFC 7541\<close>

text \<open>
  The abstract table is the list of its dynamic entries, the oldest first, with the maximal and the
  current size. Indices count the static entries and then the dynamic ones from the newest on.
\<close>

type_synonym hp_table = "mdelem list \<times> nat \<times> nat"

definition address :: "mdelem list \<Rightarrow> nat \<Rightarrow> mdelem option" where
  "address es i = (let tab = static_table @ rev es in if 1 \<le> i \<and> i \<le> length tab then Some (tab ! (i - 1)) else None)"

text \<open>
  The entries in the order of the search: an exact match is the first one in this order, a match of the
  key alone the last one.
\<close>

definition search_order :: "mdelem list \<Rightarrow> (nat \<times> mdelem) list" where
  "search_order es = map (\<lambda>i. (i + 1, static_table ! i)) [0..<61] @ map (\<lambda>i. (length es - i + 61, es ! i)) [0..<length es]"

definition best_match :: "mdelem \<Rightarrow> (nat \<times> mdelem) list \<Rightarrow> nat \<times> bool" where
  "best_match md es =
     (let exact = filter (\<lambda>(i, e). e = md) es; same_key = filter (\<lambda>(i, e). fst e = fst md) es
      in if exact \<noteq> [] then (fst (hd exact), True)
         else if same_key \<noteq> [] then (fst (last same_key), False)
         else (0, False))"

datatype hp_op = Set_max nat | Set_current nat | Add_header mdelem | Lookup nat | Find mdelem

datatype hp_out = Resized | Accepted bool | Header "mdelem option" | Found nat bool

fun hp_step :: "(nat \<Rightarrow> mdelem option) \<Rightarrow> hp_op \<Rightarrow> hptbl \<Rightarrow> (hptbl \<times> hp_out) option" where
  "hp_step fresh (Set_max b) tbl = map_option (\<lambda>tbl. (tbl, Resized)) (grpc_chttp2_hptbl_set_max_bytes tbl b)"
| "hp_step fresh (Set_current b) tbl =
     map_option (\<lambda>(tbl, ok). (tbl, Accepted ok)) (grpc_chttp2_hptbl_set_current_table_size fresh tbl b)"
| "hp_step fresh (Add_header md) tbl = map_option (\<lambda>(tbl, ok). (tbl, Accepted ok)) (grpc_chttp2_hptbl_add tbl md)"
| "hp_step fresh (Lookup i) tbl = map_option (\<lambda>e. (tbl, Header e)) (grpc_chttp2_hptbl_lookup tbl i)"
| "hp_step fresh (Find md) tbl = map_option (\<lambda>(i, b). (tbl, Found i b)) (grpc_chttp2_hptbl_find tbl md)"

fun hp_spec :: "hp_op \<Rightarrow> hp_table \<Rightarrow> hp_table \<times> hp_out" where
  "hp_spec (Set_max b) (es, m, c) = ((evict b es, b, c), Resized)"
| "hp_spec (Set_current b) (es, m, c) =
     (if c = b then ((es, m, c), Accepted True)
      else if m < b then ((es, m, c), Accepted False)
      else ((evict b es, m, b), Accepted True))"
| "hp_spec (Add_header md) (es, m, c) =
     (if m < c then ((es, m, c), Accepted False)
      else if c < esize md then (([], m, c), Accepted True)
      else ((evict (c - esize md) es @ [md], m, c), Accepted True))"
| "hp_spec (Lookup i) (es, m, c) = ((es, m, c), Header (address es i))"
| "hp_spec (Find md) (es, m, c) = ((es, m, c), (case best_match md (search_order es) of (i, b) \<Rightarrow> Found i b))"

text \<open>
  What the calls are assumed to respect: above \<open>2 ^ 32 - 32\<close> bytes the sum in \<open>entries_for_bytes\<close> wraps around, and the index 0 names
  no entry.
\<close>

fun hp_pre :: "hp_op \<Rightarrow> hp_table \<Rightarrow> bool" where
  "hp_pre (Set_max b) t \<longleftrightarrow> b < 4294967296"
| "hp_pre (Set_current b) t \<longleftrightarrow> b \<le> 4294967264"
| "hp_pre (Add_header md) t \<longleftrightarrow> esize md < SIZE_MODULUS"
| "hp_pre (Lookup i) t \<longleftrightarrow> 0 < i \<and> i < 4294967296"
| "hp_pre (Find md) t \<longleftrightarrow> True"

definition hp_rel :: "hptbl \<Rightarrow> hp_table \<Rightarrow> bool" where
  "hp_rel tbl t \<longleftrightarrow> (case t of (es, m, c) \<Rightarrow> tbl_ok tbl es \<and> max_bytes tbl = m \<and> current_table_bytes tbl = c
     \<and> tsize es \<le> c \<and> tsize es \<le> m \<and> c \<le> 4294967264 \<and> m < 4294967296 \<and> (c + 31) div 32 \<le> cap_entries tbl)"

lemma entries_for_bytes_eq: "b \<le> 4294967264 \<Longrightarrow> entries_for_bytes b = (b + 31) div 32"
proof -
  assume b: "b \<le> 4294967264"
  have "w32 (w32 (b + 32) + 4294967295) = (b + 31 + 4294967296) mod 4294967296"
    by (simp add: w32_def mod_add_left_eq)
  also have "\<dots> = b + 31" using b unfolding mod_add_self2 by simp
  finally have "w32 (w32 (b + 32) + 4294967295) = b + 31" .
  then show ?thesis by (simp add: entries_for_bytes_def)
qed

lemma length_static_table [simp]: "length static_table = 61"
  by (simp add: static_table_def)

lemma set_max_sim:
  assumes "hp_rel tbl (es, m, c)" and "b < 4294967296"
  shows "\<exists>tbl'. grpc_chttp2_hptbl_set_max_bytes tbl b = Some tbl' \<and> hp_rel tbl' (evict b es, b, c)"
proof (cases "m = b")
  case True
  then show ?thesis using assms by (auto simp: hp_rel_def grpc_chttp2_hptbl_set_max_bytes_def evict_id)
next
  case False
  obtain t where t: "evict_while (length es) (\<lambda>tbl. mem_used tbl > b) tbl = Some t" "tbl_ok t (evict b es)" "same_limits tbl t"
    using evict_while_ok [OF _ decides_mem, of tbl es b] assms(1) by (auto simp: hp_rel_def)
  have "num_ents tbl = length es" using assms(1) by (simp add: hp_rel_def tbl_ok_def)
  moreover have "tbl_ok (t\<lparr>max_bytes := b\<rparr>) (evict b es)" using t(2) by simp
  ultimately show ?thesis using t False assms evict_tsize [of b es]
    by (auto simp: hp_rel_def grpc_chttp2_hptbl_set_max_bytes_def same_limits_def)
qed

lemma set_current_sim:
  assumes "hp_rel tbl (es, m, c)" and "b \<le> 4294967264" and "c \<noteq> b" and "b \<le> m"
  shows "\<exists>tbl'. grpc_chttp2_hptbl_set_current_table_size fresh tbl b = Some (tbl', True) \<and> hp_rel tbl' (evict b es, m, b)"
proof -
  obtain t where t: "evict_while (length es) (\<lambda>tbl. mem_used tbl > b) tbl = Some t" "tbl_ok t (evict b es)" "same_limits tbl t"
    using evict_while_ok [OF _ decides_mem, of tbl es b] assms(1) by (auto simp: hp_rel_def)
  have n: "num_ents tbl = length es" "max_bytes tbl = m" "current_table_bytes tbl = c" "m < 4294967296"
    using assms(1) by (simp_all add: hp_rel_def tbl_ok_def)
  let ?m = "(b + 31) div 32" and ?es = "evict b es"
  let ?t = "t\<lparr>current_table_bytes := b, max_entries := ?m\<rparr>"
  have ok: "tbl_ok ?t ?es" using t(2) by simp
  have cap: "cap_entries t \<le> 2 ^ 28" "0 < cap_entries t" using t(2) by (simp_all add: tbl_ok_def)
  have len: "length ?es \<le> ?m" using tsize_count [of ?es] evict_tsize(1) [of b es] by linarith
  have m: "?m \<le> 2 ^ 27" using assms(2) by simp
  have fits: "hp_rel u (?es, m, b)"
    if "tbl_ok u ?es" "max_bytes u = m" "current_table_bytes u = b" "?m \<le> cap_entries u" for u
    using that evict_tsize(1) [of b es] assms(2,4) n(4) by (simp add: hp_rel_def)
  have "max_bytes ?t = m" using t(3) n by (simp add: same_limits_def)
  then have rebuilt: "hp_rel (rebuild_ents fresh ?t cap) (?es, m, b)" if "?m \<le> cap" "0 < cap" "cap \<le> 2 ^ 28" for cap
    using rebuild_ok [OF ok, of cap fresh] that len by (intro fits) (auto simp: rebuild_ents_def)
  consider (grow) "cap_entries t < ?m" | (shrink) "?m \<le> cap_entries t" "?m < cap_entries t div 3" "max ?m 16 \<noteq> cap_entries t"
    | (keep) "?m \<le> cap_entries t" "\<not> (?m < cap_entries t div 3 \<and> max ?m 16 \<noteq> cap_entries t)" by linarith
  then have "\<exists>u. hp_rel u (?es, m, b) \<and> grpc_chttp2_hptbl_set_current_table_size fresh tbl b = Some (u, True)"
  proof cases
    case grow
    have "w32 (2 * cap_entries t) = 2 * cap_entries t" using grow m by (intro w32_id) simp
    then show ?thesis using rebuilt [of "max ?m (2 * cap_entries t)"] grow m t(1) n assms(3,4)
      by (simp add: grpc_chttp2_hptbl_set_current_table_size_def entries_for_bytes_eq [OF assms(2)])
  next
    case shrink
    then show ?thesis using rebuilt [of "max ?m 16"] m t(1) n assms(3,4)
      by (auto simp: grpc_chttp2_hptbl_set_current_table_size_def entries_for_bytes_eq [OF assms(2)] Let_def)
  next
    case keep
    then show ?thesis using fits [OF ok] \<open>max_bytes ?t = m\<close> t(1) n assms(3,4)
      by (auto simp: grpc_chttp2_hptbl_set_current_table_size_def entries_for_bytes_eq [OF assms(2)] Let_def)
  qed
  then show ?thesis by blast
qed

lemma add_sim:
  assumes "hp_rel tbl (es, m, c)" and "esize md \<le> c" and "c \<le> m"
  shows "\<exists>tbl'. grpc_chttp2_hptbl_add tbl md = Some (tbl', True) \<and> hp_rel tbl' (evict (c - esize md) es @ [md], m, c)"
proof -
  have rel: "tbl_ok tbl es" "tsize es \<le> c" "c \<le> 4294967264" "max_bytes tbl = m" "current_table_bytes tbl = c" "m < 4294967296"
    "(c + 31) div 32 \<le> cap_entries tbl" "num_ents tbl = length es"
    using assms(1) by (simp_all add: hp_rel_def tbl_ok_def)
  let ?es = "evict (c - esize md) es" and ?n = "esize md"
  have size: "elem_bytes md = ?n" using assms(2) rel(3) by (intro elem_bytes_esize) (simp add: SIZE_MODULUS_def)
  obtain t where t: "evict_while (length es) (\<lambda>tbl. ?n > sz (current_table_bytes tbl + (SIZE_MODULUS - mem_used tbl))) tbl = Some t"
    "tbl_ok t ?es" "same_limits tbl t"
    using evict_while_ok [OF rel(1), of _ "c - ?n"] decides_room [OF assms(2)] rel(2,3,5) by auto
  have sum: "tsize ?es + ?n \<le> c" using evict_tsize(1) [of "c - ?n" es] assms(2) by simp
  have lim: "cap_entries t = cap_entries tbl" "max_bytes t = m" "current_table_bytes t = c"
    using t(3) rel by (simp_all add: same_limits_def)
  have "length ?es + 1 \<le> (c + 31) div 32" using tsize_count [of "?es @ [md]"] sum by simp
  then have room: "length ?es < cap_entries t" using rel(7) lim(1) by linarith
  have ok: "num_ents t = length ?es" "mem_used t = tsize ?es" "first_ent t < cap_entries t" "cap_entries t \<le> 2 ^ 28"
    "length (ents t) = cap_entries t" using t(2) by (simp_all add: tbl_ok_def)
  let ?i = "(first_ent t + num_ents t) mod cap_entries t"
  let ?u = "t\<lparr>ents := (ents t)[?i := Some md], num_ents := num_ents t + 1, mem_used := mem_used t + ?n\<rparr>"
  have "tbl_ok ?u (?es @ [md])" using room sum rel(3) by (intro write_ok [OF t(2)]) auto
  then have "hp_rel ?u (?es @ [md], m, c)" using sum assms(3) rel lim by (simp add: hp_rel_def)
  moreover have "w32 (first_ent t + num_ents t) = first_ent t + num_ents t" "w32 (num_ents t + 1) = num_ents t + 1"
    "w32 (mem_used t + w32 ?n) = mem_used t + ?n" using ok room sum rel(3) by simp_all
  then have "grpc_chttp2_hptbl_add tbl md = Some (?u, True)"
    using t(1) assms(2,3) rel ok room size by (simp add: grpc_chttp2_hptbl_add_def Let_def)
  ultimately show ?thesis by blast
qed

lemma add_large_sim:
  assumes "hp_rel tbl (es, m, c)" and "c < esize md" "esize md < SIZE_MODULUS" and "c \<le> m"
  shows "\<exists>tbl'. grpc_chttp2_hptbl_add tbl md = Some (tbl', True) \<and> hp_rel tbl' ([], m, c)"
proof -
  have rel: "tbl_ok tbl es" "tsize es \<le> c" "current_table_bytes tbl = c" "max_bytes tbl = m" "num_ents tbl = length es"
    using assms(1) by (simp_all add: hp_rel_def tbl_ok_def)
  obtain t where "evict_while (length es) (\<lambda>tbl. num_ents tbl \<noteq> 0) tbl = Some t" "tbl_ok t []" "same_limits tbl t"
    using evict_while_ok [OF rel(1) decides_empty] rel(2,3) by (auto simp: evict_0)
  then show ?thesis using assms rel elem_bytes_esize [OF assms(3)]
    by (auto simp: grpc_chttp2_hptbl_add_def hp_rel_def same_limits_def)
qed

lemma lookup_sim:
  assumes "tbl_ok tbl es" and "0 < i"
  shows "grpc_chttp2_hptbl_lookup tbl i = Some (address es i)"
proof -
  have ok: "num_ents tbl = length es" "length es \<le> cap_entries tbl" "cap_entries tbl \<le> 2 ^ 28" "first_ent tbl < cap_entries tbl"
    "static_ents tbl = static_table" using assms(1) by (simp_all add: tbl_ok_def)
  show ?thesis
  proof (cases "61 < i \<and> i - 62 < length es")
    case True
    let ?j = "length es - 1 - (i - 62)"
    have j: "?j < length es" using True by linarith
    have "w32 (?j + first_ent tbl) = first_ent tbl + ?j" using ok j by (subst w32_id) simp_all
    then have "grpc_chttp2_hptbl_lookup tbl i = Some (Some (es ! ?j))"
      using True ok tbl_ok_nth [OF assms(1) j]
      by (simp add: grpc_chttp2_hptbl_lookup_def Let_def add.commute [of _ "first_ent tbl"])
    moreover have "address es i = Some (rev es ! (i - 62))" using True by (auto simp: address_def Let_def nth_append)
    moreover have "rev es ! (i - 62) = es ! ?j" using True by (simp add: rev_nth)
    ultimately show ?thesis by simp
  next
    case False
    then show ?thesis using assms(2) ok by (auto simp: grpc_chttp2_hptbl_lookup_def address_def Let_def nth_append)
  qed
qed

lemma find_entry_best:
  "find_entry md es r =
    (if \<exists>i. (i, md) \<in> set es then Inl (fst (hd (filter (\<lambda>(i, e). e = md) es)), True)
     else Inr (if filter (\<lambda>(i, e). fst e = fst md) es = [] then r else (fst (last (filter (\<lambda>(i, e). fst e = fst md) es)), False)))"
  by (induction md es r rule: find_entry.induct) (auto simp: prod_eq_iff)

lemma find_entry_append:
  "find_entry md (es @ es') r = (case find_entry md es r of Inl r \<Rightarrow> Inl r | Inr r \<Rightarrow> find_entry md es' r)"
  by (induction md es r rule: find_entry.induct) auto

lemma best_match_find: "best_match md es = (case find_entry md es (0, False) of Inl r \<Rightarrow> r | Inr r \<Rightarrow> r)"
proof -
  have "filter (\<lambda>(i, e). e = md) es = [] \<longleftrightarrow> \<not> (\<exists>i. (i, md) \<in> set es)" by (auto simp: filter_empty_conv)
  then show ?thesis unfolding find_entry_best best_match_def Let_def by simp
qed

lemma those_map_Some: "(\<forall>x\<in>set xs. f x = Some (g x)) \<Longrightarrow> those (map f xs) = Some (map g xs)"
  by (induction xs) simp_all

lemma find_sim:
  assumes "tbl_ok tbl es"
  shows "grpc_chttp2_hptbl_find tbl md = Some (best_match md (search_order es))"
proof -
  have ok: "num_ents tbl = length es" "length es \<le> cap_entries tbl" "cap_entries tbl \<le> 2 ^ 28" "first_ent tbl < cap_entries tbl"
    "static_ents tbl = static_table" using assms by (simp_all add: tbl_ok_def)
  have "those (map (\<lambda>i. map_option (Pair (w32 (num_ents tbl - i + 61)))
       (ents tbl ! (w32 (first_ent tbl + i) mod cap_entries tbl))) [0..<num_ents tbl])
      = Some (map (\<lambda>i. (length es - i + 61, es ! i)) [0..<length es])"
    using ok tbl_ok_nth [OF assms] by (subst those_map_Some) auto
  then show ?thesis
    by (simp add: grpc_chttp2_hptbl_find_def best_match_find search_order_def find_entry_append ok(5) split: sum.split)
qed

interpretation hp: simulation "hp_step fresh" hp_spec hp_pre hp_rel for fresh
proof
  fix tbl t op
  assume rel: "hp_rel tbl t" and pre: "hp_pre op t"
  obtain es m c where t: "t = (es, m, c)" by (cases t)
  note rel = rel [unfolded t]
  have ok: "tbl_ok tbl es" "max_bytes tbl = m" "current_table_bytes tbl = c" using rel by (simp_all add: hp_rel_def)
  show "\<exists>tbl'. hp_step fresh op tbl = Some (tbl', snd (hp_spec op t)) \<and> hp_rel tbl' (fst (hp_spec op t))"
  proof (cases op)
    case (Set_max b)
    then show ?thesis using set_max_sim [OF rel, of b] pre by (auto simp: t)
  next
    case (Set_current b)
    show ?thesis
    proof (cases "c = b \<or> m < b")
      case True
      then show ?thesis using rel ok by (auto simp: t Set_current grpc_chttp2_hptbl_set_current_table_size_def)
    next
      case False
      then obtain tbl' where "grpc_chttp2_hptbl_set_current_table_size fresh tbl b = Some (tbl', True)" "hp_rel tbl' (evict b es, m, b)"
        using set_current_sim [OF rel, of b fresh] pre by (auto simp: Set_current)
      then show ?thesis using False by (simp add: t Set_current)
    qed
  next
    case (Add_header md)
    then show ?thesis using add_sim [OF rel, of md] add_large_sim [OF rel, of md] pre rel ok
      by (fastforce simp: t grpc_chttp2_hptbl_add_def)
  next
    case (Lookup i)
    then show ?thesis using lookup_sim [OF ok(1)] pre rel by (simp add: t)
  next
    case (Find md)
    then show ?thesis using find_sim [OF ok(1)] rel by (simp add: t split: prod.split)
  qed
qed

section \<open>Searching and addressing agree\<close>

lemma address_static: "i < 61 \<Longrightarrow> address es (Suc i) = Some (static_table ! i)"
  by (simp add: address_def Let_def nth_append)

lemma address_dynamic: "i < length es \<Longrightarrow> address es (length es + 61 - i) = Some (es ! i)"
  by (auto simp: address_def Let_def nth_append rev_nth)

lemma search_order_address: "(i, e) \<in> set (search_order es) \<Longrightarrow> 0 < i \<and> address es i = Some e"
  by (auto simp: search_order_def address_static address_dynamic simp del: upt.simps)

lemma search_order_set: "snd ` set (search_order es) = set static_table \<union> set es"
proof -
  have "(\<lambda>i. static_table ! i) ` {0..<61} = set static_table"
    using set_conv_nth [of static_table] by auto
  moreover have "(\<lambda>i. es ! i) ` {0..<length es} = set es" using set_conv_nth [of es] by auto
  ultimately show ?thesis by (simp add: search_order_def image_Un image_image del: upt.simps)
qed

lemma best_match_cases:
  assumes "best_match md es = (i, b)"
  shows "if b then (i, md) \<in> set es
    else (\<forall>e\<in>snd ` set es. e \<noteq> md) \<and> (if i = 0 \<and> (\<forall>e\<in>snd ` set es. fst e \<noteq> fst md) then True else \<exists>e. (i, e) \<in> set es \<and> fst e = fst md)"
proof -
  let ?x = "filter (\<lambda>(i, e). e = md) es" and ?k = "filter (\<lambda>(i, e). fst e = fst md) es"
  consider "?x \<noteq> []" | (key) "?x = []" "?k \<noteq> []" | (none) "?x = []" "?k = []" by blast
  then show ?thesis
  proof cases
    case 1
    have "hd ?x \<in> set es \<and> snd (hd ?x) = md" using hd_in_set [OF 1] by (simp add: case_prod_beta)
    moreover have "i = fst (hd ?x)" "b" using assms 1 by (simp_all add: best_match_def Let_def)
    ultimately show ?thesis by (metis prod.collapse)
  next
    case key
    have "last ?k \<in> set es \<and> fst (snd (last ?k)) = fst md" using last_in_set [OF key(2)] by (simp add: case_prod_beta)
    moreover have "i = fst (last ?k)" "\<not> b" using assms key by (simp_all add: best_match_def Let_def)
    ultimately have "\<exists>e. (i, e) \<in> set es \<and> fst e = fst md" "\<not> b" by (metis prod.collapse)+
    moreover have "\<forall>e\<in>snd ` set es. e \<noteq> md" using key(1) by (auto simp: filter_empty_conv)
    ultimately show ?thesis by simp
  next
    case none
    then have "i = 0" "\<not> b" using assms by (auto simp: best_match_def)
    moreover have "\<forall>e\<in>snd ` set es. fst e \<noteq> fst md" "\<forall>e\<in>snd ` set es. e \<noteq> md"
      using none by (auto simp: filter_empty_conv)
    ultimately show ?thesis by simp
  qed
qed

section \<open>Properties\<close>

lemma init_rel: "hp_rel grpc_chttp2_hptbl_init ([], 4096, 4096)"
  by (simp add: hp_rel_def tbl_ok_def ring_def grpc_chttp2_hptbl_init_def entries_for_bytes_eq)



text \<open>
  C31: after every sequence of calls with table sizes up to \<open>2 ^ 32 - 32\<close>, positive indices and headers whose size fits into
  \<open>size_t\<close>, \<open>grpc_chttp2_hptbl_find\<close> reports an exact match if and only if the header is in the
  table, and then \<open>grpc_chttp2_hptbl_lookup\<close> of its index returns this very header; otherwise the index it
  reports is that of a header with the same key, or 0 when there is none.
\<close>
theorem hptbl_find_lookup:
  assumes "allowed hp_pre hp_spec ops ([], 4096, 4096)"
  shows "\<exists>tbl i b. run (hp_step fresh) ops grpc_chttp2_hptbl_init = Some (tbl, snd (spec_run hp_spec ops ([], 4096, 4096)))
    \<and> grpc_chttp2_hptbl_find tbl md = Some (i, b)
    \<and> (b \<longleftrightarrow> md \<in> set static_table \<union> set (fst (fst (spec_run hp_spec ops ([], 4096, 4096)))))
    \<and> (b \<longrightarrow> grpc_chttp2_hptbl_lookup tbl i = Some (Some md))
    \<and> (i \<noteq> 0 \<longrightarrow> (\<exists>e. grpc_chttp2_hptbl_lookup tbl i = Some (Some e) \<and> fst e = fst md))
    \<and> (i = 0 \<longrightarrow> (\<forall>e\<in>set static_table \<union> set (fst (fst (spec_run hp_spec ops ([], 4096, 4096)))). fst e \<noteq> fst md))"
proof -
  let ?es = "fst (fst (spec_run hp_spec ops ([], 4096, 4096)))"
  obtain tbl where run: "run (hp_step fresh) ops grpc_chttp2_hptbl_init = Some (tbl, snd (spec_run hp_spec ops ([], 4096, 4096)))"
    "hp_rel tbl (fst (spec_run hp_spec ops ([], 4096, 4096)))"
    using hp.run_simulates [OF init_rel assms, of fresh] by blast
  then have ok: "tbl_ok tbl ?es" by (auto simp: hp_rel_def)
  obtain i b where m: "best_match md (search_order ?es) = (i, b)" by fastforce
  have find: "grpc_chttp2_hptbl_find tbl md = Some (i, b)" using find_sim [OF ok] m by simp
  have look: "i \<noteq> 0 \<and> grpc_chttp2_hptbl_lookup tbl i = Some (Some e)" if "(i, e) \<in> set (search_order ?es)" for i e
    using search_order_address [OF that] lookup_sim [OF ok] by auto
  have set: "e \<in> set static_table \<union> set ?es" if "(i, e) \<in> set (search_order ?es)" for i e
    using that search_order_set [of ?es] by force
  have "(b \<longleftrightarrow> md \<in> set static_table \<union> set ?es) \<and> (b \<longrightarrow> grpc_chttp2_hptbl_lookup tbl i = Some (Some md))
    \<and> (i \<noteq> 0 \<longrightarrow> (\<exists>e. grpc_chttp2_hptbl_lookup tbl i = Some (Some e) \<and> fst e = fst md))
    \<and> (i = 0 \<longrightarrow> (\<forall>e\<in>set static_table \<union> set ?es. fst e \<noteq> fst md))"
  proof (cases b)
    case True
    then have "(i, md) \<in> set (search_order ?es)" using best_match_cases [OF m] by simp
    from look [OF this] set [OF this] True show ?thesis by blast
  next
    case False
    have "md \<notin> set static_table \<union> set ?es" using best_match_cases [OF m] False unfolding search_order_set by auto
    moreover have "i = 0 \<and> (\<forall>e\<in>set static_table \<union> set ?es. fst e \<noteq> fst md)
        \<or> (\<exists>e. (i, e) \<in> set (search_order ?es) \<and> fst e = fst md)"
      using best_match_cases [OF m] False unfolding search_order_set by (auto split: if_split_asm)
    ultimately show ?thesis using False look by blast
  qed
  then show ?thesis using run(1) find by blast
qed

theorem hptbl_find_lookup_witness:
  "\<forall>fresh. \<exists>tbl i b. run (hp_step fresh) [Add_header (''te'', ''x'')] grpc_chttp2_hptbl_init = Some (tbl, [Accepted True])
    \<and> grpc_chttp2_hptbl_find tbl (''te'', ''x'') = Some (i, b) \<and> b \<and> grpc_chttp2_hptbl_lookup tbl i = Some (Some (''te'', ''x''))"
proof
  fix fresh
  have pre: "allowed hp_pre hp_spec [Add_header (''te'', ''x'')] ([], 4096, 4096)" by (simp add: esize_def SIZE_MODULUS_def)
  have spec: "spec_run hp_spec [Add_header (''te'', ''x'')] ([], 4096, 4096) = (([(''te'', ''x'')], 4096, 4096), [Accepted True])"
    by (simp add: esize_def)
  show "\<exists>tbl i b. run (hp_step fresh) [Add_header (''te'', ''x'')] grpc_chttp2_hptbl_init = Some (tbl, [Accepted True])
    \<and> grpc_chttp2_hptbl_find tbl (''te'', ''x'') = Some (i, b) \<and> b \<and> grpc_chttp2_hptbl_lookup tbl i = Some (Some (''te'', ''x''))"
    using hptbl_find_lookup [OF pre, of fresh "(''te'', ''x'')"] unfolding spec by (auto split: if_splits)
qed

end
