(* ===== verification/Http2_Connection.thy ===== *)
theory Http2_Connection
  imports Http2_Deframe Hpack_Table
begin

text \<open>
  What \<open>parsing.cc\<close> does with a frame: \<open>init_frame_parser\<close> chooses and prepares the parser, and
  \<open>parse_frame_slice\<close> runs it. With these as its callbacks the deframer of \<open>Http2_Deframe\<close> reads the
  control frames that the writers of \<open>Http2_Frames\<close> produce, however they are cut into slices.

  Data and header frames go to parsers that are arguments here, and nothing is assumed of them: what is proved
  concerns sequences of the other frames. What the rest of the transport does with the calls that a frame leads to
  is an argument as well. Every error ends the connection, so a frame that is refused leaves no state behind: neither the
  reset that \<open>parse_frame_slice\<close> queues for an error of a stream before it returns the error, nor the goaway that
  a refused setting queues.
\<close>

section \<open>The connection\<close>

text \<open>
  \<open>parser\<close> is the function pointer; the parsers keep their data in the fields of their own. The members of
  the union \<open>simple\<close> are kept apart, since \<open>begin_frame\<close> sets what a parser reads. A stream is
  taken out of \<open>streams\<close> while \<open>incoming_stream\<close> points to it.
\<close>

datatype frame_parser_id = Skip_parser | Settings_parser | Ping_parser | Rst_stream_parser | Window_update_parser | Goaway_parser
  | Other_parser

record 'x h2_conn =
  tr :: h2_transport
  parser :: frame_parser_id
  settings_data :: settings_parser
  ping_data :: ping_parser
  rst_data :: rst_parser
  window_data :: window_parser
  goaway_data :: goaway_parser
  is_first_frame :: bool
  expect_continuation_stream_id :: u32
  acked_settings :: "u32 list"
  sent_settings :: "u32 list"
  sent_local_settings :: bool
  hpack_table :: hptbl
  streams :: "u32 \<Rightarrow> h2_stream option"
  other :: 'x

record 'x others =
  init_data_frame_parser :: "u32 \<Rightarrow> byte \<Rightarrow> 'x h2_conn \<Rightarrow> 'x h2_conn res"
  init_header_frame_parser :: "u32 \<Rightarrow> byte \<Rightarrow> bool \<Rightarrow> 'x h2_conn \<Rightarrow> 'x h2_conn res"
  other_parse :: "'x h2_conn \<Rightarrow> byte list \<Rightarrow> bool \<Rightarrow> 'x h2_conn res"
  run_calls :: "'x h2_conn \<Rightarrow> 'x h2_conn"

definition init_skip_frame_parser :: "'x h2_conn \<Rightarrow> 'x h2_conn" where
  "init_skip_frame_parser c = c\<lparr>parser := Skip_parser\<rparr>"

text \<open>The stream of the frame becomes \<open>incoming_stream\<close>, with the nine bytes of the frame header counted.\<close>

definition enter_stream :: "h2_stream \<Rightarrow> 'x h2_conn \<Rightarrow> 'x h2_conn" where
  "enter_stream s c = c\<lparr>tr := (tr c)\<lparr>incoming_stream := Some (s\<lparr>framing_bytes := framing_bytes s + 9\<rparr>)\<rparr>\<rparr>"

definition init_window_update_frame_parser :: "u32 \<Rightarrow> byte \<Rightarrow> 'x h2_conn \<Rightarrow> 'x h2_conn res" where
  "init_window_update_frame_parser len flags c =
     rbind (grpc_chttp2_window_update_parser_begin_frame (unat len) flags) (\<lambda>p.
       let c = c\<lparr>window_data := p\<rparr>
       in if incoming_stream_id (tr c) \<noteq> 0
          then (case streams c (incoming_stream_id (tr c)) of
                  None \<Rightarrow> Ok (init_skip_frame_parser (c\<lparr>tr := (tr c)\<lparr>incoming_stream := None\<rparr>\<rparr>))
                | Some s \<Rightarrow> Ok ((enter_stream s c)\<lparr>parser := Window_update_parser\<rparr>))
          else Ok (c\<lparr>parser := Window_update_parser\<rparr>))"

definition init_ping_parser :: "u32 \<Rightarrow> byte \<Rightarrow> 'x h2_conn \<Rightarrow> 'x h2_conn res" where
  "init_ping_parser len flags c =
     rbind (grpc_chttp2_ping_parser_begin_frame (unat len) flags) (\<lambda>p. Ok (c\<lparr>ping_data := p, parser := Ping_parser\<rparr>))"

definition init_rst_stream_parser :: "u32 \<Rightarrow> 'x h2_conn \<Rightarrow> 'x h2_conn res" where
  "init_rst_stream_parser len c =
     rbind (grpc_chttp2_rst_stream_parser_begin_frame (rst_data c) (unat len)) (\<lambda>p.
       let c = c\<lparr>rst_data := p\<rparr>
       in case streams c (incoming_stream_id (tr c)) of
            None \<Rightarrow> Ok (init_skip_frame_parser (c\<lparr>tr := (tr c)\<lparr>incoming_stream := None\<rparr>\<rparr>))
          | Some s \<Rightarrow> Ok ((enter_stream s c)\<lparr>parser := Rst_stream_parser\<rparr>))"

definition init_goaway_parser :: "(nat \<Rightarrow> byte) \<Rightarrow> u32 \<Rightarrow> 'x h2_conn \<Rightarrow> 'x h2_conn res" where
  "init_goaway_parser fresh len c =
     rbind (grpc_chttp2_goaway_parser_begin_frame fresh (goaway_data c) (unat len))
       (\<lambda>p. Ok (c\<lparr>goaway_data := p, parser := Goaway_parser\<rparr>))"

definition init_settings_frame_parser :: "u32 \<Rightarrow> byte \<Rightarrow> 'x h2_conn \<Rightarrow> 'x h2_conn res" where
  "init_settings_frame_parser len flags c =
     (if incoming_stream_id (tr c) \<noteq> 0 then Err ''Settings frame received for grpc_chttp2_stream''
      else rbind (grpc_chttp2_settings_parser_begin_frame (settings_data c) (unat len) flags (peer_settings (tr c))) (\<lambda>p.
        rbind (if flags AND 1 \<noteq> 0
               then (case grpc_chttp2_hptbl_set_max_bytes (hpack_table c) (unat (sent_settings c ! 0)) of
                       None \<Rightarrow> Abort
                     | Some tbl \<Rightarrow> Ok (c\<lparr>acked_settings := sent_settings c, hpack_table := tbl, sent_local_settings := False\<rparr>))
               else Ok c) (\<lambda>c. Ok (c\<lparr>settings_data := p, parser := Settings_parser\<rparr>))))"

definition init_frame_parser :: "'x others \<Rightarrow> (nat \<Rightarrow> byte) \<Rightarrow> u32 \<Rightarrow> byte \<Rightarrow> byte \<Rightarrow> 'x h2_conn \<Rightarrow> 'x h2_conn res" where
  "init_frame_parser ot fresh len ty flags c =
     (if is_first_frame c \<and> ty \<noteq> 4 then Err ''Expected SETTINGS frame as the first frame''
      else let c = c\<lparr>is_first_frame := False\<rparr>
      in if expect_continuation_stream_id c \<noteq> 0
         then if ty \<noteq> 9 then Err ''Expected CONTINUATION frame''
              else if expect_continuation_stream_id c \<noteq> incoming_stream_id (tr c) then Err ''Expected CONTINUATION frame for another stream''
              else init_header_frame_parser ot len flags True c
         else if ty = 0 then init_data_frame_parser ot len flags c
         else if ty = 1 then init_header_frame_parser ot len flags False c
         else if ty = 9 then Err ''Unexpected CONTINUATION frame''
         else if ty = 3 then init_rst_stream_parser len c
         else if ty = 4 then init_settings_frame_parser len flags c
         else if ty = 8 then init_window_update_frame_parser len flags c
         else if ty = 6 then init_ping_parser len flags c
         else if ty = 7 then init_goaway_parser fresh len c
         else Ok (init_skip_frame_parser c))"

definition parse_frame_slice :: "'x others \<Rightarrow> int \<Rightarrow> 'x h2_conn \<Rightarrow> byte list \<Rightarrow> bool \<Rightarrow> 'x h2_conn res" where
  "parse_frame_slice ot now c bytes is_last =
     (case parser c of
        Skip_parser \<Rightarrow> Ok c
      | Settings_parser \<Rightarrow>
          mapr (\<lambda>(p, t). c\<lparr>settings_data := p, tr := t\<rparr>) (grpc_chttp2_settings_parser_parse (settings_data c, tr c) bytes is_last)
      | Ping_parser \<Rightarrow>
          mapr (\<lambda>(p, t). c\<lparr>ping_data := p, tr := t\<rparr>) (grpc_chttp2_ping_parser_parse now (ping_data c, tr c) bytes is_last)
      | Rst_stream_parser \<Rightarrow>
          mapr (\<lambda>(p, t). c\<lparr>rst_data := p, tr := t\<rparr>) (grpc_chttp2_rst_stream_parser_parse (rst_data c, tr c) bytes is_last)
      | Window_update_parser \<Rightarrow>
          mapr (\<lambda>(p, t). c\<lparr>window_data := p, tr := t\<rparr>) (grpc_chttp2_window_update_parser_parse (window_data c, tr c) bytes is_last)
      | Goaway_parser \<Rightarrow>
          mapr (\<lambda>(p, t). c\<lparr>goaway_data := p, tr := t\<rparr>) (grpc_chttp2_goaway_parser_parse (goaway_data c, tr c) bytes is_last)
      | Other_parser \<Rightarrow> other_parse ot c bytes is_last)"

text \<open>At the end of a frame \<open>incoming_stream\<close> is \<open>nullptr\<close> again, and the calls of the frame have been run.\<close>

definition leave_stream :: "'x others \<Rightarrow> 'x h2_conn \<Rightarrow> 'x h2_conn" where
  "leave_stream ot c = run_calls ot
     (case incoming_stream (tr c) of None \<Rightarrow> c
      | Some s \<Rightarrow> c\<lparr>streams := (streams c)(incoming_stream_id (tr c) \<mapsto> s), tr := (tr c)\<lparr>incoming_stream := None\<rparr>\<rparr>)"

definition h2_callbacks :: "'x others \<Rightarrow> (nat \<Rightarrow> byte) \<Rightarrow> int \<Rightarrow> 'x h2_conn callbacks" where
  "h2_callbacks ot fresh now =
     \<lparr>init_frame = \<lambda>len ty flags sid c. init_frame_parser ot fresh len ty flags (c\<lparr>tr := (tr c)\<lparr>incoming_stream_id := sid\<rparr>\<rparr>),
      parse_slice = parse_frame_slice ot now,
      clear_stream = leave_stream ot,
      max_frame_size = \<lambda>c. if flow_control_enabled (tr c) then Some (acked_settings c ! 4) else None\<rparr>"

section \<open>Cutting a payload\<close>

text \<open>The frames that are parsed here: all but data, headers and continuations. Of the parsers of those nothing is expected.\<close>

definition control_type :: "byte \<Rightarrow> bool" where
  "control_type ty \<longleftrightarrow> ty \<notin> {0, 1, 9}"

definition h2_expects :: "'x h2_conn \<Rightarrow> nat \<Rightarrow> bool" where
  "h2_expects c n \<longleftrightarrow>
     (case parser c of
        Skip_parser \<Rightarrow> True
      | Settings_parser \<Rightarrow> True
      | Ping_parser \<Rightarrow> pp_byte (ping_data c) + n = 8
      | Rst_stream_parser \<Rightarrow> rp_byte (rst_data c) + n = 4 \<and> incoming_stream (tr c) \<noteq> None
      | Window_update_parser \<Rightarrow> wp_byte (window_data c) + n = 4
      | Goaway_parser \<Rightarrow> goaway_expects (goaway_data c, tr c) n
      | Other_parser \<Rightarrow> False)"

lemma parse_frame_slice_split:
  assumes e: "h2_expects c n" and "a \<noteq> []" and "b \<noteq> []" and "length a + length b \<le> n"
  shows "parse_frame_slice ot now c (a @ b) (length a + length b = n) =
    rbind (parse_frame_slice ot now c a False) (\<lambda>c. parse_frame_slice ot now c b (length a + length b = n))"
proof (cases "parser c")
  case Settings_parser
  then show ?thesis using settings.split [OF _ assms(2-4), of "(settings_data c, tr c)"]
    by (cases "grpc_chttp2_settings_parser_parse (settings_data c, tr c) a False") (auto simp: parse_frame_slice_def)
next
  case Ping_parser
  then show ?thesis using ping.split [OF _ assms(2-4), of "(ping_data c, tr c)" now] e
    by (cases "grpc_chttp2_ping_parser_parse now (ping_data c, tr c) a False") (auto simp: parse_frame_slice_def h2_expects_def)
next
  case Rst_stream_parser
  then show ?thesis using rst.split [OF _ assms(2-4), of "(rst_data c, tr c)"] e
    by (cases "grpc_chttp2_rst_stream_parser_parse (rst_data c, tr c) a False") (auto simp: parse_frame_slice_def h2_expects_def)
next
  case Window_update_parser
  then show ?thesis using window.split [OF _ assms(2-4), of "(window_data c, tr c)"] e
    by (cases "grpc_chttp2_window_update_parser_parse (window_data c, tr c) a False") (auto simp: parse_frame_slice_def h2_expects_def)
next
  case Goaway_parser
  then show ?thesis using goaway.split [OF _ assms(2-4), of "(goaway_data c, tr c)"] e
    by (cases "grpc_chttp2_goaway_parser_parse (goaway_data c, tr c) a False") (auto simp: parse_frame_slice_def h2_expects_def)
qed (use e in \<open>simp_all add: parse_frame_slice_def h2_expects_def\<close>)

lemma parse_frame_slice_rest:
  assumes e: "h2_expects c n" and "a \<noteq> []" and "length a < n" and p: "parse_frame_slice ot now c a False = Ok c'"
  shows "h2_expects c' (n - length a)"
proof (cases "parser c")
  case Settings_parser
  then show ?thesis using e p
    by (cases "grpc_chttp2_settings_parser_parse (settings_data c, tr c) a False") (auto simp: parse_frame_slice_def h2_expects_def)
next
  case Ping_parser
  then show ?thesis using ping.rest [OF _ assms(2,3), of "(ping_data c, tr c)" now] e p
    by (cases "grpc_chttp2_ping_parser_parse now (ping_data c, tr c) a False") (auto simp: parse_frame_slice_def h2_expects_def)
next
  case Rst_stream_parser
  then show ?thesis using rst.rest [OF _ assms(2,3), of "(rst_data c, tr c)"] e p
    by (cases "grpc_chttp2_rst_stream_parser_parse (rst_data c, tr c) a False") (auto simp: parse_frame_slice_def h2_expects_def)
next
  case Window_update_parser
  then show ?thesis using window.rest [OF _ assms(2,3), of "(window_data c, tr c)"] e p
    by (cases "grpc_chttp2_window_update_parser_parse (window_data c, tr c) a False") (auto simp: parse_frame_slice_def h2_expects_def)
next
  case Goaway_parser
  then show ?thesis using goaway.rest [OF _ assms(2,3), of "(goaway_data c, tr c)"] e p
    by (cases "grpc_chttp2_goaway_parser_parse (goaway_data c, tr c) a False") (auto simp: parse_frame_slice_def h2_expects_def)
qed (use e p in \<open>simp_all add: parse_frame_slice_def h2_expects_def\<close>)

lemma init_rst_stream_expects:
  "init_rst_stream_parser len c = Ok c' \<Longrightarrow> h2_expects c' (unat len)"
  by (auto simp: init_rst_stream_parser_def grpc_chttp2_rst_stream_parser_begin_frame_def h2_expects_def Let_def
      init_skip_frame_parser_def enter_stream_def split: if_splits option.splits)

lemma init_settings_expects:
  assumes "init_settings_frame_parser len fl c = Ok c'"
  shows "h2_expects c' n"
proof -
  have "parser c' = Settings_parser" using assms
    by (auto simp: init_settings_frame_parser_def grpc_chttp2_settings_parser_begin_frame_def Let_def split: if_splits option.splits)
  then show ?thesis by (simp add: h2_expects_def)
qed

lemma init_window_update_expects:
  "init_window_update_frame_parser len fl c = Ok c' \<Longrightarrow> h2_expects c' (unat len)"
  by (auto simp: init_window_update_frame_parser_def grpc_chttp2_window_update_parser_begin_frame_def h2_expects_def Let_def
      init_skip_frame_parser_def enter_stream_def split: if_splits option.splits)

lemma init_ping_expects:
  "init_ping_parser len fl c = Ok c' \<Longrightarrow> h2_expects c' (unat len)"
  by (auto simp: init_ping_parser_def grpc_chttp2_ping_parser_begin_frame_def h2_expects_def split: if_splits)

lemma init_goaway_expects:
  "init_goaway_parser fresh len c = Ok c' \<Longrightarrow> h2_expects c' (unat len)"
  using unat_u32_less [of len]
  by (auto simp: init_goaway_parser_def grpc_chttp2_goaway_parser_begin_frame_def h2_expects_def goaway_expects_def split: if_splits)

lemma init_skip_expects: "h2_expects (init_skip_frame_parser c) n"
  by (simp add: h2_expects_def init_skip_frame_parser_def)

lemma init_frame_parser_expects:
  assumes "control_type ty" and i: "init_frame_parser ot fresh len ty fl c = Ok c'"
  shows "h2_expects c' (unat len)"
proof -
  note expects = init_rst_stream_expects init_settings_expects init_window_update_expects init_ping_expects init_goaway_expects
  have i': "init_frame_parser ot fresh len ty fl (c\<lparr>is_first_frame := False\<rparr>) = Ok c'" and e: "expect_continuation_stream_id c = 0"
    using i assms(1) by (auto simp: init_frame_parser_def control_type_def Let_def split: if_split_asm)
  consider "ty = 3" | "ty = 4" | "ty = 8" | "ty = 6" | "ty = 7" | "ty \<notin> {0, 1, 9, 3, 4, 8, 6, 7}"
    using assms(1) by (auto simp: control_type_def)
  then show ?thesis
    by cases (use i' e in \<open>simp_all add: init_frame_parser_def expects\<close>, use init_skip_expects in auto)
qed

interpretation h2: control_deframing "h2_callbacks ot fresh now" h2_expects control_type for ot fresh now
proof (unfold_locales, goal_cases)
  case (1 s n a b)
  then show ?case using parse_frame_slice_split by (simp add: h2_callbacks_def)
next
  case (2 s n a s')
  then show ?case using parse_frame_slice_rest by (simp add: h2_callbacks_def)
next
  case (3 ty len fl sid s s')
  then show ?case using init_frame_parser_expects by (simp add: h2_callbacks_def)
qed

section \<open>Frames through the deframer\<close>

definition h2_read ::
  "'x others \<Rightarrow> (nat \<Rightarrow> byte) \<Rightarrow> int \<Rightarrow> 'x h2_conn deframer \<Rightarrow> byte list list \<Rightarrow> (nat \<times> 'x h2_conn) res" where
  "h2_read ot fresh now d cs = mapr (\<lambda>d. (deframe_state d, conn d)) (read_slices (h2_callbacks ot fresh now) d cs)"

lemma h2_read_frame:
  assumes "control_type (fr_type f)" and "deframe_state d = DTS_FH_0" and "valid_frame f" and "concat cs = frame_bytes f"
  shows "h2_read ot fresh now d cs = mapr (Pair DTS_FH_0) (handle_frame (h2_callbacks ot fresh now) f (conn d))"
proof -
  have "length (concat cs) < 4294967296" using assms(3) by (simp add: assms(4) frame_bytes_def frame_header_def valid_frame_def)
  then show ?thesis
    using h2.control_frames_in_slices [where client = True and fs = "[f]" and c = d and ot = ot and now = now and fresh = fresh and cs = cs] assms
    by (cases "handle_frame (h2_callbacks ot fresh now) f (conn d)") (simp_all add: h2_read_def initial_deframe_state_def preface_def)
qed

text \<open>The connection is past the settings of the peer, in no header block, and accepts frames of this size.\<close>

definition ready :: "nat \<Rightarrow> 'x h2_conn \<Rightarrow> bool" where
  "ready n c \<longleftrightarrow> \<not> is_first_frame c \<and> expect_continuation_stream_id c = 0 \<and>
     (flow_control_enabled (tr c) \<longrightarrow> of_nat n \<le> acked_settings c ! 4)"

lemma ready_first: "ready n c \<Longrightarrow> c\<lparr>is_first_frame := False\<rparr> = c"
  by (cases c) (simp add: ready_def)

lemma h2_read_frameI:
  assumes "deframe_state d = DTS_FH_0" and "concat cs = frame_bytes f" and "valid_frame f" and "control_type (fr_type f)" and "length (fr_payload f) = n"
    and "init_frame_parser ot fresh (of_nat n) (fr_type f) (fr_flags f) ((conn d)\<lparr>tr := (tr (conn d))\<lparr>incoming_stream_id := fr_stream f\<rparr>\<rparr>) = Ok c'"
    and "flow_control_enabled (tr c') \<longrightarrow> of_nat n \<le> acked_settings c' ! 4"
    and "parse_frame_slice ot now c' (fr_payload f) True = Ok c''"
  shows "h2_read ot fresh now d cs = Ok (DTS_FH_0, leave_stream ot c'')"
proof -
  have "handle_frame (h2_callbacks ot fresh now) f (conn d) = Ok (leave_stream ot c'')"
    using assms(5-) by (auto simp: handle_frame_def h2_callbacks_def Let_def not_less)
  then show ?thesis by (simp add: h2_read_frame [OF assms(4,1,3,2)])
qed

definition ping_payload :: "u64 \<Rightarrow> byte list" where
  "ping_payload x = drop 9 (grpc_chttp2_ping_create False x)"

lemma ping_payload: "length (ping_payload x) = 8" "drop 9 (grpc_chttp2_ping_create ack x) = ping_payload x"
  by (simp_all add: ping_payload_def grpc_chttp2_ping_create_def)

lemma ping_frame: "grpc_chttp2_ping_create ack x =
  frame_bytes \<lparr>fr_type = 6, fr_flags = (if ack then 1 else 0), fr_stream = 0, fr_payload = ping_payload x\<rparr>"
  by (simp add: ping_payload_def grpc_chttp2_ping_create_def frame_bytes_def frame_header_def put_u32_def)

lemma rst_frame: "snd (grpc_chttp2_rst_stream_create sid code framing) =
  frame_bytes \<lparr>fr_type = 3, fr_flags = 0, fr_stream = sid, fr_payload = put_u32 code\<rparr>"
  by (simp add: grpc_chttp2_rst_stream_create_def frame_bytes_def frame_header_def)

lemma window_frame: "n \<noteq> 0 \<Longrightarrow> grpc_chttp2_window_update_create sid n header =
  Ok (header + 13, frame_bytes \<lparr>fr_type = 8, fr_flags = 0, fr_stream = sid, fr_payload = put_u32 n\<rparr>)"
  by (simp add: grpc_chttp2_window_update_create_def frame_bytes_def frame_header_def)

lemma goaway_frame:
  assumes "grpc_chttp2_goaway_append lsi e dbg t = Ok t'"
  shows "concat (qbuf t') = concat (qbuf t) @
    frame_bytes \<lparr>fr_type = 7, fr_flags = 0, fr_stream = 0, fr_payload = put_u32 lsi @ put_u32 e @ dbg\<rparr>"
  using assms
  by (auto simp: grpc_chttp2_goaway_append_def frame_bytes_def frame_header_def put_u32_def Let_def split: if_splits)

lemma ping_in_slices:
  assumes "deframe_state d = DTS_FH_0" and "ready 8 (conn d)" and "concat cs = grpc_chttp2_ping_create ack x"
    and t: "t = (tr (conn d))\<lparr>incoming_stream_id := 0\<rparr>"
    and p: "p = \<lparr>pp_byte = 8, pp_is_ack = (if ack then 1 else 0), opaque_8bytes = x\<rparr>"
  shows "h2_read ot fresh now d cs = Ok (DTS_FH_0, leave_stream ot ((conn d)\<lparr>parser := Ping_parser, ping_data := p,
      tr := if ack then call (Ack_ping x) t else ping_received now p t\<rparr>))"
proof -
  let ?f = "if ack then 1 else 0 :: byte"
  let ?c = "(conn d)\<lparr>tr := t, is_first_frame := False, ping_data := \<lparr>pp_byte = 0, pp_is_ack = ?f, opaque_8bytes = 0\<rparr>, parser := Ping_parser\<rparr>"
  have f: "concat cs = frame_bytes \<lparr>fr_type = 6, fr_flags = ?f, fr_stream = 0, fr_payload = ping_payload x\<rparr>"
    using assms(3) by (simp only: ping_frame)
  have i: "init_frame_parser ot fresh 8 6 ?f ((conn d)\<lparr>tr := t\<rparr>) = Ok ?c"
    using assms(2) by (simp add: init_frame_parser_def init_ping_parser_def grpc_chttp2_ping_parser_begin_frame_def ready_def)
  have "parse_frame_slice ot now ?c (ping_payload x) True =
    Ok ((conn d)\<lparr>is_first_frame := False, parser := Ping_parser, ping_data := p, tr := if ack then call (Ack_ping x) t else ping_received now p t\<rparr>)"
    using ping_whole [of now ?f t ack x] by (simp add: parse_frame_slice_def ping_payload p)
  then show ?thesis unfolding ready_first [OF assms(2)]
    by (intro h2_read_frameI [where c' = ?c and n = 8, OF assms(1) f])
      (use i assms(2) in \<open>simp_all add: ready_def valid_frame_def control_type_def ping_payload t\<close>)
qed

lemma goaway_in_slices:
  assumes "deframe_state d = DTS_FH_0" and "ready (8 + length dbg) (conn d)" and "length dbg < 16777208"
    and "grpc_chttp2_goaway_append lsi e dbg t0 = Ok t1" and "concat (qbuf t1) = concat (qbuf t0) @ concat cs"
    and t: "t = (tr (conn d))\<lparr>incoming_stream_id := 0\<rparr>"
    and p: "p = (goaway_data (conn d))\<lparr>gp_state := DEBUG, last_stream_id := lsi, error_code := e, debug_data := [],
        debug_length := length dbg, debug_pos := length dbg\<rparr>"
  shows "h2_read ot fresh now d cs = Ok (DTS_FH_0, leave_stream ot ((conn d)\<lparr>parser := Goaway_parser, goaway_data := p,
      tr := call (Add_goaway e dbg) t\<rparr>))"
proof -
  let ?n = "8 + length dbg"
  let ?p = "(goaway_data (conn d))\<lparr>debug_length := length dbg, debug_data := map fresh [0..<length dbg], debug_pos := 0, gp_state := LSI0\<rparr>"
  let ?c = "(conn d)\<lparr>tr := t, is_first_frame := False, goaway_data := ?p, parser := Goaway_parser\<rparr>"
  have f: "concat cs = frame_bytes \<lparr>fr_type = 7, fr_flags = 0, fr_stream = 0, fr_payload = put_u32 lsi @ put_u32 e @ dbg\<rparr>"
    using goaway_frame [OF assms(4)] assms(5) by simp
  have u: "unat (of_nat ?n :: u32) = ?n" using assms(3) by (simp only: unat_of_nat) simp
  have i: "init_frame_parser ot fresh (of_nat ?n) 7 0 ((conn d)\<lparr>tr := t\<rparr>) = Ok ?c"
    using assms(2) by (simp add: init_frame_parser_def init_goaway_parser_def grpc_chttp2_goaway_parser_begin_frame_def ready_def u del: of_nat_add)
  have "parse_frame_slice ot now ?c (put_u32 lsi @ put_u32 e @ dbg) True =
    Ok ((conn d)\<lparr>is_first_frame := False, parser := Goaway_parser, goaway_data := p, tr := call (Add_goaway e dbg) t\<rparr>)"
    using goaway_whole [of ?p dbg t lsi e] assms(3) by (simp add: parse_frame_slice_def p)
  then show ?thesis unfolding ready_first [OF assms(2)]
    by (intro h2_read_frameI [where c' = ?c and n = ?n, OF assms(1) f])
      (use i assms(2,3) in \<open>simp_all add: ready_def valid_frame_def control_type_def t del: of_nat_add\<close>)
qed

lemma rst_stream_in_slices:
  assumes "deframe_state d = DTS_FH_0" and "ready 4 (conn d)" and "sid < 0x80000000"
    and "concat cs = snd (grpc_chttp2_rst_stream_create sid code framing)" and "streams (conn d) sid = Some s"
    and r: "length (reason_bytes (rst_data (conn d))) = 4"
    and t: "t = (tr (conn d))\<lparr>incoming_stream_id := sid, incoming_stream := Some (s\<lparr>framing_bytes := framing_bytes s + 9\<rparr>)\<rparr>"
    and p: "p = (rst_data (conn d))\<lparr>rp_byte := 4, reason_bytes := put_u32 code\<rparr>"
  shows "h2_read ot fresh now d cs = Ok (DTS_FH_0, leave_stream ot ((conn d)\<lparr>parser := Rst_stream_parser, rst_data := p,
      tr := call (Mark_closed (if code \<noteq> 0 \<or> trailing_size s = 0 then Some code else None)) t\<rparr>))"
proof -
  let ?c = "(conn d)\<lparr>tr := t, is_first_frame := False, rst_data := (rst_data (conn d))\<lparr>rp_byte := 0\<rparr>, parser := Rst_stream_parser\<rparr>"
  have f: "concat cs = frame_bytes \<lparr>fr_type = 3, fr_flags = 0, fr_stream = sid, fr_payload = put_u32 code\<rparr>"
    using assms(4) by (simp only: rst_frame)
  have i: "init_frame_parser ot fresh 4 3 0 ((conn d)\<lparr>tr := (tr (conn d))\<lparr>incoming_stream_id := sid\<rparr>\<rparr>) = Ok ?c"
    using assms(2,5) by (simp add: init_frame_parser_def init_rst_stream_parser_def grpc_chttp2_rst_stream_parser_begin_frame_def
        ready_def enter_stream_def t Let_def)
  have "parse_frame_slice ot now ?c (put_u32 code) True = Ok ((conn d)\<lparr>is_first_frame := False, parser := Rst_stream_parser, rst_data := p,
      tr := call (Mark_closed (if code \<noteq> 0 \<or> trailing_size s = 0 then Some code else None)) t\<rparr>)"
    using rst_whole [of t _ "rst_data (conn d)" code] r by (simp add: parse_frame_slice_def p t)
  then show ?thesis unfolding ready_first [OF assms(2)]
    by (intro h2_read_frameI [where c' = ?c and n = 4, OF assms(1) f])
      (use i assms(2,3) in \<open>simp_all add: ready_def valid_frame_def control_type_def t\<close>)
qed

lemma window_update_in_slices:
  assumes "deframe_state d = DTS_FH_0" and "ready 4 (conn d)" and "sid < 0x80000000" and "n < 0x80000000"
    and "grpc_chttp2_window_update_create sid n header = Ok (header', concat cs)"
    and t: "t = (tr (conn d))\<lparr>incoming_stream_id := sid\<rparr>"
    and t': "t' = (if sid = 0 then t else t\<lparr>incoming_stream := map_option (\<lambda>s. s\<lparr>framing_bytes := framing_bytes s + 9\<rparr>) (streams (conn d) sid)\<rparr>)"
    and s: "sid = 0 \<or> streams (conn d) sid \<noteq> None"
  shows "h2_read ot fresh now d cs = Ok (DTS_FH_0, leave_stream ot ((conn d)\<lparr>parser := Window_update_parser,
      window_data := \<lparr>wp_byte = 4, amount = n\<rparr>, tr := window_received n t'\<rparr>))"
proof -
  let ?c = "(conn d)\<lparr>tr := t', is_first_frame := False, window_data := \<lparr>wp_byte = 0, amount = 0\<rparr>, parser := Window_update_parser\<rparr>"
  have n: "n \<noteq> 0" using assms(5) by (auto simp: grpc_chttp2_window_update_create_def)
  have f: "concat cs = frame_bytes \<lparr>fr_type = 8, fr_flags = 0, fr_stream = sid, fr_payload = put_u32 n\<rparr>"
    using assms(5) by (simp add: window_frame [OF n])
  have i: "init_frame_parser ot fresh 4 8 0 ((conn d)\<lparr>tr := t\<rparr>) = Ok ?c"
    using assms(2) s by (auto simp: init_frame_parser_def init_window_update_frame_parser_def
        grpc_chttp2_window_update_parser_begin_frame_def ready_def enter_stream_def t t' Let_def)
  have "parse_frame_slice ot now ?c (put_u32 n) True = Ok ((conn d)\<lparr>is_first_frame := False, parser := Window_update_parser,
      window_data := \<lparr>wp_byte = 4, amount = n\<rparr>, tr := window_received n t'\<rparr>)"
    using window_whole [OF n assms(4), of t'] by (simp add: parse_frame_slice_def)
  then show ?thesis unfolding ready_first [OF assms(2)]
    by (intro h2_read_frameI [where c' = ?c and n = 4, OF assms(1) f])
      (use i assms(2,3) in \<open>simp_all add: ready_def valid_frame_def control_type_def t t'\<close>)
qed

lemma settings_frame:
  "\<exists>k \<le> 7. snd (grpc_chttp2_settings_create old new force_mask 7) =
     frame_bytes \<lparr>fr_type = 4, fr_flags = 0, fr_stream = 0,
       fr_payload = concat (map (put_setting new) (filter (setting_changed old new force_mask) [0..<7]))\<rparr>
   \<and> length (concat (map (put_setting new) (filter (setting_changed old new force_mask) [0..<7]))) = 6 * k"
proof -
  let ?is = "filter (setting_changed old new force_mask) [0..<7]"
  have "length (concat (map (put_setting new) xs)) = 6 * length xs" for xs by (induction xs) (simp_all add: put_setting_def)
  moreover have "length ?is \<le> 7" using length_filter_le [of _ "[0..<7]"] by simp
  ultimately show ?thesis
    by (intro exI [of _ "length ?is"]) (simp add: grpc_chttp2_settings_create_def frame_bytes_def frame_header_def fill_header_def put_u32_def Let_def)
qed

text \<open>What the end of a settings frame does to the transport.\<close>

definition settings_received :: "u32 list \<Rightarrow> h2_transport \<Rightarrow> h2_transport" where
  "settings_received new t =
     (let t = t\<lparr>initial_window_update := initial_window_update t + (uint (new ! 3) - uint (peer_settings t ! 3)),
                peer_settings := new, qbuf := qbuf t @ [grpc_chttp2_settings_ack_create]\<rparr>
      in if notify_on_receive_settings t then call Notify_settings (t\<lparr>notify_on_receive_settings := False\<rparr>) else t)"

lemma settings_whole:
  assumes "sp_state p = SPS_ID0" and "\<not> sp_is_ack p" and "flow_control_enabled t" and "length (peer_settings t) = 7" and "length new = 7"
    and "incoming_settings p = peer_settings t" and "\<forall>i < 7. valid_setting i (new ! i)"
  shows "\<exists>p'. grpc_chttp2_settings_parser_parse (p, t)
      (concat (map (put_setting new) (filter (setting_changed (peer_settings t) new force_mask) [0..<7]))) True = Ok (p', settings_received new t)"
proof -
  let ?is = "filter (setting_changed (peer_settings t) new force_mask) [0..<7]"
  have st: "foldl (\<lambda>old i. old[i := new ! i]) (peer_settings t) ?is = new"
    using settings_create_sent [of "peer_settings t" 7 new force_mask] assms(4,5) by (simp add: grpc_chttp2_settings_create_def Let_def)
  obtain p' where "incoming_settings p' = new" "sp_state p' = SPS_ID0"
    and "settings_loop p t (concat (map (put_setting new) ?is)) True =
      settings_loop p' (t\<lparr>initial_window_update := initial_window_update t + (uint (new ! 3) - uint (peer_settings t ! 3))\<rparr>) [] True"
    using settings_entries [of p t ?is new True] assms by (auto simp: st)
  then show ?thesis using assms(2)
    by (auto simp: grpc_chttp2_settings_parser_parse_def settings_received_def Let_def)
qed

lemma settings_ack_in_slices:
  assumes "deframe_state d = DTS_FH_0" and "expect_continuation_stream_id (conn d) = 0"
    and "concat cs = grpc_chttp2_settings_ack_create"
    and "grpc_chttp2_hptbl_set_max_bytes (hpack_table (conn d)) (unat (sent_settings (conn d) ! 0)) = Some tbl"
    and p: "p = (settings_data (conn d))\<lparr>incoming_settings := peer_settings (tr (conn d)), sp_is_ack := True, sp_state := SPS_ID0\<rparr>"
  shows "h2_read ot fresh now d cs = Ok (DTS_FH_0, leave_stream ot ((conn d)\<lparr>is_first_frame := False, parser := Settings_parser,
      settings_data := p, acked_settings := sent_settings (conn d), hpack_table := tbl, sent_local_settings := False,
      tr := (tr (conn d))\<lparr>incoming_stream_id := 0\<rparr>\<rparr>))"
proof -
  let ?c = "(conn d)\<lparr>tr := (tr (conn d))\<lparr>incoming_stream_id := 0\<rparr>, is_first_frame := False, acked_settings := sent_settings (conn d),
    hpack_table := tbl, sent_local_settings := False, settings_data := p, parser := Settings_parser\<rparr>"
  have f: "concat cs = frame_bytes \<lparr>fr_type = 4, fr_flags = 1, fr_stream = 0, fr_payload = []\<rparr>"
    using assms(3) by (simp add: grpc_chttp2_settings_ack_create_def fill_header_def frame_bytes_def frame_header_def put_u32_def)
  have i: "init_frame_parser ot fresh 0 4 1 ((conn d)\<lparr>tr := (tr (conn d))\<lparr>incoming_stream_id := 0\<rparr>\<rparr>) = Ok ?c"
    using assms(2,4) by (simp add: init_frame_parser_def init_settings_frame_parser_def grpc_chttp2_settings_parser_begin_frame_def p)
  show ?thesis
    by (rule h2_read_frameI [where c' = ?c and n = 0, OF assms(1) f])
      (use i p in \<open>simp_all add: valid_frame_def control_type_def parse_frame_slice_def grpc_chttp2_settings_parser_parse_def\<close>)
qed

section \<open>Settings stay within their bounds\<close>

definition settings_ok :: "u32 list \<Rightarrow> bool" where
  "settings_ok xs \<longleftrightarrow> length xs = 7 \<and> (\<forall>i < 7. valid_setting i (xs ! i))"

lemma settings_ok_update: "settings_ok xs \<Longrightarrow> valid_setting i v \<Longrightarrow> settings_ok (xs[i := v])"
  by (auto simp: settings_ok_def) (metis nth_list_update_eq nth_list_update_neq)

lemma wire_id_known: "grpc_wire_id_to_setting_id w = Some i \<Longrightarrow> i < 7"
  by (auto simp: grpc_wire_id_to_setting_id_def grpc_setting_id_to_wire_id_def Let_def split: if_splits)

lemma bounds_ordered: "i < 7 \<Longrightarrow> min_value (grpc_chttp2_settings_parameters ! i) \<le> max_value (grpc_chttp2_settings_parameters ! i)"
  unfolding less_7 by (auto simp: grpc_chttp2_settings_parameters_def)

lemma clamp_valid:
  assumes "i < 7" and "v < min_value (grpc_chttp2_settings_parameters ! i) \<or> max_value (grpc_chttp2_settings_parameters ! i) < v"
  shows "valid_setting i (if v < min_value (grpc_chttp2_settings_parameters ! i) then min_value (grpc_chttp2_settings_parameters ! i)
    else max_value (grpc_chttp2_settings_parameters ! i))"
  using bounds_ordered [OF assms(1)] by (simp add: valid_setting_def)

lemma apply_setting_ok:
  assumes "settings_ok (incoming_settings p)"
  shows "apply_setting p t \<noteq> Abort"
    and "apply_setting p t = Ok (p', t') \<Longrightarrow> settings_ok (incoming_settings p') \<and> peer_settings t' = peer_settings t"
proof -
  show "apply_setting p t \<noteq> Abort"
    by (auto simp: apply_setting_def grpc_chttp2_goaway_append_def Let_def split: option.split invalid_value_behavior.split)
next
  assume a: "apply_setting p t = Ok (p', t')"
  show "settings_ok (incoming_settings p') \<and> peer_settings t' = peer_settings t"
  proof (cases "grpc_wire_id_to_setting_id (ucast (sp_id p))")
    case None
    then show ?thesis using a assms by (simp add: apply_setting_def)
  next
    case (Some i)
    then have i: "i < 7" by (rule wire_id_known)
    let ?sp = "grpc_chttp2_settings_parameters ! i"
    consider "p' = p" "t' = t" | v where "valid_setting i v" "incoming_settings p' = (incoming_settings p)[i := v]" "peer_settings t' = peer_settings t"
    proof -
      have "valid_setting i (sp_value p)" if "\<not> (sp_value p < min_value ?sp \<or> sp_value p > max_value ?sp)"
        using that by (simp add: valid_setting_def not_less)
      then show ?thesis using a that clamp_valid [OF i, of "sp_value p"]
        by (auto simp: apply_setting_def Some Let_def grpc_chttp2_goaway_append_def split: if_split_asm invalid_value_behavior.split_asm)
    qed
    then show ?thesis using assms settings_ok_update by cases auto
  qed
qed

lemma settings_loop_ok:
  assumes "settings_ok (incoming_settings p)" and "settings_ok (peer_settings t)"
  shows "settings_loop p t bs l \<noteq> Abort \<and>
    (\<forall>p' t'. settings_loop p t bs l = Ok (p', t') \<longrightarrow> settings_ok (incoming_settings p') \<and> settings_ok (peer_settings t'))"
  using assms
proof (induction p t bs l rule: settings_loop.induct)
  case (1 p t l)
  then show ?case by (auto simp: Let_def call_def)
next
  case (2 p t b bs l)
  show ?case
  proof (cases "sp_state p")
    case SPS_VAL3
    let ?p = "p\<lparr>sp_value := sp_value p OR ucast b, sp_state := SPS_ID0\<rparr>"
    have "settings_ok (incoming_settings ?p)" using 2(7) by simp
    note a = apply_setting_ok [OF this]
    show ?thesis
    proof (cases "apply_setting ?p t")
      case (Ok pt)
      then obtain p' t' where pt: "apply_setting ?p t = Ok (p', t')" by (cases pt) simp
      then show ?thesis using SPS_VAL3 a(2) [OF pt] 2(6) [OF SPS_VAL3, of p' t'] 2(8) by simp
    qed (use SPS_VAL3 a(1) in simp_all)
  next
    case SPS_ID0
    then show ?thesis using 2(1) [OF SPS_ID0] 2(7,8) by simp
  next
    case SPS_ID1
    then show ?thesis using 2(2) [OF SPS_ID1] 2(7,8) by simp
  next
    case SPS_VAL0
    then show ?thesis using 2(3) [OF SPS_VAL0] 2(7,8) by simp
  next
    case SPS_VAL1
    then show ?thesis using 2(4) [OF SPS_VAL1] 2(7,8) by simp
  next
    case SPS_VAL2
    then show ?thesis using 2(5) [OF SPS_VAL2] 2(7,8) by simp
  qed
qed

section \<open>Misbehaving pings\<close>

text \<open>How many of the pings that arrive at these times come less than \<open>interval\<close> after the one before.\<close>

fun early_pings :: "int \<Rightarrow> int \<Rightarrow> int list \<Rightarrow> nat" where
  "early_pings interval before [] = 0"
| "early_pings interval before (now # nows) = (if now < before + interval then 1 else 0) + early_pings interval now nows"

definition ping_interval :: "h2_transport \<Rightarrow> int" where
  "ping_interval t = (if \<not> keepalive_permit_without_calls t \<and> stream_count t = 0 then 7200000 else min_recv_ping_interval t)"

fun pings_received :: "(int \<times> ping_parser) list \<Rightarrow> h2_transport \<Rightarrow> h2_transport" where
  "pings_received [] t = t"
| "pings_received ((now, p) # ps) t = pings_received ps (ping_received now p t)"

lemma ping_received_strikes:
  assumes "\<not> is_client t" and early: "early \<longleftrightarrow> now < last_ping_recv_time t + ping_interval t"
  shows "\<not> is_client (ping_received now p t) \<and> ping_interval (ping_received now p t) = ping_interval t \<and>
    last_ping_recv_time (ping_received now p t) = now \<and> max_ping_strikes (ping_received now p t) = max_ping_strikes t \<and>
    ping_strikes (ping_received now p t) = ping_strikes t + (if early then 2 else 0) \<and>
    (Close_transport \<in> set (calls (ping_received now p t)) \<longleftrightarrow>
      Close_transport \<in> set (calls t) \<or> early \<and> max_ping_strikes t \<noteq> 0 \<and> ping_strikes t + 2 > max_ping_strikes t)"
  using assms(1) by (auto simp: early ping_received_def grpc_chttp2_add_ping_strike_def call_def ping_interval_def Let_def)

lemma pings_received_strikes:
  assumes "\<not> is_client t" and n: "n = early_pings (ping_interval t) (last_ping_recv_time t) (map fst ps)"
  shows "ping_strikes (pings_received ps t) = ping_strikes t + 2 * int n \<and>
    (Close_transport \<in> set (calls (pings_received ps t)) \<longleftrightarrow>
      Close_transport \<in> set (calls t) \<or> 0 < n \<and> max_ping_strikes t \<noteq> 0 \<and> ping_strikes t + 2 * int n > max_ping_strikes t)"
  using assms(1) unfolding n
proof (induction ps arbitrary: t)
  case (Cons q ps)
  obtain now p where q: "q = (now, p)" by fastforce
  note r = ping_received_strikes [OF Cons.prems refl, of now p]
  show ?case using Cons.IH [of "ping_received now p t"] r by (auto simp: q)
qed simp

section \<open>Properties\<close>

text \<open>A transport for the examples: data and header frames are collected, calls have no effect.\<close>

definition collect :: "byte list others" where
  "collect = \<lparr>init_data_frame_parser = \<lambda>len fl c. Ok (c\<lparr>parser := Other_parser\<rparr>),
     init_header_frame_parser = \<lambda>len fl k c. Ok (c\<lparr>parser := Other_parser\<rparr>),
     other_parse = \<lambda>c bs l. Ok (c\<lparr>other := other c @ bs, parser := Other_parser\<rparr>),
     run_calls = \<lambda>c. c\<rparr>"

definition server0 :: h2_transport where
  "server0 = \<lparr>peer_settings = [4096, 1, 4294967295, 65535, 16384, 16777216, 0], initial_window_update = 0, flow_control_enabled = True,
     notify_on_receive_settings = True, is_client = False, last_ping_recv_time = 5, min_recv_ping_interval = 300000,
     keepalive_permit_without_calls = False, stream_count = 1, ping_strikes = 0, max_ping_strikes = 2, ping_acks = [],
     disable_ping_ack = False, last_new_stream_id = 1, remote_window = 0, incoming_stream_id = 0, incoming_stream = None,
     qbuf = [], calls = []\<rparr>"

definition conn0 :: "byte list h2_conn" where
  "conn0 = \<lparr>tr = server0, parser = Skip_parser,
     settings_data = \<lparr>sp_state = SPS_ID0, sp_is_ack = False, sp_id = 0, sp_value = 0, incoming_settings = []\<rparr>,
     ping_data = \<lparr>pp_byte = 0, pp_is_ack = 0, opaque_8bytes = 0\<rparr>, rst_data = \<lparr>rp_byte = 0, reason_bytes = [0, 0, 0, 0]\<rparr>,
     window_data = \<lparr>wp_byte = 0, amount = 0\<rparr>,
     goaway_data = \<lparr>gp_state = LSI0, last_stream_id = 0, error_code = 0, debug_data = [], debug_length = 0, debug_pos = 0\<rparr>,
     is_first_frame = False, expect_continuation_stream_id = 0, acked_settings = [4096, 1, 4294967295, 65535, 16384, 16777216, 0],
     sent_settings = [64, 1, 4294967295, 65535, 16384, 16777216, 0], sent_local_settings = True, hpack_table = grpc_chttp2_hptbl_init,
     streams = [1 \<mapsto> \<lparr>stalled = True, trailing_size = 0, framing_bytes = 0\<rparr>], other = []\<rparr>"

definition deframer0 :: "byte list h2_conn deframer" where
  "deframer0 = \<lparr>deframe_state = 24, incoming_frame_size = 0, incoming_frame_type = 0, incoming_frame_flags = 0, frame_stream_id = 0,
     conn = conn0\<rparr>"

lemmas examples = conn0_def server0_def deframer0_def dts_defs ready_def

text \<open>
  C32: However the bytes of the connection preface and of a sequence of control frames (settings, ping, goaway, reset, window
  update, and frames of unknown type, which are skipped) are cut into slices, reading the slices one after another has the same result as
  handling the frames whole, one after another: each is given to the parser of its type with its header and payload, the first error
  ends the connection, and the deframer is then between frames. A client's transport expects no preface. Data, headers and continuation
  frames are not among them, and nothing is assumed of their parsers.
\<close>
theorem h2_frames_in_slices:
  assumes "deframe_state d = initial_deframe_state client" and "list_all valid_frame fs" and "list_all (\<lambda>f. fr_type f \<notin> {0, 1, 9}) fs"
    and "concat cs = preface client @ concat (map frame_bytes fs)" and "length (concat cs) < 4294967296"
  shows "h2_read ot fresh now d cs = mapr (Pair DTS_FH_0) (handle_frames (h2_callbacks ot fresh now) fs (conn d))"
  unfolding h2_read_def using assms(3) by (intro h2.control_frames_in_slices [OF assms(1,2) _ assms(4,5)]) (simp add: control_type_def)

theorem h2_frames_in_slices_witness:
  "h2_read collect (\<lambda>i. 0) 0 (deframer0\<lparr>deframe_state := 0\<rparr>)
     [GRPC_CHTTP2_CLIENT_CONNECT_STRING @ [0, 0], [2, 5, 0, 0, 0], [0, 1, 7], [8, 0, 0, 0, 4, 1, 0, 0], [0, 0]] =
   mapr (Pair DTS_FH_0) (handle_frames (h2_callbacks collect (\<lambda>i. 0) 0)
     [\<lparr>fr_type = 5, fr_flags = 0, fr_stream = 1, fr_payload = [7, 8]\<rparr>, \<lparr>fr_type = 4, fr_flags = 1, fr_stream = 0, fr_payload = []\<rparr>] conn0)"
  using h2_frames_in_slices [of "deframer0\<lparr>deframe_state := 0\<rparr>" False
      "[\<lparr>fr_type = 5, fr_flags = 0, fr_stream = 1, fr_payload = [7, 8]\<rparr>, \<lparr>fr_type = 4, fr_flags = 1, fr_stream = 0, fr_payload = []\<rparr>]"
      "[GRPC_CHTTP2_CLIENT_CONNECT_STRING @ [0, 0], [2, 5, 0, 0, 0], [0, 1, 7], [8, 0, 0, 0, 4, 1, 0, 0], [0, 0]]" collect "\<lambda>i. 0" 0]
  by (simp add: initial_deframe_state_def valid_frame_def preface_def frame_bytes_def frame_header_def put_u32_def
      length_connect_string dts_defs) (simp add: deframer0_def)

text \<open>
  C34: The control frames of the connection as they are written, read in whatever slices, have the effect they name. A ping
  reaches the peer with its flag and its eight bytes: an acknowledgement is matched with the ping it answers, and a ping
  is held against the peer's allowance and queued for an acknowledgement. A goaway delivers its error
  code and all of its debug data.
\<close>
theorem connection_frames_in_slices:
  assumes "deframe_state d = DTS_FH_0"
  shows "(ready 8 (conn d) \<and> concat cs = grpc_chttp2_ping_create ack x \<longrightarrow>
      h2_read ot fresh now d cs = (let t = (tr (conn d))\<lparr>incoming_stream_id := 0\<rparr>;
         p = \<lparr>pp_byte = 8, pp_is_ack = (if ack then 1 else 0), opaque_8bytes = x\<rparr>
       in Ok (DTS_FH_0, leave_stream ot ((conn d)\<lparr>parser := Ping_parser, ping_data := p,
            tr := if ack then call (Ack_ping x) t else ping_received now p t\<rparr>))))
    \<and> (ready (8 + length dbg) (conn d) \<and> length dbg < 16777208 \<and> grpc_chttp2_goaway_append lsi e dbg t0 = Ok t1 \<and>
      concat (qbuf t1) = concat (qbuf t0) @ concat cs \<longrightarrow>
      h2_read ot fresh now d cs = Ok (DTS_FH_0, leave_stream ot ((conn d)\<lparr>parser := Goaway_parser,
        goaway_data := (goaway_data (conn d))\<lparr>gp_state := DEBUG, last_stream_id := lsi, error_code := e, debug_data := [],
          debug_length := length dbg, debug_pos := length dbg\<rparr>,
        tr := call (Add_goaway e dbg) ((tr (conn d))\<lparr>incoming_stream_id := 0\<rparr>)\<rparr>)))"
  using ping_in_slices [OF assms _ _ refl refl] goaway_in_slices [OF assms _ _ _ _ refl refl] unfolding Let_def by blast

theorem connection_frames_in_slices_witness:
  "h2_read collect (\<lambda>i. 0) 0 deframer0 (map (\<lambda>b. [b]) (grpc_chttp2_ping_create True 81985529216486895)) =
     Ok (DTS_FH_0, leave_stream collect (conn0\<lparr>parser := Ping_parser,
       ping_data := \<lparr>pp_byte = 8, pp_is_ack = 1, opaque_8bytes = 81985529216486895\<rparr>,
       tr := call (Ack_ping 81985529216486895) (server0\<lparr>incoming_stream_id := 0\<rparr>)\<rparr>))"
  using connection_frames_in_slices [where ot = collect and now = 0 and d = deframer0 and fresh = "\<lambda>i. 0" and ack = True and x = 81985529216486895
      and cs = "map (\<lambda>b. [b]) (grpc_chttp2_ping_create True 81985529216486895)"]
  by (simp add: examples)

text \<open>
  C35: The control frames of a stream as they are written, read in whatever slices, have the effect they name. A reset closes
  the stream it names with its error code, which is dropped only when it is zero and the trailing metadata has arrived. A
  window update hands its amount to the flow control of its stream and, if the stream was stalled, makes it writable and starts a write;
  for the stream zero it adds the amount to the window of the connection and starts a write when the window
  becomes positive. The nine bytes of the frame header are counted as framing of the stream.
\<close>
theorem stream_frames_in_slices:
  assumes "deframe_state d = DTS_FH_0" and "ready 4 (conn d)" and "sid < 0x80000000"
  shows "(concat cs = snd (grpc_chttp2_rst_stream_create sid code framing) \<and> streams (conn d) sid = Some s \<and>
      length (reason_bytes (rst_data (conn d))) = 4 \<longrightarrow>
      h2_read ot fresh now d cs = Ok (DTS_FH_0, run_calls ot ((conn d)\<lparr>parser := Rst_stream_parser,
        rst_data := (rst_data (conn d))\<lparr>rp_byte := 4, reason_bytes := put_u32 code\<rparr>,
        streams := (streams (conn d))(sid \<mapsto> s\<lparr>framing_bytes := framing_bytes s + 9\<rparr>),
        tr := (tr (conn d))\<lparr>incoming_stream_id := sid,
          calls := calls (tr (conn d)) @ [Mark_closed (if code \<noteq> 0 \<or> trailing_size s = 0 then Some code else None)],
          incoming_stream := None\<rparr>\<rparr>)))
    \<and> (grpc_chttp2_window_update_create sid n header = Ok (header', concat cs) \<and> n < 0x80000000 \<and> sid \<noteq> 0 \<and> streams (conn d) sid = Some s \<longrightarrow>
      h2_read ot fresh now d cs = Ok (DTS_FH_0, run_calls ot ((conn d)\<lparr>parser := Window_update_parser,
        window_data := \<lparr>wp_byte = 4, amount = n\<rparr>,
        streams := (streams (conn d))(sid \<mapsto> s\<lparr>framing_bytes := framing_bytes s + 9, stalled := False\<rparr>),
        tr := (tr (conn d))\<lparr>incoming_stream_id := sid, calls := calls (tr (conn d)) @ [Stream_recv_update n] @
            (if stalled s then [Mark_writable, Initiate_write ''FLOW_CONTROL_UNSTALLED_BY_UPDATE''] else []),
          incoming_stream := None\<rparr>\<rparr>)))
    \<and> (grpc_chttp2_window_update_create 0 n header = Ok (header', concat cs) \<and> n < 0x80000000 \<and> flow_control_enabled (tr (conn d)) \<longrightarrow>
      h2_read ot fresh now d cs = Ok (DTS_FH_0, leave_stream ot ((conn d)\<lparr>parser := Window_update_parser,
        window_data := \<lparr>wp_byte = 4, amount = n\<rparr>,
        tr := (tr (conn d))\<lparr>incoming_stream_id := 0, remote_window := remote_window (tr (conn d)) + uint n,
          calls := calls (tr (conn d)) @ (if remote_window (tr (conn d)) \<le> 0 \<and> 0 < remote_window (tr (conn d)) + uint n
            then [Initiate_write ''TRANSPORT_FLOW_CONTROL_UNSTALLED''] else [])\<rparr>\<rparr>)))"
proof (intro conjI impI; elim conjE)
  assume "concat cs = snd (grpc_chttp2_rst_stream_create sid code framing)" "streams (conn d) sid = Some s"
    "length (reason_bytes (rst_data (conn d))) = 4"
  from rst_stream_in_slices [OF assms this refl refl]
  show "h2_read ot fresh now d cs = Ok (DTS_FH_0, run_calls ot ((conn d)\<lparr>parser := Rst_stream_parser,
        rst_data := (rst_data (conn d))\<lparr>rp_byte := 4, reason_bytes := put_u32 code\<rparr>,
        streams := (streams (conn d))(sid \<mapsto> s\<lparr>framing_bytes := framing_bytes s + 9\<rparr>),
        tr := (tr (conn d))\<lparr>incoming_stream_id := sid,
          calls := calls (tr (conn d)) @ [Mark_closed (if code \<noteq> 0 \<or> trailing_size s = 0 then Some code else None)],
          incoming_stream := None\<rparr>\<rparr>))"
    by (simp add: leave_stream_def call_def)
next
  assume w: "grpc_chttp2_window_update_create sid n header = Ok (header', concat cs)" "n < 0x80000000" "sid \<noteq> 0" "streams (conn d) sid = Some s"
  show "h2_read ot fresh now d cs = Ok (DTS_FH_0, run_calls ot ((conn d)\<lparr>parser := Window_update_parser,
        window_data := \<lparr>wp_byte = 4, amount = n\<rparr>,
        streams := (streams (conn d))(sid \<mapsto> s\<lparr>framing_bytes := framing_bytes s + 9, stalled := False\<rparr>),
        tr := (tr (conn d))\<lparr>incoming_stream_id := sid, calls := calls (tr (conn d)) @ [Stream_recv_update n] @
            (if stalled s then [Mark_writable, Initiate_write ''FLOW_CONTROL_UNSTALLED_BY_UPDATE''] else []),
          incoming_stream := None\<rparr>\<rparr>))"
    using window_update_in_slices [OF assms w(2,1) refl refl] w(3,4)
    by (cases s) (simp add: leave_stream_def window_received_def call_def Let_def)
next
  assume w: "grpc_chttp2_window_update_create 0 n header = Ok (header', concat cs)" "n < 0x80000000" "flow_control_enabled (tr (conn d))"
  show "h2_read ot fresh now d cs = Ok (DTS_FH_0, leave_stream ot ((conn d)\<lparr>parser := Window_update_parser,
        window_data := \<lparr>wp_byte = 4, amount = n\<rparr>,
        tr := (tr (conn d))\<lparr>incoming_stream_id := 0, remote_window := remote_window (tr (conn d)) + uint n,
          calls := calls (tr (conn d)) @ (if remote_window (tr (conn d)) \<le> 0 \<and> 0 < remote_window (tr (conn d)) + uint n
            then [Initiate_write ''TRANSPORT_FLOW_CONTROL_UNSTALLED''] else [])\<rparr>\<rparr>))"
    using window_update_in_slices [OF assms(1,2) _ w(2,1) refl refl] w(3)
    by (simp add: window_received_def call_def Let_def not_le)
qed

theorem stream_frames_in_slices_witness:
  "h2_read collect (\<lambda>i. 0) 0 deframer0 [[0, 0, 4, 8], [0, 0, 0, 0, 1, 0, 0], [1, 2]] =
     Ok (DTS_FH_0, conn0\<lparr>parser := Window_update_parser, window_data := \<lparr>wp_byte = 4, amount = 258\<rparr>,
       streams := [1 \<mapsto> \<lparr>stalled = False, trailing_size = 0, framing_bytes = 9\<rparr>],
       tr := server0\<lparr>incoming_stream_id := 1, calls := [Stream_recv_update 258, Mark_writable, Initiate_write ''FLOW_CONTROL_UNSTALLED_BY_UPDATE'']\<rparr>\<rparr>)"
  using stream_frames_in_slices [where ot = collect and now = 0 and d = deframer0 and sid = 1 and fresh = "\<lambda>i. 0" and n = 258 and header = 0
      and header' = 13 and cs = "[[0, 0, 4, 8], [0, 0, 0, 0, 1, 0, 0], [1, 2]]" and s = "\<lparr>stalled = True, trailing_size = 0, framing_bytes = 0\<rparr>"]
  by (simp add: examples grpc_chttp2_window_update_create_def put_u32_def collect_def)

text \<open>
  C33: A settings frame as \<open>grpc_chttp2_settings_create\<close> writes it, read in whatever slices, leaves the receiver with
  exactly the sender's settings: the settings sent before and the changes of this frame give the new settings on both
  sides, the change of the initial window is added to the pending update, one acknowledgement is queued, and whoever
  waits for the first settings is told. It may be the first frame of the connection. Values must lie within their bounds.
\<close>
theorem settings_in_slices:
  assumes "deframe_state d = DTS_FH_0" and "expect_continuation_stream_id (conn d) = 0"
    and "flow_control_enabled (tr (conn d))" and "42 \<le> acked_settings (conn d) ! 4"
    and "length (peer_settings (tr (conn d))) = 7" and "length new = 7" and "\<forall>i < 7. valid_setting i (new ! i)"
    and "grpc_chttp2_settings_create (peer_settings (tr (conn d))) new force_mask 7 = (sent, concat cs)"
  shows "sent = new \<and> (\<exists>p. h2_read ot fresh now d cs =
    Ok (DTS_FH_0, leave_stream ot ((conn d)\<lparr>is_first_frame := False, parser := Settings_parser, settings_data := p,
      tr := settings_received new ((tr (conn d))\<lparr>incoming_stream_id := 0\<rparr>)\<rparr>)))"
proof (rule conjI)
  show "sent = new" using settings_create_sent [OF assms(5,6), of force_mask] assms(8) by simp
next
  let ?old = "peer_settings (tr (conn d))" and ?t = "(tr (conn d))\<lparr>incoming_stream_id := 0\<rparr>"
  let ?pl = "concat (map (put_setting new) (filter (setting_changed ?old new force_mask) [0..<7]))"
  let ?p = "(settings_data (conn d))\<lparr>incoming_settings := ?old, sp_is_ack := False, sp_state := SPS_ID0\<rparr>"
  let ?c = "(conn d)\<lparr>tr := ?t, is_first_frame := False, settings_data := ?p, parser := Settings_parser\<rparr>"
  obtain k where k: "k \<le> 7" "length ?pl = 6 * k"
    and f: "concat cs = frame_bytes \<lparr>fr_type = 4, fr_flags = 0, fr_stream = 0, fr_payload = ?pl\<rparr>"
    using settings_frame [of ?old new force_mask] assms(8) by auto
  have u: "unat (of_nat (6 * k) :: u32) = 6 * k" using k(1) by (simp only: unat_of_nat) simp
  have i: "init_frame_parser ot fresh (of_nat (6 * k)) 4 0 ((conn d)\<lparr>tr := ?t\<rparr>) = Ok ?c"
    using assms(2) by (simp add: init_frame_parser_def init_settings_frame_parser_def grpc_chttp2_settings_parser_begin_frame_def u
        del: of_nat_mult)
  have small: "of_nat (6 * k) \<le> acked_settings (conn d) ! 4"
    using u k(1) assms(4) by (simp add: word_le_nat_alt del: of_nat_mult)
  obtain p where "parse_frame_slice ot now ?c ?pl True = Ok ((conn d)\<lparr>is_first_frame := False, parser := Settings_parser,
      settings_data := p, tr := settings_received new ?t\<rparr>)"
    using settings_whole [of ?p ?t new force_mask] assms(3,5,6,7) by (auto simp: parse_frame_slice_def)
  then show "\<exists>p. h2_read ot fresh now d cs = Ok (DTS_FH_0, leave_stream ot ((conn d)\<lparr>is_first_frame := False, parser := Settings_parser,
      settings_data := p, tr := settings_received new ?t\<rparr>))"
    by (intro exI [of _ p] h2_read_frameI [where c' = ?c and n = "6 * k", OF assms(1) f])
      (use i small k in \<open>simp_all add: valid_frame_def control_type_def del: of_nat_mult\<close>)
qed

theorem settings_in_slices_witness:
  "\<exists>p. h2_read collect (\<lambda>i. 0) 0 deframer0 [[0, 0, 6, 4, 0, 0, 0, 0, 0, 0], [4, 0, 1, 0], [0]] =
     Ok (DTS_FH_0, leave_stream collect (conn0\<lparr>is_first_frame := False, parser := Settings_parser, settings_data := p,
       tr := settings_received [4096, 1, 4294967295, 65536, 16384, 16777216, 0] (server0\<lparr>incoming_stream_id := 0\<rparr>)\<rparr>))"
proof -
  have v: "\<forall>i < 7. valid_setting i ([4096, 1, 4294967295, 65536, 16384, 16777216, 0] ! i)"
    by (auto simp: less_7 valid_setting_def grpc_chttp2_settings_parameters_def)
  have "grpc_chttp2_settings_create (peer_settings (tr (conn deframer0))) [4096, 1, 4294967295, 65536, 16384, 16777216, 0] 0 7 =
    ([4096, 1, 4294967295, 65536, 16384, 16777216, 0], concat [[0, 0, 6, 4, 0, 0, 0, 0, 0, 0], [4, 0, 1, 0], [0]])"
    by (simp add: examples grpc_chttp2_settings_create_def setting_changed_def put_setting_def grpc_setting_id_to_wire_id_def
        put_u32_def fill_header_def upt_rec)
  then show ?thesis using settings_in_slices [of deframer0 "[4096, 1, 4294967295, 65536, 16384, 16777216, 0]"] v
    by (simp add: examples)
qed

text \<open>
  C37: The acknowledgement of its settings, read in whatever slices, makes the settings it sent those the transport holds its
  peer to, and the header table of its decoder is cut to the acknowledged size at that moment: the oldest
  entries go until the rest fits, as RFC 7541 prescribes.
\<close>
theorem settings_ack_resizes_table:
  assumes "deframe_state d = DTS_FH_0" and "expect_continuation_stream_id (conn d) = 0"
    and "concat cs = grpc_chttp2_settings_ack_create" and "hp_rel (hpack_table (conn d)) (es, m, cur)"
  shows "\<exists>tbl p. hp_rel tbl (evict (unat (sent_settings (conn d) ! 0)) es, unat (sent_settings (conn d) ! 0), cur) \<and>
    h2_read ot fresh now d cs = Ok (DTS_FH_0, leave_stream ot ((conn d)\<lparr>is_first_frame := False, parser := Settings_parser,
      settings_data := p, acked_settings := sent_settings (conn d), hpack_table := tbl, sent_local_settings := False,
      tr := (tr (conn d))\<lparr>incoming_stream_id := 0\<rparr>\<rparr>))"
  using settings_ack_in_slices [OF assms(1-3) _ refl] set_max_sim [OF assms(4) unat_u32_less] by blast

theorem settings_ack_resizes_table_witness:
  "\<exists>tbl p. hp_rel tbl ([], 64, 4096) \<and>
    h2_read collect (\<lambda>i. 0) 0 deframer0 [[0, 0, 0, 4, 1, 0, 0], [0, 0]] =
      Ok (DTS_FH_0, leave_stream collect (conn0\<lparr>is_first_frame := False, parser := Settings_parser, settings_data := p,
        acked_settings := [64, 1, 4294967295, 65535, 16384, 16777216, 0], hpack_table := tbl, sent_local_settings := False,
        tr := server0\<lparr>incoming_stream_id := 0\<rparr>\<rparr>))"
  using settings_ack_resizes_table [where ot = collect and now = 0 and d = deframer0 and cs = "[[0, 0, 0, 4, 1, 0, 0], [0, 0]]"
      and es = "[]" and m = 4096 and cur = 4096 and fresh = "\<lambda>i. 0"]
  by (simp add: examples grpc_chttp2_settings_ack_create_def fill_header_def init_rel)

text \<open>
  C36: Whatever bytes a peer sends as a settings frame, in whatever slices, the settings kept of the peer remain seven values
  within their bounds: a value out of bounds is clamped or refused, an unknown identifier is ignored, and the
  parser ends in a result or an error.
\<close>
theorem peer_settings_stay_ok:
  assumes "settings_ok (peer_settings t)" and "grpc_chttp2_settings_parser_begin_frame p len flags (peer_settings t) = Ok q"
  shows "feed grpc_chttp2_settings_parser_parse (q, t) cs \<noteq> Abort \<and>
    (\<forall>p' t'. feed grpc_chttp2_settings_parser_parse (q, t) cs = Ok (p', t') \<longrightarrow> settings_ok (peer_settings t'))"
proof -
  have step: "grpc_chttp2_settings_parser_parse s bs l \<noteq> Abort \<and> (\<forall>p' t'. grpc_chttp2_settings_parser_parse s bs l = Ok (p', t') \<longrightarrow>
      settings_ok (incoming_settings p') \<and> settings_ok (peer_settings t'))"
    if "settings_ok (incoming_settings (fst s))" "settings_ok (peer_settings (snd s))" for s bs l
    using settings_loop_ok [OF that] that by (cases s) (auto simp: grpc_chttp2_settings_parser_parse_def)
  have all: "feed grpc_chttp2_settings_parser_parse s cs \<noteq> Abort \<and>
    (\<forall>p' t'. feed grpc_chttp2_settings_parser_parse s cs = Ok (p', t') \<longrightarrow> settings_ok (peer_settings t'))"
    if "settings_ok (incoming_settings (fst s))" "settings_ok (peer_settings (snd s))" for s
    using that
  proof (induction cs arbitrary: s)
    case (Cons c cs)
    show ?case
    proof (cases cs)
      case Nil
      then show ?thesis using step [OF Cons.prems] by auto
    next
      case (Cons d ds)
      then show ?thesis using step [OF Cons.prems, of c False] Cons.IH by (cases "grpc_chttp2_settings_parser_parse s c False") auto
    qed
  qed auto
  moreover have "incoming_settings q = peer_settings t"
    using assms(2) by (auto simp: grpc_chttp2_settings_parser_begin_frame_def Let_def split: if_splits)
  ultimately show ?thesis using assms(1) all [of "(q, t)"] by simp
qed

theorem peer_settings_stay_ok_witness:
  "\<exists>p' t'. feed grpc_chttp2_settings_parser_parse
     (settings_data conn0\<lparr>incoming_settings := peer_settings server0, sp_is_ack := False, sp_state := SPS_ID0\<rparr>, server0)
     [[0, 6, 255], [255, 0, 0]] = Ok (p', t') \<and> settings_ok (peer_settings t')"
proof -
  let ?q = "settings_data conn0\<lparr>incoming_settings := peer_settings server0, sp_is_ack := False, sp_state := SPS_ID0\<rparr>"
  have "settings_ok (peer_settings server0)"
    by (auto simp: settings_ok_def server0_def less_7 valid_setting_def grpc_chttp2_settings_parameters_def)
  then have ok: "feed grpc_chttp2_settings_parser_parse (?q, server0) [[0, 6, 255], [255, 0, 0]] = Ok (p', t') \<Longrightarrow> settings_ok (peer_settings t')"
    for p' t'
    using peer_settings_stay_ok [of server0 "settings_data conn0" 6 0 ?q "[[0, 6, 255], [255, 0, 0]]"]
    by (simp add: grpc_chttp2_settings_parser_begin_frame_def Let_def)
  have "\<exists>p' t'. feed grpc_chttp2_settings_parser_parse (?q, server0) [[0, 6, 255], [255, 0, 0]] = Ok (p', t')"
    by (simp add: grpc_chttp2_settings_parser_parse_def conn0_def server0_def apply_setting_def grpc_wire_id_to_setting_id_def
        grpc_setting_id_to_wire_id_def grpc_chttp2_settings_parameters_def Let_def)
  then show ?thesis using ok by blast
qed

text \<open>
  C38: A server that receives pings at any times, as long as it sends no data or headers of its own, holds each one against its peer that comes
  sooner after the one before than the interval it allows (two hours where there is no stream and the peer may not ping without one).
  Every such ping counts as two strikes, whatever the number of strikes before, and the transport is closed exactly when the strikes exceed
  \<open>max_ping_strikes\<close> with one of these pings, never if the setting is zero. From zero strikes the server bears only half of the
  misbehaving pings that the setting promises.
\<close>
theorem misbehaving_pings_borne:
  assumes "\<not> is_client t" and "Close_transport \<notin> set (calls t)"
  shows "let n = early_pings (ping_interval t) (last_ping_recv_time t) (map fst ps) in
    ping_strikes (pings_received ps t) = ping_strikes t + 2 * int n \<and>
    (Close_transport \<in> set (calls (pings_received ps t)) \<longleftrightarrow>
      0 < n \<and> max_ping_strikes t \<noteq> 0 \<and> ping_strikes t + 2 * int n > max_ping_strikes t)"
  using pings_received_strikes [OF assms(1) refl, of ps] assms(2) by (simp add: Let_def)

theorem misbehaving_pings_borne_witness:
  "max_ping_strikes server0 = 2 \<and> Close_transport \<notin> set (calls (pings_received [(300005, ping_data conn0), (300006, ping_data conn0)] server0)) \<and>
   Close_transport \<in> set (calls (pings_received [(300005, ping_data conn0), (300006, ping_data conn0), (600005, ping_data conn0)] server0))"
proof -
  have "\<not> is_client server0" "ping_strikes server0 = 0" "max_ping_strikes server0 = 2" "calls server0 = []"
    "ping_interval server0 = 300000" "last_ping_recv_time server0 = 5"
    by (simp_all add: server0_def ping_interval_def)
  then show ?thesis
    using misbehaving_pings_borne [of server0 "[(300005, ping_data conn0), (300006, ping_data conn0)]"]
      misbehaving_pings_borne [of server0 "[(300005, ping_data conn0), (300006, ping_data conn0), (600005, ping_data conn0)]"] by (simp add: Let_def)
qed

end
