(* ===== verification/Spec2Isabelle.thy ===== *)
theory Spec2Isabelle
  imports Pb_Decode_Static Ber Base64 Utf8 Pool Stack Bio_Pair Cbc Stream_Map Timer_Heap Avl_Map Http2_Connection
begin

text \<open>
  Verification of the C code that the Scholarli application is built with.

  \<^bold>\<open>The program.\<close> Scholarli (\<open>src/Scholarli/Scholarli\<close>) is a Swift user interface over Firebase.
  What it computes with is the C code under \<open>src/Scholarli/Pods\<close>: nanopb serialises the messages
  that Firebase stores and sends, gRPC and BoringSSL carry them over HTTP/2 and TLS. This
  development models their data-handling code: the whole of nanopb, in BoringSSL the byte
  buffers, the ASN.1 reader and writer, the text codecs, the containers, the in-memory transport
  and the modes of the block ciphers, and in gRPC core the containers its transport and
  timers are built on and the reading and writing of HTTP/2 control frames.

  \<^bold>\<open>How the parts interact.\<close> nanopb encoders push bytes through the callback of a \<open>pb_ostream_t\<close> and
  decoders pull them from a \<open>pb_istream_t\<close>; messages are structs in memory, which both sides walk with
  a field iterator over a descriptor table. In BoringSSL, \<open>CBS\<close> reads and \<open>CBB\<close> writes DER; the BER
  converter reads with the one and writes with the other. The buffer pool keeps its buffers in an
  \<open>lhash\<close> table. The BIO pair is the queue between the TLS code and the application. The modes
  apply a block cipher to a byte stream. In gRPC, the deframer of an HTTP/2 connection cuts what it reads into frames
  and hands their payloads to a parser for each type; the connection finds its streams in the stream map and compresses headers with the
  HPACK table, which the settings frames resize; a timer shard keeps its timers in the timer heap, and channels share configuration in
  persistent AVL trees.

  \<^bold>\<open>Theories and the sources they model.\<close>
  \<^item> \<open>Prelude\<close>: C integers as words, \<open>size_t\<close> arithmetic (\<open>sz\<close>, modulo \<open>2 ^ 64\<close>), memory blocks
    (\<open>write_at\<close>), \<open>OPENSSL_malloc\<close> and \<open>OPENSSL_realloc\<close> with their size prefix, whose sum may wrap around (the allocator
    below them is a record that says which requests succeed, so every proof
    covers every pattern of allocation failure), big- and little-endian byte strings.
  \<^item> \<open>Pb_Ostream\<close>, \<open>Pb_Istream\<close>, \<open>Pb_Wire\<close>: \<open>nanopb/pb_encode.c\<close> and \<open>nanopb/pb_decode.c\<close>, streams and
    primitive types. The locales \<open>pb_sink\<close> and \<open>pb_source\<close> state what a stream callback promises;
    they are interpreted on \<open>buf_write\<close> and \<open>buf_read\<close>. Shown: the encoders write the canonical wire
    format, the decoders read it back, no decoder leaves its stream whatever the bytes, and
    \<open>pb_skip_field\<close> skips exactly one field.
  \<^item> \<open>Pb_Field\<close>: the descriptor tables of \<open>nanopb/pb.h\<close> over a byte-addressed memory, and the field
    iterator of \<open>nanopb/pb_common.c\<close>. A search ends within one turn around the table, and for a table that describes
    a struct (\<open>describes\<close>) the iterator has the addresses of the members.
  \<^item> \<open>Pb_Encode\<close>: the message level of \<open>nanopb/pb_encode.c\<close>. For tables without callbacks, pointers and
    extensions the encoder writes exactly the bytes of a reference encoding, the sizing passes for
    packed arrays and submessages included, and fails exactly where the reference does.
  \<^item> \<open>Pb_Decode\<close>, \<open>Pb_Decode_Static\<close>: the message level of \<open>nanopb/pb_decode.c\<close>. Messages are accepted
    exactly if every required field came; for exactly 32 and for 64 or more required fields, all there, the check has
    undefined behaviour. For static tables decoding returns and stays in the struct, whatever
    the input and the stream callback do (locale \<open>submessage_decoder\<close>, interpreted on \<open>pb_decode\<close>).
  \<^item> \<open>Buf\<close>: \<open>crypto/buf/buf.c\<close>, parts of \<open>crypto/mem.c\<close>. Growth keeps and zero-extends the contents or
    fails without a change; for a few sizes near \<open>3 * 2 ^ 62\<close> the overflow checks do not help against the prefix of the
    allocator; bounded copies stay in bounds.
  \<^item> \<open>Cbs\<close>: \<open>crypto/bytestring/cbs.c\<close>. The element parser and the integer reader accept exactly the
    canonical encodings of reference definitions.
  \<^item> \<open>Cbb\<close>: \<open>crypto/bytestring/cbb.c\<close>. A builder with its chain of pending children is one record;
    an invariant holds in every state that any sequence of calls reaches from \<open>CBB_init\<close> or \<open>CBB_init_fixed\<close>, failing calls included;
    a flush computes the reference closing of the pending children; what is built is read back by
    \<open>Cbs\<close>. The locale \<open>byte_sink\<close> is the contract the integer writers rely on.
  \<^item> \<open>Ber\<close>: \<open>crypto/bytestring/ber.c\<close>. The recursion ends, and succeeds only within its depth bound; the output is DER; and
    \<open>cbs_find_ber\<close> forgets an element it has found when a clean constructed element follows.
  \<^item> \<open>Base64\<close>: \<open>crypto/base64/base64.c\<close> with the constant-time helpers of \<open>crypto/internal.h\<close>. Block
    and stream round trips, the latter for every way to cut the input into calls.
  \<^item> \<open>Utf8\<close>: \<open>crypto/asn1/a_utf8.c\<close>. The reader and the writer are inverse to each other.
  \<^item> \<open>Lhash\<close>: \<open>crypto/lhash/lhash.c\<close>. Under the contract of the client's hash and comparison functions
    (locale \<open>hash_cmp\<close>) every run of the table gives the answers of a list; while memory is granted the load stays between one and three.
  \<^item> \<open>Pool\<close>: \<open>crypto/pool/pool.c\<close> and \<open>crypto/refcount_lock.c\<close>. Threads are interleaved at the granularity
    of the critical sections; no run uses freed memory, and equal contents are one buffer.
  \<^item> \<open>Stack\<close>: \<open>crypto/stack/stack.c\<close>. Every operation refines one on lists; \<open>sk_find\<close> is right for every
    \<open>qsort\<close> and \<open>bsearch\<close> within the C standard (locale \<open>libc_sort\<close>); \<open>sk_set\<close> leaves a stale flag.
  \<^item> \<open>Bio_Pair\<close>: \<open>crypto/bio/pair.c\<close> and the dispatch of \<open>crypto/bio/bio.c\<close>. The ring buffers refine two
    queues under every sequence of calls, and the copying loops end.
  \<^item> \<open>Modes\<close>: \<open>crypto/fipsmodule/modes\<close> \<open>ofb.c\<close>, \<open>cfb.c\<close>, \<open>ctr.c\<close>. The block-wise routines equal the
    byte-at-a-time loop, their key streams are those of the modes, decryption undoes encryption (locale \<open>stream_mode\<close>), and the 32-bit counter
    routine equals the 128-bit one.
  \<^item> \<open>Cbc\<close>: \<open>crypto/fipsmodule/modes/cbc.c\<close>, over a memory in which the buffers may overlap. Decryption gets the whole blocks right wherever the
    assertion of the function allows the output to lie, a partial block where the output does not begin inside it, and undoes encryption for every length.
  \<^item> \<open>Runs\<close>: runs of a component and of its specification, and the locale \<open>simulation\<close>, in which one
    simulation step gives the same outputs for every run; interpreted on the components below.
  \<^item> \<open>Stream_Map\<close>: gRPC \<open>chttp2/transport/stream_map.cc\<close>. Every run answers as a finite map.
  \<^item> \<open>Timer_Heap\<close>: gRPC \<open>lib/iomgr/timer_heap.cc\<close>. Every run answers as a set of timers with a minimum, and
    emptying the heap sorts them.
  \<^item> \<open>Avl\<close>, \<open>Avl_Store\<close>, \<open>Avl_Map\<close>: gRPC \<open>lib/avl/avl.cc\<close>, the persistent tree with reference counts.
    \<open>Avl\<close> has the operations over a store of nodes; \<open>Avl_Store\<close> an ownership invariant (every count
    is the number of pointers) and what each step does to it; \<open>Avl_Map\<close> the reading as maps. Every
    run is free of dangling pointers, double frees and failed assertions, answers as maps do, and leaks
    nothing; heights stay logarithmic.
  \<^item> \<open>Hpack_Table\<close>: gRPC \<open>chttp2/transport/hpack_table.cc\<close>. Every run answers as the table of RFC 7541, and searching
    and addressing agree.
  \<^item> \<open>Http2_Frames\<close>, \<open>Http2_Slices\<close>: gRPC \<open>chttp2/transport\<close> \<open>frame_settings.cc\<close>, \<open>frame_ping.cc\<close>, \<open>frame_rst_stream.cc\<close>,
    \<open>frame_window_update.cc\<close>, \<open>frame_goaway.cc\<close> and \<open>http2_settings.cc\<close>. The parsers do not depend on how a
    payload is cut into slices (locale \<open>frame_parser\<close>, interpreted on all five), and read back what the writers wrote.
  \<^item> \<open>Http2_Deframe\<close>: \<open>grpc_chttp2_perform_read\<close> of \<open>parsing.cc\<close>. Under the contract of the frame parsers (locale
    \<open>deframing\<close>) reading slices equals handling whole frames; the locale \<open>control_deframing\<close> has the contract for some types of frame
    only, and concludes the same for sequences of these.
  \<^item> \<open>Http2_Connection\<close>: \<open>init_frame_parser\<close> and \<open>parse_frame_slice\<close> of \<open>parsing.cc\<close>, which discharge that contract for all frames but data, headers and continuations. Every
    control frame that is written and then read in any slices has its effect; settings stay within their bounds; the
    acknowledgement of settings resizes the HPACK table; a ping that comes too early counts as two strikes.

  \<^bold>\<open>Conventions.\<close> A C function becomes a function of the same name from the state it reads to the
  state it leaves and its result. Error returns are \<open>None\<close>, \<open>False\<close> or a value of a sum type; failed
  assertions and uses of freed memory are error values that the theorems exclude. Machine integers are
  words, or naturals with \<open>sz\<close> where the code computes sizes. The target is the 64-bit one of the
  application: \<open>size_t\<close> has 64 bits and \<open>STRICT_ALIGNMENT\<close> is 0; nanopb is built with
  \<open>PB_FIELD_32BIT\<close>.

  \<^bold>\<open>Bounds and fuel.\<close> Loops are \<open>fun\<close> or \<open>function\<close> with a measure. The converter of \<open>Ber\<close> carries a
  fuel argument; its theory proves that more fuel than input bytes always gives a result, and that success means that the depth check was never
  met. The
  copying loops of \<open>Bio_Pair\<close> are \<open>partial_function (option)\<close>, and a theorem states that they
  return in every reachable state. The message level of nanopb carries a depth for nested
  submessages (a table is a tree in the model, and the theorems ask only that the depth covers
  it), and its loops count turns: the length of the table for a search and the bytes left for
  decoding loops. Running out is \<open>None\<close>, as is undefined behaviour, and \<open>pb_decode_safe\<close>
  and \<open>pb_encode_exact\<close> exclude both. The stream map asks for keys in increasing order, as HTTP/2 gives
  them; the timer heap for fewer than \<open>2 ^ 30\<close> timers, below the overflow of its 32-bit indices. The
  HPACK table for sizes up to \<open>2 ^ 32 - 32\<close>. Slices of the
  deframer together stay below \<open>2 ^ 32\<close> bytes, since the code casts their length to 32 bits. The recursions over AVL trees take the height that the root stores as fuel.

  \<^bold>\<open>Parameters.\<close> Code that is not in the repository or that is passed in is an argument: stream
  callbacks, the field and extension callbacks of nanopb messages (\<open>pb_env\<close>, \<open>pb_dec_env\<close>), hash and
  comparison functions, \<open>qsort\<close> and \<open>bsearch\<close>, block ciphers and the 32-bit
  counter routines, the contents of fresh memory, the results of \<open>rand\<close>, the clock, the deadlines of timers, the parsers of HTTP/2 data and header frames and the effect of
  the calls that control frames make into the transport (\<open>others\<close>, of which nothing is assumed), and the
  addresses \<open>malloc\<close> returns (\<open>fresh_malloc\<close>) and the order of keys (\<open>compares\<close>) of the AVL tree. What is asked of them are the assumptions of the locales above, or the named
  predicates \<open>block_fun\<close> and \<open>ctr32_func\<close>.

  \<^bold>\<open>Not modelled.\<close> The parts of nanopb that \<open>PB_ENABLE_MALLOC\<close> would add; GCM; ciphers, digests, bignums and public-key code; X.509, PEM, EVP
  and the ASN.1 templates; threads, random numbers, error queues, file and socket BIOs; the
  TLS code, the polling code of gRPC and its transport beyond the parts above (data and header frames, flow control, writing), and leveldb, which are C++ over sockets, threads and files; the Objective-C runtimes; the Swift application, which is
  user interface and network calls.
\<close>

end
